(* ===== verification/JS_Prelude.thy ===== *)
theory JS_Prelude
  imports Complex_Main "HOL-Library.AList"
begin

section \<open>Prelude: JavaScript values, results and ordered maps\<close>

text \<open>
  What the components share: the values a JavaScript function can be handed (the sources check
  their arguments dynamically, so the arguments of the public operations are of type \<open>jsval\<close>),
  the errors they throw, the result type with its sequencing operator, the insertion-ordered
  \<^verbatim>\<open>Map\<close> of the language as an association list, and the interface of a keyed store as a
  locale with the lemmas every client of such a store needs.

  Numbers: an integer-valued number is \<open>JInt\<close>; a finite number that is not an integer is
  \<open>JFrac q\<close> with its exact value (a finite double is a rational), and \<open>JInf\<close> and \<open>JNaN\<close> are the two
  remaining kinds (the sign of an infinity is not looked at by the modelled operations).
  Strings are Isabelle strings. Objects are lists of key and value pairs in creation order; the
  reordering of array-index keys by the language and the special key \<^verbatim>\<open>__proto__\<close> are
  outside the model (the keys of the modelled documents are sprint ids, bead ids and tokens).
\<close>

named_theorems js_simps \<open>unfolding of the dynamic checks on JavaScript values\<close>
named_theorems store_simps \<open>lookup laws of the ordered maps and of the stores built on them\<close>

subsection \<open>Values\<close>

datatype jsval =
    JUndef
  | JNull
  | JBool bool
  | JInt int
  | JFrac rat
  | JInf
  | JNaN
  | JStr string
  | JArr "jsval list"
  | JObj "(string \<times> jsval) list"

datatype fs_err = EPERM | EBUSY | ENOENT | EACCES | EOTHER

datatype js_error =
    TypeError string
  | GeneralError string
  | FsError fs_err
  | BeadsViewUnavailable string

type_synonym 'a res = "js_error + 'a"

text \<open>A value is nullish when it is \<^verbatim>\<open>undefined\<close> or \<^verbatim>\<open>null\<close> (\<^verbatim>\<open>v == null\<close>).\<close>

definition nullish :: "jsval \<Rightarrow> bool" where
  "nullish v \<longleftrightarrow> v = JUndef \<or> v = JNull"

fun truthy :: "jsval \<Rightarrow> bool" where
  "truthy JUndef = False"
| "truthy JNull = False"
| "truthy (JBool b) = b"
| "truthy (JInt i) = (i \<noteq> 0)"
| "truthy JNaN = False"
| "truthy (JStr s) = (s \<noteq> [])"
| "truthy _ = True"

text \<open>\<^verbatim>\<open>typeof v === 'object'\<close>, which holds of \<^verbatim>\<open>null\<close> and of arrays too.\<close>

fun typeof_object :: "jsval \<Rightarrow> bool" where
  "typeof_object JNull = True"
| "typeof_object (JArr _) = True"
| "typeof_object (JObj _) = True"
| "typeof_object _ = False"

text \<open>
  Property access \<^verbatim>\<open>v.k\<close>: it throws on \<^verbatim>\<open>undefined\<close> and \<^verbatim>\<open>null\<close>, looks an object up, and is
  \<^verbatim>\<open>undefined\<close> for a missing key and for every other value (no modelled access names a built-in
  property of a number, a string or an array).
\<close>

fun jprop :: "jsval \<Rightarrow> string \<Rightarrow> jsval res" where
  "jprop JUndef k = Inl (TypeError ''cannot read property'')"
| "jprop JNull k = Inl (TypeError ''cannot read property'')"
| "jprop (JObj kvs) k = Inr (case map_of kvs k of None \<Rightarrow> JUndef | Some v \<Rightarrow> v)"
| "jprop _ k = Inr JUndef"

text \<open>
  What a value becomes when it is written with \<^verbatim>\<open>JSON.stringify\<close> and read back with
  \<^verbatim>\<open>JSON.parse\<close>: properties whose value is \<^verbatim>\<open>undefined\<close> disappear, in an array it becomes
  \<^verbatim>\<open>null\<close>, and so do the numbers that are not finite.
\<close>

fun json_value :: "jsval \<Rightarrow> jsval" where
  "json_value JInf = JNull"
| "json_value JNaN = JNull"
| "json_value (JArr xs) = JArr (map (\<lambda>x. if x = JUndef then JNull else json_value x) xs)"
| "json_value (JObj kvs) =
     JObj (filter (\<lambda>kv. snd kv \<noteq> JUndef) (map (\<lambda>kv. (fst kv, json_value (snd kv))) kvs))"
| "json_value v = v"

text \<open>The decimal digits of a natural number, as a template literal prints it.\<close>

fun show_nat :: "nat \<Rightarrow> string" where
  "show_nat n =
     (if n < 10 then [char_of (48 + n)] else show_nat (n div 10) @ [char_of (48 + n mod 10)])"

declare show_nat.simps [simp del]

text \<open>Field access on a value already known not to be nullish, and strict equality.\<close>

definition jfield :: "jsval \<Rightarrow> string \<Rightarrow> jsval" where
  "jfield v k = (case jprop v k of Inl _ \<Rightarrow> JUndef | Inr x \<Rightarrow> x)"

fun strict_eq :: "jsval \<Rightarrow> jsval \<Rightarrow> bool" where
  "strict_eq (JArr _) b = False"
| "strict_eq (JObj _) b = False"
| "strict_eq JNaN b = False"
| "strict_eq a b = (a = b)"

fun is_str :: "jsval \<Rightarrow> bool" where
  "is_str (JStr _) = True"
| "is_str _ = False"

definition show_int :: "int \<Rightarrow> string" where
  "show_int i = (if i < 0 then CHR ''-'' # show_nat (nat (- i)) else show_nat (nat i))"

text \<open>The value of a finite number (\<^verbatim>\<open>typeof v === 'number' && Number.isFinite(v)\<close>), and the sign of a difference.\<close>

fun num_val :: "jsval \<Rightarrow> rat option" where
  "num_val (JInt i) = Some (of_int i)"
| "num_val (JFrac q) = Some q"
| "num_val _ = None"

definition sign_of :: "rat \<Rightarrow> int" where
  "sign_of q = (if q < 0 then - 1 else if q = 0 then 0 else 1)"

text \<open>\<^verbatim>\<open>Number.isInteger\<close>.\<close>

fun is_int :: "jsval \<Rightarrow> bool" where
  "is_int (JInt _) = True"
| "is_int _ = False"

definition str_or_empty :: "jsval \<Rightarrow> string" where
  "str_or_empty v = (case v of JStr s \<Rightarrow> s | _ \<Rightarrow> '''')"

definition coalesce :: "jsval \<Rightarrow> jsval \<Rightarrow> jsval" where
  "coalesce a b = (if nullish a then b else a)"

text \<open>The elements of an array, none for any other value (\<^verbatim>\<open>Array.isArray(v) ? v : []\<close>).\<close>

definition rows_of :: "jsval \<Rightarrow> jsval list" where
  "rows_of v = (case v of JArr xs \<Rightarrow> xs | _ \<Rightarrow> [])"

fun join_strings :: "string \<Rightarrow> string list \<Rightarrow> string" where
  "join_strings sep [] = []"
| "join_strings sep [x] = x"
| "join_strings sep (x # y # ys) = x @ sep @ join_strings sep (y # ys)"

text \<open>A request body that is missing is an empty object; the message of an error.\<close>

definition body_or_empty :: "jsval \<Rightarrow> jsval" where
  "body_or_empty body = coalesce body (JObj [])"

definition error_text :: "js_error \<Rightarrow> string" where
  "error_text e = (case e of TypeError s \<Rightarrow> s | GeneralError s \<Rightarrow> s | FsError _ \<Rightarrow> ''file system error''
     | BeadsViewUnavailable s \<Rightarrow> s)"

text \<open>
  A value in a template literal. The digits of a fraction are not part of the model; an array prints
  its elements separated by commas, \<^verbatim>\<open>null\<close> and \<^verbatim>\<open>undefined\<close> elements as nothing.
\<close>

fun js_str :: "jsval \<Rightarrow> string" where
  "js_str JUndef = ''undefined''"
| "js_str JNull = ''null''"
| "js_str (JBool b) = (if b then ''true'' else ''false'')"
| "js_str (JInt i) = show_int i"
| "js_str (JFrac k) = ''(fraction)''"
| "js_str JInf = ''Infinity''"
| "js_str JNaN = ''NaN''"
| "js_str (JStr s) = s"
| "js_str (JArr xs) = join_strings '','' (map (\<lambda>x. if nullish x then [] else js_str x) xs)"
| "js_str (JObj kvs) = ''[object Object]''"

text \<open>
  Text operations. A character is a code unit below 256: the white space of \<^verbatim>\<open>trim\<close> and \<^verbatim>\<open>\s\<close> there is
  9 to 13, the space and the no-break space, and \<^verbatim>\<open>toLowerCase\<close> maps the letters of ASCII and Latin-1.
\<close>

definition js_space :: "char \<Rightarrow> bool" where
  "js_space c \<longleftrightarrow> (let n = (of_char c :: nat) in (9 \<le> n \<and> n \<le> 13) \<or> n = 32 \<or> n = 160)"

definition js_digit :: "char \<Rightarrow> bool" where
  "js_digit c \<longleftrightarrow> (let n = (of_char c :: nat) in 48 \<le> n \<and> n \<le> 57)"

definition js_trim :: "string \<Rightarrow> string" where
  "js_trim s = rev (dropWhile js_space (rev (dropWhile js_space s)))"

definition js_lower_char :: "char \<Rightarrow> char" where
  "js_lower_char c =
     (let n = (of_char c :: nat) in
      if (65 \<le> n \<and> n \<le> 90) \<or> (192 \<le> n \<and> n \<le> 222 \<and> n \<noteq> 215) then char_of (n + 32) else c)"

definition js_lower :: "string \<Rightarrow> string" where
  "js_lower = map js_lower_char"

fun js_split :: "char \<Rightarrow> string \<Rightarrow> string list" where
  "js_split sep [] = [[]]"
| "js_split sep (c # cs) =
     (if c = sep then [] # js_split sep cs
      else (case js_split sep cs of [] \<Rightarrow> [[c]] | w # ws \<Rightarrow> (c # w) # ws))"

definition js_startsWith :: "string \<Rightarrow> string \<Rightarrow> bool" where
  "js_startsWith s p \<longleftrightarrow> take (length p) s = p"

text \<open>\<^verbatim>\<open>String.prototype.includes\<close>.\<close>

fun str_includes :: "string \<Rightarrow> string \<Rightarrow> bool" where
  "str_includes [] m = (m = [])"
| "str_includes (c # cs) m = (take (length m) (c # cs) = m \<or> str_includes cs m)"

definition dquoted :: "string \<Rightarrow> string" where
  "dquoted s = CHR 0x22 # s @ [CHR 0x22]"

definition squoted :: "string \<Rightarrow> string" where
  "squoted s = CHR 0x27 # s @ [CHR 0x27]"

text \<open>Sorting with a comparison function (\<^verbatim>\<open>Array.prototype.sort\<close> is stable).\<close>

fun insert_by :: "('a \<Rightarrow> 'a \<Rightarrow> int) \<Rightarrow> 'a \<Rightarrow> 'a list \<Rightarrow> 'a list" where
  "insert_by cmp x [] = [x]"
| "insert_by cmp x (y # ys) = (if cmp x y \<le> 0 then x # y # ys else y # insert_by cmp x ys)"

definition sort_by :: "('a \<Rightarrow> 'a \<Rightarrow> int) \<Rightarrow> 'a list \<Rightarrow> 'a list" where
  "sort_by cmp xs = foldr (insert_by cmp) xs []"

lemma set_insert_by [simp]: "set (insert_by cmp x ys) = insert x (set ys)"
  by (induction ys) auto

lemma set_sort_by [simp]: "set (sort_by cmp xs) = set xs"
  unfolding sort_by_def by (induction xs) auto

text \<open>
  \<^verbatim>\<open>Number.parseInt(v, 10)\<close>: the digits at the front of the printed value, after white space and a sign; \<open>None\<close>
  is \<^verbatim>\<open>NaN\<close>.
\<close>

definition read_digits :: "string \<Rightarrow> int option" where
  "read_digits s =
     (let ds = takeWhile js_digit s
      in if ds = [] then None else Some (foldl (\<lambda>a c. a * 10 + (int (of_char c) - 48)) 0 ds))"

definition js_parseInt :: "jsval \<Rightarrow> int option" where
  "js_parseInt v =
     (case dropWhile js_space (js_str v) of
        CHR ''-'' # s \<Rightarrow> map_option uminus (read_digits s)
      | CHR ''+'' # s \<Rightarrow> read_digits s
      | s \<Rightarrow> read_digits s)"

text \<open>A chain \<^verbatim>\<open>v && v.k\<close>.\<close>

definition and_field :: "jsval \<Rightarrow> string \<Rightarrow> jsval" where
  "and_field v k = (if truthy v then jfield v k else v)"

text \<open>An HTTP answer: the status code and the JSON body given to \<^verbatim>\<open>sendJson\<close>.\<close>

type_synonym reply = "nat \<times> jsval"

text \<open>What becomes of a remote call: it may be lost on the way there, or its answer on the way back.\<close>

datatype transport = Delivered | LostRequest | LostAnswer

text \<open>\<^verbatim>\<open>Object.entries\<close>: it throws on \<^verbatim>\<open>null\<close> and lists an array under its indices.\<close>

fun object_entries :: "jsval \<Rightarrow> (string \<times> jsval) list res" where
  "object_entries JUndef = Inl (TypeError ''cannot convert undefined or null to object'')"
| "object_entries JNull = Inl (TypeError ''cannot convert undefined or null to object'')"
| "object_entries (JObj kvs) = Inr kvs"
| "object_entries (JArr xs) = Inr (zip (map show_nat [0..<length xs]) xs)"
| "object_entries _ = Inr []"

text \<open>A non-empty string argument, the check most operations make on a sprint id.\<close>

fun nonempty_str :: "jsval \<Rightarrow> string option" where
  "nonempty_str (JStr s) = (if s = [] then None else Some s)"
| "nonempty_str _ = None"

fun js_of_opt :: "string option \<Rightarrow> jsval" where
  "js_of_opt None = JNull"
| "js_of_opt (Some s) = JStr s"

fun js_of_pid :: "int option \<Rightarrow> jsval" where
  "js_of_pid None = JNull"
| "js_of_pid (Some i) = JInt i"

subsection \<open>Results\<close>

fun ebind :: "'e + 'a \<Rightarrow> ('a \<Rightarrow> 'e + 'b) \<Rightarrow> 'e + 'b" where
  "ebind (Inl e) f = Inl e"
| "ebind (Inr x) f = f x"

text \<open>Running a fallible function over a list, in order, stopping at the first error.\<close>

fun emap :: "('a \<Rightarrow> 'e + 'b) \<Rightarrow> 'a list \<Rightarrow> 'e + 'b list" where
  "emap f [] = Inr []"
| "emap f (x # xs) = ebind (f x) (\<lambda>y. ebind (emap f xs) (\<lambda>ys. Inr (y # ys)))"

lemma ebind_eq_Inr: "ebind m f = Inr y \<longleftrightarrow> (\<exists>x. m = Inr x \<and> f x = Inr y)"
  by (cases m) auto

lemma ebind_eq_Inl: "ebind m f = Inl e \<longleftrightarrow> m = Inl e \<or> (\<exists>x. m = Inr x \<and> f x = Inl e)"
  by (cases m) auto

lemma emap_Inr_map: "(\<And>x. x \<in> set xs \<Longrightarrow> f x = Inr (g x)) \<Longrightarrow> emap f xs = Inr (map g xs)"
  by (induction xs) auto

lemma emap_map: "emap f (map g xs) = emap (\<lambda>x. f (g x)) xs"
  by (induction xs) auto

lemma emap_eq_InrD: "emap f xs = Inr ys \<Longrightarrow> list_all2 (\<lambda>x y. f x = Inr y) xs ys"
  by (induction xs arbitrary: ys) (auto simp: ebind_eq_Inr)

lemma nullish_simps [simp, js_simps]:
  "nullish JUndef" "nullish JNull" "\<not> nullish (JStr s)" "\<not> nullish (JInt i)"
  "\<not> nullish (JArr xs)" "\<not> nullish (JObj kvs)" "\<not> nullish (JBool b)"
  "\<not> nullish (JFrac k)" "\<not> nullish JInf" "\<not> nullish JNaN"
  by (simp_all add: nullish_def)

lemma js_of_opt_neq_JUndef [simp]: "js_of_opt x \<noteq> JUndef" "js_of_pid y \<noteq> JUndef"
  by (cases x; simp) (cases y; simp)

lemma json_value_opt [simp]:
  "json_value (js_of_opt x) = js_of_opt x" "json_value (js_of_pid y) = js_of_pid y"
  by (cases x; simp) (cases y; simp)

lemma json_value_eq_JUndef [simp]: "json_value v = JUndef \<longleftrightarrow> v = JUndef"
  by (cases v) auto

lemma json_value_strs [simp]:
  "(\<lambda>x. if x = JUndef then JNull else json_value x) \<circ> JStr = JStr"
  by auto

subsection \<open>Decimal numerals\<close>

lemma show_nat_digits: "c \<in> set (show_nat n) \<Longrightarrow> 48 \<le> (of_char c :: nat) \<and> of_char c \<le> (57 :: nat)"
proof (induction n rule: show_nat.induct)
  case (1 n)
  from 1(2) show ?case
    by (subst (asm) show_nat.simps) (auto simp: of_char_of take_bit_eq_mod split: if_splits dest: 1(1))
qed

lemma show_nat_neq_Nil [simp]: "show_nat n \<noteq> []"
  by (subst show_nat.simps) simp

definition read_nat :: "string \<Rightarrow> nat" where
  "read_nat s = foldl (\<lambda>a c. a * 10 + (of_char c - 48)) 0 s"

lemma read_show_nat: "read_nat (show_nat n) = n"
proof (induction n rule: show_nat.induct)
  case (1 n)
  then show ?case
    by (subst show_nat.simps) (auto simp: read_nat_def of_char_of take_bit_eq_mod)
qed

lemma show_nat_inj [simp]: "show_nat m = show_nat n \<longleftrightarrow> m = n"
  by (metis read_show_nat)

lemma split_first_eq: "as @ x # bs = cs @ x # ds \<Longrightarrow> x \<notin> set as \<Longrightarrow> x \<notin> set cs \<Longrightarrow> as = cs \<and> bs = ds"
  by (induction as arbitrary: cs) (case_tac cs; auto)+

lemma split_last_eq:
  assumes "xs @ x # ys = us @ x # vs" "x \<notin> set ys" "x \<notin> set vs"
  shows "xs = us \<and> ys = vs"
proof -
  have "rev (xs @ x # ys) = rev (us @ x # vs)" using assms(1) by simp
  then have "rev ys @ x # rev xs = rev vs @ x # rev us" by simp
  then have "rev ys = rev vs \<and> rev xs = rev us"
    by (rule split_first_eq) (use assms in simp_all)
  then show ?thesis by simp
qed

lemma find_SomeD: "find P xs = Some x \<Longrightarrow> x \<in> set xs \<and> P x"
  by (induction xs) (auto split: if_splits)

lemma find_ex: "x \<in> set xs \<Longrightarrow> P x \<Longrightarrow> \<exists>y. find P xs = Some y"
  by (induction xs) auto

lemma find_append: "find P (xs @ ys) = (case find P xs of Some x \<Rightarrow> Some x | None \<Rightarrow> find P ys)"
  by (induction xs) auto

subsection \<open>The ordered Map of the language\<close>

text \<open>
  A JavaScript \<^verbatim>\<open>Map\<close> iterates in insertion order; setting a key that is present keeps its place.
  This is \<open>AList.update\<close>; deleting is \<open>AList.delete\<close>, and \<open>map_of\<close> looks up. The keys of a
  \<^verbatim>\<open>Map\<close> are distinct.
\<close>

type_synonym ('k, 'v) jsmap = "('k \<times> 'v) list"

abbreviation jkeys :: "('k, 'v) jsmap \<Rightarrow> 'k list" where
  "jkeys m \<equiv> map fst m"

definition jmap_ok :: "('k, 'v) jsmap \<Rightarrow> bool" where
  "jmap_ok m \<longleftrightarrow> distinct (jkeys m)"

lemma map_of_update [simp, store_simps]: "map_of (AList.update k v m) = (map_of m)(k \<mapsto> v)"
  by (rule update_conv')

lemma map_of_delete [simp, store_simps]: "map_of (AList.delete k m) = (map_of m)(k := None)"
  by (rule delete_conv')

lemma jmap_ok_update [simp, intro]: "jmap_ok m \<Longrightarrow> jmap_ok (AList.update k v m)"
  by (simp add: jmap_ok_def distinct_update)

lemma jmap_ok_delete [simp, intro]: "jmap_ok m \<Longrightarrow> jmap_ok (AList.delete k m)"
  by (simp add: jmap_ok_def distinct_delete)

lemma jmap_ok_Nil [simp]: "jmap_ok []"
  by (simp add: jmap_ok_def)

lemma update_fresh_snoc: "k \<notin> set (jkeys m) \<Longrightarrow> AList.update k v m = m @ [(k, v)]"
  by (induction m) auto

lemma update_fresh_None: "map_of m k = None \<Longrightarrow> AList.update k v m = m @ [(k, v)]"
  by (simp add: update_fresh_snoc map_of_eq_None_iff)

lemma jmap_ok_mem: "jmap_ok m \<Longrightarrow> (k, v) \<in> set m \<longleftrightarrow> map_of m k = Some v"
  by (auto simp: jmap_ok_def map_of_is_SomeI dest: map_of_SomeD)

lemma map_of_map_snd: "map_of (map (\<lambda>p. (fst p, f (snd p))) m) k = map_option f (map_of m k)"
  by (induction m) auto

lemma map_of_SomeI_ok: "jmap_ok m \<Longrightarrow> (k, v) \<in> set m \<Longrightarrow> map_of m k = Some v"
  by (simp add: jmap_ok_mem)

lemma set_update_subset: "set (AList.update k v m) \<subseteq> insert (k, v) (set m)"
  by (induction m) auto

lemma keys_update: "set (jkeys (AList.update k v m)) = insert k (set (jkeys m))"
  by (induction m) auto

lemma keys_delete: "set (jkeys (AList.delete k m)) = set (jkeys m) - {k}"
  by (auto simp: delete_keys)

subsection \<open>The interface of a keyed store\<close>

text \<open>
  What a client of a keyed store relies on: a lookup after an insertion and after a removal.
  \<open>del_all\<close> is the client's loop that removes a list of keys.
\<close>

locale keyed_store =
  fixes get :: "'s \<Rightarrow> 'k \<Rightarrow> 'v option"
    and put :: "'k \<Rightarrow> 'v \<Rightarrow> 's \<Rightarrow> 's"
    and del :: "'k \<Rightarrow> 's \<Rightarrow> 's"
  assumes get_put: "get (put k v s) j = (if j = k then Some v else get s j)"
    and get_del: "get (del k s) j = (if j = k then None else get s j)"
begin

lemma get_del_all: "get (fold del ks s) j = (if j \<in> set ks then None else get s j)"
  by (induction ks arbitrary: s) (auto simp: get_del)

lemma del_put: "get (del k (put k v s)) j = (if j = k then None else get s j)"
  by (simp add: get_del get_put)

lemma put_put_other: "i \<noteq> k \<Longrightarrow> get (put i w (put k v s)) k = Some v"
  by (simp add: get_put)

end

interpretation amap: keyed_store map_of AList.update AList.delete
  by unfold_locales (simp_all add: map_of_update map_of_delete)

subsection \<open>The interface of an operation-driven component\<close>

text \<open>
  A component that is created once and then driven by operations: what holds initially and is kept by
  every operation holds after every sequence of operations, and after every prefix of one.
\<close>

locale op_machine =
  fixes start :: 's
    and step :: "'op \<Rightarrow> 's \<Rightarrow> 's"
    and inv :: "'s \<Rightarrow> bool"
  assumes start_inv: "inv start"
    and step_inv: "inv s \<Longrightarrow> inv (step op s)"
begin

lemma run_from: "inv s \<Longrightarrow> inv (fold step ops s)"
  by (induction ops arbitrary: s) (auto intro: step_inv)

lemma run_inv: "inv (fold step ops start)"
  by (rule run_from) (rule start_inv)

lemma run_extend: "fold step (ops @ more) start = fold step more (fold step ops start)"
  by simp

end

end
