(* ===== verification/Atomic_File.thy ===== *)
theory Atomic_File
  imports JS_Prelude
begin

section \<open>Atomic replacement of a state file\<close>

text \<open>
  \<^verbatim>\<open>packages/apra-fleet-se/src/supervisor/rename-with-retry.mjs\<close>, and the \<^verbatim>\<open>persist\<close> step that
  \<^verbatim>\<open>ledger.mjs\<close>, \<^verbatim>\<open>history.mjs\<close> and \<^verbatim>\<open>id-allocator.mjs\<close> share: create the directory, write the
  document to a temporary file, rename it over the real file with a bounded retry.

  The file system is a parameter of each call: the outcome of \<^verbatim>\<open>mkdir\<close>, of \<^verbatim>\<open>writeFile\<close> and of the
  \<open>n\<close>-th \<^verbatim>\<open>rename\<close> attempt. A file's content is what \<^verbatim>\<open>JSON.parse\<close> makes of it.
\<close>

datatype json_file = NotJson | Json jsval

record fs =
  main_file :: "json_file option"
  tmp_file :: "json_file option"

text \<open>The outcomes of the calls of one \<^verbatim>\<open>persist\<close>: \<open>None\<close> is success.\<close>

record io =
  mkdir_out :: "fs_err option"
  write_out :: "fs_err option"
  rename_out :: "nat \<Rightarrow> fs_err option"

definition io_ok :: io where
  "io_ok = \<lparr>mkdir_out = None, write_out = None, rename_out = (\<lambda>_. None)\<rparr>"

definition RENAME_RETRY_DEFAULT_MAX_ATTEMPTS :: int where
  "RENAME_RETRY_DEFAULT_MAX_ATTEMPTS = 5"

definition RENAME_RETRY_DEFAULT_BASE_DELAY_MS :: int where
  "RENAME_RETRY_DEFAULT_BASE_DELAY_MS = 10"

text \<open>The option defaults: \<open>jsval\<close> because the options object is unchecked.\<close>

fun retry_max_attempts :: "jsval \<Rightarrow> int" where
  "retry_max_attempts (JInt n) = (if n > 0 then n else RENAME_RETRY_DEFAULT_MAX_ATTEMPTS)"
| "retry_max_attempts _ = RENAME_RETRY_DEFAULT_MAX_ATTEMPTS"

fun retry_base_delay :: "jsval \<Rightarrow> int" where
  "retry_base_delay (JInt n) = (if n \<ge> 0 then n else RENAME_RETRY_DEFAULT_BASE_DELAY_MS)"
| "retry_base_delay _ = RENAME_RETRY_DEFAULT_BASE_DELAY_MS"

definition retryable :: "fs_err \<Rightarrow> bool" where
  "retryable e \<longleftrightarrow> e = EPERM \<or> e = EBUSY"

text \<open>
  The loop. \<open>attempt\<close> is the number of the attempt about to be made; the result is the error, if
  any, with the number of \<^verbatim>\<open>rename\<close> calls made and the sleeps between them, in order.
\<close>

function rename_loop ::
  "(nat \<Rightarrow> fs_err option) \<Rightarrow> nat \<Rightarrow> int \<Rightarrow> nat \<Rightarrow> int list \<Rightarrow> fs_err option \<times> nat \<times> int list"
where
  "rename_loop rename maxAttempts baseDelayMs attempt slept =
     (case rename attempt of
        None \<Rightarrow> (None, attempt, slept)
      | Some err \<Rightarrow>
          if \<not> retryable err \<or> attempt \<ge> maxAttempts then (Some err, attempt, slept)
          else rename_loop rename maxAttempts baseDelayMs (attempt + 1)
                 (slept @ [baseDelayMs * int attempt]))"
  by pat_completeness auto
termination
  by (relation "measure (\<lambda>(rename, m, b, a, s). m - a)") auto

declare rename_loop.simps [simp del]

definition renameWithRetry ::
  "(nat \<Rightarrow> fs_err option) \<Rightarrow> jsval \<Rightarrow> jsval \<Rightarrow> fs_err option \<times> nat \<times> int list"
where
  "renameWithRetry rename maxAttempts baseDelayMs =
     rename_loop rename (nat (retry_max_attempts maxAttempts)) (retry_base_delay baseDelayMs) 1 []"

text \<open>
  \<^verbatim>\<open>persist\<close>: each step throws on failure. The temporary file holds the new document from the
  write on; the rename replaces the real file by it.
\<close>

definition persist :: "io \<Rightarrow> jsval \<Rightarrow> fs \<Rightarrow> unit res \<times> fs" where
  "persist io doc f =
     (case mkdir_out io of
        Some e \<Rightarrow> (Inl (FsError e), f)
      | None \<Rightarrow>
          (case write_out io of
             Some e \<Rightarrow> (Inl (FsError e), f)
           | None \<Rightarrow>
               let f1 = f\<lparr>tmp_file := Some (Json (json_value doc))\<rparr> in
               (case renameWithRetry (rename_out io) JUndef JUndef of
                  (Some e, _) \<Rightarrow> (Inl (FsError e), f1)
                | (None, _) \<Rightarrow> (Inr (), f1\<lparr>main_file := tmp_file f1, tmp_file := None\<rparr>))))"

subsection \<open>The retry loop\<close>

lemma rename_loop_attempts:
  assumes "rename_loop rename m b a s = (r, n, s')" and "0 < a"
  shows "a \<le> n" and "n \<le> max a m"
  using assms
proof (induction rename m b a s arbitrary: r n s' rule: rename_loop.induct)
  case (1 rename m b a s)
  { case 1
    with "1.IH"(1) "1.prems" show ?case
      by (auto simp: rename_loop.simps [of rename m b a s] split: option.splits if_splits
          dest: Suc_leD)
  next
    case 2
    with "1.IH"(2) show ?case
      by (fastforce simp: rename_loop.simps [of rename m b a s] split: option.splits if_splits)
  }
qed

lemma rename_loop_first_success:
  assumes "a \<le> k" and "k \<le> m" and "rename k = None"
    and "\<And>i. a \<le> i \<Longrightarrow> i < k \<Longrightarrow> \<exists>e. rename i = Some e \<and> retryable e"
  shows "rename_loop rename m b a s = (None, k, s @ map (\<lambda>i. b * int i) [a..<k])"
  using assms
proof (induction "k - a" arbitrary: a s)
  case 0
  then show ?case by (simp add: rename_loop.simps)
next
  case (Suc d)
  then have "a < k" by simp
  with Suc.prems obtain e where "rename a = Some e" "retryable e" by blast
  moreover have "rename_loop rename m b (a + 1) (s @ [b * int a])
      = (None, k, (s @ [b * int a]) @ map (\<lambda>i. b * int i) [a + 1..<k])"
    using Suc.prems \<open>a < k\<close> Suc.hyps(2) by (intro Suc.hyps(1)) auto
  ultimately show ?case
    using \<open>a < k\<close> Suc.prems(2)
    by (simp add: rename_loop.simps [of rename m b a s] upt_conv_Cons)
qed

lemma rename_loop_gives_up:
  assumes "a \<le> m" and "\<And>i. a \<le> i \<Longrightarrow> i \<le> m \<Longrightarrow> \<exists>e. rename i = Some e \<and> retryable e"
  shows "rename_loop rename m b a s = (rename m, m, s @ map (\<lambda>i. b * int i) [a..<m])"
  using assms
proof (induction "m - a" arbitrary: a s)
  case 0
  then have "a = m" by simp
  with "0.prems" obtain e where "rename m = Some e" by blast
  with \<open>a = m\<close> show ?case by (simp add: rename_loop.simps)
next
  case (Suc d)
  then have "a < m" by simp
  with Suc.prems obtain e where "rename a = Some e" "retryable e" by force
  moreover have "rename_loop rename m b (a + 1) (s @ [b * int a])
      = (rename m, m, (s @ [b * int a]) @ map (\<lambda>i. b * int i) [a + 1..<m])"
    using Suc.prems \<open>a < m\<close> Suc.hyps(2) by (intro Suc.hyps(1)) auto
  ultimately show ?case
    using \<open>a < m\<close> by (simp add: rename_loop.simps [of rename m b a s] upt_conv_Cons)
qed

lemma rename_loop_permanent:
  "rename a = Some e \<Longrightarrow> \<not> retryable e \<Longrightarrow> rename_loop rename m b a s = (Some e, a, s)"
  by (simp add: rename_loop.simps)

subsection \<open>What persisting does to the files\<close>

lemma persist_Inl: "persist io doc f = (Inl e, f') \<Longrightarrow> main_file f' = main_file f"
  by (auto simp: persist_def Let_def split: option.splits prod.splits)

lemma persist_Inr: "persist io doc f = (Inr u, f') \<Longrightarrow>
    main_file f' = Some (Json (json_value doc)) \<and> tmp_file f' = None"
  by (auto simp: persist_def Let_def split: option.splits prod.splits)

lemma persist_io_ok [simp]:
  "persist io_ok doc f = (Inr (), \<lparr>main_file = Some (Json (json_value doc)), tmp_file = None\<rparr>)"
  by (cases f) (simp add: persist_def io_ok_def renameWithRetry_def rename_loop.simps)

end
