(* ===== verification/Ledger.thy ===== *)
theory Ledger
  imports Atomic_File
begin

section \<open>The reservation ledger\<close>

text \<open>
  \<^verbatim>\<open>packages/apra-fleet-se/src/supervisor/ledger.mjs\<close>: the supervisor's record of which sprint
  holds which members and which issue roots. The state of \<^verbatim>\<open>createLedger\<close> is the record
  \<open>ledger\<close>: the committed map, the load flag, the freshness timestamp, the files of the data
  directory, and the log of calls made to the fleet server's reservation client.

  Operations take the outcome of their file-system calls (\<open>io\<close>), whether a reservation client
  was injected, and the clock reading as arguments. \<open>exitCode\<close> and \<open>signal\<close> are raw values
  because \<^verbatim>\<open>recordExit\<close> stores them unchecked.
\<close>

record beads_summary =
  bs_dir :: string
  bs_prefix :: string
  bs_syncRemote :: string
  bs_repoRemote :: string

record reservation =
  members :: "string list"
  issueRoots :: "string list"
  childPid :: "int option"
  reservedAt :: string
  branch :: "string option"
  base :: "string option"
  goal :: "string option"
  exitCode :: jsval
  signal :: jsval
  exitedAt :: "string option"
  logPath :: "string option"
  beads :: "beads_summary option"

datatype server_op = ServerReserve | ServerRelease

type_synonym server_call = "server_op \<times> string \<times> string"

record ledger =
  reservations :: "(string, reservation) jsmap"
  loaded :: bool
  lastSyncedAt :: jsval
  files :: fs
  calls :: "server_call list"

definition LEDGER_VERSION :: int where
  "LEDGER_VERSION = 1"

text \<open>The properties \<^verbatim>\<open>LEDGER_SCHEMA\<close> lists for a reservation; it allows no others.\<close>

definition LEDGER_SCHEMA_reservation :: "string list" where
  "LEDGER_SCHEMA_reservation =
     [''members'', ''issueRoots'', ''childPid'', ''reservedAt'', ''branch'', ''base'', ''goal'',
      ''exitCode'', ''signal'', ''exitedAt'', ''logPath'']"

subsection \<open>Normalisation\<close>

fun dedup_strings :: "string \<Rightarrow> jsval list \<Rightarrow> string list \<Rightarrow> string list res" where
  "dedup_strings label [] out = Inr out"
| "dedup_strings label (item # v) out =
     (case nonempty_str item of
        None \<Rightarrow> Inl (TypeError (label @ '' must contain only non-empty strings''))
      | Some s \<Rightarrow> dedup_strings label v (if s \<in> set out then out else out @ [s]))"

definition toStringArray :: "jsval \<Rightarrow> string \<Rightarrow> string list res" where
  "toStringArray v label =
     (if nullish v then Inr []
      else case v of
             JArr xs \<Rightarrow> dedup_strings label xs []
           | _ \<Rightarrow> Inl (TypeError (label @ '' must be an array of strings'')))"

definition toNullableString :: "jsval \<Rightarrow> string \<Rightarrow> string option res" where
  "toNullableString v label =
     (if nullish v then Inr None
      else case v of
             JStr s \<Rightarrow> Inr (Some s)
           | _ \<Rightarrow> Inl (TypeError (label @ '' must be a string or null'')))"

definition toNullableInt :: "jsval \<Rightarrow> string \<Rightarrow> int option res" where
  "toNullableInt v label =
     (if nullish v then Inr None
      else case v of
             JInt i \<Rightarrow> Inr (Some i)
           | _ \<Rightarrow> Inl (TypeError (label @ '' must be an integer or null'')))"

text \<open>One field of the beads summary: absent and \<^verbatim>\<open>null\<close> become the empty string.\<close>

definition beads_field :: "jsval \<Rightarrow> string \<Rightarrow> string res" where
  "beads_field v k =
     ebind (jprop v k) (\<lambda>f.
       if nullish f then Inr ''''
       else case f of JStr s \<Rightarrow> Inr s | _ \<Rightarrow> Inl (TypeError (''beads.'' @ k @ '' must be a string'')))"

definition normalizeBeadsSummary :: "jsval \<Rightarrow> beads_summary option res" where
  "normalizeBeadsSummary v =
     (if nullish v then Inr None
      else case v of
             JObj kvs \<Rightarrow>
               ebind (beads_field v ''dir'') (\<lambda>d.
               ebind (beads_field v ''prefix'') (\<lambda>p.
               ebind (beads_field v ''syncRemote'') (\<lambda>s.
               ebind (beads_field v ''repoRemote'') (\<lambda>r.
                 Inr (Some \<lparr>bs_dir = d, bs_prefix = p, bs_syncRemote = s, bs_repoRemote = r\<rparr>)))))
           | _ \<Rightarrow> Inl (TypeError ''beads must be an object or null''))"

text \<open>The fields are read and checked in the order of the source.\<close>

definition normalizeReservation :: "string \<Rightarrow> jsval \<Rightarrow> reservation res" where
  "normalizeReservation now input =
     ebind (ebind (jprop input ''members'') (\<lambda>v. toStringArray v ''members'')) (\<lambda>ms.
     ebind (ebind (jprop input ''issueRoots'') (\<lambda>v. toStringArray v ''issueRoots'')) (\<lambda>roots.
     ebind (ebind (jprop input ''childPid'') (\<lambda>v. toNullableInt v ''childPid'')) (\<lambda>pid.
     ebind (jprop input ''reservedAt'') (\<lambda>ra.
     ebind (ebind (jprop input ''branch'') (\<lambda>v. toNullableString v ''branch'')) (\<lambda>br.
     ebind (ebind (jprop input ''base'') (\<lambda>v. toNullableString v ''base'')) (\<lambda>ba.
     ebind (ebind (jprop input ''goal'') (\<lambda>v. toNullableString v ''goal'')) (\<lambda>go.
     ebind (ebind (jprop input ''exitCode'') (\<lambda>v. toNullableInt v ''exitCode'')) (\<lambda>ec.
     ebind (ebind (jprop input ''signal'') (\<lambda>v. toNullableString v ''signal'')) (\<lambda>sg.
     ebind (ebind (jprop input ''exitedAt'') (\<lambda>v. toNullableString v ''exitedAt'')) (\<lambda>ea.
     ebind (ebind (jprop input ''logPath'') (\<lambda>v. toNullableString v ''logPath'')) (\<lambda>lp.
     ebind (ebind (jprop input ''beads'') normalizeBeadsSummary) (\<lambda>bd.
       Inr \<lparr>members = ms, issueRoots = roots, childPid = pid,
            reservedAt = (case ra of JStr s \<Rightarrow> s | _ \<Rightarrow> now),
            branch = br, base = ba, goal = go,
            exitCode = js_of_pid ec, signal = js_of_opt sg,
            exitedAt = ea, logPath = lp, beads = bd\<rparr>))))))))))))"

definition or_null :: "jsval \<Rightarrow> jsval" where
  "or_null v = (if nullish v then JNull else v)"

definition cloneReservation :: "reservation \<Rightarrow> reservation" where
  "cloneReservation r = r\<lparr>exitCode := or_null (exitCode r), signal := or_null (signal r)\<rparr>"

subsection \<open>The persisted document\<close>

fun js_of_beads :: "beads_summary option \<Rightarrow> jsval" where
  "js_of_beads None = JNull"
| "js_of_beads (Some b) =
     JObj [(''dir'', JStr (bs_dir b)), (''prefix'', JStr (bs_prefix b)),
           (''syncRemote'', JStr (bs_syncRemote b)), (''repoRemote'', JStr (bs_repoRemote b))]"

definition js_of_reservation :: "reservation \<Rightarrow> jsval" where
  "js_of_reservation r =
     JObj [(''members'', JArr (map JStr (members r))),
           (''issueRoots'', JArr (map JStr (issueRoots r))),
           (''childPid'', js_of_pid (childPid r)),
           (''reservedAt'', JStr (reservedAt r)),
           (''branch'', js_of_opt (branch r)),
           (''base'', js_of_opt (base r)),
           (''goal'', js_of_opt (goal r)),
           (''exitCode'', exitCode r),
           (''signal'', signal r),
           (''logPath'', js_of_opt (logPath r)),
           (''exitedAt'', js_of_opt (exitedAt r)),
           (''beads'', js_of_beads (beads r))]"

definition ledger_document :: "(string, reservation) jsmap \<Rightarrow> jsval \<Rightarrow> jsval" where
  "ledger_document m synced =
     JObj [(''version'', JInt LEDGER_VERSION),
           (''reservations'', JObj (map (\<lambda>p. (fst p, js_of_reservation (cloneReservation (snd p)))) m)),
           (''scopeFreshness'', JObj [(''lastSyncedAt'', synced)])]"

subsection \<open>Loading\<close>

definition read_file :: "fs_err option \<Rightarrow> fs \<Rightarrow> fs_err + json_file" where
  "read_file rd f =
     (case rd of
        Some e \<Rightarrow> Inl e
      | None \<Rightarrow> (case main_file f of None \<Rightarrow> Inl ENOENT | Some c \<Rightarrow> Inr c))"

definition load_entries :: "string \<Rightarrow> (string \<times> jsval) list \<Rightarrow> (string, reservation) jsmap res" where
  "load_entries now es =
     ebind (emap (\<lambda>p. ebind (normalizeReservation now (snd p)) (\<lambda>r. Inr (fst p, r))) es)
       (\<lambda>rs. Inr (fold (\<lambda>p m. AList.update (fst p) (snd p) m) rs []))"

definition ledger_shape_error :: js_error where
  "ledger_shape_error = GeneralError ''ledger file has an unexpected shape or version''"

definition load_document :: "string \<Rightarrow> jsval \<Rightarrow> ((string, reservation) jsmap \<times> jsval) res" where
  "load_document now doc =
     (if \<not> truthy doc \<or> \<not> typeof_object doc then Inl ledger_shape_error
      else ebind (jprop doc ''version'') (\<lambda>ver.
           ebind (jprop doc ''reservations'') (\<lambda>rs.
             if ver \<noteq> JInt LEDGER_VERSION \<or> \<not> typeof_object rs then Inl ledger_shape_error
             else ebind (object_entries rs) (\<lambda>es.
                  ebind (load_entries now es) (\<lambda>m.
                  ebind (jprop doc ''scopeFreshness'') (\<lambda>sf.
                  ebind (if truthy sf then jprop sf ''lastSyncedAt'' else Inr sf) (\<lambda>ls.
                    Inr (m, if truthy ls then ls else JNull))))))))"

definition ledger_load :: "fs_err option \<Rightarrow> string \<Rightarrow> ledger \<Rightarrow> unit res \<times> ledger" where
  "ledger_load rd now st =
     (case read_file rd (files st) of
        Inl ENOENT \<Rightarrow> (Inr (), st\<lparr>reservations := [], lastSyncedAt := JNull, loaded := True\<rparr>)
      | Inl e \<Rightarrow> (Inl (FsError e), st)
      | Inr NotJson \<Rightarrow> (Inl (GeneralError ''ledger file is not valid JSON''), st)
      | Inr (Json doc) \<Rightarrow>
          (case load_document now doc of
             Inl e \<Rightarrow> (Inl e, st)
           | Inr (m, ls) \<Rightarrow> (Inr (), st\<lparr>reservations := m, lastSyncedAt := ls, loaded := True\<rparr>)))"

definition ledger_start :: "fs_err option \<Rightarrow> string \<Rightarrow> ledger \<Rightarrow> unit res \<times> ledger" where
  "ledger_start rd now st = (if loaded st then (Inr (), st) else ledger_load rd now st)"

subsection \<open>Transactions\<close>

text \<open>
  \<^verbatim>\<open>transact\<close>: apply \<open>mutate\<close> to a deep copy of the committed map, persist the resulting document,
  and only then make the copy the committed map.
\<close>

definition transact ::
  "io \<Rightarrow> ((string, reservation) jsmap \<Rightarrow> ('a \<times> (string, reservation) jsmap) res)
      \<Rightarrow> ledger \<Rightarrow> 'a res \<times> ledger"
where
  "transact io mutate st =
     (case mutate (map (\<lambda>p. (fst p, cloneReservation (snd p))) (reservations st)) of
        Inl e \<Rightarrow> (Inl e, st)
      | Inr (x, draft) \<Rightarrow>
          (case persist io (ledger_document draft (lastSyncedAt st)) (files st) of
             (Inl e, f) \<Rightarrow> (Inl e, st\<lparr>files := f\<rparr>)
           | (Inr _, f) \<Rightarrow> (Inr x, st\<lparr>reservations := draft, files := f\<rparr>)))"

definition driveServerReservation ::
  "bool \<Rightarrow> server_op \<Rightarrow> string \<Rightarrow> string list \<Rightarrow> ledger \<Rightarrow> ledger"
where
  "driveServerReservation client op sid ms st =
     (if client then st\<lparr>calls := calls st @ map (\<lambda>m. (op, m, sid)) ms\<rparr> else st)"

subsection \<open>Operations\<close>

text \<open>
  The transaction of \<^verbatim>\<open>claim\<close> and its server calls, for a normalised reservation. \<^verbatim>\<open>claim\<close> itself
  validates the sprint id, then the input, and runs the transaction.
\<close>

definition claim_tx :: "io \<Rightarrow> bool \<Rightarrow> string \<Rightarrow> reservation \<Rightarrow> ledger \<Rightarrow> reservation res \<times> ledger" where
  "claim_tx io client sid r st =
     (case transact io (\<lambda>draft.
              if map_of draft sid \<noteq> None
              then Inl (GeneralError ''sprint already holds a reservation'')
              else Inr ((), AList.update sid r draft)) st of
        (Inl e, st1) \<Rightarrow> (Inl e, st1)
      | (Inr _, st1) \<Rightarrow>
          (Inr (cloneReservation r), driveServerReservation client ServerReserve sid (members r) st1))"

definition ledger_claim ::
  "io \<Rightarrow> bool \<Rightarrow> string \<Rightarrow> jsval \<Rightarrow> jsval \<Rightarrow> ledger \<Rightarrow> reservation res \<times> ledger"
where
  "ledger_claim io client now sprintId claimInput st =
     (case nonempty_str sprintId of
        None \<Rightarrow> (Inl (TypeError ''claim() requires a non-empty sprintId''), st)
      | Some sid \<Rightarrow>
          (case normalizeReservation now (if claimInput = JUndef then JObj [] else claimInput) of
             Inl e \<Rightarrow> (Inl e, st)
           | Inr r \<Rightarrow> claim_tx io client sid r st))"

text \<open>
  \<^verbatim>\<open>release\<close> reads the member set from the committed map when it is called, before its transaction
  is queued; \<open>release_tx\<close> is the rest, with that captured set.
\<close>

definition held_members :: "string \<Rightarrow> ledger \<Rightarrow> string list" where
  "held_members sid st = (case map_of (reservations st) sid of None \<Rightarrow> [] | Some r \<Rightarrow> members r)"

definition release_tx :: "io \<Rightarrow> bool \<Rightarrow> string \<Rightarrow> string list \<Rightarrow> ledger \<Rightarrow> bool res \<times> ledger" where
  "release_tx io client sid ms st =
     (case transact io (\<lambda>draft. Inr (map_of draft sid \<noteq> None, AList.delete sid draft)) st of
        (Inl e, st1) \<Rightarrow> (Inl e, st1)
      | (Inr removed, st1) \<Rightarrow>
          (Inr removed,
           if removed then driveServerReservation client ServerRelease sid ms st1 else st1))"

definition ledger_release :: "io \<Rightarrow> bool \<Rightarrow> jsval \<Rightarrow> ledger \<Rightarrow> bool res \<times> ledger" where
  "ledger_release io client sprintId st =
     (case nonempty_str sprintId of
        None \<Rightarrow> (Inl (TypeError ''release() requires a non-empty sprintId''), st)
      | Some sid \<Rightarrow> release_tx io client sid (held_members sid st) st)"

text \<open>\<^verbatim>\<open>setChildPid\<close> accepts an integer or \<^verbatim>\<open>null\<close>; \<^verbatim>\<open>undefined\<close> is refused.\<close>

definition ledger_setChildPid :: "io \<Rightarrow> string \<Rightarrow> jsval \<Rightarrow> ledger \<Rightarrow> reservation res \<times> ledger" where
  "ledger_setChildPid io sid pid st =
     (case (case pid of JNull \<Rightarrow> Some None | JInt i \<Rightarrow> Some (Some i) | _ \<Rightarrow> None) of
        None \<Rightarrow> (Inl (TypeError ''childPid must be an integer or null''), st)
      | Some p \<Rightarrow>
          (case transact io (\<lambda>draft.
                   case map_of draft sid of
                     None \<Rightarrow> Inl (GeneralError ''cannot set childPid: sprint holds no reservation'')
                   | Some r \<Rightarrow> (let r' = r\<lparr>childPid := p\<rparr> in Inr (r', AList.update sid r' draft))) st of
             (Inl e, st1) \<Rightarrow> (Inl e, st1)
           | (Inr r', st1) \<Rightarrow> (Inr (cloneReservation r'), st1)))"

definition undef_to_null :: "jsval \<Rightarrow> jsval" where
  "undef_to_null v = (if v = JUndef then JNull else v)"

definition exit_mutate ::
  "string \<Rightarrow> string \<Rightarrow> jsval \<Rightarrow> (string, reservation) jsmap \<Rightarrow> (reservation \<times> (string, reservation) jsmap) res"
where
  "exit_mutate now sid info draft =
     (case map_of draft sid of
        None \<Rightarrow> Inl (GeneralError ''cannot record exit: sprint holds no reservation'')
      | Some r \<Rightarrow>
          ebind (jprop info ''exitCode'') (\<lambda>ec.
          ebind (jprop info ''signal'') (\<lambda>sg.
          ebind (jprop info ''at'') (\<lambda>t_at.
            let r' = r\<lparr>exitCode := undef_to_null ec, signal := undef_to_null sg,
                       exitedAt := Some (case t_at of JStr s \<Rightarrow> s | _ \<Rightarrow> now)\<rparr>
            in Inr (r', AList.update sid r' draft)))))"

definition ledger_recordExit ::
  "io \<Rightarrow> string \<Rightarrow> jsval \<Rightarrow> jsval \<Rightarrow> ledger \<Rightarrow> reservation res \<times> ledger"
where
  "ledger_recordExit io now sprintId info st =
     (case nonempty_str sprintId of
        None \<Rightarrow> (Inl (TypeError ''recordExit() requires a non-empty sprintId''), st)
      | Some sid \<Rightarrow>
          (case transact io (exit_mutate now sid (if info = JUndef then JObj [] else info)) st of
             (Inl e, st1) \<Rightarrow> (Inl e, st1)
           | (Inr r', st1) \<Rightarrow> (Inr (cloneReservation r'), st1)))"

definition ledger_get :: "string \<Rightarrow> ledger \<Rightarrow> reservation option" where
  "ledger_get sid st = map_option cloneReservation (map_of (reservations st) sid)"

definition ledger_list :: "ledger \<Rightarrow> (string \<times> reservation) list" where
  "ledger_list st = map (\<lambda>p. (fst p, cloneReservation (snd p))) (reservations st)"

definition ledger_size :: "ledger \<Rightarrow> nat" where
  "ledger_size st = length (reservations st)"

text \<open>
  \<^verbatim>\<open>getScopeFreshness\<close>: \<open>date_ms\<close> is \<^verbatim>\<open>new Date(..).getTime()\<close>, \<open>None\<close> for \<^verbatim>\<open>NaN\<close>; a clock reading
  of 0 from the injected clock falls through to \<^verbatim>\<open>Date.now()\<close>.
\<close>

definition getScopeFreshness ::
  "(jsval \<Rightarrow> int option) \<Rightarrow> int option \<Rightarrow> int \<Rightarrow> ledger \<Rightarrow> jsval \<times> jsval"
where
  "getScopeFreshness date_ms getNow date_now st =
     (if lastSyncedAt st = JNull then (JNull, JStr ''never-synced'')
      else let cur = (case getNow of Some t \<Rightarrow> (if t \<noteq> 0 then t else date_now) | None \<Rightarrow> date_now)
           in case date_ms (lastSyncedAt st) of
                None \<Rightarrow> (lastSyncedAt st, JNaN)
              | Some t0 \<Rightarrow> (lastSyncedAt st, JInt (max 0 ((cur - t0) div 1000))))"

text \<open>
  \<^verbatim>\<open>setScopeFreshness\<close> assigns the timestamp inside the transaction's mutation, that is before the
  document is written.
\<close>

definition setScopeFreshness :: "io \<Rightarrow> string \<Rightarrow> jsval \<Rightarrow> ledger \<Rightarrow> (jsval \<times> jsval) res \<times> ledger" where
  "setScopeFreshness io now timestamp st =
     (let t = (if truthy timestamp then timestamp else JStr now) in
      transact io (\<lambda>draft. Inr ((t, JInt 0), draft)) (st\<lparr>lastSyncedAt := t\<rparr>))"

subsection \<open>Concurrent callers: the transaction chain\<close>

text \<open>
  Callers of an asynchronous ledger overlap: a call validates its arguments (and, for
  \<^verbatim>\<open>release\<close>, reads the member set) at once and appends its transaction to \<^verbatim>\<open>txChain\<close>; the
  transactions settle one at a time, in order, each with its own file-system outcome.
\<close>

datatype ledger_tx =
    TxClaim string reservation
  | TxRelease string "string list"
  | TxSetChildPid string jsval
  | TxRecordExit string jsval jsval
  | TxSetScopeFreshness string jsval

fun settle_tx :: "io \<Rightarrow> bool \<Rightarrow> ledger_tx \<Rightarrow> ledger \<Rightarrow> ledger" where
  "settle_tx io client (TxClaim sid r) st = snd (claim_tx io client sid r st)"
| "settle_tx io client (TxRelease sid ms) st = snd (release_tx io client sid ms st)"
| "settle_tx io client (TxSetChildPid sid pid) st = snd (ledger_setChildPid io sid pid st)"
| "settle_tx io client (TxRecordExit now sid info) st = snd (ledger_recordExit io now sid info st)"
| "settle_tx io client (TxSetScopeFreshness now ts) st = snd (setScopeFreshness io now ts st)"

record ledger_sys =
  current :: ledger
  txChain :: "ledger_tx list"

definition enqueue :: "ledger_tx \<Rightarrow> ledger_sys \<Rightarrow> ledger_sys" where
  "enqueue t s = s\<lparr>txChain := txChain s @ [t]\<rparr>"

inductive ledger_step :: "bool \<Rightarrow> ledger_sys \<Rightarrow> ledger_sys \<Rightarrow> bool" for client where
  call_claim:
    "nonempty_str sprintId = Some sid \<Longrightarrow> normalizeReservation now input = Inr r \<Longrightarrow>
     ledger_step client s (enqueue (TxClaim sid r) s)"
| call_release:
    "nonempty_str sprintId = Some sid \<Longrightarrow>
     ledger_step client s (enqueue (TxRelease sid (held_members sid (current s))) s)"
| call_setChildPid:
    "pid = JNull \<or> pid = JInt i \<Longrightarrow> ledger_step client s (enqueue (TxSetChildPid sid pid) s)"
| call_recordExit:
    "info = JObj [(''exitCode'', js_of_pid ec), (''signal'', js_of_opt sg), (''at'', JStr t_at)] \<Longrightarrow>
     ledger_step client s (enqueue (TxRecordExit now (JStr sid) info) s)"
| call_setScopeFreshness:
    "now \<noteq> [] \<Longrightarrow> ts = JUndef \<or> ts = JStr t \<Longrightarrow>
     ledger_step client s (enqueue (TxSetScopeFreshness now ts) s)"
| settle:
    "txChain s = t # q \<Longrightarrow>
     ledger_step client s \<lparr>current = settle_tx io client t (current s), txChain = q\<rparr>"

definition empty_ledger :: ledger where
  "empty_ledger = \<lparr>reservations = [], loaded = True, lastSyncedAt = JNull,
                   files = \<lparr>main_file = None, tmp_file = None\<rparr>, calls = []\<rparr>"

inductive ledger_reachable :: "bool \<Rightarrow> ledger_sys \<Rightarrow> bool" for client where
  boot: "ledger_reachable client \<lparr>current = empty_ledger, txChain = []\<rparr>"
| step: "ledger_reachable client s \<Longrightarrow> ledger_step client s t \<Longrightarrow> ledger_reachable client t"

inductive_cases ledger_stepE: "ledger_step client s t"

subsection \<open>Callers that await each operation\<close>

datatype ledger_op =
    OpClaim string jsval jsval
  | OpRelease jsval
  | OpSetChildPid string jsval
  | OpRecordExit string jsval jsval
  | OpSetScopeFreshness string jsval

fun run_op :: "bool \<Rightarrow> io \<times> ledger_op \<Rightarrow> ledger \<Rightarrow> ledger" where
  "run_op client (io, OpClaim now sid input) st = snd (ledger_claim io client now sid input st)"
| "run_op client (io, OpRelease sid) st = snd (ledger_release io client sid st)"
| "run_op client (io, OpSetChildPid sid pid) st = snd (ledger_setChildPid io sid pid st)"
| "run_op client (io, OpRecordExit now sid info) st = snd (ledger_recordExit io now sid info st)"
| "run_op client (io, OpSetScopeFreshness now ts) st = snd (setScopeFreshness io now ts st)"

text \<open>The last call the server received about a member and a sprint was a reservation.\<close>

definition server_holds :: "server_call list \<Rightarrow> string \<Rightarrow> string \<Rightarrow> bool" where
  "server_holds cs m sid =
     (case find (\<lambda>c. snd c = (m, sid)) (rev cs) of
        Some (ServerReserve, _) \<Rightarrow> True
      | _ \<Rightarrow> False)"

subsection \<open>Well-formed reservations\<close>

definition name_list_ok :: "string list \<Rightarrow> bool" where
  "name_list_ok xs \<longleftrightarrow> distinct xs \<and> [] \<notin> set xs"

definition res_ok :: "reservation \<Rightarrow> bool" where
  "res_ok r \<longleftrightarrow> name_list_ok (members r) \<and> name_list_ok (issueRoots r) \<and>
     (\<exists>ec. exitCode r = js_of_pid ec) \<and> (\<exists>sg. signal r = js_of_opt sg)"

definition map_ok :: "(string, reservation) jsmap \<Rightarrow> bool" where
  "map_ok m \<longleftrightarrow> jmap_ok m \<and> (\<forall>p\<in>set m. res_ok (snd p))"

definition synced_ok :: "jsval \<Rightarrow> bool" where
  "synced_ok v \<longleftrightarrow> v = JNull \<or> (\<exists>s. v = JStr s \<and> s \<noteq> [])"

lemma dedup_strings_spec:
  "dedup_strings label xs out = Inr ys \<Longrightarrow> name_list_ok out \<Longrightarrow>
     name_list_ok ys \<and> set ys = set out \<union> {s. JStr s \<in> set xs}"
proof (induction xs arbitrary: out)
  case (Cons a xs)
  then obtain s where s: "a = JStr s" "s \<noteq> []"
    "dedup_strings label xs (if s \<in> set out then out else out @ [s]) = Inr ys"
    by (cases a) (auto split: if_splits)
  moreover have "name_list_ok (if s \<in> set out then out else out @ [s])"
    using Cons.prems(2) s(2) by (auto simp: name_list_ok_def)
  ultimately show ?case using Cons.IH by auto
qed simp

lemma dedup_strings_strs:
  "name_list_ok (out @ xs) \<Longrightarrow> dedup_strings label (map JStr xs) out = Inr (out @ xs)"
proof (induction xs arbitrary: out)
  case (Cons a xs)
  then have "a \<noteq> []" "a \<notin> set out" "name_list_ok ((out @ [a]) @ xs)"
    by (auto simp: name_list_ok_def)
  then show ?case using Cons.IH [of "out @ [a]"] by simp
qed simp

lemma toStringArray_ok: "toStringArray v label = Inr ys \<Longrightarrow> name_list_ok ys"
  by (auto simp: toStringArray_def name_list_ok_def split: if_splits jsval.splits
      dest!: dedup_strings_spec)

lemma toStringArray_strs [simp]:
  "name_list_ok xs \<Longrightarrow> toStringArray (JArr (map JStr xs)) label = Inr xs"
  using dedup_strings_strs [of "[]" xs] by (simp add: toStringArray_def)

lemma toNullable_roundtrip [simp]:
  "toNullableString (js_of_opt x) label = Inr x" "toNullableInt (js_of_pid y) label = Inr y"
  by (cases x; simp add: toNullableString_def) (cases y; simp add: toNullableInt_def)

lemma toNullableInt_str:
  "toNullableInt (JStr c) label = Inl (TypeError (label @ '' must be an integer or null''))"
  by (simp add: toNullableInt_def)

lemma js_of_beads_neq_JUndef [simp]: "js_of_beads b \<noteq> JUndef"
  by (cases b) auto

lemma json_value_beads [simp]: "json_value (js_of_beads b) = js_of_beads b"
  by (cases b) auto

lemma normalizeBeadsSummary_roundtrip [simp]: "normalizeBeadsSummary (js_of_beads b) = Inr b"
  by (cases b) (auto simp: normalizeBeadsSummary_def beads_field_def)

lemma normalizeReservation_ok: "normalizeReservation now input = Inr r \<Longrightarrow> res_ok r"
  by (auto simp: normalizeReservation_def ebind_eq_Inr res_ok_def dest: toStringArray_ok)

lemma clone_id [simp]: "res_ok r \<Longrightarrow> cloneReservation r = r"
  by (cases r) (auto simp: cloneReservation_def res_ok_def or_null_def nullish_def
      elim: js_of_pid.elims js_of_opt.elims)

lemma map_clone_id [simp]:
  "map_ok m \<Longrightarrow> map (\<lambda>p. (fst p, cloneReservation (snd p))) m = m"
  by (simp add: map_ok_def map_idI)

lemma normalizeReservation_roundtrip:
  assumes "res_ok r"
  shows "normalizeReservation now (json_value (js_of_reservation r)) = Inr r"
proof -
  obtain ec sg where "exitCode r = js_of_pid ec" "signal r = js_of_opt sg"
    using assms by (auto simp: res_ok_def)
  with assms show ?thesis
    by (cases r) (auto simp: normalizeReservation_def js_of_reservation_def res_ok_def)
qed

lemma fold_update_distinct:
  "distinct (jkeys (m @ rs)) \<Longrightarrow> fold (\<lambda>p. AList.update (fst p) (snd p)) rs m = m @ rs"
proof (induction rs arbitrary: m)
  case (Cons p rs)
  then have "AList.update (fst p) (snd p) m = m @ [p]"
    by (simp add: update_fresh_snoc)
  then show ?case using Cons by simp
qed simp

lemma js_of_reservation_neq_JUndef [simp]: "js_of_reservation r \<noteq> JUndef"
  by (simp add: js_of_reservation_def)

lemma filter_defined_reservations:
  "filter (\<lambda>kv. snd kv \<noteq> JUndef)
     (map (\<lambda>p. (fst p, json_value (js_of_reservation (snd p)))) m)
   = map (\<lambda>p. (fst p, json_value (js_of_reservation (snd p)))) m"
  by (induction m) auto

lemma load_entries_roundtrip:
  assumes "map_ok m"
  shows "load_entries now (map (\<lambda>p. (fst p, json_value (js_of_reservation (snd p)))) m) = Inr m"
proof -
  have "emap (\<lambda>p. ebind (normalizeReservation now (snd p)) (\<lambda>r. Inr (fst p, r)))
        (map (\<lambda>p. (fst p, json_value (js_of_reservation (snd p)))) m) = Inr m"
    using assms unfolding map_ok_def
    by (induction m) (auto simp: normalizeReservation_roundtrip jmap_ok_def)
  with assms show ?thesis
    using fold_update_distinct [of "[]" m] by (simp add: load_entries_def map_ok_def jmap_ok_def)
qed

lemma load_document_roundtrip:
  assumes "map_ok m" and "synced_ok ls"
  shows "load_document now (json_value (ledger_document m ls)) = Inr (m, ls)"
proof -
  have "map (\<lambda>p. (fst p, js_of_reservation (cloneReservation (snd p)))) m
      = map (\<lambda>p. (fst p, js_of_reservation (snd p))) m"
    using assms(1) by (auto simp: map_ok_def)
  then have "json_value (ledger_document m ls) =
      JObj [(''version'', JInt LEDGER_VERSION),
        (''reservations'', JObj (map (\<lambda>p. (fst p, json_value (js_of_reservation (snd p)))) m)),
        (''scopeFreshness'', JObj [(''lastSyncedAt'', ls)])]"
    using assms(2) filter_defined_reservations [of m]
    by (auto simp: ledger_document_def o_def synced_ok_def)
  then show ?thesis
    using assms by (auto simp: load_document_def load_entries_roundtrip synced_ok_def)
qed

subsection \<open>Transactions keep memory and disk in step\<close>

text \<open>
  \<open>durable\<close>: the file holds exactly the committed map (with some well-formed timestamp), or does
  not exist yet and the map is empty. \<open>ledger_inv\<close> adds the well-formedness of what is in memory.
\<close>

definition durable :: "ledger \<Rightarrow> bool" where
  "durable st \<longleftrightarrow>
     main_file (files st) = None \<and> reservations st = [] \<or>
     (\<exists>ls. synced_ok ls \<and>
        main_file (files st) = Some (Json (json_value (ledger_document (reservations st) ls))))"

definition ledger_inv :: "ledger \<Rightarrow> bool" where
  "ledger_inv st \<longleftrightarrow> map_ok (reservations st) \<and> synced_ok (lastSyncedAt st) \<and> durable st"

lemma transact_cases:
  assumes "transact io mutate st = (r, st')" and "map_ok (reservations st)"
  obtains (refused) e where "mutate (reservations st) = Inl e" "r = Inl e" "st' = st"
  | (failed) x d e f where "mutate (reservations st) = Inr (x, d)" "r = Inl e" "st' = st\<lparr>files := f\<rparr>"
      "persist io (ledger_document d (lastSyncedAt st)) (files st) = (Inl e, f)"
  | (committed) x d f where "mutate (reservations st) = Inr (x, d)" "r = Inr x"
      "st' = st\<lparr>reservations := d, files := f\<rparr>"
      "persist io (ledger_document d (lastSyncedAt st)) (files st) = (Inr (), f)"
  using assms by (auto simp: transact_def split: sum.splits prod.splits)

lemma transact_Inl:
  "transact io mutate st = (Inl e, st') \<Longrightarrow> map_ok (reservations st) \<Longrightarrow>
     reservations st' = reservations st \<and> main_file (files st') = main_file (files st) \<and>
     lastSyncedAt st' = lastSyncedAt st \<and> calls st' = calls st \<and> loaded st' = loaded st"
  by (erule (1) transact_cases) (auto dest: persist_Inl)

lemma transact_inv:
  assumes "transact io mutate st = (r, st')" and "map_ok (reservations st)"
    and "synced_ok (lastSyncedAt st)" and "durable st"
    and "\<And>x d. mutate (reservations st) = Inr (x, d) \<Longrightarrow> map_ok d"
  shows "ledger_inv st'"
  using assms(1,2)
proof (cases rule: transact_cases)
  case refused
  with assms show ?thesis by (simp add: ledger_inv_def)
next
  case (failed x d e f)
  with assms persist_Inl [OF failed(4)] show ?thesis by (simp add: ledger_inv_def durable_def)
next
  case (committed x d f)
  with assms show ?thesis by (auto simp: ledger_inv_def durable_def dest!: persist_Inr)
qed

lemma map_ok_iff: "map_ok m \<longleftrightarrow> jmap_ok m \<and> (\<forall>k r. map_of m k = Some r \<longrightarrow> res_ok r)"
  by (fastforce simp: map_ok_def simp flip: jmap_ok_mem)

lemma map_ok_update: "map_ok m \<Longrightarrow> res_ok r \<Longrightarrow> map_ok (AList.update k r m)"
  by (auto simp: map_ok_iff split: if_splits)

lemma map_ok_delete: "map_ok m \<Longrightarrow> map_ok (AList.delete k m)"
  by (auto simp: map_ok_iff split: if_splits)

lemma map_ok_lookup: "map_ok m \<Longrightarrow> map_of m k = Some r \<Longrightarrow> res_ok r"
  by (auto simp: map_ok_iff)

lemma driveServerReservation_frame [simp]:
  "reservations (driveServerReservation c op sid ms st) = reservations st"
  "files (driveServerReservation c op sid ms st) = files st"
  "lastSyncedAt (driveServerReservation c op sid ms st) = lastSyncedAt st"
  "loaded (driveServerReservation c op sid ms st) = loaded st"
  by (simp_all add: driveServerReservation_def)

lemma ledger_inv_drive [simp]:
  "ledger_inv (driveServerReservation c op sid ms st) = ledger_inv st"
  by (simp add: ledger_inv_def durable_def)

subsection \<open>The operations keep the invariant\<close>

lemma claim_tx_inv:
  "ledger_inv st \<Longrightarrow> res_ok r \<Longrightarrow> ledger_inv (snd (claim_tx io client sid r st))"
  by (auto simp: claim_tx_def ledger_inv_def [of st] map_ok_update split: prod.splits sum.splits if_splits
      elim!: transact_inv)

lemma ledger_claim_inv:
  "ledger_inv st \<Longrightarrow> ledger_inv (snd (ledger_claim io client now sprintId input st))"
  by (auto simp: ledger_claim_def intro: claim_tx_inv normalizeReservation_ok
      split: option.splits sum.splits)

lemma release_tx_inv: "ledger_inv st \<Longrightarrow> ledger_inv (snd (release_tx io client sid ms st))"
  by (auto simp: release_tx_def ledger_inv_def [of st] map_ok_delete split: prod.splits sum.splits
      elim!: transact_inv)

lemma ledger_release_inv: "ledger_inv st \<Longrightarrow> ledger_inv (snd (ledger_release io client sprintId st))"
  by (auto simp: ledger_release_def intro: release_tx_inv split: option.splits)

lemma res_ok_childPid [simp]: "res_ok (r\<lparr>childPid := p\<rparr>) = res_ok r"
  by (simp add: res_ok_def)

lemma ledger_setChildPid_inv: "ledger_inv st \<Longrightarrow> ledger_inv (snd (ledger_setChildPid io sid pid st))"
  by (auto simp: ledger_setChildPid_def ledger_inv_def [of st] Let_def map_ok_update map_ok_lookup
      split: prod.splits sum.splits option.splits jsval.splits elim!: transact_inv)

text \<open>The exit information of a child process: an exit code and a signal name, each possibly absent.\<close>

definition exit_info_ok :: "jsval \<Rightarrow> bool" where
  "exit_info_ok info \<longleftrightarrow>
     (\<forall>v. jprop info ''exitCode'' = Inr v \<longrightarrow> v = JUndef \<or> (\<exists>ec. v = js_of_pid ec)) \<and>
     (\<forall>v. jprop info ''signal'' = Inr v \<longrightarrow> v = JUndef \<or> (\<exists>sg. v = js_of_opt sg))"

lemma undef_to_null_simps [simp]:
  "undef_to_null JUndef = JNull"
  "undef_to_null (js_of_pid p) = js_of_pid p" "undef_to_null (js_of_opt s) = js_of_opt s"
  by (simp_all add: undef_to_null_def)

lemma JNull_as_opt: "\<exists>p. JNull = js_of_pid p" "\<exists>s. JNull = js_of_opt s"
  by (metis js_of_pid.simps(1)) (metis js_of_opt.simps(1))

lemma res_ok_exit:
  assumes "res_ok r" "exit_info_ok info" "jprop info ''exitCode'' = Inr ec" "jprop info ''signal'' = Inr sg"
  shows "res_ok (r\<lparr>exitCode := undef_to_null ec, signal := undef_to_null sg, exitedAt := t\<rparr>)"
  using assms JNull_as_opt by (auto simp: res_ok_def exit_info_ok_def)

lemma exit_mutate_ok:
  assumes "exit_mutate now sid info m = Inr (x, d)" and "map_ok m" and "exit_info_ok info"
  shows "map_ok d"
  using assms
  by (auto simp: exit_mutate_def Let_def ebind_eq_Inr split: option.splits
      intro!: map_ok_update res_ok_exit intro: map_ok_lookup)

lemma ledger_recordExit_inv:
  assumes "ledger_inv st" and "info = JUndef \<or> exit_info_ok info"
  shows "ledger_inv (snd (ledger_recordExit io now sprintId info st))"
proof -
  have "exit_info_ok (if info = JUndef then JObj [] else info)"
    using assms(2) by (auto simp: exit_info_ok_def)
  then show ?thesis
    using assms(1) unfolding ledger_recordExit_def
    by (auto simp: ledger_inv_def [of st] split: prod.splits sum.splits option.splits
        elim!: transact_inv dest: exit_mutate_ok split del: if_split)
qed

lemma setScopeFreshness_inv:
  assumes "ledger_inv st" and "now \<noteq> []" and "nullish timestamp \<or> (\<exists>s. timestamp = JStr s)"
  shows "ledger_inv (snd (setScopeFreshness io now timestamp st))"
proof -
  define t where "t = (if truthy timestamp then timestamp else JStr now)"
  have "synced_ok t"
    using assms(2,3) by (cases timestamp) (simp_all add: synced_ok_def t_def)
  moreover obtain r st' where
    tx: "transact io (\<lambda>draft. Inr ((t, JInt 0), draft)) (st\<lparr>lastSyncedAt := t\<rparr>) = (r, st')"
    by fastforce
  ultimately have "ledger_inv st'"
    using assms(1) by (intro transact_inv [OF tx]) (auto simp: ledger_inv_def durable_def)
  with tx show ?thesis by (simp add: setScopeFreshness_def t_def Let_def)
qed

lemma ledger_load_durable:
  assumes "ledger_inv st"
  shows "\<exists>ls. ledger_load None now st = (Inr (), st\<lparr>lastSyncedAt := ls, loaded := True\<rparr>)"
  using assms
  by (cases st) (auto simp: ledger_inv_def durable_def ledger_load_def read_file_def load_document_roundtrip)

fun tx_ok :: "ledger_tx \<Rightarrow> bool" where
  "tx_ok (TxClaim sid r) = res_ok r"
| "tx_ok (TxRelease sid ms) = True"
| "tx_ok (TxSetChildPid sid pid) = True"
| "tx_ok (TxRecordExit now sid info) = exit_info_ok info"
| "tx_ok (TxSetScopeFreshness now ts) = (now \<noteq> [] \<and> (nullish ts \<or> (\<exists>s. ts = JStr s)))"

lemma settle_tx_inv: "ledger_inv st \<Longrightarrow> tx_ok t \<Longrightarrow> ledger_inv (settle_tx io client t st)"
  by (cases t) (auto intro: claim_tx_inv release_tx_inv ledger_setChildPid_inv ledger_recordExit_inv
      setScopeFreshness_inv)

lemma exit_info_ok_typed:
  "exit_info_ok (JObj [(''exitCode'', js_of_pid ec), (''signal'', js_of_opt sg), (''at'', JStr t_at)])"
  by (auto simp: exit_info_ok_def)

definition sys_inv :: "ledger_sys \<Rightarrow> bool" where
  "sys_inv s \<longleftrightarrow> ledger_inv (current s) \<and> (\<forall>t\<in>set (txChain s). tx_ok t)"

lemma sys_inv_enqueue: "sys_inv s \<Longrightarrow> tx_ok t \<Longrightarrow> sys_inv (enqueue t s)"
  by (auto simp: sys_inv_def enqueue_def)

lemma ledger_step_inv: "ledger_step client s t \<Longrightarrow> sys_inv s \<Longrightarrow> sys_inv t"
proof (induction rule: ledger_step.induct)
  case (settle s t q io)
  then show ?case by (auto simp: sys_inv_def intro: settle_tx_inv)
qed (auto intro!: sys_inv_enqueue exit_info_ok_typed dest: normalizeReservation_ok)

lemma ledger_reachable_inv: "ledger_reachable client s \<Longrightarrow> sys_inv s"
proof (induction rule: ledger_reachable.induct)
  case boot
  show ?case
    by (simp add: sys_inv_def ledger_inv_def empty_ledger_def map_ok_def synced_ok_def durable_def)
next
  case (step s t)
  then show ?case by (blast intro: ledger_step_inv)
qed

subsection \<open>What the operations do to the reservations\<close>

lemma transact_commit:
  assumes "transact io mutate st = (Inr x, st')" and "map_ok (reservations st)"
  obtains d where "mutate (reservations st) = Inr (x, d)" "reservations st' = d"
    "calls st' = calls st" "lastSyncedAt st' = lastSyncedAt st"
  using assms by (auto elim!: transact_cases)

lemma claim_tx_Inr:
  assumes "claim_tx io client sid r st = (Inr y, st')" and "map_ok (reservations st)"
  shows "map_of (reservations st) sid = None" and "y = cloneReservation r"
    and "reservations st' = reservations st @ [(sid, r)]"
    and "calls st' = calls st @ (if client then map (\<lambda>m. (ServerReserve, m, sid)) (members r) else [])"
  using assms
  by (auto simp: claim_tx_def driveServerReservation_def update_fresh_None
      split: prod.splits sum.splits if_splits elim!: transact_commit)

lemma claim_tx_Inl:
  "claim_tx io client sid r st = (Inl e, st') \<Longrightarrow> map_ok (reservations st) \<Longrightarrow>
     reservations st' = reservations st \<and> main_file (files st') = main_file (files st) \<and>
     calls st' = calls st"
  by (auto simp: claim_tx_def split: prod.splits sum.splits dest: transact_Inl)

lemma release_tx_Inr:
  assumes "release_tx io client sid ms st = (Inr b, st')" and "map_ok (reservations st)"
  shows "b \<longleftrightarrow> map_of (reservations st) sid \<noteq> None"
    and "reservations st' = AList.delete sid (reservations st)"
    and "calls st' = calls st @ (if client \<and> b then map (\<lambda>m. (ServerRelease, m, sid)) ms else [])"
  using assms
  by (auto simp: release_tx_def driveServerReservation_def
      split: prod.splits sum.splits if_splits elim!: transact_commit)

lemma release_tx_Inl:
  "release_tx io client sid ms st = (Inl e, st') \<Longrightarrow> map_ok (reservations st) \<Longrightarrow>
     reservations st' = reservations st \<and> main_file (files st') = main_file (files st) \<and>
     calls st' = calls st"
  by (auto simp: release_tx_def split: prod.splits sum.splits dest: transact_Inl)

subsection \<open>The interface the reconciler and the watchdog rely on\<close>

text \<open>
  A ledger whose entries can be listed, looked up and released; a release may fail, and then
  changes nothing. The clients need to know what a sequence of releases leaves behind.
\<close>

locale releasable_ledger =
  fixes lookup :: "'s \<Rightarrow> string \<Rightarrow> 'r option"
    and entries :: "'s \<Rightarrow> (string \<times> 'r) list"
    and release :: "'io \<Rightarrow> string \<Rightarrow> 's \<Rightarrow> bool res \<times> 's"
    and inv :: "'s \<Rightarrow> bool"
  assumes lookup_entries: "inv s \<Longrightarrow> map_of (entries s) = lookup s"
    and entries_distinct: "inv s \<Longrightarrow> distinct (map fst (entries s))"
    and release_done: "inv s \<Longrightarrow> release io k s = (Inr b, s') \<Longrightarrow>
          lookup s' = (lookup s)(k := None) \<and> b = (lookup s k \<noteq> None)"
    and release_failed: "inv s \<Longrightarrow> release io k s = (Inl e, s') \<Longrightarrow> lookup s' = lookup s"
    and release_inv: "inv s \<Longrightarrow> inv (snd (release io k s))"
begin

lemma lookup_release_insert:
  assumes "inv s" and "lookup s = lookup s0 |` (- K)" and "release io k s = (Inr b, s')"
  shows "lookup s' = lookup s0 |` (- insert k K)"
  using release_done [OF assms(1,3)] assms(2) by (auto simp: restrict_map_def fun_eq_iff)

lemma release_keeps_others: "inv s \<Longrightarrow> k \<noteq> j \<Longrightarrow> lookup (snd (release io k s)) j = lookup s j"
  using release_done release_failed by (cases "release io k s"; cases "fst (release io k s)") fastforce+

lemma entries_lookup: "inv s \<Longrightarrow> (k, v) \<in> set (entries s) \<longleftrightarrow> lookup s k = Some v"
  using lookup_entries [of s] entries_distinct [of s]
  by (metis map_of_SomeD map_of_is_SomeI)

end

text \<open>The ledger, with the member set captured at the call, provides it.\<close>

definition release_sid :: "io \<times> bool \<Rightarrow> string \<Rightarrow> ledger \<Rightarrow> bool res \<times> ledger" where
  "release_sid c sid st = ledger_release (fst c) (snd c) (JStr sid) st"

lemma map_of_clone_ok: "map_ok m \<Longrightarrow> map_option cloneReservation (map_of m k) = map_of m k"
  by (cases "map_of m k") (auto dest: map_ok_lookup)

lemma ledger_get_map_of: "ledger_inv st \<Longrightarrow> ledger_get sid st = map_of (reservations st) sid"
  by (simp add: ledger_get_def ledger_inv_def map_of_clone_ok)

lemma ledger_list_id: "ledger_inv st \<Longrightarrow> ledger_list st = reservations st"
  by (simp add: ledger_list_def ledger_inv_def)

interpretation led: releasable_ledger "\<lambda>st k. ledger_get k st" ledger_list release_sid ledger_inv
proof unfold_locales
  fix s :: ledger
  assume inv: "ledger_inv s"
  then show "map_of (ledger_list s) = (\<lambda>k. ledger_get k s)"
    by (simp add: ledger_list_id ledger_get_map_of fun_eq_iff)
  show "distinct (map fst (ledger_list s))"
    using inv by (simp add: ledger_list_id ledger_inv_def map_ok_def jmap_ok_def)
next
  fix s s' :: ledger and c k b
  assume inv: "ledger_inv s" and rel: "release_sid c k s = (Inr b, s')"
  have "ledger_inv s'"
    using ledger_release_inv [OF inv, of "fst c" "snd c" "JStr k"] rel by (simp add: release_sid_def)
  then show "(\<lambda>j. ledger_get j s') = (\<lambda>j. ledger_get j s)(k := None) \<and> b = (ledger_get k s \<noteq> None)"
    using inv rel release_tx_Inr [of "fst c" "snd c" k _ s b s']
    by (auto simp: release_sid_def ledger_release_def ledger_get_map_of ledger_inv_def fun_eq_iff
        split: if_splits)
next
  fix s s' :: ledger and c k e
  assume inv: "ledger_inv s" and rel: "release_sid c k s = (Inl e, s')"
  then have "ledger_inv s'" "reservations s' = reservations s"
    using ledger_release_inv [OF inv, of "fst c" "snd c" "JStr k"] release_tx_Inl
    by (fastforce simp: release_sid_def ledger_release_def ledger_inv_def split: if_splits)+
  with inv show "(\<lambda>j. ledger_get j s') = (\<lambda>j. ledger_get j s)"
    by (simp add: ledger_get_map_of fun_eq_iff)
next
  fix s :: ledger and c k
  assume "ledger_inv s"
  then show "ledger_inv (snd (release_sid c k s))"
    by (simp add: release_sid_def ledger_release_inv)
qed

subsection \<open>The server mirrors the ledger\<close>

lemma server_holds_append:
  "server_holds (cs @ map (\<lambda>m. (opn, m, sid)) ms) m' s' =
     (if s' = sid \<and> m' \<in> set ms then opn = ServerReserve else server_holds cs m' s')"
proof (induction ms rule: rev_induct)
  case (snoc m ms)
  then show ?case by (cases opn) (auto simp: server_holds_def)
qed (simp add: server_holds_def)

definition mirrors :: "ledger \<Rightarrow> bool" where
  "mirrors st \<longleftrightarrow> (\<forall>m sid. server_holds (calls st) m sid \<longleftrightarrow>
     (\<exists>r. map_of (reservations st) sid = Some r \<and> m \<in> set (members r)))"

lemma mirrors_claim:
  assumes "mirrors st" and "ledger_inv st"
  shows "mirrors (snd (ledger_claim io True now sprintId input st))"
proof -
  have "mirrors st'" if "claim_tx io True sid r st = (Inr y, st')" for sid r y st'
    using claim_tx_Inr [OF that] assms
    by (auto simp: mirrors_def server_holds_append ledger_inv_def map_add_def split: option.splits)
  moreover have "mirrors st'" if "claim_tx io True sid r st = (Inl e, st')" for sid r e st'
    using claim_tx_Inl [OF that] assms by (simp add: mirrors_def ledger_inv_def)
  ultimately have "mirrors (snd (claim_tx io True sid r st))" for sid r
    by (cases "claim_tx io True sid r st"; cases "fst (claim_tx io True sid r st)") auto
  then show ?thesis
    using assms(1) by (auto simp: ledger_claim_def split: option.splits sum.splits)
qed

lemma mirrors_release:
  assumes "mirrors st" and "ledger_inv st"
  shows "mirrors (snd (ledger_release io True sprintId st))"
proof -
  have "mirrors st'" if "release_tx io True sid (held_members sid st) st = (Inr b, st')" for sid b st'
    using release_tx_Inr [OF that] assms
    by (auto simp: mirrors_def server_holds_append ledger_inv_def held_members_def
        split: option.splits if_splits)
  moreover have "mirrors st'" if "release_tx io True sid ms st = (Inl e, st')" for sid ms e st'
    using release_tx_Inl [OF that] assms by (simp add: mirrors_def ledger_inv_def)
  ultimately have "mirrors (snd (release_tx io True sid (held_members sid st) st))" for sid
    by (cases "release_tx io True sid (held_members sid st) st";
        cases "fst (release_tx io True sid (held_members sid st) st)") auto
  then show ?thesis
    using assms(1) by (auto simp: ledger_release_def split: option.splits)
qed

text \<open>A transaction that keeps every member set and makes no server call keeps the mirror.\<close>

lemma mirrors_transact:
  assumes "transact io mutate st = (r, st')" and "mirrors st" and "map_ok (reservations st)"
    and "\<And>x d. mutate (reservations st) = Inr (x, d) \<Longrightarrow>
      (\<lambda>k. map_option members (map_of d k)) = (\<lambda>k. map_option members (map_of (reservations st) k))"
  shows "mirrors st'"
  using assms(1,3)
proof (cases rule: transact_cases)
  case (committed x d f)
  have "(\<exists>r. map_of d sid = Some r \<and> m \<in> set (members r)) \<longleftrightarrow>
        (\<exists>r. map_of (reservations st) sid = Some r \<and> m \<in> set (members r))" for m sid
    using fun_cong [OF assms(4) [OF committed(1)], of sid]
    by (cases "map_of d sid"; cases "map_of (reservations st) sid") auto
  with committed assms(2) show ?thesis by (simp add: mirrors_def)
qed (use assms(2) in \<open>simp_all add: mirrors_def\<close>)

lemma mirrors_setChildPid:
  "mirrors st \<Longrightarrow> ledger_inv st \<Longrightarrow> mirrors (snd (ledger_setChildPid io sid pid st))"
  by (auto simp: ledger_setChildPid_def ledger_inv_def Let_def fun_eq_iff
      split: prod.splits sum.splits option.splits jsval.splits elim!: mirrors_transact)

lemma exit_mutate_members:
  "exit_mutate now sid info m = Inr (x, d) \<Longrightarrow>
     (\<lambda>k. map_option members (map_of d k)) = (\<lambda>k. map_option members (map_of m k))"
  by (auto simp: exit_mutate_def Let_def ebind_eq_Inr fun_eq_iff split: option.splits)

lemma mirrors_recordExit:
  "mirrors st \<Longrightarrow> ledger_inv st \<Longrightarrow> mirrors (snd (ledger_recordExit io now sprintId info st))"
  by (auto simp: ledger_recordExit_def ledger_inv_def split: prod.splits sum.splits option.splits
      elim!: mirrors_transact dest: exit_mutate_members split del: if_split)

lemma mirrors_setScopeFreshness:
  assumes "mirrors st" and "ledger_inv st"
  shows "mirrors (snd (setScopeFreshness io now ts st))"
proof -
  obtain r st' where
    tx: "transact io (\<lambda>draft. Inr ((if truthy ts then ts else JStr now, JInt 0), draft))
       (st\<lparr>lastSyncedAt := if truthy ts then ts else JStr now\<rparr>) = (r, st')"
    by fastforce
  have "mirrors st'"
    using assms by (intro mirrors_transact [OF tx]) (auto simp: mirrors_def ledger_inv_def)
  with tx show ?thesis by (simp add: setScopeFreshness_def Let_def)
qed

fun op_ok :: "ledger_op \<Rightarrow> bool" where
  "op_ok (OpRecordExit now sid info) = (info = JUndef \<or> exit_info_ok info)"
| "op_ok (OpSetScopeFreshness now ts) = (now \<noteq> [] \<and> (nullish ts \<or> (\<exists>s. ts = JStr s)))"
| "op_ok _ = True"

lemma run_op_inv: "ledger_inv st \<Longrightarrow> op_ok (snd p) \<Longrightarrow> ledger_inv (run_op client p st)"
  by (cases p; cases "snd p") (auto intro: ledger_claim_inv ledger_release_inv ledger_setChildPid_inv
      ledger_recordExit_inv setScopeFreshness_inv)

lemma run_op_mirrors: "mirrors st \<Longrightarrow> ledger_inv st \<Longrightarrow> mirrors (run_op True p st)"
  by (cases p; cases "snd p") (auto intro: mirrors_claim mirrors_release mirrors_setChildPid
      mirrors_recordExit mirrors_setScopeFreshness)

lemma empty_ledger_inv: "ledger_inv empty_ledger" "mirrors empty_ledger"
  by (simp_all add: ledger_inv_def empty_ledger_def map_ok_def synced_ok_def durable_def
      mirrors_def server_holds_def)

lemma run_ops_inv:
  "ledger_inv st \<Longrightarrow> mirrors st \<Longrightarrow> list_all (op_ok \<circ> snd) ps \<Longrightarrow>
     ledger_inv (fold (run_op True) ps st) \<and> mirrors (fold (run_op True) ps st)"
  by (induction ps arbitrary: st) (auto intro: run_op_inv run_op_mirrors)

subsection \<open>Properties of the ledger\<close>

text \<open>
  Property C3. However callers interleave and whichever disk writes fail, the file always reloads
  to exactly the committed reservations: a restarted supervisor re-adopts what the running one held.
\<close>

theorem ledger_reload_exact:
  assumes "ledger_reachable client s"
  shows "\<exists>ls. ledger_load None now (current s)
      = (Inr (), (current s)\<lparr>lastSyncedAt := ls, loaded := True\<rparr>)"
  using ledger_reachable_inv [OF assms] by (auto simp: sys_inv_def intro: ledger_load_durable)

definition demo_input :: jsval where
  "demo_input = JObj [(''members'', JArr [JStr ''m1'', JStr ''m2'', JStr ''m1'']),
                      (''issueRoots'', JArr [JStr ''i1'']), (''childPid'', JInt 7)]"

definition demo_res :: reservation where
  "demo_res = \<lparr>members = [''m1'', ''m2''], issueRoots = [''i1''], childPid = Some 7,
     reservedAt = ''t0'', branch = None, base = None, goal = None, exitCode = JNull, signal = JNull,
     exitedAt = None, logPath = None, beads = None\<rparr>"

lemma demo_normalize: "normalizeReservation ''t0'' demo_input = Inr demo_res"
  by (simp add: normalizeReservation_def demo_input_def demo_res_def toStringArray_def
      toNullableInt_def toNullableString_def normalizeBeadsSummary_def)

definition demo_claimed :: ledger where
  "demo_claimed = snd (claim_tx io_ok True ''s1'' demo_res empty_ledger)"

lemma demo_claimed_reachable:
  "ledger_reachable True \<lparr>current = demo_claimed, txChain = []\<rparr>"
proof -
  have "ledger_reachable True (enqueue (TxClaim ''s1'' demo_res) \<lparr>current = empty_ledger, txChain = []\<rparr>)"
    by (rule ledger_reachable.step [OF ledger_reachable.boot])
       (rule ledger_step.call_claim [of "JStr ''s1''", OF _ demo_normalize], simp)
  moreover have "ledger_step True (enqueue (TxClaim ''s1'' demo_res) \<lparr>current = empty_ledger, txChain = []\<rparr>)
      \<lparr>current = settle_tx io_ok True (TxClaim ''s1'' demo_res) empty_ledger, txChain = []\<rparr>"
    using ledger_step.settle [of "enqueue (TxClaim ''s1'' demo_res) \<lparr>current = empty_ledger, txChain = []\<rparr>"
        "TxClaim ''s1'' demo_res" "[]" True io_ok] by (simp add: enqueue_def)
  ultimately show ?thesis
    by (auto simp: demo_claimed_def intro: ledger_reachable.step)
qed

lemma demo_claimed_reservations:
  "reservations demo_claimed = [(''s1'', demo_res)]"
  by (simp add: demo_claimed_def claim_tx_def transact_def empty_ledger_def)

theorem ledger_reload_exact_witness:
  "reservations (snd (ledger_load None ''t9'' demo_claimed)) = [(''s1'', demo_res)]"
  using ledger_reload_exact [OF demo_claimed_reachable, of "''t9''"] demo_claimed_reservations
  by auto

lemma ledger_claim_Inr:
  assumes "ledger_inv st" "ledger_claim io client now sprintId input st = (Inr r, st')"
  obtains sid where "sprintId = JStr sid" "sid \<noteq> []" "map_of (reservations st) sid = None"
    "normalizeReservation now (if input = JUndef then JObj [] else input) = Inr r"
    "reservations st' = reservations st @ [(sid, r)]"
proof -
  from assms(2) obtain sid r0 where sid: "nonempty_str sprintId = Some sid"
    and r: "normalizeReservation now (if input = JUndef then JObj [] else input) = Inr r0"
    and tx: "claim_tx io client sid r0 st = (Inr r, st')"
    by (auto simp: ledger_claim_def split: option.splits sum.splits)
  have ok: "map_ok (reservations st)" using assms(1) by (simp add: ledger_inv_def)
  have "r = r0" using claim_tx_Inr(2) [OF tx ok] normalizeReservation_ok [OF r] by simp
  moreover have "sprintId = JStr sid \<and> sid \<noteq> []"
    using sid by (cases sprintId) (auto split: if_splits)
  ultimately show ?thesis using that r claim_tx_Inr(1,3) [OF tx ok] by blast
qed

lemma ledger_claim_Inl:
  "ledger_inv st \<Longrightarrow> ledger_claim io client now sprintId input st = (Inl e, st') \<Longrightarrow>
     reservations st' = reservations st \<and> main_file (files st') = main_file (files st)"
  by (auto simp: ledger_claim_def ledger_inv_def split: option.splits sum.splits dest: claim_tx_Inl)

text \<open>
  Property C14. A claim takes both axes or nothing. If it fails (bad input, sprint already
  holding, disk failure) every reservation and the file are what they were; if it succeeds the
  sprint held nothing before, now holds the normalised members and issue roots, every other
  reservation is unchanged, and the file holds the new map.
\<close>

theorem ledger_claim_all_or_nothing:
  assumes "ledger_inv st"
    and "ledger_claim io client now sprintId input st = (res, st')"
  shows "case res of
      Inl e \<Rightarrow> (\<forall>k. ledger_get k st' = ledger_get k st) \<and> main_file (files st') = main_file (files st)
    | Inr r \<Rightarrow> \<exists>sid. sprintId = JStr sid \<and> sid \<noteq> [] \<and> ledger_get sid st = None \<and>
        normalizeReservation now (if input = JUndef then JObj [] else input) = Inr r \<and>
        (\<forall>k. ledger_get k st' = (if k = sid then Some r else ledger_get k st)) \<and>
        main_file (files st') = Some (Json (json_value (ledger_document (reservations st') (lastSyncedAt st'))))"
proof (cases res)
  case (Inl e)
  with assms show ?thesis by (simp add: ledger_get_def ledger_claim_Inl)
next
  case (Inr r)
  note claim = assms(2) [unfolded Inr]
  have inv': "ledger_inv st'" using ledger_claim_inv [OF assms(1)] claim by (metis snd_conv)
  have ok: "map_ok (reservations st)" using assms(1) by (simp add: ledger_inv_def)
  have "main_file (files st') = Some (Json (json_value (ledger_document (reservations st') (lastSyncedAt st'))))"
    using claim ok by (auto simp: ledger_claim_def claim_tx_def split: option.splits prod.splits sum.splits
        elim!: transact_cases dest: persist_Inr)
  moreover obtain sid where "sprintId = JStr sid" "sid \<noteq> []" "map_of (reservations st) sid = None"
    "normalizeReservation now (if input = JUndef then JObj [] else input) = Inr r"
    "reservations st' = reservations st @ [(sid, r)]"
    by (rule ledger_claim_Inr [OF assms(1) claim])
  ultimately show ?thesis
    using Inr inv' assms(1) by (auto simp: ledger_get_map_of map_add_def split: option.splits)
qed

theorem ledger_claim_all_or_nothing_witness:
  "ledger_get ''s1'' (snd (ledger_claim io_ok True ''t0'' (JStr ''s1'') demo_input empty_ledger)) = Some demo_res"
  using ledger_claim_all_or_nothing [OF empty_ledger_inv(1), of io_ok True "''t0''" "JStr ''s1''" demo_input]
    demo_normalize
  by (auto simp: ledger_claim_def demo_input_def claim_tx_def transact_def empty_ledger_def)

text \<open>
  Property C15. When callers await each operation, the fleet server's view follows the ledger: the
  last call it received about a member and a sprint was a reservation exactly if the ledger holds
  that member for that sprint.
\<close>

theorem ledger_server_mirror:
  assumes "list_all (op_ok \<circ> snd) ops"
  shows "server_holds (calls (fold (run_op True) ops empty_ledger)) m sid \<longleftrightarrow>
    (\<exists>r. ledger_get sid (fold (run_op True) ops empty_ledger) = Some r \<and> m \<in> set (members r))"
  using run_ops_inv [OF empty_ledger_inv assms] by (simp add: mirrors_def ledger_get_map_of)

theorem ledger_server_mirror_witness:
  "server_holds (calls (fold (run_op True) [(io_ok, OpClaim ''t0'' (JStr ''s1'') demo_input)] empty_ledger))
     ''m2'' ''s1''"
  using ledger_server_mirror [of "[(io_ok, OpClaim ''t0'' (JStr ''s1'') demo_input)]" "''m2''" "''s1''"] demo_normalize
  by (simp add: ledger_claim_def claim_tx_def transact_def ledger_get_def empty_ledger_def demo_input_def demo_res_def
      driveServerReservation_def cloneReservation_def)

text \<open>
  A release called while the claim of the same sprint is still queued captures an
  empty member set: after both settle the sprint holds nothing, yet the server was never told to
  free the members the claim reserved.
\<close>

theorem ledger_release_race_leaks:
  "\<exists>s. ledger_reachable True s \<and> txChain s = [] \<and> ledger_get ''s1'' (current s) = None \<and>
       server_holds (calls (current s)) ''m1'' ''s1''"
proof -
  let ?s0 = "\<lparr>current = empty_ledger, txChain = []\<rparr>"
  let ?c = "TxClaim ''s1'' demo_res" and ?r = "TxRelease ''s1'' []"
  let ?s2 = "\<lparr>current = empty_ledger, txChain = [?c, ?r]\<rparr>"
  let ?s4 = "\<lparr>current = settle_tx io_ok True ?r demo_claimed, txChain = []\<rparr>"
  have "ledger_reachable True (enqueue ?c ?s0)"
    by (rule ledger_reachable.step [OF ledger_reachable.boot])
       (rule ledger_step.call_claim [of "JStr ''s1''", OF _ demo_normalize], simp)
  moreover have "ledger_step True (enqueue ?c ?s0) ?s2"
    using ledger_step.call_release [of "JStr ''s1''" "''s1''" True "enqueue ?c ?s0"]
    by (simp add: enqueue_def held_members_def empty_ledger_def)
  moreover have "ledger_step True ?s2 \<lparr>current = demo_claimed, txChain = [?r]\<rparr>"
    using ledger_step.settle [of ?s2 ?c "[?r]" True io_ok] by (simp add: demo_claimed_def)
  moreover have "ledger_step True \<lparr>current = demo_claimed, txChain = [?r]\<rparr> ?s4"
    using ledger_step.settle [of "\<lparr>current = demo_claimed, txChain = [?r]\<rparr>" ?r "[]" True io_ok] by simp
  ultimately have "ledger_reachable True ?s4" by (blast intro: ledger_reachable.step)
  moreover have "ledger_get ''s1'' (current ?s4) = None \<and> server_holds (calls (current ?s4)) ''m1'' ''s1''"
    by (simp add: demo_claimed_def claim_tx_def release_tx_def transact_def empty_ledger_def
        driveServerReservation_def demo_res_def ledger_get_def server_holds_def)
  ultimately show ?thesis by fastforce
qed

text \<open>
  \<^verbatim>\<open>recordExit\<close> stores an exit code it does not check: one that is neither an integer
  nor \<^verbatim>\<open>null\<close> is accepted and written, and the file then no longer loads.
\<close>

theorem ledger_recordExit_unchecked_poisons_load:
  assumes "ledger_inv st" and "reservations st = [(sid, r)]" and "sid \<noteq> []"
  shows "\<exists>st'. ledger_recordExit io_ok now (JStr sid) (JObj [(''exitCode'', JStr code)]) st
          = (Inr (r\<lparr>exitCode := JStr code, signal := JNull, exitedAt := Some now\<rparr>), st') \<and>
        ledger_load None now st' = (Inl (TypeError ''exitCode must be an integer or null''), st')"
proof -
  have ok: "res_ok r" "map_ok (reservations st)"
    using assms(1,2) by (auto simp: ledger_inv_def map_ok_def)
  let ?r = "r\<lparr>exitCode := JStr code, signal := JNull, exitedAt := Some now\<rparr>"
  let ?f = "\<lparr>main_file = Some (Json (json_value (ledger_document [(sid, ?r)] (lastSyncedAt st)))), tmp_file = None\<rparr>"
  have "normalizeReservation now (json_value (js_of_reservation ?r)) =
      Inl (TypeError ''exitCode must be an integer or null'')"
    using ok by (simp add: normalizeReservation_def js_of_reservation_def res_ok_def toNullableInt_str)
  moreover have "cloneReservation ?r = ?r"
    by (simp add: cloneReservation_def or_null_def)
  ultimately have "load_document now (json_value (ledger_document [(sid, ?r)] (lastSyncedAt st))) =
      Inl (TypeError ''exitCode must be an integer or null'')"
    by (simp add: load_document_def ledger_document_def load_entries_def)
  then show ?thesis
    using assms ok \<open>cloneReservation ?r = ?r\<close>
    by (simp add: ledger_recordExit_def transact_def exit_mutate_def undef_to_null_def
        ledger_load_def read_file_def Let_def)
qed

lemma demo_claimed_inv: "ledger_inv demo_claimed"
  using ledger_reachable_inv [OF demo_claimed_reachable] by (simp add: sys_inv_def)

theorem ledger_recordExit_unchecked_poisons_load_witness:
  "\<exists>st'. ledger_recordExit io_ok ''t1'' (JStr ''s1'') (JObj [(''exitCode'', JStr ''x'')]) demo_claimed
      = (Inr (demo_res\<lparr>exitCode := JStr ''x'', signal := JNull, exitedAt := Some ''t1''\<rparr>), st') \<and>
    ledger_load None ''t1'' st' = (Inl (TypeError ''exitCode must be an integer or null''), st')"
  by (rule ledger_recordExit_unchecked_poisons_load [OF demo_claimed_inv demo_claimed_reservations]) simp

text \<open>
  What is persisted for a reservation always has one property that the published
  schema, which allows no additional ones, does not list.
\<close>

theorem ledger_document_outside_schema:
  "\<exists>kvs. js_of_reservation r = JObj kvs \<and>
     set (map fst kvs) - set LEDGER_SCHEMA_reservation = {''beads''}"
  by (auto simp: js_of_reservation_def LEDGER_SCHEMA_reservation_def)

end
