(* ===== verification/History.thy ===== *)
theory History
  imports Atomic_File
begin

section \<open>The sprint history\<close>

text \<open>
  \<^verbatim>\<open>packages/apra-fleet-se/src/supervisor/history.mjs\<close>: the append-only, persisted log of terminal
  sprint events. Fields that the source stores without a type check are raw values. The in-memory
  log is committed after the file was replaced, in the order the calls were made.
\<close>

record hist_event =
  ev_sprintId :: jsval
  ev_event :: jsval
  ev_reason :: jsval
  ev_by :: jsval
  ev_members :: "jsval list"
  ev_issueRoots :: "jsval list"
  ev_at :: jsval
  ev_exitCode :: jsval
  ev_signal :: jsval
  ev_logPath :: jsval
  ev_terminalReason :: jsval
  ev_verdict :: jsval

record history =
  events :: "hist_event list"
  h_loaded :: bool
  h_files :: fs

definition HISTORY_VERSION :: int where
  "HISTORY_VERSION = 1"

definition ABORTED_BY_RESTART :: string where "ABORTED_BY_RESTART = ''aborted-by-restart''"
definition FORCE_RELEASED :: string where "FORCE_RELEASED = ''force-released''"
definition CHILD_EXITED :: string where "CHILD_EXITED = ''child-exited''"
definition FINISHED :: string where "FINISHED = ''finished''"
definition AUTO_RELEASED :: string where "AUTO_RELEASED = ''auto-released''"
definition LAUNCH_FAILED :: string where "LAUNCH_FAILED = ''launch-failed''"

definition TERMINAL_DETAIL_EVENTS :: "string list" where
  "TERMINAL_DETAIL_EVENTS = [FINISHED, LAUNCH_FAILED]"

definition DETERMINISTIC_TERMINAL_REASONS :: "string list" where
  "DETERMINISTIC_TERMINAL_REASONS = [''BEADS_SYNC_CONFLICT'']"

text \<open>\<^verbatim>\<open>v ?? null\<close>, \<^verbatim>\<open>v === undefined ? null : v\<close> and the array spread of \<^verbatim>\<open>v ?? []\<close>.\<close>

definition or_else_null :: "jsval \<Rightarrow> jsval" where
  "or_else_null v = (if nullish v then JNull else v)"

definition undef_null :: "jsval \<Rightarrow> jsval" where
  "undef_null v = (if v = JUndef then JNull else v)"

fun js_spread :: "jsval \<Rightarrow> jsval list res" where
  "js_spread JUndef = Inr []"
| "js_spread JNull = Inr []"
| "js_spread (JArr xs) = Inr xs"
| "js_spread (JStr s) = Inr (map (\<lambda>c. JStr [c]) s)"
| "js_spread _ = Inl (TypeError ''object is not iterable'')"

text \<open>\<^verbatim>\<open>cloneEvent\<close> on a raw value, as loading and recording use it.\<close>

definition cloneEvent :: "jsval \<Rightarrow> hist_event res" where
  "cloneEvent e =
     ebind (jprop e ''sprintId'') (\<lambda>sid.
     ebind (jprop e ''event'') (\<lambda>ev.
     ebind (jprop e ''reason'') (\<lambda>rs.
     ebind (jprop e ''by'') (\<lambda>by'.
     ebind (ebind (jprop e ''members'') js_spread) (\<lambda>ms.
     ebind (ebind (jprop e ''issueRoots'') js_spread) (\<lambda>ir.
     ebind (jprop e ''at'') (\<lambda>t_at.
     ebind (jprop e ''exitCode'') (\<lambda>ec.
     ebind (jprop e ''signal'') (\<lambda>sg.
     ebind (jprop e ''logPath'') (\<lambda>lp.
     ebind (jprop e ''terminalReason'') (\<lambda>tr.
     ebind (jprop e ''verdict'') (\<lambda>vd.
       Inr \<lparr>ev_sprintId = sid, ev_event = ev, ev_reason = rs, ev_by = or_else_null by',
            ev_members = ms, ev_issueRoots = ir, ev_at = t_at, ev_exitCode = undef_null ec,
            ev_signal = undef_null sg, ev_logPath = undef_null lp,
            ev_terminalReason = undef_null tr, ev_verdict = undef_null vd\<rparr>))))))))))))"

definition js_of_event :: "hist_event \<Rightarrow> jsval" where
  "js_of_event e =
     JObj [(''sprintId'', ev_sprintId e), (''event'', ev_event e), (''reason'', ev_reason e),
           (''by'', ev_by e), (''members'', JArr (ev_members e)),
           (''issueRoots'', JArr (ev_issueRoots e)), (''at'', ev_at e),
           (''exitCode'', ev_exitCode e), (''signal'', ev_signal e), (''logPath'', ev_logPath e),
           (''terminalReason'', ev_terminalReason e), (''verdict'', ev_verdict e)]"

definition history_document :: "hist_event list \<Rightarrow> jsval" where
  "history_document es = JObj [(''version'', JInt HISTORY_VERSION), (''events'', JArr (map js_of_event es))]"

definition history_load_document :: "jsval \<Rightarrow> hist_event list res" where
  "history_load_document doc =
     (if \<not> truthy doc \<or> \<not> typeof_object doc
      then Inl (GeneralError ''history file has an unexpected shape or version'')
      else ebind (jprop doc ''version'') (\<lambda>ver.
           ebind (jprop doc ''events'') (\<lambda>es.
             if ver \<noteq> JInt HISTORY_VERSION
             then Inl (GeneralError ''history file has an unexpected shape or version'')
             else case es of
                    JArr xs \<Rightarrow> emap cloneEvent xs
                  | _ \<Rightarrow> Inl (GeneralError ''history file has an unexpected shape or version''))))"

definition history_load :: "fs_err option \<Rightarrow> history \<Rightarrow> unit res \<times> history" where
  "history_load rd st =
     (case (case rd of Some e \<Rightarrow> Inl e
                     | None \<Rightarrow> (case main_file (h_files st) of None \<Rightarrow> Inl ENOENT | Some c \<Rightarrow> Inr c)) of
        Inl ENOENT \<Rightarrow> (Inr (), st\<lparr>events := [], h_loaded := True\<rparr>)
      | Inl e \<Rightarrow> (Inl (FsError e), st)
      | Inr NotJson \<Rightarrow> (Inl (GeneralError ''history file is not valid JSON''), st)
      | Inr (Json doc) \<Rightarrow>
          (case history_load_document doc of
             Inl e \<Rightarrow> (Inl e, st)
           | Inr es \<Rightarrow> (Inr (), st\<lparr>events := es, h_loaded := True\<rparr>)))"

text \<open>What \<^verbatim>\<open>record\<close> stores for a raw entry; the checks come first, in the order of the source.\<close>

definition stored_event :: "string \<Rightarrow> jsval \<Rightarrow> hist_event res" where
  "stored_event now entry =
     (if \<not> truthy entry then Inl (TypeError ''history.record() requires a non-empty sprintId'')
      else
     ebind (jprop entry ''sprintId'') (\<lambda>sid.
       if nonempty_str sid = None then Inl (TypeError ''history.record() requires a non-empty sprintId'')
       else
     ebind (jprop entry ''event'') (\<lambda>ev.
       if nonempty_str ev = None then Inl (TypeError ''history.record() requires a non-empty event name'')
       else
     ebind (jprop entry ''reason'') (\<lambda>rs.
     ebind (jprop entry ''by'') (\<lambda>by'.
     ebind (jprop entry ''members'') (\<lambda>ms.
     ebind (jprop entry ''issueRoots'') (\<lambda>ir.
     ebind (jprop entry ''at'') (\<lambda>t_at.
     ebind (jprop entry ''exitCode'') (\<lambda>ec.
     ebind (jprop entry ''signal'') (\<lambda>sg.
     ebind (jprop entry ''logPath'') (\<lambda>lp.
     ebind (jprop entry ''terminalReason'') (\<lambda>tr.
     ebind (jprop entry ''verdict'') (\<lambda>vd.
       cloneEvent (JObj [(''sprintId'', sid), (''event'', ev), (''reason'', or_else_null rs),
         (''by'', or_else_null by'), (''members'', ms), (''issueRoots'', ir),
         (''at'', case t_at of JStr s \<Rightarrow> JStr s | _ \<Rightarrow> JStr now), (''exitCode'', ec), (''signal'', sg),
         (''logPath'', lp), (''terminalReason'', tr), (''verdict'', vd)])))))))))))))) "

definition history_record :: "io \<Rightarrow> string \<Rightarrow> jsval \<Rightarrow> history \<Rightarrow> hist_event res \<times> history" where
  "history_record io now entry st =
     (case stored_event now entry of
        Inl e \<Rightarrow> (Inl e, st)
      | Inr stored \<Rightarrow>
          (case persist io (history_document (events st @ [stored])) (h_files st) of
             (Inl e, f) \<Rightarrow> (Inl e, st\<lparr>h_files := f\<rparr>)
           | (Inr _, f) \<Rightarrow> (Inr stored, st\<lparr>events := events st @ [stored], h_files := f\<rparr>)))"

definition history_forSprint :: "jsval \<Rightarrow> history \<Rightarrow> hist_event list" where
  "history_forSprint sid st = filter (\<lambda>e. ev_sprintId e = sid) (events st)"

definition history_latestFor :: "jsval \<Rightarrow> history \<Rightarrow> hist_event option" where
  "history_latestFor sid st = find (\<lambda>e. ev_sprintId e = sid) (rev (events st))"

record terminal_record =
  tr_sprintId :: jsval
  tr_event :: jsval
  tr_reason :: jsval
  tr_terminalReason :: jsval
  tr_verdict :: jsval
  tr_at :: jsval

text \<open>The detail event: the first kind of \<open>TERMINAL_DETAIL_EVENTS\<close> the sprint has an event of.\<close>

fun detail_event :: "string list \<Rightarrow> jsval \<Rightarrow> hist_event list \<Rightarrow> hist_event option" where
  "detail_event [] sid es = None"
| "detail_event (kind # kinds) sid es =
     (case find (\<lambda>e. ev_sprintId e = sid \<and> ev_event e = JStr kind) (rev es) of
        Some hit \<Rightarrow> Some hit
      | None \<Rightarrow> detail_event kinds sid es)"

definition latestForIssueRoot :: "jsval \<Rightarrow> history \<Rightarrow> terminal_record option" where
  "latestForIssueRoot issue st =
     (case nonempty_str issue of
        None \<Rightarrow> None
      | Some i \<Rightarrow>
          (case find (\<lambda>e. JStr i \<in> set (ev_issueRoots e)) (rev (events st)) of
             None \<Rightarrow> None
           | Some anchor \<Rightarrow>
               let detail = (case detail_event TERMINAL_DETAIL_EVENTS (ev_sprintId anchor) (events st) of
                               None \<Rightarrow> anchor | Some d \<Rightarrow> d)
               in Some \<lparr>tr_sprintId = ev_sprintId anchor, tr_event = or_else_null (ev_event detail),
                        tr_reason = or_else_null (ev_reason detail),
                        tr_terminalReason = or_else_null (ev_terminalReason detail),
                        tr_verdict = or_else_null (ev_verdict detail), tr_at = ev_at anchor\<rparr>))"

definition isDeterministicTerminalReason :: "terminal_record option \<Rightarrow> bool" where
  "isDeterministicTerminalReason rec =
     (case rec of
        None \<Rightarrow> False
      | Some r \<Rightarrow> tr_event r = JStr LAUNCH_FAILED \<or>
          (case tr_terminalReason r of JStr s \<Rightarrow> s \<in> set DETERMINISTIC_TERMINAL_REASONS | _ \<Rightarrow> False))"

definition empty_history :: history where
  "empty_history = \<lparr>events = [], h_loaded = True, h_files = \<lparr>main_file = None, tmp_file = None\<rparr>\<rparr>"

subsection \<open>The interface of an append-only log\<close>

text \<open>
  What the reconciler and the watchdog rely on: recording either appends one event or fails and
  leaves the log as it was.
\<close>

locale event_log =
  fixes log :: "'s \<Rightarrow> 'e list"
    and record_event :: "'io \<Rightarrow> 's \<Rightarrow> 'e res \<times> 's"
  assumes recorded: "record_event io s = (Inr e, s') \<Longrightarrow> log s' = log s @ [e]"
    and not_recorded: "record_event io s = (Inl err, s') \<Longrightarrow> log s' = log s"
begin

lemma log_grows: "\<exists>new. log (snd (record_event io s)) = log s @ new \<and> length new \<le> 1"
proof (cases "fst (record_event io s)")
  case (Inl err)
  then have "record_event io s = (Inl err, snd (record_event io s))" by (metis prod.collapse)
  from not_recorded [OF this] show ?thesis by simp
next
  case (Inr e)
  then have "record_event io s = (Inr e, snd (record_event io s))" by (metis prod.collapse)
  from recorded [OF this] show ?thesis by simp
qed

lemma log_prefix: "take (length (log s)) (log (snd (record_event io s))) = log s"
  using log_grows [of io s] by auto

lemma log_runs: "\<exists>new. log (fold (\<lambda>io s. snd (record_event io s)) ios s) = log s @ new
    \<and> length new \<le> length ios"
proof (induction ios arbitrary: s)
  case (Cons io ios)
  from log_grows [of io s] Cons.IH [of "snd (record_event io s)"] show ?case
    by fastforce
qed simp

end

interpretation hist: event_log events "\<lambda>p st. history_record (fst p) (fst (snd p)) (snd (snd p)) st"
  by unfold_locales (auto simp: history_record_def split: sum.splits prod.splits)

subsection \<open>Lemmas\<close>

lemma find_split:
  "find P ys = Some x \<Longrightarrow> \<exists>us vs. ys = us @ x # vs \<and> P x \<and> (\<forall>y\<in>set us. \<not> P y)"
proof (induction ys)
  case (Cons y ys)
  show ?case
  proof (cases "P y")
    case True
    with Cons.prems show ?thesis by (intro exI [of _ "[]"] exI [of _ ys]) simp
  next
    case False
    with Cons obtain us vs where "ys = us @ x # vs" "P x" "\<forall>y\<in>set us. \<not> P y" by auto
    with False show ?thesis by (intro exI [of _ "y # us"] exI [of _ vs]) simp
  qed
qed simp

text \<open>The backward scan of the log finds the last event that satisfies the condition.\<close>

lemma find_rev_split:
  assumes "find P (rev xs) = Some x"
  shows "\<exists>us vs. xs = us @ x # vs \<and> P x \<and> (\<forall>y\<in>set vs. \<not> P y)"
proof -
  from find_split [OF assms] obtain us vs where "rev xs = us @ x # vs" "P x" "\<forall>y\<in>set us. \<not> P y"
    by blast
  then have "xs = rev vs @ x # rev us" by (metis rev.simps(2) rev_append rev_rev_ident append.assoc append_Cons append_Nil)
  with \<open>P x\<close> \<open>\<forall>y\<in>set us. \<not> P y\<close> show ?thesis by (metis set_rev)
qed

lemma find_rev_None: "find P (rev xs) = None \<longleftrightarrow> (\<forall>x\<in>set xs. \<not> P x)"
  by (auto simp: find_None_iff)

lemma or_else_null_str [simp]: "or_else_null v = JStr s \<longleftrightarrow> v = JStr s"
  by (auto simp: or_else_null_def)

lemma detail_event_mem:
  "detail_event kinds sid es = Some d \<Longrightarrow>
     d \<in> set es \<and> ev_sprintId d = sid \<and> (\<exists>k\<in>set kinds. ev_event d = JStr k)"
  by (induction kinds) (auto split: option.splits dest!: find_rev_split)

definition history_ok :: "history \<Rightarrow> bool" where
  "history_ok st \<longleftrightarrow>
     (\<forall>e\<in>set (events st). cloneEvent (json_value (js_of_event e)) = Inr e) \<and>
     (main_file (h_files st) = None \<and> events st = [] \<or>
      main_file (h_files st) = Some (Json (json_value (history_document (events st)))))"

lemma js_of_event_neq_JUndef [simp]: "js_of_event e \<noteq> JUndef"
  by (simp add: js_of_event_def)

lemma history_load_ok:
  assumes "history_ok st"
  shows "history_load None st = (Inr (), st\<lparr>h_loaded := True\<rparr>)"
proof -
  have "emap cloneEvent (map (\<lambda>e. json_value (js_of_event e)) (events st)) = Inr (events st)"
    using assms emap_Inr_map [of "events st" "\<lambda>e. cloneEvent (json_value (js_of_event e))" id]
    by (simp add: history_ok_def emap_map)
  then show ?thesis
    using assms
    by (cases st) (auto simp: history_ok_def history_load_def history_load_document_def
        history_document_def comp_def)
qed

subsection \<open>Recorded events survive a reload\<close>

text \<open>A value that is written and read back unchanged; an entry all of whose fields are such.\<close>

definition json_ok :: "jsval \<Rightarrow> bool" where
  "json_ok v \<longleftrightarrow> v \<noteq> JUndef \<and> json_value v = v"

definition entry_ok :: "jsval \<Rightarrow> bool" where
  "entry_ok entry \<longleftrightarrow> (\<forall>k v. jprop entry k = Inr v \<longrightarrow> v = JUndef \<or> json_ok v)"

lemma json_ok_JArr:
  assumes "json_ok (JArr xs)" and "x \<in> set xs"
  shows "json_ok x"
proof -
  have "map (\<lambda>x. if x = JUndef then JNull else json_value x) xs = map (\<lambda>x. x) xs"
    using assms(1) by (simp add: json_ok_def)
  then have "(if x = JUndef then JNull else json_value x) = x"
    using assms(2) by (simp only: map_eq_conv)
  then show ?thesis by (auto simp: json_ok_def split: if_splits)
qed

lemma js_spread_json_ok:
  assumes "js_spread v = Inr xs" and "v = JUndef \<or> json_ok v"
  shows "list_all json_ok xs"
proof (cases v)
  case (JArr ys)
  with assms show ?thesis by (auto simp: list_all_iff intro: json_ok_JArr)
qed (use assms in \<open>auto simp: list_all_iff json_ok_def [of "JStr _"]\<close>)

lemma json_ok_null_defaults [simp]:
  "v = JUndef \<or> json_ok v \<Longrightarrow> json_ok (or_else_null v)"
  "v = JUndef \<or> json_ok v \<Longrightarrow> json_ok (undef_null v)"
  by (auto simp: or_else_null_def undef_null_def json_ok_def)

lemma null_defaults_idem [simp]:
  "or_else_null (or_else_null v) = or_else_null v" "undef_null (undef_null v) = undef_null v"
  by (auto simp: or_else_null_def undef_null_def)

definition event_ok :: "hist_event \<Rightarrow> bool" where
  "event_ok e \<longleftrightarrow> json_ok (ev_sprintId e) \<and> json_ok (ev_event e) \<and> json_ok (ev_reason e) \<and>
     json_ok (ev_by e) \<and> list_all json_ok (ev_members e) \<and> list_all json_ok (ev_issueRoots e) \<and>
     json_ok (ev_at e) \<and> json_ok (ev_exitCode e) \<and> json_ok (ev_signal e) \<and> json_ok (ev_logPath e) \<and>
     json_ok (ev_terminalReason e) \<and> json_ok (ev_verdict e)"

lemma json_ok_defaults_id: "json_ok v \<Longrightarrow> or_else_null v = v \<and> undef_null v = v"
  by (auto simp: or_else_null_def undef_null_def json_ok_def nullish_def)

lemma json_value_list_ok:
  "list_all json_ok xs \<Longrightarrow> map (\<lambda>x. if x = JUndef then JNull else json_value x) xs = xs"
  by (induction xs) (auto simp: json_ok_def)

lemma event_ok_roundtrip: "event_ok e \<Longrightarrow> cloneEvent (json_value (js_of_event e)) = Inr e"
  by (cases e) (simp add: event_ok_def json_ok_defaults_id json_value_list_ok js_of_event_def
      cloneEvent_def json_ok_def [of "_"])

lemma entry_okD: "entry_ok entry \<Longrightarrow> jprop entry k = Inr v \<Longrightarrow> v = JUndef \<or> json_ok v"
  by (auto simp: entry_ok_def)

lemma entry_field_ok:
  "entry_ok entry \<Longrightarrow> jprop entry k = Inr v \<Longrightarrow> json_ok (or_else_null v)"
  "entry_ok entry \<Longrightarrow> jprop entry k = Inr v \<Longrightarrow> json_ok (undef_null v)"
  "entry_ok entry \<Longrightarrow> jprop entry k = Inr v \<Longrightarrow> js_spread v = Inr xs \<Longrightarrow> list_all json_ok xs"
  by (auto dest: entry_okD intro: json_ok_null_defaults js_spread_json_ok)

lemma nonempty_str_json_ok: "nonempty_str v = Some s \<Longrightarrow> json_ok v"
  by (cases v) (auto simp: json_ok_def)

lemma at_default_json_ok: "json_ok (case t_at of JStr s \<Rightarrow> JStr s | _ \<Rightarrow> JStr now)"
  by (cases t_at) (auto simp: json_ok_def)

lemma stored_event_ok:
  assumes "stored_event now entry = Inr e" and "entry_ok entry"
  shows "event_ok e"
  using assms
  by (auto simp: stored_event_def cloneEvent_def ebind_eq_Inr event_ok_def
      intro: entry_field_ok nonempty_str_json_ok at_default_json_ok split: if_splits)

definition log_ok :: "history \<Rightarrow> bool" where
  "log_ok st \<longleftrightarrow> list_all event_ok (events st) \<and>
     (main_file (h_files st) = None \<and> events st = [] \<or>
      main_file (h_files st) = Some (Json (json_value (history_document (events st)))))"

lemma log_ok_history_ok: "log_ok st \<Longrightarrow> history_ok st"
  by (auto simp: log_ok_def history_ok_def list_all_iff event_ok_roundtrip)

lemma history_record_log_ok:
  assumes "log_ok st" and "entry_ok entry"
  shows "log_ok (snd (history_record io now entry st))"
proof (cases "stored_event now entry")
  case (Inr e)
  obtain r f where p: "persist io (history_document (events st @ [e])) (h_files st) = (r, f)"
    by fastforce
  show ?thesis
  proof (cases r)
    case (Inl err)
    with p Inr assms(1) persist_Inl [of io _ "h_files st" err f] show ?thesis
      by (simp add: history_record_def log_ok_def)
  next
    case (Inr u)
    with p \<open>stored_event now entry = Inr e\<close> assms stored_event_ok [of now entry e] show ?thesis
      using persist_Inr [of io "history_document (events st @ [e])" "h_files st" u f]
      by (simp add: history_record_def log_ok_def)
  qed
qed (use assms(1) in \<open>simp add: history_record_def\<close>)

lemma history_records_log_ok:
  "log_ok st \<Longrightarrow> list_all (\<lambda>p. entry_ok (snd (snd p))) ps \<Longrightarrow>
     log_ok (fold (\<lambda>p st. snd (history_record (fst p) (fst (snd p)) (snd (snd p)) st)) ps st)"
  by (induction ps arbitrary: st) (auto intro: history_record_log_ok)

subsection \<open>Properties of the history\<close>

text \<open>
  Property C39. Whatever sequence of records is made, with whatever write failures, the log only
  ever grows at its end, by at most one event a call, and reloading the file gives back exactly
  the log in memory.
\<close>

theorem history_append_only_durable:
  assumes "list_all (\<lambda>p. entry_ok (snd (snd p))) (ps @ qs)"
  defines "run \<equiv> fold (\<lambda>p st. snd (history_record (fst p) (fst (snd p)) (snd (snd p)) st))"
  shows "history_load None (run ps empty_history) = (Inr (), (run ps empty_history)\<lparr>h_loaded := True\<rparr>) \<and>
    (\<exists>new. events (run (ps @ qs) empty_history) = events (run ps empty_history) @ new \<and>
       length new \<le> length qs)"
proof -
  have "log_ok empty_history" by (simp add: log_ok_def empty_history_def)
  with assms(1) have "log_ok (run ps empty_history)"
    unfolding run_def by (auto intro: history_records_log_ok)
  then have "history_load None (run ps empty_history) = (Inr (), (run ps empty_history)\<lparr>h_loaded := True\<rparr>)"
    by (intro history_load_ok log_ok_history_ok)
  moreover have "\<exists>new. events (run qs (run ps empty_history)) = events (run ps empty_history) @ new \<and>
      length new \<le> length qs"
    unfolding run_def by (rule hist.log_runs)
  ultimately show ?thesis by (simp add: run_def)
qed

definition demo_entry :: jsval where
  "demo_entry = JObj [(''sprintId'', JStr ''s1''), (''event'', JStr ''launch-failed''),
                      (''issueRoots'', JArr [JStr ''i1''])]"

lemma demo_entry_ok: "entry_ok demo_entry"
  by (auto simp: entry_ok_def demo_entry_def json_ok_def split: option.splits if_splits)

theorem history_append_only_durable_witness:
  "\<exists>new. events (snd (history_record io_ok ''t'' demo_entry (snd (history_record io_ok ''t'' demo_entry empty_history))))
     = events (snd (history_record io_ok ''t'' demo_entry empty_history)) @ new \<and> length new \<le> 1"
  using history_append_only_durable [of "[(io_ok, ''t'', demo_entry)]" "[(io_ok, ''t'', demo_entry)]"] demo_entry_ok
  by simp

text \<open>
  The terminal record for an issue root comes from the sprint of the last event that
  carries the root; its detail is that sprint's last FINISHED event if there is one, otherwise its
  last LAUNCH_FAILED event, otherwise the carrying event itself. There is no record exactly if no
  event carries the root.
\<close>

theorem latestForIssueRoot_correct:
  assumes "i \<noteq> []"
  shows "case latestForIssueRoot (JStr i) st of
      None \<Rightarrow> \<forall>e\<in>set (events st). JStr i \<notin> set (ev_issueRoots e)
    | Some rec \<Rightarrow> \<exists>us anchor vs d. events st = us @ anchor # vs \<and> JStr i \<in> set (ev_issueRoots anchor) \<and>
        (\<forall>e\<in>set vs. JStr i \<notin> set (ev_issueRoots e)) \<and>
        tr_sprintId rec = ev_sprintId anchor \<and> tr_at rec = ev_at anchor \<and>
        d \<in> set (events st) \<and> ev_sprintId d = ev_sprintId anchor \<and>
        tr_event rec = or_else_null (ev_event d) \<and>
        tr_terminalReason rec = or_else_null (ev_terminalReason d) \<and>
        (if \<exists>e\<in>set (events st). ev_sprintId e = ev_sprintId anchor \<and> ev_event e = JStr FINISHED
         then ev_event d = JStr FINISHED
         else if \<exists>e\<in>set (events st). ev_sprintId e = ev_sprintId anchor \<and> ev_event e = JStr LAUNCH_FAILED
         then ev_event d = JStr LAUNCH_FAILED else d = anchor)"
proof (cases "find (\<lambda>e. JStr i \<in> set (ev_issueRoots e)) (rev (events st))")
  case None
  then have "latestForIssueRoot (JStr i) st = None"
    using assms by (simp add: latestForIssueRoot_def)
  moreover have "\<forall>e\<in>set (events st). JStr i \<notin> set (ev_issueRoots e)"
    using None by (simp add: find_rev_None)
  ultimately show ?thesis by simp
next
  case (Some anchor)
  from find_rev_split [OF Some] obtain us vs where uv: "events st = us @ anchor # vs"
    "JStr i \<in> set (ev_issueRoots anchor)" "\<forall>e\<in>set vs. JStr i \<notin> set (ev_issueRoots e)"
    by blast
  let ?sid = "ev_sprintId anchor"
  let ?hit = "\<lambda>k. find (\<lambda>e. ev_sprintId e = ?sid \<and> ev_event e = JStr k) (rev (events st))"
  have miss: "?hit k = None \<Longrightarrow> \<not> (\<exists>e\<in>set (events st). ev_sprintId e = ?sid \<and> ev_event e = JStr k)" for k
    by (auto simp: find_rev_None)
  have hit': "?hit k = Some d \<Longrightarrow> d \<in> set (events st) \<and> ev_sprintId d = ?sid \<and> ev_event d = JStr k" for k d
    by (auto dest: find_rev_split)
  define d where "d = (case detail_event TERMINAL_DETAIL_EVENTS ?sid (events st) of None \<Rightarrow> anchor | Some d \<Rightarrow> d)"
  let ?has = "\<lambda>k. \<exists>e\<in>set (events st). ev_sprintId e = ?sid \<and> ev_event e = JStr k"
  have detail: "d \<in> set (events st) \<and> ev_sprintId d = ?sid \<and>
      (if ?has FINISHED then ev_event d = JStr FINISHED
       else if ?has LAUNCH_FAILED then ev_event d = JStr LAUNCH_FAILED else d = anchor)"
  proof (cases "?hit FINISHED")
    case (Some h)
    then have "d = h" by (simp add: d_def TERMINAL_DETAIL_EVENTS_def)
    moreover have "?has FINISHED" using hit' [OF Some] by blast
    ultimately show ?thesis using hit' [OF Some] by simp
  next
    case n: None
    have "\<not> ?has FINISHED" using miss [OF n] by simp
    show ?thesis
    proof (cases "?hit LAUNCH_FAILED")
      case (Some h)
      with n have "d = h" by (simp add: d_def TERMINAL_DETAIL_EVENTS_def)
      moreover have "?has LAUNCH_FAILED" using hit' [OF Some] by blast
      ultimately show ?thesis using hit' [OF Some] \<open>\<not> ?has FINISHED\<close> by (simp only: if_False if_True)
    next
      case None
      with n have "d = anchor" by (simp add: d_def TERMINAL_DETAIL_EVENTS_def)
      moreover have "\<not> ?has LAUNCH_FAILED" using miss [OF None] by simp
      ultimately show ?thesis using uv(1) \<open>\<not> ?has FINISHED\<close> by (simp only: if_False) simp
    qed
  qed
  have latest: "latestForIssueRoot (JStr i) st = Some \<lparr>tr_sprintId = ?sid,
      tr_event = or_else_null (ev_event d), tr_reason = or_else_null (ev_reason d),
      tr_terminalReason = or_else_null (ev_terminalReason d),
      tr_verdict = or_else_null (ev_verdict d), tr_at = ev_at anchor\<rparr>"
    using assms Some by (simp add: latestForIssueRoot_def d_def Let_def)
  show ?thesis
    unfolding latest option.case
    by (rule exI [of _ us], rule exI [of _ anchor], rule exI [of _ vs], rule exI [of _ d])
       (unfold terminal_record.simps, intro conjI refl; use uv detail in blast)
qed

theorem latestForIssueRoot_correct_witness:
  "case latestForIssueRoot (JStr ''i1'') empty_history of
      None \<Rightarrow> \<forall>e\<in>set (events empty_history). JStr ''i1'' \<notin> set (ev_issueRoots e) | Some rec \<Rightarrow> False"
  using latestForIssueRoot_correct [of "''i1''" empty_history]
  by (simp add: latestForIssueRoot_def empty_history_def)

end
