(* ===== verification/Reconcile.thy ===== *)
theory Reconcile
  imports Ledger History
begin

section \<open>Restart reconciliation and force-release\<close>

text \<open>
  \<^verbatim>\<open>packages/apra-fleet-se/src/supervisor/reconcile.mjs\<close>: the liveness probe, the kill, the pass over the
  reloaded ledger at a restart, and the operator's force-release with its route. The outcome of
  \<^verbatim>\<open>process.kill\<close> is a parameter, as are the outcomes of the file-system calls of each write
  (\<open>io 0\<close>, \<open>io 1\<close>, ... in the order the writes are made) and the clock. Releases and records are awaited,
  so the pass is sequential.
\<close>

subsection \<open>Signals\<close>

datatype kill_result = KillOk | KillEPERM | KillESRCH | KillOther

definition pid_usable :: "jsval \<Rightarrow> bool" where
  "pid_usable pid = (case pid of JInt p \<Rightarrow> p > 0 | _ \<Rightarrow> False)"

definition isPidAlive :: "(int \<Rightarrow> kill_result) \<Rightarrow> jsval \<Rightarrow> bool" where
  "isPidAlive kill0 pid =
     (case pid of
        JInt p \<Rightarrow> if p \<le> 0 then False else kill0 p = KillOk \<or> kill0 p = KillEPERM
      | _ \<Rightarrow> False)"

definition killPid :: "(int \<Rightarrow> kill_result) \<Rightarrow> jsval \<Rightarrow> bool" where
  "killPid kill pid =
     (case pid of
        JInt p \<Rightarrow> if p \<le> 0 then False else kill p = KillOk \<or> kill p = KillESRCH
      | _ \<Rightarrow> False)"

subsection \<open>The restart pass\<close>

record sup =
  sp_ledger :: ledger
  sp_history :: history

definition entry_alive :: "(int \<Rightarrow> bool) \<Rightarrow> reservation \<Rightarrow> bool" where
  "entry_alive probe r = (case childPid r of None \<Rightarrow> False | Some p \<Rightarrow> probe p)"

definition abort_reason :: "reservation \<Rightarrow> string" where
  "abort_reason r =
     (case childPid r of
        None \<Rightarrow> ''no recorded child pid at supervisor restart''
      | Some p \<Rightarrow> ''child pid '' @ show_int p @ '' not alive at supervisor restart'')"

definition abort_entry :: "string \<Rightarrow> reservation \<Rightarrow> string \<Rightarrow> jsval" where
  "abort_entry sid r now =
     JObj [(''sprintId'', JStr sid), (''event'', JStr ABORTED_BY_RESTART), (''reason'', JStr (abort_reason r)),
           (''members'', JArr (map JStr (members r))), (''issueRoots'', JArr (map JStr (issueRoots r))),
           (''at'', JStr now)]"

fun reconcile_loop ::
  "(int \<Rightarrow> bool) \<Rightarrow> bool \<Rightarrow> (nat \<Rightarrow> io) \<Rightarrow> (nat \<Rightarrow> string) \<Rightarrow> nat \<Rightarrow> (string \<times> reservation) list
     \<Rightarrow> sup \<Rightarrow> string list \<Rightarrow> string list \<Rightarrow> (string list \<times> string list) res \<times> sup"
where
  "reconcile_loop probe client io now k [] st released retained = (Inr (released, retained), st)"
| "reconcile_loop probe client io now k ((sid, r) # es) st released retained =
     (if entry_alive probe r
      then reconcile_loop probe client io now (Suc k) es st released (retained @ [sid])
      else
        case ledger_release (io (2 * k)) client (JStr sid) (sp_ledger st) of
          (Inl e, l) \<Rightarrow> (Inl e, st\<lparr>sp_ledger := l\<rparr>)
        | (Inr _, l) \<Rightarrow>
            (case history_record (io (2 * k + 1)) (now k) (abort_entry sid r (now k)) (sp_history st) of
               (Inl e, h) \<Rightarrow> (Inl e, st\<lparr>sp_ledger := l, sp_history := h\<rparr>)
             | (Inr _, h) \<Rightarrow>
                 reconcile_loop probe client io now (Suc k) es (st\<lparr>sp_ledger := l, sp_history := h\<rparr>)
                   (released @ [sid]) retained))"

definition reconcile ::
  "(int \<Rightarrow> bool) \<Rightarrow> bool \<Rightarrow> (nat \<Rightarrow> io) \<Rightarrow> (nat \<Rightarrow> string) \<Rightarrow> sup \<Rightarrow> (string list \<times> string list) res \<times> sup"
where
  "reconcile probe client io now st = reconcile_loop probe client io now 0 (ledger_list (sp_ledger st)) st [] []"

subsection \<open>Force-release\<close>

datatype fr_error = FrError js_error | SprintNotFound string

record fr_result =
  fr_event :: hist_event
  fr_childPid :: "int option"
  fr_killed :: "bool option"
  fr_branch :: "string option"
  fr_base :: "string option"
  fr_goal :: "string option"

definition force_entry :: "string \<Rightarrow> reservation \<Rightarrow> jsval \<Rightarrow> jsval \<Rightarrow> string \<Rightarrow> jsval" where
  "force_entry sid r rsn who now =
     JObj [(''sprintId'', JStr sid), (''event'', JStr FORCE_RELEASED),
           (''reason'', coalesce rsn (JStr ''force-released by operator'')), (''by'', coalesce who JNull),
           (''members'', JArr (map JStr (members r))), (''issueRoots'', JArr (map JStr (issueRoots r))),
           (''at'', JStr now)]"

text \<open>The list of killed process ids is the effect of the injected \<^verbatim>\<open>killPid\<close> on the outside world.\<close>

definition forceRelease ::
  "(int \<Rightarrow> bool) \<Rightarrow> bool \<Rightarrow> io \<Rightarrow> io \<Rightarrow> string \<Rightarrow> jsval \<Rightarrow> jsval \<Rightarrow> jsval \<Rightarrow> sup
     \<Rightarrow> (fr_error + fr_result) \<times> sup \<times> int list"
where
  "forceRelease kill client io1 io2 now sprintId who rsn st =
     (case nonempty_str sprintId of
        None \<Rightarrow> (Inl (FrError (TypeError ''forceRelease requires a non-empty sprintId'')), st, [])
      | Some sid \<Rightarrow>
          (case ledger_get sid (sp_ledger st) of
             None \<Rightarrow> (Inl (SprintNotFound sid), st, [])
           | Some r \<Rightarrow>
               let killed = map_option kill (childPid r);
                   sent = (case childPid r of None \<Rightarrow> [] | Some p \<Rightarrow> [p])
               in (case ledger_release io1 client (JStr sid) (sp_ledger st) of
                     (Inl e, l) \<Rightarrow> (Inl (FrError e), st\<lparr>sp_ledger := l\<rparr>, sent)
                   | (Inr _, l) \<Rightarrow>
                       (case history_record io2 now (force_entry sid r rsn who now) (sp_history st) of
                          (Inl e, h) \<Rightarrow> (Inl (FrError e), st\<lparr>sp_ledger := l, sp_history := h\<rparr>, sent)
                        | (Inr ev, h) \<Rightarrow>
                            (Inr \<lparr>fr_event = ev, fr_childPid = childPid r, fr_killed = killed,
                                  fr_branch = branch r, fr_base = base r, fr_goal = goal r\<rparr>,
                             st\<lparr>sp_ledger := l, sp_history := h\<rparr>, sent)))))"

text \<open>The route; \<open>None\<close> is an error that bubbles to the server's 500 wrapper.\<close>

definition js_of_fr_result :: "fr_result \<Rightarrow> jsval" where
  "js_of_fr_result a =
     (case js_of_event (fr_event a) of
        JObj kvs \<Rightarrow> JObj (kvs @ [(''childPid'', js_of_pid (fr_childPid a)),
          (''killed'', case fr_killed a of None \<Rightarrow> JNull | Some b \<Rightarrow> JBool b),
          (''branch'', js_of_opt (fr_branch a)), (''base'', js_of_opt (fr_base a)), (''goal'', js_of_opt (fr_goal a))])
      | v \<Rightarrow> v)"

definition force_release_route ::
  "(int \<Rightarrow> bool) \<Rightarrow> bool \<Rightarrow> io \<Rightarrow> io \<Rightarrow> string \<Rightarrow> string \<Rightarrow> jsval \<Rightarrow> sup \<Rightarrow> reply option \<times> sup"
where
  "force_release_route kill client io1 io2 now sprintId body st =
     (if sprintId = [] then (Some (400, JObj [(''error'', JStr ''missing sprintId in path'')]), st)
      else let b = body_or_empty body in
        case forceRelease kill client io1 io2 now (JStr sprintId) (jfield b ''by'') (jfield b ''reason'') st of
          (Inr a, st', _) \<Rightarrow>
            (Some (200, JObj [(''status'', JStr ''force-released''), (''sprintId'', JStr sprintId), (''audit'', js_of_fr_result a)]), st')
        | (Inl (SprintNotFound s), st', _) \<Rightarrow>
            (Some (404, JObj [(''error'', JStr (''no live reservation for sprint '' @ [CHR 0x27] @ s @ [CHR 0x27]))]), st')
        | (Inl (FrError e), st', _) \<Rightarrow> (None, st'))"

subsection \<open>What the events look like\<close>

definition abort_event :: "string \<Rightarrow> reservation \<Rightarrow> string \<Rightarrow> hist_event" where
  "abort_event sid r now =
     \<lparr>ev_sprintId = JStr sid, ev_event = JStr ABORTED_BY_RESTART, ev_reason = JStr (abort_reason r), ev_by = JNull,
      ev_members = map JStr (members r), ev_issueRoots = map JStr (issueRoots r), ev_at = JStr now,
      ev_exitCode = JNull, ev_signal = JNull, ev_logPath = JNull, ev_terminalReason = JNull, ev_verdict = JNull\<rparr>"

lemma stored_abort: "sid \<noteq> [] \<Longrightarrow> stored_event now (abort_entry sid r now') = Inr (abort_event sid r now')"
  by (simp add: stored_event_def abort_entry_def cloneEvent_def abort_event_def or_else_null_def undef_null_def
      ABORTED_BY_RESTART_def)

lemma stored_abort_Nil: "\<exists>e. stored_event now (abort_entry [] r now') = Inl e"
  by (simp add: stored_event_def abort_entry_def)

lemma record_abort:
  assumes "history_record io now (abort_entry sid r now') h = (Inr ev, h')"
  shows "events h' = events h @ [abort_event sid r now']"
proof (cases "sid = []")
  case True
  then show ?thesis using assms stored_abort_Nil [of now r now'] by (auto simp: history_record_def)
next
  case False
  then have "ev = abort_event sid r now'"
    using assms stored_abort [OF False] by (auto simp: history_record_def split: prod.splits sum.splits)
  with hist.recorded [of "(io, now, abort_entry sid r now')"] assms show ?thesis by simp
qed

abbreviation ledger_map :: "sup \<Rightarrow> string \<rightharpoonup> reservation" where
  "ledger_map st \<equiv> \<lambda>k. ledger_get k (sp_ledger st)"

abbreviation dead_entries :: "(int \<Rightarrow> bool) \<Rightarrow> (string \<times> reservation) list \<Rightarrow> (string \<times> reservation) list" where
  "dead_entries probe es \<equiv> filter (\<lambda>p. \<not> entry_alive probe (snd p)) es"

text \<open>The events of a pass: one per dead entry, in order, with the time read at its step.\<close>

definition abort_events :: "(int \<Rightarrow> bool) \<Rightarrow> (nat \<Rightarrow> string) \<Rightarrow> nat \<Rightarrow> (string \<times> reservation) list \<Rightarrow> hist_event list" where
  "abort_events probe now k es =
     map (\<lambda>q. abort_event (fst (snd q)) (snd (snd q)) (now (fst q)))
       (filter (\<lambda>q. \<not> entry_alive probe (snd (snd q))) (enumerate k es))"

lemma abort_events_simps:
  "abort_events probe now k [] = []"
  "abort_events probe now k ((sid, r) # es) =
     (if entry_alive probe r then [] else [abort_event sid r (now k)]) @ abort_events probe now (Suc k) es"
  by (simp_all add: abort_events_def)

lemma release_step:
  assumes "ledger_inv l" "ledger_release io client (JStr sid) l = (Inr b, l')"
  shows "ledger_inv l'" "(\<lambda>k. ledger_get k l') = (\<lambda>k. ledger_get k l)(sid := None)"
  using led.release_inv [OF assms(1), of "(io, client)" sid] led.release_done [OF assms(1), of "(io, client)" sid b l']
    assms(2)
  by (simp_all add: release_sid_def)

lemma reconcile_loop_Inr:
  assumes "ledger_inv (sp_ledger st)"
    and "reconcile_loop probe client io now k es st rel ret = (Inr (rel', ret'), st')"
  shows "rel' = rel @ map fst (dead_entries probe es) \<and>
    ret' = ret @ map fst (filter (\<lambda>p. entry_alive probe (snd p)) es) \<and>
    ledger_inv (sp_ledger st') \<and>
    ledger_map st' = ledger_map st |` (- set (map fst (dead_entries probe es))) \<and>
    events (sp_history st') = events (sp_history st) @ abort_events probe now k es"
  using assms
proof (induction es arbitrary: k st rel ret)
  case (Cons e es)
  obtain sid r where e: "e = (sid, r)" by fastforce
  show ?case
  proof (cases "entry_alive probe r")
    case True
    with Cons.IH [of st "Suc k" rel "ret @ [sid]"] Cons.prems e show ?thesis by (simp add: abort_events_simps)
  next
    case False
    obtain b l ev h where rel: "ledger_release (io (2 * k)) client (JStr sid) (sp_ledger st) = (Inr b, l)"
      and rec: "history_record (io (2 * k + 1)) (now k) (abort_entry sid r (now k)) (sp_history st) = (Inr ev, h)"
      and rest: "reconcile_loop probe client io now (Suc k) es (st\<lparr>sp_ledger := l, sp_history := h\<rparr>) (rel @ [sid]) ret
        = (Inr (rel', ret'), st')"
      using Cons.prems(2) e False by (auto split: prod.splits sum.splits)
    note l = release_step [OF Cons.prems(1) rel]
    note h = record_abort [OF rec]
    from Cons.IH [OF _ rest] l h False e show ?thesis
      by (auto simp: abort_events_simps restrict_map_def fun_eq_iff)
  qed
qed (simp add: abort_events_simps restrict_map_def)

subsection \<open>Properties of the restart pass\<close>

lemma reconcile_spec:
  assumes "ledger_inv (sp_ledger st)" "reconcile probe client io now st = (Inr (released, retained), st')"
  shows "released = map fst (filter (\<lambda>p. \<not> entry_alive probe (snd p)) (ledger_list (sp_ledger st))) \<and>
    retained = map fst (filter (\<lambda>p. entry_alive probe (snd p)) (ledger_list (sp_ledger st))) \<and>
    (\<forall>sid. ledger_get sid (sp_ledger st') =
       (case ledger_get sid (sp_ledger st) of None \<Rightarrow> None | Some r \<Rightarrow> if entry_alive probe r then Some r else None)) \<and>
    events (sp_history st') = events (sp_history st) @ abort_events probe now 0 (ledger_list (sp_ledger st))"
proof -
  let ?es = "ledger_list (sp_ledger st)"
  note loop = reconcile_loop_Inr [OF assms(1) assms(2) [unfolded reconcile_def]]
  have "ledger_get sid (sp_ledger st') =
      (case ledger_get sid (sp_ledger st) of None \<Rightarrow> None | Some r \<Rightarrow> if entry_alive probe r then Some r else None)" for sid
  proof -
    have m: "ledger_get sid (sp_ledger st') = (ledger_map st |` (- set (map fst (dead_entries probe ?es)))) sid"
      using loop by (metis (no_types, lifting))
    show ?thesis
    proof (cases "ledger_get sid (sp_ledger st)")
      case (Some r)
      have iff: "(sid, r') \<in> set ?es \<longleftrightarrow> r' = r" for r'
        using led.entries_lookup [OF assms(1), of sid r'] Some by auto
      then have "sid \<in> set (map fst (dead_entries probe ?es)) \<longleftrightarrow> \<not> entry_alive probe r" by force
      with m Some show ?thesis by simp
    qed (use m in \<open>simp add: restrict_map_def\<close>)
  qed
  with loop show ?thesis by simp
qed

text \<open>
  Property C38. A restart pass that completes is exact: it returns the dead and the live sprints of the
  ledger in order; afterwards the ledger holds exactly the entries whose recorded child is alive, unchanged;
  and the history has grown by exactly one aborted-by-restart event per dead entry, in order.
\<close>

theorem reconcile_exact:
  assumes "ledger_inv (sp_ledger st)" "reconcile probe client io now st = (Inr (released, retained), st')"
  shows "released = map fst (filter (\<lambda>p. \<not> entry_alive probe (snd p)) (ledger_list (sp_ledger st))) \<and>
    retained = map fst (filter (\<lambda>p. entry_alive probe (snd p)) (ledger_list (sp_ledger st))) \<and>
    (\<forall>sid. ledger_get sid (sp_ledger st') =
       (case ledger_get sid (sp_ledger st) of None \<Rightarrow> None | Some r \<Rightarrow> if entry_alive probe r then Some r else None)) \<and>
    events (sp_history st') = events (sp_history st) @ abort_events probe now 0 (ledger_list (sp_ledger st))"
  using assms by (rule reconcile_spec)

definition demo_sup :: sup where
  "demo_sup = \<lparr>sp_ledger = demo_claimed, sp_history = empty_history\<rparr>"

lemma demo_ledger_list: "ledger_list demo_claimed = [(''s1'', demo_res)]"
  using ledger_list_id [OF demo_claimed_inv] demo_claimed_reservations by simp

theorem reconcile_exact_witness:
  "\<exists>st'. reconcile (\<lambda>_. False) False (\<lambda>_. io_ok) (\<lambda>_. ''t'') demo_sup = (Inr ([''s1''], []), st') \<and>
     ledger_get ''s1'' (sp_ledger st') = None \<and>
     events (sp_history st') = [abort_event ''s1'' demo_res ''t'']"
proof -
  have dead: "\<not> entry_alive (\<lambda>_. False) r" for r by (simp add: entry_alive_def split: option.split)
  have stored: "stored_event ''t'' (abort_entry ''s1'' demo_res ''t'') = Inr (abort_event ''s1'' demo_res ''t'')"
    by (rule stored_abort) simp
  obtain released retained st' where rec:
    "reconcile (\<lambda>_. False) False (\<lambda>_. io_ok) (\<lambda>_. ''t'') demo_sup = (Inr (released, retained), st')"
    using that dead stored
    by (simp add: reconcile_def demo_sup_def demo_ledger_list ledger_release_def release_tx_def transact_def
        history_record_def)
  from reconcile_exact [OF _ rec] demo_claimed_inv rec dead show ?thesis
    by (simp add: demo_sup_def demo_ledger_list abort_events_simps empty_history_def split: option.splits)
qed

text \<open>
  Each dead entry is released before its event is recorded, so a failed write of the history
  loses the event: the pass stops with the error, the reservation is already gone, the history is as it was,
  and a second pass has nothing left to record for that sprint.
\<close>

theorem reconcile_record_failure_loses_event:
  assumes "ledger_inv (sp_ledger st)" "ledger_list (sp_ledger st) = [(sid, r)]" "\<not> entry_alive probe r"
    and "ledger_release (io 0) client (JStr sid) (sp_ledger st) = (Inr b, l)"
    and "history_record (io 1) (now 0) (abort_entry sid r (now 0)) (sp_history st) = (Inl e, h)"
  shows "\<exists>st'. reconcile probe client io now st = (Inl e, st') \<and> ledger_get sid (sp_ledger st') = None \<and>
    events (sp_history st') = events (sp_history st) \<and>
    (\<forall>io' now'. reconcile probe client io' now' st' = (Inr ([], []), st'))"
proof -
  let ?st' = "st\<lparr>sp_ledger := l, sp_history := h\<rparr>"
  note l = release_step [OF assms(1,4)]
  have "reconcile probe client io now st = (Inl e, ?st')"
    using assms(2-5) by (simp add: reconcile_def)
  moreover have "events h = events (sp_history st)"
    using hist.not_recorded [of "(io 1, now 0, abort_entry sid r (now 0))"] assms(5) by simp
  moreover have "ledger_list l = []"
  proof -
    have "(k, v) \<notin> set (ledger_list l)" for k v
      using led.entries_lookup [OF l(1), of k v] l(2) led.entries_lookup [OF assms(1), of k v] assms(2)
      by (auto simp: fun_eq_iff split: if_splits)
    then show ?thesis by (metis list.set_intros(1) neq_Nil_conv surj_pair)
  qed
  ultimately show ?thesis using l(2)
    by (intro exI [of _ ?st']) (auto simp: reconcile_def fun_eq_iff)
qed

definition io_fail :: io where
  "io_fail = \<lparr>mkdir_out = Some EACCES, write_out = None, rename_out = (\<lambda>_. None)\<rparr>"

theorem reconcile_record_failure_loses_event_witness:
  "\<exists>st' e. reconcile (\<lambda>_. False) False (\<lambda>k. if k = 0 then io_ok else io_fail) (\<lambda>_. ''t'') demo_sup = (Inl e, st') \<and>
     ledger_get ''s1'' (sp_ledger st') = None"
proof -
  let ?io = "\<lambda>k::nat. if k = 0 then io_ok else io_fail"
  have "\<not> entry_alive (\<lambda>_. False) demo_res" by (simp add: entry_alive_def split: option.split)
  moreover obtain b l where "ledger_release (?io 0) False (JStr ''s1'') (sp_ledger demo_sup) = (Inr b, l)"
    using that by (simp add: demo_sup_def ledger_release_def release_tx_def transact_def)
  moreover obtain e h where "history_record (?io 1) ''t'' (abort_entry ''s1'' demo_res ''t'') (sp_history demo_sup) = (Inl e, h)"
    using that stored_abort [of "''s1''" "''t''" demo_res "''t''"]
    by (simp add: demo_sup_def history_record_def persist_def io_fail_def)
  moreover have "ledger_inv (sp_ledger demo_sup)" "ledger_list (sp_ledger demo_sup) = [(''s1'', demo_res)]"
    by (simp_all add: demo_sup_def demo_claimed_inv demo_ledger_list)
  ultimately show ?thesis
    using reconcile_record_failure_loses_event [of demo_sup "''s1''" demo_res "\<lambda>_. False" ?io False b l "\<lambda>_. ''t''" e h]
    by blast
qed

text \<open>
  A force-release that returns has released the whole entry and nothing else, has appended
  exactly one event, and echoes the entry's launch data; one for an unknown sprint changes nothing and
  sends no signal.
\<close>

theorem forceRelease_exact:
  assumes "ledger_inv (sp_ledger st)" "forceRelease kill client io1 io2 now (JStr sid) who rsn st = (res, st', sent)"
  shows "case res of
      Inl (SprintNotFound s) \<Rightarrow> s = sid \<and> ledger_get sid (sp_ledger st) = None \<and> st' = st \<and> sent = []
    | Inl (FrError e) \<Rightarrow> events (sp_history st') = events (sp_history st)
    | Inr a \<Rightarrow> \<exists>r. ledger_get sid (sp_ledger st) = Some r \<and>
        (\<lambda>k. ledger_get k (sp_ledger st')) = (\<lambda>k. ledger_get k (sp_ledger st))(sid := None) \<and>
        events (sp_history st') = events (sp_history st) @ [fr_event a] \<and>
        fr_branch a = branch r \<and> fr_base a = base r \<and> fr_goal a = goal r \<and>
        fr_killed a = map_option kill (childPid r) \<and> set sent = set_option (childPid r)"
proof (cases "ledger_get sid (sp_ledger st)")
  case None
  then show ?thesis using assms(2) by (auto simp: forceRelease_def split: if_splits)
next
  case (Some r)
  show ?thesis
  proof (cases "sid = []")
    case True
    then show ?thesis using assms(2) by (auto simp: forceRelease_def)
  next
    case False
    obtain lr l where lr: "ledger_release io1 client (JStr sid) (sp_ledger st) = (lr, l)" by fastforce
    obtain hr h where hr: "history_record io2 now (force_entry sid r rsn who now) (sp_history st) = (hr, h)" by fastforce
    show ?thesis
    proof (cases lr)
      case (Inl e)
      with assms(2) Some False lr show ?thesis by (auto simp: forceRelease_def Let_def)
    next
      case (Inr b)
      note l = release_step [OF assms(1) lr [unfolded Inr]]
      show ?thesis
        using assms(2) Some False lr hr Inr l hist.recorded [of "(io2, now, force_entry sid r rsn who now)"]
          hist.not_recorded [of "(io2, now, force_entry sid r rsn who now)"]
        by (cases hr) (auto simp: forceRelease_def Let_def split: option.splits)
    qed
  qed
qed

theorem forceRelease_exact_witness:
  "\<exists>st' a. forceRelease (\<lambda>_. True) False io_ok io_ok ''t'' (JStr ''s1'') JNull JNull demo_sup = (Inr a, st', [7]) \<and>
     ledger_get ''s1'' (sp_ledger st') = None"
proof -
  have inv: "ledger_inv (sp_ledger demo_sup)" by (simp add: demo_sup_def demo_claimed_inv)
  have get: "ledger_get ''s1'' (sp_ledger demo_sup) = Some demo_res"
    using ledger_get_map_of [OF inv] demo_claimed_reservations by (simp add: demo_sup_def)
  obtain res st' sent where f: "forceRelease (\<lambda>_. True) False io_ok io_ok ''t'' (JStr ''s1'') JNull JNull demo_sup = (res, st', sent)"
    by (metis prod.collapse)
  have "\<exists>a. res = Inr a \<and> sent = [7]"
    using f get by (auto simp: forceRelease_def Let_def demo_sup_def ledger_release_def release_tx_def transact_def
        history_record_def force_entry_def stored_event_def cloneEvent_def coalesce_def FORCE_RELEASED_def demo_res_def)
  then show ?thesis using forceRelease_exact [OF inv f] f get by (auto simp: fun_eq_iff)
qed

end
