(* ===== verification/Spawner.thy ===== *)
theory Spawner
  imports Ledger
begin

section \<open>The sprint spawner\<close>

text \<open>
  \<^verbatim>\<open>packages/apra-fleet-se/src/supervisor/spawner.mjs\<close> (port allocation, the child's argument vector, the
  log path, the bookkeeping of live children) and \<^verbatim>\<open>child-port.mjs\<close>. \<^verbatim>\<open>spawnSprint\<close> awaits the port
  allocation, so it is two steps: the first reads the live ports, the second, with the port found, does the
  rest without interruption. Whether a port is free, the outcomes of the file-system calls and of
  \<^verbatim>\<open>spawn\<close>, and the digest function are parameters.
\<close>

subsection \<open>Ports\<close>

definition DEFAULT_SPAWNER_BASE_PORT :: int where "DEFAULT_SPAWNER_BASE_PORT = 8081"

fun free_port_loop :: "nat \<Rightarrow> int \<Rightarrow> int list \<Rightarrow> (int \<Rightarrow> bool) \<Rightarrow> int option" where
  "free_port_loop 0 candidate excluded isAvailable = None"
| "free_port_loop (Suc n) candidate excluded isAvailable =
     (if candidate > 65535 then None
      else if candidate \<in> set excluded then free_port_loop n (candidate + 1) excluded isAvailable
      else if isAvailable candidate then Some candidate
      else free_port_loop n (candidate + 1) excluded isAvailable)"

definition allocateFreePort :: "jsval \<Rightarrow> jsval \<Rightarrow> int list \<Rightarrow> (int \<Rightarrow> bool) \<Rightarrow> int res" where
  "allocateFreePort startPort maxAttempts excluded isAvailable =
     (let start = (case startPort of JInt p \<Rightarrow> p | _ \<Rightarrow> DEFAULT_SPAWNER_BASE_PORT);
          attempts = (case maxAttempts of JInt n \<Rightarrow> nat n | _ \<Rightarrow> 1000)
      in case free_port_loop attempts start excluded isAvailable of
           Some p \<Rightarrow> Inr p
         | None \<Rightarrow> Inl (GeneralError ''[spawner] no free --viewer-port found''))"

subsection \<open>The argument vector\<close>

text \<open>
  An argument is pushed as it is, through \<^verbatim>\<open>String\<close> or through \<^verbatim>\<open>JSON.stringify\<close>.
\<close>

datatype arg = Raw jsval | AsString jsval | AsJson jsval

record sprint_opts =
  so_issue :: jsval
  so_members :: jsval
  so_branch :: jsval
  so_base :: jsval
  so_goal :: jsval
  so_maxCycles :: jsval
  so_allowMissingMembers :: jsval
  so_requirementsFile :: jsval
  so_roleMap :: jsval
  so_budget :: jsval
  so_viewerPort :: jsval
  so_serviceUrl :: jsval
  so_runId :: jsval
  so_expectBeads :: jsval
  so_extraArgs :: jsval
  so_skipRegression :: jsval

definition flag :: "string \<Rightarrow> arg" where
  "flag s = Raw (JStr s)"

definition opt_arg :: "string \<Rightarrow> (jsval \<Rightarrow> arg) \<Rightarrow> jsval \<Rightarrow> arg list" where
  "opt_arg name conv v = (if v = JUndef then [] else [flag name, conv v])"

definition buildSprintArgv :: "sprint_opts \<Rightarrow> arg list res" where
  "buildSprintArgv o1 =
     (if \<not> truthy (so_issue o1) \<or> \<not> truthy (so_members o1) \<or> \<not> truthy (so_branch o1) \<or> \<not> truthy (so_base o1)
      then Inl (GeneralError ''buildSprintArgv requires issue, members, branch, and base'')
      else if \<not> (case so_viewerPort o1 of JInt p \<Rightarrow> p > 0 \<and> p \<le> 65535 | _ \<Rightarrow> False)
      then Inl (GeneralError ''buildSprintArgv requires an integer viewerPort in [1, 65535]'')
      else Inr
        ([flag ''--issue'', Raw (so_issue o1), flag ''--members'', Raw (so_members o1),
          flag ''--branch'', Raw (so_branch o1), flag ''--base'', Raw (so_base o1),
          flag ''--viewer-port'', AsString (so_viewerPort o1)]
         @ opt_arg ''--goal'' Raw (so_goal o1)
         @ opt_arg ''--max-cycles'' AsString (so_maxCycles o1)
         @ (if truthy (so_allowMissingMembers o1) then [flag ''--allow-missing-members''] else [])
         @ opt_arg ''--requirements-file'' Raw (so_requirementsFile o1)
         @ opt_arg ''--role-map'' (if is_str (so_roleMap o1) then Raw else AsJson) (so_roleMap o1)
         @ opt_arg ''--budget'' AsString (so_budget o1)
         @ (if so_skipRegression o1 = JBool True then [flag ''--skip-regression''] else [])
         @ opt_arg ''--service-url'' Raw (so_serviceUrl o1)
         @ opt_arg ''--run-id'' Raw (so_runId o1)
         @ opt_arg ''--expect-beads'' Raw (so_expectBeads o1)
         @ (case so_extraArgs o1 of JArr xs \<Rightarrow> map Raw xs | _ \<Rightarrow> [])))"

subsection \<open>The log path\<close>

definition MAX_LOG_STEM_LENGTH :: nat where "MAX_LOG_STEM_LENGTH = 80"
definition LOG_STEM_HASH_LENGTH :: nat where "LOG_STEM_HASH_LENGTH = 12"

definition stem_char :: "char \<Rightarrow> bool" where
  "stem_char c \<longleftrightarrow> (let n = (of_char c :: nat) in
     (65 \<le> n \<and> n \<le> 90) \<or> (97 \<le> n \<and> n \<le> 122) \<or> (48 \<le> n \<and> n \<le> 57) \<or> c = CHR ''.'' \<or> c = CHR ''_'' \<or> c = CHR ''-'')"

definition sanitize_stem :: "string \<Rightarrow> string" where
  "sanitize_stem s = map (\<lambda>c. if stem_char c then c else CHR ''_'') s"

definition bound_stem :: "(string \<Rightarrow> string) \<Rightarrow> string \<Rightarrow> string" where
  "bound_stem sha256hex stem =
     (let safe = sanitize_stem stem in
      if length safe > MAX_LOG_STEM_LENGTH
      then take (MAX_LOG_STEM_LENGTH - LOG_STEM_HASH_LENGTH - 1) safe @ CHR ''-'' # take LOG_STEM_HASH_LENGTH (sha256hex stem)
      else safe)"

definition log_file_name :: "(string \<Rightarrow> string) \<Rightarrow> string \<Rightarrow> string" where
  "log_file_name sha256hex stem =
     (let safe = bound_stem sha256hex stem in (if safe = [] then ''sprint'' else safe) @ ''.log'')"

definition path_basename :: "string \<Rightarrow> string" where
  "path_basename p = rev (takeWhile (\<lambda>c. c \<noteq> CHR ''/'') (rev p))"

definition path_join :: "string \<Rightarrow> string \<Rightarrow> string" where
  "path_join a b = a @ CHR ''/'' # b"

definition resolveSprintLogPath :: "(string \<Rightarrow> string) \<Rightarrow> string \<Rightarrow> string \<Rightarrow> string res" where
  "resolveSprintLogPath sha256hex dataDir stem =
     (let fileName = log_file_name sha256hex stem in
      if fileName \<noteq> path_basename fileName \<or> fileName = ''.log''
      then Inl (GeneralError ''[spawner] refusing to build an unsafe sprint log file name'')
      else Inr (path_join (path_join dataDir ''logs'') fileName))"

subsection \<open>Live children\<close>

record live_entry =
  le_port :: int
  le_logPath :: "string option"

record spawner =
  sw_live :: "(int, live_entry) jsmap"
  sw_openFds :: "nat list"
  sw_nextFd :: nat
  sw_serviceUrl :: jsval
  sw_expectBeads :: jsval

definition new_spawner :: spawner where
  "new_spawner = \<lparr>sw_live = [], sw_openFds = [], sw_nextFd = 0, sw_serviceUrl = JUndef, sw_expectBeads = JUndef\<rparr>"

definition livePortSet :: "spawner \<Rightarrow> int list" where
  "livePortSet st = remdups (map (\<lambda>p. le_port (snd p)) (sw_live st))"

datatype spawn_outcome =
    SpawnThrew js_error
  | NoPid
  | Spawned int

record spawned =
  sd_pid :: int
  sd_port :: int
  sd_args :: "arg list"
  sd_logPath :: string
  sd_fd :: nat

definition closeLogFd :: "nat \<Rightarrow> spawner \<Rightarrow> spawner" where
  "closeLogFd fd st = st\<lparr>sw_openFds := filter (\<lambda>x. x \<noteq> fd) (sw_openFds st)\<rparr>"

text \<open>
  The options the child is started with: the port, and the spawner's own service URL and expected beads identity
  (\<open>sw_expectBeads\<close>, resolved at the call) unless the caller gave one.
\<close>

definition child_opts :: "int \<Rightarrow> sprint_opts \<Rightarrow> spawner \<Rightarrow> sprint_opts" where
  "child_opts p o1 st =
     o1\<lparr>so_viewerPort := JInt p, so_serviceUrl := coalesce (so_serviceUrl o1) (sw_serviceUrl st),
        so_expectBeads := coalesce (so_expectBeads o1) (sw_expectBeads st)\<rparr>"

text \<open>
  The part of \<^verbatim>\<open>spawnSprint\<close> after the port is allocated. \<open>mk\<close> and \<open>op\<close> are the outcomes of
  \<^verbatim>\<open>mkdirSync\<close> and \<^verbatim>\<open>openSync\<close>; \<open>stem\<close> is the run id or the fallback name.
\<close>

definition spawn_finish ::
  "(string \<Rightarrow> string) \<Rightarrow> string \<Rightarrow> string \<Rightarrow> fs_err option \<Rightarrow> fs_err option \<Rightarrow> spawn_outcome \<Rightarrow> sprint_opts \<Rightarrow> int res
     \<Rightarrow> spawner \<Rightarrow> spawned res \<times> spawner"
where
  "spawn_finish sha256hex dataDir stem mk op outcome o1 port st =
     (case port of
        Inl e \<Rightarrow> (Inl e, st)
      | Inr p \<Rightarrow>
          (case buildSprintArgv (child_opts p o1 st) of
             Inl e \<Rightarrow> (Inl e, st)
           | Inr args \<Rightarrow>
               (case resolveSprintLogPath sha256hex dataDir stem of
                  Inl e \<Rightarrow> (Inl e, st)
                | Inr lp \<Rightarrow>
                    (case (mk, op) of
                       (Some e, _) \<Rightarrow> (Inl (FsError e), st)
                     | (None, Some e) \<Rightarrow> (Inl (FsError e), st)
                     | (None, None) \<Rightarrow>
                         let fd = sw_nextFd st;
                             st1 = st\<lparr>sw_nextFd := Suc fd, sw_openFds := fd # sw_openFds st\<rparr>
                         in (case outcome of
                               SpawnThrew e \<Rightarrow> (Inl e, closeLogFd fd st1)
                             | NoPid \<Rightarrow> (Inl (GeneralError ''[spawner] spawn did not return a pid''), closeLogFd fd st1)
                             | Spawned pid \<Rightarrow>
                                 (Inr \<lparr>sd_pid = pid, sd_port = p, sd_args = args, sd_logPath = lp, sd_fd = fd\<rparr>,
                                  st1\<lparr>sw_live := AList.update pid \<lparr>le_port = p, le_logPath = Some lp\<rparr> (sw_live st1)\<rparr>))))))"

text \<open>A call that is not interleaved with another one.\<close>

definition spawnSprint ::
  "(string \<Rightarrow> string) \<Rightarrow> string \<Rightarrow> string \<Rightarrow> fs_err option \<Rightarrow> fs_err option \<Rightarrow> spawn_outcome \<Rightarrow> (int \<Rightarrow> bool) \<Rightarrow> jsval
     \<Rightarrow> sprint_opts \<Rightarrow> spawner \<Rightarrow> spawned res \<times> spawner"
where
  "spawnSprint sha256hex dataDir stem mk op outcome isAvailable basePort o1 st =
     spawn_finish sha256hex dataDir stem mk op outcome o1
       (allocateFreePort basePort JUndef (livePortSet st) isAvailable) st"

text \<open>The listeners of a child and the remaining operations.\<close>

definition child_gone :: "int \<Rightarrow> nat \<Rightarrow> spawner \<Rightarrow> spawner" where
  "child_gone pid fd st = closeLogFd fd (st\<lparr>sw_live := AList.delete pid (sw_live st)\<rparr>)"

definition spawner_stop :: "spawner \<Rightarrow> spawner" where
  "spawner_stop st = st\<lparr>sw_live := []\<rparr>"

definition adopt :: "jsval \<Rightarrow> jsval \<Rightarrow> spawner \<Rightarrow> unit res \<times> spawner" where
  "adopt pid port st =
     (case pid of
        JInt p \<Rightarrow>
          if p \<le> 0 then (Inl (TypeError ''adopt() requires a positive integer pid''), st)
          else (case port of
                  JInt q \<Rightarrow>
                    if q \<le> 0 \<or> q > 65535 then (Inl (TypeError ''adopt() requires an integer port in [1, 65535]''), st)
                    else (Inr (), st\<lparr>sw_live := AList.update p \<lparr>le_port = q, le_logPath = None\<rparr> (sw_live st)\<rparr>)
                | _ \<Rightarrow> (Inl (TypeError ''adopt() requires an integer port in [1, 65535]''), st))
      | _ \<Rightarrow> (Inl (TypeError ''adopt() requires a positive integer pid''), st))"

definition getLiveEntry :: "int \<Rightarrow> spawner \<Rightarrow> live_entry option" where
  "getLiveEntry pid st = map_of (sw_live st) pid"

definition liveCount :: "spawner \<Rightarrow> nat" where
  "liveCount st = length (sw_live st)"

text \<open>
  Calls that overlap: a call begins by allocating a port against the ports that are live at that moment, and
  finishes later; calls finish in any order.
\<close>

record spawn_sys =
  sy_spawner :: spawner
  sy_pending :: "(nat \<times> sprint_opts \<times> int res) list"

datatype spawn_ev =
    SpawnBegin nat sprint_opts
  | SpawnFinish nat string spawn_outcome
  | ChildGone int nat

fun spawn_step :: "(string \<Rightarrow> string) \<Rightarrow> string \<Rightarrow> (int \<Rightarrow> bool) \<Rightarrow> spawn_ev \<Rightarrow> spawn_sys \<Rightarrow> spawn_sys" where
  "spawn_step sha dataDir avail (SpawnBegin i o1) s =
     s\<lparr>sy_pending := AList.update i (o1, allocateFreePort JUndef JUndef (livePortSet (sy_spawner s)) avail) (sy_pending s)\<rparr>"
| "spawn_step sha dataDir avail (SpawnFinish i stem outcome) s =
     (case map_of (sy_pending s) i of
        None \<Rightarrow> s
      | Some (o1, port) \<Rightarrow>
          \<lparr>sy_spawner = snd (spawn_finish sha dataDir stem None None outcome o1 port (sy_spawner s)),
           sy_pending = AList.delete i (sy_pending s)\<rparr>)"
| "spawn_step sha dataDir avail (ChildGone pid fd) s = s\<lparr>sy_spawner := child_gone pid fd (sy_spawner s)\<rparr>"

text \<open>\<^verbatim>\<open>resolveChildPort\<close> of \<^verbatim>\<open>child-port.mjs\<close>.\<close>

definition resolveChildPort :: "ledger \<Rightarrow> spawner \<Rightarrow> string \<Rightarrow> int option" where
  "resolveChildPort l st sid =
     (case ledger_get sid l of
        None \<Rightarrow> None
      | Some r \<Rightarrow>
          (case childPid r of
             None \<Rightarrow> None
           | Some pid \<Rightarrow> map_option le_port (getLiveEntry pid st)))"

subsection \<open>Port allocation\<close>

lemma free_port_Some:
  "free_port_loop n c ex av = Some p \<Longrightarrow>
     c \<le> p \<and> p < c + int n \<and> p \<le> 65535 \<and> p \<notin> set ex \<and> av p \<and> (\<forall>q. c \<le> q \<and> q < p \<longrightarrow> q \<in> set ex \<or> \<not> av q)"
proof (induction n arbitrary: c)
  case (Suc n)
  show ?case
  proof (cases "c \<in> set ex \<or> \<not> av c")
    case True
    with Suc.prems have "free_port_loop n (c + 1) ex av = Some p" by (auto split: if_splits)
    from Suc.IH [OF this] have ih: "c + 1 \<le> p" "p < c + 1 + int n" "p \<le> 65535" "p \<notin> set ex" "av p"
      "\<forall>q. c + 1 \<le> q \<and> q < p \<longrightarrow> q \<in> set ex \<or> \<not> av q" by auto
    have "q \<in> set ex \<or> \<not> av q" if "c \<le> q" "q < p" for q
      using ih(6) True that by (cases "q = c") auto
    with ih show ?thesis by auto
  next
    case False
    with Suc.prems show ?thesis by (auto split: if_splits)
  qed
qed simp

lemma free_port_None:
  "free_port_loop n c ex av = None \<Longrightarrow> c \<le> q \<Longrightarrow> q < c + int n \<Longrightarrow> q \<le> 65535 \<Longrightarrow> q \<in> set ex \<or> \<not> av q"
proof (induction n arbitrary: c)
  case (Suc n)
  show ?case
  proof (cases "q = c")
    case True
    with Suc.prems show ?thesis by (auto split: if_splits)
  next
    case False
    with Suc.prems have "free_port_loop n (c + 1) ex av = None" by (auto split: if_splits)
    with Suc.IH [OF this] False Suc.prems show ?thesis by auto
  qed
qed simp

text \<open>
  Port allocation is exact: it returns the lowest port of the range that is neither held by
  a live sprint nor taken on the machine, and fails only if there is none.
\<close>

theorem allocateFreePort_lowest:
  "(case allocateFreePort (JInt start) (JInt attempts) excluded isAvailable of
      Inr p \<Rightarrow> start \<le> p \<and> p < start + max 0 attempts \<and> p \<le> 65535 \<and> p \<notin> set excluded \<and> isAvailable p \<and>
        (\<forall>q. start \<le> q \<and> q < p \<longrightarrow> q \<in> set excluded \<or> \<not> isAvailable q)
    | Inl _ \<Rightarrow> \<forall>q. start \<le> q \<and> q < start + max 0 attempts \<and> q \<le> 65535 \<longrightarrow> q \<in> set excluded \<or> \<not> isAvailable q)"
proof (cases "free_port_loop (nat attempts) start excluded isAvailable")
  case None
  then show ?thesis using free_port_None [OF None]
    by (simp add: allocateFreePort_def) (metis max.commute max_def)
next
  case (Some p)
  then show ?thesis using free_port_Some [OF Some]
    by (simp add: allocateFreePort_def) (metis max.commute max_def)
qed

theorem allocateFreePort_lowest_witness:
  "allocateFreePort (JInt 8081) (JInt 10) [8081] (\<lambda>p. p \<noteq> 8082) = Inr 8083 \<and> (8083::int) \<notin> set [8081]"
proof -
  have r: "allocateFreePort (JInt 8081) (JInt 10) [8081] (\<lambda>p. p \<noteq> 8082) = Inr 8083" by code_simp
  with allocateFreePort_lowest [of 8081 10 "[8081]" "\<lambda>p. p \<noteq> 8082"] show ?thesis by simp
qed

subsection \<open>Bookkeeping\<close>

definition sw_inv :: "spawner \<Rightarrow> bool" where
  "sw_inv st \<longleftrightarrow> jmap_ok (sw_live st) \<and> (\<forall>fd\<in>set (sw_openFds st). fd < sw_nextFd st)"

definition ports_distinct :: "spawner \<Rightarrow> bool" where
  "ports_distinct st \<longleftrightarrow> (\<forall>p q a b. map_of (sw_live st) p = Some a \<and> map_of (sw_live st) q = Some b \<and> le_port a = le_port b \<longrightarrow> p = q)"

lemma livePortSet_iff: "jmap_ok (sw_live st) \<Longrightarrow> x \<in> set (livePortSet st) \<longleftrightarrow> (\<exists>p a. map_of (sw_live st) p = Some a \<and> le_port a = x)"
proof -
  assume ok: "jmap_ok (sw_live st)"
  have "x \<in> set (livePortSet st) \<longleftrightarrow> (\<exists>p a. (p, a) \<in> set (sw_live st) \<and> le_port a = x)"
    by (force simp: livePortSet_def)
  with jmap_ok_mem [OF ok] show ?thesis by simp
qed

lemma spawn_finish_Inr:
  assumes "spawn_finish sha dir stem mk op outcome o1 port st = (Inr d, st')"
  shows "port = Inr (sd_port d)" "outcome = Spawned (sd_pid d)" "sd_fd d = sw_nextFd st"
    "st' = st\<lparr>sw_nextFd := Suc (sw_nextFd st), sw_openFds := sw_nextFd st # sw_openFds st,
       sw_live := AList.update (sd_pid d) \<lparr>le_port = sd_port d, le_logPath = Some (sd_logPath d)\<rparr> (sw_live st)\<rparr>"
  using assms by (auto simp: spawn_finish_def Let_def split: sum.splits option.splits spawn_outcome.splits)

lemma spawn_finish_Inl:
  assumes "spawn_finish sha dir stem mk op outcome o1 port st = (Inl e, st')" "sw_inv st"
  shows "sw_live st' = sw_live st" "sw_openFds st' = sw_openFds st"
proof -
  have "filter (\<lambda>x. x \<noteq> sw_nextFd st) (sw_openFds st) = sw_openFds st"
    using assms(2) by (auto simp: sw_inv_def filter_id_conv)
  then show "sw_live st' = sw_live st" "sw_openFds st' = sw_openFds st"
    using assms(1) by (auto simp: spawn_finish_def Let_def closeLogFd_def split: sum.splits option.splits spawn_outcome.splits)
qed

text \<open>
  A launch that runs alone keeps the viewer ports of the live sprints pairwise different and
  takes nothing on failure: if it fails, the live table and the open log descriptors are as before; if it
  succeeds, the new child has a port no live sprint had, and when that child is gone, its port and its
  descriptor are free again.
\<close>

theorem spawnSprint_isolated:
  assumes "sw_inv st" "ports_distinct st"
    and "spawnSprint sha dir stem mk op outcome avail basePort o1 st = (res, st')"
  shows "ports_distinct st' \<and> (case res of
      Inl _ \<Rightarrow> sw_live st' = sw_live st \<and> sw_openFds st' = sw_openFds st
    | Inr d \<Rightarrow> sd_port d \<notin> set (livePortSet st) \<and> getLiveEntry (sd_pid d) st' = Some \<lparr>le_port = sd_port d, le_logPath = Some (sd_logPath d)\<rparr> \<and>
        getLiveEntry (sd_pid d) (child_gone (sd_pid d) (sd_fd d) st') = None \<and>
        sw_openFds (child_gone (sd_pid d) (sd_fd d) st') = sw_openFds st)"
proof (cases res)
  case (Inl e)
  with assms spawn_finish_Inl show ?thesis
    by (fastforce simp: spawnSprint_def ports_distinct_def)
next
  case (Inr d)
  note f = spawn_finish_Inr [OF assms(3) [unfolded spawnSprint_def Inr]]
  have fresh: "sd_port d \<notin> set (livePortSet st)"
    using f(1) free_port_Some by (auto simp: allocateFreePort_def Let_def split: option.splits)
  then have "ports_distinct st'"
    unfolding ports_distinct_def
  proof (intro allI impI)
    fix p q a b
    assume h: "map_of (sw_live st') p = Some a \<and> map_of (sw_live st') q = Some b \<and> le_port a = le_port b"
    have new: "map_of (sw_live st) x = Some c \<Longrightarrow> le_port c \<noteq> sd_port d" for x c
      using fresh livePortSet_iff [of st] assms(1) by (auto simp: sw_inv_def)
    show "p = q"
      using h new [of p a] new [of q b] assms(2) unfolding f(4) ports_distinct_def
      by (auto split: if_splits)
  qed
  moreover have "filter (\<lambda>x. x \<noteq> sw_nextFd st) (sw_openFds st) = sw_openFds st"
    using assms(1) by (auto simp: sw_inv_def filter_id_conv)
  ultimately show ?thesis using fresh Inr
    by (simp add: f(3,4) getLiveEntry_def child_gone_def closeLogFd_def)
qed

definition demo_opts :: sprint_opts where
  "demo_opts = \<lparr>so_issue = JStr ''i1'', so_members = JStr ''m1'', so_branch = JStr ''b'', so_base = JStr ''main'',
     so_goal = JUndef, so_maxCycles = JUndef, so_allowMissingMembers = JUndef, so_requirementsFile = JUndef,
     so_roleMap = JUndef, so_budget = JUndef, so_viewerPort = JUndef, so_serviceUrl = JUndef, so_runId = JUndef,
     so_expectBeads = JUndef, so_extraArgs = JUndef, so_skipRegression = JUndef\<rparr>"

theorem spawnSprint_isolated_witness:
  "\<exists>d st'. spawnSprint id ''/d'' ''s'' None None (Spawned 7) (\<lambda>_. True) JUndef demo_opts new_spawner = (Inr d, st') \<and>
     sd_port d = 8081 \<and> ports_distinct st'"
proof -
  have i: "sw_inv new_spawner" "ports_distinct new_spawner" by (simp_all add: sw_inv_def ports_distinct_def new_spawner_def)
  obtain r st' where s: "spawnSprint id ''/d'' ''s'' None None (Spawned 7) (\<lambda>_. True) JUndef demo_opts new_spawner = (r, st')"
    by fastforce
  have "map_sum (\<lambda>_. ()) sd_port (fst (spawnSprint id ''/d'' ''s'' None None (Spawned 7) (\<lambda>_. True) JUndef demo_opts new_spawner)) = Inr 8081"
    by code_simp
  then obtain d where "r = Inr d" "sd_port d = 8081" using s by (cases r) auto
  with s spawnSprint_isolated [OF i s] show ?thesis by auto
qed

text \<open>
  Two launches that overlap can be given the same viewer port: each allocates against the ports
  live when it began, and neither is live until it finishes, so both children run with one port.
\<close>

theorem spawner_concurrent_same_port:
  assumes "avail 8081" "buildSprintArgv (child_opts 8081 o1 new_spawner) = Inr args"
    and "resolveSprintLogPath sha dir ''s1'' = Inr lp1" "resolveSprintLogPath sha dir ''s2'' = Inr lp2" "p \<noteq> q"
  defines "run \<equiv> fold (spawn_step sha dir avail)
      [SpawnBegin 0 o1, SpawnBegin 1 o1, SpawnFinish 0 ''s1'' (Spawned p), SpawnFinish 1 ''s2'' (Spawned q)]
      \<lparr>sy_spawner = new_spawner, sy_pending = []\<rparr>"
  shows "\<exists>a b. getLiveEntry p (sy_spawner run) = Some a \<and> getLiveEntry q (sy_spawner run) = Some b \<and> le_port a = le_port b"
proof -
  have port: "allocateFreePort JUndef JUndef [] avail = Inr 8081"
    using assms(1) by (simp add: allocateFreePort_def DEFAULT_SPAWNER_BASE_PORT_def numeral_eq_Suc)
  show ?thesis using assms(2-5) port
    by (simp add: run_def livePortSet_def new_spawner_def spawn_finish_def Let_def getLiveEntry_def child_opts_def)
qed

theorem spawner_concurrent_same_port_witness:
  "\<exists>a b. getLiveEntry 7 (sy_spawner (fold (spawn_step id ''/d'' (\<lambda>_. True))
      [SpawnBegin 0 demo_opts, SpawnBegin 1 demo_opts, SpawnFinish 0 ''s1'' (Spawned 7), SpawnFinish 1 ''s2'' (Spawned 8)]
      \<lparr>sy_spawner = new_spawner, sy_pending = []\<rparr>)) = Some a \<and>
    getLiveEntry 8 (sy_spawner (fold (spawn_step id ''/d'' (\<lambda>_. True))
      [SpawnBegin 0 demo_opts, SpawnBegin 1 demo_opts, SpawnFinish 0 ''s1'' (Spawned 7), SpawnFinish 1 ''s2'' (Spawned 8)]
      \<lparr>sy_spawner = new_spawner, sy_pending = []\<rparr>)) = Some b \<and> le_port a = le_port b"
proof -
  obtain args where "buildSprintArgv (child_opts 8081 demo_opts new_spawner) = Inr args"
    using that by (simp add: buildSprintArgv_def child_opts_def demo_opts_def)
  moreover have "resolveSprintLogPath id ''/d'' ''s1'' = Inr ''/d/logs/s1.log''" by code_simp
  moreover have "resolveSprintLogPath id ''/d'' ''s2'' = Inr ''/d/logs/s2.log''" by code_simp
  ultimately show ?thesis
    by (intro spawner_concurrent_same_port) simp_all
qed

subsection \<open>The log file name\<close>

lemma stem_char_sanitize: "list_all stem_char (sanitize_stem s)"
  by (auto simp: list_all_iff sanitize_stem_def) (simp add: stem_char_def)

text \<open>
  The log path never escapes the log directory. Whatever run id is given, and for any digest
  that is printed in the safe characters, the path is built, lies directly under the log directory, and its
  file name is made of letters, digits, dots, underscores and dashes, at most 84 of them, ending in .log.
\<close>

theorem resolveSprintLogPath_safe:
  assumes "\<forall>s. list_all stem_char (sha s)"
  shows "\<exists>name. resolveSprintLogPath sha dataDir stem = Inr (dataDir @ ''/logs/'' @ name @ ''.log'') \<and>
    list_all stem_char name \<and> CHR ''/'' \<notin> set name \<and> name \<noteq> [] \<and> length name \<le> 80"
proof -
  let ?safe = "bound_stem sha stem"
  let ?name = "if ?safe = [] then ''sprint'' else ?safe"
  have "list_all stem_char ''sprint''" by (simp add: stem_char_def)
  moreover have "list_all stem_char ?safe"
    using assms stem_char_sanitize [of stem]
    by (auto simp: bound_stem_def Let_def list_all_iff stem_char_def [of "CHR ''-''"] dest!: in_set_takeD)
  ultimately have chars: "list_all stem_char ?name" by simp
  have slash: "CHR ''/'' \<notin> set ?name"
  proof
    assume "CHR ''/'' \<in> set ?name"
    with chars have "stem_char (CHR ''/'')" unfolding list_all_iff by blast
    then show False by (simp add: stem_char_def)
  qed
  have "length ?safe \<le> 80"
    by (auto simp: bound_stem_def Let_def MAX_LOG_STEM_LENGTH_def LOG_STEM_HASH_LENGTH_def)
  then have len: "length ?name \<le> 80" by simp
  have "path_basename (?name @ ''.log'') = ?name @ ''.log''"
  proof -
    have "takeWhile (\<lambda>c. c \<noteq> CHR ''/'') (rev (?name @ ''.log'')) = rev (?name @ ''.log'')"
      using slash by (subst takeWhile_eq_all_conv) auto
    then show ?thesis by (simp only: path_basename_def rev_rev_ident)
  qed
  moreover have "log_file_name sha stem = ?name @ ''.log''" by (simp add: log_file_name_def Let_def)
  ultimately have "resolveSprintLogPath sha dataDir stem = Inr (dataDir @ ''/logs/'' @ ?name @ ''.log'')"
    by (simp add: resolveSprintLogPath_def Let_def path_join_def)
  with chars slash len show ?thesis by (intro exI [of _ ?name]) auto
qed

theorem resolveSprintLogPath_safe_witness:
  "\<exists>name. resolveSprintLogPath (\<lambda>_. ''abcdef012345'') ''/d'' ''../../etc/passwd'' = Inr (''/d'' @ ''/logs/'' @ name @ ''.log'') \<and>
    CHR ''/'' \<notin> set name"
proof -
  have "\<forall>s. list_all stem_char ((\<lambda>_ :: string. ''abcdef012345'') s)" by (simp add: stem_char_def)
  from resolveSprintLogPath_safe [OF this] show ?thesis by blast
qed

end
