(* ===== verification/Readopt.thy ===== *)
theory Readopt
  imports Reconcile Spawner
begin

section \<open>Re-adoption after a restart, and sprint identity\<close>

text \<open>
  \<^verbatim>\<open>packages/apra-fleet-se/src/supervisor/readopt.mjs\<close> (the viewer port read back from a live child's command
  line, and the pass that registers the live children of the ledger with the spawner) and
  \<^verbatim>\<open>sprint-identity.mjs\<close> (which reservations of the list are the caller's own). Reading a command line is a
  parameter.
\<close>

subsection \<open>The viewer port of a command line\<close>

text \<open>The regular expression \<^verbatim>\<open>--viewer-port[\s=]+(\d+)\<close>, tried at each position from the left.\<close>

definition port_flag :: string where "port_flag = ''--viewer-port''"

definition port_digits_at :: "string \<Rightarrow> string option" where
  "port_digits_at s =
     (if take (length port_flag) s \<noteq> port_flag then None
      else let r = drop (length port_flag) s;
               seps = takeWhile (\<lambda>c. js_space c \<or> c = CHR ''='') r;
               ds = takeWhile js_digit (drop (length seps) r)
           in if seps = [] \<or> ds = [] then None else Some ds)"

fun first_port_digits :: "string \<Rightarrow> string option" where
  "first_port_digits [] = None"
| "first_port_digits (c # cs) =
     (case port_digits_at (c # cs) of Some ds \<Rightarrow> Some ds | None \<Rightarrow> first_port_digits cs)"

definition parseViewerPortFromCmdline :: "string option \<Rightarrow> nat option" where
  "parseViewerPortFromCmdline cmdline =
     (case cmdline of
        None \<Rightarrow> None
      | Some s \<Rightarrow>
          (case first_port_digits s of
             None \<Rightarrow> None
           | Some ds \<Rightarrow> let port = read_nat ds in if port > 0 \<and> port \<le> 65535 then Some port else None))"

subsection \<open>The pass\<close>

record adopted =
  ad_sprintId :: string
  ad_childPid :: int
  ad_port :: nat

fun readopt_loop ::
  "(int \<Rightarrow> string option) \<Rightarrow> ledger \<Rightarrow> string list \<Rightarrow> spawner \<Rightarrow> adopted list \<Rightarrow> string list
     \<Rightarrow> (adopted list \<times> string list) res \<times> spawner"
where
  "readopt_loop readCmdline l [] sw adopted unresolved = (Inr (adopted, unresolved), sw)"
| "readopt_loop readCmdline l (sid # sids) sw adopted unresolved =
     (case (case ledger_get sid l of None \<Rightarrow> None | Some r \<Rightarrow> childPid r) of
        None \<Rightarrow> readopt_loop readCmdline l sids sw adopted (unresolved @ [sid])
      | Some pid \<Rightarrow>
          (case parseViewerPortFromCmdline (readCmdline pid) of
             None \<Rightarrow> readopt_loop readCmdline l sids sw adopted (unresolved @ [sid])
           | Some port \<Rightarrow>
               (case adopt (JInt pid) (JInt (int port)) sw of
                  (Inl e, sw') \<Rightarrow> (Inl e, sw')
                | (Inr _, sw') \<Rightarrow>
                    readopt_loop readCmdline l sids sw'
                      (adopted @ [\<lparr>ad_sprintId = sid, ad_childPid = pid, ad_port = port\<rparr>]) unresolved)))"

record readopt_result =
  ro_released :: "string list"
  ro_retained :: "string list"
  ro_adopted :: "adopted list"
  ro_unresolved :: "string list"

definition readopt ::
  "(int \<Rightarrow> string option) \<Rightarrow> (int \<Rightarrow> bool) \<Rightarrow> bool \<Rightarrow> (nat \<Rightarrow> io) \<Rightarrow> (nat \<Rightarrow> string) \<Rightarrow> sup \<Rightarrow> spawner
     \<Rightarrow> readopt_result res \<times> sup \<times> spawner"
where
  "readopt readCmdline probe client io now st sw =
     (case reconcile probe client io now st of
        (Inl e, st') \<Rightarrow> (Inl e, st', sw)
      | (Inr (released, retained), st') \<Rightarrow>
          (case readopt_loop readCmdline (sp_ledger st') retained sw [] [] of
             (Inl e, sw') \<Rightarrow> (Inl e, st', sw')
           | (Inr (ad, un), sw') \<Rightarrow>
               (Inr \<lparr>ro_released = released, ro_retained = retained, ro_adopted = ad, ro_unresolved = un\<rparr>, st', sw')))"

subsection \<open>Identity\<close>

definition exactStringOrNull :: "jsval \<Rightarrow> string option" where
  "exactStringOrNull v = nonempty_str v"

definition exactPidOrNull :: "jsval \<Rightarrow> int option" where
  "exactPidOrNull v = (case v of JInt i \<Rightarrow> if i > 0 then Some i else None | _ \<Rightarrow> None)"

text \<open>\<^verbatim>\<open>identity?.k\<close>: a nullish identity has no fields.\<close>

definition isSelfReservation :: "jsval \<Rightarrow> jsval \<Rightarrow> bool" where
  "isSelfReservation reservation identity =
     (if \<not> truthy reservation \<or> \<not> typeof_object reservation then False
      else let selfSprintId = exactStringOrNull (jfield identity ''sprintId'');
               selfChildPid = exactPidOrNull (jfield identity ''childPid'')
           in if selfSprintId = None \<and> selfChildPid = None then False
              else if selfSprintId \<noteq> None \<and> exactStringOrNull (jfield reservation ''sprintId'') = selfSprintId then True
              else selfChildPid \<noteq> None \<and> exactPidOrNull (jfield reservation ''childPid'') = selfChildPid)"

record sprint_classes =
  cl_self :: "jsval list"
  cl_foreign :: "jsval list"
  cl_shouldStop :: bool

definition classifyActiveSprints :: "jsval \<Rightarrow> jsval \<Rightarrow> sprint_classes" where
  "classifyActiveSprints sprints identity =
     (let xs = rows_of sprints;
          mine = filter (\<lambda>r. isSelfReservation r identity) xs;
          foreign = filter (\<lambda>r. \<not> isSelfReservation r identity) xs
      in \<lparr>cl_self = mine, cl_foreign = foreign, cl_shouldStop = (length foreign > 0)\<rparr>)"

definition selectForeignSprints :: "jsval \<Rightarrow> jsval \<Rightarrow> jsval list" where
  "selectForeignSprints sprints identity = cl_foreign (classifyActiveSprints sprints identity)"

subsection \<open>Reading the port back\<close>

lemma first_port_skip:
  "(\<forall>i<length pre. port_digits_at (drop i (pre @ s)) = None) \<Longrightarrow> first_port_digits (pre @ s) = first_port_digits s"
proof (induction pre)
  case (Cons c cs)
  have "port_digits_at (c # cs @ s) = None" using Cons.prems by (metis drop0 append_Cons length_greater_0_conv list.distinct(1))
  moreover have "\<forall>i<length cs. port_digits_at (drop i (cs @ s)) = None"
    using Cons.prems by (metis Suc_less_eq append_Cons drop_Suc_Cons length_Cons)
  ultimately show ?case using Cons.IH by simp
qed simp

lemma show_nat_js_digit: "c \<in> set (show_nat n) \<Longrightarrow> js_digit c"
  using show_nat_digits by (simp add: js_digit_def)

lemma port_digits_marker:
  assumes "rest = [] \<or> \<not> js_digit (hd rest)"
  shows "port_digits_at (port_flag @ CHR '' '' # show_nat p @ rest) = Some (show_nat p)"
proof -
  have nd: "\<not> (js_space c \<or> c = CHR ''='')" if "c \<in> set (show_nat p)" for c
    using show_nat_digits [OF that] by (auto simp: js_space_def Let_def)
  obtain d ds where d: "show_nat p = d # ds" by (cases "show_nat p") auto
  then have "\<not> js_space d \<and> d \<noteq> CHR ''=''" using nd by auto
  then have seps: "takeWhile (\<lambda>c. js_space c \<or> c = CHR ''='') (CHR '' '' # show_nat p @ rest) = [CHR '' '']"
    using d by (simp add: js_space_def)
  have "takeWhile js_digit (show_nat p @ rest) = show_nat p @ takeWhile js_digit rest"
    by (rule takeWhile_append2) (simp add: show_nat_js_digit)
  moreover have "takeWhile js_digit rest = []" using assms by (cases rest) auto
  ultimately show ?thesis using seps by (simp add: port_digits_at_def Let_def)
qed

text \<open>
  The port a child was started with can be read back from its command line: if the flag the
  spawner writes is the first one on the line and is followed by the end or by something that is not a digit,
  parsing gives exactly that port, for every valid port.
\<close>

theorem viewer_port_roundtrip:
  assumes "1 \<le> p" "p \<le> 65535" "rest = [] \<or> \<not> js_digit (hd rest)"
    and "\<forall>i<length pre. port_digits_at (drop i (pre @ ''--viewer-port '' @ show_nat p @ rest)) = None"
  shows "parseViewerPortFromCmdline (Some (pre @ ''--viewer-port '' @ show_nat p @ rest)) = Some p"
proof -
  have m: "port_digits_at (''--viewer-port '' @ show_nat p @ rest) = Some (show_nat p)"
    using port_digits_marker [OF assms(3), of p] by (simp add: port_flag_def)
  then have "first_port_digits (''--viewer-port '' @ show_nat p @ rest) = Some (show_nat p)"
    by (simp add: first_port_digits.simps(2) [of "CHR ''-''"])
  with first_port_skip [OF assms(4)] assms(1,2) show ?thesis
    by (simp add: parseViewerPortFromCmdline_def read_show_nat Let_def)
qed

theorem viewer_port_roundtrip_witness:
  "parseViewerPortFromCmdline (Some (''node cli '' @ ''--viewer-port '' @ show_nat 7 @ '' --goal x'')) = Some 7"
proof (rule viewer_port_roundtrip)
  have "list_all (\<lambda>i. port_digits_at (drop i (''node cli '' @ ''--viewer-port '' @ show_nat 7 @ '' --goal x'')) = None)
      [0..<length ''node cli '']"
    by code_simp
  then show "\<forall>i<length ''node cli ''. port_digits_at (drop i (''node cli '' @ ''--viewer-port '' @ show_nat 7 @ '' --goal x'')) = None"
    unfolding list_all_iff by (metis atLeastLessThan_iff atLeast_upt lessThan_iff)
qed (simp_all add: js_digit_def)

subsection \<open>Properties of the pass\<close>

lemma adopt_ok: "pid > 0 \<Longrightarrow> 0 < port \<Longrightarrow> port \<le> 65535 \<Longrightarrow>
    adopt (JInt pid) (JInt (int port)) sw = (Inr (), sw\<lparr>sw_live := AList.update pid \<lparr>le_port = int port, le_logPath = None\<rparr> (sw_live sw)\<rparr>)"
  by (simp add: adopt_def)

lemma parse_port_range: "parseViewerPortFromCmdline c = Some p \<Longrightarrow> 0 < p \<and> p \<le> 65535"
  by (auto simp: parseViewerPortFromCmdline_def Let_def split: option.splits if_splits)

text \<open>What the pass does with the live sprints, when every recorded process id is positive.\<close>

definition recovered :: "(int \<Rightarrow> string option) \<Rightarrow> ledger \<Rightarrow> string \<Rightarrow> adopted option" where
  "recovered readCmdline l sid =
     (case (case ledger_get sid l of None \<Rightarrow> None | Some r \<Rightarrow> childPid r) of
        None \<Rightarrow> None
      | Some pid \<Rightarrow> map_option (\<lambda>p. \<lparr>ad_sprintId = sid, ad_childPid = pid, ad_port = p\<rparr>)
          (parseViewerPortFromCmdline (readCmdline pid)))"

lemma readopt_loop_total:
  assumes "\<forall>sid\<in>set sids. \<forall>r pid. ledger_get sid l = Some r \<longrightarrow> childPid r = Some pid \<longrightarrow> pid > 0"
  shows "\<exists>sw'. readopt_loop readCmdline l sids sw ad un =
      (Inr (ad @ List.map_filter (recovered readCmdline l) sids,
            un @ filter (\<lambda>sid. recovered readCmdline l sid = None) sids), sw') \<and>
    (\<forall>pid. getLiveEntry pid sw' =
       (case find (\<lambda>a. ad_childPid a = pid) (rev (List.map_filter (recovered readCmdline l) sids)) of
          Some a \<Rightarrow> Some \<lparr>le_port = int (ad_port a), le_logPath = None\<rparr> | None \<Rightarrow> getLiveEntry pid sw))"
  using assms
proof (induction sids arbitrary: sw ad un)
  case (Cons sid sids)
  have prem: "\<forall>sid\<in>set sids. \<forall>r pid. ledger_get sid l = Some r \<longrightarrow> childPid r = Some pid \<longrightarrow> pid > 0"
    using Cons.prems by simp
  show ?case
  proof (cases "recovered readCmdline l sid")
    case None
    then have "readopt_loop readCmdline l (sid # sids) sw ad un = readopt_loop readCmdline l sids sw ad (un @ [sid])"
      by (auto simp: recovered_def split: option.splits)
    with Cons.IH [OF prem, of sw ad "un @ [sid]"] None show ?thesis by (simp add: List.map_filter_simps)
  next
    case (Some a)
    then obtain r pid port where r: "ledger_get sid l = Some r" "childPid r = Some pid"
      "parseViewerPortFromCmdline (readCmdline pid) = Some port"
      and a: "a = \<lparr>ad_sprintId = sid, ad_childPid = pid, ad_port = port\<rparr>"
      by (auto simp: recovered_def split: option.splits)
    let ?sw = "sw\<lparr>sw_live := AList.update pid \<lparr>le_port = int port, le_logPath = None\<rparr> (sw_live sw)\<rparr>"
    have "pid > 0" using Cons.prems r by auto
    then have "readopt_loop readCmdline l (sid # sids) sw ad un = readopt_loop readCmdline l sids ?sw (ad @ [a]) un"
      using r a parse_port_range [OF r(3)] by (simp add: adopt_ok)
    moreover obtain sw' where "readopt_loop readCmdline l sids ?sw (ad @ [a]) un =
        (Inr ((ad @ [a]) @ List.map_filter (recovered readCmdline l) sids,
              un @ filter (\<lambda>sid. recovered readCmdline l sid = None) sids), sw')"
      "\<forall>pid. getLiveEntry pid sw' =
       (case find (\<lambda>a. ad_childPid a = pid) (rev (List.map_filter (recovered readCmdline l) sids)) of
          Some a \<Rightarrow> Some \<lparr>le_port = int (ad_port a), le_logPath = None\<rparr> | None \<Rightarrow> getLiveEntry pid ?sw)"
      using Cons.IH [OF prem, of ?sw "ad @ [a]" un] by blast
    moreover have "getLiveEntry q ?sw = (if ad_childPid a = q then Some \<lparr>le_port = int (ad_port a), le_logPath = None\<rparr>
        else getLiveEntry q sw)" for q
      by (simp add: getLiveEntry_def a)
    ultimately show ?thesis using Some
      by (auto simp: List.map_filter_simps find_append split: option.splits)
  qed
qed (simp add: List.map_filter_simps)

lemma recovered_port:
  assumes "recovered readCmdline l sid = Some a"
  shows "ad_sprintId a = sid" "parseViewerPortFromCmdline (readCmdline (ad_childPid a)) = Some (ad_port a)"
    "\<exists>r. ledger_get sid l = Some r \<and> childPid r = Some (ad_childPid a)"
  using assms by (auto simp: recovered_def split: option.splits)

lemma find_Some_iff_pid:
  assumes "a \<in> set xs" "P a"
  shows "\<exists>b. find P xs = Some b \<and> b \<in> set xs \<and> P b"
proof (cases "find P xs")
  case None
  with assms show ?thesis by (simp add: find_None_iff)
next
  case (Some b)
  then show ?thesis by (metis find_Some_iff nth_mem)
qed

text \<open>
  After a restart every sprint whose child is alive is accounted for: the pass completes, each
  retained sprint is either adopted or reported as unresolved, in order, and for every adopted one the port
  lookup that the proxy and the dashboard use answers with the port on the child's own command line.
\<close>

theorem readopt_tracks_live:
  assumes "ledger_inv (sp_ledger st)"
    and "reconcile (\<lambda>p. isPidAlive kill0 (JInt p)) client io now st = (Inr (released, retained), st')"
  shows "\<exists>res sw'. readopt readCmdline (\<lambda>p. isPidAlive kill0 (JInt p)) client io now st sw = (Inr res, st', sw') \<and>
    ro_retained res = retained \<and>
    ro_adopted res = List.map_filter (recovered readCmdline (sp_ledger st')) retained \<and>
    ro_unresolved res = filter (\<lambda>sid. recovered readCmdline (sp_ledger st') sid = None) retained \<and>
    (\<forall>a\<in>set (ro_adopted res). resolveChildPort (sp_ledger st') sw' (ad_sprintId a) = Some (int (ad_port a)))"
proof -
  let ?probe = "\<lambda>p. isPidAlive kill0 (JInt p)"
  let ?l = "sp_ledger st'"
  let ?ad = "List.map_filter (recovered readCmdline ?l) retained"
  note exact = reconcile_spec [OF assms]
  have pos: "pid > 0" if "sid \<in> set retained" "ledger_get sid ?l = Some r" "childPid r = Some pid" for sid r pid
  proof -
    have "ledger_get sid ?l = (case ledger_get sid (sp_ledger st) of None \<Rightarrow> None | Some r \<Rightarrow> if entry_alive ?probe r then Some r else None)"
      using exact by blast
    with that(2) have "entry_alive ?probe r" by (auto split: option.splits if_splits)
    with that(3) show ?thesis by (auto simp: entry_alive_def isPidAlive_def split: if_splits)
  qed
  obtain sw' where loop: "readopt_loop readCmdline ?l retained sw [] [] = (Inr (?ad, filter (\<lambda>sid. recovered readCmdline ?l sid = None) retained), sw')"
    and live: "\<forall>pid. getLiveEntry pid sw' = (case find (\<lambda>a. ad_childPid a = pid) (rev ?ad) of
          Some a \<Rightarrow> Some \<lparr>le_port = int (ad_port a), le_logPath = None\<rparr> | None \<Rightarrow> getLiveEntry pid sw)"
    using readopt_loop_total [of retained ?l readCmdline sw "[]" "[]"] pos by auto
  have "resolveChildPort ?l sw' (ad_sprintId a) = Some (int (ad_port a))" if a: "a \<in> set ?ad" for a
  proof -
    have mem: "\<And>b. b \<in> set ?ad \<Longrightarrow> \<exists>sid. recovered readCmdline ?l sid = Some b"
      by (auto simp: List.map_filter_def)
    obtain b where b: "find (\<lambda>c. ad_childPid c = ad_childPid a) (rev ?ad) = Some b" "b \<in> set (rev ?ad)" "ad_childPid b = ad_childPid a"
      using find_Some_iff_pid [of a "rev ?ad" "\<lambda>c. ad_childPid c = ad_childPid a"] a by auto
    obtain sid sid' where rec: "recovered readCmdline ?l sid = Some a" "recovered readCmdline ?l sid' = Some b"
      using mem [OF a] mem [of b] b(2) by auto
    have "ad_port b = ad_port a"
      using recovered_port(2) [OF rec(1)] recovered_port(2) [OF rec(2)] b(3) by simp
    moreover obtain r where "ledger_get sid ?l = Some r" "childPid r = Some (ad_childPid a)"
      using recovered_port(3) [OF rec(1)] by blast
    ultimately show ?thesis using recovered_port(1) [OF rec(1)] live b(1) by (simp add: resolveChildPort_def)
  qed
  with loop assms(2) show ?thesis by (auto simp: readopt_def)
qed

theorem readopt_tracks_live_witness:
  "\<exists>res st' sw'. readopt (\<lambda>_. None) (\<lambda>p. isPidAlive (\<lambda>_. KillOk) (JInt p)) False (\<lambda>_. io_ok) (\<lambda>_. ''t'') demo_sup new_spawner
     = (Inr res, st', sw') \<and> ro_unresolved res = [''s1'']"
proof -
  have inv: "ledger_inv (sp_ledger demo_sup)" by (simp add: demo_sup_def demo_claimed_inv)
  have rec: "reconcile (\<lambda>p. isPidAlive (\<lambda>_. KillOk) (JInt p)) False (\<lambda>_. io_ok) (\<lambda>_. ''t'') demo_sup = (Inr ([], [''s1'']), demo_sup)"
    by (simp add: reconcile_def demo_sup_def demo_ledger_list entry_alive_def demo_res_def isPidAlive_def)
  have "recovered (\<lambda>_. None) (sp_ledger demo_sup) ''s1'' = None"
    by (simp add: recovered_def parseViewerPortFromCmdline_def split: option.split)
  with readopt_tracks_live [OF inv rec, of "\<lambda>_. None" new_spawner] show ?thesis by force
qed

subsection \<open>Identity is exact\<close>

text \<open>
  The deploy gate compares identities exactly. Every reservation is classified once; a caller
  without a usable identity has none of its own; and a reservation is the caller's own exactly if it is an
  object whose non-empty sprint id or positive process id equals the caller's.
\<close>

theorem classifyActiveSprints_exact:
  assumes "classifyActiveSprints (JArr rs) (JObj idn) = c"
  shows "set (cl_self c) \<union> set (cl_foreign c) = set rs \<and> length (cl_self c) + length (cl_foreign c) = length rs \<and>
    (cl_shouldStop c \<longleftrightarrow> (\<exists>r\<in>set rs. \<not> isSelfReservation r (JObj idn))) \<and>
    (\<forall>kvs\<in>{kvs. JObj kvs \<in> set rs}. JObj kvs \<in> set (cl_self c) \<longleftrightarrow>
       (\<exists>s. s \<noteq> [] \<and> jfield (JObj kvs) ''sprintId'' = JStr s \<and> jfield (JObj idn) ''sprintId'' = JStr s) \<or>
       (\<exists>p>0. jfield (JObj kvs) ''childPid'' = JInt p \<and> jfield (JObj idn) ''childPid'' = JInt p))"
proof -
  have str: "exactStringOrNull v = Some s \<longleftrightarrow> v = JStr s \<and> s \<noteq> []" for v s
    by (cases v) (auto simp: exactStringOrNull_def)
  have pid: "exactPidOrNull v = Some p \<longleftrightarrow> v = JInt p \<and> p > 0" for v p
    by (cases v) (auto simp: exactPidOrNull_def)
  have self: "isSelfReservation (JObj kvs) (JObj idn) \<longleftrightarrow>
      (\<exists>s. exactStringOrNull (jfield (JObj kvs) ''sprintId'') = Some s \<and> exactStringOrNull (jfield (JObj idn) ''sprintId'') = Some s) \<or>
      (\<exists>p. exactPidOrNull (jfield (JObj kvs) ''childPid'') = Some p \<and> exactPidOrNull (jfield (JObj idn) ''childPid'') = Some p)" for kvs
    by (auto simp: isSelfReservation_def Let_def)
  have c: "c = \<lparr>cl_self = filter (\<lambda>r. isSelfReservation r (JObj idn)) rs,
      cl_foreign = filter (\<lambda>r. \<not> isSelfReservation r (JObj idn)) rs,
      cl_shouldStop = (length (filter (\<lambda>r. \<not> isSelfReservation r (JObj idn)) rs) > 0)\<rparr>"
    using assms by (simp add: classifyActiveSprints_def Let_def rows_of_def)
  show ?thesis
  proof (intro conjI ballI)
    show "length (cl_self c) + length (cl_foreign c) = length rs"
      by (simp add: c sum_length_filter_compl)
    show "cl_shouldStop c \<longleftrightarrow> (\<exists>r\<in>set rs. \<not> isSelfReservation r (JObj idn))"
      by (auto simp: c filter_empty_conv)
  qed (auto simp: c self str pid)
qed

theorem classifyActiveSprints_exact_witness:
  "cl_shouldStop (classifyActiveSprints (JArr [JObj [(''sprintId'', JStr ''s-1'')]]) (JObj [(''sprintId'', JStr ''s-1'')])) = False"
  using classifyActiveSprints_exact [OF refl, of "[JObj [(''sprintId'', JStr ''s-1'')]]" "[(''sprintId'', JStr ''s-1'')]"]
  by (simp add: isSelfReservation_def jfield_def exactStringOrNull_def exactPidOrNull_def)

end
