(* ===== verification/Watchdog.thy ===== *)
theory Watchdog
  imports Readopt
begin

section \<open>The watchdog\<close>

text \<open>
  \<^verbatim>\<open>packages/apra-fleet-se/src/supervisor/watchdog.mjs\<close>: the probe with its guard against reused process
  ids, the classifier and the release of the reservations of dead sprints. What the classifier asks of the
  outside (the port table, the process probe, the child's HTTP answers, the persisted run state, the
  milliseconds of a date string) are functions in the record \<open>wd_sig\<close>; an HTTP probe that throws is \<open>None\<close>.
  The history records are not awaited by the source, but the history serialises them in call order, and their
  failures are only logged: here they are made in that order and their errors dropped. Sprints are classified
  one after the other; the source starts them together, and they touch different entries.
\<close>

subsection \<open>Constants and probes\<close>

datatype wd_status = RunningHealthy | Paused | RunningUnresponsive | Crashed | Finished | LaunchFailed

fun status_text :: "wd_status \<Rightarrow> string" where
  "status_text RunningHealthy = ''running-healthy''"
| "status_text Paused = ''paused''"
| "status_text RunningUnresponsive = ''running-unresponsive''"
| "status_text Crashed = ''crashed''"
| "status_text Finished = ''finished''"
| "status_text LaunchFailed = ''launch-failed''"

definition WATCHDOG_DEFAULT_LAUNCH_FAILED_WINDOW_MS :: int where
  "WATCHDOG_DEFAULT_LAUNCH_FAILED_WINDOW_MS = 60000"

definition launch_window :: "jsval \<Rightarrow> int" where
  "launch_window v = (case v of JInt i \<Rightarrow> if i > 0 then i else WATCHDOG_DEFAULT_LAUNCH_FAILED_WINDOW_MS
                      | _ \<Rightarrow> WATCHDOG_DEFAULT_LAUNCH_FAILED_WINDOW_MS)"

definition makeChildPidProbe ::
  "(int \<Rightarrow> string option) \<Rightarrow> (int \<Rightarrow> bool) \<Rightarrow> int \<Rightarrow> string option \<Rightarrow> bool"
where
  "makeChildPidProbe readCmdline isAlive pid marker =
     (if \<not> isAlive pid then False
      else case marker of
             None \<Rightarrow> True
           | Some m \<Rightarrow> if m = [] then True
                       else case readCmdline pid of None \<Rightarrow> True | Some cmd \<Rightarrow> str_includes cmd m)"

text \<open>The choice of the command-line reader; the readers themselves are parameters.\<close>

datatype platform = Linux | Win32 | OtherOs

definition readProcessCmdline ::
  "platform \<Rightarrow> (int \<Rightarrow> string option) \<Rightarrow> (int \<Rightarrow> string option) \<Rightarrow> (int \<Rightarrow> string option) \<Rightarrow> (int \<Rightarrow> string option)
     \<Rightarrow> int \<Rightarrow> string option"
where
  "readProcessCmdline os proc ps wmic cim pid =
     (if pid \<le> 0 then None
      else case os of
             Linux \<Rightarrow> (case proc pid of Some cmd \<Rightarrow> if cmd \<noteq> [] then Some cmd else ps pid | None \<Rightarrow> ps pid)
           | Win32 \<Rightarrow> (case wmic pid of Some cmd \<Rightarrow> Some cmd | None \<Rightarrow> cim pid)
           | OtherOs \<Rightarrow> ps pid)"

text \<open>\<^verbatim>\<open>optional?.chaining\<close> and the pause status in a child's answer.\<close>

definition optfield :: "jsval \<Rightarrow> string \<Rightarrow> jsval" where
  "optfield v k = (if nullish v then JUndef else jfield v k)"

definition pause_status :: "jsval option \<Rightarrow> string option" where
  "pause_status answer =
     (case answer of
        None \<Rightarrow> None
      | Some body \<Rightarrow>
          (case (if truthy body \<and> typeof_object body then optfield (optfield body ''pause'') ''status'' else JNull) of
             JStr s \<Rightarrow> Some s | _ \<Rightarrow> None))"

subsection \<open>Texts\<close>

definition formatExitDetail :: "jsval \<Rightarrow> jsval \<Rightarrow> string option \<Rightarrow> string" where
  "formatExitDetail code sg t_at =
     (if nullish code \<and> \<not> truthy sg then ''pid gone''
      else let tail = (case t_at of Some t \<Rightarrow> if t = [] then [] else '' at '' @ t | None \<Rightarrow> [])
           in if \<not> nullish code
              then (if truthy sg then ''exited '' @ js_str code @ '' (signal '' @ js_str sg @ '')'' @ tail
                    else ''exited '' @ js_str code @ tail)
              else ''killed by signal '' @ js_str sg @ tail)"

definition formatFinishedDetail :: "jsval \<Rightarrow> string" where
  "formatFinishedDetail state =
     (if \<not> truthy state \<or> \<not> typeof_object state then ''finished''
      else let reason = coalesce (jfield state ''terminalReason'') JNull;
               verdict = coalesce (optfield (optfield (jfield state ''extensions'') ''terminal'') ''verdict'') JNull;
               parts = (if truthy reason then [''terminalReason='' @ js_str reason] else [])
                     @ (if truthy verdict then [''verdict='' @ js_str verdict] else [])
           in if parts \<noteq> [] then join_strings '' '' parts else ''finished'')"

text \<open>
  \<^verbatim>\<open>defaultHasTerminalState\<close>: by run id, then, for old reservations, by branch. \<open>run_state\<close> gives the
  content of the terminal file of a key: \<open>None\<close> if it does not exist (or its path cannot be built),
  \<^verbatim>\<open>null\<close> if it is not valid JSON.
\<close>

definition defaultHasTerminalState :: "(string \<Rightarrow> jsval option) \<Rightarrow> string \<Rightarrow> string option \<Rightarrow> jsval" where
  "defaultHasTerminalState run_state sprintId br =
     (case run_state sprintId of
        Some v \<Rightarrow> v
      | None \<Rightarrow>
          (case br of
             None \<Rightarrow> JNull
           | Some b \<Rightarrow> if b \<noteq> [] \<and> b \<noteq> sprintId
                        then (case run_state b of Some v \<Rightarrow> v | None \<Rightarrow> JNull) else JNull))"

subsection \<open>State and signals\<close>

record watchdog =
  wd_crashes :: "string list"
  wd_finishes :: "string list"
  wd_launchFailures :: "string list"
  wd_failedStates :: "(string \<times> string) list"
  wd_sup :: sup

record wd_sig =
  sg_resolvePort :: "string \<Rightarrow> int option"
  sg_isChildAlive :: "int \<Rightarrow> string option \<Rightarrow> bool"
  sg_probeHttp :: "int \<Rightarrow> bool option"
  sg_probePause :: "int \<Rightarrow> string option option"
  sg_terminal :: "string \<Rightarrow> string option \<Rightarrow> jsval"
  sg_dateMs :: "string \<Rightarrow> int option"
  sg_window :: int

record wd_result =
  wr_sprintId :: string
  wr_status :: wd_status
  wr_pidAlive :: bool
  wr_httpOk :: bool

definition viewer_marker :: "int option \<Rightarrow> string option" where
  "viewer_marker port = map_option (\<lambda>p. ''--viewer-port '' @ show_int p) port"

definition isLaunchFailed :: "wd_sig \<Rightarrow> reservation \<Rightarrow> bool" where
  "isLaunchFailed sg r =
     (case exitedAt r of
        None \<Rightarrow> False
      | Some ex \<Rightarrow>
          if ex = [] \<or> reservedAt r = [] then False
          else (case (sg_dateMs sg ex, sg_dateMs sg (reservedAt r)) of
                  (Some e, Some s) \<Rightarrow> let runTimeMs = max 0 (e - s) in runTimeMs > 0 \<and> runTimeMs < sg_window sg
                | _ \<Rightarrow> False))"

subsection \<open>Recorders\<close>

text \<open>A history record whose failure is only logged.\<close>

definition record_quietly :: "io \<Rightarrow> string \<Rightarrow> jsval \<Rightarrow> watchdog \<Rightarrow> watchdog" where
  "record_quietly io now entry w =
     w\<lparr>wd_sup := (wd_sup w)\<lparr>sp_history := snd (history_record io now entry (sp_history (wd_sup w)))\<rparr>\<rparr>"

definition or_null_js :: "jsval \<Rightarrow> jsval" where
  "or_null_js v = (if truthy v then v else JNull)"

definition finished_entry :: "string \<Rightarrow> jsval \<Rightarrow> jsval" where
  "finished_entry sid state =
     (let obj = truthy state \<and> typeof_object state in
      JObj [(''sprintId'', JStr sid), (''event'', JStr FINISHED),
            (''terminalReason'', or_null_js (if obj then jfield state ''terminalReason'' else JNull)),
            (''verdict'', or_null_js (if obj then optfield (optfield (jfield state ''extensions'') ''terminal'') ''verdict'' else JNull))])"

definition launch_failed_entry :: "string \<Rightarrow> string \<Rightarrow> jsval" where
  "launch_failed_entry sid detail =
     JObj [(''sprintId'', JStr sid), (''event'', JStr LAUNCH_FAILED),
           (''reason'', JStr (''watchdog: child exited within launch window ('' @ detail @ '')''))]"

definition auto_released_entry :: "string \<Rightarrow> wd_status \<Rightarrow> string \<Rightarrow> string list \<Rightarrow> string list \<Rightarrow> jsval" where
  "auto_released_entry sid status detail ms roots =
     JObj [(''sprintId'', JStr sid), (''event'', JStr AUTO_RELEASED),
           (''reason'', JStr (''watchdog: classified '' @ status_text status @ '' ('' @ detail @ '')'')),
           (''members'', JArr (map JStr ms)), (''issueRoots'', JArr (map JStr roots))]"

text \<open>The terminal-error recorder: the state file of the sprint is marked failed with this detail.\<close>

definition recordTerminalError :: "string \<Rightarrow> string \<Rightarrow> watchdog \<Rightarrow> watchdog" where
  "recordTerminalError sid detail w = w\<lparr>wd_failedStates := wd_failedStates w @ [(sid, detail)]\<rparr>"

definition releaseTerminalReservation ::
  "io \<Rightarrow> io \<Rightarrow> bool \<Rightarrow> string \<Rightarrow> string \<Rightarrow> wd_status \<Rightarrow> string \<Rightarrow> watchdog \<Rightarrow> watchdog"
where
  "releaseTerminalReservation io1 io2 client now sid status detail w =
     (let entry = ledger_get sid (sp_ledger (wd_sup w));
          ms = (case entry of None \<Rightarrow> [] | Some r \<Rightarrow> members r);
          roots = (case entry of None \<Rightarrow> [] | Some r \<Rightarrow> issueRoots r)
      in case ledger_release io1 client (JStr sid) (sp_ledger (wd_sup w)) of
           (Inl e, l) \<Rightarrow> w\<lparr>wd_sup := (wd_sup w)\<lparr>sp_ledger := l\<rparr>\<rparr>
         | (Inr released, l) \<Rightarrow>
             let w1 = w\<lparr>wd_sup := (wd_sup w)\<lparr>sp_ledger := l\<rparr>\<rparr>
             in if \<not> released then w1
                else record_quietly io2 now (auto_released_entry sid status detail ms roots) w1)"

subsection \<open>The classifier\<close>

definition live_status :: "wd_sig \<Rightarrow> int option \<Rightarrow> wd_status \<times> bool" where
  "live_status sg port =
     (let httpOk = (case port of None \<Rightarrow> False | Some p \<Rightarrow> (case sg_probeHttp sg p of Some b \<Rightarrow> b | None \<Rightarrow> False));
          pause = (case port of None \<Rightarrow> None
                   | Some p \<Rightarrow> if httpOk then (case sg_probePause sg p of Some s \<Rightarrow> s | None \<Rightarrow> None) else None)
      in (if pause = Some ''paused'' then Paused else if httpOk then RunningHealthy else RunningUnresponsive, httpOk))"

definition terminal_status :: "wd_sig \<Rightarrow> string \<Rightarrow> reservation \<Rightarrow> wd_status" where
  "terminal_status sg sid r =
     (if truthy (sg_terminal sg sid (branch r)) then Finished
      else if isLaunchFailed sg r then LaunchFailed else Crashed)"

definition note_terminal :: "io \<Rightarrow> string \<Rightarrow> wd_sig \<Rightarrow> string \<Rightarrow> reservation \<Rightarrow> string \<Rightarrow> watchdog \<Rightarrow> watchdog" where
  "note_terminal io now sg sid r detail w =
     (case terminal_status sg sid r of
        LaunchFailed \<Rightarrow>
          if sid \<in> set (wd_launchFailures w) then w
          else record_quietly io now (launch_failed_entry sid detail)
                 (w\<lparr>wd_launchFailures := wd_launchFailures w @ [sid]\<rparr>)
      | Crashed \<Rightarrow>
          if sid \<in> set (wd_crashes w) then w
          else recordTerminalError sid detail (w\<lparr>wd_crashes := wd_crashes w @ [sid]\<rparr>)
      | _ \<Rightarrow>
          if sid \<in> set (wd_finishes w) then w
          else record_quietly io now (finished_entry sid (sg_terminal sg sid (branch r)))
                 (w\<lparr>wd_finishes := wd_finishes w @ [sid]\<rparr>))"

definition pid_alive :: "wd_sig \<Rightarrow> string \<Rightarrow> reservation \<Rightarrow> bool" where
  "pid_alive sg sid r =
     (case childPid r of None \<Rightarrow> False | Some p \<Rightarrow> sg_isChildAlive sg p (viewer_marker (sg_resolvePort sg sid)))"

definition classifySprint ::
  "(nat \<Rightarrow> io) \<Rightarrow> bool \<Rightarrow> string \<Rightarrow> wd_sig \<Rightarrow> string \<times> reservation \<Rightarrow> watchdog \<Rightarrow> wd_result \<times> watchdog"
where
  "classifySprint io client now sg entry w =
     (let sid = fst entry; r = snd entry in
      if pid_alive sg sid r then
        (case live_status sg (sg_resolvePort sg sid) of
           (status, httpOk) \<Rightarrow> (\<lparr>wr_sprintId = sid, wr_status = status, wr_pidAlive = True, wr_httpOk = httpOk\<rparr>, w))
      else
        let detail = formatExitDetail (exitCode r) (signal r) (exitedAt r);
            status = terminal_status sg sid r;
            w1 = note_terminal (io 0) now sg sid r detail w;
            w2 = releaseTerminalReservation (io 1) (io 2) client now sid status detail w1
        in (\<lparr>wr_sprintId = sid, wr_status = status, wr_pidAlive = False, wr_httpOk = False\<rparr>, w2))"

fun classify_list ::
  "(nat \<Rightarrow> nat \<Rightarrow> io) \<Rightarrow> bool \<Rightarrow> string \<Rightarrow> wd_sig \<Rightarrow> nat \<Rightarrow> (string \<times> reservation) list \<Rightarrow> watchdog \<Rightarrow> wd_result list \<times> watchdog"
where
  "classify_list io client now sg k [] w = ([], w)"
| "classify_list io client now sg k (e # es) w =
     (case classifySprint (io k) client now sg e w of
        (r, w1) \<Rightarrow> (case classify_list io client now sg (Suc k) es w1 of (rs, w2) \<Rightarrow> (r # rs, w2)))"

definition classifyAll ::
  "(nat \<Rightarrow> nat \<Rightarrow> io) \<Rightarrow> bool \<Rightarrow> string \<Rightarrow> wd_sig \<Rightarrow> watchdog \<Rightarrow> wd_result list \<times> watchdog"
where
  "classifyAll io client now sg w = classify_list io client now sg 0 (ledger_list (sp_ledger (wd_sup w))) w"

text \<open>
  The interval: a tick that fires while the previous pass is running is skipped. \<open>WdTick\<close> is the timer,
  \<open>WdDone\<close> the end of the pass it started, however it ends.
\<close>

record wd_timer =
  wt_inFlight :: bool
  wt_running :: nat
  wt_skipped :: nat

datatype wd_timer_ev = WdTick | WdDone

fun timer_step :: "wd_timer_ev \<Rightarrow> wd_timer \<Rightarrow> wd_timer" where
  "timer_step WdTick t =
     (if wt_inFlight t then t\<lparr>wt_skipped := Suc (wt_skipped t)\<rparr>
      else t\<lparr>wt_inFlight := True, wt_running := Suc (wt_running t)\<rparr>)"
| "timer_step WdDone t =
     (if wt_running t = 0 then t else t\<lparr>wt_inFlight := False, wt_running := wt_running t - 1\<rparr>)"

subsection \<open>Lemmas\<close>

abbreviation wd_ledger :: "watchdog \<Rightarrow> ledger" where
  "wd_ledger w \<equiv> sp_ledger (wd_sup w)"

abbreviation wd_events :: "watchdog \<Rightarrow> hist_event list" where
  "wd_events w \<equiv> events (sp_history (wd_sup w))"

lemma record_quietly_simps [simp]:
  "wd_ledger (record_quietly io now e w) = wd_ledger w"
  "wd_crashes (record_quietly io now e w) = wd_crashes w" "wd_finishes (record_quietly io now e w) = wd_finishes w"
  "wd_launchFailures (record_quietly io now e w) = wd_launchFailures w"
  "wd_failedStates (record_quietly io now e w) = wd_failedStates w"
  by (simp_all add: record_quietly_def)

lemma record_quietly_events: "\<exists>new. wd_events (record_quietly io now e w) = wd_events w @ new \<and> length new \<le> 1"
  using hist.log_grows [of "(io, now, e)" "sp_history (wd_sup w)"] by (simp add: record_quietly_def)

lemma note_terminal_ledger [simp]: "wd_ledger (note_terminal io now sg sid r detail w) = wd_ledger w"
  by (simp add: note_terminal_def recordTerminalError_def split: wd_status.split)

lemma note_terminal_again:
  "note_terminal io' now' sg sid r detail (note_terminal io now sg sid r detail w) = note_terminal io now sg sid r detail w"
  by (cases "terminal_status sg sid r") (auto simp: note_terminal_def recordTerminalError_def)

lemma note_terminal_keeps:
  assumes "wd_crashes w' = wd_crashes w" "wd_finishes w' = wd_finishes w" "wd_launchFailures w' = wd_launchFailures w"
    and "note_terminal io now sg sid r detail w = w"
  shows "note_terminal io' now' sg sid r detail w' = w'"
proof -
  have "terminal_status sg sid r = Crashed \<Longrightarrow> sid \<in> set (wd_crashes w)"
    using arg_cong [OF assms(4), of wd_crashes] by (auto simp: note_terminal_def recordTerminalError_def split: if_splits)
  moreover have "terminal_status sg sid r = LaunchFailed \<Longrightarrow> sid \<in> set (wd_launchFailures w)"
    using arg_cong [OF assms(4), of wd_launchFailures] by (auto simp: note_terminal_def split: if_splits)
  moreover have "terminal_status sg sid r = Finished \<Longrightarrow> sid \<in> set (wd_finishes w)"
    using arg_cong [OF assms(4), of wd_finishes] by (auto simp: note_terminal_def split: if_splits)
  moreover have "terminal_status sg sid r \<in> {Crashed, LaunchFailed, Finished}" by (simp add: terminal_status_def)
  ultimately show ?thesis using assms(1-3) by (auto simp: note_terminal_def)
qed

lemma releaseTerminal_done:
  fixes io2 now status detail
  assumes "ledger_inv (wd_ledger w)" "ledger_release io1 client (JStr sid) (wd_ledger w) = (Inr b, l)"
  defines "w' \<equiv> releaseTerminalReservation io1 io2 client now sid status detail w"
  shows "wd_ledger w' = l" "wd_crashes w' = wd_crashes w" "wd_finishes w' = wd_finishes w"
    "wd_launchFailures w' = wd_launchFailures w" "wd_failedStates w' = wd_failedStates w"
    "\<not> b \<Longrightarrow> wd_events w' = wd_events w"
  using assms(2) by (simp_all add: w'_def releaseTerminalReservation_def Let_def)

lemma classifySprint_dead:
  assumes "\<not> pid_alive sg sid r"
  defines "detail \<equiv> formatExitDetail (exitCode r) (signal r) (exitedAt r)"
  shows "classifySprint io client now sg (sid, r) w =
    (\<lparr>wr_sprintId = sid, wr_status = terminal_status sg sid r, wr_pidAlive = False, wr_httpOk = False\<rparr>,
     releaseTerminalReservation (io 1) (io 2) client now sid (terminal_status sg sid r) detail
       (note_terminal (io 0) now sg sid r detail w))"
  using assms by (simp add: classifySprint_def Let_def)

subsection \<open>Properties of the watchdog\<close>

text \<open>
  The classifier is a total decision and leaves the living alone. A sprint whose child is
  alive is classified paused, healthy or unresponsive by its HTTP answers alone, and nothing is released,
  recorded or marked for it; a sprint whose child is gone is finished if a terminal state was persisted,
  launch-failed if it exited inside the launch window, and crashed otherwise.
\<close>

theorem watchdog_classification:
  "(if pid_alive sg sid r then
      snd (classifySprint io client now sg (sid, r) w) = w \<and>
      wr_status (fst (classifySprint io client now sg (sid, r) w)) =
        (case sg_resolvePort sg sid of
           None \<Rightarrow> RunningUnresponsive
         | Some p \<Rightarrow> if sg_probeHttp sg p \<noteq> Some True then RunningUnresponsive
                     else if sg_probePause sg p = Some (Some ''paused'') then Paused else RunningHealthy)
    else
      wr_status (fst (classifySprint io client now sg (sid, r) w)) =
        (if truthy (sg_terminal sg sid (branch r)) then Finished
         else if isLaunchFailed sg r then LaunchFailed else Crashed))"
proof (cases "pid_alive sg sid r")
  case True
  then show ?thesis
    by (cases "sg_resolvePort sg sid")
      (auto simp: classifySprint_def live_status_def Let_def split: option.splits prod.splits)
qed (simp add: classifySprint_def Let_def terminal_status_def)

text \<open>
  A dead sprint's reservation is cleared in one tick and the rest of the ledger is untouched.
  If the ledger write succeeds, the entry is gone, every other entry is as before and the invariant holds;
  if it fails, no entry is lost.
\<close>

theorem watchdog_releases_dead:
  assumes "ledger_inv (sp_ledger (wd_sup w))" "\<not> pid_alive sg sid r"
    and "classifySprint io client now sg (sid, r) w = (res, w')"
  shows "ledger_inv (sp_ledger (wd_sup w')) \<and>
    (case fst (ledger_release (io 1) client (JStr sid) (sp_ledger (wd_sup w))) of
       Inr _ \<Rightarrow> (\<lambda>k. ledger_get k (sp_ledger (wd_sup w'))) = (\<lambda>k. ledger_get k (sp_ledger (wd_sup w)))(sid := None)
     | Inl _ \<Rightarrow> (\<lambda>k. ledger_get k (sp_ledger (wd_sup w'))) = (\<lambda>k. ledger_get k (sp_ledger (wd_sup w))))"
proof -
  let ?detail = "formatExitDetail (exitCode r) (signal r) (exitedAt r)"
  let ?w1 = "note_terminal (io 0) now sg sid r ?detail w"
  have w': "w' = releaseTerminalReservation (io 1) (io 2) client now sid (terminal_status sg sid r) ?detail ?w1"
    using assms(2,3) by (simp add: classifySprint_dead)
  obtain res' l where rel: "ledger_release (io 1) client (JStr sid) (wd_ledger w) = (res', l)" by fastforce
  have inv: "ledger_inv l"
    using led.release_inv [OF assms(1), of "(io 1, client)" sid] rel by (simp add: release_sid_def)
  show ?thesis
  proof (cases res')
    case (Inl e)
    then have "wd_ledger w' = l" using rel by (simp add: w' releaseTerminalReservation_def Let_def)
    with Inl rel inv led.release_failed [OF assms(1), of "(io 1, client)" sid e l] show ?thesis
      by (simp add: release_sid_def)
  next
    case (Inr b)
    then have "wd_ledger w' = l" using rel by (simp add: w' releaseTerminalReservation_def Let_def)
    with Inr rel release_step [OF assms(1), of "io 1" client sid b l] show ?thesis by simp
  qed
qed

definition demo_sig :: wd_sig where
  "demo_sig = \<lparr>sg_resolvePort = (\<lambda>_. None), sg_isChildAlive = (\<lambda>_ _. False), sg_probeHttp = (\<lambda>_. None),
     sg_probePause = (\<lambda>_. None), sg_terminal = (\<lambda>_ _. JNull), sg_dateMs = (\<lambda>_. None), sg_window = 60000\<rparr>"

definition demo_wd :: watchdog where
  "demo_wd = \<lparr>wd_crashes = [], wd_finishes = [], wd_launchFailures = [], wd_failedStates = [], wd_sup = demo_sup\<rparr>"

lemma demo_wd_inv: "ledger_inv (sp_ledger (wd_sup demo_wd))"
  by (simp add: demo_wd_def demo_sup_def demo_claimed_inv)

lemma demo_dead: "\<not> pid_alive demo_sig ''s1'' demo_res"
  by (simp add: pid_alive_def demo_sig_def split: option.split)

lemma demo_release: "\<exists>l. ledger_release io_ok False (JStr ''s1'') (sp_ledger (wd_sup demo_wd)) = (Inr True, l)"
  using demo_claimed_reservations
  by (simp add: ledger_release_def release_tx_def transact_def demo_wd_def demo_sup_def)

theorem watchdog_releases_dead_witness:
  "\<exists>res w'. classifySprint (\<lambda>_. io_ok) False ''t'' demo_sig (''s1'', demo_res) demo_wd = (res, w') \<and>
     ledger_get ''s1'' (sp_ledger (wd_sup w')) = None"
proof -
  obtain res w' where c: "classifySprint (\<lambda>_. io_ok) False ''t'' demo_sig (''s1'', demo_res) demo_wd = (res, w')" by fastforce
  from watchdog_releases_dead [OF demo_wd_inv demo_dead c] demo_release c show ?thesis by (auto simp: fun_eq_iff)
qed

text \<open>
  Repeated ticks are silent. Once a dead sprint has been classified and its reservation
  released, classifying the same entry again, with the same outside signals and any further writes and
  times, adds no event to the history, marks no state file and changes no reservation.
\<close>

theorem watchdog_reports_once:
  assumes "ledger_inv (sp_ledger (wd_sup w))" "\<not> pid_alive sg sid r"
    and "ledger_release (io 1) client (JStr sid) (sp_ledger (wd_sup w)) = (Inr b, l)"
    and "classifySprint io client now sg (sid, r) w = (res, w1)"
    and "classifySprint io' client now' sg (sid, r) w1 = (res', w2)"
  shows "events (sp_history (wd_sup w2)) = events (sp_history (wd_sup w1)) \<and> wd_failedStates w2 = wd_failedStates w1 \<and>
    (\<lambda>k. ledger_get k (sp_ledger (wd_sup w2))) = (\<lambda>k. ledger_get k (sp_ledger (wd_sup w1))) \<and> res' = res"
proof -
  let ?detail = "formatExitDetail (exitCode r) (signal r) (exitedAt r)"
  let ?n = "note_terminal (io 0) now sg sid r ?detail w"
  let ?st = "terminal_status sg sid r"
  have w1: "w1 = releaseTerminalReservation (io 1) (io 2) client now sid ?st ?detail ?n"
    and res: "res = \<lparr>wr_sprintId = sid, wr_status = ?st, wr_pidAlive = False, wr_httpOk = False\<rparr>"
    using assms(2,4) by (simp_all add: classifySprint_dead)
  have "ledger_release (io 1) client (JStr sid) (wd_ledger ?n) = (Inr b, l)" "ledger_inv (wd_ledger ?n)"
    using assms(1,3) by simp_all
  note rel = releaseTerminal_done [OF this(2,1), of "io 2" now ?st ?detail, folded w1]
  have again: "note_terminal (io' 0) now' sg sid r ?detail w1 = w1"
    by (rule note_terminal_keeps [OF rel(2-4) note_terminal_again])
  note l = release_step [OF assms(1,3)]
  have gone: "ledger_get sid (wd_ledger w1) = None" using l(2) rel(1) by (simp add: fun_eq_iff)
  have w2: "w2 = releaseTerminalReservation (io' 1) (io' 2) client now' sid ?st ?detail w1" "res' = res"
    using assms(2,5) again res by (simp_all add: classifySprint_dead)
  have inv1: "ledger_inv (wd_ledger w1)" using l(1) rel(1) by simp
  obtain q l2 where q: "ledger_release (io' 1) client (JStr sid) (wd_ledger w1) = (q, l2)" by fastforce
  show ?thesis
  proof (cases q)
    case (Inl e)
    with q led.release_failed [OF inv1, of "(io' 1, client)" sid e l2] w2 show ?thesis
      by (simp add: releaseTerminalReservation_def Let_def release_sid_def)
  next
    case (Inr b2)
    have "\<not> b2" using led.release_done [OF inv1, of "(io' 1, client)" sid b2 l2] q Inr gone by (simp add: release_sid_def)
    moreover have "(\<lambda>k. ledger_get k l2) = (\<lambda>k. ledger_get k (wd_ledger w1))"
      using release_step(2) [OF inv1 q [unfolded Inr]] gone by (auto simp: fun_eq_iff)
    ultimately show ?thesis using q Inr w2 by (simp add: releaseTerminalReservation_def Let_def)
  qed
qed

theorem watchdog_reports_once_witness:
  "\<exists>w1 w2 res res'. classifySprint (\<lambda>_. io_ok) False ''t'' demo_sig (''s1'', demo_res) demo_wd = (res, w1) \<and>
     classifySprint (\<lambda>_. io_ok) False ''u'' demo_sig (''s1'', demo_res) w1 = (res', w2) \<and>
     wd_failedStates w2 = wd_failedStates w1"
proof -
  obtain res w1 where c1: "classifySprint (\<lambda>_. io_ok) False ''t'' demo_sig (''s1'', demo_res) demo_wd = (res, w1)" by fastforce
  obtain res' w2 where c2: "classifySprint (\<lambda>_. io_ok) False ''u'' demo_sig (''s1'', demo_res) w1 = (res', w2)" by fastforce
  obtain l where "ledger_release io_ok False (JStr ''s1'') (sp_ledger (wd_sup demo_wd)) = (Inr True, l)"
    using demo_release by blast
  from watchdog_reports_once [OF demo_wd_inv demo_dead this c1 c2] c1 c2 show ?thesis by blast
qed

text \<open>
  The guard against reused process ids compares by substring: the marker of one port is also
  found on the command line of a child whose port begins with the same digits, so such a process, having
  inherited the process id, is taken for the sprint's own child.
\<close>

theorem watchdog_marker_prefix_collision:
  assumes "isAlive pid" "readCmdline pid = Some (pre @ ''--viewer-port '' @ show_nat q @ rest)"
    and "show_nat q = show_nat p @ ds"
  shows "makeChildPidProbe readCmdline isAlive pid (viewer_marker (Some (int p)))"
proof -
  have inc: "str_includes (xs @ m @ ys) m" for xs m ys
    by (induction xs) (cases m; cases ys; simp)+
  show ?thesis
    using assms inc [of pre "''--viewer-port '' @ show_nat p" "ds @ rest"]
    by (simp add: makeChildPidProbe_def viewer_marker_def show_int_def)
qed

theorem watchdog_marker_prefix_collision_witness:
  "makeChildPidProbe (\<lambda>_. Some (''node other '' @ ''--viewer-port '' @ show_nat 81 @ [])) (\<lambda>_. True) 7 (viewer_marker (Some (int 8)))"
proof -
  have "show_nat 81 = show_nat 8 @ ''1''" by code_simp
  from watchdog_marker_prefix_collision [OF _ _ this, of "\<lambda>_. True" 7 "\<lambda>_. Some (''node other '' @ ''--viewer-port '' @ show_nat 81 @ [])" "''node other ''" "[]"]
  show ?thesis by simp
qed

text \<open>
  Passes never overlap: whatever the order of timer ticks and pass endings, at most one pass
  started by the timer is running, and the flag says whether one is.
\<close>

theorem watchdog_single_pass:
  "wt_running (fold timer_step evs \<lparr>wt_inFlight = False, wt_running = 0, wt_skipped = 0\<rparr>) \<le> 1 \<and>
   (wt_inFlight (fold timer_step evs \<lparr>wt_inFlight = False, wt_running = 0, wt_skipped = 0\<rparr>)
      \<longleftrightarrow> wt_running (fold timer_step evs \<lparr>wt_inFlight = False, wt_running = 0, wt_skipped = 0\<rparr>) = 1)"
proof -
  have "wt_running (fold timer_step evs t) = (if wt_inFlight (fold timer_step evs t) then 1 else 0)"
    if "wt_running t = (if wt_inFlight t then 1 else 0)" for t
    using that
  proof (induction evs arbitrary: t)
    case (Cons ev evs)
    then show ?case by (cases ev) auto
  qed simp
  then show ?thesis by simp
qed

end
