(* ===== verification/Scope.thy ===== *)
theory Scope
  imports Ledger "HOL-Library.List_Lexorder" "HOL-Library.Char_ord"
begin

section \<open>Issue scopes: subtree expansion and the overlap guard\<close>

text \<open>
  The bead tree of \<^verbatim>\<open>packages/apra-fleet-se/src/supervisor/backlog.mjs\<close> (\<^verbatim>\<open>parentIdOf\<close>,
  \<^verbatim>\<open>normalizeBead\<close>, \<^verbatim>\<open>buildChildIndex\<close>, \<^verbatim>\<open>expandScopeInMemory\<close>) and the launch guard of
  \<^verbatim>\<open>scope-overlap.mjs\<close> (\<^verbatim>\<open>expandScope\<close>, \<^verbatim>\<open>checkLaunch\<close>), with \<^verbatim>\<open>validateIssueId\<close> of
  \<^verbatim>\<open>fleet-sprint/sprint-args.mjs\<close>. The tracker's rows are raw values; a JavaScript \<^verbatim>\<open>Set\<close> is a
  list without repetitions in insertion order.
\<close>

subsection \<open>Beads\<close>

record bead =
  b_id :: string
  b_title :: string
  b_issueType :: jsval
  b_status :: jsval
  b_parentId :: "string option"
  b_priority :: jsval
  b_placement :: "string option"

text \<open>The parent named by the first grouping edge that starts at the bead itself.\<close>

fun dependency_parent :: "jsval \<Rightarrow> jsval list \<Rightarrow> string option" where
  "dependency_parent rid [] = None"
| "dependency_parent rid (d # ds) =
     (if truthy d \<and> strict_eq (jfield d ''type'') (JStr ''parent-child'')
         \<and> strict_eq (jfield d ''issue_id'') rid \<and> is_str (jfield d ''depends_on_id'')
      then (case jfield d ''depends_on_id'' of JStr p \<Rightarrow> Some p | _ \<Rightarrow> None)
      else dependency_parent rid ds)"

definition parentIdOf :: "jsval \<Rightarrow> string option" where
  "parentIdOf raw =
     (if \<not> truthy raw \<or> \<not> typeof_object raw then None
      else case nonempty_str (jfield raw ''parentId'') of
             Some p \<Rightarrow> Some p
           | None \<Rightarrow>
               (case nonempty_str (jfield raw ''parent'') of
                  Some p \<Rightarrow> Some p
                | None \<Rightarrow>
                    (case jfield raw ''dependencies'' of
                       JArr ds \<Rightarrow> dependency_parent (jfield raw ''id'') ds
                     | _ \<Rightarrow> None)))"

definition normalizeBead :: "jsval \<Rightarrow> bead" where
  "normalizeBead raw =
     (let b = (if truthy raw then raw else JObj []) in
      \<lparr>b_id = str_or_empty (jfield b ''id''), b_title = str_or_empty (jfield b ''title''),
       b_issueType = coalesce (jfield b ''issueType'') (coalesce (jfield b ''issue_type'') (JStr ''task'')),
       b_status = coalesce (jfield b ''status'') (JStr ''open''),
       b_parentId = parentIdOf b,
       b_priority = (case jfield b ''priority'' of JInt i \<Rightarrow> JInt i | JFrac k \<Rightarrow> JFrac k | _ \<Rightarrow> JNull),
       b_placement = (case jfield b ''placement'' of JStr s \<Rightarrow> Some s | _ \<Rightarrow> None)\<rparr>)"

text \<open>The rows of a tracker listing, normalised, without those that have no id.\<close>

definition normalize_rows :: "jsval \<Rightarrow> bead list" where
  "normalize_rows raw = filter (\<lambda>b. b_id b \<noteq> []) (map normalizeBead (rows_of raw))"

subsection \<open>Expansion\<close>

definition push_child :: "bead \<Rightarrow> (string, string list) jsmap \<Rightarrow> (string, string list) jsmap" where
  "push_child b idx =
     (case b_parentId b of
        None \<Rightarrow> idx
      | Some pid \<Rightarrow>
          if pid = [] then idx
          else AList.update pid ((case map_of idx pid of None \<Rightarrow> [] | Some cs \<Rightarrow> cs) @ [b_id b]) idx)"

definition buildChildIndex :: "bead list \<Rightarrow> (string, string list) jsmap" where
  "buildChildIndex bs = fold push_child bs []"

text \<open>The inner loop: append to the scope and to the frontier what is not in the scope yet.\<close>

fun add_new :: "string list \<Rightarrow> string list \<Rightarrow> string list \<Rightarrow> string list \<times> string list" where
  "add_new [] scope frontier = (scope, frontier)"
| "add_new (c # cs) scope frontier =
     (if c \<noteq> [] \<and> c \<notin> set scope then add_new cs (scope @ [c]) (frontier @ [c])
      else add_new cs scope frontier)"

definition children_of :: "(string, string list) jsmap \<Rightarrow> string \<Rightarrow> string list" where
  "children_of idx p = (case map_of idx p of None \<Rightarrow> [] | Some cs \<Rightarrow> cs)"

lemma add_new_spec:
  "\<exists>new. add_new cs scope frontier = (scope @ new, frontier @ new) \<and> distinct new \<and>
     set new = {c \<in> set cs. c \<noteq> []} - set scope"
proof (induction cs arbitrary: scope frontier)
  case (Cons c cs)
  show ?case
  proof (cases "c \<noteq> [] \<and> c \<notin> set scope")
    case True
    obtain new where new: "add_new cs (scope @ [c]) (frontier @ [c]) = ((scope @ [c]) @ new, (frontier @ [c]) @ new)"
      "distinct new" "set new = {x \<in> set cs. x \<noteq> []} - set (scope @ [c])"
      using Cons.IH by blast
    with True show ?thesis by (intro exI [of _ "c # new"]) auto
  next
    case False
    with Cons.IH [of scope frontier] show ?thesis by auto
  qed
qed simp

lemma finite_child_universe: "finite (\<Union>(set ` snd ` set (idx :: (string, string list) jsmap)))"
  by auto

lemma children_of_universe: "set (children_of idx p) \<subseteq> \<Union>(set ` snd ` set idx)"
proof (cases "map_of idx p")
  case (Some cs)
  then have "cs \<in> snd ` set idx" by (force dest: map_of_SomeD)
  with Some show ?thesis by (auto simp: children_of_def)
qed (simp add: children_of_def)

function bfs :: "(string, string list) jsmap \<Rightarrow> string list \<Rightarrow> string list \<Rightarrow> string list" where
  "bfs idx scope [] = scope"
| "bfs idx scope (i # frontier) =
     (case add_new (children_of idx i) scope frontier of (scope', frontier') \<Rightarrow> bfs idx scope' frontier')"
  by pat_completeness auto
termination
proof (relation "measure (\<lambda>(idx, scope, frontier).
    2 * card (\<Union>(set ` snd ` set idx) - set scope) + length frontier)"; (simp; fail)?)
  fix idx :: "(string, string list) jsmap" and scope i frontier scope' frontier'
  assume p: "(scope', frontier') = add_new (children_of idx i) scope frontier"
  obtain new where new: "add_new (children_of idx i) scope frontier = (scope @ new, frontier @ new)"
    "distinct new" "set new = {c \<in> set (children_of idx i). c \<noteq> []} - set scope"
    using add_new_spec by blast
  let ?U = "\<Union>(set ` snd ` set idx)"
  have sub: "set new \<subseteq> ?U - set scope" using new(3) children_of_universe [of idx i] by auto
  have "card (?U - set (scope @ new)) = card ((?U - set scope) - set new)"
    by (simp add: set_diff_eq conj_assoc de_Morgan_disj)
  also have "\<dots> = card (?U - set scope) - length new"
    using sub new(2) finite_child_universe [of idx] by (simp add: card_Diff_subset distinct_card)
  finally have c: "card (?U - set (scope @ new)) = card (?U - set scope) - length new" .
  have "length new \<le> card (?U - set scope)"
    using card_mono [OF _ sub] new(2) finite_child_universe [of idx] by (simp add: distinct_card)
  with c p new(1) show "((idx, scope', frontier'), idx, scope, i # frontier)
      \<in> measure (\<lambda>(idx, scope, frontier). 2 * card (\<Union>(set ` snd ` set idx) - set scope) + length frontier)"
    by auto
qed

definition expandScopeInMemory :: "string list \<Rightarrow> (string, string list) jsmap \<Rightarrow> string list" where
  "expandScopeInMemory roots idx =
     (case add_new roots [] [] of (scope, frontier) \<Rightarrow> bfs idx scope frontier)"

text \<open>
  The per-node walk with an injected lister, which may throw; nothing bounds the tree such a lister
  describes, so not returning is the value \<open>None\<close>.
\<close>

partial_function (option) expandScope_loop ::
  "(string \<Rightarrow> string list res) \<Rightarrow> string list \<Rightarrow> string list \<Rightarrow> string list res option"
where
  "expandScope_loop listChildren scope frontier =
     (case frontier of
        [] \<Rightarrow> Some (Inr scope)
      | i # rest \<Rightarrow>
          (case listChildren i of
             Inl e \<Rightarrow> Some (Inl e)
           | Inr cs \<Rightarrow>
               (case add_new cs scope rest of
                  (scope', frontier') \<Rightarrow> expandScope_loop listChildren scope' frontier')))"

definition expandScope :: "string list \<Rightarrow> (string \<Rightarrow> string list res) \<Rightarrow> string list res option" where
  "expandScope roots listChildren =
     (case add_new roots [] [] of (scope, frontier) \<Rightarrow> expandScope_loop listChildren scope frontier)"

subsection \<open>The launch guard\<close>

definition issue_id_char :: "char \<Rightarrow> bool" where
  "issue_id_char c \<longleftrightarrow> (CHR ''A'' \<le> c \<and> c \<le> CHR ''Z'') \<or> (CHR ''a'' \<le> c \<and> c \<le> CHR ''z'') \<or>
     (CHR ''0'' \<le> c \<and> c \<le> CHR ''9'') \<or> c \<in> set ''._-''"

definition validateIssueId :: "jsval \<Rightarrow> string res" where
  "validateIssueId v =
     (case nonempty_str v of
        None \<Rightarrow> Inl (GeneralError ''[Arg Contract] Invalid issue id'')
      | Some s \<Rightarrow> if list_all issue_id_char s then Inr s
                  else Inl (GeneralError ''[Arg Contract] Invalid issue id''))"

record scope_conflict =
  sc_sprintId :: string
  sc_overlappingIds :: "string list"

record launch_check =
  lc_ok :: bool
  lc_requestScope :: "string list"
  lc_conflicts :: "scope_conflict list"

fun find_conflicts ::
  "(string, string list) jsmap \<Rightarrow> string list \<Rightarrow> string option \<Rightarrow> (string \<times> reservation) list
     \<Rightarrow> scope_conflict list"
where
  "find_conflicts idx requestScope exclude [] = []"
| "find_conflicts idx requestScope exclude ((sid, r) # rs) =
     (if exclude = Some sid \<or> issueRoots r = [] then find_conflicts idx requestScope exclude rs
      else let activeScope = expandScopeInMemory (issueRoots r) idx;
               overlapping = filter (\<lambda>i. i \<in> set activeScope) requestScope
           in (if overlapping = [] then []
               else [\<lparr>sc_sprintId = sid, sc_overlappingIds = sort overlapping\<rparr>])
              @ find_conflicts idx requestScope exclude rs)"

text \<open>
  The production path of \<^verbatim>\<open>checkLaunch\<close>: validate the request's roots, fetch the tracker once, index
  it, expand the request and every reservation from the same index. \<open>fetch\<close> is the outcome of the
  bulk listing.
\<close>

definition checkLaunch ::
  "jsval res \<Rightarrow> (string \<times> reservation) list \<Rightarrow> jsval \<Rightarrow> string option \<Rightarrow> launch_check res"
where
  "checkLaunch fetch active requestRoots exclude =
     (if rows_of requestRoots = [] then
        Inl (TypeError ''checkLaunch requires a non-empty array of request root issue ids'')
      else
        ebind (emap validateIssueId (rows_of requestRoots)) (\<lambda>roots.
        ebind fetch (\<lambda>raw.
          let idx = buildChildIndex (normalize_rows raw);
              requestScope = expandScopeInMemory roots idx;
              conflicts = find_conflicts idx requestScope exclude active
          in Inr \<lparr>lc_ok = (conflicts = []), lc_requestScope = sort requestScope,
                  lc_conflicts = conflicts\<rparr>)))"

definition formatScopeConflict :: "scope_conflict list \<Rightarrow> string" where
  "formatScopeConflict conflicts =
     ''issue-scope overlap rejects launch: '' @
     join_strings ''; '' (map (\<lambda>c. ''sprint '' @ [CHR 0x27] @ sc_sprintId c @ [CHR 0x27] @ '' already claims [''
        @ join_strings '', '' (sc_overlappingIds c) @ '']'') conflicts)"

subsection \<open>Expansion computes the reachable subtree\<close>

definition child_rel :: "(string, string list) jsmap \<Rightarrow> (string \<times> string) set" where
  "child_rel idx = {(p, c). c \<in> set (children_of idx p) \<and> c \<noteq> []}"

lemma rtrancl_Image_absorb:
  assumes "N \<subseteq> R\<^sup>* `` {i}"
  shows "R\<^sup>* `` (A \<union> N) \<subseteq> R\<^sup>* `` insert i A"
proof
  fix x assume "x \<in> R\<^sup>* `` (A \<union> N)"
  then obtain n where "n \<in> A \<union> N" "(n, x) \<in> R\<^sup>*" by blast
  with assms show "x \<in> R\<^sup>* `` insert i A" by (blast intro: rtrancl_trans)
qed

lemma bfs_sound:
  "set (bfs idx scope frontier) \<subseteq> (child_rel idx)\<^sup>* `` (set scope \<union> set frontier)"
proof (induction idx scope frontier rule: bfs.induct)
  case (2 idx scope i frontier)
  obtain new where new: "add_new (children_of idx i) scope frontier = (scope @ new, frontier @ new)"
    "set new = {c \<in> set (children_of idx i). c \<noteq> []} - set scope"
    using add_new_spec by blast
  have "set (bfs idx (scope @ new) (frontier @ new)) \<subseteq> (child_rel idx)\<^sup>* `` (set scope \<union> set frontier \<union> set new)"
    using "2.IH" [OF new(1) [symmetric]] by (simp add: Un_ac)
  moreover have "set new \<subseteq> (child_rel idx)\<^sup>* `` {i}"
    using new(2) by (auto simp: child_rel_def)
  then have "(child_rel idx)\<^sup>* `` (set scope \<union> set frontier \<union> set new)
      \<subseteq> (child_rel idx)\<^sup>* `` insert i (set scope \<union> set frontier)"
    by (rule rtrancl_Image_absorb)
  ultimately have "set (bfs idx (scope @ new) (frontier @ new))
      \<subseteq> (child_rel idx)\<^sup>* `` insert i (set scope \<union> set frontier)"
    by (rule order_trans)
  with new(1) show ?case by simp
qed auto

lemma bfs_closed:
  assumes "set frontier \<subseteq> set scope"
    and "\<And>x c. x \<in> set scope - set frontier \<Longrightarrow> (x, c) \<in> child_rel idx \<Longrightarrow> c \<in> set scope"
  shows "set scope \<subseteq> set (bfs idx scope frontier) \<and>
    (\<forall>x\<in>set (bfs idx scope frontier). \<forall>c. (x, c) \<in> child_rel idx \<longrightarrow> c \<in> set (bfs idx scope frontier))"
  using assms
proof (induction idx scope frontier rule: bfs.induct)
  case (2 idx scope i frontier)
  obtain new where new: "add_new (children_of idx i) scope frontier = (scope @ new, frontier @ new)"
    "set new = {c \<in> set (children_of idx i). c \<noteq> []} - set scope"
    using add_new_spec by blast
  have "set (frontier @ new) \<subseteq> set (scope @ new)" using "2.prems"(1) by auto
  moreover have "c \<in> set (scope @ new)"
    if "x \<in> set (scope @ new) - set (frontier @ new)" "(x, c) \<in> child_rel idx" for x c
    using that "2.prems"(2) [of x c] new(2) by (cases "x = i") (auto simp: child_rel_def)
  ultimately have "set (scope @ new) \<subseteq> set (bfs idx (scope @ new) (frontier @ new)) \<and>
     (\<forall>x\<in>set (bfs idx (scope @ new) (frontier @ new)). \<forall>c. (x, c) \<in> child_rel idx \<longrightarrow>
        c \<in> set (bfs idx (scope @ new) (frontier @ new)))"
    by (rule "2.IH" [OF new(1) [symmetric]])
  with new(1) show ?case by simp
qed auto

lemma bfs_distinct: "distinct scope \<Longrightarrow> distinct (bfs idx scope frontier)"
proof (induction idx scope frontier rule: bfs.induct)
  case (2 idx scope i frontier)
  obtain new where new: "add_new (children_of idx i) scope frontier = (scope @ new, frontier @ new)"
    "distinct new" "set new = {c \<in> set (children_of idx i). c \<noteq> []} - set scope"
    using add_new_spec by blast
  with 2 show ?case by auto
qed simp

lemma add_new_roots:
  "\<exists>new. add_new roots [] [] = (new, new) \<and> distinct new \<and> set new = {r \<in> set roots. r \<noteq> []}"
  using add_new_spec [of roots "[]" "[]"] by simp

lemma expandScope_set:
  "set (expandScopeInMemory roots idx) = (child_rel idx)\<^sup>* `` {r \<in> set roots. r \<noteq> []}"
proof -
  obtain new where new: "add_new roots [] [] = (new, new)" "set new = {r \<in> set roots. r \<noteq> []}"
    using add_new_roots by blast
  have "set (bfs idx new new) \<subseteq> (child_rel idx)\<^sup>* `` set new" using bfs_sound [of idx new new] by simp
  moreover have "(child_rel idx)\<^sup>* `` set new \<subseteq> set (bfs idx new new)"
  proof
    fix x assume "x \<in> (child_rel idx)\<^sup>* `` set new"
    then obtain r where "r \<in> set new" "(r, x) \<in> (child_rel idx)\<^sup>*" by blast
    from this(2,1) show "x \<in> set (bfs idx new new)"
      using bfs_closed [of new new idx] by (induction rule: rtrancl_induct) auto
  qed
  ultimately show ?thesis using new by (simp add: expandScopeInMemory_def)
qed

lemma expandScope_distinct: "distinct (expandScopeInMemory roots idx)"
proof -
  obtain new where "add_new roots [] [] = (new, new)" "distinct new"
    using add_new_roots by blast
  then show ?thesis by (simp add: expandScopeInMemory_def bfs_distinct)
qed

subsection \<open>The index is the parent relation of the rows\<close>

definition parent_rel :: "bead list \<Rightarrow> (string \<times> string) set" where
  "parent_rel bs = {(p, c). c \<noteq> [] \<and> p \<noteq> [] \<and> (\<exists>b\<in>set bs. b_parentId b = Some p \<and> b_id b = c)}"

lemma children_of_push:
  "set (children_of (push_child b idx) p) =
     set (children_of idx p) \<union> (if b_parentId b = Some p \<and> p \<noteq> [] then {b_id b} else {})"
  by (auto simp: push_child_def children_of_def split: option.splits if_splits)

lemma children_of_fold:
  "set (children_of (fold push_child bs idx) p) =
     set (children_of idx p) \<union> {b_id b |b. b \<in> set bs \<and> b_parentId b = Some p \<and> p \<noteq> []}"
  by (induction bs arbitrary: idx) (auto simp: children_of_push)

lemma children_of_Nil [simp]: "children_of [] p = []"
  by (simp add: children_of_def)

lemma child_rel_buildChildIndex: "child_rel (buildChildIndex bs) = parent_rel bs"
  unfolding child_rel_def parent_rel_def buildChildIndex_def
  by (auto simp: children_of_fold)

definition subtree :: "bead list \<Rightarrow> string list \<Rightarrow> string set" where
  "subtree bs roots = (parent_rel bs)\<^sup>* `` {r \<in> set roots. r \<noteq> []}"

lemma expandScope_subtree: "set (expandScopeInMemory roots (buildChildIndex bs)) = subtree bs roots"
  by (simp add: expandScope_set child_rel_buildChildIndex subtree_def)

subsection \<open>The interface of a scope expander\<close>

text \<open>
  What the launch guard and the backlog need of an expansion: it holds the roots, splits over a
  concatenation of root lists, and a root inside a scope adds nothing to it.
\<close>

locale scope_closure =
  fixes expand :: "string list \<Rightarrow> string set"
  assumes roots_in: "r \<in> set rs \<Longrightarrow> r \<noteq> [] \<Longrightarrow> r \<in> expand rs"
    and expand_append: "expand (rs @ ss) = expand rs \<union> expand ss"
    and expand_inside: "set ss \<subseteq> expand rs \<Longrightarrow> expand ss \<subseteq> expand rs"
begin

lemma nested_overlaps: "r \<in> expand rs \<Longrightarrow> r \<noteq> [] \<Longrightarrow> r \<in> expand [r] \<and> expand [r] \<subseteq> expand rs"
  using roots_in [of r "[r]"] expand_inside [of "[r]" rs] by simp

lemma disjoint_roots:
  "expand rs \<inter> expand ss = {} \<Longrightarrow> r \<in> set ss \<Longrightarrow> r \<noteq> [] \<Longrightarrow> r \<notin> expand rs"
  using roots_in [of r ss] by blast

lemma disjoint_append:
  "expand (rs @ ss) \<inter> T = {} \<longleftrightarrow> expand rs \<inter> T = {} \<and> expand ss \<inter> T = {}"
  by (auto simp: expand_append)

end

interpretation sc: scope_closure "\<lambda>rs. set (expandScopeInMemory rs idx)" for idx
proof unfold_locales
  fix rs ss :: "string list"
  assume "set ss \<subseteq> set (expandScopeInMemory rs idx)"
  then have ss: "{r \<in> set ss. r \<noteq> []} \<subseteq> (child_rel idx)\<^sup>* `` {r \<in> set rs. r \<noteq> []}"
    by (auto simp: expandScope_set)
  show "set (expandScopeInMemory ss idx) \<subseteq> set (expandScopeInMemory rs idx)"
    unfolding expandScope_set
  proof
    fix x
    assume "x \<in> (child_rel idx)\<^sup>* `` {r \<in> set ss. r \<noteq> []}"
    then obtain s where "s \<in> {r \<in> set ss. r \<noteq> []}" "(s, x) \<in> (child_rel idx)\<^sup>*" by blast
    moreover from this(1) ss obtain r where "r \<in> {r \<in> set rs. r \<noteq> []}" "(r, s) \<in> (child_rel idx)\<^sup>*"
      by blast
    ultimately show "x \<in> (child_rel idx)\<^sup>* `` {r \<in> set rs. r \<noteq> []}"
      by (meson ImageI rtrancl_trans)
  qed
qed (auto simp: expandScope_set)

subsection \<open>The guard\<close>

lemma find_conflicts_mem:
  "c \<in> set (find_conflicts idx req exclude rs) \<longleftrightarrow>
     (\<exists>(sid, r)\<in>set rs. exclude \<noteq> Some sid \<and>
        set req \<inter> set (expandScopeInMemory (issueRoots r) idx) \<noteq> {} \<and>
        c = \<lparr>sc_sprintId = sid, sc_overlappingIds =
               sort (filter (\<lambda>i. i \<in> set (expandScopeInMemory (issueRoots r) idx)) req)\<rparr>)"
proof (induction rs)
  case (Cons p rs)
  obtain sid r where p: "p = (sid, r)" by fastforce
  have "issueRoots r = [] \<Longrightarrow> set (expandScopeInMemory (issueRoots r) idx) = {}"
    by (simp add: expandScope_set)
  with Cons p show ?case by (auto simp: Let_def filter_empty_conv)
qed simp

lemma find_conflicts_Nil:
  "find_conflicts idx req exclude rs = [] \<longleftrightarrow>
     (\<forall>(sid, r)\<in>set rs. exclude \<noteq> Some sid \<longrightarrow>
        set req \<inter> set (expandScopeInMemory (issueRoots r) idx) = {})"
proof -
  have "find_conflicts idx req exclude rs = [] \<longleftrightarrow> (\<forall>c. c \<notin> set (find_conflicts idx req exclude rs))"
    by (metis empty_iff list.set(1) list.set_intros(1) neq_Nil_conv)
  then show ?thesis by (auto simp: find_conflicts_mem)
qed

lemma validateIssueId_Inr: "validateIssueId v = Inr s \<Longrightarrow> v = JStr s \<and> s \<noteq> []"
  by (cases v) (auto simp: validateIssueId_def split: if_splits)

lemma emap_validate: "emap validateIssueId vs = Inr rs \<Longrightarrow> vs = map JStr rs \<and> [] \<notin> set rs"
  by (induction vs arbitrary: rs) (auto simp: ebind_eq_Inr dest!: validateIssueId_Inr)

subsection \<open>Properties of scopes and of the guard\<close>

text \<open>
  The in-memory expansion terminates on every index (cycles included) and returns,
  without repetition, exactly the beads reachable from the non-empty roots over the rows' parent
  edges, the roots themselves included.
\<close>

theorem expandScopeInMemory_subtree:
  "distinct (expandScopeInMemory roots (buildChildIndex bs)) \<and>
   set (expandScopeInMemory roots (buildChildIndex bs)) = (parent_rel bs)\<^sup>* `` {r \<in> set roots. r \<noteq> []}"
  by (simp add: expandScope_distinct expandScope_set child_rel_buildChildIndex)

text \<open>
  Property C30. The guard is exact. A launch is accepted exactly if the live subtree of the
  request shares no bead with the live subtree of any (not excluded) reservation, and every
  reported conflict names a reservation and lists exactly the shared beads, in order.
\<close>

theorem checkLaunch_exact:
  assumes "checkLaunch (Inr raw) active (JArr vs) exclude = Inr lc"
  shows "\<exists>roots. vs = map JStr roots \<and>
    (lc_ok lc \<longleftrightarrow> (\<forall>(sid, r)\<in>set active. exclude \<noteq> Some sid \<longrightarrow>
       subtree (normalize_rows raw) roots \<inter> subtree (normalize_rows raw) (issueRoots r) = {})) \<and>
    set (lc_requestScope lc) = subtree (normalize_rows raw) roots \<and>
    (\<forall>c\<in>set (lc_conflicts lc). \<exists>r. (sc_sprintId c, r) \<in> set active \<and>
       set (sc_overlappingIds c) = subtree (normalize_rows raw) roots \<inter> subtree (normalize_rows raw) (issueRoots r) \<and>
       sorted (sc_overlappingIds c) \<and> sc_overlappingIds c \<noteq> [])"
proof -
  let ?bs = "normalize_rows raw"
  let ?idx = "buildChildIndex ?bs"
  obtain roots where roots: "emap validateIssueId vs = Inr roots"
    and lc: "lc = \<lparr>lc_ok = (find_conflicts ?idx (expandScopeInMemory roots ?idx) exclude active = []),
       lc_requestScope = sort (expandScopeInMemory roots ?idx),
       lc_conflicts = find_conflicts ?idx (expandScopeInMemory roots ?idx) exclude active\<rparr>"
    using assms by (auto simp: checkLaunch_def rows_of_def ebind_eq_Inr Let_def split: if_splits)
  have "\<exists>r. (sc_sprintId c, r) \<in> set active \<and>
       set (sc_overlappingIds c) = subtree ?bs roots \<inter> subtree ?bs (issueRoots r) \<and>
       sorted (sc_overlappingIds c) \<and> sc_overlappingIds c \<noteq> []" if "c \<in> set (lc_conflicts lc)" for c
  proof -
    from that obtain sid r where "(sid, r) \<in> set active"
      "c = \<lparr>sc_sprintId = sid, sc_overlappingIds =
           sort (filter (\<lambda>i. i \<in> set (expandScopeInMemory (issueRoots r) ?idx)) (expandScopeInMemory roots ?idx))\<rparr>"
      "set (expandScopeInMemory roots ?idx) \<inter> set (expandScopeInMemory (issueRoots r) ?idx) \<noteq> {}"
      by (auto simp: lc find_conflicts_mem)
    then show ?thesis
      by (intro exI [of _ r]) (auto simp: expandScope_subtree [symmetric] filter_empty_conv
          dest: arg_cong [of _ _ set])
  qed
  moreover have "vs = map JStr roots" using emap_validate [OF roots] by simp
  moreover have "lc_ok lc \<longleftrightarrow> (\<forall>(sid, r)\<in>set active. exclude \<noteq> Some sid \<longrightarrow>
       subtree ?bs roots \<inter> subtree ?bs (issueRoots r) = {})"
    unfolding lc by (simp add: find_conflicts_Nil expandScope_subtree)
  moreover have "set (lc_requestScope lc) = subtree ?bs roots"
    unfolding lc by (simp add: expandScope_subtree)
  ultimately show ?thesis by blast
qed

definition demo_rows :: jsval where
  "demo_rows = JArr [JObj [(''id'', JStr ''e'')],
     JObj [(''id'', JStr ''e.1''), (''parent'', JStr ''e'')], JObj [(''id'', JStr ''f'')]]"

theorem checkLaunch_exact_witness:
  "\<exists>lc roots. checkLaunch (Inr demo_rows) [(''s1'', demo_res\<lparr>issueRoots := [''e'']\<rparr>)] (JArr [JStr ''e.1'']) None = Inr lc \<and>
     \<not> lc_ok lc \<and> [JStr ''e.1''] = map JStr roots \<and>
     set (lc_requestScope lc) = subtree (normalize_rows demo_rows) roots"
proof -
  let ?lc = "\<lparr>lc_ok = False, lc_requestScope = [''e.1''],
             lc_conflicts = [\<lparr>sc_sprintId = ''s1'', sc_overlappingIds = [''e.1'']\<rparr>]\<rparr>"
  have c: "checkLaunch (Inr demo_rows) [(''s1'', demo_res\<lparr>issueRoots := [''e'']\<rparr>)] (JArr [JStr ''e.1'']) None
      = Inr ?lc"
  proof -
    have "rows_of (JArr [JStr ''e.1'']) = [JStr ''e.1'']" by code_simp
    moreover have "emap validateIssueId [JStr ''e.1''] = Inr [''e.1'']" by code_simp
    moreover have "buildChildIndex (normalize_rows demo_rows) = [(''e'', [''e.1''])]" by code_simp
    moreover have "expandScopeInMemory [''e.1''] [(''e'', [''e.1''])] = [''e.1'']" by code_simp
    moreover have "find_conflicts [(''e'', [''e.1''])] [''e.1''] None [(''s1'', demo_res\<lparr>issueRoots := [''e'']\<rparr>)]
        = [\<lparr>sc_sprintId = ''s1'', sc_overlappingIds = [''e.1'']\<rparr>]" by code_simp
    ultimately show ?thesis by (simp add: checkLaunch_def Let_def del: emap.simps find_conflicts.simps)
  qed
  moreover have "\<not> lc_ok ?lc" by simp
  moreover note checkLaunch_exact [OF c]
  ultimately show ?thesis
    by (elim exE conjE, intro exI conjI) assumption+
qed

end
