(* ===== verification/Sprint_Args.thy ===== *)
theory Sprint_Args
  imports Scope
begin

section \<open>The argument contract of a sprint\<close>

text \<open>
  \<^verbatim>\<open>packages/apra-fleet-se/fleet-sprint/sprint-args.mjs\<close> (the validators that every launch goes through and the
  validated shape of the runner's arguments), \<^verbatim>\<open>backlog-role.mjs\<close> (the deprecated alias of the backlog role and
  the selection of the backlog member), the role-map resolution of \<^verbatim>\<open>bin/cli.mjs\<close>, and from
  \<^verbatim>\<open>contracts.mjs\<close> and \<^verbatim>\<open>beads-identity.mjs\<close> the helpers these call. \<open>parse\<close> is \<^verbatim>\<open>JSON.parse\<close> (\<open>None\<close> when
  it throws), \<open>url_protocol\<close> the protocol of \<^verbatim>\<open>new URL\<close> and \<open>readFile\<close> the file system.
\<close>

definition arg_error :: "string \<Rightarrow> js_error" where
  "arg_error msg = GeneralError (''[Arg Contract] '' @ msg)"

subsection \<open>Identifiers and branches\<close>

definition branch_char :: "char \<Rightarrow> bool" where
  "branch_char c \<longleftrightarrow> issue_id_char c \<or> c = CHR ''/''"

definition validateBranchName :: "jsval \<Rightarrow> string \<Rightarrow> string res" where
  "validateBranchName v label =
     (case nonempty_str v of
        None \<Rightarrow> Inl (arg_error (''Invalid '' @ label))
      | Some s \<Rightarrow> if list_all branch_char s then Inr s else Inl (arg_error (''Invalid '' @ label)))"

fun strip_prefix :: "string list \<Rightarrow> string \<Rightarrow> string" where
  "strip_prefix [] n = n"
| "strip_prefix (p # ps) n = (if js_startsWith n p then drop (length p) n else strip_prefix ps n)"

definition normalizeBranchForCompare :: "string \<Rightarrow> string" where
  "normalizeBranchForCompare name =
     strip_prefix [''refs/remotes/origin/'', ''refs/heads/'', ''origin/''] (js_lower name)"

definition validateBranchPair :: "jsval \<Rightarrow> jsval \<Rightarrow> unit res" where
  "validateBranchPair br ba =
     (case (br, ba) of
        (JStr x, JStr y) \<Rightarrow>
          if normalizeBranchForCompare x = normalizeBranchForCompare y
          then Inl (arg_error ''Invalid branch: must differ from base_branch'') else Inr ()
      | _ \<Rightarrow> Inr ())"

definition credential_char :: "char \<Rightarrow> bool" where
  "credential_char c \<longleftrightarrow> issue_id_char c \<and> c \<noteq> CHR ''.''"

definition validateCredentialStoreName :: "jsval \<Rightarrow> string \<Rightarrow> string res" where
  "validateCredentialStoreName v label =
     (case nonempty_str v of
        None \<Rightarrow> Inl (arg_error (''Invalid '' @ label))
      | Some s \<Rightarrow> if list_all credential_char s \<and> length s \<le> 64 then Inr s else Inl (arg_error (''Invalid '' @ label)))"

subsection \<open>Roles\<close>

definition normalizeRole :: "string \<Rightarrow> string" where
  "normalizeRole r = js_lower (js_trim r)"

definition ROLE_BACKLOG :: string where "ROLE_BACKLOG = ''backlog''"
definition ROLE_BACKLOG_ALIAS :: string where "ROLE_BACKLOG_ALIAS = ''orchestrator''"
definition ROLE_KB_MAINTAINER :: string where "ROLE_KB_MAINTAINER = ''kb_maintainer''"

definition BACKLOG_ALIAS_WARNING :: string where
  "BACKLOG_ALIAS_WARNING =
     ''Deprecated: roleMap.orchestrator is a deprecated alias of roleMap.backlog; use roleMap.backlog instead. The orchestrator alias will be removed in v0.5.''"

type_synonym role_map = "(string, jsval) jsmap"

text \<open>
  Two values have the same \<^verbatim>\<open>JSON.stringify\<close> text exactly if they are the same value once written and read
  back; the digits of a fraction are not part of the model.
\<close>

definition resolveBacklogRoleAlias :: "role_map option \<Rightarrow> (role_map option \<times> string list) res" where
  "resolveBacklogRoleAlias normalizedRoleMap =
     (case normalizedRoleMap of
        None \<Rightarrow> Inr (None, [])
      | Some m \<Rightarrow>
          (case map_of m ROLE_BACKLOG_ALIAS of
             None \<Rightarrow> Inr (Some m, [])
           | Some aliasValue \<Rightarrow>
               let m1 = AList.delete ROLE_BACKLOG_ALIAS m in
               (case map_of m ROLE_BACKLOG of
                  Some v \<Rightarrow>
                    if json_value v \<noteq> json_value aliasValue
                    then Inl (GeneralError ''roleMap has both backlog and its deprecated alias orchestrator with different member lists'')
                    else Inr (Some m1, [BACKLOG_ALIAS_WARNING])
                | None \<Rightarrow> Inr (Some (AList.update ROLE_BACKLOG aliasValue m1), [BACKLOG_ALIAS_WARNING]))))"

text \<open>The loop that normalises the keys of a role map and refuses two keys that become equal.\<close>

fun normalize_role_keys :: "string \<Rightarrow> (string \<times> jsval) list \<Rightarrow> role_map \<Rightarrow> role_map res" where
  "normalize_role_keys label [] acc = Inr acc"
| "normalize_role_keys label ((rawKey, v) # es) acc =
     (let key = normalizeRole rawKey in
      if map_of acc key \<noteq> None then Inl (GeneralError (label @ '' key collides with another key''))
      else normalize_role_keys label es (AList.update key v acc))"

definition member_names :: "jsval \<Rightarrow> bool" where
  "member_names v \<longleftrightarrow> (case v of JArr xs \<Rightarrow> list_all (\<lambda>x. nonempty_str x \<noteq> None) xs | _ \<Rightarrow> False)"

text \<open>The part of the resolution that follows the parsing of the text.\<close>

definition resolve_parsed_roleMap :: "jsval option \<Rightarrow> (role_map option \<times> string list) res" where
  "resolve_parsed_roleMap parsed =
     (case parsed of
        None \<Rightarrow> Inl (GeneralError ''Error: --role-map must be valid JSON'')
      | Some (JObj es) \<Rightarrow>
          if \<not> list_all (\<lambda>e. member_names (snd e)) es
          then Inl (GeneralError ''Error: --role-map entry must be a non-empty array of member-name strings'')
          else ebind (normalize_role_keys ''Error: --role-map'' es []) (\<lambda>m. resolveBacklogRoleAlias (Some m))
      | Some _ \<Rightarrow> Inl (GeneralError ''Error: --role-map JSON must be an object''))"

definition resolveRoleMapWithWarnings ::
  "(string \<Rightarrow> jsval option) \<Rightarrow> (string \<Rightarrow> string option) \<Rightarrow> string option \<Rightarrow> (role_map option \<times> string list) res"
where
  "resolveRoleMapWithWarnings parse readFile rawValue =
     (case rawValue of
        None \<Rightarrow> Inr (None, [])
      | Some raw \<Rightarrow>
          ebind (if js_startsWith raw ''@''
                 then (case readFile (drop 1 raw) of
                         None \<Rightarrow> Inl (GeneralError ''Error: could not read --role-map file'')
                       | Some t \<Rightarrow> Inr t)
                 else Inr raw) (\<lambda>jsonText. resolve_parsed_roleMap (parse jsonText)))"

definition resolveRoleMap ::
  "(string \<Rightarrow> jsval option) \<Rightarrow> (string \<Rightarrow> string option) \<Rightarrow> string option \<Rightarrow> role_map option res"
where
  "resolveRoleMap parse readFile rawValue =
     ebind (resolveRoleMapWithWarnings parse readFile rawValue) (\<lambda>r. Inr (fst r))"

subsection \<open>The backlog member of a direct launch\<close>

record backlog_sel =
  bl_member :: jsval
  bl_explicit :: bool
  bl_reason :: string

definition array_of :: "role_map option \<Rightarrow> string \<Rightarrow> jsval list" where
  "array_of rm k = (case rm of None \<Rightarrow> [] | Some m \<Rightarrow> (case map_of m k of None \<Rightarrow> [] | Some v \<Rightarrow> rows_of v))"

definition first_js :: "string list \<Rightarrow> jsval" where
  "first_js xs = (case xs of [] \<Rightarrow> JUndef | x # _ \<Rightarrow> JStr x)"

definition selectBacklogMember :: "role_map option \<Rightarrow> string list \<Rightarrow> backlog_sel" where
  "selectBacklogMember rm ms =
     (case array_of rm ROLE_BACKLOG of
        x # _ \<Rightarrow> \<lparr>bl_member = x, bl_explicit = True, bl_reason = ''roleMap.backlog''\<rparr>
      | [] \<Rightarrow>
          (let mapped = (case rm of None \<Rightarrow> [] | Some m \<Rightarrow> concat (map (\<lambda>e. rows_of (snd e)) m)) in
           if rm = None \<or> mapped = []
           then \<lparr>bl_member = first_js ms, bl_explicit = False, bl_reason = ''no roleMap, first member''\<rparr>
           else case find (\<lambda>m. JStr m \<notin> set mapped) ms of
                  Some g \<Rightarrow> \<lparr>bl_member = JStr g, bl_explicit = False, bl_reason = ''first member not mapped to any role''\<rparr>
                | None \<Rightarrow>
                    (case find (\<lambda>m. JStr m \<in> set (array_of rm ''doer'')) ms of
                       Some d \<Rightarrow> \<lparr>bl_member = JStr d, bl_explicit = False,
                                  bl_reason = ''every member is role-mapped; first doer-mapped member''\<rparr>
                     | None \<Rightarrow> \<lparr>bl_member = first_js ms, bl_explicit = False,
                                bl_reason = ''every member is role-mapped and none is a doer; first member''\<rparr>)))"

definition formatBacklogSelection :: "backlog_sel option \<Rightarrow> string option" where
  "formatBacklogSelection sel =
     (case sel of
        None \<Rightarrow> None
      | Some s \<Rightarrow> if bl_explicit s then None
                  else Some (''backlog: '' @ js_str (bl_member s) @ '' (auto-selected: '' @ bl_reason s @ '')''))"

subsection \<open>The expected beads identity and the CI gate\<close>

record beads_id =
  bi_beadsDir :: string
  bi_prefix :: string
  bi_syncRemote :: string
  bi_repoRemote :: string

definition normaliseRecord :: "jsval \<Rightarrow> beads_id" where
  "normaliseRecord obj =
     (let pick = (\<lambda>k. case jfield obj k of JStr s \<Rightarrow> js_trim s | _ \<Rightarrow> '''') in
      \<lparr>bi_beadsDir = pick ''beadsDir'', bi_prefix = pick ''prefix'',
       bi_syncRemote = pick ''syncRemote'', bi_repoRemote = pick ''repoRemote''\<rparr>)"

definition parseExpectedIdentity :: "(string \<Rightarrow> jsval option) \<Rightarrow> jsval \<Rightarrow> beads_id option" where
  "parseExpectedIdentity parse text =
     (if truthy text \<and> typeof_object text then Some (normaliseRecord text)
      else case text of
             JStr s \<Rightarrow>
               if js_trim s = [] then None
               else (case parse s of
                       Some obj \<Rightarrow> if truthy obj \<and> typeof_object obj then Some (normaliseRecord obj) else None
                     | None \<Rightarrow> None)
           | _ \<Rightarrow> None)"

definition validateExpectBeads :: "(string \<Rightarrow> jsval option) \<Rightarrow> jsval \<Rightarrow> beads_id option res" where
  "validateExpectBeads parse raw =
     (if nullish raw \<or> raw = JStr [] then Inr None
      else if \<not> (case raw of JStr _ \<Rightarrow> True | JObj _ \<Rightarrow> True | _ \<Rightarrow> False)
      then Inl (arg_error ''Invalid expect_beads: must be a JSON string or an object'')
      else case parseExpectedIdentity parse raw of
             None \<Rightarrow> Inl (arg_error ''Invalid expect_beads: not valid JSON'')
           | Some p \<Rightarrow>
               if bi_prefix p = [] \<and> bi_syncRemote p = [] \<and> bi_repoRemote p = []
               then Inl (arg_error ''Invalid expect_beads: must carry at least one of prefix, syncRemote, repoRemote'')
               else Inr (Some p))"

definition DEFAULT_CI_GATE_TIMEOUT_S :: int where "DEFAULT_CI_GATE_TIMEOUT_S = 3600"

record ci_gate =
  cg_workflow :: string
  cg_timeoutS :: int

definition validateCiGate :: "(string \<Rightarrow> jsval option) \<Rightarrow> jsval \<Rightarrow> ci_gate option res" where
  "validateCiGate parse raw =
     (if nullish raw \<or> raw = JStr [] then Inr None
      else ebind (case raw of
                    JStr s \<Rightarrow> (case parse s of Some v \<Rightarrow> Inr v
                                               | None \<Rightarrow> Inl (arg_error ''Invalid ci_gate: not valid JSON''))
                  | _ \<Rightarrow> Inr raw) (\<lambda>v.
        case v of
          JObj kvs \<Rightarrow>
            if \<not> list_all (\<lambda>e. fst e = ''workflow'' \<or> fst e = ''timeout_s'') kvs
            then Inl (arg_error ''Invalid ci_gate: unknown key(s)'')
            else (case nonempty_str (jfield v ''workflow'') of
                    None \<Rightarrow> Inl (arg_error ''Invalid ci_gate.workflow'')
                  | Some w \<Rightarrow>
                      if \<not> list_all issue_id_char w then Inl (arg_error ''Invalid ci_gate.workflow'')
                      else (case (if jfield v ''timeout_s'' = JUndef then JInt DEFAULT_CI_GATE_TIMEOUT_S else jfield v ''timeout_s'') of
                              JInt t \<Rightarrow> if t \<le> 0 then Inl (arg_error ''Invalid ci_gate.timeout_s'')
                                        else Inr (Some \<lparr>cg_workflow = w, cg_timeoutS = t\<rparr>)
                            | _ \<Rightarrow> Inl (arg_error ''Invalid ci_gate.timeout_s'')))
        | _ \<Rightarrow> Inl (arg_error ''Invalid ci_gate: must be an object'')))"

subsection \<open>The validated arguments\<close>

definition KNOWN_ARG_KEYS :: "string list" where
  "KNOWN_ARG_KEYS =
     [''target_issues'', ''target_issue'', ''members'', ''branch'', ''base_branch'', ''goal'', ''max_cycles'',
      ''requirementsFile'', ''roleMap'', ''roleMapWarnings'', ''budget'', ''dispatch_timeout_s'',
      ''usage_limit_max_wait_s'', ''usage_limit_max_reprobes'', ''serviceUrl'', ''run_id'', ''assignee'',
      ''skip_regression'', ''doer_worklist_mode'', ''resume_model_switch'', ''worklist_effort_budget'', ''callTool'',
      ''azdevops_pat_secret_name'', ''expect_beads'']"

record run_args =
  ra_targetIssues :: "string list"
  ra_members :: "string list"
  ra_branch :: string
  ra_baseBranch :: string
  ra_goal :: string
  ra_maxCycles :: int
  ra_requirementsFile :: jsval
  ra_roleMap :: "role_map option"
  ra_roleMapWarnings :: "string list"
  ra_budget :: jsval
  ra_serviceUrl :: jsval
  ra_runId :: jsval
  ra_assignee :: jsval
  ra_dispatchTimeoutS :: int
  ra_azdevopsPatSecretName :: jsval
  ra_doerWorklistMode :: string
  ra_resumeModelSwitch :: bool
  ra_skipRegression :: bool
  ra_worklistEffortBudget :: jsval
  ra_usageLimitMaxWaitS :: jsval
  ra_usageLimitMaxReprobes :: jsval
  ra_expectBeads :: "beads_id option"

definition arg_targetIssues :: "jsval \<Rightarrow> string list res" where
  "arg_targetIssues args =
     ebind (case jfield args ''target_issues'' of
              JArr xs \<Rightarrow> Inr xs
            | _ \<Rightarrow> (case jfield args ''target_issue'' of
                      JStr s \<Rightarrow> Inr [JStr s]
                    | _ \<Rightarrow> Inl (arg_error ''Missing required arg: target_issues''))) (\<lambda>xs.
     if xs = [] then Inl (arg_error ''target_issues must be a non-empty array'') else emap validateIssueId xs)"

definition arg_member :: "jsval \<Rightarrow> string res" where
  "arg_member v = (case nonempty_str v of None \<Rightarrow> Inl (arg_error ''Invalid member entry'') | Some s \<Rightarrow> Inr s)"

definition arg_members :: "jsval \<Rightarrow> string list res" where
  "arg_members args =
     (case jfield args ''members'' of
        JArr (x # xs) \<Rightarrow> emap arg_member (x # xs)
      | _ \<Rightarrow> Inl (arg_error ''Missing required arg: members''))"

text \<open>\<^verbatim>\<open>branch\<close> and \<^verbatim>\<open>base_branch\<close>: present, well formed, and different branches.\<close>

definition required_str :: "jsval \<Rightarrow> string \<Rightarrow> unit res" where
  "required_str args k =
     (case nonempty_str (jfield args k) of None \<Rightarrow> Inl (arg_error (''Missing required arg: '' @ k)) | Some _ \<Rightarrow> Inr ())"

definition arg_branches :: "jsval \<Rightarrow> (string \<times> string) res" where
  "arg_branches args =
     ebind (required_str args ''branch'') (\<lambda>_.
     ebind (validateBranchName (jfield args ''branch'') ''branch'') (\<lambda>br.
     ebind (required_str args ''base_branch'') (\<lambda>_.
     ebind (validateBranchName (jfield args ''base_branch'') ''base_branch'') (\<lambda>ba.
     ebind (validateBranchPair (JStr br) (JStr ba)) (\<lambda>_. Inr (br, ba))))))"

text \<open>The pattern \<^verbatim>\<open>^P[1-3](\/P[1-3]){0,2}$\<close>.\<close>

fun goal_band :: "string \<Rightarrow> bool" where
  "goal_band [p, d] = (p = CHR ''P'' \<and> d \<in> set ''123'')"
| "goal_band _ = False"

definition goal_ok :: "string \<Rightarrow> bool" where
  "goal_ok g \<longleftrightarrow> (let bands = js_split CHR ''/'' g in list_all goal_band bands \<and> length bands \<le> 3)"

definition arg_goal :: "jsval \<Rightarrow> string res" where
  "arg_goal args =
     (case jfield args ''goal'' of
        JUndef \<Rightarrow> Inr ''P1/P2''
      | JStr g \<Rightarrow> if goal_ok g then Inr g else Inl (arg_error ''Invalid goal'')
      | _ \<Rightarrow> Inl (arg_error ''Invalid goal''))"

text \<open>An integer argument with a default and a lower bound, and an optional one without a default.\<close>

definition arg_int :: "jsval \<Rightarrow> string \<Rightarrow> int \<Rightarrow> int \<Rightarrow> int res" where
  "arg_int args k dflt low =
     (case jfield args k of
        JUndef \<Rightarrow> Inr dflt
      | JInt i \<Rightarrow> if i < low then Inl (arg_error (''Invalid '' @ k)) else Inr i
      | _ \<Rightarrow> Inl (arg_error (''Invalid '' @ k)))"

definition arg_opt_int :: "jsval \<Rightarrow> string \<Rightarrow> int \<Rightarrow> jsval res" where
  "arg_opt_int args k low =
     (case jfield args k of
        JUndef \<Rightarrow> Inr JUndef
      | JInt i \<Rightarrow> if i < low then Inl (arg_error (''Invalid '' @ k)) else Inr (JInt i)
      | _ \<Rightarrow> Inl (arg_error (''Invalid '' @ k)))"

definition arg_opt_str :: "jsval \<Rightarrow> string \<Rightarrow> (string \<Rightarrow> bool) \<Rightarrow> jsval res" where
  "arg_opt_str args k good =
     (case jfield args k of
        JUndef \<Rightarrow> Inr JUndef
      | JStr s \<Rightarrow> if s = [] \<or> \<not> good s then Inl (arg_error (''Invalid '' @ k)) else Inr (JStr s)
      | _ \<Rightarrow> Inl (arg_error (''Invalid '' @ k)))"

definition arg_flag :: "jsval \<Rightarrow> string \<Rightarrow> bool res" where
  "arg_flag args k =
     (case jfield args k of
        JUndef \<Rightarrow> Inr False
      | JBool b \<Rightarrow> Inr b
      | _ \<Rightarrow> Inl (arg_error (''Invalid '' @ k)))"

text \<open>A finite number: \<open>strict\<close> asks for a positive one, otherwise zero is accepted.\<close>

definition arg_number :: "jsval \<Rightarrow> string \<Rightarrow> bool \<Rightarrow> jsval res" where
  "arg_number args k strict =
     (case jfield args k of
        JUndef \<Rightarrow> Inr JUndef
      | JInt i \<Rightarrow> if i < 0 \<or> (strict \<and> i = 0) then Inl (arg_error (''Invalid '' @ k)) else Inr (JInt i)
      | JFrac i \<Rightarrow> if i < 0 then Inl (arg_error (''Invalid '' @ k)) else Inr (JFrac i)
      | _ \<Rightarrow> Inl (arg_error (''Invalid '' @ k)))"

text \<open>\<^verbatim>\<open>kb_maintainer\<close> names sprint members only.\<close>

definition check_kb_maintainer :: "string list \<Rightarrow> role_map \<Rightarrow> unit res" where
  "check_kb_maintainer ms m =
     (case map_of m ROLE_KB_MAINTAINER of
        None \<Rightarrow> Inr ()
      | Some v \<Rightarrow>
          if \<not> member_names v then Inl (arg_error ''Invalid roleMap.kb_maintainer: must be an array of non-empty member names'')
          else if \<not> list_all (\<lambda>x. x \<in> set (map JStr ms)) (rows_of v)
          then Inl (arg_error ''Invalid roleMap.kb_maintainer: not in members'')
          else Inr ())"

definition arg_roleMap :: "string list \<Rightarrow> jsval \<Rightarrow> (role_map option \<times> string list) res" where
  "arg_roleMap ms args =
     (case jfield args ''roleMap'' of
        JUndef \<Rightarrow> Inr (None, [])
      | JObj es \<Rightarrow>
          ebind (normalize_role_keys ''[Arg Contract] Invalid roleMap:'' es []) (\<lambda>m.
          ebind (check_kb_maintainer ms m) (\<lambda>_. resolveBacklogRoleAlias (Some m)))
      | _ \<Rightarrow> Inl (arg_error ''Invalid roleMap: must be an object mapping role -> member[]''))"

fun add_warnings :: "jsval list \<Rightarrow> string list \<Rightarrow> string list" where
  "add_warnings [] acc = acc"
| "add_warnings (JStr w # ws) acc = add_warnings ws (if w \<in> set acc then acc else acc @ [w])"
| "add_warnings (_ # ws) acc = add_warnings ws acc"

definition arg_serviceUrl :: "(string \<Rightarrow> string option) \<Rightarrow> jsval \<Rightarrow> jsval res" where
  "arg_serviceUrl url_protocol args =
     arg_opt_str args ''serviceUrl'' (\<lambda>s. url_protocol s = Some ''http:'' \<or> url_protocol s = Some ''https:'')"

definition arg_worklistMode :: "jsval \<Rightarrow> string res" where
  "arg_worklistMode args =
     (case jfield args ''doer_worklist_mode'' of
        JUndef \<Rightarrow> Inr ''resume''
      | JStr s \<Rightarrow> if s = ''resume'' \<or> s = ''batch'' then Inr s else Inl (arg_error ''Invalid doer_worklist_mode'')
      | _ \<Rightarrow> Inl (arg_error ''Invalid doer_worklist_mode''))"

definition arg_patSecret :: "jsval \<Rightarrow> jsval res" where
  "arg_patSecret args =
     (if jfield args ''azdevops_pat_secret_name'' = JUndef then Inr JUndef
      else ebind (validateCredentialStoreName (jfield args ''azdevops_pat_secret_name'') ''azdevops_pat_secret_name'')
             (\<lambda>s. Inr (JStr s)))"

definition validateArgs :: "(string \<Rightarrow> jsval option) \<Rightarrow> (string \<Rightarrow> string option) \<Rightarrow> jsval \<Rightarrow> run_args res" where
  "validateArgs parse url_protocol args =
     (case args of
        JObj kvs \<Rightarrow>
          if \<not> list_all (\<lambda>e. fst e \<in> set KNOWN_ARG_KEYS) kvs then Inl (arg_error ''Unknown arg(s)'')
          else
            ebind (arg_targetIssues args) (\<lambda>issues.
            ebind (arg_members args) (\<lambda>ms.
            ebind (arg_branches args) (\<lambda>bs.
            ebind (arg_goal args) (\<lambda>gl.
            ebind (arg_int args ''max_cycles'' 5 1) (\<lambda>mc.
            ebind (arg_opt_str args ''requirementsFile'' (\<lambda>_. True)) (\<lambda>rf.
            ebind (arg_roleMap ms args) (\<lambda>rm.
            ebind (arg_number args ''budget'' False) (\<lambda>bu.
            ebind (arg_opt_str args ''run_id'' (\<lambda>_. True)) (\<lambda>ri.
            ebind (arg_serviceUrl url_protocol args) (\<lambda>su.
            ebind (arg_opt_str args ''assignee'' (list_all issue_id_char)) (\<lambda>asg.
            ebind (arg_int args ''dispatch_timeout_s'' 9000 60) (\<lambda>dt.
            ebind (arg_worklistMode args) (\<lambda>wm.
            ebind (arg_flag args ''skip_regression'') (\<lambda>sr.
            ebind (arg_flag args ''resume_model_switch'') (\<lambda>rs.
            ebind (arg_number args ''worklist_effort_budget'' True) (\<lambda>we.
            ebind (arg_opt_int args ''usage_limit_max_wait_s'' 60) (\<lambda>uw.
            ebind (arg_opt_int args ''usage_limit_max_reprobes'' 1) (\<lambda>ur.
            ebind (arg_patSecret args) (\<lambda>ps.
            ebind (validateExpectBeads parse (jfield args ''expect_beads'')) (\<lambda>eb.
              Inr \<lparr>ra_targetIssues = issues, ra_members = ms, ra_branch = fst bs, ra_baseBranch = snd bs,
                   ra_goal = gl, ra_maxCycles = mc, ra_requirementsFile = rf, ra_roleMap = fst rm,
                   ra_roleMapWarnings = add_warnings (rows_of (jfield args ''roleMapWarnings'')) (snd rm),
                   ra_budget = bu, ra_serviceUrl = su, ra_runId = ri, ra_assignee = asg, ra_dispatchTimeoutS = dt,
                   ra_azdevopsPatSecretName = ps, ra_doerWorklistMode = wm, ra_resumeModelSwitch = rs,
                   ra_skipRegression = sr, ra_worklistEffortBudget = we, ra_usageLimitMaxWaitS = uw,
                   ra_usageLimitMaxReprobes = ur, ra_expectBeads = eb\<rparr>))))))))))))))))))))
      | _ \<Rightarrow> Inl (arg_error ''args must be an object''))"

subsection \<open>Normalised roles\<close>

lemma js_lower_char_idem [simp]: "js_lower_char (js_lower_char c) = js_lower_char c"
  by (simp add: js_lower_char_def Let_def of_char_of take_bit_eq_mod)

lemma js_space_lower [simp]: "js_space (js_lower_char c) = js_space c"
  by (auto simp: js_lower_char_def js_space_def Let_def of_char_of take_bit_eq_mod)

definition trimmed :: "string \<Rightarrow> bool" where
  "trimmed s \<longleftrightarrow> s = [] \<or> (\<not> js_space (hd s) \<and> \<not> js_space (last s))"

lemma trimmed_trim: "trimmed (js_trim s)"
proof (cases "js_trim s = []")
  case False
  let ?t = "dropWhile js_space s"
  have ne: "dropWhile js_space (rev ?t) \<noteq> []" using False by (simp add: js_trim_def)
  have l: "\<not> js_space (last (js_trim s))"
    using hd_dropWhile [OF ne] ne by (simp add: js_trim_def last_rev)
  have "?t \<noteq> []" using ne by (metis dropWhile.simps(1) rev.simps(1))
  then have h: "\<not> js_space (hd ?t)" by (rule hd_dropWhile)
  obtain pre where "rev ?t = pre @ dropWhile js_space (rev ?t)"
    by (metis takeWhile_dropWhile_id)
  then have "?t = rev (dropWhile js_space (rev ?t)) @ rev pre" by (metis rev_append rev_rev_ident)
  then have "hd (js_trim s) = hd ?t" using ne by (metis False hd_append2 js_trim_def)
  with h l show ?thesis by (simp add: trimmed_def)
qed (simp add: trimmed_def)

lemma trim_trimmed: "trimmed s \<Longrightarrow> js_trim s = s"
proof (cases s)
  case (Cons c cs)
  assume t: "trimmed s"
  with Cons have "dropWhile js_space s = s" by (simp add: trimmed_def)
  moreover have "dropWhile js_space (rev s) = rev s"
    using t Cons by (simp add: dropWhile_eq_self_iff hd_rev trimmed_def del: rev.simps)
  ultimately show ?thesis by (simp add: js_trim_def)
qed (simp add: js_trim_def)

lemma trimmed_lower: "trimmed s \<Longrightarrow> trimmed (js_lower s)"
  by (auto simp: trimmed_def js_lower_def hd_map last_map)

lemma normalizeRole_idem [simp]: "normalizeRole (normalizeRole r) = normalizeRole r"
proof -
  have "js_trim (normalizeRole r) = normalizeRole r"
    unfolding normalizeRole_def by (intro trim_trimmed trimmed_lower trimmed_trim)
  then show ?thesis by (simp add: normalizeRole_def js_lower_def)
qed

text \<open>A role map as every reader behind the validation sees it.\<close>

definition role_map_ok :: "role_map \<Rightarrow> bool" where
  "role_map_ok m \<longleftrightarrow> jmap_ok m \<and> (\<forall>k\<in>set (jkeys m). normalizeRole k = k)"

lemma normalize_role_keys_ok:
  "normalize_role_keys l es acc = Inr m \<Longrightarrow> role_map_ok acc \<Longrightarrow> role_map_ok m"
proof (induction l es acc rule: normalize_role_keys.induct)
  case (2 l k v es acc)
  then show ?case
    by (auto simp: Let_def role_map_ok_def dom_update split: if_splits)
qed simp

lemma normalize_role_keys_fix:
  "role_map_ok (acc @ es) \<Longrightarrow> normalize_role_keys l es acc = Inr (acc @ es)"
proof (induction l es acc rule: normalize_role_keys.induct)
  case (2 l k v es acc)
  from 2(2) have k: "normalizeRole k = k" "map_of acc k = None"
    by (simp_all add: role_map_ok_def jmap_ok_def map_of_eq_None_iff)
  then have "AList.update k v acc = acc @ [(k, v)]" by (simp add: update_fresh_None)
  moreover have "normalize_role_keys l es (acc @ [(k, v)]) = Inr ((acc @ [(k, v)]) @ es)"
    using 2(1) [OF refl] k 2(2) calculation by simp
  ultimately show ?case using k by (simp add: Let_def)
qed simp

lemma resolve_alias_ok:
  assumes "resolveBacklogRoleAlias (Some m) = Inr (Some m', ws)" "role_map_ok m"
  shows "role_map_ok m' \<and> map_of m' ROLE_BACKLOG_ALIAS = None"
proof -
  have bl: "normalizeRole ROLE_BACKLOG = ROLE_BACKLOG" "ROLE_BACKLOG_ALIAS \<noteq> ROLE_BACKLOG"
    by code_simp+
  from assms show ?thesis
    by (auto simp: resolveBacklogRoleAlias_def Let_def role_map_ok_def keys_delete keys_update bl
        simp del: set_map map_of_eq_None_iff split: option.splits if_splits)
qed

lemma resolve_alias_none:
  "map_of m ROLE_BACKLOG_ALIAS = None \<Longrightarrow> resolveBacklogRoleAlias (Some m) = Inr (Some m, [])"
  by (simp add: resolveBacklogRoleAlias_def)

lemma resolve_parsed_ok:
  assumes "resolve_parsed_roleMap parsed = Inr (Some m, ws)"
  shows "role_map_ok m \<and> map_of m ROLE_BACKLOG_ALIAS = None"
proof -
  from assms obtain v where v: "parsed = Some v" by (cases parsed) (auto simp: resolve_parsed_roleMap_def)
  with assms obtain es where "v = JObj es" by (cases v) (auto simp: resolve_parsed_roleMap_def)
  with assms v obtain m0 where
    "normalize_role_keys ''Error: --role-map'' es [] = Inr m0" "resolveBacklogRoleAlias (Some m0) = Inr (Some m, ws)"
    by (auto simp: resolve_parsed_roleMap_def ebind_eq_Inr split: if_splits)
  moreover have "role_map_ok []" by (simp add: role_map_ok_def)
  ultimately show ?thesis using normalize_role_keys_ok resolve_alias_ok by blast
qed

lemma resolveRoleMap_ok:
  assumes "resolveRoleMap parse readFile raw = Inr (Some m)"
  shows "role_map_ok m \<and> map_of m ROLE_BACKLOG_ALIAS = None"
proof -
  from assms obtain ws t where "resolve_parsed_roleMap (parse t) = Inr (Some m, ws)"
    by (auto simp: resolveRoleMap_def resolveRoleMapWithWarnings_def ebind_eq_Inr split: option.splits)
  then show ?thesis by (rule resolve_parsed_ok)
qed

text \<open>
  The two layers that resolve a role map agree: the map the CLI resolved is accepted by the runner's
  own normalisation unchanged and without a further warning, whatever spelling the operator used.
\<close>

theorem role_map_layers_agree:
  assumes "resolveRoleMap parse readFile raw = Inr (Some m)"
  shows "arg_roleMap ms (JObj [(''roleMap'', JObj m)]) = ebind (check_kb_maintainer ms m) (\<lambda>_. Inr (Some m, []))"
proof -
  from resolveRoleMap_ok [OF assms] have ok: "role_map_ok m" "map_of m ROLE_BACKLOG_ALIAS = None" by simp_all
  then have "normalize_role_keys l m [] = Inr m" for l using normalize_role_keys_fix [of "[]" m l] by simp
  with ok(2) show ?thesis by (simp add: arg_roleMap_def jfield_def resolve_alias_none)
qed

theorem role_map_layers_agree_witness:
  "arg_roleMap [''m1''] (JObj [(''roleMap'', JObj [(''doer'', JArr [JStr ''m1'']), (''backlog'', JArr [JStr ''b''])])])
     = Inr (Some [(''doer'', JArr [JStr ''m1'']), (''backlog'', JArr [JStr ''b''])], [])"
proof -
  let ?p = "\<lambda>t. Some (JObj [('' Doer'', JArr [JStr ''m1'']), (''Orchestrator'', JArr [JStr ''b''])])"
  have "resolveRoleMap ?p (\<lambda>_. None) (Some ''x'') = Inr (Some [(''doer'', JArr [JStr ''m1'']), (''backlog'', JArr [JStr ''b''])])"
    by code_simp
  from role_map_layers_agree [OF this, of "[''m1'']"] show ?thesis
    by (simp add: check_kb_maintainer_def ROLE_KB_MAINTAINER_def)
qed

subsection \<open>What an accepted argument object guarantees\<close>

lemma emap_all:
  assumes "\<And>x y. f x = Inr y \<Longrightarrow> P y" "emap f xs = Inr ys"
  shows "\<forall>y\<in>set ys. P y"
  using assms(2) by (induction xs arbitrary: ys) (auto simp: ebind_eq_Inr intro: assms(1))

definition safe_id :: "string \<Rightarrow> bool" where
  "safe_id s \<longleftrightarrow> s \<noteq> [] \<and> (\<forall>c\<in>set s. issue_id_char c)"

definition safe_branch :: "string \<Rightarrow> bool" where
  "safe_branch s \<longleftrightarrow> s \<noteq> [] \<and> (\<forall>c\<in>set s. issue_id_char c \<or> c = CHR ''/'')"

lemma nonempty_str_Some [simp]: "nonempty_str v = Some s \<longleftrightarrow> v = JStr s \<and> s \<noteq> []"
  by (cases v) auto

lemma validateIssueId_safe: "validateIssueId v = Inr s \<Longrightarrow> v = JStr s \<and> safe_id s"
  by (auto simp: validateIssueId_def safe_id_def list_all_iff split: option.splits if_splits)

lemma validateBranchName_safe: "validateBranchName v l = Inr s \<Longrightarrow> v = JStr s \<and> safe_branch s"
  by (auto simp: validateBranchName_def safe_branch_def branch_char_def list_all_iff split: option.splits if_splits)

lemma emap_issue_ids: "emap validateIssueId xs = Inr ys \<Longrightarrow> length ys = length xs \<and> (\<forall>y\<in>set ys. safe_id y)"
  using emap_all [of validateIssueId safe_id xs ys] validateIssueId_safe list_all2_lengthD [OF emap_eq_InrD]
  by metis

lemma arg_targetIssues_safe:
  assumes "arg_targetIssues args = Inr ys"
  shows "ys \<noteq> [] \<and> (\<forall>y\<in>set ys. safe_id y)"
proof -
  from assms obtain xs where "xs \<noteq> []" "emap validateIssueId xs = Inr ys"
    unfolding arg_targetIssues_def ebind_eq_Inr by (auto split: if_splits)
  with emap_issue_ids [OF this(2)] show ?thesis by (cases ys) auto
qed

lemma arg_members_nonempty:
  assumes "arg_members args = Inr ys"
  shows "ys \<noteq> [] \<and> [] \<notin> set ys"
proof -
  from assms obtain x xs where e: "emap arg_member (x # xs) = Inr ys"
    unfolding arg_members_def by (cases "jfield args ''members''") (auto split: list.splits)
  have ne: "\<And>v s. arg_member v = Inr s \<Longrightarrow> s \<noteq> []" by (auto simp: arg_member_def split: option.splits)
  have "\<forall>s\<in>set ys. s \<noteq> []" using e by (rule emap_all [where P="\<lambda>s. s \<noteq> []", rotated]) (rule ne)
  then show ?thesis using e by (auto simp: ebind_eq_Inr)
qed

lemma arg_branches_safe:
  assumes "arg_branches args = Inr (x, y)"
  shows "safe_branch x \<and> safe_branch y \<and> normalizeBranchForCompare x \<noteq> normalizeBranchForCompare y"
  using assms validateBranchName_safe
  by (auto simp: arg_branches_def ebind_eq_Inr validateBranchPair_def split: if_splits)

lemma arg_roleMap_ok:
  assumes "arg_roleMap ms args = Inr (Some m, ws)"
  shows "role_map_ok m \<and> map_of m ROLE_BACKLOG_ALIAS = None \<and>
    (\<forall>v. map_of m ROLE_KB_MAINTAINER = Some v \<longrightarrow> set (rows_of v) \<subseteq> JStr ` set ms)"
proof -
  from assms obtain es m0 where n: "normalize_role_keys ''[Arg Contract] Invalid roleMap:'' es [] = Inr m0"
    "check_kb_maintainer ms m0 = Inr ()" "resolveBacklogRoleAlias (Some m0) = Inr (Some m, ws)"
    by (cases "jfield args ''roleMap''") (auto simp: arg_roleMap_def ebind_eq_Inr)
  have ok0: "role_map_ok m0" by (rule normalize_role_keys_ok [OF n(1)]) (simp add: role_map_ok_def)
  have ne: "ROLE_KB_MAINTAINER \<noteq> ROLE_BACKLOG" "ROLE_KB_MAINTAINER \<noteq> ROLE_BACKLOG_ALIAS" by code_simp+
  have "map_of m ROLE_KB_MAINTAINER = map_of m0 ROLE_KB_MAINTAINER"
    using n(3) ne by (auto simp: resolveBacklogRoleAlias_def Let_def split: option.splits if_splits)
  moreover have "set (rows_of v) \<subseteq> JStr ` set ms" if "map_of m0 ROLE_KB_MAINTAINER = Some v" for v
    using n(2) that by (auto simp: check_kb_maintainer_def list_all_iff split: if_splits)
  ultimately show ?thesis using resolve_alias_ok [OF n(3) ok0] by simp
qed

text \<open>The characters a POSIX shell gives a meaning to.\<close>

definition shell_meta :: "char list" where
  "shell_meta = '' |&;<>()$`*?[]#~=%!{}^'' @ [CHR 0x22, CHR 0x27, CHR 0x5C, CHR 0x0A, CHR 0x09, CHR 0x0D, CHR 0x00]"

definition shell_inert :: "string \<Rightarrow> bool" where
  "shell_inert s \<longleftrightarrow> s \<noteq> [] \<and> set s \<inter> set shell_meta = {}"

lemma shell_meta_not_id: "list_all (\<lambda>c. \<not> issue_id_char c \<and> c \<noteq> CHR ''/'') shell_meta"
  by code_simp

lemma safe_id_inert: "safe_id s \<Longrightarrow> shell_inert s"
  using shell_meta_not_id by (auto simp: safe_id_def shell_inert_def list_all_iff)

lemma safe_branch_inert: "safe_branch s \<Longrightarrow> shell_inert s"
  using shell_meta_not_id by (auto simp: safe_branch_def shell_inert_def list_all_iff)

lemma arg_goal_ok: "arg_goal args = Inr g \<Longrightarrow> goal_ok g"
  by (cases "jfield args ''goal''") (auto simp: arg_goal_def goal_ok_def split: if_splits)

lemma arg_int_low: "arg_int args k d low = Inr i \<Longrightarrow> low \<le> d \<Longrightarrow> low \<le> i"
  by (cases "jfield args k") (auto simp: arg_int_def split: if_splits)

lemma arg_opt_str_good: "arg_opt_str args k good = Inr (JStr s) \<Longrightarrow> s \<noteq> [] \<and> good s"
  by (cases "jfield args k") (auto simp: arg_opt_str_def split: if_splits)

lemma validateArgs_parts:
  assumes "validateArgs parse url_protocol args = Inr r"
  shows "arg_targetIssues args = Inr (ra_targetIssues r)" "arg_members args = Inr (ra_members r)"
    "arg_branches args = Inr (ra_branch r, ra_baseBranch r)" "arg_goal args = Inr (ra_goal r)"
    "arg_int args ''max_cycles'' 5 1 = Inr (ra_maxCycles r)"
    "arg_int args ''dispatch_timeout_s'' 9000 60 = Inr (ra_dispatchTimeoutS r)"
    "arg_opt_str args ''assignee'' (list_all issue_id_char) = Inr (ra_assignee r)"
    "\<exists>ws. arg_roleMap (ra_members r) args = Inr (ra_roleMap r, ws)"
  using assms by (cases args; fastforce simp: validateArgs_def ebind_eq_Inr split: if_splits)+

text \<open>
  Property C40. Whatever object the runner is given, arguments that pass the contract are fit to be put into
  commands: the issue ids, both branches and the assignee are not empty and contain no character a shell
  interprets, the sprint branch and the base name different branches however they are spelled, the bounds hold,
  and the role map has canonical distinct keys without the deprecated alias, its knowledge-base maintainers being
  sprint members.
\<close>

theorem validateArgs_contract:
  assumes "validateArgs parse url_protocol args = Inr r"
  shows "ra_targetIssues r \<noteq> [] \<and> (\<forall>i\<in>set (ra_targetIssues r). shell_inert i) \<and>
    shell_inert (ra_branch r) \<and> shell_inert (ra_baseBranch r) \<and>
    normalizeBranchForCompare (ra_branch r) \<noteq> normalizeBranchForCompare (ra_baseBranch r) \<and>
    ra_members r \<noteq> [] \<and> [] \<notin> set (ra_members r) \<and>
    goal_ok (ra_goal r) \<and> 1 \<le> ra_maxCycles r \<and> 60 \<le> ra_dispatchTimeoutS r \<and>
    (\<forall>a. ra_assignee r = JStr a \<longrightarrow> shell_inert a) \<and>
    (\<forall>m. ra_roleMap r = Some m \<longrightarrow> role_map_ok m \<and> map_of m ROLE_BACKLOG_ALIAS = None \<and>
       (\<forall>v. map_of m ROLE_KB_MAINTAINER = Some v \<longrightarrow> set (rows_of v) \<subseteq> JStr ` set (ra_members r)))"
proof -
  note p = validateArgs_parts [OF assms]
  have a: "shell_inert a" if "ra_assignee r = JStr a" for a
    using p(7) that arg_opt_str_good [of args "''assignee''" "list_all issue_id_char" a] safe_id_inert
    by (simp add: safe_id_def list_all_iff)
  have m: "role_map_ok m \<and> map_of m ROLE_BACKLOG_ALIAS = None \<and>
       (\<forall>v. map_of m ROLE_KB_MAINTAINER = Some v \<longrightarrow> set (rows_of v) \<subseteq> JStr ` set (ra_members r))"
    if "ra_roleMap r = Some m" for m
    using p(8) that by (elim exE, intro arg_roleMap_ok) simp
  show ?thesis
    using arg_targetIssues_safe [OF p(1)] arg_branches_safe [OF p(3)] arg_members_nonempty [OF p(2)]
      arg_goal_ok [OF p(4)] arg_int_low [OF p(5)] arg_int_low [OF p(6)] a m
    by (intro conjI allI impI) (simp_all add: safe_id_inert safe_branch_inert)
qed

definition demo_args :: jsval where
  "demo_args =
     JObj [(''target_issues'', JArr [JStr ''fleet-7'']), (''members'', JArr [JStr ''m1'']),
           (''branch'', JStr ''feat/x''), (''base_branch'', JStr ''origin/main''), (''assignee'', JStr ''me''),
           (''roleMap'', JObj [(''Orchestrator'', JArr [JStr ''b'']), (''KB_Maintainer'', JArr [JStr ''m1''])])]"

theorem validateArgs_contract_witness:
  "\<exists>r. validateArgs (\<lambda>_. None) (\<lambda>_. None) demo_args = Inr r \<and> ra_branch r = ''feat/x'' \<and>
     ra_roleMap r = Some [(''kb_maintainer'', JArr [JStr ''m1'']), (''backlog'', JArr [JStr ''b''])] \<and>
     shell_inert (ra_branch r)"
proof -
  have "case validateArgs (\<lambda>_. None) (\<lambda>_. None) demo_args of
      Inr r \<Rightarrow> ra_branch r = ''feat/x'' \<and>
        ra_roleMap r = Some [(''kb_maintainer'', JArr [JStr ''m1'']), (''backlog'', JArr [JStr ''b''])]
    | Inl _ \<Rightarrow> False" by code_simp
  then obtain r where r: "validateArgs (\<lambda>_. None) (\<lambda>_. None) demo_args = Inr r"
    "ra_branch r = ''feat/x''" "ra_roleMap r = Some [(''kb_maintainer'', JArr [JStr ''m1'']), (''backlog'', JArr [JStr ''b''])]"
    by (cases "validateArgs (\<lambda>_. None) (\<lambda>_. None) demo_args") simp_all
  with validateArgs_contract [OF r(1)] show ?thesis by blast
qed

end
