(* ===== verification/Launch.thy ===== *)
theory Launch
  imports Watchdog Sprint_Args
begin

section \<open>The sprint controller\<close>

text \<open>
  \<^verbatim>\<open>packages/apra-fleet-se/src/supervisor/api.mjs\<close>: the launch of a sprint (request validation, role map, backlog
  pin, relaunch gate, overlap guards, spawn, claim), the member overlay, the live list, the state and stop
  endpoints, and their routes; and \<^verbatim>\<open>composeBeforeLaunch\<close> of \<^verbatim>\<open>bin/serve.mjs\<close>, the guard the running
  supervisor installs. The state of the controller is the ledger, the history and the spawner it was created
  with. \<^verbatim>\<open>launch\<close> awaits the guards, the spawn and the claim, so it is two steps: \<open>launch_check\<close>, everything up to
  and including the guards, changes nothing, and \<open>launch_commit\<close> spawns and claims.

  What the fleet server, the tracker, the clock, the file system and the operating system answer during a launch
  is the record \<open>launch_env\<close>.
\<close>

datatype api_error = ApiError nat string "string option" | Bubbled js_error

type_synonym 'a ares = "api_error + 'a"

fun as_api :: "nat \<Rightarrow> string \<Rightarrow> 'a res \<Rightarrow> 'a ares" where
  "as_api status field (Inl e) = Inl (ApiError status (error_text e) (Some field))"
| "as_api status field (Inr x) = Inr x"

subsection \<open>Sprint ids\<close>

definition MAX_SPRINT_ID_LENGTH :: nat where "MAX_SPRINT_ID_LENGTH = 48"
definition SPRINT_ID_ROOT_LENGTH :: nat where "SPRINT_ID_ROOT_LENGTH = 20"

definition split_trim :: "string \<Rightarrow> string list" where
  "split_trim s = filter (\<lambda>x. x \<noteq> []) (map js_trim (js_split CHR '','' s))"

definition defaultGenerateSprintId :: "(string \<Rightarrow> string) \<Rightarrow> string \<Rightarrow> string \<Rightarrow> string" where
  "defaultGenerateSprintId sha256hex uuid issue =
     (let roots = split_trim issue;
          first = take SPRINT_ID_ROOT_LENGTH (sanitize_stem (case roots of [] \<Rightarrow> ''sprint'' | r # _ \<Rightarrow> r));
          hash = take 6 (sha256hex (join_strings '','' roots))
      in first @ ''-'' @ show_nat (length roots) @ ''-'' @ hash @ ''-'' @ take 8 uuid)"

definition splitIssueIds :: "jsval \<Rightarrow> string list" where
  "splitIssueIds v = (case v of JStr s \<Rightarrow> split_trim s | _ \<Rightarrow> [])"

subsection \<open>Members\<close>

fun add_members :: "jsval list \<Rightarrow> string list \<Rightarrow> string list" where
  "add_members [] out = out"
| "add_members (JStr raw # items) out =
     (let m = js_trim raw in add_members items (if m = [] \<or> m \<in> set out then out else out @ [m]))"
| "add_members (_ # items) out = add_members items out"

definition normalizeMembers :: "jsval \<Rightarrow> string list" where
  "normalizeMembers v =
     (case v of
        JArr xs \<Rightarrow> add_members xs []
      | JStr s \<Rightarrow> add_members (map JStr (js_split CHR '','' s)) []
      | _ \<Rightarrow> [])"

fun union_add :: "jsval list \<Rightarrow> jsval list \<Rightarrow> string list \<Rightarrow> string list" where
  "union_add exclude [] out = out"
| "union_add exclude (JStr m # ms) out =
     union_add exclude ms (if m = [] \<or> m \<in> set out \<or> JStr m \<in> set exclude then out else out @ [m])"
| "union_add exclude (_ # ms) out = union_add exclude ms out"

definition memberUnion :: "string list \<Rightarrow> role_map option \<Rightarrow> jsval list \<Rightarrow> string list" where
  "memberUnion ms rm exclude =
     (let out = union_add exclude (map JStr ms) [] in
      case rm of
        None \<Rightarrow> out
      | Some m \<Rightarrow> union_add exclude (concat (map (\<lambda>e. rows_of (snd e)) m)) out)"

text \<open>A \<^verbatim>\<open>listMembers()\<close> result is an array or an object with an array under \<^verbatim>\<open>members\<close>.\<close>

definition member_rows :: "jsval \<Rightarrow> jsval list" where
  "member_rows raw = (case raw of JArr xs \<Rightarrow> xs | _ \<Rightarrow> if truthy raw then rows_of (jfield raw ''members'') else [])"

definition is_object :: "jsval \<Rightarrow> bool" where
  "is_object m \<longleftrightarrow> truthy m \<and> typeof_object m"

definition unreservableMemberNamesFromList :: "jsval \<Rightarrow> jsval list" where
  "unreservableMemberNamesFromList raw =
     map (\<lambda>m. jfield m ''name'')
       (filter (\<lambda>m. is_object m \<and> truthy (jfield m ''name'') \<and> truthy (jfield m ''unreservable'')) (member_rows raw))"

subsection \<open>The member overlap guard\<close>

definition quoted :: "string \<Rightarrow> string" where
  "quoted s = [CHR 0x27] @ s @ [CHR 0x27]"

definition formatMemberConflict :: "(string \<times> string list) list \<Rightarrow> string" where
  "formatMemberConflict conflicts =
     ''member overlap rejects launch: '' @
     join_strings ''; '' (map (\<lambda>c. ''sprint '' @ quoted (fst c) @ '' already claims [''
        @ join_strings '', '' (snd c) @ '']'') conflicts)"

type_synonym conflict_map = "(string, string list) jsmap"

text \<open>A sprint id that is not a string (possible only in the server's record) counts under its text.\<close>

definition addConflict :: "jsval \<Rightarrow> string \<Rightarrow> conflict_map \<Rightarrow> conflict_map" where
  "addConflict sprintId m cs =
     (if \<not> truthy sprintId then cs
      else let sid = js_str sprintId;
               old = (case map_of cs sid of None \<Rightarrow> [] | Some ms \<Rightarrow> ms)
           in AList.update sid (if m \<in> set old then old else old @ [m]) cs)"

fun ledger_conflicts :: "string list \<Rightarrow> (string \<times> reservation) list \<Rightarrow> conflict_map \<Rightarrow> conflict_map" where
  "ledger_conflicts request [] cs = cs"
| "ledger_conflicts request ((sid, r) # rs) cs =
     ledger_conflicts request rs (fold (addConflict (JStr sid)) (filter (\<lambda>m. m \<in> set request) (members r)) cs)"

fun server_conflicts :: "string list \<Rightarrow> jsval list \<Rightarrow> conflict_map \<Rightarrow> conflict_map" where
  "server_conflicts request [] cs = cs"
| "server_conflicts request (m # ms) cs =
     server_conflicts request ms
       (if \<not> is_object m \<or> truthy (jfield m ''unreservable'') \<or> \<not> truthy (jfield m ''reservedBy'') then cs
        else case jfield m ''name'' of
               JStr n \<Rightarrow> if n \<noteq> [] \<and> n \<in> set request then addConflict (jfield m ''reservedBy'') n cs else cs
             | _ \<Rightarrow> cs)"

text \<open>\<open>fetched\<close> is the member list the guard looks at, \<open>None\<close> when it has none or could not read it.\<close>

definition guard_conflicts :: "(string \<times> reservation) list \<Rightarrow> string list \<Rightarrow> jsval option \<Rightarrow> conflict_map" where
  "guard_conflicts active request fetched =
     (let cs = ledger_conflicts request active [] in
      case fetched of None \<Rightarrow> cs | Some raw \<Rightarrow> server_conflicts request (member_rows raw) cs)"

definition defaultMemberOverlapGuard ::
  "(string \<Rightarrow> string \<Rightarrow> int) \<Rightarrow> (string \<times> reservation) list \<Rightarrow> string list \<Rightarrow> jsval option \<Rightarrow> unit ares"
where
  "defaultMemberOverlapGuard localeCompare active request fetched =
     (let cs = guard_conflicts active request fetched in
      if cs = [] then Inr ()
      else Inl (ApiError 409
             (formatMemberConflict (sort_by (\<lambda>a b. localeCompare (fst a) (fst b)) (map (\<lambda>c. (fst c, sort (snd c))) cs)))
             (Some ''members'')))"

text \<open>
  The composed guard: the member axis with the guard's own read of the member list (\<^verbatim>\<open>composeBeforeLaunch\<close> does not
  pass on the list the launch has read), then the issue-scope axis.
\<close>

definition composeBeforeLaunch ::
  "(string \<Rightarrow> string \<Rightarrow> int) \<Rightarrow> jsval option \<Rightarrow> jsval res \<Rightarrow> (string \<times> reservation) list \<Rightarrow> string list \<Rightarrow> string list
     \<Rightarrow> unit ares"
where
  "composeBeforeLaunch localeCompare fetched beadsFetch active ms roots =
     ebind (defaultMemberOverlapGuard localeCompare active ms fetched) (\<lambda>_.
       case checkLaunch beadsFetch active (JArr (map JStr roots)) None of
         Inl (BeadsViewUnavailable reason) \<Rightarrow>
           Inl (ApiError 503 (''cannot verify issue-scope overlap: '' @ reason) (Some ''issue''))
       | Inl e \<Rightarrow> Inl (Bubbled e)
       | Inr r \<Rightarrow> if lc_ok r then Inr ()
                  else Inl (ApiError 409 (formatScopeConflict (lc_conflicts r)) (Some ''issue'')))"

subsection \<open>Validation of a launch request\<close>

record launch_req =
  lr_issue :: string
  lr_issueIds :: "string list"
  lr_branch :: string
  lr_base :: string
  lr_members :: "string list"
  lr_skipRegression :: bool

definition validate_issues :: "jsval \<Rightarrow> string list ares" where
  "validate_issues rawIssue =
     (let issueIds = splitIssueIds rawIssue in
      if issueIds = []
      then ebind (as_api 400 ''issue'' (validateIssueId rawIssue))
             (\<lambda>_. Inl (ApiError 400 ''[Arg Contract] issue must contain at least one id'' (Some ''issue'')))
      else as_api 400 ''issue'' (emap (\<lambda>i. validateIssueId (JStr i)) issueIds))"

definition validate_phases :: "jsval \<Rightarrow> bool ares" where
  "validate_phases phases =
     (case phases of
        JUndef \<Rightarrow> Inr False
      | JObj kvs \<Rightarrow>
          if \<not> list_all (\<lambda>e. fst e = ''regression'') kvs
          then Inl (ApiError 400 ''phases has unknown key(s)'' (Some ''phases''))
          else if jfield phases ''regression'' \<notin> {JUndef, JStr ''run'', JStr ''skip''}
          then Inl (ApiError 400 ''phases.regression must be run or skip'' (Some ''phases''))
          else Inr (jfield phases ''regression'' = JStr ''skip'')
      | _ \<Rightarrow> Inl (ApiError 400 ''phases must be an object'' (Some ''phases'')))"

definition validateLaunchRequest :: "jsval \<Rightarrow> launch_req ares" where
  "validateLaunchRequest body =
     (let rawIssue = coalesce (jfield body ''issue'') (jfield body ''target_issue'');
          br = jfield body ''branch'';
          ba = coalesce (jfield body ''base'') (jfield body ''base_branch'');
          ms = normalizeMembers (jfield body ''members'')
      in ebind (validate_issues rawIssue) (\<lambda>issueIds.
         ebind (as_api 400 ''branch'' (validateBranchName br ''branch'')) (\<lambda>b1.
         ebind (as_api 400 ''base'' (validateBranchName ba ''base'')) (\<lambda>b2.
         ebind (as_api 400 ''branch'' (validateBranchPair br ba)) (\<lambda>_.
           if ms = [] then Inl (ApiError 400 ''members must be a non-empty list of member names'' (Some ''members''))
           else ebind (validate_phases (jfield body ''phases'')) (\<lambda>skip.
                  Inr \<lparr>lr_issue = join_strings '','' issueIds, lr_issueIds = issueIds, lr_branch = b1, lr_base = b2,
                       lr_members = ms, lr_skipRegression = skip\<rparr>))))))"

subsection \<open>The environment and the state of a launch\<close>

text \<open>
  The backlog member's handle, as declared: a status, the member's name if there is one, a reason. What
  \<^verbatim>\<open>listMembers()\<close> returns is a value with two hidden marks (\<^verbatim>\<open>fleet-members.mjs\<close>): stopped by the user, and
  unavailable, each with its reason.
\<close>

record backlog_state =
  bk_ready :: bool
  bk_member :: "string option"
  bk_reason :: jsval

record members_read =
  mr_value :: jsval
  mr_stopped :: "string option"
  mr_unavailable :: "string option"

record launch_env =
  nv_parse :: "string \<Rightarrow> jsval option"
  nv_backlog :: "backlog_state option"
  nv_members :: "members_read res"
  nv_guardMembers :: "members_read res"
  nv_beads :: "jsval res"
  nv_localeCompare :: "string \<Rightarrow> string \<Rightarrow> int"
  nv_sha256hex :: "string \<Rightarrow> string"
  nv_uuid :: string
  nv_dataDir :: string
  nv_mkdir :: "fs_err option"
  nv_open :: "fs_err option"
  nv_spawn :: spawn_outcome
  nv_portFree :: "int \<Rightarrow> bool"
  nv_basePort :: jsval
  nv_stampedBuild :: "string option"
  nv_currentBuild :: "string option"
  nv_io :: io
  nv_client :: bool
  nv_now :: string
  nv_identity :: jsval

record controller =
  ct_ledger :: ledger
  ct_history :: history
  ct_spawner :: spawner

definition fleetMembersStoppedByUserReason :: "members_read option \<Rightarrow> string option" where
  "fleetMembersStoppedByUserReason r =
     (case r of None \<Rightarrow> None | Some x \<Rightarrow> if truthy (mr_value x) \<and> typeof_object (mr_value x) then mr_stopped x else None)"

definition fleetMembersUnavailableReason :: "members_read option \<Rightarrow> string option" where
  "fleetMembersUnavailableReason r =
     (case r of None \<Rightarrow> None | Some x \<Rightarrow> if truthy (mr_value x) \<and> typeof_object (mr_value x) then mr_unavailable x else None)"

subsection \<open>Launching: the role map\<close>

text \<open>
  The request's role map: a string is parsed, any other value is written and read back. The result is the map
  the child is to receive (keys normalised, a later key replacing an equal one, the alias kept), the resolved
  map, and the warnings.
\<close>

definition raw_roleMap :: "launch_env \<Rightarrow> jsval \<Rightarrow> jsval option" where
  "raw_roleMap env v = (case v of JStr s \<Rightarrow> nv_parse env s | _ \<Rightarrow> Some (json_value v))"

definition forward_keys :: "(string \<times> jsval) list \<Rightarrow> role_map" where
  "forward_keys es = fold (\<lambda>e m. AList.update (normalizeRole (fst e)) (snd e) m) es []"

definition launch_roleMap :: "launch_env \<Rightarrow> jsval \<Rightarrow> (role_map option \<times> role_map option \<times> string list) ares" where
  "launch_roleMap env v =
     (if v = JUndef then Inr (None, None, [])
      else if (case v of JStr s \<Rightarrow> js_startsWith (js_trim s) ''@'' | _ \<Rightarrow> False)
      then Inl (ApiError 400 ''[Arg Contract] roleMap @file references are not accepted over HTTP'' (Some ''roleMap''))
      else ebind (case raw_roleMap env v of
                    Some (JObj es) \<Rightarrow>
                      (case resolveBacklogRoleAlias (Some (forward_keys es)) of
                         Inl e \<Rightarrow> Inl (ApiError 400 (''[Arg Contract] Invalid roleMap: '' @ error_text e) (Some ''roleMap''))
                       | Inr r \<Rightarrow> Inr (Some (forward_keys es), snd r))
                  | _ \<Rightarrow> Inr (None, [])) (\<lambda>fw.
           ebind (as_api 400 ''roleMap''
                    (case v of
                       JStr s \<Rightarrow> resolveRoleMap (nv_parse env) (\<lambda>_. None) (Some s)
                     | _ \<Rightarrow> ebind (resolve_parsed_roleMap (raw_roleMap env v)) (\<lambda>r. Inr (fst r)))) (\<lambda>rm.
             Inr (fst fw, rm, snd fw))))"

subsection \<open>Launching: the backlog pin and the relaunch gate\<close>

definition not_ready :: "backlog_state \<Rightarrow> api_error" where
  "not_ready st = ApiError 503 (''this supervisor has no ready backlog member: ''
     @ js_str (coalesce (bk_reason st) (JStr ''unknown reason''))) None"

definition pinned_backlog :: "backlog_state option \<Rightarrow> string option ares" where
  "pinned_backlog handle =
     (case handle of
        None \<Rightarrow> Inr None
      | Some st \<Rightarrow>
          (case bk_member st of
             Some n \<Rightarrow> if bk_ready st \<and> n \<noteq> [] then Inr (Some n) else Inl (not_ready st)
           | None \<Rightarrow> Inl (not_ready st)))"

text \<open>The member list of the launch: an unreadable one is taken as none, unless the pin needs it.\<close>

definition read_members :: "launch_env \<Rightarrow> string option \<Rightarrow> members_read option ares" where
  "read_members env pin =
     (let raw = (case nv_members env of Inl _ \<Rightarrow> None | Inr r \<Rightarrow> Some r);
          unavailable = (case nv_members env of Inl e \<Rightarrow> Some (error_text e) | Inr _ \<Rightarrow> fleetMembersUnavailableReason raw)
      in case fleetMembersStoppedByUserReason raw of
           Some (c # reason) \<Rightarrow> Inl (ApiError 503 (c # reason) None)
         | _ \<Rightarrow>
             (case (pin, unavailable) of
                (Some n, Some (c # reason)) \<Rightarrow>
                  Inl (ApiError 503 (''cannot verify backlog member '' @ quoted n
                         @ '': fleet member list unavailable ('' @ (c # reason) @ '')'') None)
              | _ \<Rightarrow> Inr raw))"

definition prior_terminal :: "history \<Rightarrow> string list \<Rightarrow> (string \<times> terminal_record) option" where
  "prior_terminal h roots =
     (case find (\<lambda>r. isDeterministicTerminalReason (latestForIssueRoot (JStr r) h)) roots of
        None \<Rightarrow> None
      | Some r \<Rightarrow> map_option (\<lambda>t. (r, t)) (latestForIssueRoot (JStr r) h))"

definition relaunch_gate :: "history \<Rightarrow> string list \<Rightarrow> jsval \<Rightarrow> unit ares" where
  "relaunch_gate h roots override =
     (case prior_terminal h roots of
        Some (rt, t) \<Rightarrow>
          if override \<noteq> JBool True
          then Inl (ApiError 409 (''relaunch of '' @ quoted rt @ '' refused: its prior incarnation ('' @ quoted (js_str (tr_sprintId t))
                 @ '') ended with '' @ quoted (js_str (coalesce (tr_terminalReason t) (coalesce (tr_reason t) (tr_event t)))))
                 (Some ''issue''))
          else Inr ()
      | None \<Rightarrow> Inr ())"

definition requested_backlog :: "role_map option \<Rightarrow> string list" where
  "requested_backlog rm =
     (let raw = (case rm of None \<Rightarrow> JUndef | Some m \<Rightarrow> (case map_of m ROLE_BACKLOG of None \<Rightarrow> JUndef | Some v \<Rightarrow> v));
          items = (case raw of JArr xs \<Rightarrow> xs | _ \<Rightarrow> if nullish raw then [] else [raw])
      in filter (\<lambda>s. s \<noteq> []) (map (\<lambda>x. case x of JStr s \<Rightarrow> js_trim s | _ \<Rightarrow> []) items))"

definition pin_role_map :: "string option \<Rightarrow> role_map option \<Rightarrow> role_map option \<Rightarrow> role_map option ares" where
  "pin_role_map pin rm child =
     (case pin of
        None \<Rightarrow> Inr child
      | Some n \<Rightarrow>
          (let requested = requested_backlog rm in
           if requested = []
           then Inr (Some (AList.update ROLE_BACKLOG (JArr [JStr n]) (case child of None \<Rightarrow> [] | Some m \<Rightarrow> m)))
           else if \<not> list_all (\<lambda>m. m = n) requested
           then Inl (ApiError 400 (''[Arg Contract] roleMap.backlog must be the backlog member '' @ quoted n) (Some ''roleMap''))
           else Inr child))"

subsection \<open>Launching: the two steps\<close>

record launch_plan =
  pl_req :: launch_req
  pl_union :: "string list"
  pl_roleMap :: "role_map option"
  pl_warnings :: "string list"

definition launch_check :: "launch_env \<Rightarrow> jsval \<Rightarrow> controller \<Rightarrow> launch_plan ares" where
  "launch_check env body st =
     ebind (validateLaunchRequest body) (\<lambda>req.
     ebind (launch_roleMap env (jfield body ''roleMap'')) (\<lambda>maps.
     ebind (pinned_backlog (nv_backlog env)) (\<lambda>pin.
     ebind (read_members env pin) (\<lambda>listed.
       let rm = fst (snd maps);
           unreservable = (case listed of None \<Rightarrow> [] | Some r \<Rightarrow> unreservableMemberNamesFromList (mr_value r));
           union = memberUnion (lr_members req) rm unreservable
       in ebind (relaunch_gate (ct_history st) (lr_issueIds req) (jfield body ''overrideRelaunchGate'')) (\<lambda>_.
          ebind (pin_role_map pin rm (case fst maps of Some m \<Rightarrow> Some m | None \<Rightarrow> rm)) (\<lambda>child.
          ebind (composeBeforeLaunch (nv_localeCompare env)
                   (case nv_guardMembers env of Inl _ \<Rightarrow> None | Inr r \<Rightarrow> Some (mr_value r))
                   (nv_beads env) (ledger_list (ct_ledger st)) union (lr_issueIds req)) (\<lambda>_.
            Inr \<lparr>pl_req = req, pl_union = union, pl_roleMap = child, pl_warnings = snd (snd maps)\<rparr>)))))))"

record launched =
  ln_sprintId :: string
  ln_pid :: int
  ln_port :: int
  ln_logPath :: string
  ln_issueRoots :: "string list"
  ln_members :: "string list"
  ln_goal :: jsval
  ln_buildVersionWarning :: "string option"
  ln_warnings :: "string list"

definition spawn_opts :: "string \<Rightarrow> launch_plan \<Rightarrow> jsval \<Rightarrow> sprint_opts" where
  "spawn_opts sprintId pl body =
     \<lparr>so_issue = JStr (lr_issue (pl_req pl)), so_members = JStr (join_strings '','' (lr_members (pl_req pl))),
      so_branch = JStr (lr_branch (pl_req pl)), so_base = JStr (lr_base (pl_req pl)),
      so_goal = jfield body ''goal'', so_maxCycles = jfield body ''maxCycles'',
      so_allowMissingMembers = jfield body ''allowMissingMembers'',
      so_requirementsFile = jfield body ''requirementsFile'',
      so_roleMap = (case pl_roleMap pl of None \<Rightarrow> JUndef | Some m \<Rightarrow> JObj m),
      so_budget = jfield body ''budget'', so_viewerPort = JUndef, so_serviceUrl = JUndef, so_runId = JStr sprintId,
      so_expectBeads = JUndef, so_extraArgs = JUndef, so_skipRegression = JBool (lr_skipRegression (pl_req pl))\<rparr>"

definition or_empty_str :: "jsval \<Rightarrow> jsval" where
  "or_empty_str v = (if truthy v then v else JStr [])"

definition toBeadsSummary :: "jsval \<Rightarrow> jsval" where
  "toBeadsSummary i =
     (if \<not> truthy i then JNull
      else JObj [(''dir'', or_empty_str (jfield i ''beadsDir'')), (''prefix'', or_empty_str (jfield i ''prefix'')),
                 (''syncRemote'', or_empty_str (jfield i ''syncRemote'')), (''repoRemote'', or_empty_str (jfield i ''repoRemote''))])"

definition claim_input :: "launch_env \<Rightarrow> launch_plan \<Rightarrow> jsval \<Rightarrow> spawned \<Rightarrow> jsval" where
  "claim_input env pl body d =
     JObj [(''members'', JArr (map JStr (pl_union pl))), (''issueRoots'', JArr (map JStr (lr_issueIds (pl_req pl)))),
           (''childPid'', JInt (sd_pid d)), (''logPath'', JStr (sd_logPath d)),
           (''branch'', JStr (lr_branch (pl_req pl))), (''base'', JStr (lr_base (pl_req pl))),
           (''goal'', coalesce (jfield body ''goal'') JNull), (''beads'', toBeadsSummary (nv_identity env))]"

definition build_version_warning :: "string option \<Rightarrow> string option \<Rightarrow> string option" where
  "build_version_warning stamped cur =
     (case (stamped, cur) of
        (Some a, Some b) \<Rightarrow>
          if a \<noteq> b then Some (''running supervisor build ('' @ a @ '') differs from the on-disk build ('' @ b @ '')'') else None
      | _ \<Rightarrow> None)"

definition launch_commit :: "launch_env \<Rightarrow> jsval \<Rightarrow> launch_plan \<Rightarrow> controller \<Rightarrow> launched ares \<times> controller" where
  "launch_commit env body pl st =
     (let sprintId = defaultGenerateSprintId (nv_sha256hex env) (nv_uuid env) (lr_issue (pl_req pl)) in
      case spawnSprint (nv_sha256hex env) (nv_dataDir env) sprintId (nv_mkdir env) (nv_open env) (nv_spawn env)
             (nv_portFree env) (nv_basePort env) (spawn_opts sprintId pl body) (ct_spawner st) of
        (Inl e, sw) \<Rightarrow>
          (Inl (ApiError 500 (''sprint launch failed at step spawn sprint child: '' @ error_text e) None), st\<lparr>ct_spawner := sw\<rparr>)
      | (Inr d, sw) \<Rightarrow>
          (case ledger_claim (nv_io env) (nv_client env) (nv_now env) (JStr sprintId) (claim_input env pl body d) (ct_ledger st) of
             (Inl e, l) \<Rightarrow> (Inl (Bubbled e), st\<lparr>ct_spawner := sw, ct_ledger := l\<rparr>)
           | (Inr _, l) \<Rightarrow>
               (Inr \<lparr>ln_sprintId = sprintId, ln_pid = sd_pid d, ln_port = sd_port d, ln_logPath = sd_logPath d,
                     ln_issueRoots = lr_issueIds (pl_req pl), ln_members = pl_union pl,
                     ln_goal = coalesce (jfield body ''goal'') JNull,
                     ln_buildVersionWarning = build_version_warning (nv_stampedBuild env) (nv_currentBuild env),
                     ln_warnings = pl_warnings pl\<rparr>,
                st\<lparr>ct_spawner := sw, ct_ledger := l\<rparr>)))"

text \<open>A launch that is not interleaved with another one.\<close>

definition launch :: "launch_env \<Rightarrow> jsval \<Rightarrow> controller \<Rightarrow> launched ares \<times> controller" where
  "launch env body st =
     (case launch_check env body st of
        Inl e \<Rightarrow> (Inl e, st)
      | Inr pl \<Rightarrow> launch_commit env body pl st)"

subsection \<open>The other endpoints\<close>

text \<open>
  The member list with the reservation overlay: the first ledger reservation of a name wins, then the server's
  own record.
\<close>

fun first_holder :: "string \<Rightarrow> (string \<times> reservation) list \<Rightarrow> string option" where
  "first_holder m [] = None"
| "first_holder m ((sid, r) # rs) = (if m \<in> set (members r) then Some sid else first_holder m rs)"

definition overlay_member :: "(string \<times> reservation) list \<Rightarrow> jsval \<Rightarrow> jsval" where
  "overlay_member active m =
     (let b = (case m of JStr s \<Rightarrow> [(''name'', JStr s)]
               | _ \<Rightarrow> (case object_entries m of Inl _ \<Rightarrow> [] | Inr es \<Rightarrow> es));
          holder = (case jfield (JObj b) ''name'' of
                      JStr n \<Rightarrow> (case first_holder n active of None \<Rightarrow> JUndef | Some sid \<Rightarrow> JStr sid)
                    | _ \<Rightarrow> JUndef);
          sid = coalesce (coalesce holder (jfield (JObj b) ''reservedBy'')) JNull
      in JObj (AList.update ''reservedBy'' sid (AList.update ''reserved'' (JBool (\<not> nullish sid)) b)))"

definition members_endpoint :: "jsval \<Rightarrow> controller \<Rightarrow> jsval" where
  "members_endpoint raw st =
     JObj [(''members'', JArr (map (overlay_member (ledger_list (ct_ledger st))) (member_rows raw)))]"

definition js_freshness :: "jsval \<times> jsval \<Rightarrow> jsval" where
  "js_freshness f = JObj [(''lastSyncedAt'', fst f), (''ageSeconds'', snd f)]"

definition backlog_endpoint :: "(jsval \<Rightarrow> int option) \<Rightarrow> int \<Rightarrow> jsval \<Rightarrow> controller \<Rightarrow> jsval" where
  "backlog_endpoint date_ms date_now result st =
     JObj (AList.update ''scopeFreshness'' (js_freshness (getScopeFreshness date_ms None date_now (ct_ledger st)))
             (case object_entries result of Inl _ \<Rightarrow> [] | Inr es \<Rightarrow> es))"

definition resolvePort :: "controller \<Rightarrow> int option \<Rightarrow> int option" where
  "resolvePort st pid =
     (case pid of None \<Rightarrow> None | Some p \<Rightarrow> map_option le_port (getLiveEntry p (ct_spawner st)))"

definition js_of_port :: "int option \<Rightarrow> jsval" where
  "js_of_port = js_of_pid"

definition listSprints :: "(jsval \<Rightarrow> int option) \<Rightarrow> int \<Rightarrow> controller \<Rightarrow> jsval" where
  "listSprints date_ms date_now st =
     JObj [(''sprints'', JArr (map (\<lambda>(sid, r).
              JObj [(''sprintId'', JStr sid), (''members'', JArr (map JStr (members r))),
                    (''issueRoots'', JArr (map JStr (issueRoots r))), (''childPid'', js_of_pid (childPid r)),
                    (''port'', js_of_port (resolvePort st (childPid r)))]) (ledger_list (ct_ledger st)))),
           (''scopeFreshness'', js_freshness (getScopeFreshness date_ms None date_now (ct_ledger st)))]"

text \<open>What a state or stop request did: the answer, and the port of the child that was contacted, if any.\<close>

definition getSprint ::
  "(string \<Rightarrow> string option \<Rightarrow> jsval) \<Rightarrow> (int \<Rightarrow> jsval res) \<Rightarrow> string \<Rightarrow> controller \<Rightarrow> jsval ares \<times> int option"
where
  "getSprint hasTerminalState proxyState i st =
     (let historical =
        (case history_latestFor (JStr i) (ct_history st) of
           Some latest \<Rightarrow>
             Inr (JObj [(''sprintId'', JStr i), (''live'', JBool False),
                        (''history'', JArr (map js_of_event (history_forSprint (JStr i) (ct_history st)))),
                        (''latest'', js_of_event latest)])
         | None \<Rightarrow> Inl (ApiError 404 (''no sprint '' @ quoted i @ '' is live or in history'') None))
      in case ledger_get i (ct_ledger st) of
           None \<Rightarrow> (historical, None)
         | Some r \<Rightarrow>
             (let terminal = hasTerminalState i (branch r) in
              if truthy terminal
              then (Inr (JObj [(''sprintId'', JStr i), (''live'', JBool False), (''terminal'', JBool True), (''state'', terminal)]), None)
              else case resolvePort st (childPid r) of
                     None \<Rightarrow> (historical, None)
                   | Some port \<Rightarrow>
                       (case proxyState port of
                          Inl e \<Rightarrow> Inl (Bubbled e)
                        | Inr state \<Rightarrow> Inr (JObj [(''sprintId'', JStr i), (''live'', JBool True), (''state'', state)]),
                        Some port)))"

definition stopSprint ::
  "(string \<Rightarrow> string option \<Rightarrow> jsval) \<Rightarrow> (int \<Rightarrow> jsval res) \<Rightarrow> string \<Rightarrow> controller \<Rightarrow> jsval ares \<times> int option"
where
  "stopSprint hasTerminalState proxyStop i st =
     (case ledger_get i (ct_ledger st) of
        None \<Rightarrow> (Inl (ApiError 404 (''no live sprint '' @ quoted i @ '' to stop'') None), None)
      | Some r \<Rightarrow>
          if truthy (hasTerminalState i (branch r))
          then (Inr (JObj [(''sprintId'', JStr i), (''status'', JStr ''already-terminal''), (''child'', JNull)]), None)
          else (case resolvePort st (childPid r) of
                  None \<Rightarrow> (Inl (ApiError 409 (''sprint '' @ quoted i @ '' has no reachable child (port unknown)'') None), None)
                | Some port \<Rightarrow>
                    (case proxyStop port of
                       Inl e \<Rightarrow> Inl (Bubbled e)
                     | Inr result \<Rightarrow> Inr (JObj [(''sprintId'', JStr i), (''status'', JStr ''stopping''), (''child'', coalesce result JNull)]),
                     Some port)))"

subsection \<open>Routes\<close>

text \<open>An \<^verbatim>\<open>ApiError\<close> is answered with its status; any other error is passed on to the server.\<close>

definition onApiError :: "api_error \<Rightarrow> reply res" where
  "onApiError e =
     (case e of
        ApiError status msg fld \<Rightarrow>
          Inr (status, JObj ((''error'', JStr msg) # (case fld of Some (c # f) \<Rightarrow> [(''field'', JStr (c # f))] | _ \<Rightarrow> [])))
      | Bubbled err \<Rightarrow> Inl err)"

definition js_of_launched :: "launched \<Rightarrow> jsval" where
  "js_of_launched r =
     JObj [(''sprintId'', JStr (ln_sprintId r)), (''pid'', JInt (ln_pid r)), (''port'', JInt (ln_port r)),
           (''logPath'', JStr (ln_logPath r)), (''issueRoots'', JArr (map JStr (ln_issueRoots r))),
           (''members'', JArr (map JStr (ln_members r))), (''goal'', ln_goal r),
           (''buildVersionWarning'', js_of_opt (ln_buildVersionWarning r)), (''warnings'', JArr (map JStr (ln_warnings r)))]"

definition launch_route :: "launch_env \<Rightarrow> jsval \<Rightarrow> controller \<Rightarrow> reply res \<times> controller" where
  "launch_route env body st =
     (case launch env (body_or_empty body) st of
        (Inr r, st1) \<Rightarrow> (Inr (201, js_of_launched r), st1)
      | (Inl e, st1) \<Rightarrow> (onApiError e, st1))"

definition sprint_route :: "jsval ares \<Rightarrow> reply res" where
  "sprint_route answer = (case answer of Inr v \<Rightarrow> Inr (200, v) | Inl e \<Rightarrow> onApiError e)"

end
