(* ===== verification/Launch_Correct.thy ===== *)
theory Launch_Correct
  imports Launch
begin

section \<open>Correctness of the sprint controller\<close>

text \<open>
  The properties of \<open>Launch\<close>: the member guard is exact, an accepted launch keeps members and issue scopes
  partitioned between the sprints, the relaunch gate refuses deterministic failures, generated ids fit where they
  are used, the backlog pin reaches the child; and what goes wrong when launches overlap, when the claim fails
  after the spawn, and when the pin meets the deprecated alias.
\<close>

subsection \<open>The member guard\<close>

lemma update_neq_Nil [simp]: "AList.update k v m \<noteq> []"
  by (induction m) auto

lemma addConflict_Nil: "addConflict s m cs = [] \<longleftrightarrow> \<not> truthy s \<and> cs = []"
  by (simp add: addConflict_def Let_def)

lemma fold_addConflict_Nil: "fold (addConflict s) ms cs = [] \<longleftrightarrow> cs = [] \<and> (ms = [] \<or> \<not> truthy s)"
  by (induction ms arbitrary: cs) (auto simp: addConflict_Nil)

lemma ledger_conflicts_Nil:
  "ledger_conflicts request rs cs = [] \<longleftrightarrow>
     cs = [] \<and> (\<forall>(sid, r)\<in>set rs. sid \<noteq> [] \<longrightarrow> set (members r) \<inter> set request = {})"
  by (induction request rs cs rule: ledger_conflicts.induct) (auto simp: fold_addConflict_Nil filter_empty_conv)

text \<open>A row of the server's list that says another sprint holds a requested member.\<close>

definition server_held :: "string list \<Rightarrow> jsval \<Rightarrow> bool" where
  "server_held request m \<longleftrightarrow> is_object m \<and> \<not> truthy (jfield m ''unreservable'') \<and> truthy (jfield m ''reservedBy'') \<and>
     (\<exists>n\<in>set request. n \<noteq> [] \<and> jfield m ''name'' = JStr n)"

lemma server_conflicts_Nil:
  "server_conflicts request ms cs = [] \<longleftrightarrow> cs = [] \<and> (\<forall>m\<in>set ms. \<not> server_held request m)"
proof (induction request ms cs rule: server_conflicts.induct)
  case (2 request m ms cs)
  show ?case
    unfolding server_conflicts.simps 2
    by (cases "jfield m ''name''") (auto simp: server_held_def addConflict_Nil)
qed simp

lemma guard_conflicts_Nil:
  "guard_conflicts active request fetched = [] \<longleftrightarrow>
     (\<forall>(sid, r)\<in>set active. sid \<noteq> [] \<longrightarrow> set (members r) \<inter> set request = {}) \<and>
     (\<forall>raw. fetched = Some raw \<longrightarrow> (\<forall>m\<in>set (member_rows raw). \<not> server_held request m))"
  by (cases fetched) (auto simp: guard_conflicts_def ledger_conflicts_Nil server_conflicts_Nil)

lemma guard_Inr:
  "defaultMemberOverlapGuard cmp active request fetched = Inr () \<longleftrightarrow> guard_conflicts active request fetched = []"
  by (simp add: defaultMemberOverlapGuard_def Let_def)

text \<open>
  The member guard is exact. A launch passes it exactly if no requested member is held by a
  reservation of the ledger and no row of the server's member list, when one could be read, says that another
  sprint holds a requested, reservable member; otherwise the answer is 409 on the members field.
\<close>

theorem member_guard_exact:
  "(if list_all (\<lambda>(sid, r). sid = [] \<or> set (members r) \<inter> set request = {}) active \<and>
       (case fetched of None \<Rightarrow> True | Some raw \<Rightarrow> list_all (\<lambda>m. \<not> server_held request m) (member_rows raw))
    then defaultMemberOverlapGuard cmp active request fetched = Inr ()
    else \<exists>msg. defaultMemberOverlapGuard cmp active request fetched = Inl (ApiError 409 msg (Some ''members'')))"
proof (cases "guard_conflicts active request fetched = []")
  case True
  then have "defaultMemberOverlapGuard cmp active request fetched = Inr ()" by (simp add: guard_Inr)
  with True show ?thesis unfolding guard_conflicts_Nil by (auto split: option.splits simp: list_all_iff)
next
  case False
  then have "\<exists>msg. defaultMemberOverlapGuard cmp active request fetched = Inl (ApiError 409 msg (Some ''members''))"
    by (simp add: defaultMemberOverlapGuard_def Let_def)
  with False show ?thesis unfolding guard_conflicts_Nil by (auto split: option.splits simp: list_all_iff)
qed

subsection \<open>What a launch does to the reservations\<close>

definition members_disjoint :: "(string, reservation) jsmap \<Rightarrow> bool" where
  "members_disjoint m \<longleftrightarrow>
     (\<forall>s t a b. map_of m s = Some a \<and> map_of m t = Some b \<and> s \<noteq> t \<longrightarrow> set (members a) \<inter> set (members b) = {})"

definition scopes_disjoint :: "bead list \<Rightarrow> (string, reservation) jsmap \<Rightarrow> bool" where
  "scopes_disjoint bs m \<longleftrightarrow>
     (\<forall>s t a b. map_of m s = Some a \<and> map_of m t = Some b \<and> s \<noteq> t \<longrightarrow>
        subtree bs (issueRoots a) \<inter> subtree bs (issueRoots b) = {})"

text \<open>
  Both are one instance of pairwise disjointness of what reservations cover; a new entry that meets no old one
  keeps it.
\<close>

definition covers_disjoint :: "(reservation \<Rightarrow> 'a set) \<Rightarrow> (string, reservation) jsmap \<Rightarrow> bool" where
  "covers_disjoint cover m \<longleftrightarrow>
     (\<forall>s t a b. map_of m s = Some a \<and> map_of m t = Some b \<and> s \<noteq> t \<longrightarrow> cover a \<inter> cover b = {})"

lemma members_disjoint_covers: "members_disjoint = covers_disjoint (\<lambda>r. set (members r))"
  by (simp add: fun_eq_iff members_disjoint_def covers_disjoint_def)

lemma scopes_disjoint_covers: "scopes_disjoint bs = covers_disjoint (\<lambda>r. subtree bs (issueRoots r))"
  by (simp add: fun_eq_iff scopes_disjoint_def covers_disjoint_def)

lemma covers_disjoint_snoc:
  assumes "covers_disjoint cover m" "map_of m k = None"
    and "\<And>s a. map_of m s = Some a \<Longrightarrow> cover a \<inter> cover r = {}"
  shows "covers_disjoint cover (m @ [(k, r)])"
  unfolding covers_disjoint_def
proof (intro allI impI)
  fix s t a b
  assume h: "map_of (m @ [(k, r)]) s = Some a \<and> map_of (m @ [(k, r)]) t = Some b \<and> s \<noteq> t"
  have new: "map_of (m @ [(k, r)]) x = Some c \<Longrightarrow> map_of m x = Some c \<or> (x = k \<and> c = r)" for x c
    by (auto simp: map_add_def split: option.splits if_splits)
  from new [of s a] new [of t b] h assms(1) assms(3) [of s a] assms(3) [of t b]
  show "cover a \<inter> cover b = {}" unfolding covers_disjoint_def by (metis inf_commute)
qed

lemma toStringArray_names:
  "toStringArray (JArr (map JStr xs)) l = Inr ys \<Longrightarrow> set ys = set xs"
  using dedup_strings_spec [of l "map JStr xs" "[]" ys]
  by (auto simp: toStringArray_def name_list_ok_def)

lemma claim_input_normal:
  assumes "normalizeReservation now (claim_input env pl body d) = Inr r"
  shows "set (members r) = set (pl_union pl)" "set (issueRoots r) = set (lr_issueIds (pl_req pl))"
    "childPid r = Some (sd_pid d)" "branch r = Some (lr_branch (pl_req pl))"
  using assms toStringArray_names
  by (auto simp: normalizeReservation_def claim_input_def ebind_eq_Inr toNullableInt_def toNullableString_def)

lemma subtree_cong: "set rs = set ss \<Longrightarrow> subtree bs rs = subtree bs ss"
  by (simp add: subtree_def)

lemma compose_Inr:
  assumes "composeBeforeLaunch cmp fetched (Inr raw) active ms roots = Inr ()"
  shows "guard_conflicts active ms fetched = []"
    "(sid, r) \<in> set active \<Longrightarrow> subtree (normalize_rows raw) roots \<inter> subtree (normalize_rows raw) (issueRoots r) = {}"
proof -
  let ?bs = "normalize_rows raw"
  let ?idx = "buildChildIndex ?bs"
  from assms obtain lc where g: "defaultMemberOverlapGuard cmp active ms fetched = Inr ()"
    and c: "checkLaunch (Inr raw) active (JArr (map JStr roots)) None = Inr lc" "lc_ok lc"
    by (auto simp: composeBeforeLaunch_def ebind_eq_Inr split: sum.splits js_error.splits if_splits)
  from g show "guard_conflicts active ms fetched = []" by (simp add: guard_Inr)
  from c obtain rs where "emap validateIssueId (map JStr roots) = Inr rs"
    "find_conflicts ?idx (expandScopeInMemory rs ?idx) None active = []"
    by (auto simp: checkLaunch_def rows_of_def ebind_eq_Inr Let_def split: if_splits)
  moreover from this(1) have "rs = roots" using emap_validate [of "map JStr roots" rs] by (simp add: inj_map_eq_map inj_def)
  ultimately show "(sid, r) \<in> set active \<Longrightarrow> subtree ?bs roots \<inter> subtree ?bs (issueRoots r) = {}"
    by (auto simp: find_conflicts_Nil expandScope_subtree)
qed

lemma launch_checkE:
  assumes "launch_check env body st = Inr pl"
  obtains "validateLaunchRequest body = Inr (pl_req pl)"
    "relaunch_gate (ct_history st) (lr_issueIds (pl_req pl)) (jfield body ''overrideRelaunchGate'') = Inr ()"
    "composeBeforeLaunch (nv_localeCompare env) (case nv_guardMembers env of Inl _ \<Rightarrow> None | Inr r \<Rightarrow> Some (mr_value r))
       (nv_beads env) (ledger_list (ct_ledger st)) (pl_union pl) (lr_issueIds (pl_req pl)) = Inr ()"
  using assms unfolding launch_check_def ebind_eq_Inr Let_def by auto

lemma launch_commit_Inr:
  assumes "launch_commit env body pl st = (Inr r, st')" "ledger_inv (ct_ledger st)"
  obtains x where "map_of (reservations (ct_ledger st)) (ln_sprintId r) = None" "ln_sprintId r \<noteq> []"
    "reservations (ct_ledger st') = reservations (ct_ledger st) @ [(ln_sprintId r, x)]"
    "set (members x) = set (pl_union pl)" "set (issueRoots x) = set (lr_issueIds (pl_req pl))"
    "childPid x = Some (ln_pid r)" "ln_members r = pl_union pl" "ln_issueRoots r = lr_issueIds (pl_req pl)"
    "getLiveEntry (ln_pid r) (ct_spawner st') = Some \<lparr>le_port = ln_port r, le_logPath = Some (ln_logPath r)\<rparr>"
    "ct_history st' = ct_history st" "ledger_inv (ct_ledger st')"
proof -
  let ?id = "defaultGenerateSprintId (nv_sha256hex env) (nv_uuid env) (lr_issue (pl_req pl))"
  obtain o1 sw where sp0: "spawnSprint (nv_sha256hex env) (nv_dataDir env) ?id (nv_mkdir env) (nv_open env) (nv_spawn env)
             (nv_portFree env) (nv_basePort env) (spawn_opts ?id pl body) (ct_spawner st) = (o1, sw)"
    by (metis surj_pair)
  with assms(1) obtain d where d: "o1 = Inr d" by (cases o1) (simp_all add: launch_commit_def)
  note sp = sp0 [unfolded d]
  obtain o2 l where cl0: "ledger_claim (nv_io env) (nv_client env) (nv_now env) (JStr ?id) (claim_input env pl body d) (ct_ledger st) = (o2, l)"
    by (metis surj_pair)
  with assms(1) sp obtain y where y: "o2 = Inr y" by (cases o2) (simp_all add: launch_commit_def)
  note cl = cl0 [unfolded y]
  have st': "st' = st\<lparr>ct_spawner := sw, ct_ledger := l\<rparr>"
    and r: "ln_sprintId r = ?id" "ln_pid r = sd_pid d" "ln_port r = sd_port d" "ln_logPath r = sd_logPath d"
      "ln_members r = pl_union pl" "ln_issueRoots r = lr_issueIds (pl_req pl)"
    using assms(1) sp cl by (auto simp: launch_commit_def)
  obtain sid where s: "JStr ?id = JStr sid" "sid \<noteq> []" "map_of (reservations (ct_ledger st)) sid = None"
    "normalizeReservation (nv_now env) (if claim_input env pl body d = JUndef then JObj [] else claim_input env pl body d) = Inr y"
    "reservations l = reservations (ct_ledger st) @ [(sid, y)]"
    by (rule ledger_claim_Inr [OF assms(2) cl])
  then have "normalizeReservation (nv_now env) (claim_input env pl body d) = Inr y" by (simp add: claim_input_def)
  note n = claim_input_normal [OF this]
  have sid: "sid = ln_sprintId r" using s(1) r(1) by simp
  have inv: "ledger_inv l" using ledger_claim_inv [OF assms(2)] cl by (metis snd_conv)
  have live: "getLiveEntry (ln_pid r) sw = Some \<lparr>le_port = ln_port r, le_logPath = Some (ln_logPath r)\<rparr>"
    using spawn_finish_Inr(4) [OF sp [unfolded spawnSprint_def]] r by (simp add: getLiveEntry_def)
  show ?thesis
  proof (rule that [of y])
    show "map_of (reservations (ct_ledger st)) (ln_sprintId r) = None" using s(3) unfolding sid .
    show "ln_sprintId r \<noteq> []" using s(2) unfolding sid .
    show "reservations (ct_ledger st') = reservations (ct_ledger st) @ [(ln_sprintId r, y)]" using s(5) st' unfolding sid by simp
    show "childPid y = Some (ln_pid r)" using n(3) r(2) by simp
  qed (use n(1,2) r(5,6) st' live inv in simp_all)
qed

text \<open>
  Property C11. A launch that runs alone keeps the fleet partitioned. If the reservations are pairwise disjoint
  in members and in the beads their roots reach, they are so after an accepted launch; the new reservation
  covers exactly the members and roots reported and names the child that runs, on the port reported; every older
  reservation is unchanged.
\<close>

theorem launch_keeps_partition:
  assumes "ledger_inv (ct_ledger st)" "[] \<notin> set (jkeys (reservations (ct_ledger st)))" "nv_beads env = Inr raw"
    and "members_disjoint (reservations (ct_ledger st))"
    and "scopes_disjoint (normalize_rows raw) (reservations (ct_ledger st))"
    and "launch env body st = (Inr r, st')"
  shows "members_disjoint (reservations (ct_ledger st')) \<and>
    scopes_disjoint (normalize_rows raw) (reservations (ct_ledger st')) \<and>
    (\<forall>s a. map_of (reservations (ct_ledger st)) s = Some a \<longrightarrow> map_of (reservations (ct_ledger st')) s = Some a) \<and>
    (\<exists>x. map_of (reservations (ct_ledger st')) (ln_sprintId r) = Some x \<and> set (members x) = set (ln_members r) \<and>
       set (issueRoots x) = set (ln_issueRoots r) \<and> childPid x = Some (ln_pid r)) \<and>
    getLiveEntry (ln_pid r) (ct_spawner st') = Some \<lparr>le_port = ln_port r, le_logPath = Some (ln_logPath r)\<rparr>"
proof -
  let ?m = "reservations (ct_ledger st)" and ?bs = "normalize_rows raw"
  from assms(6) obtain pl where pl: "launch_check env body st = Inr pl" "launch_commit env body pl st = (Inr r, st')"
    by (auto simp: launch_def split: sum.splits)
  obtain fetched where g: "composeBeforeLaunch (nv_localeCompare env) fetched (Inr raw) ?m (pl_union pl) (lr_issueIds (pl_req pl)) = Inr ()"
    using launch_checkE [OF pl(1)] assms(3) ledger_list_id [OF assms(1)] by metis
  obtain x where x: "map_of ?m (ln_sprintId r) = None" "reservations (ct_ledger st') = ?m @ [(ln_sprintId r, x)]"
    "set (members x) = set (pl_union pl)" "set (issueRoots x) = set (lr_issueIds (pl_req pl))"
    "childPid x = Some (ln_pid r)" "ln_members r = pl_union pl" "ln_issueRoots r = lr_issueIds (pl_req pl)"
    "getLiveEntry (ln_pid r) (ct_spawner st') = Some \<lparr>le_port = ln_port r, le_logPath = Some (ln_logPath r)\<rparr>"
    by (rule launch_commit_Inr [OF pl(2) assms(1)])
  have mem: "set (members a) \<inter> set (members x) = {}" if "map_of ?m s = Some a" for s a
  proof -
    have "(s, a) \<in> set ?m" using that by (rule map_of_SomeD)
    moreover have "s \<noteq> []" using calculation assms(2) by force
    ultimately show ?thesis using compose_Inr(1) [OF g] x(3) unfolding guard_conflicts_Nil by auto
  qed
  have sc: "subtree ?bs (issueRoots a) \<inter> subtree ?bs (issueRoots x) = {}" if "map_of ?m s = Some a" for s a
    using compose_Inr(2) [OF g map_of_SomeD [OF that]] subtree_cong [OF x(4)] by auto
  have "members_disjoint (reservations (ct_ledger st'))"
    unfolding x(2) members_disjoint_covers
    by (rule covers_disjoint_snoc [OF _ x(1)]) (use assms(4) mem in \<open>auto simp: members_disjoint_covers\<close>)
  moreover have "scopes_disjoint ?bs (reservations (ct_ledger st'))"
    unfolding x(2) scopes_disjoint_covers
    by (rule covers_disjoint_snoc [OF _ x(1)]) (use assms(5) sc in \<open>simp_all add: scopes_disjoint_covers\<close>)
  moreover have "map_of (reservations (ct_ledger st')) s = Some a" if "map_of ?m s = Some a" for s a
    using that x(1) unfolding x(2) by (auto simp: map_add_def split: option.splits)
  moreover have "map_of (reservations (ct_ledger st')) (ln_sprintId r) = Some x"
    using x(1) unfolding x(2) by (simp add: map_add_def)
  ultimately show ?thesis using x by auto
qed

definition demo_env :: launch_env where
  "demo_env =
     \<lparr>nv_parse = (\<lambda>_. None), nv_backlog = None,
      nv_members = Inr \<lparr>mr_value = JArr [], mr_stopped = None, mr_unavailable = None\<rparr>,
      nv_guardMembers = Inr \<lparr>mr_value = JArr [], mr_stopped = None, mr_unavailable = None\<rparr>,
      nv_beads = Inr demo_rows, nv_localeCompare = (\<lambda>_ _. 0), nv_sha256hex = (\<lambda>_. ''abcdef0''), nv_uuid = ''u1'',
      nv_dataDir = ''/d'', nv_mkdir = None, nv_open = None, nv_spawn = Spawned 9, nv_portFree = (\<lambda>_. True),
      nv_basePort = JInt 5, nv_stampedBuild = None, nv_currentBuild = None, nv_io = io_ok, nv_client = False,
      nv_now = ''t'', nv_identity = JNull\<rparr>"

definition demo_body :: "string \<Rightarrow> jsval \<Rightarrow> jsval" where
  "demo_body issue gl = JObj [(''issue'', JStr issue), (''branch'', JStr ''feat''), (''base'', JStr ''main''),
     (''members'', JArr [JStr ''m9'']), (''goal'', gl)]"

definition demo_ctl :: controller where
  "demo_ctl = \<lparr>ct_ledger = empty_ledger, ct_history = empty_history, ct_spawner = new_spawner\<rparr>"

lemma demo_launch:
  "map_sum (\<lambda>_. ()) (\<lambda>r. (ln_sprintId r, ln_pid r)) (fst (launch demo_env (demo_body ''e'' JUndef) demo_ctl)) = Inr (''e-1-abcdef-u1'', 9)"
  by code_simp

theorem launch_keeps_partition_witness:
  "\<exists>r st'. launch demo_env (demo_body ''e'' JUndef) demo_ctl = (Inr r, st') \<and> ln_pid r = 9 \<and>
     members_disjoint (reservations (ct_ledger st'))"
proof -
  obtain o1 st' where l: "launch demo_env (demo_body ''e'' JUndef) demo_ctl = (o1, st')" by fastforce
  with demo_launch obtain r where r: "o1 = Inr r" "ln_pid r = 9" by (cases o1) auto
  have "members_disjoint (reservations (ct_ledger st'))"
    using launch_keeps_partition [OF _ _ _ _ _ l [unfolded r(1)], of demo_rows] empty_ledger_inv
    by (simp add: demo_ctl_def demo_env_def empty_ledger_def members_disjoint_def scopes_disjoint_def)
  with l r show ?thesis by blast
qed

text \<open>
  Property C32. Two launches that overlap can break the partition: both may pass the guards before either has
  claimed, and the ledger then accepts both claims, so two live sprints hold the same member.
\<close>

theorem launch_race_overlaps:
  assumes "ledger_inv (ct_ledger st)"
    and "launch_check envA bodyA st = Inr plA" "launch_check envB bodyB st = Inr plB"
    and "launch_commit envA bodyA plA st = (Inr a, st1)" "launch_commit envB bodyB plB st1 = (Inr b, st2)"
    and "m \<in> set (ln_members a)" "m \<in> set (ln_members b)"
  shows "\<not> members_disjoint (reservations (ct_ledger st2)) \<and> ln_sprintId a \<noteq> ln_sprintId b"
proof -
  obtain x where x: "reservations (ct_ledger st1) = reservations (ct_ledger st) @ [(ln_sprintId a, x)]"
    "set (members x) = set (pl_union plA)" "ln_members a = pl_union plA"
    "map_of (reservations (ct_ledger st)) (ln_sprintId a) = None" "ledger_inv (ct_ledger st1)"
    by (rule launch_commit_Inr [OF assms(4,1)])
  obtain y where y: "reservations (ct_ledger st2) = reservations (ct_ledger st1) @ [(ln_sprintId b, y)]"
    "set (members y) = set (pl_union plB)" "ln_members b = pl_union plB"
    "map_of (reservations (ct_ledger st1)) (ln_sprintId b) = None"
    by (rule launch_commit_Inr [OF assms(5) x(5)])
  have ne: "ln_sprintId a \<noteq> ln_sprintId b" using y(4) x(1,4) by (auto simp: map_add_def)
  have a: "map_of (reservations (ct_ledger st2)) (ln_sprintId a) = Some x"
    using x(1,4) y(1) ne by (simp add: map_add_def)
  have b: "map_of (reservations (ct_ledger st2)) (ln_sprintId b) = Some y"
    using y(1,4) by (simp add: map_add_def)
  have m: "m \<in> set (members x) \<inter> set (members y)" using assms(6,7) x(2,3) y(2,3) by simp
  have "\<not> members_disjoint (reservations (ct_ledger st2))"
  proof
    assume "members_disjoint (reservations (ct_ledger st2))"
    from this [unfolded members_disjoint_def, rule_format, OF conjI [OF a conjI [OF b ne]]] m show False by simp
  qed
  with ne show ?thesis by simp
qed

definition demo_env2 :: launch_env where
  "demo_env2 = demo_env\<lparr>nv_uuid := ''u2'', nv_spawn := Spawned 10\<rparr>"

definition demo_plan :: "string \<Rightarrow> launch_plan" where
  "demo_plan i = \<lparr>pl_req = \<lparr>lr_issue = i, lr_issueIds = [i], lr_branch = ''feat'', lr_base = ''main'', lr_members = [''m9''],
                         lr_skipRegression = False\<rparr>, pl_union = [''m9''], pl_roleMap = None, pl_warnings = []\<rparr>"

lemma demo_checks:
  "launch_check demo_env (demo_body ''e'' JUndef) demo_ctl = Inr (demo_plan ''e'')"
  "launch_check demo_env2 (demo_body ''f'' JUndef) demo_ctl = Inr (demo_plan ''f'')"
  by code_simp+

lemma demo_commits:
  "map_sum (\<lambda>_. ()) ln_members (fst (launch_commit demo_env (demo_body ''e'' JUndef) (demo_plan ''e'') demo_ctl)) = Inr [''m9'']"
  "map_sum (\<lambda>_. ()) ln_members (fst (launch_commit demo_env2 (demo_body ''f'' JUndef) (demo_plan ''f'')
     (snd (launch_commit demo_env (demo_body ''e'' JUndef) (demo_plan ''e'') demo_ctl)))) = Inr [''m9'']"
  by code_simp+

theorem launch_race_overlaps_witness:
  "\<exists>a st1 b st2. launch_commit demo_env (demo_body ''e'' JUndef) (demo_plan ''e'') demo_ctl = (Inr a, st1) \<and>
     launch_commit demo_env2 (demo_body ''f'' JUndef) (demo_plan ''f'') st1 = (Inr b, st2) \<and>
     \<not> members_disjoint (reservations (ct_ledger st2))"
proof -
  obtain o1 st1 where c1: "launch_commit demo_env (demo_body ''e'' JUndef) (demo_plan ''e'') demo_ctl = (o1, st1)" by fastforce
  obtain o2 st2 where c2: "launch_commit demo_env2 (demo_body ''f'' JUndef) (demo_plan ''f'') st1 = (o2, st2)" by fastforce
  from demo_commits c1 c2 obtain a b where "o1 = Inr a" "o2 = Inr b" "ln_members a = [''m9'']" "ln_members b = [''m9'']"
    by (cases o1; cases o2) auto
  with c1 c2 launch_race_overlaps [OF _ demo_checks, of a st1 b st2 "''m9''"] empty_ledger_inv
  show ?thesis by (auto simp: demo_ctl_def)
qed

text \<open>
  A launch whose claim fails after the spawn (an invalid goal, a full disk) answers with an error
  and leaves the child running without a reservation: the spawner holds the child, the ledger is unchanged.
\<close>

theorem launch_claim_failure_orphans:
  assumes "ledger_inv (ct_ledger st)" "launch_check env body st = Inr pl" "launch env body st = (Inl (Bubbled e), st')"
  shows "reservations (ct_ledger st') = reservations (ct_ledger st) \<and>
    (\<exists>pid. nv_spawn env = Spawned pid \<and> getLiveEntry pid (ct_spawner st') \<noteq> None)"
proof -
  let ?id = "defaultGenerateSprintId (nv_sha256hex env) (nv_uuid env) (lr_issue (pl_req pl))"
  have c: "launch_commit env body pl st = (Inl (Bubbled e), st')" using assms(2,3) by (simp add: launch_def)
  obtain o1 sw where sp: "spawnSprint (nv_sha256hex env) (nv_dataDir env) ?id (nv_mkdir env) (nv_open env) (nv_spawn env)
             (nv_portFree env) (nv_basePort env) (spawn_opts ?id pl body) (ct_spawner st) = (o1, sw)"
    by (metis surj_pair)
  with c obtain d where d: "o1 = Inr d" by (cases o1) (simp_all add: launch_commit_def)
  obtain o2 l where cl: "ledger_claim (nv_io env) (nv_client env) (nv_now env) (JStr ?id) (claim_input env pl body d) (ct_ledger st) = (o2, l)"
    by (metis surj_pair)
  have o2: "o2 = Inl e" and st': "st' = st\<lparr>ct_spawner := sw, ct_ledger := l\<rparr>"
    using c sp d cl by (auto simp: launch_commit_def split: sum.splits)
  note f = spawn_finish_Inr [OF sp [unfolded d spawnSprint_def]]
  have "getLiveEntry (sd_pid d) sw \<noteq> None" using f(4) by (simp add: getLiveEntry_def)
  with f(2) ledger_claim_Inl [OF assms(1) cl [unfolded o2]] show ?thesis unfolding st' by simp
qed

theorem launch_claim_failure_orphans_witness:
  "\<exists>e st'. launch demo_env (demo_body ''e'' (JInt 3)) demo_ctl = (Inl (Bubbled e), st') \<and>
     reservations (ct_ledger st') = [] \<and> getLiveEntry 9 (ct_spawner st') \<noteq> None"
proof -
  obtain o1 st' where l: "launch demo_env (demo_body ''e'' (JInt 3)) demo_ctl = (o1, st')" by fastforce
  have "case fst (launch demo_env (demo_body ''e'' (JInt 3)) demo_ctl) of Inl (Bubbled e) \<Rightarrow> True | _ \<Rightarrow> False" by code_simp
  with l obtain e where e: "o1 = Inl (Bubbled e)" by (cases o1) (auto split: api_error.splits)
  have c: "launch_check demo_env (demo_body ''e'' (JInt 3)) demo_ctl = Inr (demo_plan ''e'')" by code_simp
  have "ledger_inv (ct_ledger demo_ctl)" using empty_ledger_inv by (simp add: demo_ctl_def)
  from launch_claim_failure_orphans [OF this c l [unfolded e]] l e show ?thesis
    by (auto simp: demo_ctl_def demo_env_def empty_ledger_def)
qed

text \<open>
  A sprint whose last recorded end is deterministic is not relaunched: unless the request carries the
  explicit override, a launch that names one of its roots is refused and nothing is spawned, claimed or recorded.
\<close>

theorem relaunch_refused:
  assumes "validateLaunchRequest body = Inr req" "i \<in> set (lr_issueIds req)"
    and "isDeterministicTerminalReason (latestForIssueRoot (JStr i) (ct_history st))"
    and "jfield body ''overrideRelaunchGate'' \<noteq> JBool True"
  shows "\<exists>e. launch env body st = (Inl e, st)"
proof (cases "launch_check env body st")
  case (Inr pl)
  from launch_checkE [OF this] assms(1) have gate: "relaunch_gate (ct_history st) (lr_issueIds req) (jfield body ''overrideRelaunchGate'') = Inr ()"
    by (metis Inr_inject)
  have "find (\<lambda>r. isDeterministicTerminalReason (latestForIssueRoot (JStr r) (ct_history st))) (lr_issueIds req) \<noteq> None"
    using assms(2,3) by (auto simp: find_None_iff)
  then obtain r where r: "find (\<lambda>r. isDeterministicTerminalReason (latestForIssueRoot (JStr r) (ct_history st))) (lr_issueIds req) = Some r"
    by blast
  then have "isDeterministicTerminalReason (latestForIssueRoot (JStr r) (ct_history st))" by (auto simp: find_Some_iff)
  then obtain t where "latestForIssueRoot (JStr r) (ct_history st) = Some t"
    by (cases "latestForIssueRoot (JStr r) (ct_history st)") (auto simp: isDeterministicTerminalReason_def)
  with r gate assms(4) show ?thesis by (simp add: relaunch_gate_def prior_terminal_def)
qed (simp add: launch_def)

definition demo_failed :: history where
  "demo_failed = empty_history\<lparr>events :=
     [\<lparr>ev_sprintId = JStr ''s0'', ev_event = JStr ''launch-failed'', ev_reason = JNull, ev_by = JNull, ev_members = [],
       ev_issueRoots = [JStr ''e''], ev_at = JStr ''t'', ev_exitCode = JNull, ev_signal = JNull, ev_logPath = JNull,
       ev_terminalReason = JNull, ev_verdict = JNull\<rparr>]\<rparr>"

theorem relaunch_refused_witness:
  "\<exists>e. launch demo_env (demo_body ''e'' JUndef) (demo_ctl\<lparr>ct_history := demo_failed\<rparr>) = (Inl e, demo_ctl\<lparr>ct_history := demo_failed\<rparr>)"
proof (rule relaunch_refused)
  show "validateLaunchRequest (demo_body ''e'' JUndef) = Inr (pl_req (demo_plan ''e''))" by code_simp
  show "isDeterministicTerminalReason (latestForIssueRoot (JStr ''e'') (ct_history (demo_ctl\<lparr>ct_history := demo_failed\<rparr>)))"
    by code_simp
qed (simp_all add: demo_plan_def demo_body_def jfield_def)

subsection \<open>Sprint ids\<close>

lemma show_nat_length: "n < 10 ^ k \<Longrightarrow> 0 < k \<Longrightarrow> length (show_nat n) \<le> k"
proof (induction k arbitrary: n)
  case (Suc k)
  show ?case
  proof (cases "n < 10")
    case False
    then have "0 < k" using Suc.prems(1) by (cases k) auto
    moreover have "n div 10 < 10 ^ k" using Suc.prems(1) by (simp add: less_mult_imp_div_less mult.commute)
    ultimately have "length (show_nat (n div 10)) \<le> k" using Suc.IH by blast
    with False show ?thesis by (subst show_nat.simps) simp
  qed (subst show_nat.simps, simp)
qed simp

lemma show_nat_stem: "list_all stem_char (show_nat n)"
  using show_nat_digits by (fastforce simp: list_all_iff stem_char_def Let_def)

text \<open>
  A generated sprint id fits everywhere it is used: for fewer than \<open>10\<^sup>1\<^sup>1\<close> roots and for a digest and a
  uuid printed in safe characters it is not longer than the cap, is made of letters, digits, dots, underscores and
  dashes, and is the stem of the sprint's log file unchanged.
\<close>

theorem sprint_id_bounded:
  assumes "length (split_trim issue) < 10 ^ 11"
    and "list_all stem_char (sha256hex (join_strings '','' (split_trim issue)))" "list_all stem_char uuid"
  shows "length (defaultGenerateSprintId sha256hex uuid issue) \<le> MAX_SPRINT_ID_LENGTH \<and>
    list_all stem_char (defaultGenerateSprintId sha256hex uuid issue) \<and>
    resolveSprintLogPath sha256hex dataDir (defaultGenerateSprintId sha256hex uuid issue)
      = Inr (path_join (path_join dataDir ''logs'') (defaultGenerateSprintId sha256hex uuid issue @ ''.log''))"
proof -
  let ?id = "defaultGenerateSprintId sha256hex uuid issue"
  let ?n = "length (split_trim issue)"
  have len: "length ?id \<le> 48" using show_nat_length [OF assms(1)]
    by (simp add: defaultGenerateSprintId_def Let_def SPRINT_ID_ROOT_LENGTH_def)
  have dash: "stem_char CHR ''-''" by (simp add: stem_char_def)
  have take_ok: "list_all stem_char xs \<Longrightarrow> list_all stem_char (take k xs)" for xs k
    by (auto simp: list_all_iff dest: in_set_takeD)
  have chars: "list_all stem_char ?id"
    unfolding defaultGenerateSprintId_def Let_def
    by (simp add: dash take_ok stem_char_sanitize show_nat_stem assms)
  have clean: "sanitize_stem ?id = ?id"
    using chars by (simp add: sanitize_stem_def list_all_iff map_idI)
  have ne: "?id \<noteq> []" by (simp add: defaultGenerateSprintId_def Let_def)
  have name: "log_file_name sha256hex ?id = ?id @ ''.log''"
    using len ne by (simp add: log_file_name_def bound_stem_def clean MAX_LOG_STEM_LENGTH_def Let_def)
  have slash: "CHR ''/'' \<notin> set (?id @ ''.log'')"
    using chars by (auto simp: list_all_iff stem_char_def)
  then have "takeWhile (\<lambda>c. c \<noteq> CHR ''/'') (rev (?id @ ''.log'')) = rev (?id @ ''.log'')"
    by (auto simp: takeWhile_eq_all_conv)
  then have base: "path_basename (?id @ ''.log'') = ?id @ ''.log''"
    unfolding path_basename_def by (metis rev_rev_ident)
  show ?thesis
    using len chars ne base by (simp add: resolveSprintLogPath_def name Let_def MAX_SPRINT_ID_LENGTH_def)
qed

theorem sprint_id_bounded_witness:
  "length (defaultGenerateSprintId (\<lambda>_. ''abcdef0'') ''0123456789'' ''e, f'') \<le> MAX_SPRINT_ID_LENGTH \<and>
   resolveSprintLogPath (\<lambda>_. ''abcdef0'') ''/d'' ''e-2-abcdef-01234567'' = Inr ''/d/logs/e-2-abcdef-01234567.log''"
proof -
  have id: "defaultGenerateSprintId (\<lambda>_. ''abcdef0'') ''0123456789'' ''e, f'' = ''e-2-abcdef-01234567''" by code_simp
  have s: "split_trim ''e, f'' = [''e'', ''f'']" by code_simp
  have "list_all stem_char ''abcdef0''" "list_all stem_char ''0123456789''" by code_simp+
  with sprint_id_bounded [of "''e, f''" "\<lambda>_. ''abcdef0''" "''0123456789''" "''/d''"] show ?thesis
    by (simp add: s id path_join_def)
qed

subsection \<open>The backlog pin\<close>

lemma normalize_forward:
  "normalize_role_keys l es acc = Inr m \<Longrightarrow> fold (\<lambda>e m. AList.update (normalizeRole (fst e)) (snd e) m) es acc = m"
  by (induction l es acc rule: normalize_role_keys.induct) (auto simp: Let_def split: if_splits)

text \<open>The resolved map of a request and the map forwarded to the child, when there is one, have one resolution.\<close>

lemma resolve_parsedE:
  assumes "resolve_parsed_roleMap p = Inr (rm, ws)"
  obtains es m0 where "p = Some (JObj es)" "normalize_role_keys ''Error: --role-map'' es [] = Inr m0"
    "resolveBacklogRoleAlias (Some m0) = Inr (rm, ws)"
proof -
  from assms obtain v where v: "p = Some v" by (cases p) (auto simp: resolve_parsed_roleMap_def)
  with assms obtain es where "v = JObj es" by (cases v) (auto simp: resolve_parsed_roleMap_def)
  with assms v that show ?thesis by (auto simp: resolve_parsed_roleMap_def ebind_eq_Inr split: if_splits)
qed

lemma launch_roleMap_cases:
  assumes "launch_roleMap env v = Inr (fw, rm, ws)"
  obtains (none) "fw = None" "rm = None"
  | (some) m0 ws' where "fw = Some m0" "role_map_ok m0" "resolveBacklogRoleAlias (Some m0) = Inr (rm, ws')"
proof (cases "v = JUndef")
  case True
  with assms that show ?thesis by (simp add: launch_roleMap_def)
next
  case False
  have at: "\<not> js_startsWith s ''@''" if "v = JStr s" for s
  proof
    assume a: "js_startsWith s ''@''"
    then obtain t where "s = CHR ''@'' # t" by (cases s) (auto simp: js_startsWith_def)
    then have "dropWhile js_space s = s" by (simp add: js_space_def)
    moreover have "dropWhile js_space (rev t @ [CHR ''@'']) \<noteq> []" by (simp add: dropWhile_eq_Nil_conv js_space_def)
    moreover have "\<exists>u. dropWhile js_space (rev t @ [CHR ''@'']) = u @ [CHR ''@'']"
      by (simp add: dropWhile_append dropWhile_append3 js_space_def)
    ultimately have "js_startsWith (js_trim s) ''@''"
      using \<open>s = _\<close> by (auto simp: js_trim_def js_startsWith_def)
    with assms that show False by (simp add: launch_roleMap_def)
  qed
  let ?a = "\<lambda>w. as_api 400 ''roleMap''
      (case v of JStr s \<Rightarrow> resolveRoleMap (nv_parse env) (\<lambda>_. None) (Some s)
       | _ \<Rightarrow> ebind (resolve_parsed_roleMap (raw_roleMap env v)) (\<lambda>r. Inr (fst r)))"
  have same: "(case v of JStr s \<Rightarrow> resolveRoleMap (nv_parse env) (\<lambda>_. None) (Some s)
       | _ \<Rightarrow> ebind (resolve_parsed_roleMap (raw_roleMap env v)) (\<lambda>r. Inr (fst r))) =
      ebind (resolve_parsed_roleMap (raw_roleMap env v)) (\<lambda>r. Inr (fst r))"
    using at by (cases v) (simp_all add: resolveRoleMap_def resolveRoleMapWithWarnings_def raw_roleMap_def)
  from assms False obtain f where
    f: "(case raw_roleMap env v of
            Some (JObj es) \<Rightarrow>
              (case resolveBacklogRoleAlias (Some (forward_keys es)) of
                 Inl e \<Rightarrow> Inl (ApiError 400 (''[Arg Contract] Invalid roleMap: '' @ error_text e) (Some ''roleMap''))
               | Inr r \<Rightarrow> Inr (Some (forward_keys es), snd r))
          | _ \<Rightarrow> Inr (None, [])) = Inr f" "fst f = fw"
    and r: "as_api 400 ''roleMap'' (ebind (resolve_parsed_roleMap (raw_roleMap env v)) (\<lambda>r. Inr (fst r))) = Inr rm"
    unfolding launch_roleMap_def same by (auto simp: ebind_eq_Inr split: if_splits)
  from r obtain ws' where "resolve_parsed_roleMap (raw_roleMap env v) = Inr (rm, ws')"
    by (cases "resolve_parsed_roleMap (raw_roleMap env v)") auto
  then obtain es m0 where m: "raw_roleMap env v = Some (JObj es)" "normalize_role_keys ''Error: --role-map'' es [] = Inr m0"
    "resolveBacklogRoleAlias (Some m0) = Inr (rm, ws')"
    by (rule resolve_parsedE)
  have "forward_keys es = m0" unfolding forward_keys_def by (rule normalize_forward [OF m(2)])
  with f m(1,3) have "fw = Some m0" by auto
  moreover have "role_map_ok m0" by (rule normalize_role_keys_ok [OF m(2)]) (simp add: role_map_ok_def)
  ultimately show ?thesis using some m(3) by blast
qed

lemma resolve_child:
  assumes "role_map_ok c" "resolve_parsed_roleMap (Some (JObj c)) = Inr r"
  shows "resolveBacklogRoleAlias (Some c) = Inr r"
proof -
  obtain rm ws where r: "r = (rm, ws)" by fastforce
  obtain es m0 where "Some (JObj c) = Some (JObj es)" "normalize_role_keys ''Error: --role-map'' es [] = Inr m0"
    "resolveBacklogRoleAlias (Some m0) = Inr (rm, ws)"
    by (rule resolve_parsedE [OF assms(2) [unfolded r]])
  with normalize_role_keys_fix [of "[]" c] assms(1) r show ?thesis by simp
qed

lemma role_map_ok_update:
  "role_map_ok m \<Longrightarrow> normalizeRole k = k \<Longrightarrow> role_map_ok (AList.update k v m)"
  by (auto simp: role_map_ok_def keys_update simp del: set_map)

lemma role_backlog: "normalizeRole ROLE_BACKLOG = ROLE_BACKLOG" "ROLE_BACKLOG \<noteq> ROLE_BACKLOG_ALIAS"
  by code_simp+

lemma resolve_alias_backlog:
  assumes "resolveBacklogRoleAlias (Some c) = Inr (Some m, ws)" "map_of c ROLE_BACKLOG = Some v"
  shows "map_of m ROLE_BACKLOG = Some v"
  using assms role_backlog(2) by (auto simp: resolveBacklogRoleAlias_def Let_def split: option.splits if_splits)

lemma launch_check_pin:
  assumes "launch_check env body st = Inr pl" "nv_backlog env = Some b" "bk_member b = Some n"
  obtains fw rm ws where "n \<noteq> []" "launch_roleMap env (jfield body ''roleMap'') = Inr (fw, rm, ws)"
    "pin_role_map (Some n) rm (case fw of Some m \<Rightarrow> Some m | None \<Rightarrow> rm) = Inr (pl_roleMap pl)"
  using assms unfolding launch_check_def ebind_eq_Inr Let_def
  by (auto simp: pinned_backlog_def split: if_splits cong: option.case_cong)

text \<open>
  The backlog pin holds in the child. When this supervisor has a backlog member, an accepted launch
  always hands the child a role map, and whenever the child's own resolution of that map succeeds, the only backlog
  member it names is the supervisor's, however the request spelled the role.
\<close>

theorem launch_backlog_pinned:
  assumes "launch_check env body st = Inr pl" "nv_backlog env = Some b" "bk_member b = Some n" "js_trim n = n"
  shows "\<exists>c. pl_roleMap pl = Some c \<and>
    (\<forall>m ws. resolve_parsed_roleMap (Some (JObj c)) = Inr (Some m, ws) \<longrightarrow> set (requested_backlog (Some m)) = {n})"
proof -
  obtain fw rm ws where n: "n \<noteq> []" and rm: "launch_roleMap env (jfield body ''roleMap'') = Inr (fw, rm, ws)"
    and pin: "pin_role_map (Some n) rm (case fw of Some m \<Rightarrow> Some m | None \<Rightarrow> rm) = Inr (pl_roleMap pl)"
    by (rule launch_check_pin [OF assms(1-3)])
  have injected: "set (requested_backlog (Some m)) = {n}"
    if "role_map_ok base" "resolve_parsed_roleMap (Some (JObj (AList.update ROLE_BACKLOG (JArr [JStr n]) base))) = Inr (Some m, ws)"
    for base m ws
  proof -
    have "map_of m ROLE_BACKLOG = Some (JArr [JStr n])"
      by (rule resolve_alias_backlog [OF resolve_child [OF role_map_ok_update that(2)]])
         (use that(1) role_backlog in simp_all)
    then show ?thesis using n assms(4) by (simp add: requested_backlog_def)
  qed
  from rm show ?thesis
  proof (cases rule: launch_roleMap_cases)
    case none
    then have "pl_roleMap pl = Some (AList.update ROLE_BACKLOG (JArr [JStr n]) [])"
      using pin by (simp add: pin_role_map_def requested_backlog_def)
    moreover have "role_map_ok []" by (simp add: role_map_ok_def)
    ultimately show ?thesis using injected by blast
  next
    case (some m0 ws')
    show ?thesis
    proof (cases "requested_backlog rm = []")
      case True
      then have "pl_roleMap pl = Some (AList.update ROLE_BACKLOG (JArr [JStr n]) m0)"
        using pin some by (simp add: pin_role_map_def)
      with injected some(2) show ?thesis by blast
    next
      case False
      then have pl: "pl_roleMap pl = Some m0" and all: "list_all (\<lambda>m. m = n) (requested_backlog rm)"
        using pin some by (simp_all add: pin_role_map_def Let_def split: if_splits)
      have "set (requested_backlog (Some m)) = {n}"
        if "resolve_parsed_roleMap (Some (JObj m0)) = Inr (Some m, ws)" for m ws
      proof -
        have "rm = Some m" using resolve_child [OF some(2) that] some(3) by simp
        with all False show ?thesis by (cases "requested_backlog rm") (auto simp: list_all_iff)
      qed
      with pl show ?thesis by blast
    qed
  qed
qed

definition demo_pinned :: launch_env where
  "demo_pinned = demo_env\<lparr>nv_backlog := Some \<lparr>bk_ready = True, bk_member = Some ''bk'', bk_reason = JNull\<rparr>\<rparr>"

theorem launch_backlog_pinned_witness:
  "\<exists>c. pl_roleMap ((demo_plan ''e'')\<lparr>pl_roleMap := Some [(ROLE_BACKLOG, JArr [JStr ''bk''])]\<rparr>) = Some c \<and>
     (\<forall>m ws. resolve_parsed_roleMap (Some (JObj c)) = Inr (Some m, ws) \<longrightarrow> set (requested_backlog (Some m)) = {''bk''})"
proof (rule launch_backlog_pinned)
  show "launch_check demo_pinned (demo_body ''e'' JUndef) demo_ctl
      = Inr ((demo_plan ''e'')\<lparr>pl_roleMap := Some [(ROLE_BACKLOG, JArr [JStr ''bk''])]\<rparr>)" by code_simp
  show "nv_backlog demo_pinned = Some \<lparr>bk_ready = True, bk_member = Some ''bk'', bk_reason = JNull\<rparr>"
    by (simp add: demo_pinned_def)
  show "js_trim ''bk'' = ''bk''" by code_simp
qed simp

text \<open>
  The pin and the deprecated alias collide: a request whose role map gives the alias an empty list is
  accepted, the pinned member is injected beside the alias, and the child refuses the map it is started with.
\<close>

theorem launch_pin_alias_conflict:
  assumes "launch_check env body st = Inr pl" "nv_backlog env = Some b" "bk_member b = Some n"
    and "jfield body ''roleMap'' = JObj [(''orchestrator'', JArr [])]"
  shows "\<exists>c e. pl_roleMap pl = Some c \<and> resolve_parsed_roleMap (Some (JObj c)) = Inl e"
proof -
  obtain fw rm ws where rm: "launch_roleMap env (jfield body ''roleMap'') = Inr (fw, rm, ws)"
    and pin: "pin_role_map (Some n) rm (case fw of Some m \<Rightarrow> Some m | None \<Rightarrow> rm) = Inr (pl_roleMap pl)"
    by (rule launch_check_pin [OF assms(1-3)])
  have nr: "normalizeRole ''orchestrator'' = ''orchestrator''" "normalizeRole ''backlog'' = ''backlog''" by code_simp+
  have "fw = Some [(''orchestrator'', JArr [])]" "rm = Some [(''backlog'', JArr [])]"
    using rm by (simp_all add: assms(4) launch_roleMap_def raw_roleMap_def forward_keys_def resolve_parsed_roleMap_def
        member_names_def resolveBacklogRoleAlias_def ROLE_BACKLOG_def ROLE_BACKLOG_ALIAS_def nr)
  then have "pl_roleMap pl = Some [(''orchestrator'', JArr []), (''backlog'', JArr [JStr n])]"
    using pin by (simp add: pin_role_map_def requested_backlog_def ROLE_BACKLOG_def)
  moreover have "n \<noteq> []" by (rule launch_check_pin [OF assms(1-3)])
  ultimately show ?thesis
    by (simp add: resolve_parsed_roleMap_def member_names_def resolveBacklogRoleAlias_def
        ROLE_BACKLOG_def ROLE_BACKLOG_ALIAS_def nr Let_def)
qed

theorem launch_pin_alias_conflict_witness:
  "\<exists>pl c e. launch_check demo_pinned (JObj [(''issue'', JStr ''e''), (''branch'', JStr ''feat''), (''base'', JStr ''main''),
       (''members'', JArr [JStr ''m9'']), (''roleMap'', JObj [(''orchestrator'', JArr [])])]) demo_ctl = Inr pl \<and>
     pl_roleMap pl = Some c \<and> resolve_parsed_roleMap (Some (JObj c)) = Inl e"
proof -
  let ?b = "JObj [(''issue'', JStr ''e''), (''branch'', JStr ''feat''), (''base'', JStr ''main''),
       (''members'', JArr [JStr ''m9'']), (''roleMap'', JObj [(''orchestrator'', JArr [])])]"
  let ?pl = "(demo_plan ''e'')\<lparr>pl_roleMap := Some [(''orchestrator'', JArr []), (''backlog'', JArr [JStr ''bk''])],
     pl_warnings := [BACKLOG_ALIAS_WARNING]\<rparr>"
  have c: "launch_check demo_pinned ?b demo_ctl = Inr ?pl" by code_simp
  from launch_pin_alias_conflict [OF c] have "\<exists>c e. pl_roleMap ?pl = Some c \<and> resolve_parsed_roleMap (Some (JObj c)) = Inl e"
    by (simp add: demo_pinned_def jfield_def)
  with c show ?thesis by blast
qed

end
