(* ===== verification/Supervisor.thy ===== *)
theory Supervisor
  imports Launch_Correct
begin

section \<open>The supervisor's components together\<close>

text \<open>
  The wiring of \<^verbatim>\<open>bin/serve.mjs\<close>: one ledger, one history and one spawner, changed by launches, by the exit listener
  of a child, by the operator's force-release, by the watchdog's passes and by the restart pass. An abstract lease
  table, who holds which member, is the specification; every operation that is awaited refines a step of it.
\<close>

record supervisor =
  su_wd :: watchdog
  su_spawner :: spawner

abbreviation su_ledger :: "supervisor \<Rightarrow> ledger" where
  "su_ledger s \<equiv> sp_ledger (wd_sup (su_wd s))"

abbreviation su_history :: "supervisor \<Rightarrow> history" where
  "su_history s \<equiv> sp_history (wd_sup (su_wd s))"

definition with_sup :: "sup \<Rightarrow> supervisor \<Rightarrow> supervisor" where
  "with_sup p s = s\<lparr>su_wd := (su_wd s)\<lparr>wd_sup := p\<rparr>\<rparr>"

definition su_controller :: "supervisor \<Rightarrow> controller" where
  "su_controller s = \<lparr>ct_ledger = su_ledger s, ct_history = su_history s, ct_spawner = su_spawner s\<rparr>"

text \<open>\<^verbatim>\<open>onChildExit\<close>: the history first, then the ledger; a failure of either is only logged.\<close>

definition exit_entry :: "string \<Rightarrow> jsval \<Rightarrow> jsval \<Rightarrow> string \<Rightarrow> jsval \<Rightarrow> jsval" where
  "exit_entry runId ec sg t_at lp =
     JObj [(''sprintId'', JStr runId), (''event'', JStr CHILD_EXITED), (''exitCode'', ec), (''signal'', sg),
           (''at'', JStr t_at), (''logPath'', lp)]"

definition onChildExit :: "io \<Rightarrow> io \<Rightarrow> string \<Rightarrow> string \<Rightarrow> jsval \<Rightarrow> jsval \<Rightarrow> string \<Rightarrow> jsval \<Rightarrow> sup \<Rightarrow> sup" where
  "onChildExit io1 io2 now runId ec sg t_at lp st =
     (if runId = [] then st
      else let h = snd (history_record io1 now (exit_entry runId ec sg t_at lp) (sp_history st));
               l = snd (ledger_recordExit io2 now (JStr runId)
                          (JObj [(''exitCode'', ec), (''signal'', sg), (''at'', JStr t_at)]) (sp_ledger st))
           in \<lparr>sp_ledger = l, sp_history = h\<rparr>)"

text \<open>The operations, each run to its end before the next begins. A node's exit listener reports an integer or null.\<close>

datatype sup_op =
    SupLaunch launch_env jsval
  | SupChildExit io io string string "int option" "string option" string jsval
  | SupForceRelease "int \<Rightarrow> bool" bool io io string jsval jsval jsval
  | SupWatchdog "nat \<Rightarrow> nat \<Rightarrow> io" bool string wd_sig
  | SupReconcile "int \<Rightarrow> bool" bool "nat \<Rightarrow> io" "nat \<Rightarrow> string"

fun sup_step :: "sup_op \<Rightarrow> supervisor \<Rightarrow> supervisor" where
  "sup_step (SupLaunch env body) s =
     (let c = snd (launch env (body_or_empty body) (su_controller s))
      in (with_sup ((wd_sup (su_wd s))\<lparr>sp_ledger := ct_ledger c, sp_history := ct_history c\<rparr>) s)\<lparr>su_spawner := ct_spawner c\<rparr>)"
| "sup_step (SupChildExit io1 io2 now runId ec sg t_at lp) s =
     with_sup (onChildExit io1 io2 now runId (js_of_pid ec) (js_of_opt sg) t_at lp (wd_sup (su_wd s))) s"
| "sup_step (SupForceRelease kill client io1 io2 now sid who rsn) s =
     with_sup (fst (snd (forceRelease kill client io1 io2 now sid who rsn (wd_sup (su_wd s))))) s"
| "sup_step (SupWatchdog io client now sg) s = s\<lparr>su_wd := snd (classifyAll io client now sg (su_wd s))\<rparr>"
| "sup_step (SupReconcile probe client io now) s = with_sup (snd (reconcile probe client io now (wd_sup (su_wd s)))) s"

definition new_supervisor :: supervisor where
  "new_supervisor =
     \<lparr>su_wd = \<lparr>wd_crashes = [], wd_finishes = [], wd_launchFailures = [], wd_failedStates = [],
               wd_sup = \<lparr>sp_ledger = empty_ledger, sp_history = empty_history\<rparr>\<rparr>,
      su_spawner = new_spawner\<rparr>"

subsection \<open>What every operation but a launch does to the reservations\<close>

text \<open>Who holds what, without the rest of a reservation.\<close>

definition holds :: "ledger \<Rightarrow> (string \<times> string list) list" where
  "holds l = map (\<lambda>p. (fst p, members (snd p))) (reservations l)"

definition shrinks :: "ledger \<Rightarrow> ledger \<Rightarrow> bool" where
  "shrinks l l' \<longleftrightarrow> (\<exists>K. holds l' = filter (\<lambda>q. fst q \<notin> K) (holds l))"

lemma shrinks_refl: "holds l' = holds l \<Longrightarrow> shrinks l l'"
  unfolding shrinks_def by (rule exI [of _ "{}"]) simp

lemma shrinks_trans: "shrinks l l' \<Longrightarrow> shrinks l' l'' \<Longrightarrow> shrinks l l''"
  unfolding shrinks_def
proof (elim exE)
  fix K K'
  assume "holds l' = filter (\<lambda>q. fst q \<notin> K) (holds l)" "holds l'' = filter (\<lambda>q. fst q \<notin> K') (holds l')"
  then show "\<exists>K. holds l'' = filter (\<lambda>q. fst q \<notin> K) (holds l)"
    by (intro exI [of _ "K \<union> K'"]) (simp add: conj_commute)
qed

text \<open>Kept under the ledger's invariant: the invariant itself, and that reservations are only dropped whole.\<close>

definition sheds :: "ledger \<Rightarrow> ledger \<Rightarrow> bool" where
  "sheds l l' \<longleftrightarrow> (ledger_inv l \<longrightarrow> ledger_inv l' \<and> shrinks l l')"

lemma sheds_refl [simp, intro]: "sheds l l"
  by (simp add: sheds_def shrinks_refl)

lemma sheds_trans: "sheds l l' \<Longrightarrow> sheds l' l'' \<Longrightarrow> sheds l l''"
  by (auto simp: sheds_def intro: shrinks_trans)

lemma delete_filter: "AList.delete i m = filter (\<lambda>p. fst p \<noteq> i) m"
  unfolding AList.delete_eq by (rule filter_cong) auto

lemma holds_delete: "reservations l' = AList.delete i (reservations l) \<Longrightarrow> holds l' = filter (\<lambda>q. fst q \<notin> {i}) (holds l)"
  by (simp add: holds_def delete_filter filter_map comp_def)

lemma sheds_release: "sheds l (snd (ledger_release io client sid l))"
  unfolding sheds_def
proof (intro impI conjI)
  assume inv: "ledger_inv l"
  then have ok: "map_ok (reservations l)" by (simp add: ledger_inv_def)
  from inv show "ledger_inv (snd (ledger_release io client sid l))" by (rule ledger_release_inv)
  show "shrinks l (snd (ledger_release io client sid l))"
  proof (cases "nonempty_str sid")
    case None
    then show ?thesis by (simp add: ledger_release_def shrinks_refl)
  next
    case (Some i)
    obtain r l' where tx: "release_tx io client i (held_members i l) l = (r, l')" by fastforce
    then have l': "snd (ledger_release io client sid l) = l'" using Some by (simp add: ledger_release_def)
    show ?thesis
    proof (cases r)
      case (Inl e)
      with release_tx_Inl [of io client i "held_members i l" l e l'] tx ok
      show ?thesis unfolding l' by (simp add: holds_def shrinks_refl)
    next
      case (Inr b)
      with release_tx_Inr(2) [of io client i "held_members i l" l b l'] tx ok
      have "holds l' = filter (\<lambda>q. fst q \<notin> {i}) (holds l)" by (intro holds_delete) simp
      then show ?thesis unfolding l' shrinks_def by blast
    qed
  qed
qed

lemma holds_update:
  "map_of m sid = Some r \<Longrightarrow> members r' = members r \<Longrightarrow> jmap_ok m \<Longrightarrow>
     map (\<lambda>p. (fst p, members (snd p))) (AList.update sid r' m) = map (\<lambda>p. (fst p, members (snd p))) m"
  by (induction m) (auto simp: jmap_ok_def split: if_splits)

lemma exit_mutate_holds:
  "exit_mutate now sid info m = Inr (x, d) \<Longrightarrow> jmap_ok m \<Longrightarrow>
     map (\<lambda>p. (fst p, members (snd p))) d = map (\<lambda>p. (fst p, members (snd p))) m"
  by (auto simp: exit_mutate_def Let_def ebind_eq_Inr split: option.splits intro!: holds_update)

lemma recordExit_holds:
  assumes "ledger_inv l"
  shows "holds (snd (ledger_recordExit io now sid info l)) = holds l"
proof -
  have ok: "map_ok (reservations l)" using assms by (simp add: ledger_inv_def)
  have keep: "holds l' = holds l" if tx: "transact io (exit_mutate now i v) l = (r, l')" for i v r l'
    using tx ok
  proof (cases rule: transact_cases)
    case (committed x d f)
    have "jmap_ok (reservations l)" using ok by (simp add: map_ok_iff)
    from exit_mutate_holds [OF committed(1) this] committed(3) show ?thesis by (simp add: holds_def)
  qed (simp_all add: holds_def)
  show ?thesis by (auto simp: ledger_recordExit_def split: option.split prod.split sum.split dest: keep)
qed

lemma sheds_recordExit: "exit_info_ok info \<Longrightarrow> sheds l (snd (ledger_recordExit io now sid info l))"
  by (simp add: sheds_def ledger_recordExit_inv recordExit_holds shrinks_refl)

lemma sheds_onChildExit:
  "sheds (sp_ledger st) (sp_ledger (onChildExit io1 io2 now runId (js_of_pid ec) (js_of_opt sg) t lp st))"
  by (simp add: onChildExit_def Let_def sheds_recordExit exit_info_ok_typed)

lemma sheds_forceRelease: "sheds (sp_ledger st) (sp_ledger (fst (snd (forceRelease kill client io1 io2 now sid who rsn st))))"
  using sheds_release [of "sp_ledger st" io1 client]
  by (auto simp: forceRelease_def Let_def split: option.split sum.split prod.split) (metis snd_conv)+

lemma sheds_reconcile_loop:
  "sheds (sp_ledger st) (sp_ledger (snd (reconcile_loop probe client io now k es st released retained)))"
proof (induction es arbitrary: k st released retained)
  case (Cons e es)
  obtain sid r where e: "e = (sid, r)" by fastforce
  obtain o1 l where rel: "ledger_release (io (2 * k)) client (JStr sid) (sp_ledger st) = (o1, l)" by fastforce
  have s: "sheds (sp_ledger st) l" using sheds_release rel by (metis snd_conv)
  obtain o2 h where rec: "history_record (io (2 * k + 1)) (now k) (abort_entry sid r (now k)) (sp_history st) = (o2, h)" by fastforce
  show ?case
  proof (cases "entry_alive probe r \<or> isl o1 \<or> isl o2")
    case True
    then show ?thesis using Cons.IH s rel rec by (auto simp: e split: sum.split)
  next
    case False
    then obtain a b where "o1 = Inr a" "o2 = Inr b" by (metis sum.collapse(2))
    with False rel rec Cons.IH [of "st\<lparr>sp_ledger := l, sp_history := h\<rparr>" "Suc k" "released @ [sid]" retained] s
    show ?thesis by (auto simp: e intro: sheds_trans)
  qed
qed simp

lemma sheds_releaseTerminal: "sheds (wd_ledger w) (wd_ledger (releaseTerminalReservation io1 io2 client now sid status detail w))"
  using sheds_release [of "wd_ledger w" io1 client "JStr sid"]
  by (auto simp: releaseTerminalReservation_def Let_def split: sum.split prod.split)

lemma sheds_classifySprint: "sheds (wd_ledger w) (wd_ledger (snd (classifySprint io client now sg e w)))"
  using sheds_releaseTerminal [of "note_terminal (io 0) now sg (fst e) (snd e) (formatExitDetail (exitCode (snd e)) (signal (snd e)) (exitedAt (snd e))) w"]
  by (simp add: classifySprint_def Let_def split: prod.split)

lemma sheds_classify_list: "sheds (wd_ledger w) (wd_ledger (snd (classify_list io client now sg k es w)))"
proof (induction es arbitrary: k w)
  case (Cons e es)
  obtain r w1 where c: "classifySprint (io k) client now sg e w = (r, w1)" by fastforce
  with sheds_classifySprint have "sheds (wd_ledger w) (wd_ledger w1)" by (metis snd_conv)
  with c Cons.IH [of w1 "Suc k"] show ?case by (auto split: prod.split intro: sheds_trans)
qed simp

subsection \<open>What a launch does to the reservations\<close>

lemma compose_members:
  "composeBeforeLaunch cmp fetched beadsFetch active ms roots = Inr () \<Longrightarrow> guard_conflicts active ms fetched = []"
  by (auto simp: composeBeforeLaunch_def ebind_eq_Inr guard_Inr)

text \<open>Either the reservations are untouched, or one of members nobody holds is added under a fresh name.\<close>

definition takes :: "ledger \<Rightarrow> string \<Rightarrow> string list \<Rightarrow> ledger \<Rightarrow> bool" where
  "takes l sid ms l' \<longleftrightarrow> holds l' = holds l @ [(sid, ms)] \<and> sid \<noteq> [] \<and> sid \<notin> fst ` set (holds l) \<and>
     (\<forall>(s, a)\<in>set (holds l). s = [] \<or> set a \<inter> set ms = {})"

lemma launch_takes:
  assumes "ledger_inv (ct_ledger st)" "launch env body st = (Inr r, st')"
  shows "ledger_inv (ct_ledger st') \<and> (\<exists>ms. takes (ct_ledger st) (ln_sprintId r) ms (ct_ledger st') \<and> set ms = set (ln_members r))"
proof -
  let ?m = "reservations (ct_ledger st)"
  from assms(2) obtain pl where pl: "launch_check env body st = Inr pl" "launch_commit env body pl st = (Inr r, st')"
    by (auto simp: launch_def split: sum.splits)
  obtain fetched where g: "guard_conflicts ?m (pl_union pl) fetched = []"
    using launch_checkE [OF pl(1)] compose_members ledger_list_id [OF assms(1)] by metis
  obtain x where x: "map_of ?m (ln_sprintId r) = None" "ln_sprintId r \<noteq> []"
    "reservations (ct_ledger st') = ?m @ [(ln_sprintId r, x)]" "set (members x) = set (pl_union pl)"
    "ln_members r = pl_union pl" "ledger_inv (ct_ledger st')"
    by (rule launch_commit_Inr [OF pl(2) assms(1)])
  have "takes (ct_ledger st) (ln_sprintId r) (members x) (ct_ledger st')"
    using x g unfolding takes_def guard_conflicts_Nil
    by (auto simp: holds_def map_of_eq_None_iff image_image)
  with x show ?thesis by auto
qed

lemma launch_refused:
  assumes "ledger_inv (ct_ledger st)" "launch env body st = (Inl e, st')"
  shows "ledger_inv (ct_ledger st') \<and> holds (ct_ledger st') = holds (ct_ledger st)"
proof (cases "launch_check env body st")
  case (Inl a)
  with assms show ?thesis by (simp add: launch_def)
next
  case (Inr pl)
  let ?id = "defaultGenerateSprintId (nv_sha256hex env) (nv_uuid env) (lr_issue (pl_req pl))"
  have c: "launch_commit env body pl st = (Inl e, st')" using assms(2) Inr by (simp add: launch_def)
  show ?thesis
  proof (cases "ct_ledger st' = ct_ledger st")
    case False
    then obtain d a l where cl: "ledger_claim (nv_io env) (nv_client env) (nv_now env) (JStr ?id) (claim_input env pl body d) (ct_ledger st) = (Inl a, l)"
      "ct_ledger st' = l"
      using c by (auto simp: launch_commit_def Let_def split: prod.splits sum.splits)
    with ledger_claim_Inl [OF assms(1) cl(1)] ledger_claim_inv [OF assms(1)] show ?thesis by (metis holds_def snd_conv)
  qed (use assms(1) in simp)
qed

subsection \<open>One holder per member\<close>

definition one_holder :: "(string \<times> string list) list \<Rightarrow> bool" where
  "one_holder hs \<longleftrightarrow> (\<forall>s a t b m. (s, a) \<in> set hs \<and> (t, b) \<in> set hs \<and> m \<in> set a \<and> m \<in> set b \<longrightarrow> s = t)"

definition fleet_ok :: "supervisor \<Rightarrow> bool" where
  "fleet_ok s \<longleftrightarrow> ledger_inv (su_ledger s) \<and> one_holder (holds (su_ledger s)) \<and> [] \<notin> fst ` set (holds (su_ledger s))"

lemma one_holder_disjoint: "one_holder (holds l) \<Longrightarrow> members_disjoint (reservations l)"
  unfolding members_disjoint_def
proof (intro allI impI)
  fix s t a b
  assume o: "one_holder (holds l)" and h: "map_of (reservations l) s = Some a \<and> map_of (reservations l) t = Some b \<and> s \<noteq> t"
  then have "(s, members a) \<in> set (holds l)" "(t, members b) \<in> set (holds l)"
    by (force simp: holds_def dest: map_of_SomeD)+
  with o h show "set (members a) \<inter> set (members b) = {}" unfolding one_holder_def by blast
qed

definition sup_moves :: "supervisor \<Rightarrow> supervisor \<Rightarrow> bool" where
  "sup_moves s s' \<longleftrightarrow> shrinks (su_ledger s) (su_ledger s') \<or> (\<exists>sid ms. takes (su_ledger s) sid ms (su_ledger s'))"

lemma su_ledger_with_sup [simp]: "su_ledger (with_sup p s) = sp_ledger p"
  by (simp add: with_sup_def)

lemma sup_step_moves:
  assumes "ledger_inv (su_ledger s)"
  shows "ledger_inv (su_ledger (sup_step op s)) \<and> sup_moves s (sup_step op s)"
proof -
  have sheds: "ledger_inv l' \<and> (shrinks (su_ledger s) l' \<or> X)" if "sheds (su_ledger s) l'" for l' X
    using that assms by (simp add: sheds_def)
  show ?thesis
  proof (cases op)
    case (SupLaunch env body)
    obtain o1 c where l: "launch env (body_or_empty body) (su_controller s) = (o1, c)" by fastforce
    have inv: "ledger_inv (ct_ledger (su_controller s))" using assms by (simp add: su_controller_def)
    have eq: "su_ledger (sup_step op s) = ct_ledger c" using l by (simp add: SupLaunch with_sup_def)
    have cs: "ct_ledger (su_controller s) = su_ledger s" by (simp add: su_controller_def)
    show ?thesis
      using launch_takes [OF inv, of env "body_or_empty body"] launch_refused [OF inv, of env "body_or_empty body"] l
      unfolding sup_moves_def eq cs by (cases o1) (auto intro: shrinks_refl)
  qed (simp_all add: sup_moves_def sheds sheds_onChildExit sheds_forceRelease sheds_classify_list sheds_reconcile_loop
      classifyAll_def reconcile_def)
qed

lemma one_holderD: "one_holder hs \<Longrightarrow> (s, a) \<in> set hs \<Longrightarrow> (t, b) \<in> set hs \<Longrightarrow> m \<in> set a \<Longrightarrow> m \<in> set b \<Longrightarrow> s = t"
  unfolding one_holder_def by blast

lemma one_holder_mono: "one_holder hs \<Longrightarrow> set hs' \<subseteq> set hs \<Longrightarrow> one_holder hs'"
  unfolding one_holder_def by (meson subsetD)

lemma one_holder_filter: "one_holder hs \<Longrightarrow> one_holder (filter P hs)"
  by (erule one_holder_mono) auto

lemma one_holder_snoc:
  "one_holder hs \<Longrightarrow> (\<forall>(s, a)\<in>set hs. set a \<inter> set ms = {}) \<Longrightarrow> one_holder (hs @ [(sid, ms)])"
  unfolding one_holder_def by (simp add: Ball_def) (metis IntI empty_iff)

lemma fleet_ok_step: "fleet_ok s \<Longrightarrow> fleet_ok (sup_step op s)"
proof -
  assume ok: "fleet_ok s"
  then have inv: "ledger_inv (su_ledger (sup_step op s))" and mv: "sup_moves s (sup_step op s)"
    using sup_step_moves by (simp_all add: fleet_ok_def)
  from mv show ?thesis unfolding sup_moves_def
  proof (elim disjE exE)
    assume "shrinks (su_ledger s) (su_ledger (sup_step op s))"
    with ok inv show ?thesis by (auto simp: fleet_ok_def shrinks_def one_holder_filter)
  next
    fix sid ms
    assume "takes (su_ledger s) sid ms (su_ledger (sup_step op s))"
    then have h: "holds (su_ledger (sup_step op s)) = holds (su_ledger s) @ [(sid, ms)]" "sid \<noteq> []"
      and free: "\<forall>(t, a)\<in>set (holds (su_ledger s)). t = [] \<or> set a \<inter> set ms = {}"
      by (simp_all add: takes_def)
    have named: "[] \<notin> fst ` set (holds (su_ledger s))" "one_holder (holds (su_ledger s))"
      using ok by (simp_all add: fleet_ok_def)
    have "\<forall>(t, a)\<in>set (holds (su_ledger s)). set a \<inter> set ms = {}" using free named(1) by force
    with named(2) have "one_holder (holds (su_ledger (sup_step op s)))" unfolding h(1) by (rule one_holder_snoc)
    then show ?thesis using named(1) h(2) inv unfolding fleet_ok_def h(1) by simp
  qed
qed

interpretation fleet: op_machine new_supervisor sup_step fleet_ok
proof unfold_locales
  show "fleet_ok new_supervisor"
    using empty_ledger_inv by (simp add: fleet_ok_def new_supervisor_def holds_def one_holder_def empty_ledger_def)
qed (rule fleet_ok_step)

subsection \<open>The lease table\<close>

text \<open>
  The specification: a table of which sprint holds which member. A sprint may take a set of free members in one
  step, and any set of sprints may give up everything it holds; nothing else changes the table.
\<close>

type_synonym lease_table = "string \<rightharpoonup> string"

inductive lease_step :: "lease_table \<Rightarrow> lease_table \<Rightarrow> bool" where
  take_free: "set ms \<inter> dom t = {} \<Longrightarrow> sid \<notin> ran t \<Longrightarrow> lease_step t (\<lambda>m. if m \<in> set ms then Some sid else t m)"
| give_up: "lease_step t (\<lambda>m. case t m of Some s \<Rightarrow> if s \<in> K then None else Some s | None \<Rightarrow> None)"

text \<open>The table the members endpoint reports of a ledger.\<close>

definition lease_of :: "ledger \<Rightarrow> lease_table" where
  "lease_of l m = first_holder m (ledger_list l)"

lemma first_holder_Some:
  assumes "one_holder (map (\<lambda>p. (fst p, members (snd p))) es)"
  shows "first_holder m es = Some s \<longleftrightarrow> (\<exists>a. (s, a) \<in> set (map (\<lambda>p. (fst p, members (snd p))) es) \<and> m \<in> set a)"
  using assms
proof (induction es)
  case (Cons e es)
  obtain i r where e: "e = (i, r)" by fastforce
  have o: "one_holder (map (\<lambda>p. (fst p, members (snd p))) es)"
    by (rule one_holder_mono [OF Cons.prems]) auto
  have "i = s" if "m \<in> set (members r)" "(s, a) \<in> set (map (\<lambda>p. (fst p, members (snd p))) es)" "m \<in> set a" for a
    by (rule one_holderD [OF Cons.prems, of i "members r" s a m]) (use that in \<open>simp_all add: e\<close>)
  with Cons.IH [OF o] show ?case by (auto simp: e)
qed simp

lemma lease_of_Some:
  "ledger_inv l \<Longrightarrow> one_holder (holds l) \<Longrightarrow> lease_of l m = Some s \<longleftrightarrow> (\<exists>a. (s, a) \<in> set (holds l) \<and> m \<in> set a)"
  using first_holder_Some [of "reservations l" m s] by (simp add: lease_of_def holds_def ledger_list_id)

lemma lease_of_eq:
  assumes "ledger_inv l" "one_holder (holds l)" "\<And>s. (\<exists>a. (s, a) \<in> set (holds l) \<and> m \<in> set a) \<longleftrightarrow> x = Some s"
  shows "lease_of l m = x"
  using assms(3) unfolding lease_of_Some [OF assms(1,2), symmetric] by (cases x; cases "lease_of l m") auto

lemma sup_step_refines:
  assumes "fleet_ok s"
  shows "lease_step (lease_of (su_ledger s)) (lease_of (su_ledger (sup_step op s)))"
proof -
  let ?l = "su_ledger s" and ?l' = "su_ledger (sup_step op s)"
  have ok: "ledger_inv ?l" "one_holder (holds ?l)" using assms by (simp_all add: fleet_ok_def)
  have ok': "ledger_inv ?l'" "one_holder (holds ?l')" using fleet_ok_step [OF assms, of op] by (simp_all add: fleet_ok_def)
  note L = lease_of_Some [OF ok]
  from sup_step_moves [OF ok(1), of op] show ?thesis unfolding sup_moves_def
  proof (elim conjE disjE exE)
    assume "shrinks ?l ?l'"
    then obtain K where K: "holds ?l' = filter (\<lambda>q. fst q \<notin> K) (holds ?l)" by (auto simp: shrinks_def)
    have "lease_of ?l' m = (case lease_of ?l m of Some s \<Rightarrow> if s \<in> K then None else Some s | None \<Rightarrow> None)" for m
    proof (cases "lease_of ?l m")
      case None
      then show ?thesis by (intro lease_of_eq [OF ok']) (use L [of m] in \<open>auto simp: K\<close>)
    next
      case (Some x)
      then have x: "(t, a) \<in> set (holds ?l) \<and> m \<in> set a \<Longrightarrow> t = x" for t a using L [of m t] by auto
      show ?thesis by (rule lease_of_eq [OF ok']) (use Some x L [of m x] in \<open>auto simp: K\<close>)
    qed
    then have "lease_of ?l' = (\<lambda>m. case lease_of ?l m of Some s \<Rightarrow> if s \<in> K then None else Some s | None \<Rightarrow> None)" by blast
    then show ?thesis by (simp add: give_up)
  next
    fix sid ms
    assume t: "takes ?l sid ms ?l'"
    have named: "[] \<notin> fst ` set (holds ?l)" using assms by (simp add: fleet_ok_def)
    have free: "m \<notin> set ms" if "lease_of ?l m = Some s" for m s
    proof -
      from that obtain a where a: "(s, a) \<in> set (holds ?l)" "m \<in> set a" unfolding L by blast
      moreover from a(1) named have "s \<noteq> []" by force
      ultimately show ?thesis using t unfolding takes_def by blast
    qed
    have "lease_of ?l' m = (if m \<in> set ms then Some sid else lease_of ?l m)" for m
    proof (cases "m \<in> set ms")
      case True
      then have "(t, a) \<in> set (holds ?l) \<and> m \<in> set a \<Longrightarrow> False" for t a using L [of m t] free [of m t] by auto
      then show ?thesis by (intro lease_of_eq [OF ok']) (use t True in \<open>auto simp: takes_def\<close>)
    next
      case False
      then show ?thesis by (intro lease_of_eq [OF ok']) (use t L [of m] in \<open>auto simp: takes_def\<close>)
    qed
    then have eq: "lease_of ?l' = (\<lambda>m. if m \<in> set ms then Some sid else lease_of ?l m)" by blast
    have "sid \<notin> ran (lease_of ?l)" using t by (force simp: ran_def L takes_def)
    moreover have "set ms \<inter> dom (lease_of ?l) = {}" using free by auto
    ultimately show ?thesis unfolding eq by (intro take_free)
  qed
qed

subsection \<open>Properties\<close>

text \<open>
  Property C1. The fleet stays partitioned. After any sequence of launches, child exits, force-releases, watchdog
  passes and restart passes, each awaited, with whatever inputs, probes and disk failures, no member is in the
  reservations of two sprints, every reservation has a name, and the ledger's file reloads to the reservations held.
\<close>

theorem fleet_partition:
  "members_disjoint (reservations (su_ledger (fold sup_step ops new_supervisor))) \<and>
   [] \<notin> set (jkeys (reservations (su_ledger (fold sup_step ops new_supervisor)))) \<and>
   (\<exists>ls. ledger_load None now (su_ledger (fold sup_step ops new_supervisor)) =
      (Inr (), su_ledger (fold sup_step ops new_supervisor)\<lparr>lastSyncedAt := ls, loaded := True\<rparr>))"
proof -
  have ok: "fleet_ok (fold sup_step ops new_supervisor)" by (rule fleet.run_inv)
  then have "[] \<notin> set (jkeys (reservations (su_ledger (fold sup_step ops new_supervisor))))"
    by (auto simp: fleet_ok_def holds_def image_image)
  with ok one_holder_disjoint ledger_load_durable show ?thesis unfolding fleet_ok_def by blast
qed

text \<open>
  Property C2. The supervisor implements the lease table. From the start on, every awaited operation is one step of
  the table that the members endpoint reports: either one sprint that held nothing takes members that nobody held,
  or some sprints give up all they held.
\<close>

theorem supervisor_refines_lease_table:
  "lease_of (su_ledger new_supervisor) = Map.empty \<and>
   lease_step (lease_of (su_ledger (fold sup_step ops new_supervisor)))
     (lease_of (su_ledger (fold sup_step (ops @ [op]) new_supervisor)))"
proof
  show "lease_of (su_ledger new_supervisor) = Map.empty"
    by (simp add: fun_eq_iff lease_of_def new_supervisor_def ledger_list_def empty_ledger_def)
  show "lease_step (lease_of (su_ledger (fold sup_step ops new_supervisor)))
     (lease_of (su_ledger (fold sup_step (ops @ [op]) new_supervisor)))"
    using sup_step_refines [OF fleet.run_inv] by simp
qed

lemma recordExit_lookup:
  assumes "ledger_inv l" "sid \<noteq> []"
    and "ledger_recordExit io now (JStr sid) (JObj [(''exitCode'', js_of_pid ec), (''signal'', js_of_opt sg), (''at'', JStr t)]) l = (Inr r', l')"
  obtains r where "map_of (reservations l) sid = Some r" "map_of (reservations l') = (map_of (reservations l))(sid \<mapsto> r')"
    "exitCode r' = js_of_pid ec"
proof -
  let ?info = "JObj [(''exitCode'', js_of_pid ec), (''signal'', js_of_opt sg), (''at'', JStr t)]"
  have ok: "map_ok (reservations l)" using assms(1) by (simp add: ledger_inv_def)
  from assms(2,3) obtain r0 where tx: "transact io (exit_mutate now sid ?info) l = (Inr r0, l')" and r': "r' = cloneReservation r0"
    by (auto simp: ledger_recordExit_def split: prod.splits sum.splits)
  obtain d where d: "exit_mutate now sid ?info (reservations l) = Inr (r0, d)" "reservations l' = d"
    by (rule transact_commit [OF tx ok])
  from d(1) obtain r where r: "map_of (reservations l) sid = Some r" "d = AList.update sid r0 (reservations l)"
    "exitCode r0 = js_of_pid ec"
    by (auto simp: exit_mutate_def Let_def ebind_eq_Inr split: option.splits)
  have "res_ok r0" using map_ok_lookup [OF exit_mutate_ok [OF d(1) ok exit_info_ok_typed], of sid r0] r(2) by simp
  then have "cloneReservation r0 = r0" by simp
  with r r' d(2) show ?thesis by (intro that) simp_all
qed

lemma recordExit_Inl:
  assumes "ledger_inv l" "ledger_recordExit io now sid info l = (Inl e, l')"
  shows "reservations l' = reservations l"
proof -
  have "map_ok (reservations l)" using assms(1) by (simp add: ledger_inv_def)
  with assms(2) show ?thesis
    by (auto simp: ledger_recordExit_def split: option.splits prod.splits sum.splits dest: transact_Inl)
qed

lemma record_exit_event:
  assumes "runId \<noteq> []" "history_record io now (exit_entry runId (js_of_pid ec) sg t lp) h = (Inr ev, h')"
  shows "ev_sprintId ev = JStr runId" "ev_event ev = JStr CHILD_EXITED" "ev_exitCode ev = js_of_pid ec"
  using assms
  by (auto simp: history_record_def stored_event_def exit_entry_def cloneEvent_def or_else_null_def undef_null_def
      CHILD_EXITED_def ebind_eq_Inr split: sum.splits prod.splits)

text \<open>
  What a child's exit does. The two writes of the exit listener are independent: the history gains one
  exit event with the code reported if its write succeeds and is unchanged otherwise, and whatever became of the
  history, the sprint's reservation gains the code if the ledger's write succeeds and every reservation is unchanged
  otherwise. Nothing is released.
\<close>

theorem child_exit_exact:
  assumes "ledger_inv (sp_ledger st)" "runId \<noteq> []"
    and "history_record io1 now (exit_entry runId (js_of_pid ec) (js_of_opt sg) t lp) (sp_history st) = (a, h)"
    and "ledger_recordExit io2 now (JStr runId) (JObj [(''exitCode'', js_of_pid ec), (''signal'', js_of_opt sg), (''at'', JStr t)])
           (sp_ledger st) = (b, l)"
    and "onChildExit io1 io2 now runId (js_of_pid ec) (js_of_opt sg) t lp st = st'"
  shows "holds (sp_ledger st') = holds (sp_ledger st) \<and>
    (case a of Inl _ \<Rightarrow> events (sp_history st') = events (sp_history st)
     | Inr ev \<Rightarrow> events (sp_history st') = events (sp_history st) @ [ev] \<and> ev_sprintId ev = JStr runId \<and>
         ev_event ev = JStr CHILD_EXITED \<and> ev_exitCode ev = js_of_pid ec) \<and>
    (case b of Inl _ \<Rightarrow> map_of (reservations (sp_ledger st')) = map_of (reservations (sp_ledger st))
     | Inr r \<Rightarrow> map_of (reservations (sp_ledger st')) = (map_of (reservations (sp_ledger st)))(runId \<mapsto> r) \<and>
         exitCode r = js_of_pid ec)"
proof -
  have st': "sp_ledger st' = l" "sp_history st' = h" using assms(2-5) by (auto simp: onChildExit_def Let_def)
  have "holds l = holds (sp_ledger st)" using recordExit_holds [OF assms(1)] assms(4) by (metis snd_conv)
  moreover have "case a of Inl _ \<Rightarrow> events h = events (sp_history st)
     | Inr ev \<Rightarrow> events h = events (sp_history st) @ [ev] \<and> ev_sprintId ev = JStr runId \<and>
         ev_event ev = JStr CHILD_EXITED \<and> ev_exitCode ev = js_of_pid ec"
  proof (cases a)
    case (Inl e)
    with hist.not_recorded [of "(io1, now, exit_entry runId (js_of_pid ec) (js_of_opt sg) t lp)"] assms(3) show ?thesis by simp
  next
    case (Inr ev)
    with hist.recorded [of "(io1, now, exit_entry runId (js_of_pid ec) (js_of_opt sg) t lp)"] assms(3)
      record_exit_event [OF assms(2), of io1 now ec "js_of_opt sg" t lp] show ?thesis by auto
  qed
  moreover have "case b of Inl _ \<Rightarrow> map_of (reservations l) = map_of (reservations (sp_ledger st))
     | Inr r \<Rightarrow> map_of (reservations l) = (map_of (reservations (sp_ledger st)))(runId \<mapsto> r) \<and> exitCode r = js_of_pid ec"
  proof (cases b)
    case (Inl e)
    with recordExit_Inl [OF assms(1)] assms(4) show ?thesis by auto
  next
    case (Inr r)
    from recordExit_lookup [OF assms(1,2) assms(4) [unfolded Inr]] show ?thesis by (auto simp: Inr)
  qed
  ultimately show ?thesis unfolding st' by simp
qed

theorem child_exit_exact_witness:
  "events (sp_history (onChildExit io_fail io_ok ''t2'' ''s1'' (JInt 1) JNull ''t1'' JNull demo_sup)) = [] \<and>
   map_option exitCode (map_of (reservations (sp_ledger (onChildExit io_fail io_ok ''t2'' ''s1'' (JInt 1) JNull ''t1'' JNull demo_sup))) ''s1'') =
     Some (JInt 1)"
proof -
  let ?info = "JObj [(''exitCode'', js_of_pid (Some 1)), (''signal'', js_of_opt None), (''at'', JStr ''t1'')]"
  have inv: "ledger_inv (sp_ledger demo_sup)" by (simp add: demo_sup_def demo_claimed_inv)
  obtain e h where h: "history_record io_fail ''t2'' (exit_entry ''s1'' (js_of_pid (Some 1)) (js_of_opt None) ''t1'' JNull) (sp_history demo_sup) = (Inl e, h)"
    by (simp add: exit_entry_def CHILD_EXITED_def stored_event_def cloneEvent_def history_record_def persist_def io_fail_def demo_sup_def)
  obtain r l where l: "ledger_recordExit io_ok ''t2'' (JStr ''s1'') ?info (sp_ledger demo_sup) = (Inr r, l)"
    by (simp add: demo_sup_def ledger_recordExit_def transact_def exit_mutate_def demo_claimed_reservations map_clone_id Let_def)
  from child_exit_exact [OF inv _ h l refl] show ?thesis by (simp add: demo_sup_def empty_history_def)
qed

end
