(* ===== verification/Backlog.thy ===== *)
theory Backlog
  imports Watchdog Scope "HOL-Library.Product_Lexorder" "HOL-Library.Multiset"
begin

section \<open>The backlog\<close>

text \<open>
  \<^verbatim>\<open>packages/apra-fleet-se/src/supervisor/backlog.mjs\<close> beyond the scope expansion (theory \<open>Scope\<close>): the
  claimed scope of the active sprints, the forest of free beads, the partial-claim annotations, the flat filtered
  and sorted task list and its route. The tracker listing is a raw value, \<open>classify\<close> is the answer of the watchdog,
  \<open>dateParse\<close> is \<^verbatim>\<open>Date.parse\<close> (\<open>None\<close> for a value that is not finite) and \<open>toNumber\<close> is \<^verbatim>\<open>Number\<close>. The HTML of
  the tab is not modelled.
\<close>

subsection \<open>Claims\<close>

text \<open>
  The reservations that are not finished. The checks run concurrently and a reservation is kept when its check
  answers, so \<open>entries\<close> is the ledger's list in the order of the answers; a check that fails keeps the entry.
\<close>

definition activeReservations ::
  "(string \<Rightarrow> reservation \<Rightarrow> wd_status res) option \<Rightarrow> (string \<times> reservation) list \<Rightarrow> (string \<times> reservation) list"
where
  "activeReservations watchdog entries =
     (case watchdog of
        None \<Rightarrow> entries
      | Some classify \<Rightarrow>
          filter (\<lambda>(sid, r). case classify sid r of Inl _ \<Rightarrow> True | Inr s \<Rightarrow> s \<noteq> Finished) entries)"

definition claim_all :: "string \<Rightarrow> string list \<Rightarrow> (string, jsval) jsmap \<Rightarrow> (string, jsval) jsmap" where
  "claim_all sid scope m = fold (\<lambda>i m. if map_of m i \<noteq> None then m else AList.update i (JStr sid) m) scope m"

definition buildClaimedBy :: "jsval \<Rightarrow> (string \<times> reservation) list \<Rightarrow> (string, jsval) jsmap" where
  "buildClaimedBy raw active =
     (let idx = buildChildIndex (normalize_rows raw)
      in fold (\<lambda>(sid, r). claim_all sid (expandScopeInMemory (issueRoots r) idx)) active [])"

definition ownersOf :: "jsval \<Rightarrow> string list" where
  "ownersOf v =
     (case v of
        JArr xs \<Rightarrow> concat (map (\<lambda>x. case nonempty_str x of Some s \<Rightarrow> [s] | None \<Rightarrow> []) xs)
      | JStr s \<Rightarrow> if s = [] then [] else [s]
      | _ \<Rightarrow> [])"

subsection \<open>Partial claims\<close>

record partial_claim =
  pc_totalCount :: nat
  pc_claimedCount :: nat
  pc_freeCount :: nat
  pc_sprints :: "(string \<times> nat) list"

definition tracker_parent :: "bead list \<Rightarrow> bead \<Rightarrow> string option" where
  "tracker_parent bs b =
     (case b_parentId b of
        None \<Rightarrow> None
      | Some p \<Rightarrow> if p \<noteq> [] \<and> p \<in> set (map b_id bs) then Some p else None)"

definition allChildrenOf :: "bead list \<Rightarrow> string \<Rightarrow> bead list" where
  "allChildrenOf bs i = filter (\<lambda>c. tracker_parent bs c = Some i) bs"

definition is_claimed :: "(string, jsval) jsmap \<Rightarrow> bead \<Rightarrow> bool" where
  "is_claimed claims b \<longleftrightarrow> map_of claims (b_id b) \<noteq> None"

definition count_owner :: "string \<Rightarrow> (string, nat) jsmap \<Rightarrow> (string, nat) jsmap" where
  "count_owner s m = AList.update s (case map_of m s of None \<Rightarrow> 1 | Some n \<Rightarrow> n + 1) m"

definition partial_claim_of :: "bead list \<Rightarrow> (string, jsval) jsmap \<Rightarrow> bead \<Rightarrow> partial_claim option" where
  "partial_claim_of bs claims b =
     (let kids = allChildrenOf bs (b_id b);
          claimedKids = filter (is_claimed claims) kids
      in if claimedKids = [] then None
         else Some \<lparr>pc_totalCount = length kids, pc_claimedCount = length claimedKids,
                    pc_freeCount = length kids - length claimedKids,
                    pc_sprints = fold count_owner
                      (concat (map (\<lambda>c. ownersOf (case map_of claims (b_id c) of None \<Rightarrow> JUndef | Some v \<Rightarrow> v)) claimedKids)) []\<rparr>)"

definition computePartialClaimByBead ::
  "bead list \<Rightarrow> (string, jsval) jsmap \<Rightarrow> (string, partial_claim option) jsmap"
where
  "computePartialClaimByBead bs claims =
     fold (\<lambda>b m. if is_claimed claims b then m else AList.update (b_id b) (partial_claim_of bs claims b) m) bs []"

definition formatPartialClaim :: "partial_claim \<Rightarrow> string" where
  "formatPartialClaim pc =
     show_nat (pc_claimedCount pc) @ '' of '' @ show_nat (pc_totalCount pc) @ '' children claimed by '' @
     (if pc_sprints pc = [] then ''an active sprint''
      else join_strings '', '' (map (\<lambda>s. if length (pc_sprints pc) > 1 then fst s @ '' ('' @ show_nat (snd s) @ '')'' else fst s)
             (pc_sprints pc)))
     @ ''; '' @ show_nat (pc_freeCount pc) @ '' free''"

subsection \<open>The forest\<close>

datatype backlog_node =
  BacklogNode (node_id: string) (node_title: string) (node_type: jsval) (node_status: jsval)
    (node_partial: "partial_claim option") (node_children: "backlog_node list")

definition freeKids :: "bead list \<Rightarrow> (string, jsval) jsmap \<Rightarrow> bead \<Rightarrow> bead list" where
  "freeKids bs claims b = filter (\<lambda>c. \<not> is_claimed claims c) (allChildrenOf bs (b_id b))"

definition partial_of :: "(string, partial_claim option) jsmap \<Rightarrow> string \<Rightarrow> partial_claim option" where
  "partial_of pcs i = (case map_of pcs i of Some (Some pc) \<Rightarrow> Some pc | _ \<Rightarrow> None)"

text \<open>
  \<^verbatim>\<open>buildNode\<close> with fuel for its depth: \<open>None\<close> is a recursion deeper than the fuel. A branch deeper than the number
  of beads repeats a bead, so with that much fuel \<open>None\<close> means that the recursion does not end.
\<close>

fun buildNode ::
  "nat \<Rightarrow> bead list \<Rightarrow> (string, jsval) jsmap \<Rightarrow> (string, partial_claim option) jsmap \<Rightarrow> bead \<Rightarrow> backlog_node option"
where
  "buildNode 0 bs claims pcs b = None"
| "buildNode (Suc n) bs claims pcs b =
     (case those (map (buildNode n bs claims pcs) (freeKids bs claims b)) of
        None \<Rightarrow> None
      | Some ts \<Rightarrow> Some (BacklogNode (b_id b) (b_title b) (b_issueType b) (b_status b) (partial_of pcs (b_id b)) ts))"

definition forest_roots :: "bead list \<Rightarrow> (string, jsval) jsmap \<Rightarrow> bead list" where
  "forest_roots bs claims =
     filter (\<lambda>b. \<not> is_claimed claims b \<and>
       (case tracker_parent bs b of None \<Rightarrow> True | Some p \<Rightarrow> map_of claims p \<noteq> None)) bs"

definition buildBacklogTree :: "bead list \<Rightarrow> (string, jsval) jsmap \<Rightarrow> backlog_node list option" where
  "buildBacklogTree bs claims =
     those (map (buildNode (length bs) bs claims (computePartialClaimByBead bs claims)) (forest_roots bs claims))"

definition buildTree :: "jsval \<Rightarrow> (string \<times> reservation) list \<Rightarrow> backlog_node list option" where
  "buildTree raw active = buildBacklogTree (normalize_rows raw) (buildClaimedBy raw active)"

subsection \<open>The flat task list\<close>

record bead_filters =
  bf_type :: jsval
  bf_status :: jsval
  bf_priority :: jsval
  bf_model :: jsval
  bf_q :: jsval
  bf_sort :: jsval
  bf_dir :: jsval

record filter_options =
  fo_type :: "string list"
  fo_status :: "string list"
  fo_priority :: "jsval list"
  fo_model :: "jsval list"

record filtered_tasks =
  ft_tasks :: "jsval list"
  ft_total :: nat
  ft_options :: filter_options

definition row_type :: "jsval \<Rightarrow> string" where
  "row_type r = js_str (coalesce (jfield r ''issue_type'') (coalesce (jfield r ''issueType'') (JStr [])))"

definition row_status :: "jsval \<Rightarrow> string" where
  "row_status r = js_str (coalesce (jfield r ''status'') (JStr []))"

definition row_model :: "jsval \<Rightarrow> jsval" where
  "row_model r =
     (let md = jfield r ''metadata''; v = (if truthy md then jfield md ''model'' else md)
      in if truthy v then v else JStr [])"

text \<open>\<^verbatim>\<open>norm\<close>: a non-empty string trimmed and in lower case; the empty result counts as no filter where it is tested.\<close>

definition norm_filter :: "jsval \<Rightarrow> string" where
  "norm_filter v = (case v of JStr s \<Rightarrow> js_lower (js_trim s) | _ \<Rightarrow> [])"

definition priority_filter :: "(jsval \<Rightarrow> jsval) \<Rightarrow> jsval \<Rightarrow> jsval option" where
  "priority_filter toNumber v =
     (if nullish v \<or> v = JStr [] then None
      else case toNumber v of JInt i \<Rightarrow> Some (JInt i) | JFrac q \<Rightarrow> Some (JFrac q) | _ \<Rightarrow> None)"

text \<open>One row against the filters; asking for the lower case of a model that is not a string throws.\<close>

definition model_matches :: "string \<Rightarrow> jsval \<Rightarrow> bool res" where
  "model_matches want r =
     (if want = [] then Inr True
      else case row_model r of
             JStr s \<Rightarrow> Inr (js_lower s = want)
           | _ \<Rightarrow> Inl (TypeError ''toLowerCase is not a function''))"

definition row_matches :: "(jsval \<Rightarrow> jsval) \<Rightarrow> bead_filters \<Rightarrow> jsval \<Rightarrow> bool res" where
  "row_matches toNumber f r =
     (let ty = norm_filter (bf_type f); st = norm_filter (bf_status f); q = norm_filter (bf_q f)
      in if ty \<noteq> [] \<and> js_lower (row_type r) \<noteq> ty then Inr False
         else if st \<noteq> [] \<and> js_lower (row_status r) \<noteq> st then Inr False
         else if (case priority_filter toNumber (bf_priority f) of None \<Rightarrow> False | Some p \<Rightarrow> jfield r ''priority'' \<noteq> p) then Inr False
         else ebind (model_matches (norm_filter (bf_model f)) r) (\<lambda>ok.
                if \<not> ok then Inr False
                else if q \<noteq> [] \<and> \<not> str_includes (js_lower (js_str (jfield r ''id'') @ '' ''
                          @ js_str (coalesce (jfield r ''title'') (JStr [])))) q
                then Inr False
                else Inr True))"

fun efilter :: "('a \<Rightarrow> bool res) \<Rightarrow> 'a list \<Rightarrow> 'a list res" where
  "efilter P [] = Inr []"
| "efilter P (x # xs) = ebind (P x) (\<lambda>b. ebind (efilter P xs) (\<lambda>ys. Inr (if b then x # ys else ys)))"

definition filterOptions :: "jsval list \<Rightarrow> filter_options" where
  "filterOptions rows =
     \<lparr>fo_type = sort (remdups (filter (\<lambda>v. v \<noteq> []) (map row_type rows))),
      fo_status = sort (remdups (filter (\<lambda>v. v \<noteq> []) (map row_status rows))),
      fo_priority = sort_by (\<lambda>a b. case (num_val a, num_val b) of (Some x, Some y) \<Rightarrow> sign_of (x - y) | _ \<Rightarrow> 0)
                      (remdups (filter (\<lambda>p. num_val p \<noteq> None)
                         (map (\<lambda>r. jfield r ''priority'') rows))),
      fo_model = sort_key js_str (remdups (filter (\<lambda>v. case v of JStr s \<Rightarrow> s \<noteq> [] | JArr xs \<Rightarrow> xs \<noteq> [] | _ \<Rightarrow> False)
                    (map row_model rows)))\<rparr>"

definition parseCreatedAt :: "(string \<Rightarrow> int option) \<Rightarrow> jsval \<Rightarrow> int option" where
  "parseCreatedAt dateParse r =
     (if \<not> truthy r then None
      else case nonempty_str (jfield r ''created_at'') of None \<Rightarrow> None | Some s \<Rightarrow> dateParse s)"

type_synonym decorated = "jsval \<times> nat \<times> int option"

definition cmp_created :: "bool \<Rightarrow> decorated \<Rightarrow> decorated \<Rightarrow> int" where
  "cmp_created asc a b =
     (case (snd (snd a), snd (snd b)) of
        (None, None) \<Rightarrow> int (fst (snd a)) - int (fst (snd b))
      | (None, Some _) \<Rightarrow> 1
      | (Some _, None) \<Rightarrow> - 1
      | (Some x, Some y) \<Rightarrow>
          if x = y then int (fst (snd a)) - int (fst (snd b)) else if asc then x - y else - (x - y))"

definition sortByCreatedAt :: "(string \<Rightarrow> int option) \<Rightarrow> jsval list \<Rightarrow> bool \<Rightarrow> jsval list" where
  "sortByCreatedAt dateParse tasks asc =
     map fst (sort_by (cmp_created asc) (map (\<lambda>(i, r). (r, i, parseCreatedAt dateParse r)) (enumerate 0 tasks)))"

definition applyBeadFilters ::
  "(jsval \<Rightarrow> jsval) \<Rightarrow> (string \<Rightarrow> int option) \<Rightarrow> jsval list \<Rightarrow> bead_filters \<Rightarrow> filtered_tasks res"
where
  "applyBeadFilters toNumber dateParse rows f =
     ebind (efilter (row_matches toNumber f) rows) (\<lambda>tasks.
       Inr \<lparr>ft_tasks = (if norm_filter (bf_sort f) = ''created_at''
                        then sortByCreatedAt dateParse tasks (norm_filter (bf_dir f) = ''asc'') else tasks),
            ft_total = length rows, ft_options = filterOptions rows\<rparr>)"

definition js_of_partial :: "partial_claim option \<Rightarrow> jsval" where
  "js_of_partial p =
     (case p of
        None \<Rightarrow> JNull
      | Some pc \<Rightarrow> JObj [(''totalCount'', JInt (int (pc_totalCount pc))), (''claimedCount'', JInt (int (pc_claimedCount pc))),
          (''freeCount'', JInt (int (pc_freeCount pc))),
          (''sprints'', JArr (map (\<lambda>s. JObj [(''sprintId'', JStr (fst s)), (''count'', JInt (int (snd s)))]) (pc_sprints pc)))])"

definition task_rows :: "jsval \<Rightarrow> jsval list" where
  "task_rows raw = filter (\<lambda>b. truthy b \<and> nonempty_str (jfield b ''id'') \<noteq> None) (rows_of raw)"

definition free_tasks :: "jsval \<Rightarrow> (string, jsval) jsmap \<Rightarrow> jsval list" where
  "free_tasks raw claims =
     (let rows = task_rows raw; pcs = computePartialClaimByBead (map normalizeBead rows) claims
      in map (\<lambda>b. JObj (AList.update ''partialClaim'' (js_of_partial (partial_of pcs (str_or_empty (jfield b ''id''))))
                    (AList.update ''parent'' (js_of_opt (parentIdOf b)) (case object_entries b of Inl _ \<Rightarrow> [] | Inr es \<Rightarrow> es))))
           (filter (\<lambda>b. map_of claims (str_or_empty (jfield b ''id'')) = None) rows))"

definition buildBacklogTasks ::
  "(jsval \<Rightarrow> jsval) \<Rightarrow> (string \<Rightarrow> int option) \<Rightarrow> jsval \<Rightarrow> (string \<times> reservation) list \<Rightarrow> bead_filters \<Rightarrow> filtered_tasks res"
where
  "buildBacklogTasks toNumber dateParse raw active f =
     applyBeadFilters toNumber dateParse (free_tasks raw (buildClaimedBy raw active)) f"

text \<open>The route: an absent or empty query parameter is no filter; an error is answered with 500.\<close>

definition query_filters :: "(string \<Rightarrow> string option) \<Rightarrow> bead_filters" where
  "query_filters param =
     (let get = (\<lambda>k. case param k of Some (c # s) \<Rightarrow> JStr (c # s) | _ \<Rightarrow> JUndef)
      in \<lparr>bf_type = get ''type'', bf_status = get ''status'', bf_priority = get ''priority'', bf_model = get ''model'',
          bf_q = get ''q'', bf_sort = get ''sort'', bf_dir = get ''dir''\<rparr>)"

definition js_of_tasks :: "filtered_tasks \<Rightarrow> jsval" where
  "js_of_tasks t =
     JObj [(''tasks'', JArr (ft_tasks t)), (''total'', JInt (int (ft_total t))),
           (''filterOptions'', JObj [(''type'', JArr (map JStr (fo_type (ft_options t)))),
              (''status'', JArr (map JStr (fo_status (ft_options t)))), (''priority'', JArr (fo_priority (ft_options t))),
              (''model'', JArr (fo_model (ft_options t)))])]"

definition backlog_tasks_route ::
  "(jsval \<Rightarrow> jsval) \<Rightarrow> (string \<Rightarrow> int option) \<Rightarrow> jsval res \<Rightarrow> (string \<times> reservation) list \<Rightarrow> (string \<Rightarrow> string option) \<Rightarrow> reply"
where
  "backlog_tasks_route toNumber dateParse fetch active param =
     (case ebind fetch (\<lambda>raw. buildBacklogTasks toNumber dateParse raw active (query_filters param)) of
        Inr t \<Rightarrow> (200, js_of_tasks t)
      | Inl _ \<Rightarrow> (500, JObj [(''error'', JStr ''failed to build backlog tasks'')]))"

subsection \<open>The recursion ends\<close>

definition free_kid :: "bead list \<Rightarrow> (string, jsval) jsmap \<Rightarrow> (bead \<times> bead) set" where
  "free_kid bs claims = {(p, c). c \<in> set (freeKids bs claims p)}"

lemma free_kid_iff:
  "(p, c) \<in> free_kid bs claims \<longleftrightarrow>
     c \<in> set bs \<and> tracker_parent bs c = Some (b_id p) \<and> \<not> is_claimed claims c"
  by (auto simp: free_kid_def freeKids_def allChildrenOf_def)

lemma those_None: "those xs = None \<longleftrightarrow> None \<in> set xs"
  by (induction xs) (auto split: option.splits)

lemma those_Some: "those xs = Some ys \<longleftrightarrow> xs = map Some ys"
proof (induction xs arbitrary: ys)
  case (Cons x xs)
  then show ?case by (cases ys; cases x) (auto split: option.splits)
qed auto

lemma buildNode_None_chain:
  "buildNode n bs claims pcs b = None \<Longrightarrow> \<exists>f. f 0 = b \<and> (\<forall>i<n. (f i, f (Suc i)) \<in> free_kid bs claims)"
proof (induction n arbitrary: b)
  case 0
  then show ?case by (intro exI [of _ "\<lambda>_. b"]) simp
next
  case (Suc n)
  then obtain c where c: "c \<in> set (freeKids bs claims b)" "buildNode n bs claims pcs c = None"
    by (auto simp: those_None split: option.splits)
  from Suc.IH [OF c(2)] obtain f where f: "f 0 = c" "\<forall>i<n. (f i, f (Suc i)) \<in> free_kid bs claims" by blast
  have "(case_nat b f i, case_nat b f (Suc i)) \<in> free_kid bs claims" if "i < Suc n" for i
    using that f c(1) by (cases i) (auto simp: free_kid_def)
  then show ?case by (intro exI [of _ "case_nat b f"]) simp
qed

text \<open>Ids are unique in the tracker.\<close>

abbreviation ids_unique :: "bead list \<Rightarrow> bool" where
  "ids_unique bs \<equiv> distinct (map b_id bs)"

lemma id_inj: "ids_unique bs \<Longrightarrow> a \<in> set bs \<Longrightarrow> b \<in> set bs \<Longrightarrow> b_id a = b_id b \<Longrightarrow> a = b"
  by (simp add: distinct_map inj_on_def)

lemma kid_parent_unique:
  "ids_unique bs \<Longrightarrow> a \<in> set bs \<Longrightarrow> b \<in> set bs \<Longrightarrow> (a, c) \<in> free_kid bs claims \<Longrightarrow> (b, c) \<in> free_kid bs claims \<Longrightarrow> a = b"
  by (auto simp: free_kid_iff intro: id_inj)

lemma root_no_parent:
  "r \<in> set (forest_roots bs claims) \<Longrightarrow> \<not> is_claimed claims p \<Longrightarrow> (p, r) \<notin> free_kid bs claims"
  by (auto simp: free_kid_iff forest_roots_def is_claimed_def)

lemma root_chain_inj:
  assumes u: "ids_unique bs" and r: "f 0 \<in> set (forest_roots bs claims)"
    and step: "\<And>i. i < n \<Longrightarrow> (f i, f (Suc i)) \<in> free_kid bs claims"
  shows "i < j \<Longrightarrow> j \<le> n \<Longrightarrow> f i \<noteq> f j"
proof (induction i arbitrary: j)
  have free: "k \<le> n \<Longrightarrow> f k \<in> set bs \<and> \<not> is_claimed claims (f k)" for k
    using r step by (cases k) (auto simp: forest_roots_def free_kid_iff)
  {
    case 0
    then obtain k where k: "j = Suc k" "k < n" by (cases j) auto
    with root_no_parent [OF r, of "f k"] free [of k] step [of k] show ?case by auto
  next
    case (Suc i)
    then obtain k where k: "j = Suc k" "k < n" "i < k" "i < n" by (cases j) auto
    show ?case
    proof
      assume "f (Suc i) = f j"
      then have "f i = f k"
        using kid_parent_unique [OF u, of "f i" "f k" "f j"] step [of i] step [of k] free [of i] free [of k] k by auto
      with Suc.IH [of k] k show False by simp
    qed
  }
qed

lemma buildNode_root_Some:
  assumes "ids_unique bs" "r \<in> set (forest_roots bs claims)"
  shows "buildNode (length bs) bs claims pcs r \<noteq> None"
proof
  assume "buildNode (length bs) bs claims pcs r = None"
  from buildNode_None_chain [OF this] obtain f where
    f: "f 0 = r" "\<And>i. i < length bs \<Longrightarrow> (f i, f (Suc i)) \<in> free_kid bs claims" by blast
  have "inj_on f {..length bs}"
    using root_chain_inj [OF assms(1), of f claims "length bs"] f assms(2)
    by (auto simp: inj_on_def) (metis linorder_neqE_nat)
  moreover have "f ` {..length bs} \<subseteq> set bs"
  proof
    fix x
    assume "x \<in> f ` {..length bs}"
    then obtain k where k: "x = f k" "k \<le> length bs" by auto
    show "x \<in> set bs" using k f assms(2) by (cases k) (auto simp: forest_roots_def free_kid_iff)
  qed
  ultimately have "card {..length bs} \<le> card (set bs)" by (metis card_image card_mono finite_set)
  also have "\<dots> \<le> length bs" by (rule card_length)
  finally show False by simp
qed

subsection \<open>What the forest shows\<close>

fun node_ids :: "backlog_node \<Rightarrow> string list" where
  "node_ids (BacklogNode i t ty st pc ts) = i # concat (map node_ids ts)"

abbreviation forest_ids :: "backlog_node list \<Rightarrow> string list" where
  "forest_ids ts \<equiv> concat (map node_ids ts)"

lemma rtrancl_step_Image: "R\<^sup>* `` {b} = insert b (R\<^sup>* `` (R `` {b}))"
  by (auto elim: converse_rtranclE intro: converse_rtrancl_into_rtrancl)

lemma forest_ids_Union:
  assumes "map g xs = map Some ts" "\<And>c u. g c = Some u \<Longrightarrow> set (node_ids u) = F c"
  shows "set (forest_ids ts) = (\<Union>c\<in>set xs. F c)"
  using assms(1)
proof (induction xs arbitrary: ts)
  case (Cons x xs)
  then obtain u us where "ts = u # us" "g x = Some u" "map g xs = map Some us" by (cases ts) auto
  with Cons.IH [of us] assms(2) [of x u] show ?case by simp
qed simp

lemma buildNode_ids:
  "buildNode n bs claims pcs b = Some t \<Longrightarrow> set (node_ids t) = b_id ` ((free_kid bs claims)\<^sup>* `` {b})"
proof (induction n arbitrary: b t)
  case (Suc n)
  let ?R = "free_kid bs claims"
  from Suc.prems obtain ts where ts: "map (buildNode n bs claims pcs) (freeKids bs claims b) = map Some ts"
    "t = BacklogNode (b_id b) (b_title b) (b_issueType b) (b_status b) (partial_of pcs (b_id b)) ts"
    by (auto simp: those_Some split: option.splits)
  have "set (forest_ids ts) = (\<Union>c\<in>set (freeKids bs claims b). b_id ` (?R\<^sup>* `` {c}))"
    by (rule forest_ids_Union [OF ts(1)]) (rule Suc.IH)
  moreover have "?R `` {b} = set (freeKids bs claims b)" by (auto simp: free_kid_def)
  ultimately show ?case using ts(2) rtrancl_step_Image [of ?R b] by auto
qed simp

lemma buildBacklogTree_returns:
  assumes "ids_unique bs"
  obtains ts where "buildBacklogTree bs claims = Some ts"
    "set (forest_ids ts) = b_id ` ((free_kid bs claims)\<^sup>* `` set (forest_roots bs claims))"
proof -
  let ?g = "buildNode (length bs) bs claims (computePartialClaimByBead bs claims)"
  have "None \<notin> set (map ?g (forest_roots bs claims))"
  proof
    assume "None \<in> set (map ?g (forest_roots bs claims))"
    then obtain r where "r \<in> set (forest_roots bs claims)" "?g r = None" by auto
    with buildNode_root_Some [OF assms] show False by blast
  qed
  then obtain ts where ts: "buildBacklogTree bs claims = Some ts"
    unfolding buildBacklogTree_def by (metis those_None not_None_eq)
  then have "map ?g (forest_roots bs claims) = map Some ts" by (simp add: buildBacklogTree_def those_Some)
  then have "set (forest_ids ts) = (\<Union>r\<in>set (forest_roots bs claims). b_id ` ((free_kid bs claims)\<^sup>* `` {r}))"
    by (rule forest_ids_Union) (rule buildNode_ids)
  with ts that show ?thesis by (auto simp: Image_def)
qed

text \<open>Without a cycle of parents every free bead hangs below a root.\<close>

lemma free_below_root:
  assumes "ids_unique bs" "acyclic (free_kid bs claims)" "b \<in> set bs" "\<not> is_claimed claims b"
  shows "b \<in> (free_kid bs claims)\<^sup>* `` set (forest_roots bs claims)"
proof -
  let ?R = "free_kid bs claims"
  let ?S = "?R \<inter> set bs \<times> set bs"
  have "finite ?S" by (simp add: finite_subset [of _ "set bs \<times> set bs"])
  moreover have "acyclic ?S" using assms(2) by (rule acyclic_subset) simp
  ultimately have "wf ?S" by (rule finite_acyclic_wf)
  then show ?thesis using assms(3,4)
  proof (induction b rule: wf_induct_rule)
    case (less b)
    show ?case
    proof (cases "b \<in> set (forest_roots bs claims)")
      case False
      then obtain p where p: "tracker_parent bs b = Some p" "map_of claims p = None"
        using less.prems by (auto simp: forest_roots_def split: option.splits)
      then obtain a where a: "a \<in> set bs" "b_id a = p"
        by (auto simp: tracker_parent_def split: option.splits if_splits)
      with p less.prems have e: "(a, b) \<in> ?S" "\<not> is_claimed claims a" by (auto simp: free_kid_iff is_claimed_def)
      from less.IH [OF e(1) a(1) e(2)] e(1) show ?thesis by (auto intro: rtrancl_into_rtrancl)
    qed auto
  qed
qed

lemma reach_free:
  "(r, c) \<in> (free_kid bs claims)\<^sup>* \<Longrightarrow> r \<in> set (forest_roots bs claims) \<Longrightarrow> c \<in> set bs \<and> \<not> is_claimed claims c"
  by (induction rule: rtrancl_induct) (auto simp: free_kid_iff forest_roots_def)

subsection \<open>The claimed scope\<close>

lemma claim_all_dom: "dom (map_of (claim_all sid scope m)) = dom (map_of m) \<union> set scope"
proof -
  have "dom (map_of (fold (\<lambda>i m. if map_of m i \<noteq> None then m else AList.update i (JStr sid) m) scope m)) = dom (map_of m) \<union> set scope"
    by (induction scope arbitrary: m) (auto simp: dom_def)
  then show ?thesis by (simp add: claim_all_def)
qed

lemma buildClaimedBy_dom:
  "dom (map_of (buildClaimedBy raw active)) = (\<Union>p\<in>set active. subtree (normalize_rows raw) (issueRoots (snd p)))"
proof -
  let ?idx = "buildChildIndex (normalize_rows raw)"
  have "dom (map_of (fold (\<lambda>(sid, r). claim_all sid (expandScopeInMemory (issueRoots r) ?idx)) active m)) =
      dom (map_of m) \<union> (\<Union>p\<in>set active. subtree (normalize_rows raw) (issueRoots (snd p)))" for m
  proof (induction active arbitrary: m)
    case (Cons p active)
    obtain sid r where "p = (sid, r)" by fastforce
    then show ?case by (simp add: Cons claim_all_dom expandScope_subtree Un_assoc)
  qed simp
  then show ?thesis by (simp add: buildClaimedBy_def Let_def)
qed

text \<open>
  The backlog is the tracker without what the active sprints claim. For unique ids and no cycle of
  parents among the free beads, building the forest ends, and it shows exactly the beads that are in no active
  sprint's live subtree; in whatever order the watchdog's answers arrived.
\<close>

theorem backlog_is_unclaimed:
  assumes "ids_unique (normalize_rows raw)" "acyclic (free_kid (normalize_rows raw) (buildClaimedBy raw active))"
  shows "\<exists>ts. buildTree raw active = Some ts \<and>
    set (forest_ids ts) = set (map b_id (normalize_rows raw)) - (\<Union>p\<in>set active. subtree (normalize_rows raw) (issueRoots (snd p)))"
proof -
  let ?bs = "normalize_rows raw" and ?cl = "buildClaimedBy raw active"
  obtain ts where ts: "buildBacklogTree ?bs ?cl = Some ts"
    "set (forest_ids ts) = b_id ` ((free_kid ?bs ?cl)\<^sup>* `` set (forest_roots ?bs ?cl))"
    by (rule buildBacklogTree_returns [OF assms(1)])
  have "(free_kid ?bs ?cl)\<^sup>* `` set (forest_roots ?bs ?cl) = {b \<in> set ?bs. \<not> is_claimed ?cl b}"
    using free_below_root [OF assms] reach_free by fastforce
  moreover have "is_claimed ?cl b \<longleftrightarrow> b_id b \<in> (\<Union>p\<in>set active. subtree ?bs (issueRoots (snd p)))" for b
    using buildClaimedBy_dom [of raw active] by (auto simp: is_claimed_def dom_def)
  ultimately have "set (forest_ids ts) = b_id ` {b \<in> set ?bs. b_id b \<notin> (\<Union>p\<in>set active. subtree ?bs (issueRoots (snd p)))}"
    using ts(2) by simp
  with ts(1) show ?thesis by (auto simp: buildTree_def)
qed

text \<open>
  A free bead on a cycle of parents is not shown at all: two beads that name each other as parent are
  claimed by nobody and the forest is empty.
\<close>

theorem backlog_drops_cycles:
  "buildTree (JArr [JObj [(''id'', JStr ''a''), (''parent'', JStr ''b'')], JObj [(''id'', JStr ''b''), (''parent'', JStr ''a'')]]) []
     = Some []"
  by code_simp

definition demo_tracker :: jsval where
  "demo_tracker = JArr [JObj [(''id'', JStr ''e'')], JObj [(''id'', JStr ''e.1''), (''parent'', JStr ''e'')],
     JObj [(''id'', JStr ''e.2''), (''parent'', JStr ''e'')], JObj [(''id'', JStr ''f'')]]"

theorem backlog_is_unclaimed_witness:
  "\<exists>ts. buildTree demo_tracker [(''s1'', demo_res\<lparr>issueRoots := [''e.1'']\<rparr>)] = Some ts \<and>
     set (forest_ids ts) = {''e'', ''e.1'', ''e.2'', ''f''} - subtree (normalize_rows demo_tracker) [''e.1'']"
proof -
  let ?a = "[(''s1'', demo_res\<lparr>issueRoots := [''e.1'']\<rparr>)]"
  have ids: "map b_id (normalize_rows demo_tracker) = [''e'', ''e.1'', ''e.2'', ''f'']" by code_simp
  have par: "map (tracker_parent (normalize_rows demo_tracker)) (normalize_rows demo_tracker) = [None, Some ''e'', Some ''e'', None]"
    by code_simp
  have top: "tracker_parent (normalize_rows demo_tracker) b = None \<or> b_id b \<noteq> ''e''" if "b \<in> set (normalize_rows demo_tracker)" for b
  proof -
    have "list_all (\<lambda>b. tracker_parent (normalize_rows demo_tracker) b = None \<or> b_id b \<noteq> ''e'') (normalize_rows demo_tracker)"
      by code_simp
    with that show ?thesis by (auto simp: list_all_iff)
  qed
  have edge: "b_id p = ''e'' \<and> b_id c \<noteq> ''e'' \<and> c \<in> set (normalize_rows demo_tracker)"
    if "(p, c) \<in> free_kid (normalize_rows demo_tracker) (buildClaimedBy demo_tracker ?a)" for p c
  proof -
    from that have c: "c \<in> set (normalize_rows demo_tracker)" "tracker_parent (normalize_rows demo_tracker) c = Some (b_id p)"
      by (simp_all add: free_kid_iff)
    then have "Some (b_id p) \<in> set [None, Some ''e'', Some ''e'', None]" using par by (metis image_eqI list.set_map)
    then show ?thesis using c top [OF c(1)] by auto
  qed
  have "acyclic (free_kid (normalize_rows demo_tracker) (buildClaimedBy demo_tracker ?a))"
  proof (rule acyclicI, intro allI notI)
    fix x
    assume "(x, x) \<in> (free_kid (normalize_rows demo_tracker) (buildClaimedBy demo_tracker ?a))\<^sup>+"
    then show False by (metis edge tranclE converse_tranclE)
  qed
  with backlog_is_unclaimed [of demo_tracker ?a] show ?thesis by (simp add: ids)
qed

subsection \<open>Sorting by creation time\<close>

definition created_key :: "(string \<Rightarrow> int option) \<Rightarrow> bool \<Rightarrow> jsval \<Rightarrow> nat \<times> int" where
  "created_key dateParse asc r =
     (case parseCreatedAt dateParse r of None \<Rightarrow> (1, 0) | Some ms \<Rightarrow> (0, if asc then ms else - ms))"

lemma sort_by_key:
  assumes "\<And>a b. cmp a b \<le> 0 \<longleftrightarrow> (key a :: 'k :: linorder) \<le> key b"
  shows "sort_by cmp xs = sort_key key xs"
proof -
  have "insert_by cmp x ys = insort_key key x ys" for x ys
    by (induction ys) (auto simp: assms)
  then have "insert_by cmp = insort_key key" by (simp add: fun_eq_iff)
  then show ?thesis by (simp add: sort_by_def sort_key_def)
qed

lemma insort_key_agree:
  "f x = g x \<Longrightarrow> \<forall>y\<in>set ys. f y = g y \<Longrightarrow> insort_key f x ys = insort_key g x ys"
  by (induction ys) auto

lemma sort_key_agree: "\<forall>x\<in>set xs. f x = g x \<Longrightarrow> sort_key f xs = sort_key g xs"
  by (induction xs) (auto intro!: insort_key_agree)

text \<open>Sorting with the position as the last key is sorting stably without it.\<close>

lemma insort_decorated:
  "\<forall>y\<in>set ys. n < fst (snd y) \<Longrightarrow>
     map fst (insort_key (\<lambda>d. (k (fst d), fst (snd d))) (x, n, m) ys) = insort_key k x (map fst ys)"
  for ys :: "('a \<times> nat \<times> 'b) list"
  by (induction ys) (auto simp: less_eq_prod_def)

lemma sort_decorated:
  "map fst (sort_key (\<lambda>d. (k (fst d), fst (snd d))) (map (\<lambda>(i, r). (r, i, g r)) (enumerate n xs))) = sort_key k xs"
proof (induction xs arbitrary: n)
  case (Cons x xs)
  let ?ys = "sort_key (\<lambda>d. (k (fst d), fst (snd d))) (map (\<lambda>(i, r). (r, i, g r)) (enumerate (Suc n) xs))"
  have "\<forall>y\<in>set ?ys. n < fst (snd y)" by (auto simp: in_set_enumerate_eq)
  from insort_decorated [OF this, of k x "g x"] Cons.IH [of "Suc n"] show ?case by simp
qed simp

lemma sort_created:
  "sortByCreatedAt dateParse tasks asc = sort_key (created_key dateParse asc) tasks"
proof -
  let ?ds = "map (\<lambda>(i, r). (r, i, parseCreatedAt dateParse r)) (enumerate 0 tasks)"
  let ?key = "\<lambda>d. ((case snd (snd d) of None \<Rightarrow> (1 :: nat, 0) | Some ms \<Rightarrow> (0, if asc then ms else - ms)), fst (snd d))"
  have "sort_by (cmp_created asc) ?ds = sort_key ?key ?ds"
    by (rule sort_by_key) (auto simp: cmp_created_def less_eq_prod_def split: option.splits)
  also have "\<dots> = sort_key (\<lambda>d. (created_key dateParse asc (fst d), fst (snd d))) ?ds"
    by (rule sort_key_agree) (auto simp: created_key_def)
  finally show ?thesis
    unfolding sortByCreatedAt_def
    using sort_decorated [of "created_key dateParse asc" "parseCreatedAt dateParse" 0 tasks] by (simp only:)
qed

text \<open>
  The creation-time sort is the library's stable sort: rows ordered by their time, ascending or
  descending, rows without a readable time last in both directions, and rows with equal times in their old order.
\<close>

theorem sortByCreatedAt_stable:
  "sortByCreatedAt dateParse tasks asc = sort_key (created_key dateParse asc) tasks"
  by (rule sort_created)

subsection \<open>Filtering\<close>

lemma efilter_Inr:
  "efilter P xs = Inr ys \<Longrightarrow> ys = filter (\<lambda>x. P x = Inr True) xs \<and> (\<forall>x\<in>set xs. \<exists>b. P x = Inr b)"
  by (induction xs arbitrary: ys) (auto simp: ebind_eq_Inr)

text \<open>
  The flat task list is exact: up to the requested order it consists of the free rows that pass every
  filter, the total counts all free rows, and without a sort request the rows keep the tracker's order.
\<close>

theorem backlog_tasks_exact:
  assumes "buildBacklogTasks toNumber dateParse raw active f = Inr t"
  shows "mset (ft_tasks t) = mset (filter (\<lambda>r. row_matches toNumber f r = Inr True) (free_tasks raw (buildClaimedBy raw active))) \<and>
    ft_total t = length (free_tasks raw (buildClaimedBy raw active)) \<and>
    (norm_filter (bf_sort f) \<noteq> ''created_at'' \<longrightarrow>
       ft_tasks t = filter (\<lambda>r. row_matches toNumber f r = Inr True) (free_tasks raw (buildClaimedBy raw active)))"
proof -
  from assms obtain ys where y: "efilter (row_matches toNumber f) (free_tasks raw (buildClaimedBy raw active)) = Inr ys"
    and t: "ft_tasks t = (if norm_filter (bf_sort f) = ''created_at''
        then sortByCreatedAt dateParse ys (norm_filter (bf_dir f) = ''asc'') else ys)"
      "ft_total t = length (free_tasks raw (buildClaimedBy raw active))"
    by (auto simp: buildBacklogTasks_def applyBeadFilters_def ebind_eq_Inr)
  have "mset (sortByCreatedAt dateParse ys asc) = mset ys" for asc
    by (simp add: sort_created)
  with efilter_Inr [OF y] t show ?thesis by simp
qed

theorem backlog_tasks_exact_witness:
  "\<exists>t. buildBacklogTasks (\<lambda>v. v) (\<lambda>_. None) demo_tracker [(''s1'', demo_res\<lparr>issueRoots := [''e'']\<rparr>)]
       (query_filters (\<lambda>k. if k = ''q'' then Some ''F'' else None)) = Inr t \<and> length (ft_tasks t) = 1 \<and> ft_total t = 1"
proof -
  let ?f = "query_filters (\<lambda>k. if k = ''q'' then Some ''F'' else None)"
  let ?a = "[(''s1'', demo_res\<lparr>issueRoots := [''e'']\<rparr>)]"
  have rows: "free_tasks demo_tracker (buildClaimedBy demo_tracker ?a) =
      [JObj [(''id'', JStr ''f''), (''parent'', JNull), (''partialClaim'', JNull)]]" by code_simp
  have "case buildBacklogTasks (\<lambda>v. v) (\<lambda>_. None) demo_tracker ?a ?f of Inr _ \<Rightarrow> True | Inl _ \<Rightarrow> False" by code_simp
  then obtain t where t: "buildBacklogTasks (\<lambda>v. v) (\<lambda>_. None) demo_tracker ?a ?f = Inr t"
    by (cases "buildBacklogTasks (\<lambda>v. v) (\<lambda>_. None) demo_tracker ?a ?f") auto
  have "filter (\<lambda>r. row_matches (\<lambda>v. v) ?f r = Inr True) (free_tasks demo_tracker (buildClaimedBy demo_tracker ?a)) =
      [JObj [(''id'', JStr ''f''), (''parent'', JNull), (''partialClaim'', JNull)]]" by code_simp
  with backlog_tasks_exact [OF t] rows have "mset (ft_tasks t) = {#JObj [(''id'', JStr ''f''), (''parent'', JNull), (''partialClaim'', JNull)]#}"
    "ft_total t = 1" by simp_all
  moreover from this(1) have "length (ft_tasks t) = 1" by (metis size_mset size_single)
  ultimately show ?thesis using t by blast
qed

subsection \<open>Partial claims\<close>

lemma update_count_sum: "jmap_ok m \<Longrightarrow> map_of m s = Some n \<Longrightarrow> sum_list (map snd (AList.update s (Suc n) m)) = Suc (sum_list (map snd m))"
  by (induction m) (auto simp: jmap_ok_def split: if_splits)

lemma count_owner_sum:
  "jmap_ok m \<Longrightarrow> sum_list (map snd (count_owner s m)) = Suc (sum_list (map snd m)) \<and> jmap_ok (count_owner s m)"
proof (cases "map_of m s")
  case None
  then have "count_owner s m = m @ [(s, 1)]" by (simp add: count_owner_def update_fresh_None)
  moreover assume "jmap_ok m"
  ultimately show ?thesis using None by (simp add: jmap_ok_def map_of_eq_None_iff)
qed (simp add: count_owner_def update_count_sum jmap_ok_update)

lemma fold_count_sum:
  "jmap_ok m \<Longrightarrow> sum_list (map snd (fold count_owner xs m)) = length xs + sum_list (map snd m) \<and> jmap_ok (fold count_owner xs m)"
  by (induction xs arbitrary: m) (simp_all add: count_owner_sum)

definition claims_named :: "(string, jsval) jsmap \<Rightarrow> bool" where
  "claims_named m \<longleftrightarrow> (\<forall>i v. map_of m i = Some v \<longrightarrow> (\<exists>s. v = JStr s \<and> s \<noteq> []))"

lemma buildClaimedBy_named:
  assumes "[] \<notin> fst ` set active"
  shows "claims_named (buildClaimedBy raw active)"
proof -
  have one: "claims_named (claim_all sid scope m)" if "claims_named m" "sid \<noteq> []" for sid scope m
    unfolding claim_all_def using that
  proof (induction scope arbitrary: m)
    case (Cons i scope)
    then have "claims_named (AList.update i (JStr sid) m)" by (simp add: claims_named_def)
    with Cons show ?case by simp
  qed simp
  have "claims_named (fold (\<lambda>(sid, r). claim_all sid (expandScopeInMemory (issueRoots r) idx)) active m)" if "claims_named m" for idx m
    using assms that
  proof (induction active arbitrary: m)
    case (Cons p active)
    obtain sid r where p: "p = (sid, r)" by fastforce
    with Cons.prems have "claims_named (claim_all sid (expandScopeInMemory (issueRoots r) idx) m)" by (intro one) auto
    with Cons.IH Cons.prems(1) p show ?case by auto
  qed simp
  from this [of "[]"] show ?thesis unfolding buildClaimedBy_def Let_def by (simp add: claims_named_def)
qed

lemma owners_length:
  assumes "claims_named claims"
  shows "length (concat (map (\<lambda>c. ownersOf (case map_of claims (b_id c) of None \<Rightarrow> JUndef | Some v \<Rightarrow> v))
           (filter (is_claimed claims) kids))) = length (filter (is_claimed claims) kids)"
proof -
  have "length (ownersOf (case map_of claims (b_id c) of None \<Rightarrow> JUndef | Some v \<Rightarrow> v)) = 1" if "is_claimed claims c" for c
  proof -
    from that obtain v where v: "map_of claims (b_id c) = Some v" by (auto simp: is_claimed_def)
    with assms obtain s where "v = JStr s" "s \<noteq> []" unfolding claims_named_def by blast
    with v show ?thesis by (simp add: ownersOf_def)
  qed
  then show ?thesis by (induction kids) auto
qed

text \<open>
  A partial-claim annotation adds up: it appears only on a bead with a claimed child, claimed and free
  children make up all children in the tracker, and the counts per sprint, one entry per sprint, make up the
  claimed ones.
\<close>

theorem partial_claim_adds_up:
  assumes "[] \<notin> fst ` set active" "partial_claim_of bs (buildClaimedBy raw active) b = Some pc"
  shows "0 < pc_claimedCount pc \<and> pc_claimedCount pc + pc_freeCount pc = pc_totalCount pc \<and>
    pc_totalCount pc = length (allChildrenOf bs (b_id b)) \<and>
    sum_list (map snd (pc_sprints pc)) = pc_claimedCount pc \<and> distinct (map fst (pc_sprints pc))"
proof -
  let ?cl = "buildClaimedBy raw active" and ?kids = "allChildrenOf bs (b_id b)"
  let ?ow = "concat (map (\<lambda>c. ownersOf (case map_of ?cl (b_id c) of None \<Rightarrow> JUndef | Some v \<Rightarrow> v)) (filter (is_claimed ?cl) ?kids))"
  from assms(2) have pc: "filter (is_claimed ?cl) ?kids \<noteq> []"
    "pc = \<lparr>pc_totalCount = length ?kids, pc_claimedCount = length (filter (is_claimed ?cl) ?kids),
           pc_freeCount = length ?kids - length (filter (is_claimed ?cl) ?kids), pc_sprints = fold count_owner ?ow []\<rparr>"
    by (auto simp: partial_claim_of_def Let_def split: if_splits)
  have "sum_list (map snd (pc_sprints pc)) = length ?ow" "jmap_ok (pc_sprints pc)"
    using fold_count_sum [of "[]" ?ow] pc(2) by simp_all
  with owners_length [OF buildClaimedBy_named [OF assms(1)], of raw ?kids] pc show ?thesis
    by (simp add: jmap_ok_def)
qed

theorem partial_claim_adds_up_witness:
  "\<exists>pc b. partial_claim_of (normalize_rows demo_tracker) (buildClaimedBy demo_tracker [(''s1'', demo_res\<lparr>issueRoots := [''e.1'']\<rparr>)]) b
       = Some pc \<and> pc_claimedCount pc + pc_freeCount pc = pc_totalCount pc \<and> pc_totalCount pc = 2"
proof -
  let ?a = "[(''s1'', demo_res\<lparr>issueRoots := [''e.1'']\<rparr>)]"
  let ?b = "normalizeBead (JObj [(''id'', JStr ''e'')])"
  have p: "partial_claim_of (normalize_rows demo_tracker) (buildClaimedBy demo_tracker ?a) ?b =
      Some \<lparr>pc_totalCount = 2, pc_claimedCount = 1, pc_freeCount = 1, pc_sprints = [(''s1'', 1)]\<rparr>" by code_simp
  have "[] \<notin> fst ` set ?a" by simp
  from partial_claim_adds_up [OF this p] have
    "pc_claimedCount \<lparr>pc_totalCount = 2, pc_claimedCount = 1, pc_freeCount = 1, pc_sprints = [(''s1'', 1)]\<rparr> +
     pc_freeCount \<lparr>pc_totalCount = 2, pc_claimedCount = 1, pc_freeCount = 1, pc_sprints = [(''s1'', 1)]\<rparr> =
     pc_totalCount \<lparr>pc_totalCount = 2, pc_claimedCount = 1, pc_freeCount = 1, pc_sprints = [(''s1'', 1)]\<rparr>" by blast
  with p show ?thesis by (intro exI conjI) (assumption, assumption, simp)
qed

end
