(* ===== verification/Lease.thy ===== *)
theory Lease
  imports JS_Prelude
begin

section \<open>Leases and tokens\<close>

text \<open>
  What the push mutex and the child-id allocator share: the injected clock, liveness probe and lease
  duration, and the token both mint with a \<^verbatim>\<open>nextToken\<close> of the same text (\<^verbatim>\<open>dolt-mutex.mjs\<close>,
  \<^verbatim>\<open>id-allocator.mjs\<close>). The readings of a clock and the answers of a probe are arbitrary functions of
  a counter that each reading advances.
\<close>

record lease_env =
  e_leaseMs :: int
  e_now :: "nat \<Rightarrow> int"
  e_date :: "nat \<Rightarrow> nat"
  e_probe :: "nat \<Rightarrow> int \<Rightarrow> bool"

subsection \<open>Tokens\<close>

definition base36_digit :: "nat \<Rightarrow> char" where
  "base36_digit d = (if d < 10 then char_of (48 + d) else char_of (87 + d))"

fun show_base36 :: "nat \<Rightarrow> string" where
  "show_base36 n =
     (if n < 36 then [base36_digit n] else show_base36 (n div 36) @ [base36_digit (n mod 36)])"

declare show_base36.simps [simp del]

definition nextToken :: "string \<Rightarrow> nat \<Rightarrow> nat \<Rightarrow> string" where
  "nextToken sprintId seq date = sprintId @ CHR ''#'' # show_nat seq @ CHR ''#'' # show_base36 date"

text \<open>Tokens are collision-free: the sequence number can be read back from the token.\<close>

lemma base36_no_hash: "CHR ''#'' \<notin> set (show_base36 n)"
proof (induction n rule: show_base36.induct)
  case (1 n)
  have d: "CHR ''#'' \<noteq> base36_digit k" if "k < 36" for k
  proof
    assume "CHR ''#'' = base36_digit k"
    then have "(of_char CHR ''#'' :: nat) = of_char (base36_digit k)" by simp
    moreover have "(of_char (base36_digit k) :: nat) \<ge> 48"
      using that by (auto simp: base36_digit_def of_char_of take_bit_eq_mod)
    ultimately show False by simp
  qed
  show ?case using 1 d by (subst show_base36.simps) auto
qed

lemma show_nat_no_hash: "CHR ''#'' \<notin> set (show_nat n)"
proof
  assume "CHR ''#'' \<in> set (show_nat n)"
  from show_nat_digits [OF this] show False by simp
qed

lemma nextToken_seq: "nextToken s i d = nextToken s' j d' \<Longrightarrow> i = j"
proof -
  assume "nextToken s i d = nextToken s' j d'"
  then have "(s @ CHR ''#'' # show_nat i) @ CHR ''#'' # show_base36 d
      = (s' @ CHR ''#'' # show_nat j) @ CHR ''#'' # show_base36 d'"
    by (simp add: nextToken_def)
  then have "s @ CHR ''#'' # show_nat i = s' @ CHR ''#'' # show_nat j"
    by (rule split_last_eq [THEN conjunct1]) (simp_all add: base36_no_hash)
  then have "show_nat i = show_nat j"
    by (rule split_last_eq [THEN conjunct2]) (simp_all add: show_nat_no_hash)
  then show ?thesis by simp
qed

text \<open>A token minted with a sequence number not above \<open>n\<close>.\<close>

definition token_below :: "nat \<Rightarrow> string \<Rightarrow> bool" where
  "token_below n t \<longleftrightarrow> (\<exists>s i d. t = nextToken s i d \<and> i \<le> n)"

lemma token_below_fresh: "token_below n t \<Longrightarrow> t \<noteq> nextToken s (Suc n) d"
  by (auto simp: token_below_def dest!: nextToken_seq)

lemma token_below_mono: "token_below m t \<Longrightarrow> m \<le> n \<Longrightarrow> token_below n t"
  by (auto simp: token_below_def) (metis order_trans)

lemma token_below_next: "token_below n (nextToken s n d)"
  by (auto simp: token_below_def)

end
