(* ===== verification/Dolt_Mutex.thy ===== *)
theory Dolt_Mutex
  imports Lease
begin

section \<open>The global dolt push mutex\<close>

text \<open>
  The lease-based FIFO mutex of \<^verbatim>\<open>packages/apra-fleet-se/src/supervisor/dolt-mutex.mjs\<close>, with its HTTP
  routes. The state holds the closure variables of \<^verbatim>\<open>createDoltMutex\<close> and the module's \<^verbatim>\<open>tokenSeq\<close>.
  A waiter's \<^verbatim>\<open>resolve\<close> and \<^verbatim>\<open>reject\<close> are the number of the promise they settle; the settlements and
  the log lines are appended to \<open>mx_out\<close> in the order the code performs them. Every reading of a clock
  advances \<open>mx_ticks\<close>, so two readings in one operation may differ; the clocks and the liveness probe of
  a process are arbitrary functions of that counter.
\<close>

subsection \<open>State\<close>

definition DEFAULT_LEASE_MS :: int where "DEFAULT_LEASE_MS = 60000"
definition DEFAULT_SWEEP_MS :: int where "DEFAULT_SWEEP_MS = 5000"

record mx_grant =
  g_token :: string
  g_sprintId :: string
  g_expiresAt :: int

record mx_holder_rec =
  h_sprintId :: string
  h_token :: string
  h_pid :: "int option"
  h_acquiredAt :: int
  h_expiresAt :: int

record mx_waiter =
  w_sprintId :: string
  w_pid :: "int option"
  w_promise :: nat
  w_enqueuedAt :: int

datatype mx_event =
    EvGrant nat mx_grant
  | EvReject nat js_error
  | EvReclaim string
  | EvRelease string

record mutex =
  mx_holder :: "mx_holder_rec option"
  mx_waiters :: "mx_waiter list"
  mx_seq :: nat
  mx_timer :: bool
  mx_ticks :: nat
  mx_promises :: nat
  mx_out :: "mx_event list"

definition mutex_leaseMs :: "int option \<Rightarrow> int" where
  "mutex_leaseMs ms = (case ms of Some i \<Rightarrow> if i > 0 then i else DEFAULT_LEASE_MS | None \<Rightarrow> DEFAULT_LEASE_MS)"

definition new_mutex :: mutex where
  "new_mutex = \<lparr>mx_holder = None, mx_waiters = [], mx_seq = 0, mx_timer = False,
     mx_ticks = 0, mx_promises = 0, mx_out = []\<rparr>"

definition emit :: "mx_event \<Rightarrow> mutex \<Rightarrow> mutex" where
  "emit e m = m\<lparr>mx_out := mx_out m @ [e]\<rparr>"

definition tick :: "mutex \<Rightarrow> mutex" where
  "tick m = m\<lparr>mx_ticks := Suc (mx_ticks m)\<rparr>"

subsection \<open>Operations\<close>

definition mx_grant_to :: "lease_env \<Rightarrow> mx_waiter \<Rightarrow> mutex \<Rightarrow> mutex" where
  "mx_grant_to env w m0 =
     (let t = e_now env (mx_ticks m0);
          m = tick m0;
          token = nextToken (w_sprintId w) (Suc (mx_seq m)) (e_date env (mx_ticks m));
          h = \<lparr>h_sprintId = w_sprintId w, h_token = token, h_pid = w_pid w,
               h_acquiredAt = t, h_expiresAt = t + e_leaseMs env\<rparr>
      in emit (EvGrant (w_promise w) \<lparr>g_token = token, g_sprintId = w_sprintId w, g_expiresAt = t + e_leaseMs env\<rparr>)
           ((tick m)\<lparr>mx_seq := Suc (mx_seq m), mx_holder := Some h\<rparr>))"

definition mx_pump :: "lease_env \<Rightarrow> mutex \<Rightarrow> mutex" where
  "mx_pump env m =
     (if mx_holder m \<noteq> None then m
      else case mx_waiters m of
             [] \<Rightarrow> m
           | w # ws \<Rightarrow> mx_grant_to env w (m\<lparr>mx_waiters := ws\<rparr>))"

definition mx_reclaimExpired :: "lease_env \<Rightarrow> mutex \<Rightarrow> mutex \<times> bool" where
  "mx_reclaimExpired env m0 =
     (case mx_holder m0 of
        None \<Rightarrow> (m0, False)
      | Some h \<Rightarrow>
          let t = e_now env (mx_ticks m0);
              m = tick m0;
              leaseExpired = (t \<ge> h_expiresAt h);
              pidDead = (case h_pid h of None \<Rightarrow> False | Some p \<Rightarrow> \<not> e_probe env (mx_ticks m) p)
          in if \<not> leaseExpired \<and> \<not> pidDead then (m, False)
             else (mx_pump env ((emit (EvReclaim (h_sprintId h)) m)\<lparr>mx_holder := None\<rparr>), True))"

definition mx_acquire :: "lease_env \<Rightarrow> jsval \<Rightarrow> jsval \<Rightarrow> mutex \<Rightarrow> mutex \<times> nat" where
  "mx_acquire env sprintId pid m0 =
     (let p = mx_promises m0; m = m0\<lparr>mx_promises := Suc p\<rparr> in
      case nonempty_str sprintId of
        None \<Rightarrow> (emit (EvReject p (TypeError ''acquire() requires a non-empty sprintId'')) m, p)
      | Some sid \<Rightarrow>
          if \<not> nullish pid \<and> \<not> is_int pid
          then (emit (EvReject p (TypeError ''acquire() pid must be an integer or null'')) m, p)
          else
            let m1 = fst (mx_reclaimExpired env m);
                w = \<lparr>w_sprintId = sid, w_pid = (case pid of JInt i \<Rightarrow> Some i | _ \<Rightarrow> None),
                     w_promise = p, w_enqueuedAt = e_now env (mx_ticks m1)\<rparr>;
                m2 = (tick m1)\<lparr>mx_waiters := mx_waiters m1 @ [w]\<rparr>
            in (mx_pump env m2, p))"

definition mx_release :: "lease_env \<Rightarrow> string \<Rightarrow> mutex \<Rightarrow> mutex \<times> bool" where
  "mx_release env token m =
     (case mx_holder m of
        None \<Rightarrow> (m, False)
      | Some h \<Rightarrow>
          if h_token h \<noteq> token then (m, False)
          else (mx_pump env ((emit (EvRelease (h_sprintId h)) m)\<lparr>mx_holder := None\<rparr>), True))"

definition mx_renew :: "lease_env \<Rightarrow> string \<Rightarrow> mutex \<Rightarrow> mutex \<times> int option" where
  "mx_renew env token m =
     (case mx_holder m of
        None \<Rightarrow> (m, None)
      | Some h \<Rightarrow>
          if h_token h \<noteq> token then (m, None)
          else let e = e_now env (mx_ticks m) + e_leaseMs env
               in ((tick m)\<lparr>mx_holder := Some (h\<lparr>h_expiresAt := e\<rparr>)\<rparr>, Some e))"

text \<open>The loop of \<^verbatim>\<open>cancelWaiter\<close> runs from the back, so the rejections come in reverse order.\<close>

definition mx_cancelWaiter :: "string \<Rightarrow> js_error option \<Rightarrow> mutex \<Rightarrow> mutex \<times> nat" where
  "mx_cancelWaiter sprintId reason m =
     (let dropped = filter (\<lambda>w. w_sprintId w = sprintId) (rev (mx_waiters m));
          e = (case reason of Some r \<Rightarrow> r | None \<Rightarrow> GeneralError ''acquire cancelled for sprint'')
      in (m\<lparr>mx_waiters := filter (\<lambda>w. w_sprintId w \<noteq> sprintId) (mx_waiters m),
            mx_out := mx_out m @ map (\<lambda>w. EvReject (w_promise w) e) dropped\<rparr>,
          length dropped))"

definition mx_start :: "mutex \<Rightarrow> mutex" where
  "mx_start m = m\<lparr>mx_timer := True\<rparr>"

definition mx_stop :: "mutex \<Rightarrow> mutex" where
  "mx_stop m = m\<lparr>mx_timer := False, mx_waiters := [],
     mx_out := mx_out m @ map (\<lambda>w. EvReject (w_promise w) (GeneralError ''dolt mutex is shutting down'')) (mx_waiters m)\<rparr>"

text \<open>\<^verbatim>\<open>status\<close>: the holder without its token, and the queue.\<close>

definition mx_status :: "mutex \<Rightarrow> jsval" where
  "mx_status m =
     JObj [(''held'', JBool (mx_holder m \<noteq> None)),
           (''holder'', case mx_holder m of None \<Rightarrow> JNull
              | Some h \<Rightarrow> JObj [(''sprintId'', JStr (h_sprintId h)), (''pid'', js_of_pid (h_pid h)),
                  (''acquiredAt'', JInt (h_acquiredAt h)), (''expiresAt'', JInt (h_expiresAt h))]),
           (''waiting'', JArr (map (\<lambda>w. JObj [(''sprintId'', JStr (w_sprintId w)), (''pid'', js_of_pid (w_pid w)),
                  (''enqueuedAt'', JInt (w_enqueuedAt w))]) (mx_waiters m))),
           (''queueDepth'', JInt (int (length (mx_waiters m))))]"

text \<open>Everything a supervisor does to its mutex, one operation per step.\<close>

datatype mx_op =
    OpAcquire jsval jsval
  | OpRelease string
  | OpRenew string
  | OpReclaim
  | OpCancel string "js_error option"
  | OpStart
  | OpStop

fun mx_step :: "lease_env \<Rightarrow> mx_op \<Rightarrow> mutex \<Rightarrow> mutex" where
  "mx_step env (OpAcquire sid pid) m = fst (mx_acquire env sid pid m)"
| "mx_step env (OpRelease tok) m = fst (mx_release env tok m)"
| "mx_step env (OpRenew tok) m = fst (mx_renew env tok m)"
| "mx_step env OpReclaim m = fst (mx_reclaimExpired env m)"
| "mx_step env (OpCancel sid r) m = fst (mx_cancelWaiter sid r m)"
| "mx_step env OpStart m = mx_start m"
| "mx_step env OpStop m = mx_stop m"

subsection \<open>Routes\<close>

text \<open>
  The acquire route answers in two parts: the request is accepted with a promise, and later either the
  connection closes or the promise settles. A request remembers its response's \<^verbatim>\<open>destroyed\<close> and
  \<^verbatim>\<open>writableEnded\<close> flags and the body it ended with. \<open>body\<close> is the parsed JSON body.
\<close>

record acquire_req =
  rq_sprintId :: string
  rq_promise :: nat
  rq_destroyed :: bool
  rq_ended :: bool
  rq_sent :: "jsval option"

definition acquire_route :: "lease_env \<Rightarrow> string \<Rightarrow> jsval \<Rightarrow> mutex \<Rightarrow> mutex \<times> (reply + acquire_req)" where
  "acquire_route env sprintId body m =
     (if sprintId = [] then (m, Inl (400, JObj [(''error'', JStr ''missing sprintId in path'')]))
      else case mx_acquire env (JStr sprintId) (jfield (body_or_empty body) ''pid'') m of
             (m', p) \<Rightarrow> (m', Inr \<lparr>rq_sprintId = sprintId, rq_promise = p, rq_destroyed = False,
                               rq_ended = False, rq_sent = None\<rparr>))"

definition acquire_on_close :: "acquire_req \<Rightarrow> mutex \<Rightarrow> mutex \<times> acquire_req" where
  "acquire_on_close rq m =
     ((if \<not> rq_ended rq
       then fst (mx_cancelWaiter (rq_sprintId rq) (Some (GeneralError ''acquire request aborted by client'')) m)
       else m), rq\<lparr>rq_destroyed := True\<rparr>)"

definition acquire_on_grant :: "lease_env \<Rightarrow> mx_grant \<Rightarrow> acquire_req \<Rightarrow> mutex \<Rightarrow> mutex \<times> acquire_req" where
  "acquire_on_grant env g rq m =
     (if rq_destroyed rq then (fst (mx_release env (g_token g) m), rq)
      else (m, rq\<lparr>rq_ended := True, rq_sent := Some (JObj [(''status'', JStr ''acquired''), (''token'', JStr (g_token g)),
              (''sprintId'', JStr (g_sprintId g)), (''expiresAt'', JInt (g_expiresAt g))])\<rparr>))"

definition acquire_on_reject :: "js_error \<Rightarrow> acquire_req \<Rightarrow> acquire_req" where
  "acquire_on_reject e rq =
     (if rq_destroyed rq then rq
      else rq\<lparr>rq_ended := True, rq_sent := Some (JObj [(''error'', JStr (''acquire failed: '' @ error_text e))])\<rparr>)"

definition release_route :: "lease_env \<Rightarrow> string \<Rightarrow> jsval \<Rightarrow> mutex \<Rightarrow> mutex \<times> reply" where
  "release_route env sprintId body m =
     (if sprintId = [] then (m, 400, JObj [(''error'', JStr ''missing sprintId in path'')])
      else case nonempty_str (jfield (body_or_empty body) ''token'') of
             None \<Rightarrow> (m, 400, JObj [(''error'', JStr ''release requires a token'')])
           | Some tok \<Rightarrow>
               (case mx_release env tok m of (m', released) \<Rightarrow> (m', 200, JObj [(''released'', JBool released)])))"

definition renew_route :: "lease_env \<Rightarrow> string \<Rightarrow> jsval \<Rightarrow> mutex \<Rightarrow> mutex \<times> reply" where
  "renew_route env sprintId body m =
     (if sprintId = [] then (m, 400, JObj [(''error'', JStr ''missing sprintId in path'')])
      else case nonempty_str (jfield (body_or_empty body) ''token'') of
             None \<Rightarrow> (m, 400, JObj [(''error'', JStr ''renew requires a token'')])
           | Some tok \<Rightarrow>
               (case mx_renew env tok m of
                  (m', None) \<Rightarrow> (m', 200, JObj [(''renewed'', JBool False)])
                | (m', Some e) \<Rightarrow> (m', 200, JObj [(''renewed'', JBool True), (''expiresAt'', JInt e)])))"

definition mx_run :: "lease_env \<Rightarrow> mx_op list \<Rightarrow> mutex" where
  "mx_run env ops = fold (mx_step env) ops new_mutex"

subsection \<open>Push windows and the grant order\<close>

text \<open>
  The push windows of a trace: a grant opens one, a release or a reclaim closes the one of the sprint it
  names. \<open>None\<close> means that two windows overlapped or that one was closed that was not open.
\<close>

fun run_windows :: "mx_event list \<Rightarrow> (string \<times> string) option \<Rightarrow> (string \<times> string) option option" where
  "run_windows [] s = Some s"
| "run_windows (EvGrant p g # es) s =
     (if s = None then run_windows es (Some (g_sprintId g, g_token g)) else None)"
| "run_windows (EvReject p e # es) s = run_windows es s"
| "run_windows (EvReclaim sid # es) s =
     (case s of None \<Rightarrow> None | Some (x, t) \<Rightarrow> if x = sid then run_windows es None else None)"
| "run_windows (EvRelease sid # es) s =
     (case s of None \<Rightarrow> None | Some (x, t) \<Rightarrow> if x = sid then run_windows es None else None)"

fun grants :: "mx_event list \<Rightarrow> (nat \<times> mx_grant) list" where
  "grants [] = []"
| "grants (EvGrant p g # es) = (p, g) # grants es"
| "grants (_ # es) = grants es"

abbreviation window_of :: "mx_holder_rec option \<Rightarrow> (string \<times> string) option" where
  "window_of \<equiv> map_option (\<lambda>h. (h_sprintId h, h_token h))"

lemma run_windows_append: "run_windows (es @ fs) s = Option.bind (run_windows es s) (run_windows fs)"
  by (induction es s rule: run_windows.induct) (auto split: option.splits)

lemma grants_append [simp]: "grants (es @ fs) = grants es @ grants fs"
  by (induction es rule: grants.induct) auto

lemma run_windows_rejects [simp]: "run_windows (map (\<lambda>w. EvReject (f w) e) ws) s = Some s"
  by (induction ws) auto

lemma grants_rejects [simp]: "grants (map (\<lambda>w. EvReject (f w) e) ws) = []"
  by (induction ws) auto

subsection \<open>The invariant\<close>

definition mx_core :: "nat \<Rightarrow> mutex \<Rightarrow> bool" where
  "mx_core b m \<longleftrightarrow>
     run_windows (mx_out m) None = Some (window_of (mx_holder m)) \<and>
     sorted_wrt (<) (map fst (grants (mx_out m)) @ map w_promise (mx_waiters m)) \<and>
     (\<forall>p\<in>set (map fst (grants (mx_out m)) @ map w_promise (mx_waiters m)). p < b) \<and>
     distinct (map (g_token \<circ> snd) (grants (mx_out m))) \<and>
     (\<forall>t\<in>set (map (g_token \<circ> snd) (grants (mx_out m))). token_below (mx_seq m) t)"

definition mx_inv :: "mutex \<Rightarrow> bool" where
  "mx_inv m \<longleftrightarrow> mx_core (mx_promises m) m \<and> (mx_holder m = None \<longrightarrow> mx_waiters m = [])"

lemma tick_simps [simp]:
  "mx_holder (tick m) = mx_holder m" "mx_waiters (tick m) = mx_waiters m" "mx_seq (tick m) = mx_seq m"
  "mx_out (tick m) = mx_out m" "mx_promises (tick m) = mx_promises m" "mx_ticks (tick m) = Suc (mx_ticks m)"
  by (simp_all add: tick_def)

lemma emit_simps [simp]:
  "mx_holder (emit e m) = mx_holder m" "mx_waiters (emit e m) = mx_waiters m" "mx_seq (emit e m) = mx_seq m"
  "mx_out (emit e m) = mx_out m @ [e]" "mx_promises (emit e m) = mx_promises m"
  "mx_ticks (emit e m) = mx_ticks m"
  by (simp_all add: emit_def)

lemma mx_core_tick [simp]: "mx_core b (tick m) = mx_core b m"
  by (simp add: mx_core_def)

lemma grant_to_holder: "\<exists>h. mx_holder (mx_grant_to env w m) = Some h \<and> h_sprintId h = w_sprintId w \<and> h_pid h = w_pid w
    \<and> h_expiresAt h = h_acquiredAt h + e_leaseMs env"
  by (simp add: mx_grant_to_def Let_def)

lemma grant_to_simps [simp]:
  "mx_waiters (mx_grant_to env w m) = mx_waiters m" "mx_promises (mx_grant_to env w m) = mx_promises m"
  by (simp_all add: mx_grant_to_def Let_def)

lemma mx_core_grant:
  assumes "mx_core b m" "mx_holder m = None" "mx_waiters m = w # ws"
  shows "mx_core b (mx_grant_to env w (m\<lparr>mx_waiters := ws\<rparr>))"
proof -
  let ?t = "nextToken (w_sprintId w) (Suc (mx_seq m)) (e_date env (Suc (mx_ticks m)))"
  have "?t \<notin> set (map (g_token \<circ> snd) (grants (mx_out m)))"
    using assms(1) token_below_fresh unfolding mx_core_def by blast
  moreover have "token_below (Suc (mx_seq m)) t" if "token_below (mx_seq m) t" for t
    using token_below_mono [OF that] by simp
  ultimately show ?thesis using assms
    by (auto simp: mx_core_def mx_grant_to_def Let_def run_windows_append token_below_next)
qed

lemma mx_core_pump:
  assumes "mx_core b m"
  shows "mx_core b (mx_pump env m)" "mx_holder (mx_pump env m) = None \<longrightarrow> mx_waiters (mx_pump env m) = []"
    "mx_promises (mx_pump env m) = mx_promises m"
  using assms mx_core_grant [of b m] grant_to_holder [of env]
  by (auto simp: mx_pump_def split: list.splits) (metis option.distinct(1))

lemma mx_core_free:
  assumes "mx_core b m" "mx_holder m = Some h" "e \<in> {EvReclaim (h_sprintId h), EvRelease (h_sprintId h)}"
  shows "mx_core b ((emit e m)\<lparr>mx_holder := None\<rparr>)"
  using assms by (auto simp: mx_core_def run_windows_append)

lemma mx_reclaim_core:
  assumes "mx_core b m" "mx_holder m = None \<longrightarrow> mx_waiters m = []"
  shows "mx_core b (fst (mx_reclaimExpired env m))"
    "mx_holder (fst (mx_reclaimExpired env m)) = None \<longrightarrow> mx_waiters (fst (mx_reclaimExpired env m)) = []"
    "mx_promises (fst (mx_reclaimExpired env m)) = mx_promises m"
proof -
  have free: "mx_core b ((emit (EvReclaim (h_sprintId h)) (tick m))\<lparr>mx_holder := None\<rparr>)" if "mx_holder m = Some h" for h
    using mx_core_free [of b "tick m" h] assms that by simp
  show "mx_core b (fst (mx_reclaimExpired env m))"
    "mx_holder (fst (mx_reclaimExpired env m)) = None \<longrightarrow> mx_waiters (fst (mx_reclaimExpired env m)) = []"
    "mx_promises (fst (mx_reclaimExpired env m)) = mx_promises m"
    using assms mx_core_pump [OF free]
    by (simp_all add: mx_reclaimExpired_def Let_def split: option.split)
qed

lemma mx_acquire_inv:
  assumes "mx_inv m"
  shows "mx_inv (fst (mx_acquire env sid pid m))"
proof -
  let ?p = "mx_promises m"
  let ?m = "m\<lparr>mx_promises := Suc ?p\<rparr>"
  let ?m1 = "fst (mx_reclaimExpired env ?m)"
  have core: "mx_core ?p ?m" and free: "mx_holder ?m = None \<longrightarrow> mx_waiters ?m = []"
    using assms by (simp_all add: mx_inv_def mx_core_def)
  have core1: "mx_core ?p ?m1" and free1: "mx_promises ?m1 = Suc ?p"
    using mx_reclaim_core [OF core free, of env] by simp_all
  have up: "mx_core (Suc ?p) m'" if "mx_core ?p m'" for m'
    using that unfolding mx_core_def by (meson less_SucI)
  have "mx_core (Suc ?p) ((tick ?m1)\<lparr>mx_waiters := mx_waiters ?m1 @ [w]\<rparr>)" if "w_promise w = ?p" for w
    using core1 that by (auto simp: mx_core_def sorted_wrt_append less_SucI)
  note pumped = mx_core_pump [OF this]
  have rej: "mx_inv (emit (EvReject ?p e) ?m)" for e
    using up [OF core] free by (simp add: mx_inv_def mx_core_def run_windows_append)
  show ?thesis
    using rej pumped free1 by (simp add: mx_acquire_def Let_def mx_inv_def split: option.split)
qed

lemma mx_release_inv: "mx_inv m \<Longrightarrow> mx_inv (fst (mx_release env tok m))"
proof (cases "mx_holder m")
  case (Some h)
  assume "mx_inv m"
  then have "mx_core (mx_promises m) ((emit (EvRelease (h_sprintId h)) m)\<lparr>mx_holder := None\<rparr>)"
    using mx_core_free [OF _ Some] by (simp add: mx_inv_def)
  from mx_core_pump [OF this, of env] \<open>mx_inv m\<close> Some show ?thesis
    by (simp add: mx_release_def mx_inv_def)
qed (simp add: mx_release_def)

lemma mx_renew_inv: "mx_inv m \<Longrightarrow> mx_inv (fst (mx_renew env tok m))"
  by (auto simp: mx_renew_def mx_inv_def mx_core_def Let_def split: option.split)

lemma mx_core_drop:
  assumes "mx_core b m" "mx_waiters m' = filter P (mx_waiters m)" "mx_holder m' = mx_holder m"
    "mx_seq m' = mx_seq m" "mx_out m' = mx_out m @ es" "grants es = []" "\<And>s. run_windows es s = Some s"
  shows "mx_core b m'"
proof -
  have "sorted_wrt (<) (map w_promise (filter P (mx_waiters m)))"
    using assms(1) by (simp add: mx_core_def sorted_wrt_append sorted_wrt_map sorted_wrt_filter)
  with assms show ?thesis by (auto simp: mx_core_def sorted_wrt_append run_windows_append)
qed

lemma mx_cancel_inv: "mx_inv m \<Longrightarrow> mx_inv (fst (mx_cancelWaiter sid r m))"
  using mx_core_drop [of "mx_promises m" m "fst (mx_cancelWaiter sid r m)" "\<lambda>w. w_sprintId w \<noteq> sid"]
  by (simp add: mx_inv_def mx_cancelWaiter_def Let_def)

lemma mx_stop_inv: "mx_inv m \<Longrightarrow> mx_inv (mx_stop m)"
  using mx_core_drop [of "mx_promises m" m "mx_stop m" "\<lambda>w. False"]
  by (simp add: mx_inv_def mx_stop_def)

lemma mx_start_inv: "mx_inv m \<Longrightarrow> mx_inv (mx_start m)"
  by (simp add: mx_inv_def mx_start_def mx_core_def)

lemma mx_reclaim_inv: "mx_inv m \<Longrightarrow> mx_inv (fst (mx_reclaimExpired env m))"
  using mx_reclaim_core [of "mx_promises m" m env] by (simp add: mx_inv_def)

lemma new_mutex_inv: "mx_inv new_mutex"
  by (simp add: mx_inv_def mx_core_def new_mutex_def)

interpretation mx: op_machine new_mutex "mx_step env" mx_inv for env
proof unfold_locales
  fix m op
  assume "mx_inv m"
  then show "mx_inv (mx_step env op m)"
    by (cases op) (simp_all add: mx_acquire_inv mx_release_inv mx_renew_inv mx_reclaim_inv
        mx_cancel_inv mx_start_inv mx_stop_inv)
qed (rule new_mutex_inv)

lemma mx_run_inv: "mx_inv (mx_run env ops)"
  unfolding mx_run_def by (rule mx.run_inv)

subsection \<open>Handing the mutex over\<close>

text \<open>The end of a window: the holder releases, or a sweep reclaims it.\<close>

definition window_end :: "lease_env \<Rightarrow> mutex \<Rightarrow> mutex \<Rightarrow> bool" where
  "window_end env m m' \<longleftrightarrow>
     (\<exists>tok. mx_release env tok m = (m', True)) \<or> mx_reclaimExpired env m = (m', True)"

lemma pump_front:
  assumes "mx_holder m = None" "mx_waiters m = w # ws"
  shows "\<exists>h g. mx_holder (mx_pump env m) = Some h \<and> h_sprintId h = w_sprintId w \<and> h_pid h = w_pid w
     \<and> h_expiresAt h = h_acquiredAt h + e_leaseMs env
     \<and> mx_waiters (mx_pump env m) = ws \<and> mx_out (mx_pump env m) = mx_out m @ [EvGrant (w_promise w) g]"
  using assms by (simp add: mx_pump_def mx_grant_to_def Let_def)

lemma window_end_front:
  assumes "window_end env m m'" "mx_waiters m = w # ws"
  shows "\<exists>h g. mx_holder m' = Some h \<and> h_sprintId h = w_sprintId w \<and> mx_waiters m' = ws
     \<and> last (mx_out m') = EvGrant (w_promise w) g"
proof -
  obtain m0 where m0: "m' = mx_pump env m0" "mx_holder m0 = None" "mx_waiters m0 = w # ws"
    using assms by (auto simp: window_end_def mx_release_def mx_reclaimExpired_def Let_def
        split: option.splits if_splits)
  from pump_front [OF m0(2,3), of env] m0(1) show ?thesis by auto
qed

lemma window_end_chain:
  assumes "(window_end env ^^ Suc (length ws1)) m m'" "mx_waiters m = ws1 @ w # ws2"
  shows "\<exists>h g. mx_holder m' = Some h \<and> h_sprintId h = w_sprintId w \<and> mx_waiters m' = ws2
     \<and> last (mx_out m') = EvGrant (w_promise w) g"
  using assms
proof (induction ws1 arbitrary: m)
  case Nil
  then have "window_end env m m'" by (auto simp: OO_def)
  with Nil show ?case using window_end_front [of env m m' w ws2] by simp
next
  case (Cons v ws1)
  from Cons.prems(1) obtain m1 where m1: "window_end env m m1" "(window_end env ^^ Suc (length ws1)) m1 m'"
    by (metis length_Cons relpowp_Suc_D2)
  with window_end_front [OF m1(1), of v "ws1 @ w # ws2"] Cons.prems(2)
  have "mx_waiters m1 = ws1 @ w # ws2" by auto
  with Cons.IH [OF m1(2)] show ?case .
qed

lemma window_end_exists:
  assumes "mx_holder m = Some h" "mx_waiters m = w # ws"
  obtains m' h' where "window_end env m m'" "mx_holder m' = Some h'" "mx_waiters m' = ws"
proof -
  have "window_end env m (fst (mx_release env (h_token h) m))"
    using assms(1) by (auto simp: window_end_def mx_release_def intro: exI [of _ "h_token h"])
  with window_end_front [OF this assms(2)] that show ?thesis by blast
qed

lemma window_end_chain_exists:
  assumes "mx_holder m = Some h" "mx_waiters m = ws1 @ w # ws2"
  shows "\<exists>m'. (window_end env ^^ Suc (length ws1)) m m'"
  using assms
proof (induction ws1 arbitrary: m h)
  case Nil
  then obtain m' where "window_end env m m'"
    using window_end_exists [of m h w ws2 env] by auto
  then show ?case by (auto simp: OO_def)
next
  case (Cons v ws1)
  obtain m1 h1 where "window_end env m m1" "mx_holder m1 = Some h1" "mx_waiters m1 = ws1 @ w # ws2"
    using window_end_exists [of m h v "ws1 @ w # ws2" env] Cons.prems by auto
  with Cons.IH [of m1 h1] show ?case by (metis length_Cons relpowp_Suc_I2)
qed

text \<open>A holder that crashed: its lease has run out, or its recorded process is gone.\<close>

definition crashed :: "lease_env \<Rightarrow> mutex \<Rightarrow> mx_holder_rec \<Rightarrow> bool" where
  "crashed env m h \<longleftrightarrow> e_now env (mx_ticks m) \<ge> h_expiresAt h \<or>
     (\<exists>p. h_pid h = Some p \<and> \<not> e_probe env (Suc (mx_ticks m)) p)"

lemma run_windows_closed:
  assumes "run_windows ys (Some w) = Some (Some w')" "\<exists>sid. EvRelease sid \<in> set ys \<or> EvReclaim sid \<in> set ys"
  shows "\<exists>p g. (p, g) \<in> set (grants ys) \<and> w' = (g_sprintId g, g_token g)"
proof -
  have last_grant: "run_windows zs s = Some (Some v) \<Longrightarrow> s = Some v \<or> (\<exists>p g. (p, g) \<in> set (grants zs) \<and> v = (g_sprintId g, g_token g))"
    for zs s v
    by (induction zs s rule: run_windows.induct) (auto split: if_splits option.splits prod.splits)
  from assms show ?thesis
  proof (induction ys "Some w" arbitrary: w rule: run_windows.induct)
    case (3 p e es)
    then show ?case by auto
  next
    case (4 sid es)
    then show ?case using last_grant [of es None w'] by (auto split: if_splits prod.splits)
  next
    case (5 sid es)
    then show ?case using last_grant [of es None w'] by (auto split: if_splits prod.splits)
  qed auto
qed

subsection \<open>Properties of the mutex\<close>

text \<open>
  Property C4. Push windows never overlap. Whatever operations are performed, in whatever order, with
  whatever clock and liveness probe, the grants and the releases or reclaims in the trace alternate, each
  closing the window of the sprint it names, and the last open window is the current holder's.
\<close>

theorem mutex_push_windows:
  "run_windows (mx_out (mx_run env ops)) None =
     Some (map_option (\<lambda>h. (h_sprintId h, h_token h)) (mx_holder (mx_run env ops)))"
  using mx_run_inv [of env ops] by (simp add: mx_inv_def mx_core_def)

text \<open>
  First in, first out. The promises granted so far, followed by the queued ones, are in the
  order in which \<^verbatim>\<open>acquire\<close> was called, so nobody is overtaken; and nobody waits while the mutex is free.
\<close>

theorem mutex_fifo:
  "sorted_wrt (<) (map fst (grants (mx_out (mx_run env ops))) @ map w_promise (mx_waiters (mx_run env ops))) \<and>
   (mx_holder (mx_run env ops) = None \<longrightarrow> mx_waiters (mx_run env ops) = [])"
  using mx_run_inv [of env ops] by (simp add: mx_inv_def mx_core_def)

lemmas mx_eval = mx_run_def new_mutex_def mx_acquire_def mx_reclaimExpired_def mx_pump_def mx_release_def
  mx_grant_to_def tick_def emit_def Let_def

definition demo_env :: lease_env where
  "demo_env = \<lparr>e_leaseMs = 60000, e_now = int, e_date = id, e_probe = (\<lambda>_ _. True)\<rparr>"

theorem mutex_fifo_witness:
  "mx_holder (mx_run demo_env []) = None \<and> mx_waiters (mx_run demo_env []) = []"
proof -
  have "mx_holder (mx_run demo_env []) = None" by (simp add: mx_run_def new_mutex_def)
  with mutex_fifo [of demo_env "[]"] show ?thesis by simp
qed

text \<open>
  A late release or renewal is harmless. Once the window a token was granted for has been
  closed (released, or reclaimed after a crash or an expired lease), releasing or renewing with that token
  changes nothing, whoever holds the mutex now.
\<close>

theorem mutex_late_release_noop:
  assumes "mx_out (mx_run env ops) = xs @ EvGrant p g # ys"
    and "\<exists>sid. EvRelease sid \<in> set ys \<or> EvReclaim sid \<in> set ys"
  shows "mx_release env (g_token g) (mx_run env ops) = (mx_run env ops, False) \<and>
    mx_renew env (g_token g) (mx_run env ops) = (mx_run env ops, None)"
proof (cases "mx_holder (mx_run env ops)")
  case (Some h)
  have inv: "mx_core (mx_promises (mx_run env ops)) (mx_run env ops)"
    using mx_run_inv by (simp add: mx_inv_def)
  then have "run_windows (xs @ EvGrant p g # ys) None = Some (Some (h_sprintId h, h_token h))"
    using Some assms(1) by (simp add: mx_core_def)
  then have "run_windows ys (Some (g_sprintId g, g_token g)) = Some (Some (h_sprintId h, h_token h))"
    by (auto simp: run_windows_append split: bind_splits if_splits)
  from run_windows_closed [OF this assms(2)] obtain q g' where
    "(q, g') \<in> set (grants ys)" "h_token h = g_token g'" by auto
  moreover have "g_token g \<notin> set (map (g_token \<circ> snd) (grants ys))"
    using inv assms(1) by (simp add: mx_core_def)
  ultimately have "h_token h \<noteq> g_token g" by force
  with Some show ?thesis by (simp add: mx_release_def mx_renew_def)
qed (simp add: mx_release_def mx_renew_def)

lemma demo_two_grants:
  "mx_out (mx_run demo_env [OpAcquire (JStr ''a'') (JInt 7), OpAcquire (JStr ''b'') JNull, OpRelease (nextToken ''a'' 1 2)])
     = [] @ EvGrant 0 \<lparr>g_token = nextToken ''a'' 1 2, g_sprintId = ''a'', g_expiresAt = 60001\<rparr> #
       [EvRelease ''a'', EvGrant 1 \<lparr>g_token = nextToken ''b'' 2 6, g_sprintId = ''b'', g_expiresAt = 60005\<rparr>]"
  by (simp add: mx_eval demo_env_def numeral_eq_Suc)

theorem mutex_late_release_noop_witness:
  "snd (mx_release demo_env (nextToken ''a'' 1 2)
     (mx_run demo_env [OpAcquire (JStr ''a'') (JInt 7), OpAcquire (JStr ''b'') JNull, OpRelease (nextToken ''a'' 1 2)])) = False"
  using mutex_late_release_noop [OF demo_two_grants] by simp

text \<open>
  Property C5. No starvation. A queued sprint with \<open>n\<close> waiters before it owns the mutex after
  \<open>n + 1\<close> windows have ended, whether each ended by a release or by a reclaim, and such an end is always
  available.
\<close>

theorem mutex_no_starvation:
  assumes "mx_waiters (mx_run env ops) = ws1 @ w # ws2"
  shows "(\<exists>m'. (window_end env ^^ Suc (length ws1)) (mx_run env ops) m') \<and>
    (\<forall>m'. (window_end env ^^ Suc (length ws1)) (mx_run env ops) m' \<longrightarrow>
       (\<exists>h g. mx_holder m' = Some h \<and> h_sprintId h = w_sprintId w \<and> mx_waiters m' = ws2 \<and>
          last (mx_out m') = EvGrant (w_promise w) g))"
proof -
  obtain h where "mx_holder (mx_run env ops) = Some h"
    using mx_run_inv [of env ops] assms by (cases "mx_holder (mx_run env ops)") (auto simp: mx_inv_def)
  with assms show ?thesis by (blast intro: window_end_chain window_end_chain_exists)
qed

theorem mutex_no_starvation_witness:
  "\<exists>m'. (window_end demo_env ^^ 1) (mx_run demo_env [OpAcquire (JStr ''a'') (JInt 7), OpAcquire (JStr ''b'') JNull]) m'"
proof -
  have "mx_waiters (mx_run demo_env [OpAcquire (JStr ''a'') (JInt 7), OpAcquire (JStr ''b'') JNull])
      = [] @ \<lparr>w_sprintId = ''b'', w_pid = None, w_promise = 1, w_enqueuedAt = 4\<rparr> # []"
    by (simp add: mx_eval demo_env_def numeral_eq_Suc)
  from mutex_no_starvation [OF this] show ?thesis by auto
qed

text \<open>
  The crash guard is exact. A sweep takes the mutex away exactly from a holder whose lease
  has run out or whose recorded process is dead; then the first waiter gets it with a full lease, and
  otherwise the holder keeps it.
\<close>

theorem mutex_reclaim_exact:
  assumes "mx_holder m = Some h"
  shows "(snd (mx_reclaimExpired env m) \<longleftrightarrow> crashed env m h) \<and>
    (if crashed env m h then
       (case mx_waiters m of
          [] \<Rightarrow> mx_holder (fst (mx_reclaimExpired env m)) = None
        | w # ws \<Rightarrow> \<exists>h'. mx_holder (fst (mx_reclaimExpired env m)) = Some h' \<and> h_sprintId h' = w_sprintId w \<and>
              h_expiresAt h' = h_acquiredAt h' + e_leaseMs env)
     else mx_holder (fst (mx_reclaimExpired env m)) = Some h)"
proof -
  let ?m0 = "(emit (EvReclaim (h_sprintId h)) (tick m))\<lparr>mx_holder := None\<rparr>"
  have "mx_reclaimExpired env m = (if crashed env m h then (mx_pump env ?m0, True) else (tick m, False))"
    using assms by (auto simp: mx_reclaimExpired_def crashed_def Let_def split: option.split)
  moreover have "mx_waiters m = [] \<Longrightarrow> mx_holder (mx_pump env ?m0) = None"
    by (simp add: mx_pump_def)
  moreover have "mx_waiters m = w # ws \<Longrightarrow> \<exists>h'. mx_holder (mx_pump env ?m0) = Some h' \<and> h_sprintId h' = w_sprintId w \<and>
      h_expiresAt h' = h_acquiredAt h' + e_leaseMs env" for w ws
    using pump_front [of ?m0 w ws env] by auto
  ultimately show ?thesis
    using assms by (auto split: list.split)
qed

definition demo_ops :: "mx_op list" where
  "demo_ops = [OpAcquire (JStr ''a'') (JInt 7), OpAcquire (JStr ''b'') JNull]"

theorem mutex_reclaim_exact_witness:
  "\<exists>h. mx_holder (mx_run demo_env demo_ops) = Some h \<and> \<not> snd (mx_reclaimExpired demo_env (mx_run demo_env demo_ops)) \<and>
     mx_holder (fst (mx_reclaimExpired demo_env (mx_run demo_env demo_ops))) = Some h"
proof -
  obtain h where h: "mx_holder (mx_run demo_env demo_ops) = Some h"
    using that by (simp add: mx_eval demo_ops_def demo_env_def)
  moreover have "\<not> crashed demo_env (mx_run demo_env demo_ops) h"
    using h by (auto simp: mx_eval demo_ops_def demo_env_def crashed_def)
  ultimately show ?thesis
    using mutex_reclaim_exact [OF h, of demo_env] by auto
qed

lemma cancel_waiters: "w \<in> set (mx_waiters (fst (mx_cancelWaiter sid r m))) \<longleftrightarrow> w \<in> set (mx_waiters m) \<and> w_sprintId w \<noteq> sid"
  by (auto simp: mx_cancelWaiter_def Let_def)

text \<open>
  An abandoned acquire never keeps the mutex. If the connection closes before the answer
  was sent, none of the sprint's waiters is left in the queue; and if the grant had been made in the
  meantime, the continuation gives exactly that grant back, so its token is not the holder's any more.
\<close>

theorem mutex_abandoned_acquire:
  assumes "\<not> rq_ended rq"
    and "acquire_on_close rq (mx_run env ops) = (m1, rq1)"
    and "acquire_on_grant env g rq1 m1 = (m2, rq2)"
    and "(p, g) \<in> set (grants (mx_out (mx_run env ops)))"
  shows "rq_sent rq2 = rq_sent rq \<and> (\<forall>w\<in>set (mx_waiters m1). w_sprintId w \<noteq> rq_sprintId rq) \<and>
    (\<forall>h. mx_holder m2 = Some h \<longrightarrow> h_token h \<noteq> g_token g)"
proof -
  let ?op = "OpCancel (rq_sprintId rq) (Some (GeneralError ''acquire request aborted by client''))"
  have m1: "m1 = mx_run env (ops @ [?op])"
    using assms(1,2) by (auto simp: acquire_on_close_def mx_run_def)
  have rq1: "rq_destroyed rq1" "rq_sent rq1 = rq_sent rq"
    using assms(2) by (auto simp: acquire_on_close_def)
  then have m2: "m2 = mx_run env (ops @ [?op, OpRelease (g_token g)])" "rq2 = rq1"
    using assms(3) m1 by (auto simp: acquire_on_grant_def mx_run_def)
  have out1: "(p, g) \<in> set (grants (mx_out m1))"
    using assms(4) m1 by (simp add: mx_run_def mx_cancelWaiter_def Let_def)
  have below: "token_below (mx_seq m1) (g_token g)"
    using mx_run_inv [of env "ops @ [?op]"] out1 m1 by (auto simp: mx_inv_def mx_core_def)
  have "h_token h \<noteq> g_token g" if h: "mx_holder m2 = Some h" for h
  proof -
    have rel: "m2 = fst (mx_release env (g_token g) m1)" using assms(3) rq1 by (simp add: acquire_on_grant_def)
    show ?thesis
    proof (cases "mx_holder m1")
      case (Some h1)
      then show ?thesis
        using h rel token_below_fresh [OF below] token_below_fresh [OF below, symmetric]
        by (auto simp: mx_release_def mx_pump_def mx_grant_to_def Let_def split: if_splits list.splits)
    qed (use h rel in \<open>simp add: mx_release_def\<close>)
  qed
  moreover have "\<forall>w\<in>set (mx_waiters m1). w_sprintId w \<noteq> rq_sprintId rq"
    using assms(1,2) by (auto simp: acquire_on_close_def cancel_waiters)
  ultimately show ?thesis using rq1 m2 by simp
qed

theorem mutex_abandoned_acquire_witness:
  "\<exists>m1 rq1 m2 rq2. acquire_on_close \<lparr>rq_sprintId = ''a'', rq_promise = 0, rq_destroyed = False, rq_ended = False, rq_sent = None\<rparr>
      (mx_run demo_env demo_ops) = (m1, rq1) \<and>
     acquire_on_grant demo_env \<lparr>g_token = nextToken ''a'' 1 2, g_sprintId = ''a'', g_expiresAt = 60001\<rparr> rq1 m1 = (m2, rq2) \<and>
     rq_sent rq2 = None \<and> (\<forall>h. mx_holder m2 = Some h \<longrightarrow> h_token h \<noteq> nextToken ''a'' 1 2)"
proof -
  let ?rq = "\<lparr>rq_sprintId = ''a'', rq_promise = 0, rq_destroyed = False, rq_ended = False, rq_sent = None\<rparr>"
  let ?g = "\<lparr>g_token = nextToken ''a'' 1 2, g_sprintId = ''a'', g_expiresAt = 60001\<rparr>"
  obtain m1 rq1 where c: "acquire_on_close ?rq (mx_run demo_env demo_ops) = (m1, rq1)" by fastforce
  obtain m2 rq2 where g: "acquire_on_grant demo_env ?g rq1 m1 = (m2, rq2)" by fastforce
  have "(0, ?g) \<in> set (grants (mx_out (mx_run demo_env demo_ops)))"
    by (simp add: mx_eval demo_ops_def demo_env_def numeral_eq_Suc)
  from mutex_abandoned_acquire [OF _ c g this] c g show ?thesis by auto
qed

text \<open>
  Aborting one acquire request rejects every queued acquire of the same sprint: the route
  cancels by sprint id, so a second request of that sprint that is still connected loses its place in the
  queue and is answered with an error.
\<close>

theorem mutex_abort_rejects_siblings:
  assumes "\<not> rq_ended rq" "w \<in> set (mx_waiters m)" "w_sprintId w = rq_sprintId rq"
  shows "EvReject (w_promise w) (GeneralError ''acquire request aborted by client'') \<in> set (mx_out (fst (acquire_on_close rq m))) \<and>
    w \<notin> set (mx_waiters (fst (acquire_on_close rq m)))"
  using assms by (auto simp: acquire_on_close_def mx_cancelWaiter_def Let_def)

theorem mutex_abort_rejects_siblings_witness:
  "EvReject 1 (GeneralError ''acquire request aborted by client'') \<in> set (mx_out (fst (acquire_on_close
     \<lparr>rq_sprintId = ''b'', rq_promise = 2, rq_destroyed = False, rq_ended = False, rq_sent = None\<rparr>
     (mx_run demo_env (demo_ops @ [OpAcquire (JStr ''b'') JNull])))))"
proof -
  let ?w = "\<lparr>w_sprintId = ''b'', w_pid = None, w_promise = 1, w_enqueuedAt = 4\<rparr>"
  have "?w \<in> set (mx_waiters (mx_run demo_env (demo_ops @ [OpAcquire (JStr ''b'') JNull])))"
    by (simp add: mx_eval demo_ops_def demo_env_def)
  from mutex_abort_rejects_siblings [OF _ this, of "\<lparr>rq_sprintId = ''b'', rq_promise = 2, rq_destroyed = False, rq_ended = False, rq_sent = None\<rparr>"]
  show ?thesis by simp
qed

end
