(* ===== verification/Id_Allocator.thy ===== *)
theory Id_Allocator
  imports Lease Atomic_File
begin

section \<open>The child-id allocator\<close>

text \<open>
  \<^verbatim>\<open>packages/apra-fleet-se/src/supervisor/id-allocator.mjs\<close>: per-parent sequences with reservations,
  confirmation, release, reclaim, and the write-behind persistence. Every operation mutates the map of
  parents synchronously and takes its snapshot in the same breath; the writes run later, one at a time, in
  that order (\<^verbatim>\<open>persistChain\<close>). A queued write keeps its snapshot of the map and what its caller is told
  when it succeeds. \<open>al_told\<close> lists what callers have been told, in order.

  Sequence numbers, process ids and times are integers. A state file whose reservations hold other values
  there can only come from another program; loading one is \<open>Inl None\<close>, outside the model.
\<close>

subsection \<open>State\<close>

definition ID_ALLOCATOR_VERSION :: int where "ID_ALLOCATOR_VERSION = 1"

record areservation =
  ar_seq :: int
  ar_pid :: "int option"
  ar_sprintId :: jsval
  ar_reservedAt :: int
  ar_expiresAt :: int

record pstate =
  ps_highWater :: int
  ps_free :: "int list"
  ps_reserved :: "(string, areservation) jsmap"

type_synonym parents = "(string, pstate) jsmap"

record alloc_grant =
  ag_childId :: string
  ag_parentId :: string
  ag_seq :: int
  ag_token :: string
  ag_expiresAt :: int

definition childId :: "string \<Rightarrow> int \<Rightarrow> string" where
  "childId parentId seq = parentId @ CHR ''.'' # show_int seq"

text \<open>What a caller is waiting for, and is told when the write has succeeded.\<close>

datatype al_note =
    Allocated alloc_grant
  | Confirmed string int
  | Released
  | Swept

record allocator =
  al_parents :: parents
  al_loaded :: bool
  al_tokenSeq :: nat
  al_ticks :: nat
  al_queue :: "(al_note \<times> parents) list"
  al_fs :: fs
  al_told :: "al_note list"

subsection \<open>The persisted document\<close>

definition js_of_areservation :: "areservation \<Rightarrow> jsval" where
  "js_of_areservation r =
     JObj [(''seq'', JInt (ar_seq r)), (''pid'', js_of_pid (ar_pid r)), (''sprintId'', ar_sprintId r),
           (''reservedAt'', JInt (ar_reservedAt r)), (''expiresAt'', JInt (ar_expiresAt r))]"

definition js_of_pstate :: "pstate \<Rightarrow> jsval" where
  "js_of_pstate st =
     JObj [(''highWater'', JInt (ps_highWater st)), (''free'', JArr (map JInt (sort (ps_free st)))),
           (''reserved'', JObj (map (\<lambda>p. (fst p, js_of_areservation (snd p))) (ps_reserved st)))]"

definition alloc_document :: "parents \<Rightarrow> jsval" where
  "alloc_document ps =
     JObj [(''version'', JInt ID_ALLOCATOR_VERSION),
           (''parents'', JObj (map (\<lambda>p. (fst p, js_of_pstate (snd p))) ps))]"

subsection \<open>Loading\<close>

text \<open>Errors of the code are \<open>Inl (Some e)\<close>; \<open>Inl None\<close> is a document outside the typed fragment.\<close>

definition thrown :: "js_error + 'a \<Rightarrow> js_error option + 'a" where
  "thrown r = (case r of Inl e \<Rightarrow> Inl (Some e) | Inr x \<Rightarrow> Inr x)"

fun typed_int :: "jsval \<Rightarrow> js_error option + int" where
  "typed_int (JInt i) = Inr i"
| "typed_int _ = Inl None"

fun typed_pid :: "jsval \<Rightarrow> js_error option + int option" where
  "typed_pid (JInt i) = Inr (Some i)"
| "typed_pid JNull = Inr None"
| "typed_pid _ = Inl None"

definition load_areservation :: "string \<times> jsval \<Rightarrow> js_error option + (string \<times> areservation)" where
  "load_areservation p =
     ebind (thrown (jprop (snd p) ''seq'')) (\<lambda>seq.
     ebind (typed_int seq) (\<lambda>seq.
     ebind (typed_pid (coalesce (jfield (snd p) ''pid'') JNull)) (\<lambda>pid.
     ebind (typed_int (coalesce (jfield (snd p) ''reservedAt'') (JInt 0))) (\<lambda>t_at.
     ebind (typed_int (coalesce (jfield (snd p) ''expiresAt'') (JInt 0))) (\<lambda>ex.
     Inr (fst p, \<lparr>ar_seq = seq, ar_pid = pid, ar_sprintId = coalesce (jfield (snd p) ''sprintId'') JNull,
                  ar_reservedAt = t_at, ar_expiresAt = ex\<rparr>))))))"

fun int_of :: "jsval \<Rightarrow> int" where
  "int_of (JInt i) = i"
| "int_of _ = 0"

definition load_pstate :: "string \<times> jsval \<Rightarrow> js_error option + (string \<times> pstate)" where
  "load_pstate p =
     ebind (thrown (jprop (snd p) ''reserved'')) (\<lambda>rs.
     ebind (thrown (object_entries (coalesce rs (JObj [])))) (\<lambda>es.
     ebind (emap load_areservation es) (\<lambda>reserved.
     Inr (fst p, \<lparr>ps_highWater = int_of (jfield (snd p) ''highWater''),
                  ps_free = sort (map int_of (filter is_int (rows_of (jfield (snd p) ''free'')))),
                  ps_reserved = fold (\<lambda>(k, v). AList.update k v) reserved []\<rparr>))))"

definition alloc_load_document :: "jsval \<Rightarrow> js_error option + parents" where
  "alloc_load_document doc =
     (if \<not> truthy doc \<or> \<not> typeof_object doc
         \<or> \<not> strict_eq (jfield doc ''version'') (JInt ID_ALLOCATOR_VERSION)
         \<or> \<not> typeof_object (jfield doc ''parents'')
      then Inl (Some (GeneralError ''id-allocator file has an unexpected shape or version''))
      else
        ebind (thrown (object_entries (jfield doc ''parents''))) (\<lambda>es.
        ebind (emap load_pstate es) (\<lambda>entries.
        Inr (fold (\<lambda>(k, v). AList.update k v) entries []))))"

text \<open>\<^verbatim>\<open>load\<close>: the outcome of \<^verbatim>\<open>readFile\<close> other than a missing file is \<open>rd\<close>.\<close>

definition alloc_load :: "fs_err option \<Rightarrow> allocator \<Rightarrow> (js_error option + unit) \<times> allocator" where
  "alloc_load rd st =
     (case rd of
        Some e \<Rightarrow> if e = ENOENT then (Inr (), st\<lparr>al_parents := [], al_loaded := True\<rparr>)
                  else (Inl (Some (FsError e)), st)
      | None \<Rightarrow>
          (case main_file (al_fs st) of
             None \<Rightarrow> (Inr (), st\<lparr>al_parents := [], al_loaded := True\<rparr>)
           | Some NotJson \<Rightarrow> (Inl (Some (GeneralError ''id-allocator file is not valid JSON'')), st)
           | Some (Json doc) \<Rightarrow>
               (case alloc_load_document doc of
                  Inl e \<Rightarrow> (Inl e, st)
                | Inr ps \<Rightarrow> (Inr (), st\<lparr>al_parents := ps, al_loaded := True\<rparr>))))"

subsection \<open>The synchronous part of the operations\<close>

definition parentState :: "string \<Rightarrow> parents \<Rightarrow> pstate" where
  "parentState pid ps =
     (case map_of ps pid of Some st \<Rightarrow> st | None \<Rightarrow> \<lparr>ps_highWater = 0, ps_free = [], ps_reserved = []\<rparr>)"

text \<open>Returning a number to the free pool.\<close>

definition give_back :: "string \<Rightarrow> int \<Rightarrow> pstate \<Rightarrow> pstate" where
  "give_back token seq st =
     st\<lparr>ps_reserved := AList.delete token (ps_reserved st),
        ps_free := sort (if seq \<in> set (ps_free st) then ps_free st else ps_free st @ [seq])\<rparr>"

text \<open>Whether a reservation is abandoned at time \<open>t\<close>.\<close>

definition abandoned :: "int \<Rightarrow> (int \<Rightarrow> bool) \<Rightarrow> areservation \<Rightarrow> bool" where
  "abandoned t probe r \<longleftrightarrow> t \<ge> ar_expiresAt r \<or> (case ar_pid r of None \<Rightarrow> False | Some p \<Rightarrow> \<not> probe p)"

definition reclaim_parent :: "int \<Rightarrow> (int \<Rightarrow> bool) \<Rightarrow> pstate \<Rightarrow> pstate \<times> nat" where
  "reclaim_parent t probe st =
     fold (\<lambda>(token, r) (s, n). if abandoned t probe r then (give_back token (ar_seq r) s, Suc n) else (s, n))
       (ps_reserved st) (st, 0)"

definition alloc_reclaimExpired :: "int \<Rightarrow> (int \<Rightarrow> bool) \<Rightarrow> parents \<Rightarrow> parents \<times> nat" where
  "alloc_reclaimExpired t probe ps =
     (map (\<lambda>p. (fst p, fst (reclaim_parent t probe (snd p)))) ps,
      sum_list (map (\<lambda>p. snd (reclaim_parent t probe (snd p))) ps))"

text \<open>The floor lifts the high-water mark and discards the holes at or below it.\<close>

definition apply_floor :: "jsval \<Rightarrow> pstate \<Rightarrow> pstate" where
  "apply_floor flr st =
     (case flr of
        JInt f \<Rightarrow> st\<lparr>ps_highWater := (if f > ps_highWater st then f else ps_highWater st),
                     ps_free := filter (\<lambda>n. n > f) (ps_free st)\<rparr>
      | _ \<Rightarrow> st)"

definition take_seq :: "pstate \<Rightarrow> int \<times> pstate" where
  "take_seq st =
     (case ps_free st of
        n # ns \<Rightarrow> (n, st\<lparr>ps_free := ns\<rparr>)
      | [] \<Rightarrow> (ps_highWater st + 1, st\<lparr>ps_highWater := ps_highWater st + 1\<rparr>))"

definition mint :: "string \<Rightarrow> jsval \<Rightarrow> string \<Rightarrow> (int \<Rightarrow> areservation) \<Rightarrow> parents \<Rightarrow> int \<times> parents" where
  "mint parentId flr token r ps =
     (case take_seq (apply_floor flr (parentState parentId ps)) of
        (seq, st) \<Rightarrow> (seq, AList.update parentId (st\<lparr>ps_reserved := AList.update token (r seq) (ps_reserved st)\<rparr>) ps))"

text \<open>The search for a token, parent by parent in the order of the map.\<close>

fun find_token :: "string \<Rightarrow> parents \<Rightarrow> (string \<times> areservation) option" where
  "find_token token [] = None"
| "find_token token ((pid, st) # ps) =
     (case map_of (ps_reserved st) token of
        Some r \<Rightarrow> Some (pid, r)
      | None \<Rightarrow> find_token token ps)"

definition confirm_in :: "string \<Rightarrow> string \<Rightarrow> parents \<Rightarrow> parents" where
  "confirm_in token pid ps =
     (let st = parentState pid ps in
      AList.update pid (st\<lparr>ps_reserved := AList.delete token (ps_reserved st)\<rparr>) ps)"

definition release_in :: "string \<Rightarrow> string \<Rightarrow> int \<Rightarrow> parents \<Rightarrow> parents" where
  "release_in token pid seq ps = AList.update pid (give_back token seq (parentState pid ps)) ps"

subsection \<open>The operations\<close>

definition alloc_persist :: "al_note \<Rightarrow> allocator \<Rightarrow> allocator" where
  "alloc_persist note st = st\<lparr>al_queue := al_queue st @ [(note, al_parents st)]\<rparr>"

definition al_tick :: "allocator \<Rightarrow> allocator" where
  "al_tick st = st\<lparr>al_ticks := Suc (al_ticks st)\<rparr>"

definition alloc_allocate ::
  "lease_env \<Rightarrow> jsval \<Rightarrow> jsval \<Rightarrow> jsval \<Rightarrow> jsval \<Rightarrow> allocator \<Rightarrow> alloc_grant res \<times> allocator"
where
  "alloc_allocate env parentId pid sprintId flr st0 =
     (case nonempty_str parentId of
        None \<Rightarrow> (Inl (TypeError ''allocate() requires a non-empty parentId''), st0)
      | Some parent \<Rightarrow>
          if \<not> nullish pid \<and> \<not> is_int pid
          then (Inl (TypeError ''allocate() pid must be an integer or null''), st0)
          else
            let ps = fst (alloc_reclaimExpired (e_now env (al_ticks st0)) (e_probe env (al_ticks st0)) (al_parents st0));
                st = al_tick st0;
                t = e_now env (al_ticks st);
                token = nextToken parent (Suc (al_tokenSeq st)) (e_date env (al_ticks st));
                r = (\<lambda>seq. \<lparr>ar_seq = seq, ar_pid = (case pid of JInt i \<Rightarrow> Some i | _ \<Rightarrow> None),
                            ar_sprintId = coalesce sprintId JNull, ar_reservedAt = t,
                            ar_expiresAt = t + e_leaseMs env\<rparr>)
            in (case mint parent flr token r ps of
                  (seq, ps') \<Rightarrow>
                    let g = \<lparr>ag_childId = childId parent seq, ag_parentId = parent, ag_seq = seq, ag_token = token, ag_expiresAt = t + e_leaseMs env\<rparr>
                    in (Inr g, alloc_persist (Allocated g)
                          ((al_tick st)\<lparr>al_tokenSeq := Suc (al_tokenSeq st), al_parents := ps'\<rparr>))))"

definition alloc_confirm :: "string \<Rightarrow> allocator \<Rightarrow> bool \<times> allocator" where
  "alloc_confirm token st =
     (case find_token token (al_parents st) of
        None \<Rightarrow> (False, st)
      | Some (pid, r) \<Rightarrow>
          (True, alloc_persist (Confirmed pid (ar_seq r)) (st\<lparr>al_parents := confirm_in token pid (al_parents st)\<rparr>)))"

definition alloc_release :: "string \<Rightarrow> allocator \<Rightarrow> bool \<times> allocator" where
  "alloc_release token st =
     (case find_token token (al_parents st) of
        None \<Rightarrow> (False, st)
      | Some (pid, r) \<Rightarrow>
          (True, alloc_persist Released (st\<lparr>al_parents := release_in token pid (ar_seq r) (al_parents st)\<rparr>)))"

text \<open>The background sweep of \<^verbatim>\<open>start\<close>.\<close>

definition alloc_sweep :: "lease_env \<Rightarrow> allocator \<Rightarrow> allocator" where
  "alloc_sweep env st =
     (case alloc_reclaimExpired (e_now env (al_ticks st)) (e_probe env (al_ticks st)) (al_parents st) of
        (ps, n) \<Rightarrow>
          let st' = (al_tick st)\<lparr>al_parents := ps\<rparr>
          in if n > 0 then alloc_persist Swept st' else st')"

text \<open>The next write of the chain runs; its caller is told if it succeeds and gets the error otherwise.\<close>

definition alloc_flush :: "io \<Rightarrow> allocator \<Rightarrow> allocator" where
  "alloc_flush io st =
     (case al_queue st of
        [] \<Rightarrow> st
      | (note, ps) # q \<Rightarrow>
          (case persist io (alloc_document ps) (al_fs st) of
             (Inl e, f) \<Rightarrow> st\<lparr>al_queue := q, al_fs := f\<rparr>
           | (Inr _, f) \<Rightarrow> st\<lparr>al_queue := q, al_fs := f, al_told := al_told st @ [note]\<rparr>))"

text \<open>
  The routes. An allocation is answered when its write has been tried: with the grant, or with the
  error of the write.
\<close>

definition js_of_alloc_grant :: "alloc_grant \<Rightarrow> jsval" where
  "js_of_alloc_grant g =
     JObj [(''status'', JStr ''allocated''), (''childId'', JStr (ag_childId g)), (''parentId'', JStr (ag_parentId g)),
           (''seq'', JInt (ag_seq g)), (''token'', JStr (ag_token g)), (''expiresAt'', JInt (ag_expiresAt g))]"

definition allocate_failed :: "js_error \<Rightarrow> reply" where
  "allocate_failed e = (503, JObj [(''error'', JStr (''allocate failed: '' @ error_text e))])"

definition allocate_route :: "lease_env \<Rightarrow> string \<Rightarrow> jsval \<Rightarrow> allocator \<Rightarrow> (reply + alloc_grant) \<times> allocator" where
  "allocate_route env parentId body st =
     (if parentId = [] then (Inl (400, JObj [(''error'', JStr ''missing parentId in path'')]), st)
      else let b = body_or_empty body in
           case alloc_allocate env (JStr parentId) (jfield b ''pid'') (jfield b ''sprintId'') (jfield b ''floor'') st of
             (Inl e, st') \<Rightarrow> (Inl (allocate_failed e), st')
           | (Inr g, st') \<Rightarrow> (Inr g, st'))"

definition allocate_settled :: "unit res \<Rightarrow> alloc_grant \<Rightarrow> reply" where
  "allocate_settled w g = (case w of Inl e \<Rightarrow> allocate_failed e | Inr _ \<Rightarrow> (200, js_of_alloc_grant g))"

definition confirm_route :: "jsval \<Rightarrow> allocator \<Rightarrow> reply \<times> allocator" where
  "confirm_route body st =
     (case nonempty_str (jfield (body_or_empty body) ''token'') of
        None \<Rightarrow> ((400, JObj [(''error'', JStr ''confirm requires a token'')]), st)
      | Some tok \<Rightarrow> (case alloc_confirm tok st of (b, st') \<Rightarrow> ((200, JObj [(''confirmed'', JBool b)]), st')))"

definition alloc_release_route :: "jsval \<Rightarrow> allocator \<Rightarrow> reply \<times> allocator" where
  "alloc_release_route body st =
     (case nonempty_str (jfield (body_or_empty body) ''token'') of
        None \<Rightarrow> ((400, JObj [(''error'', JStr ''release requires a token'')]), st)
      | Some tok \<Rightarrow> (case alloc_release tok st of (b, st') \<Rightarrow> ((200, JObj [(''released'', JBool b)]), st')))"

definition alloc_status :: "allocator \<Rightarrow> jsval" where
  "alloc_status st =
     JObj [(''parents'', JObj (map (\<lambda>p. (fst p, JObj [(''highWater'', JInt (ps_highWater (snd p))),
        (''free'', JArr (map JInt (sort (ps_free (snd p))))),
        (''reserved'', JArr (map (\<lambda>q. JObj [(''seq'', JInt (ar_seq (snd q))), (''pid'', js_of_pid (ar_pid (snd q))),
            (''sprintId'', ar_sprintId (snd q)), (''expiresAt'', JInt (ar_expiresAt (snd q)))]) (ps_reserved (snd p))))]))
        (al_parents st)))]"

text \<open>
  The supervisor dies and a new one starts: memory and pending writes are gone, the token counter restarts,
  the new allocator loads the file. If the load fails the supervisor does not start.
\<close>

definition new_allocator :: "fs \<Rightarrow> nat \<Rightarrow> al_note list \<Rightarrow> allocator" where
  "new_allocator f ticks told = \<lparr>al_parents = [], al_loaded = False, al_tokenSeq = 0, al_ticks = ticks,
     al_queue = [], al_fs = f, al_told = told\<rparr>"

definition alloc_restart :: "allocator \<Rightarrow> (js_error option + unit) \<times> allocator" where
  "alloc_restart st = alloc_load None (new_allocator (al_fs st) (al_ticks st) (al_told st))"

datatype al_op =
    AlAllocate jsval jsval jsval jsval
  | AlConfirm string
  | AlRelease string
  | AlSweep
  | AlFlush io
  | AlRestart

fun al_step :: "lease_env \<Rightarrow> al_op \<Rightarrow> allocator \<Rightarrow> allocator" where
  "al_step env (AlAllocate p pid sid fl) st = snd (alloc_allocate env p pid sid fl st)"
| "al_step env (AlConfirm tok) st = snd (alloc_confirm tok st)"
| "al_step env (AlRelease tok) st = snd (alloc_release tok st)"
| "al_step env AlSweep st = alloc_sweep env st"
| "al_step env (AlFlush io) st = alloc_flush io st"
| "al_step env AlRestart st = snd (alloc_restart st)"

definition empty_allocator :: allocator where
  "empty_allocator = new_allocator \<lparr>main_file = None, tmp_file = None\<rparr> 0 []"

definition al_run :: "lease_env \<Rightarrow> al_op list \<Rightarrow> allocator" where
  "al_run env ops = fold (al_step env) ops empty_allocator"

subsection \<open>Well-formed parents\<close>

abbreviation reserved_seqs :: "pstate \<Rightarrow> int list" where
  "reserved_seqs st \<equiv> map (\<lambda>p. ar_seq (snd p)) (ps_reserved st)"

text \<open>The numbers that may still be handed out again: the holes and the outstanding reservations.\<close>

definition taken :: "pstate \<Rightarrow> int set" where
  "taken st = set (ps_free st) \<union> set (reserved_seqs st)"

definition pst_ok :: "pstate \<Rightarrow> bool" where
  "pst_ok st \<longleftrightarrow> sorted_wrt (<) (ps_free st) \<and> distinct (reserved_seqs st) \<and>
     set (ps_free st) \<inter> set (reserved_seqs st) = {} \<and> 0 \<le> ps_highWater st \<and>
     (\<forall>n\<in>taken st. 1 \<le> n \<and> n \<le> ps_highWater st) \<and> jmap_ok (ps_reserved st) \<and>
     (\<forall>p\<in>set (ps_reserved st). ar_sprintId (snd p) \<noteq> JUndef)"

definition parents_ok :: "parents \<Rightarrow> bool" where
  "parents_ok ps \<longleftrightarrow> jmap_ok ps \<and> (\<forall>p\<in>set ps. pst_ok (snd p))"

lemma pst_okD:
  assumes "pst_ok st"
  shows "sorted_wrt (<) (ps_free st)" "distinct (reserved_seqs st)" "set (ps_free st) \<inter> set (reserved_seqs st) = {}"
    "0 \<le> ps_highWater st" "n \<in> taken st \<Longrightarrow> 1 \<le> n \<and> n \<le> ps_highWater st" "jmap_ok (ps_reserved st)"
    "p \<in> set (ps_reserved st) \<Longrightarrow> ar_sprintId (snd p) \<noteq> JUndef"
  using assms unfolding pst_ok_def by blast+

lemma pst_okI:
  assumes "sorted_wrt (<) (ps_free st)" "distinct (reserved_seqs st)" "set (ps_free st) \<inter> set (reserved_seqs st) = {}"
    "0 \<le> ps_highWater st" "\<And>n. n \<in> taken st \<Longrightarrow> 1 \<le> n \<and> n \<le> ps_highWater st" "jmap_ok (ps_reserved st)"
    "\<And>p. p \<in> set (ps_reserved st) \<Longrightarrow> ar_sprintId (snd p) \<noteq> JUndef"
  shows "pst_ok st"
  using assms unfolding pst_ok_def by blast

lemma set_delete: "jmap_ok m \<Longrightarrow> map_of m k = Some v \<Longrightarrow> set (AList.delete k m) = set m - {(k, v)}"
  by (auto simp: AList.delete_eq jmap_ok_mem)

lemma insort_strict:
  assumes "sorted_wrt (<) xs" "n \<notin> set xs"
  shows "sorted_wrt (<) (sort (xs @ [n :: int]))"
  using assms by (simp add: strict_sorted_iff)

lemma seqs_delete:
  assumes "jmap_ok (ps_reserved st)" "map_of (ps_reserved st) tok = Some r" "distinct (reserved_seqs st)"
  shows "set (map (\<lambda>p. ar_seq (snd p)) (AList.delete tok (ps_reserved st))) = set (reserved_seqs st) - {ar_seq r}"
    and "distinct (map (\<lambda>p. ar_seq (snd p)) (AList.delete tok (ps_reserved st)))"
    and "ar_seq r \<in> set (reserved_seqs st)"
proof -
  have mem: "(tok, r) \<in> set (ps_reserved st)" using assms by (simp add: jmap_ok_mem)
  then show "ar_seq r \<in> set (reserved_seqs st)" by force
  have inj: "inj_on (\<lambda>p. ar_seq (snd p)) (set (ps_reserved st))" using assms(3) by (simp add: distinct_map)
  then show "set (map (\<lambda>p. ar_seq (snd p)) (AList.delete tok (ps_reserved st))) = set (reserved_seqs st) - {ar_seq r}"
    using mem assms(1,2) inj_on_image_set_diff [OF inj, of "set (ps_reserved st)" "{(tok, r)}"]
    by (simp add: set_delete)
  show "distinct (map (\<lambda>p. ar_seq (snd p)) (AList.delete tok (ps_reserved st)))"
    using assms(1,3) inj by (auto simp: distinct_map AList.delete_eq inj_on_def jmap_ok_def)
qed

lemma give_back_ok:
  assumes "pst_ok st" "map_of (ps_reserved st) tok = Some r"
  shows "pst_ok (give_back tok (ar_seq r) st)" "taken (give_back tok (ar_seq r) st) = taken st"
    "ps_highWater (give_back tok (ar_seq r) st) = ps_highWater st"
proof -
  note ok = assms(1) [unfolded pst_ok_def]
  note d = seqs_delete [of st tok r]
  have notin: "ar_seq r \<notin> set (ps_free st)" using ok d(3) assms(2) by auto
  show t: "taken (give_back tok (ar_seq r) st) = taken st"
    using ok d assms(2) notin by (auto simp: taken_def give_back_def)
  show "ps_highWater (give_back tok (ar_seq r) st) = ps_highWater st" by (simp add: give_back_def)
  have "\<forall>n\<in>taken (give_back tok (ar_seq r) st). 1 \<le> n \<and> n \<le> ps_highWater st" using t ok by simp
  moreover have "\<forall>p\<in>set (AList.delete tok (ps_reserved st)). ar_sprintId (snd p) \<noteq> JUndef"
    using ok by (simp add: set_delete assms(2))
  moreover have "sorted_wrt (<) (sort (ps_free st @ [ar_seq r]))"
    using ok notin by (intro insort_strict) simp_all
  ultimately show "pst_ok (give_back tok (ar_seq r) st)"
    using ok d assms(2) notin by (auto simp: pst_ok_def give_back_def)
qed

lemma reclaim_fold:
  assumes "pst_ok st" "distinct (map fst es)" "\<forall>(tok, r)\<in>set es. map_of (ps_reserved st) tok = Some r"
  shows "let st' = fst (fold (\<lambda>(token, r) (s, n). if abandoned t probe r then (give_back token (ar_seq r) s, Suc n) else (s, n))
       es (st, n)) in pst_ok st' \<and> taken st' = taken st \<and> ps_highWater st' = ps_highWater st"
  using assms
proof (induction es arbitrary: st n)
  case (Cons e es)
  obtain tok r where e: "e = (tok, r)" by fastforce
  have look: "map_of (ps_reserved st) tok = Some r" using Cons.prems e by simp
  show ?case
  proof (cases "abandoned t probe r")
    case True
    have "\<forall>(tok', r')\<in>set es. map_of (ps_reserved (give_back tok (ar_seq r) st)) tok' = Some r'"
    proof
      fix x
      assume x: "x \<in> set es"
      obtain tok' r' where x': "x = (tok', r')" by fastforce
      with x Cons.prems(2) e have "tok' \<noteq> tok" by force
      moreover have "map_of (ps_reserved st) tok' = Some r'" using Cons.prems(3) x x' by auto
      ultimately show "case x of (tok', r') \<Rightarrow> map_of (ps_reserved (give_back tok (ar_seq r) st)) tok' = Some r'"
        using x' by (simp add: give_back_def)
    qed
    with Cons.IH [of "give_back tok (ar_seq r) st" "Suc n"] Cons.prems e True give_back_ok [OF Cons.prems(1) look]
    show ?thesis by simp
  next
    case False
    with Cons.IH [of st n] Cons.prems e show ?thesis by simp
  qed
qed simp

lemma reclaim_parent_ok:
  assumes "pst_ok st"
  shows "pst_ok (fst (reclaim_parent t probe st))" "taken (fst (reclaim_parent t probe st)) = taken st"
    "ps_highWater (fst (reclaim_parent t probe st)) = ps_highWater st"
proof -
  have j: "jmap_ok (ps_reserved st)" using assms by (simp add: pst_ok_def)
  then have "\<forall>(tok, r)\<in>set (ps_reserved st). map_of (ps_reserved st) tok = Some r"
    by (auto simp: jmap_ok_mem)
  with reclaim_fold [OF assms, of "ps_reserved st" t probe 0] j
  show "pst_ok (fst (reclaim_parent t probe st))" "taken (fst (reclaim_parent t probe st)) = taken st"
    "ps_highWater (fst (reclaim_parent t probe st)) = ps_highWater st"
    by (simp_all add: jmap_ok_def reclaim_parent_def Let_def)
qed

lemma apply_floor_ok:
  assumes "pst_ok st"
  shows "pst_ok (apply_floor fl st)" "taken (apply_floor fl st) \<subseteq> taken st"
    "ps_highWater st \<le> ps_highWater (apply_floor fl st)" "ps_reserved (apply_floor fl st) = ps_reserved st"
proof -
  show t: "taken (apply_floor fl st) \<subseteq> taken st" by (auto simp: apply_floor_def taken_def split: jsval.split)
  show h: "ps_highWater st \<le> ps_highWater (apply_floor fl st)" by (auto simp: apply_floor_def split: jsval.split)
  show r: "ps_reserved (apply_floor fl st) = ps_reserved st" by (auto simp: apply_floor_def split: jsval.split)
  note ok = pst_okD [OF assms]
  have "sorted_wrt (<) (ps_free (apply_floor fl st))" "set (ps_free (apply_floor fl st)) \<subseteq> set (ps_free st)"
    using ok(1) by (auto simp: apply_floor_def sorted_wrt_filter split: jsval.split)
  moreover have "1 \<le> n \<and> n \<le> ps_highWater (apply_floor fl st)" if "n \<in> taken (apply_floor fl st)" for n
    using ok(5) [of n] t h that by auto
  ultimately show "pst_ok (apply_floor fl st)"
    using ok h by (intro pst_okI) (auto simp: r)
qed

lemma distinct_map_update:
  "distinct (map f m) \<Longrightarrow> f (k, v) \<notin> f ` set m \<Longrightarrow> distinct (map f (AList.update k v m))"
proof (induction m)
  case (Cons p m)
  have "f ` set (AList.update k v m) \<subseteq> insert (f (k, v)) (f ` set m)"
    using set_update_subset [of k v m] by blast
  with Cons show ?case by (cases p) auto
qed simp

text \<open>Reserving a fresh number under a token.\<close>

lemma reserve_ok:
  assumes "pst_ok st" "ar_seq r \<notin> taken st" "1 \<le> ar_seq r" "ar_seq r \<le> ps_highWater st" "ar_sprintId r \<noteq> JUndef"
  shows "pst_ok (st\<lparr>ps_reserved := AList.update tok r (ps_reserved st)\<rparr>)"
    "taken (st\<lparr>ps_reserved := AList.update tok r (ps_reserved st)\<rparr>) \<subseteq> insert (ar_seq r) (taken st)"
proof -
  let ?st = "st\<lparr>ps_reserved := AList.update tok r (ps_reserved st)\<rparr>"
  have sub: "set (reserved_seqs ?st) \<subseteq> insert (ar_seq r) (set (reserved_seqs st))"
    using set_update_subset [of tok r "ps_reserved st"] by auto
  then show t: "taken ?st \<subseteq> insert (ar_seq r) (taken st)" by (auto simp: taken_def)
  have "distinct (reserved_seqs ?st)"
    using assms(1,2) distinct_map_update [of "\<lambda>p. ar_seq (snd p)" "ps_reserved st" tok r]
    by (auto simp: pst_ok_def taken_def)
  moreover have "set (ps_free ?st) \<inter> set (reserved_seqs ?st) = {}"
  proof -
    have "set (ps_free st) \<inter> insert (ar_seq r) (set (reserved_seqs st)) = {}"
      using assms(1,2) unfolding pst_ok_def taken_def by auto
    moreover have "set (ps_free ?st) = set (ps_free st)" by simp
    ultimately show ?thesis using sub by blast
  qed
  moreover have "\<forall>p\<in>set (ps_reserved ?st). ar_sprintId (snd p) \<noteq> JUndef"
    using assms(1,5) set_update_subset [of tok r "ps_reserved st"] unfolding pst_ok_def by auto
  moreover have "\<forall>n\<in>taken ?st. 1 \<le> n \<and> n \<le> ps_highWater ?st"
    using assms(1,3,4) t unfolding pst_ok_def by auto
  ultimately show "pst_ok ?st" using assms(1) by (auto simp: pst_ok_def)
qed

text \<open>Taking a number leaves it fresh: a hole that is gone from the pool, or the new high-water mark.\<close>

lemma take_seq_conj:
  assumes "pst_ok st" "take_seq st = (seq, st')"
  shows "pst_ok st' \<and> seq \<notin> taken st' \<and> taken st' \<subseteq> taken st \<and> (seq \<in> taken st \<or> seq > ps_highWater st)
      \<and> ps_highWater st \<le> ps_highWater st' \<and> seq \<le> ps_highWater st' \<and> 1 \<le> seq"
proof (cases "ps_free st")
  case Nil
  then have eqs: "seq = ps_highWater st + 1" "st' = st\<lparr>ps_highWater := ps_highWater st + 1\<rparr>"
    using assms(2) by (auto simp: take_seq_def)
  then have tk: "taken st' = taken st" and hw: "ps_highWater st' = ps_highWater st + 1" by (simp_all add: taken_def)
  note ok = pst_okD [OF assms(1)]
  have "1 \<le> n \<and> n \<le> ps_highWater st + 1" if "n \<in> taken st'" for n
    using ok(5) [of n] that tk by simp
  then have "pst_ok st'"
    using ok by (intro pst_okI) (auto simp: eqs)
  moreover have "seq \<notin> taken st'" using ok(5) [of seq] eqs(1) tk by auto
  ultimately show ?thesis
    using eqs(1) ok(4) tk hw by auto
next
  case (Cons n ns)
  then have eqs: "seq = n" "st' = st\<lparr>ps_free := ns\<rparr>"
    using assms(2) by (simp_all add: take_seq_def)
  have t: "taken st = insert n (taken st')" using Cons eqs by (auto simp: taken_def)
  moreover have "n \<notin> taken st'" using assms(1) Cons eqs by (auto simp: taken_def pst_ok_def)
  moreover have "pst_ok st'" using assms(1) Cons eqs unfolding pst_ok_def t by auto
  ultimately show ?thesis
    using assms(1) eqs unfolding pst_ok_def by auto
qed

lemma take_seq_ok:
  assumes "pst_ok st" "take_seq st = (seq, st')"
  shows "pst_ok st'" "seq \<notin> taken st'" "taken st' \<subseteq> taken st" "seq \<in> taken st \<or> seq > ps_highWater st"
    "ps_highWater st \<le> ps_highWater st'" "seq \<le> ps_highWater st'" "1 \<le> seq"
  using take_seq_conj [OF assms] by blast+

subsection \<open>Spent numbers\<close>

abbreviation hw_of :: "string \<Rightarrow> parents \<Rightarrow> int" where
  "hw_of p ps \<equiv> ps_highWater (parentState p ps)"

text \<open>A number is spent under a parent when it has been handed out and can never come back.\<close>

definition spent :: "string \<Rightarrow> int \<Rightarrow> parents \<Rightarrow> bool" where
  "spent p n ps \<longleftrightarrow> n \<le> hw_of p ps \<and> n \<notin> taken (parentState p ps)"

text \<open>A change of the map that keeps spent numbers spent and never lowers a high-water mark.\<close>

definition evolves :: "parents \<Rightarrow> parents \<Rightarrow> bool" where
  "evolves ps ps' \<longleftrightarrow> (\<forall>p. hw_of p ps \<le> hw_of p ps') \<and> (\<forall>p n. spent p n ps \<longrightarrow> spent p n ps')"

lemma evolves_refl [simp]: "evolves ps ps"
  by (simp add: evolves_def)

lemma evolves_trans: "evolves a b \<Longrightarrow> evolves b c \<Longrightarrow> evolves a c"
  by (meson evolves_def order_trans)

lemma evolves_minted: "evolves a b \<Longrightarrow> n \<le> hw_of p a \<Longrightarrow> n \<le> hw_of p b"
  by (meson evolves_def order_trans)

lemma evolves_spent: "evolves a b \<Longrightarrow> spent p n a \<Longrightarrow> spent p n b"
  by (simp add: evolves_def)

lemma parentState_update [simp]:
  "parentState p (AList.update q st ps) = (if p = q then st else parentState p ps)"
  by (simp add: parentState_def)

lemma pst_ok_parentState: "parents_ok ps \<Longrightarrow> pst_ok (parentState p ps)"
proof (cases "map_of ps p")
  case (Some st)
  assume "parents_ok ps"
  with map_of_SomeD [OF Some] Some show ?thesis by (force simp: parentState_def parents_ok_def)
qed (simp add: parentState_def pst_ok_def taken_def)

lemma parents_ok_update: "parents_ok ps \<Longrightarrow> pst_ok st \<Longrightarrow> parents_ok (AList.update q st ps)"
  using set_update_subset [of q st ps] by (auto simp: parents_ok_def)

lemma evolves_update:
  assumes "ps_highWater (parentState q ps) \<le> ps_highWater st"
    and "\<And>n. n \<in> taken st \<Longrightarrow> n \<in> taken (parentState q ps) \<or> n > hw_of q ps"
  shows "evolves ps (AList.update q st ps)"
  using assms by (fastforce simp: evolves_def spent_def)

lemma parentState_reclaim:
  "parentState p (fst (alloc_reclaimExpired t probe ps)) = fst (reclaim_parent t probe (parentState p ps))"
  by (cases "map_of ps p") (auto simp: alloc_reclaimExpired_def parentState_def
      map_of_map_snd [of "\<lambda>st. fst (reclaim_parent t probe st)"] reclaim_parent_def [of _ _ "\<lparr>ps_highWater = _, ps_free = _, ps_reserved = _\<rparr>"])

lemma reclaim_ok:
  assumes "parents_ok ps"
  shows "parents_ok (fst (alloc_reclaimExpired t probe ps))" "evolves ps (fst (alloc_reclaimExpired t probe ps))"
proof -
  have "map fst (fst (alloc_reclaimExpired t probe ps)) = map fst ps" by (simp add: alloc_reclaimExpired_def)
  then show "parents_ok (fst (alloc_reclaimExpired t probe ps))"
    using assms reclaim_parent_ok(1) by (auto simp: parents_ok_def jmap_ok_def alloc_reclaimExpired_def comp_def)
  show "evolves ps (fst (alloc_reclaimExpired t probe ps))"
    unfolding evolves_def spent_def parentState_reclaim
    using reclaim_parent_ok(2,3) [OF pst_ok_parentState [OF assms]] by simp
qed

lemma mint_ok:
  assumes "parents_ok ps" "mint p fl tok r ps = (seq, ps')" "\<And>n. ar_seq (r n) = n" "\<And>n. ar_sprintId (r n) \<noteq> JUndef"
  shows "parents_ok ps'" "evolves ps ps'" "\<not> spent p seq ps" "seq \<le> hw_of p ps'" "1 \<le> seq"
proof -
  let ?f = "apply_floor fl (parentState p ps)"
  obtain st where st: "take_seq ?f = (seq, st)"
    and ps': "ps' = AList.update p (st\<lparr>ps_reserved := AList.update tok (r seq) (ps_reserved st)\<rparr>) ps"
    using assms(2) by (auto simp: mint_def split: prod.splits)
  note f = apply_floor_ok [OF pst_ok_parentState [OF assms(1), of p], of fl]
  note t = take_seq_ok [OF f(1) st]
  note r = reserve_ok [OF t(1), of "r seq" tok, unfolded assms(3), OF t(2,7,6) assms(4)]
  show "parents_ok ps'" unfolding ps' by (rule parents_ok_update [OF assms(1) r(1)])
  show "evolves ps ps'" unfolding ps' by (rule evolves_update) (use f t r in \<open>auto dest!: subsetD\<close>)
  show "seq \<le> hw_of p ps'" using t(6) by (simp add: ps')
  show "1 \<le> seq" by (rule t(7))
  show "\<not> spent p seq ps" using t(4) f by (auto simp: spent_def)
qed

lemma find_token_Some:
  assumes "find_token tok ps = Some (p, r)" "jmap_ok ps"
  shows "\<exists>st. map_of ps p = Some st \<and> map_of (ps_reserved st) tok = Some r"
  using assms
proof (induction ps)
  case (Cons x ps)
  obtain q st where x: "x = (q, st)" by fastforce
  show ?case
  proof (cases "map_of (ps_reserved st) tok")
    case None
    with Cons x have "find_token tok ps = Some (p, r)" "jmap_ok ps" by (auto simp: jmap_ok_def)
    from Cons.IH [OF this] obtain st' where "map_of ps p = Some st'" "map_of (ps_reserved st') tok = Some r" by blast
    moreover have "p \<noteq> q" using Cons.prems(2) x map_of_SomeD [OF \<open>map_of ps p = Some st'\<close>] by (force simp: jmap_ok_def)
    ultimately show ?thesis using x by auto
  qed (use Cons.prems x in auto)
qed simp

lemma find_token_state:
  assumes "find_token tok ps = Some (p, r)" "parents_ok ps"
  shows "map_of (ps_reserved (parentState p ps)) tok = Some r"
  using find_token_Some [OF assms(1)] assms(2) by (auto simp: parents_ok_def parentState_def)

lemma confirm_in_ok:
  assumes "parents_ok ps" "find_token tok ps = Some (p, r)"
  shows "parents_ok (confirm_in tok p ps)" "evolves ps (confirm_in tok p ps)" "spent p (ar_seq r) (confirm_in tok p ps)"
proof -
  let ?st = "parentState p ps"
  let ?st' = "?st\<lparr>ps_reserved := AList.delete tok (ps_reserved ?st)\<rparr>"
  note look = find_token_state [OF assms(2,1)]
  note ok = pst_ok_parentState [OF assms(1), of p, unfolded pst_ok_def]
  have d: "set (reserved_seqs ?st') = set (reserved_seqs ?st) - {ar_seq r}" "distinct (reserved_seqs ?st')"
    "ar_seq r \<in> set (reserved_seqs ?st)"
    using seqs_delete [OF _ look] ok by simp_all
  have t: "taken ?st' = taken ?st - {ar_seq r}" using d ok by (auto simp: taken_def)
  have "\<forall>q\<in>set (ps_reserved ?st'). ar_sprintId (snd q) \<noteq> JUndef" using ok look by (simp add: set_delete)
  then have "pst_ok ?st'" using d t ok by (auto simp: pst_ok_def)
  then show "parents_ok (confirm_in tok p ps)"
    using parents_ok_update [OF assms(1)] by (simp add: confirm_in_def Let_def)
  show "evolves ps (confirm_in tok p ps)"
    unfolding confirm_in_def Let_def by (rule evolves_update) (use t in auto)
  show "spent p (ar_seq r) (confirm_in tok p ps)"
    using t ok d(3) by (auto simp: spent_def confirm_in_def Let_def taken_def)
qed

lemma release_in_ok:
  assumes "parents_ok ps" "find_token tok ps = Some (p, r)"
  shows "parents_ok (release_in tok p (ar_seq r) ps)" "evolves ps (release_in tok p (ar_seq r) ps)"
proof -
  note g = give_back_ok [OF pst_ok_parentState [OF assms(1)] find_token_state [OF assms(2,1)]]
  show "parents_ok (release_in tok p (ar_seq r) ps)"
    unfolding release_in_def by (rule parents_ok_update [OF assms(1) g(1)])
  show "evolves ps (release_in tok p (ar_seq r) ps)"
    unfolding release_in_def by (rule evolves_update) (use g in auto)
qed

subsection \<open>The document round trip\<close>

definition reload_res :: "areservation \<Rightarrow> areservation" where
  "reload_res r = r\<lparr>ar_sprintId := json_value (ar_sprintId r)\<rparr>"

definition reload_pst :: "pstate \<Rightarrow> pstate" where
  "reload_pst st = st\<lparr>ps_reserved := map (\<lambda>p. (fst p, reload_res (snd p))) (ps_reserved st)\<rparr>"

definition reload :: "parents \<Rightarrow> parents" where
  "reload ps = map (\<lambda>p. (fst p, reload_pst (snd p))) ps"

lemma fold_update_fresh:
  "distinct (map fst (m @ es)) \<Longrightarrow> fold (\<lambda>(k, v). AList.update k v) es m = m @ es"
proof (induction es arbitrary: m)
  case (Cons e es)
  obtain k v where e: "e = (k, v)" by fastforce
  have "AList.update k v m = m @ [(k, v)]" using Cons.prems e by (intro update_fresh_snoc) auto
  with Cons.IH [of "m @ [(k, v)]"] Cons.prems e show ?case by simp
qed simp

lemma json_objs:
  assumes "\<And>p. p \<in> set xs \<Longrightarrow> f (snd p) \<noteq> JUndef"
  shows "json_value (JObj (map (\<lambda>p. (fst p, f (snd p))) xs)) = JObj (map (\<lambda>p. (fst p, json_value (f (snd p)))) xs)"
  using assms by (auto simp: comp_def filter_id_conv)

lemma load_areservation_json:
  assumes "ar_sprintId r \<noteq> JUndef"
  shows "load_areservation (k, json_value (js_of_areservation r)) = Inr (k, reload_res r)"
  using assms
  by (cases r; cases "ar_pid r")
    (auto simp: load_areservation_def js_of_areservation_def jfield_def thrown_def coalesce_def nullish_def reload_res_def)

lemma load_pstate_json:
  assumes "pst_ok st"
  shows "load_pstate (k, json_value (js_of_pstate st)) = Inr (k, reload_pst st)"
proof -
  note ok = pst_okD [OF assms]
  let ?rs = "map (\<lambda>p. (fst p, json_value (js_of_areservation (snd p)))) (ps_reserved st)"
  have "emap load_areservation ?rs = Inr (map (\<lambda>p. (fst p, reload_res (snd p))) (ps_reserved st))"
    unfolding emap_map by (rule emap_Inr_map) (use ok(7) load_areservation_json in auto)
  moreover have "fold (\<lambda>(k, v). AList.update k v) (map (\<lambda>p. (fst p, reload_res (snd p))) (ps_reserved st)) []
      = map (\<lambda>p. (fst p, reload_res (snd p))) (ps_reserved st)"
    using ok(6) fold_update_fresh [of "[]" "map (\<lambda>p. (fst p, reload_res (snd p))) (ps_reserved st)"]
    by (simp add: jmap_ok_def comp_def)
  moreover have "json_value (JObj (map (\<lambda>p. (fst p, js_of_areservation (snd p))) (ps_reserved st))) = JObj ?rs"
    by (rule json_objs) (simp add: js_of_areservation_def)
  moreover have "sort (ps_free st) = ps_free st" using ok(1) by (simp add: strict_sorted_iff sorted_sort_id)
  moreover have "int_of \<circ> ((\<lambda>x. if x = JUndef then JNull else json_value x) \<circ> JInt) = id" by auto
  moreover have "filter (is_int \<circ> ((\<lambda>x. if x = JUndef then JNull else json_value x) \<circ> JInt)) xs = xs" for xs
    by (simp add: filter_id_conv)
  ultimately show ?thesis
    by (cases st) (simp add: load_pstate_def js_of_pstate_def thrown_def jfield_def coalesce_def reload_pst_def rows_of_def
        filter_map)
qed

lemma alloc_load_json:
  assumes "parents_ok ps"
  shows "alloc_load_document (json_value (alloc_document ps)) = Inr (reload ps)"
proof -
  let ?es = "map (\<lambda>p. (fst p, json_value (js_of_pstate (snd p)))) ps"
  have "emap load_pstate ?es = Inr (reload ps)"
    unfolding emap_map reload_def by (rule emap_Inr_map) (use assms load_pstate_json in \<open>auto simp: parents_ok_def\<close>)
  moreover have "fold (\<lambda>(k, v). AList.update k v) (reload ps) [] = reload ps"
    using assms fold_update_fresh [of "[]" "reload ps"] by (simp add: parents_ok_def jmap_ok_def reload_def comp_def)
  moreover have "json_value (JObj (map (\<lambda>p. (fst p, js_of_pstate (snd p))) ps)) = JObj ?es"
    by (rule json_objs) (simp add: js_of_pstate_def)
  ultimately show ?thesis
    by (simp add: alloc_load_document_def alloc_document_def jfield_def thrown_def ID_ALLOCATOR_VERSION_def
        del: json_value.simps(4)) (simp add: ID_ALLOCATOR_VERSION_def thrown_def)
qed

lemma parentState_reload: "parentState p (reload ps) = reload_pst (parentState p ps)"
  by (cases "map_of ps p") (simp_all add: parentState_def reload_def map_of_map_snd, simp add: reload_pst_def)

lemma reload_pst_simps [simp]:
  "ps_highWater (reload_pst st) = ps_highWater st" "ps_free (reload_pst st) = ps_free st"
  "reserved_seqs (reload_pst st) = reserved_seqs st" "taken (reload_pst st) = taken st"
  by (simp_all add: reload_pst_def taken_def reload_res_def comp_def image_image)

lemma reload_pst_ok: "pst_ok st \<Longrightarrow> pst_ok (reload_pst st)"
  by (auto simp: pst_ok_def jmap_ok_def) (auto simp: reload_pst_def reload_res_def comp_def)

lemma reload_ok: "parents_ok ps \<Longrightarrow> parents_ok (reload ps)" "evolves ps (reload ps)"
  by (auto simp: parents_ok_def jmap_ok_def reload_def comp_def reload_pst_ok)
     (auto simp: evolves_def spent_def parentState_reload reload_def [symmetric])

subsection \<open>The invariant of the write-behind queue\<close>

text \<open>What a note promises of the map it was written with: the number is used up, or minted.\<close>

fun note_ok :: "al_note \<Rightarrow> parents \<Rightarrow> bool" where
  "note_ok (Allocated g) ps = (ag_seq g \<le> hw_of (ag_parentId g) ps)"
| "note_ok (Confirmed p n) ps = spent p n ps"
| "note_ok _ ps = True"

fun no_remint :: "al_note \<Rightarrow> al_note \<Rightarrow> bool" where
  "no_remint (Confirmed p n) (Allocated g) = ((ag_parentId g, ag_seq g) \<noteq> (p, n))"
| "no_remint _ _ = True"

lemma note_ok_evolves: "note_ok n ps \<Longrightarrow> evolves ps ps' \<Longrightarrow> note_ok n ps'"
  by (cases n) (auto intro: evolves_minted evolves_spent)

definition disk_holds :: "fs \<Rightarrow> parents \<Rightarrow> bool" where
  "disk_holds f ps \<longleftrightarrow> (main_file f = None \<and> ps = []) \<or> main_file f = Some (Json (json_value (alloc_document ps)))"

text \<open>
  The file, the queued snapshots and memory are stages of one evolution, and every note is kept by
  the snapshot it was queued with, or by the file once its caller has been told.
\<close>

definition al_inv :: "allocator \<Rightarrow> bool" where
  "al_inv st \<longleftrightarrow> (\<exists>d. disk_holds (al_fs st) d \<and>
     (\<forall>x\<in>set (d # map snd (al_queue st) @ [al_parents st]). parents_ok x) \<and>
     sorted_wrt evolves (d # map snd (al_queue st) @ [al_parents st]) \<and>
     (\<forall>n\<in>set (al_told st). note_ok n d) \<and> (\<forall>(n, ps)\<in>set (al_queue st). note_ok n ps) \<and>
     sorted_wrt no_remint (al_told st @ map fst (al_queue st)))"

lemma al_inv_notes:
  assumes "al_inv st" "n \<in> set (al_told st @ map fst (al_queue st))"
  shows "note_ok n (al_parents st)"
proof -
  obtain d where d: "sorted_wrt evolves (d # map snd (al_queue st) @ [al_parents st])"
    "\<forall>n\<in>set (al_told st). note_ok n d" "\<forall>(n, ps)\<in>set (al_queue st). note_ok n ps"
    using assms(1) unfolding al_inv_def by blast
  have ev: "evolves d (al_parents st)" "\<And>p. p \<in> set (al_queue st) \<Longrightarrow> evolves (snd p) (al_parents st)"
    using d(1) by (auto simp: sorted_wrt_append)
  from assms(2) consider "n \<in> set (al_told st)" | ps where "(n, ps) \<in> set (al_queue st)" by auto
  then show ?thesis
  proof cases
    case 1
    with d(2) ev(1) show ?thesis by (blast intro: note_ok_evolves)
  next
    case (2 ps)
    with d(3) ev(2) [OF 2] show ?thesis by (auto intro: note_ok_evolves)
  qed
qed

text \<open>A synchronous change of memory, and one followed by a queued write.\<close>

lemma al_inv_memory:
  assumes "al_inv st" "parents_ok ps" "evolves (al_parents st) ps"
    and "al_parents st' = ps" "al_queue st' = al_queue st" "al_fs st' = al_fs st" "al_told st' = al_told st"
  shows "al_inv st'"
proof -
  obtain d where d: "disk_holds (al_fs st) d" "\<forall>x\<in>set (d # map snd (al_queue st) @ [al_parents st]). parents_ok x"
    "sorted_wrt evolves (d # map snd (al_queue st) @ [al_parents st])"
    "(\<forall>n\<in>set (al_told st). note_ok n d) \<and> (\<forall>(n, ps)\<in>set (al_queue st). note_ok n ps) \<and>
     sorted_wrt no_remint (al_told st @ map fst (al_queue st))"
    using assms(1) unfolding al_inv_def by blast
  have "sorted_wrt evolves (d # map snd (al_queue st) @ [ps])"
    using d(3) assms(3) by (auto simp: sorted_wrt_append intro: evolves_trans)
  with d assms(2) show ?thesis unfolding al_inv_def assms(4-)
    by (intro exI [of _ d]) auto
qed

lemma al_inv_persist:
  assumes "al_inv st" "note_ok n (al_parents st)" "\<forall>m\<in>set (al_told st @ map fst (al_queue st)). no_remint m n"
  shows "al_inv (alloc_persist n st)"
  using assms unfolding al_inv_def alloc_persist_def
  by (auto simp: sorted_wrt_append)

lemma alloc_allocate_Inr:
  assumes "alloc_allocate env parentId pid sprintId fl st = (Inr g, st')"
  shows "\<exists>parent token r ps'.
    mint parent fl token r (fst (alloc_reclaimExpired (e_now env (al_ticks st)) (e_probe env (al_ticks st)) (al_parents st)))
      = (ag_seq g, ps') \<and> ag_childId g = childId parent (ag_seq g) \<and> parentId = JStr parent \<and> ag_parentId g = parent \<and> ag_token g = token \<and>
    (\<forall>n. ar_seq (r n) = n) \<and> (\<forall>n. ar_sprintId (r n) \<noteq> JUndef) \<and>
    st' = alloc_persist (Allocated g) ((al_tick (al_tick st))\<lparr>al_tokenSeq := Suc (al_tokenSeq st), al_parents := ps'\<rparr>)"
proof -
  let ?ps = "fst (alloc_reclaimExpired (e_now env (al_ticks st)) (e_probe env (al_ticks st)) (al_parents st))"
  let ?r = "\<lambda>seq. \<lparr>ar_seq = seq, ar_pid = (case pid of JInt i \<Rightarrow> Some i | _ \<Rightarrow> None),
     ar_sprintId = coalesce sprintId JNull, ar_reservedAt = e_now env (Suc (al_ticks st)),
     ar_expiresAt = e_now env (Suc (al_ticks st)) + e_leaseMs env\<rparr>"
  obtain parent where parent: "nonempty_str parentId = Some parent"
    using assms by (auto simp: alloc_allocate_def split: option.splits)
  let ?tok = "nextToken parent (Suc (al_tokenSeq st)) (e_date env (Suc (al_ticks st)))"
  obtain seq ps' where m: "mint parent fl ?tok ?r ?ps = (seq, ps')" by fastforce
  have "parentId = JStr parent" using parent by (cases parentId) (auto split: if_splits)
  with assms parent m show ?thesis
    by (intro exI [of _ parent] exI [of _ ?tok] exI [of _ ?r] exI [of _ ps'])
       (auto simp: alloc_allocate_def Let_def al_tick_def coalesce_def split: if_splits)
qed

lemma al_inv_allocate:
  assumes "al_inv st"
  shows "al_inv (snd (alloc_allocate env parentId pid sprintId fl st))"
proof (cases "alloc_allocate env parentId pid sprintId fl st")
  case (Pair res st')
  show ?thesis
  proof (cases res)
    case (Inl e)
    with Pair assms show ?thesis by (auto simp: alloc_allocate_def Let_def split: option.splits if_splits prod.splits)
  next
    case (Inr g)
    let ?ps = "fst (alloc_reclaimExpired (e_now env (al_ticks st)) (e_probe env (al_ticks st)) (al_parents st))"
    obtain parent token r ps' where m: "mint parent fl token r ?ps = (ag_seq g, ps')"
      "ag_parentId g = parent" "\<And>n. ar_seq (r n) = n" "\<And>n. ar_sprintId (r n) \<noteq> JUndef"
      and st': "st' = alloc_persist (Allocated g) ((al_tick (al_tick st))\<lparr>al_tokenSeq := Suc (al_tokenSeq st), al_parents := ps'\<rparr>)"
      using alloc_allocate_Inr [OF Pair [unfolded Inr]] by blast
    have ok: "parents_ok (al_parents st)" using assms by (auto simp: al_inv_def)
    note rec = reclaim_ok [OF ok, of "e_now env (al_ticks st)" "e_probe env (al_ticks st)"]
    note mint = mint_ok [OF rec(1) m(1,3,4)]
    let ?st1 = "(al_tick (al_tick st))\<lparr>al_tokenSeq := Suc (al_tokenSeq st), al_parents := ps'\<rparr>"
    have st1: "al_inv ?st1"
      by (rule al_inv_memory [OF assms mint(1) evolves_trans [OF rec(2) mint(2)]]) (simp_all add: al_tick_def)
    have "\<not> spent (ag_parentId g) (ag_seq g) (al_parents st)"
      using mint(3) evolves_spent [OF rec(2)] m(2) by auto
    then have "no_remint n (Allocated g)" if "n \<in> set (al_told st @ map fst (al_queue st))" for n
      using al_inv_notes [OF assms that] by (cases n) auto
    then have "al_inv (alloc_persist (Allocated g) ?st1)"
      using mint(4) m(2) by (intro al_inv_persist st1) (simp_all add: al_tick_def)
    with Pair st' show ?thesis by simp
  qed
qed

lemma al_inv_confirm:
  assumes "al_inv st"
  shows "al_inv (snd (alloc_confirm tok st))"
proof (cases "find_token tok (al_parents st)")
  case (Some pr)
  obtain p r where pr: "pr = (p, r)" by fastforce
  have ok: "parents_ok (al_parents st)" using assms by (auto simp: al_inv_def)
  note c = confirm_in_ok [OF ok Some [unfolded pr]]
  have "al_inv (st\<lparr>al_parents := confirm_in tok p (al_parents st)\<rparr>)"
    by (rule al_inv_memory [OF assms c(1,2)]) simp_all
  then have "al_inv (alloc_persist (Confirmed p (ar_seq r)) (st\<lparr>al_parents := confirm_in tok p (al_parents st)\<rparr>))"
    using c(3) by (intro al_inv_persist) (auto elim: no_remint.elims)
  with Some pr show ?thesis by (simp add: alloc_confirm_def)
qed (use assms in \<open>simp add: alloc_confirm_def\<close>)

lemma al_inv_release:
  assumes "al_inv st"
  shows "al_inv (snd (alloc_release tok st))"
proof (cases "find_token tok (al_parents st)")
  case (Some pr)
  obtain p r where pr: "pr = (p, r)" by fastforce
  have ok: "parents_ok (al_parents st)" using assms by (auto simp: al_inv_def)
  note c = release_in_ok [OF ok Some [unfolded pr]]
  have "al_inv (st\<lparr>al_parents := release_in tok p (ar_seq r) (al_parents st)\<rparr>)"
    by (rule al_inv_memory [OF assms c]) simp_all
  then have "al_inv (alloc_persist Released (st\<lparr>al_parents := release_in tok p (ar_seq r) (al_parents st)\<rparr>))"
    by (intro al_inv_persist) auto
  with Some pr show ?thesis by (simp add: alloc_release_def)
qed (use assms in \<open>simp add: alloc_release_def\<close>)

lemma al_inv_sweep:
  assumes "al_inv st"
  shows "al_inv (alloc_sweep env st)"
proof -
  have ok: "parents_ok (al_parents st)" using assms by (auto simp: al_inv_def)
  note rec = reclaim_ok [OF ok, of "e_now env (al_ticks st)" "e_probe env (al_ticks st)"]
  obtain ps n where ps: "alloc_reclaimExpired (e_now env (al_ticks st)) (e_probe env (al_ticks st)) (al_parents st) = (ps, n)"
    by fastforce
  have "al_inv ((al_tick st)\<lparr>al_parents := ps\<rparr>)"
    using rec ps by (intro al_inv_memory [OF assms, of ps]) (simp_all add: al_tick_def)
  moreover from this have "al_inv (alloc_persist Swept ((al_tick st)\<lparr>al_parents := ps\<rparr>))"
    by (intro al_inv_persist) auto
  ultimately show ?thesis using ps by (simp add: alloc_sweep_def Let_def)
qed

lemma al_inv_flush:
  assumes "al_inv st"
  shows "al_inv (alloc_flush io st)"
proof (cases "al_queue st")
  case (Cons np q)
  obtain n ps where np: "np = (n, ps)" by fastforce
  obtain d where d: "disk_holds (al_fs st) d" "\<forall>x\<in>set (d # ps # map snd q @ [al_parents st]). parents_ok x"
    "sorted_wrt evolves (d # ps # map snd q @ [al_parents st])" "\<forall>n\<in>set (al_told st). note_ok n d"
    "note_ok n ps" "\<forall>(n, ps)\<in>set q. note_ok n ps" "sorted_wrt no_remint (al_told st @ n # map fst q)"
    using assms Cons np unfolding al_inv_def by auto
  obtain res f where p: "persist io (alloc_document ps) (al_fs st) = (res, f)" by fastforce
  show ?thesis
  proof (cases res)
    case (Inl e)
    have "disk_holds f d" using persist_Inl [OF p [unfolded Inl]] d(1) by (simp add: disk_holds_def)
    with d Inl p Cons np show ?thesis
      by (auto simp: al_inv_def alloc_flush_def sorted_wrt_append intro!: exI [of _ d])
  next
    case (Inr u)
    have "disk_holds f ps" using persist_Inr [OF p [unfolded Inr]] by (simp add: disk_holds_def)
    moreover have "\<forall>n\<in>set (al_told st). note_ok n ps" using d(3,4) by (auto intro: note_ok_evolves)
    ultimately show ?thesis using d Inr p Cons np
      by (auto simp: al_inv_def alloc_flush_def intro!: exI [of _ ps])
  qed
qed (use assms in \<open>simp add: alloc_flush_def\<close>)

lemma restart_loads:
  assumes "disk_holds f d" "parents_ok d"
  shows "alloc_load None (new_allocator f t told)
    = (Inr (), (new_allocator f t told)\<lparr>al_parents := reload d, al_loaded := True\<rparr>)"
  using assms by (auto simp: alloc_load_def new_allocator_def disk_holds_def alloc_load_json reload_def)

lemma al_inv_restart:
  assumes "al_inv st"
  shows "al_inv (snd (alloc_restart st))"
proof -
  obtain d where d: "disk_holds (al_fs st) d" "parents_ok d" "\<forall>n\<in>set (al_told st). note_ok n d"
    "sorted_wrt no_remint (al_told st)"
    using assms by (auto simp: al_inv_def sorted_wrt_append)
  then have "snd (alloc_restart st) = (new_allocator (al_fs st) (al_ticks st) (al_told st))\<lparr>al_parents := reload d, al_loaded := True\<rparr>"
    by (simp add: alloc_restart_def restart_loads)
  with d reload_ok [of d] show ?thesis
    by (auto simp: al_inv_def new_allocator_def intro!: exI [of _ d])
qed

lemma al_inv_empty: "al_inv empty_allocator"
  by (auto simp: al_inv_def empty_allocator_def new_allocator_def disk_holds_def parents_ok_def intro!: exI [of _ "[]"])

interpretation al: op_machine empty_allocator "al_step env" al_inv for env
proof unfold_locales
  fix st op
  assume "al_inv st"
  then show "al_inv (al_step env op st)"
    by (cases op) (simp_all add: al_inv_allocate al_inv_confirm al_inv_release al_inv_sweep al_inv_flush al_inv_restart)
qed (rule al_inv_empty)

lemma al_run_inv: "al_inv (al_run env ops)"
  unfolding al_run_def by (rule al.run_inv)

subsection \<open>Outstanding child ids\<close>

definition outstanding :: "parents \<Rightarrow> (string \<times> int) list" where
  "outstanding ps = concat (map (\<lambda>(p, st). map (\<lambda>(tok, r). (p, ar_seq r)) (ps_reserved st)) ps)"

lemma outstanding_parent: "(p, n) \<in> set (outstanding ps) \<Longrightarrow> p \<in> fst ` set ps"
  by (force simp: outstanding_def)

lemma outstanding_seq: "parents_ok ps \<Longrightarrow> (p, n) \<in> set (outstanding ps) \<Longrightarrow> 1 \<le> n"
  by (fastforce simp: outstanding_def parents_ok_def dest!: pst_okD(5) [where n = n] bspec intro: rev_image_eqI simp: taken_def)

lemma distinct_outstanding: "parents_ok ps \<Longrightarrow> distinct (outstanding ps)"
proof (induction ps)
  case (Cons x ps)
  obtain p st where x: "x = (p, st)" by fastforce
  have ok: "parents_ok ps" "pst_ok st" "p \<notin> fst ` set ps"
    using Cons.prems x by (auto simp: parents_ok_def jmap_ok_def)
  have "distinct (map (\<lambda>(tok, r). (p, ar_seq r)) (ps_reserved st))"
    using distinct_map [of "Pair p" "reserved_seqs st"] pst_okD(2) [OF ok(2)]
    by (simp add: inj_on_def comp_def case_prod_unfold)
  moreover have "(p, n) \<notin> set (outstanding ps)" for n using outstanding_parent ok(3) by blast
  then have "set (map (\<lambda>(tok, r). (p, ar_seq r)) (ps_reserved st)) \<inter> set (outstanding ps) = {}" by auto
  moreover have "outstanding (x # ps) = map (\<lambda>(tok, r). (p, ar_seq r)) (ps_reserved st) @ outstanding ps"
    by (simp add: outstanding_def x)
  ultimately show ?case using Cons.IH [OF ok(1)] by simp
qed (simp add: outstanding_def)

lemma childId_inj:
  assumes "childId p n = childId q m" "1 \<le> n" "1 \<le> m"
  shows "p = q \<and> n = m"
proof -
  have nodot: "CHR ''.'' \<notin> set (show_nat k)" for k
  proof
    assume "CHR ''.'' \<in> set (show_nat k)"
    from show_nat_digits [OF this] show False by simp
  qed
  have "p @ CHR ''.'' # show_nat (nat n) = q @ CHR ''.'' # show_nat (nat m)"
    using assms by (simp add: childId_def show_int_def)
  from split_last_eq [OF this nodot nodot] assms(2,3) show ?thesis by (auto simp: eq_nat_nat_iff)
qed

subsection \<open>Properties of the allocator\<close>

text \<open>
  Property C12. A confirmed id is never minted again. In the order in which callers are told, an
  allocation that comes after the confirmation of a number under a parent never has that number under that
  parent, whatever other calls, clock readings, dead processes, failed writes and supervisor restarts come
  in between.
\<close>

theorem allocator_no_remint:
  assumes "al_told (al_run env ops) = xs @ Confirmed p n # ys" "Allocated g \<in> set ys"
  shows "(ag_parentId g, ag_seq g) \<noteq> (p, n)"
proof -
  have "sorted_wrt no_remint (al_told (al_run env ops))"
    using al_run_inv [of env ops] by (auto simp: al_inv_def sorted_wrt_append)
  then have "no_remint (Confirmed p n) (Allocated g)"
    using assms by (auto simp: sorted_wrt_append)
  then show ?thesis by auto
qed

definition al_demo_env :: lease_env where
  "al_demo_env = \<lparr>e_leaseMs = 60000, e_now = int, e_date = id, e_probe = (\<lambda>_ _. True)\<rparr>"

definition al_demo_ops :: "al_op list" where
  "al_demo_ops = [AlAllocate (JStr ''e'') JNull JNull (JInt 2), AlFlush io_ok, AlConfirm ''e#1#1'', AlFlush io_ok,
     AlRestart, AlAllocate (JStr ''e'') JNull JNull JUndef, AlFlush io_ok]"

lemma al_demo_told:
  "al_told (al_run al_demo_env al_demo_ops) =
    [Allocated \<lparr>ag_childId = ''e.3'', ag_parentId = ''e'', ag_seq = 3, ag_token = ''e#1#1'', ag_expiresAt = 60001\<rparr>]
    @ Confirmed ''e'' 3 #
    [Allocated \<lparr>ag_childId = ''e.4'', ag_parentId = ''e'', ag_seq = 4, ag_token = ''e#1#3'', ag_expiresAt = 60003\<rparr>]"
  by code_simp

theorem allocator_no_remint_witness:
  "Confirmed ''e'' 3 \<in> set (al_told (al_run al_demo_env al_demo_ops)) \<and> (''e'', 4::int) \<noteq> (''e'', 3)"
  using allocator_no_remint [OF al_demo_told, of "\<lparr>ag_childId = ''e.4'', ag_parentId = ''e'', ag_seq = 4, ag_token = ''e#1#3'', ag_expiresAt = 60003\<rparr>"]
  by (simp add: al_demo_told)

text \<open>
  No two outstanding reservations share a child id: at any moment, across all parents, the
  ids reserved for a running creation are pairwise different as strings.
\<close>

theorem allocator_outstanding_distinct:
  "distinct (map (\<lambda>(p, n). childId p n) (outstanding (al_parents (al_run env ops))))"
proof -
  have ok: "parents_ok (al_parents (al_run env ops))" using al_run_inv [of env ops] by (auto simp: al_inv_def)
  have "inj_on (\<lambda>(p, n). childId p n) (set (outstanding (al_parents (al_run env ops))))"
    by (rule inj_onI) (use childId_inj outstanding_seq [OF ok] in \<open>fastforce split: prod.splits\<close>)
  with distinct_outstanding [OF ok] show ?thesis by (simp add: distinct_map)
qed

text \<open>
  Property C13. A restart loses nothing a caller was told. The file always loads, and in the reloaded state
  every allocation that was returned to a caller is at or below its parent's high-water mark and every
  confirmed id is spent.
\<close>

theorem allocator_restart_keeps_told:
  "fst (alloc_restart (al_run env ops)) = Inr () \<and>
   (\<forall>g. Allocated g \<in> set (al_told (al_run env ops)) \<longrightarrow>
      ag_seq g \<le> ps_highWater (parentState (ag_parentId g) (al_parents (snd (alloc_restart (al_run env ops)))))) \<and>
   (\<forall>p n. Confirmed p n \<in> set (al_told (al_run env ops)) \<longrightarrow>
      spent p n (al_parents (snd (alloc_restart (al_run env ops)))))"
proof -
  let ?st = "al_run env ops"
  obtain d where d: "disk_holds (al_fs ?st) d" "parents_ok d" "\<forall>n\<in>set (al_told ?st). note_ok n d"
    using al_run_inv [of env ops] by (auto simp: al_inv_def)
  then have r: "alloc_restart ?st
      = (Inr (), (new_allocator (al_fs ?st) (al_ticks ?st) (al_told ?st))\<lparr>al_parents := reload d, al_loaded := True\<rparr>)"
    by (simp add: alloc_restart_def restart_loads)
  have "note_ok n (reload d)" if "n \<in> set (al_told ?st)" for n
    using d(3) reload_ok(2) that by (blast intro: note_ok_evolves)
  from this [of "Allocated _"] this [of "Confirmed _ _"] show ?thesis by (auto simp: r)
qed

theorem allocator_restart_keeps_told_witness:
  "(4::int) \<le> ps_highWater (parentState ''e'' (al_parents (snd (alloc_restart (al_run al_demo_env al_demo_ops)))))"
  using allocator_restart_keeps_told [of al_demo_env al_demo_ops] by (force simp: al_demo_told)

text \<open>
  What \<^verbatim>\<open>allocate\<close> hands out. After the reclaim and the floor it is the smallest hole of the
  parent if there is one and the next new number otherwise; the id is that of the parent with the number,
  and it lies above every child the caller says already exists.
\<close>

theorem allocator_smallest_hole:
  assumes "alloc_allocate env (JStr p) pid sid fl (al_run env ops) = (Inr g, st')"
  defines "st \<equiv> al_run env ops"
  defines "pool \<equiv> apply_floor fl (parentState p (fst (alloc_reclaimExpired (e_now env (al_ticks st))
             (e_probe env (al_ticks st)) (al_parents st))))"
  shows "ag_seq g = (if ps_free pool = [] then ps_highWater pool + 1 else Min (set (ps_free pool))) \<and>
    ag_childId g = childId p (ag_seq g) \<and> (\<forall>f. fl = JInt f \<longrightarrow> f < ag_seq g)"
proof -
  let ?ps = "fst (alloc_reclaimExpired (e_now env (al_ticks st)) (e_probe env (al_ticks st)) (al_parents st))"
  obtain token r ps' where m: "mint p fl token r ?ps = (ag_seq g, ps')" "ag_childId g = childId p (ag_seq g)"
    using alloc_allocate_Inr [OF assms(1)] unfolding st_def by auto
  have "pst_ok pool" unfolding pool_def st_def
    using al_run_inv [of env ops] by (intro apply_floor_ok pst_ok_parentState reclaim_ok) (auto simp: al_inv_def)
  then have sorted: "sorted_wrt (<) (ps_free pool)" by (rule pst_okD)
  have seq: "ag_seq g = (if ps_free pool = [] then ps_highWater pool + 1 else hd (ps_free pool))"
    using m(1) by (auto simp: mint_def take_seq_def pool_def split: list.splits prod.splits)
  moreover have "hd (ps_free pool) = Min (set (ps_free pool))" if "ps_free pool \<noteq> []"
    using that sorted by (cases "ps_free pool") (auto intro!: Min_eqI [symmetric])
  moreover have "f < ag_seq g" if "fl = JInt f" for f
  proof (cases "ps_free pool = []")
    case False
    then have "hd (ps_free pool) \<in> set (ps_free pool)" by simp
    with that have "f < hd (ps_free pool)" by (simp add: apply_floor_def pool_def)
    with seq False show ?thesis by simp
  qed (use seq that in \<open>simp add: apply_floor_def pool_def\<close>)
  ultimately show ?thesis using m(2) by simp
qed

lemma al_demo_allocate:
  "fst (alloc_allocate al_demo_env (JStr ''e'') JNull JNull (JInt 5) (al_run al_demo_env al_demo_ops)) =
    Inr \<lparr>ag_childId = ''e.6'', ag_parentId = ''e'', ag_seq = 6, ag_token = ''e#2#5'', ag_expiresAt = 60005\<rparr>"
  by code_simp

theorem allocator_smallest_hole_witness:
  "\<exists>g st'. alloc_allocate al_demo_env (JStr ''e'') JNull JNull (JInt 5) (al_run al_demo_env al_demo_ops) = (Inr g, st') \<and> 5 < ag_seq g"
proof -
  obtain g st' where g: "alloc_allocate al_demo_env (JStr ''e'') JNull JNull (JInt 5) (al_run al_demo_env al_demo_ops) = (Inr g, st')"
    using al_demo_allocate by (metis prod.collapse)
  with allocator_smallest_hole [OF g] show ?thesis by blast
qed

end
