(* ===== verification/Graph_Walk.thy ===== *)
theory Graph_Walk
  imports JS_Prelude
begin

section \<open>Breadth-first walks over an index\<close>

text \<open>
  The loop that the sprint runner writes several times: a queue of nodes, a set of the nodes seen so far, and an index
  from a node to the list of its successors. The walk terminates on every finite index, cycles included, and what it
  adds to the nodes seen is what can be reached from the queue. Sets are lists without repetitions in insertion order.
\<close>

definition succs :: "('a \<times> 'a list) list \<Rightarrow> 'a \<Rightarrow> 'a list" where
  "succs idx x = (case map_of idx x of None \<Rightarrow> [] | Some ys \<Rightarrow> ys)"

definition edges :: "('a \<times> 'a list) list \<Rightarrow> ('a \<times> 'a) set" where
  "edges idx = {(x, y). y \<in> set (succs idx x)}"

text \<open>The elements of a list that are not seen yet, each once.\<close>

fun fresh :: "'a list \<Rightarrow> 'a list \<Rightarrow> 'a list" where
  "fresh seen [] = []"
| "fresh seen (x # xs) = (if x \<in> set seen then fresh seen xs else x # fresh (seen @ [x]) xs)"

lemma set_fresh [simp]: "set (fresh seen xs) = set xs - set seen"
  by (induction xs arbitrary: seen) auto

lemma distinct_fresh [simp]: "distinct (fresh seen xs)"
  by (induction xs arbitrary: seen) auto

definition universe :: "('a \<times> 'a list) list \<Rightarrow> 'a set" where
  "universe idx = \<Union>(set ` snd ` set idx)"

lemma finite_universe [simp]: "finite (universe idx)"
  by (auto simp: universe_def)

lemma succs_universe: "set (succs idx x) \<subseteq> universe idx"
proof (cases "map_of idx x")
  case (Some ys)
  then have "ys \<in> snd ` set idx" by (force dest: map_of_SomeD)
  with Some show ?thesis by (auto simp: succs_def universe_def)
qed (simp add: succs_def)

text \<open>What bounds such a loop: every node added to the queue was not seen before.\<close>

definition walk_measure :: "('a \<times> 'a list) list \<Rightarrow> 'a list \<Rightarrow> 'a list \<Rightarrow> nat" where
  "walk_measure idx seen q = 2 * card (universe idx - set seen) + length q"

lemma walk_measure_step:
  "walk_measure idx (seen @ fresh seen (succs idx i)) (q @ fresh seen (succs idx i)) < walk_measure idx seen (i # q)"
proof -
  let ?new = "fresh seen (succs idx i)"
  have sub: "set ?new \<subseteq> universe idx - set seen" using succs_universe [of idx i] by auto
  have "card (universe idx - set (seen @ ?new)) = card ((universe idx - set seen) - set ?new)"
    by (simp add: set_diff_eq conj_assoc de_Morgan_disj)
  also have "\<dots> = card (universe idx - set seen) - length ?new"
    using sub by (subst card_Diff_subset) (simp_all add: distinct_card del: set_fresh)
  finally have "card (universe idx - set (seen @ ?new)) = card (universe idx - set seen) - length ?new" .
  moreover have "length ?new \<le> card (universe idx - set seen)"
    using card_mono [OF _ sub] by (simp add: distinct_card del: set_fresh)
  ultimately show ?thesis unfolding walk_measure_def by simp
qed

function walk :: "('a \<times> 'a list) list \<Rightarrow> 'a list \<Rightarrow> 'a list \<Rightarrow> 'a list" where
  "walk idx seen [] = seen"
| "walk idx seen (i # q) = walk idx (seen @ fresh seen (succs idx i)) (q @ fresh seen (succs idx i))"
  by pat_completeness auto

termination
  by (relation "measure (\<lambda>(idx, seen, q). walk_measure idx seen q)") (simp_all add: walk_measure_step)

lemma Image_Cons: "r `` set (x # xs) = r `` {x} \<union> r `` set xs"
  by auto

lemma walk_distinct: "distinct seen \<Longrightarrow> distinct (walk idx seen q)"
  by (induction idx seen q rule: walk.induct) auto

lemma walk_sound: "set (walk idx seen q) \<subseteq> set seen \<union> (edges idx)\<^sup>+ `` set q"
proof (induction idx seen q rule: walk.induct)
  case (2 idx seen i q)
  let ?new = "fresh seen (succs idx i)"
  have new: "set ?new \<subseteq> edges idx `` {i}" by (auto simp: edges_def)
  have "(edges idx)\<^sup>+ `` set ?new \<subseteq> (edges idx)\<^sup>+ `` {i}"
    using new by (blast intro: trancl_into_trancl2)
  moreover have "set ?new \<subseteq> (edges idx)\<^sup>+ `` {i}" using new by blast
  moreover have "set (walk idx seen (i # q)) \<subseteq> set seen \<union> set ?new \<union> ((edges idx)\<^sup>+ `` set q \<union> (edges idx)\<^sup>+ `` set ?new)"
    using 2 by (simp only: walk.simps set_append Image_Un)
  moreover have "(edges idx)\<^sup>+ `` set (i # q) = (edges idx)\<^sup>+ `` {i} \<union> (edges idx)\<^sup>+ `` set q" by (rule Image_Cons)
  ultimately show ?case by blast
qed simp

lemma walk_seen: "set seen \<subseteq> set (walk idx seen q)"
  by (induction idx seen q rule: walk.induct) auto

text \<open>A loop is complete when the nodes seen at its start are waiting in the queue or have been expanded.\<close>

lemma walk_complete:
  assumes "\<And>x. x \<in> set seen \<Longrightarrow> x \<in> set q \<or> set (succs idx x) \<subseteq> set seen"
  shows "set seen \<subseteq> set (walk idx seen q) \<and> edges idx `` (set (walk idx seen q) \<union> set q) \<subseteq> set (walk idx seen q)"
  using assms
proof (induction idx seen q rule: walk.induct)
  case (1 idx seen)
  then show ?case by (auto simp: edges_def)
next
  case (2 idx seen i q)
  let ?new = "fresh seen (succs idx i)"
  have "x \<in> set (q @ ?new) \<or> set (succs idx x) \<subseteq> set (seen @ ?new)" if "x \<in> set (seen @ ?new)" for x
    using that "2.prems" [of x] by (cases "x = i") auto
  from "2.IH" [OF this] have "set (seen @ ?new) \<subseteq> set (walk idx (seen @ ?new) (q @ ?new))"
    "edges idx `` (set (walk idx (seen @ ?new) (q @ ?new)) \<union> set (q @ ?new)) \<subseteq> set (walk idx (seen @ ?new) (q @ ?new))"
    by blast+
  moreover have "edges idx `` {i} \<subseteq> set (seen @ ?new)" by (auto simp: edges_def)
  moreover have "edges idx `` set (i # q) = edges idx `` {i} \<union> edges idx `` set q" by (rule Image_Cons)
  ultimately show ?case unfolding walk.simps Image_Un set_append by blast
qed

lemma closed_trancl: "r `` X \<subseteq> X \<Longrightarrow> r `` Q \<subseteq> X \<Longrightarrow> r\<^sup>+ `` Q \<subseteq> X"
proof
  fix y
  assume c: "r `` X \<subseteq> X" "r `` Q \<subseteq> X" and "y \<in> r\<^sup>+ `` Q"
  then obtain q where "q \<in> Q" "(q, y) \<in> r\<^sup>+" by blast
  from this(2,1) show "y \<in> X" using c by (induction rule: trancl_induct) blast+
qed

lemma walk_set:
  assumes "\<And>x. x \<in> set seen \<Longrightarrow> x \<in> set q \<or> set (succs idx x) \<subseteq> set seen"
  shows "set (walk idx seen q) = set seen \<union> (edges idx)\<^sup>+ `` set q"
proof
  show "set seen \<union> (edges idx)\<^sup>+ `` set q \<subseteq> set (walk idx seen q)"
    using walk_complete [OF assms] by (simp add: Image_Un closed_trancl)
qed (rule walk_sound)

text \<open>The two ways the runner starts a walk: with nothing seen, and with the queue as what is seen.\<close>

lemma walk_from_nothing: "set (walk idx [] q) = (edges idx)\<^sup>+ `` set q"
  by (subst walk_set) auto

lemma walk_from_queue: "set (walk idx q q) = (edges idx)\<^sup>* `` set q"
  by (subst walk_set) (auto simp: rtrancl_eq_or_trancl)

text \<open>Indexing rows: a list of pairs of a key and a row grouped by the key, in the order of the rows.\<close>

definition push :: "'k \<times> 'a \<Rightarrow> ('k, 'a list) jsmap \<Rightarrow> ('k, 'a list) jsmap" where
  "push p idx = AList.update (fst p) ((case map_of idx (fst p) of None \<Rightarrow> [] | Some xs \<Rightarrow> xs) @ [snd p]) idx"

definition group :: "('k \<times> 'a) list \<Rightarrow> ('k, 'a list) jsmap" where
  "group ps = fold push ps []"

lemma map_of_push_fold:
  "map_of (fold push ps idx) k =
     (let xs = map snd (filter (\<lambda>p. fst p = k) ps)
      in if xs = [] then map_of idx k else Some ((case map_of idx k of None \<Rightarrow> [] | Some ys \<Rightarrow> ys) @ xs))"
  by (induction ps arbitrary: idx) (auto simp: push_def Let_def split: option.split)

lemma map_of_group:
  "map_of (group ps) k = (let xs = map snd (filter (\<lambda>p. fst p = k) ps) in if xs = [] then None else Some xs)"
  by (simp add: group_def map_of_push_fold Let_def)

end
