(* ===== verification/Beads_Scope.thy ===== *)
theory Beads_Scope
  imports Graph_Walk
begin

section \<open>The beads of a sprint: scope, verify set, prerequisites, goal band\<close>

text \<open>
  The pure functions of \<^verbatim>\<open>packages/apra-fleet-se/fleet-sprint/beads-scope.mjs\<close>. A bead is the row that the tracker prints
  (a \<open>jsval\<close>); an id read with \<^verbatim>\<open>String(b.id)\<close> is a string, and an id used as it is, in \<^verbatim>\<open>buildBeadGraph\<close> and its callers,
  a \<open>jsval\<close> compared by value (an id that is an array or object, which the language compares by identity, is outside the
  model). \<open>lc\<close> is \<^verbatim>\<open>localeCompare\<close> and \<open>parse\<close> is \<^verbatim>\<open>JSON.parse\<close> (\<open>None\<close> when it throws). The goal is a list of tiers such as
  \<^verbatim>\<open>P1/P2\<close>; the number of a tier that is not written in digits counts as \<^verbatim>\<open>NaN\<close>.
\<close>

abbreviation bead_key :: "jsval \<Rightarrow> jsval" where
  "bead_key b \<equiv> jfield b ''id''"

abbreviation bead_sid :: "jsval \<Rightarrow> string" where
  "bead_sid b \<equiv> js_str (jfield b ''id'')"

abbreviation closed_row :: "jsval \<Rightarrow> bool" where
  "closed_row b \<equiv> jfield b ''status'' = JStr ''closed''"

subsection \<open>Commands that change the tracker\<close>

definition word_char :: "char \<Rightarrow> bool" where
  "word_char c \<longleftrightarrow>
     (let n = (of_char c :: nat) in (48 \<le> n \<and> n \<le> 57) \<or> (65 \<le> n \<and> n \<le> 90) \<or> (97 \<le> n \<and> n \<le> 122) \<or> n = 95)"

text \<open>The text begins with the word, in any case, and the word ends there.\<close>

definition starts_word :: "string \<Rightarrow> string \<Rightarrow> bool" where
  "starts_word w s \<longleftrightarrow> js_startsWith (js_lower s) w \<and> (case drop (length w) s of [] \<Rightarrow> True | c # _ \<Rightarrow> \<not> word_char c)"

definition BD_READ_ONLY :: "string \<Rightarrow> bool" where
  "BD_READ_ONLY s \<longleftrightarrow>
     js_startsWith (js_lower s) ''bd'' \<and> takeWhile js_space (drop 2 s) \<noteq> [] \<and>
     list_ex (\<lambda>w. starts_word w (dropWhile js_space (drop 2 s))) [''list'', ''show'', ''ready'', ''config'']"

definition isBeadsMutatingCommand :: "string \<Rightarrow> bool" where
  "isBeadsMutatingCommand cmd \<longleftrightarrow> starts_word ''bd'' (js_trim cmd) \<and> \<not> BD_READ_ONLY (js_trim cmd)"

subsection \<open>The goal band and deferred beads\<close>

definition tier_num :: "string \<Rightarrow> nat option" where
  "tier_num p =
     (let ds = drop 1 p in if ds = [] then Some 0 else if list_all js_digit ds then Some (read_nat ds) else None)"

definition goalPriorityMax :: "string \<Rightarrow> string" where
  "goalPriorityMax goal =
     (let tiers = map tier_num (js_split (CHR ''/'') goal)
      in ''P'' @ (if None \<in> set tiers then ''NaN'' else show_nat (Max (set (map the tiers)))))"

definition isBelowGoal :: "string \<Rightarrow> jsval \<Rightarrow> bool" where
  "isBelowGoal goal b \<longleftrightarrow> truthy b \<and>
     (case (num_val (jfield b ''priority''), tier_num (goalPriorityMax goal)) of
        (Some p, Some n) \<Rightarrow> p > of_nat n
      | _ \<Rightarrow> False)"

definition DEFERRED_BEAD_STATUS :: string where
  "DEFERRED_BEAD_STATUS = ''deferred''"

definition is_deferred :: "jsval \<Rightarrow> bool" where
  "is_deferred b =
     (case and_field b ''status'' of JStr s \<Rightarrow> js_lower (js_trim s) = DEFERRED_BEAD_STATUS | _ \<Rightarrow> False)"

definition partitionDeferredBeads :: "jsval list \<Rightarrow> jsval list \<times> string list" where
  "partitionDeferredBeads beads =
     (filter (\<lambda>b. \<not> is_deferred b) beads, map bead_sid (filter is_deferred beads))"

subsection \<open>Scope discovery\<close>

record bead_graph =
  bg_byId :: "(jsval, jsval) jsmap"
  bg_childrenOf :: "(jsval, jsval list) jsmap"

definition has_parent :: "jsval \<Rightarrow> bool" where
  "has_parent b \<longleftrightarrow> jfield b ''parent'' \<notin> {JUndef, JNull, JStr []}"

definition buildBeadGraph :: "jsval list \<Rightarrow> bead_graph" where
  "buildBeadGraph allBeads =
     (let beads = filter truthy allBeads in
      \<lparr>bg_byId = fold (\<lambda>b m. if nullish (bead_key b) then m else AList.update (bead_key b) b m) beads [],
       bg_childrenOf = group (map (\<lambda>b. (jfield b ''parent'', b)) (filter has_parent beads))\<rparr>)"

definition kids_of :: "bead_graph \<Rightarrow> jsval \<Rightarrow> jsval list" where
  "kids_of g i = (case map_of (bg_childrenOf g) i of None \<Rightarrow> [] | Some bs \<Rightarrow> bs)"

definition child_ids :: "bead_graph \<Rightarrow> (jsval \<times> jsval list) list" where
  "child_ids g = map (\<lambda>p. (fst p, map bead_key (snd p))) (bg_childrenOf g)"

definition discoverScope :: "jsval list \<Rightarrow> jsval list \<Rightarrow> jsval list" where
  "discoverScope allBeads targets =
     (let reached = walk (child_ids (buildBeadGraph allBeads)) [] targets in reached @ fresh reached targets)"

subsection \<open>The verify set\<close>

definition unmet_blockers :: "bead_graph \<Rightarrow> jsval \<Rightarrow> jsval list res" where
  "unmet_blockers g b =
     (if \<not> truthy (jfield b ''dependencies'') then Inr []
      else case jfield b ''dependencies'' of
             JArr ds \<Rightarrow>
               if list_ex nullish ds then Inl (TypeError ''cannot read property'')
               else Inr (filter (\<lambda>i. case map_of (bg_byId g) i of None \<Rightarrow> False | Some d \<Rightarrow> \<not> closed_row d)
                      (map (\<lambda>d. jfield d ''depends_on_id'') (filter (\<lambda>d. jfield d ''type'' = JStr ''blocks'') ds)))
           | _ \<Rightarrow> Inl (TypeError ''dependencies.filter is not a function''))"

datatype verify_class = VSkip | VIneligible string | VVerify

definition classify_one :: "bead_graph \<Rightarrow> jsval \<Rightarrow> verify_class res" where
  "classify_one g i =
     (case map_of (bg_byId g) i of
        None \<Rightarrow> Inr VSkip
      | Some b \<Rightarrow>
          if jfield b ''status'' \<notin> {JStr ''open'', JStr ''in_progress''} then Inr VSkip
          else if kids_of g i = [] then Inr VSkip
          else if \<not> list_all closed_row (kids_of g i) then Inr VSkip
          else ebind (unmet_blockers g b) (\<lambda>us.
                 Inr (if us \<noteq> [] then VIneligible (''unmet blocker(s): '' @ join_strings '', '' (map js_str us)) else VVerify)))"

record verify_set =
  vs_verifyIds :: "jsval list"
  vs_ineligible :: "(jsval \<times> string) list"

definition classifyVerifySet :: "jsval list \<Rightarrow> jsval list \<Rightarrow> verify_set res" where
  "classifyVerifySet allBeads targets =
     ebind (emap (\<lambda>i. ebind (classify_one (buildBeadGraph allBeads) i) (\<lambda>c. Inr (i, c))) (discoverScope allBeads targets)) (\<lambda>cs.
       Inr \<lparr>vs_verifyIds = map fst (filter (\<lambda>p. snd p = VVerify) cs),
            vs_ineligible = concat (map (\<lambda>p. case snd p of VIneligible r \<Rightarrow> [(fst p, r)] | _ \<Rightarrow> []) cs)\<rparr>)"

subsection \<open>Prerequisites: blocks edges and lane order\<close>

definition blocks_prereq :: "jsval \<Rightarrow> string list" where
  "blocks_prereq d =
     (case d of
        JStr s \<Rightarrow> if s \<noteq> [] then [s] else []
      | _ \<Rightarrow>
          if \<not> truthy d \<or> \<not> typeof_object d then []
          else if coalesce (jfield d ''type'') (jfield d ''dependency_type'') \<notin> {JUndef, JStr ''blocks''} then []
          else let i = coalesce (jfield d ''depends_on_id'') (jfield d ''id'')
               in if i \<in> {JUndef, JNull, JStr []} then [] else [js_str i])"

definition blocksPrereqIds :: "jsval \<Rightarrow> string list" where
  "blocksPrereqIds b = concat (map blocks_prereq (if truthy b then rows_of (jfield b ''dependencies'') else []))"

definition finite_order :: "jsval \<Rightarrow> rat option" where
  "finite_order raw =
     (case raw of
        JInt i \<Rightarrow> Some (of_int i)
      | JFrac q \<Rightarrow> Some q
      | JInf \<Rightarrow> None
      | JNaN \<Rightarrow> None
      | v \<Rightarrow> map_option of_int (js_parseInt v))"

definition metadataOf :: "(string \<Rightarrow> jsval option) \<Rightarrow> jsval \<Rightarrow> jsval" where
  "metadataOf parse b =
     (let m = and_field b ''metadata'' in
      if \<not> truthy m then JObj []
      else case m of
             JStr s \<Rightarrow> (case parse s of Some v \<Rightarrow> if truthy v \<and> typeof_object v then v else JObj [] | None \<Rightarrow> JObj [])
           | _ \<Rightarrow> if typeof_object m then m else JObj [])"

definition laneOf :: "(string \<Rightarrow> jsval option) \<Rightarrow> jsval \<Rightarrow> (string \<times> rat) option" where
  "laneOf parse b =
     (let m = metadataOf parse b in
      case jfield m ''streak'' of
        JStr s \<Rightarrow> if js_trim s = [] then None else map_option (\<lambda>q. (s, q)) (finite_order (jfield m ''streakOrder''))
      | _ \<Rightarrow> None)"

text \<open>A lane-mate of lower order.\<close>

definition below_in_lane :: "(string \<Rightarrow> jsval option) \<Rightarrow> jsval \<Rightarrow> jsval \<Rightarrow> bool" where
  "below_in_lane parse m b =
     (case (laneOf parse m, laneOf parse b) of
        (Some (s', q'), Some (s, q)) \<Rightarrow> s' = s \<and> q' < q
      | _ \<Rightarrow> False)"

definition indexById :: "jsval list \<Rightarrow> (string, jsval) jsmap" where
  "indexById beads =
     fold (\<lambda>b m. if truthy b \<and> \<not> nullish (bead_key b) \<and> map_of m (bead_sid b) = None
                 then AList.update (bead_sid b) b m else m) beads []"

record unmet =
  un_inScope :: "string list"
  un_outOfScope :: "string list"

definition cmp_mates :: "(string \<Rightarrow> jsval option) \<Rightarrow> (string \<Rightarrow> string \<Rightarrow> int) \<Rightarrow> jsval \<Rightarrow> jsval \<Rightarrow> int" where
  "cmp_mates parse lc a b =
     (let d = (case (laneOf parse a, laneOf parse b) of (Some (_, p), Some (_, q)) \<Rightarrow> sign_of (p - q) | _ \<Rightarrow> 0)
      in if d \<noteq> 0 then d else lc (bead_sid a) (bead_sid b))"

definition unmetPrerequisites ::
  "(string \<Rightarrow> jsval option) \<Rightarrow> (string \<Rightarrow> string \<Rightarrow> int) \<Rightarrow> jsval list \<Rightarrow> jsval list \<Rightarrow> jsval \<Rightarrow> unmet"
where
  "unmetPrerequisites parse lc scopeBeads allBeads b =
     (let scopeById = indexById scopeBeads;
          allById = indexById allBeads;
          i = js_str (and_field b ''id'');
          pres = filter (\<lambda>p. p \<noteq> i) (blocksPrereqIds b);
          openIn = filter (\<lambda>p. case map_of scopeById p of None \<Rightarrow> False | Some t \<Rightarrow> \<not> closed_row t) pres;
          openOut = filter (\<lambda>p. map_of scopeById p = None \<and>
                       (case map_of allById p of None \<Rightarrow> False | Some t \<Rightarrow> \<not> closed_row t)) pres;
          mates = filter (\<lambda>m. bead_sid m \<noteq> i \<and> \<not> closed_row m \<and> below_in_lane parse m b) (map snd scopeById)
      in \<lparr>un_inScope = openIn @ fresh openIn (map bead_sid (sort_by (cmp_mates parse lc) mates)), un_outOfScope = openOut\<rparr>)"

subsection \<open>Open dependents of blocked beads\<close>

text \<open>The state of the search: the ids visited, the dependents with the root each leads back to, the queue.\<close>

record dep_search =
  ds_visited :: "string list"
  ds_out :: "(string, string) jsmap"
  ds_queue :: "(string \<times> string) list"

definition dependents_index :: "jsval list \<Rightarrow> (string, jsval list) jsmap" where
  "dependents_index scope =
     group (concat (map (\<lambda>b. map (\<lambda>p. (p, b)) (blocksPrereqIds b)) (filter (\<lambda>b. truthy b \<and> \<not> nullish (bead_key b)) scope)))"

definition visit_dependent :: "string \<Rightarrow> jsval \<Rightarrow> dep_search \<Rightarrow> dep_search" where
  "visit_dependent rt d st =
     (let i = bead_sid d in
      if i \<in> set (ds_visited st) then st
      else if closed_row d then st\<lparr>ds_visited := ds_visited st @ [i]\<rparr>
      else st\<lparr>ds_visited := ds_visited st @ [i], ds_out := AList.update i rt (ds_out st), ds_queue := ds_queue st @ [(i, rt)]\<rparr>)"

definition rows_at :: "(string, jsval list) jsmap \<Rightarrow> string \<Rightarrow> jsval list" where
  "rows_at idx i = (case map_of idx i of None \<Rightarrow> [] | Some ds \<Rightarrow> ds)"

definition dep_measure :: "(string, jsval list) jsmap \<Rightarrow> dep_search \<Rightarrow> nat" where
  "dep_measure idx st = 2 * card (bead_sid ` \<Union>(set ` snd ` set idx) - set (ds_visited st)) + length (ds_queue st)"

lemma visit_measure:
  assumes "bead_sid d \<in> bead_sid ` \<Union>(set ` snd ` set idx)"
  shows "dep_measure idx (visit_dependent rt d st) \<le> dep_measure idx st"
proof (cases "bead_sid d \<in> set (ds_visited st)")
  case False
  let ?U = "bead_sid ` \<Union>(set ` snd ` set idx)"
  have "finite ?U" by auto
  have "?U - set (ds_visited st @ [bead_sid d]) = (?U - set (ds_visited st)) - {bead_sid d}" by auto
  then have "card (?U - set (ds_visited st @ [bead_sid d])) < card (?U - set (ds_visited st))"
    using False assms \<open>finite ?U\<close> by (simp only: card_Diff1_less_iff finite_Diff) simp
  then show ?thesis using False by (auto simp: dep_measure_def visit_dependent_def Let_def)
qed (simp add: visit_dependent_def Let_def)

lemma visits_measure:
  assumes "bead_sid ` set ds \<subseteq> bead_sid ` \<Union>(set ` snd ` set idx)"
  shows "dep_measure idx (fold (visit_dependent rt) ds st) \<le> dep_measure idx st"
  using assms
proof (induction ds arbitrary: st)
  case (Cons d ds)
  have "dep_measure idx (fold (visit_dependent rt) ds (visit_dependent rt d st)) \<le> dep_measure idx (visit_dependent rt d st)"
    using Cons by simp
  also have "\<dots> \<le> dep_measure idx st" using Cons.prems by (intro visit_measure) simp
  finally show ?case by simp
qed simp

lemma rows_at_range: "bead_sid ` set (rows_at idx i) \<subseteq> bead_sid ` \<Union>(set ` snd ` set idx)"
proof (cases "map_of idx i")
  case (Some ds)
  then have "ds \<in> snd ` set idx" by (force dest: map_of_SomeD)
  with Some show ?thesis by (auto simp: rows_at_def)
qed (simp add: rows_at_def)

function dependents_loop :: "(string, jsval list) jsmap \<Rightarrow> dep_search \<Rightarrow> dep_search" where
  "dependents_loop idx st =
     (case ds_queue st of
        [] \<Rightarrow> st
      | (i, rt) # q \<Rightarrow> dependents_loop idx (fold (visit_dependent rt) (rows_at idx i) (st\<lparr>ds_queue := q\<rparr>)))"
  by pat_completeness auto

termination
proof (relation "measure (\<lambda>(idx, st). dep_measure idx st)"; (simp; fail)?)
  fix idx and st :: dep_search and i rt and p :: "string \<times> string" and q
  assume q: "ds_queue st = p # q" "(i, rt) = p"
  have "dep_measure idx (fold (visit_dependent rt) (rows_at idx i) (st\<lparr>ds_queue := q\<rparr>)) \<le> dep_measure idx (st\<lparr>ds_queue := q\<rparr>)"
    by (intro visits_measure rows_at_range)
  also have "\<dots> < dep_measure idx st" using q by (simp add: dep_measure_def)
  finally show "((idx, fold (visit_dependent rt) (rows_at idx i) (st\<lparr>ds_queue := q\<rparr>)), idx, st) \<in> measure (\<lambda>(idx, st). dep_measure idx st)"
    by simp
qed

declare dependents_loop.simps [simp del]

definition openBlocksDependents :: "string list \<Rightarrow> jsval list \<Rightarrow> (string, string) jsmap" where
  "openBlocksDependents rootIds scope =
     (let roots = fresh [] rootIds in
      ds_out (dependents_loop (dependents_index scope)
        \<lparr>ds_visited = roots, ds_out = [], ds_queue = map (\<lambda>i. (i, i)) roots\<rparr>))"

subsection \<open>Dispatch by goal\<close>

text \<open>The prerequisites of every row of the index, so that the two loops are walks.\<close>

definition open_lane_mates :: "(string \<Rightarrow> jsval option) \<Rightarrow> (string, jsval) jsmap \<Rightarrow> jsval list" where
  "open_lane_mates parse byId = filter (\<lambda>b. laneOf parse b \<noteq> None \<and> \<not> closed_row b) (map snd byId)"

definition prereqsOf :: "(string \<Rightarrow> jsval option) \<Rightarrow> (string, jsval) jsmap \<Rightarrow> jsval \<Rightarrow> string list" where
  "prereqsOf parse byId b =
     blocksPrereqIds b @ map bead_sid (filter (\<lambda>m. below_in_lane parse m b) (open_lane_mates parse byId))"

definition prereq_index :: "(string \<Rightarrow> jsval option) \<Rightarrow> (string, jsval) jsmap \<Rightarrow> (string \<times> string list) list" where
  "prereq_index parse byId = map (\<lambda>p. (fst p, prereqsOf parse byId (snd p))) byId"

text \<open>The first loop: every prerequisite of a visited bead serves the goal.\<close>

function serve_loop :: "(string \<times> string list) list \<Rightarrow> string list \<Rightarrow> string list \<Rightarrow> string list \<Rightarrow> string list" where
  "serve_loop idx visited serves [] = serves"
| "serve_loop idx visited serves (i # q) =
     serve_loop idx (visited @ fresh visited (succs idx i)) (serves @ fresh serves (succs idx i)) (q @ fresh visited (succs idx i))"
  by pat_completeness auto

termination
  by (relation "measure (\<lambda>(idx, visited, serves, q). walk_measure idx visited q)") (simp_all add: walk_measure_step)

definition goal_queue :: "string \<Rightarrow> (string, jsval) jsmap \<Rightarrow> string list" where
  "goal_queue goal byId = map fst (filter (\<lambda>p. \<not> closed_row (snd p) \<and> \<not> isBelowGoal goal (snd p)) byId)"

definition serves_goal ::
  "(string \<Rightarrow> jsval option) \<Rightarrow> string \<Rightarrow> jsval list \<Rightarrow> jsval list \<Rightarrow> string list \<Rightarrow> string list"
where
  "serves_goal parse goal ready scope workedOn =
     (let byId = indexById (scope @ ready);
          idx = prereq_index parse byId;
          serves = serve_loop idx (goal_queue goal byId) [] (goal_queue goal byId);
          keep = map bead_sid (filter (\<lambda>b. truthy b \<and> bead_sid b \<in> set workedOn) ready)
      in walk idx serves keep)"

definition partitionReadyByGoal ::
  "(string \<Rightarrow> jsval option) \<Rightarrow> string \<Rightarrow> jsval list \<Rightarrow> jsval list \<Rightarrow> string list \<Rightarrow> jsval list \<times> (string \<times> jsval) list"
where
  "partitionReadyByGoal parse goal ready scope workedOn =
     (let serves = serves_goal parse goal ready scope workedOn;
          keeps = (\<lambda>b. \<not> isBelowGoal goal b \<or> bead_sid b \<in> set workedOn \<or> bead_sid b \<in> set serves)
      in (filter (\<lambda>b. truthy b \<and> keeps b) ready,
          map (\<lambda>b. (bead_sid b, jfield b ''priority'')) (filter (\<lambda>b. truthy b \<and> \<not> keeps b) ready)))"

subsection \<open>The scope is what the targets reach\<close>

text \<open>The parent relation of the rows, as the runner reads it.\<close>

definition scope_rel :: "jsval list \<Rightarrow> (jsval \<times> jsval) set" where
  "scope_rel bs = {(p, c). \<exists>b\<in>set bs. truthy b \<and> has_parent b \<and> jfield b ''parent'' = p \<and> bead_key b = c}"

lemma kids_of_graph:
  "kids_of (buildBeadGraph bs) i = filter (\<lambda>b. truthy b \<and> has_parent b \<and> jfield b ''parent'' = i) bs"
proof -
  have "map snd (filter (\<lambda>p. fst p = i) (map (\<lambda>b. (jfield b ''parent'', b)) (filter has_parent (filter truthy bs)))) =
      filter (\<lambda>b. truthy b \<and> has_parent b \<and> jfield b ''parent'' = i) bs"
    by (induction bs) auto
  then show ?thesis by (auto simp: kids_of_def buildBeadGraph_def map_of_group Let_def split: option.split if_splits)
qed

lemma succs_child_ids: "succs (child_ids g) i = map bead_key (kids_of g i)"
  by (simp add: succs_def child_ids_def kids_of_def map_of_map_snd split: option.split)

lemma edges_child_ids: "edges (child_ids (buildBeadGraph bs)) = scope_rel bs"
  by (auto simp: edges_def succs_child_ids kids_of_graph scope_rel_def)

lemma discoverScope_set: "set (discoverScope bs targets) = (scope_rel bs)\<^sup>* `` set targets"
  by (auto simp: discoverScope_def Let_def walk_from_nothing edges_child_ids rtrancl_eq_or_trancl)

lemma discoverScope_distinct: "distinct (discoverScope bs targets)"
  by (auto simp: discoverScope_def Let_def walk_distinct)

lemma graph_byId_fold:
  "map_of (fold (\<lambda>b m. if nullish (bead_key b) then m else AList.update (bead_key b) b m) bs m0) i =
     (case find (\<lambda>b. bead_key b = i \<and> \<not> nullish i) (rev bs) of None \<Rightarrow> map_of m0 i | Some b \<Rightarrow> Some b)"
  by (induction bs arbitrary: m0) (auto simp: find_append split: option.split)

text \<open>The last row of an id.\<close>

lemma graph_byId:
  "map_of (bg_byId (buildBeadGraph bs)) i = find (\<lambda>b. bead_key b = i \<and> \<not> nullish i) (rev (filter truthy bs))"
  by (simp add: buildBeadGraph_def Let_def graph_byId_fold option.case_eq_if)

lemma graph_byId_unique:
  assumes "distinct (map bead_key (filter truthy bs))" "b \<in> set bs" "truthy b" "\<not> nullish (bead_key b)"
  shows "map_of (bg_byId (buildBeadGraph bs)) (bead_key b) = Some b"
proof -
  have "b \<in> set (rev (filter truthy bs))" using assms by simp
  then obtain c where c: "find (\<lambda>c. bead_key c = bead_key b \<and> \<not> nullish (bead_key b)) (rev (filter truthy bs)) = Some c"
    using find_ex [of b _ "\<lambda>c. bead_key c = bead_key b \<and> \<not> nullish (bead_key b)"] assms(4) by blast
  from find_SomeD [OF this] have "c \<in> set (filter truthy bs)" "bead_key c = bead_key b" by simp_all
  then have "c = b" using assms(1,2,3) by (auto simp: distinct_map dest: inj_onD)
  with c show ?thesis by (simp add: graph_byId)
qed

subsection \<open>The verify set is exact\<close>

lemma graph_byId_SomeD:
  "map_of (bg_byId (buildBeadGraph bs)) i = Some b \<Longrightarrow> b \<in> set bs \<and> truthy b \<and> bead_key b = i \<and> \<not> nullish i"
  unfolding graph_byId by (drule find_SomeD) simp

lemma graph_byId_iff:
  assumes "distinct (map bead_key (filter truthy bs))"
  shows "map_of (bg_byId (buildBeadGraph bs)) i = Some b \<longleftrightarrow> b \<in> set bs \<and> truthy b \<and> bead_key b = i \<and> \<not> nullish i"
proof
  assume "b \<in> set bs \<and> truthy b \<and> bead_key b = i \<and> \<not> nullish i"
  then show "map_of (bg_byId (buildBeadGraph bs)) i = Some b" using graph_byId_unique [OF assms, of b] by simp
qed (rule graph_byId_SomeD)

text \<open>An unmet blocker: a row named by a \<^verbatim>\<open>blocks\<close> edge that is not closed.\<close>

definition open_blocker :: "jsval list \<Rightarrow> jsval \<Rightarrow> bool" where
  "open_blocker bs b \<longleftrightarrow> (\<exists>d\<in>set (rows_of (jfield b ''dependencies'')). \<exists>t\<in>set bs.
     jfield d ''type'' = JStr ''blocks'' \<and> truthy t \<and> \<not> nullish (bead_key t) \<and> bead_key t = jfield d ''depends_on_id'' \<and> \<not> closed_row t)"

lemma unmet_blockers_Nil:
  assumes "distinct (map bead_key (filter truthy bs))" "unmet_blockers (buildBeadGraph bs) b = Inr us"
  shows "us = [] \<longleftrightarrow> \<not> open_blocker bs b"
proof (cases "truthy (jfield b ''dependencies'')")
  case True
  with assms(2) obtain ds where ds: "jfield b ''dependencies'' = JArr ds" "us =
      filter (\<lambda>i. case map_of (bg_byId (buildBeadGraph bs)) i of None \<Rightarrow> False | Some d \<Rightarrow> \<not> closed_row d)
        (map (\<lambda>d. jfield d ''depends_on_id'') (filter (\<lambda>d. jfield d ''type'' = JStr ''blocks'') ds))"
    by (auto simp: unmet_blockers_def split: jsval.splits if_splits)
  have row: "(case map_of (bg_byId (buildBeadGraph bs)) i of None \<Rightarrow> False | Some d \<Rightarrow> \<not> closed_row d) \<longleftrightarrow>
      (\<exists>t\<in>set bs. truthy t \<and> \<not> nullish (bead_key t) \<and> bead_key t = i \<and> \<not> closed_row t)" (is "?l \<longleftrightarrow> ?r") for i
  proof -
    have "?l \<longleftrightarrow> (\<exists>t. map_of (bg_byId (buildBeadGraph bs)) i = Some t \<and> \<not> closed_row t)" by (simp split: option.split)
    also have "\<dots> \<longleftrightarrow> ?r" unfolding graph_byId_iff [OF assms(1)] by blast
    finally show ?thesis .
  qed
  show ?thesis unfolding ds(2) row by (auto simp: filter_empty_conv open_blocker_def ds(1) rows_of_def)
next
  case False
  with assms(2) have "us = []" by (simp add: unmet_blockers_def)
  moreover have "rows_of (jfield b ''dependencies'') = []"
    using False by (auto simp: rows_of_def split: jsval.splits)
  ultimately show ?thesis by (simp add: open_blocker_def)
qed

lemma classify_VVerify:
  assumes "distinct (map bead_key (filter truthy bs))" "classify_one (buildBeadGraph bs) i = Inr c"
  shows "c = VVerify \<longleftrightarrow> (\<exists>b\<in>set bs. truthy b \<and> bead_key b = i \<and> \<not> nullish i \<and>
     jfield b ''status'' \<in> {JStr ''open'', JStr ''in_progress''} \<and>
     kids_of (buildBeadGraph bs) i \<noteq> [] \<and> list_all closed_row (kids_of (buildBeadGraph bs) i) \<and> \<not> open_blocker bs b)"
proof (cases "map_of (bg_byId (buildBeadGraph bs)) i")
  case None
  then have "\<not> (\<exists>b\<in>set bs. truthy b \<and> bead_key b = i \<and> \<not> nullish i)"
    using graph_byId_iff [OF assms(1), of i] by simp
  moreover have "c = VSkip" using assms(2) None by (simp add: classify_one_def)
  ultimately show ?thesis by auto
next
  case (Some b)
  have uniq: "d = b" if "d \<in> set bs" "truthy d" "bead_key d = i" "\<not> nullish i" for d
    using graph_byId_unique [OF assms(1) that(1,2)] that Some by simp
  have one: "(\<exists>d\<in>set bs. truthy d \<and> bead_key d = i \<and> \<not> nullish i \<and> P d) \<longleftrightarrow> P b" for P
    using graph_byId_SomeD [OF Some] uniq by blast
  show ?thesis unfolding one
    using assms(2) unmet_blockers_Nil [OF assms(1), of b]
    by (auto simp: classify_one_def Some ebind_eq_Inr split: if_splits)
qed

text \<open>
  The verify route is exact. When the classification succeeds and ids are unique, a bead is routed to
  verification exactly if the targets reach it over parent edges, it is open or in progress, it has children, every
  child of the whole tracker (in scope or not) is closed, and no bead that it names as a blocker is still open.
\<close>

theorem classifyVerifySet_exact:
  assumes "classifyVerifySet bs targets = Inr vs" "distinct (map bead_key (filter truthy bs))"
  shows "i \<in> set (vs_verifyIds vs) \<longleftrightarrow> (\<exists>b\<in>set bs. truthy b \<and> bead_key b = i \<and> \<not> nullish i \<and>
     i \<in> (scope_rel bs)\<^sup>* `` set targets \<and> jfield b ''status'' \<in> {JStr ''open'', JStr ''in_progress''} \<and>
     (\<exists>c\<in>set bs. truthy c \<and> has_parent c \<and> jfield c ''parent'' = i) \<and>
     (\<forall>c\<in>set bs. truthy c \<and> has_parent c \<and> jfield c ''parent'' = i \<longrightarrow> closed_row c) \<and> \<not> open_blocker bs b)"
proof -
  let ?g = "buildBeadGraph bs" and ?s = "discoverScope bs targets"
  obtain cs where cs: "emap (\<lambda>i. ebind (classify_one ?g i) (\<lambda>c. Inr (i, c))) ?s = Inr cs"
    "vs_verifyIds vs = map fst (filter (\<lambda>p. snd p = VVerify) cs)"
    using assms(1) by (auto simp: classifyVerifySet_def ebind_eq_Inr)
  have all2: "list_all2 (\<lambda>i p. fst p = i \<and> classify_one ?g i = Inr (snd p)) ?s cs"
    using emap_eq_InrD [OF cs(1)] by (rule list_all2_mono) (auto simp: ebind_eq_Inr)
  have "i \<in> set (vs_verifyIds vs) \<longleftrightarrow> i \<in> set ?s \<and> classify_one ?g i = Inr VVerify"
  proof
    assume "i \<in> set (vs_verifyIds vs)"
    then obtain p where "p \<in> set cs" "fst p = i" "snd p = VVerify" by (auto simp: cs(2))
    with all2 show "i \<in> set ?s \<and> classify_one ?g i = Inr VVerify" by (auto simp: list_all2_conv_all_nth in_set_conv_nth)
  next
    assume "i \<in> set ?s \<and> classify_one ?g i = Inr VVerify"
    then obtain n where n: "n < length ?s" "?s ! n = i" "classify_one ?g i = Inr VVerify" by (auto simp: in_set_conv_nth)
    then have "n < length cs" "fst (cs ! n) = i" "snd (cs ! n) = VVerify"
      using all2 by (auto simp: list_all2_conv_all_nth)
    then show "i \<in> set (vs_verifyIds vs)" by (force simp: cs(2) in_set_conv_nth)
  qed
  moreover have "\<exists>c. classify_one ?g i = Inr c" if "i \<in> set ?s"
    using that all2 by (auto simp: list_all2_conv_all_nth in_set_conv_nth)
  ultimately have "i \<in> set (vs_verifyIds vs) \<longleftrightarrow> i \<in> set ?s \<and> (\<exists>b\<in>set bs. truthy b \<and> bead_key b = i \<and> \<not> nullish i \<and>
     jfield b ''status'' \<in> {JStr ''open'', JStr ''in_progress''} \<and> kids_of ?g i \<noteq> [] \<and>
     list_all closed_row (kids_of ?g i) \<and> \<not> open_blocker bs b)"
    using classify_VVerify [OF assms(2), of i] by blast
  moreover have "kids_of ?g i \<noteq> [] \<longleftrightarrow> (\<exists>c\<in>set bs. truthy c \<and> has_parent c \<and> jfield c ''parent'' = i)"
    by (auto simp: kids_of_graph filter_empty_conv)
  moreover have "list_all closed_row (kids_of ?g i) \<longleftrightarrow>
      (\<forall>c\<in>set bs. truthy c \<and> has_parent c \<and> jfield c ''parent'' = i \<longrightarrow> closed_row c)"
    by (auto simp: kids_of_graph list_all_iff)
  ultimately show ?thesis unfolding discoverScope_set by blast
qed

definition demo_epic :: "jsval list" where
  "demo_epic = [JObj [(''id'', JStr ''e''), (''status'', JStr ''open'')],
     JObj [(''id'', JStr ''e.1''), (''parent'', JStr ''e''), (''status'', JStr ''closed'')]]"

theorem classifyVerifySet_exact_witness:
  "\<exists>vs. classifyVerifySet demo_epic [JStr ''e''] = Inr vs \<and> vs_verifyIds vs = [JStr ''e''] \<and>
     JStr ''e'' \<in> (scope_rel demo_epic)\<^sup>* `` set [JStr ''e'']"
proof -
  have c: "classifyVerifySet demo_epic [JStr ''e''] = Inr \<lparr>vs_verifyIds = [JStr ''e''], vs_ineligible = []\<rparr>" by code_simp
  have "distinct (map bead_key (filter truthy demo_epic))" by code_simp
  from classifyVerifySet_exact [OF c this, of "JStr ''e''"] c show ?thesis by auto
qed

subsection \<open>Dispatch by goal is exact\<close>

lemma indexById_fold_ok:
  "jmap_ok m \<Longrightarrow> jmap_ok (fold (\<lambda>b m. if truthy b \<and> \<not> nullish (bead_key b) \<and> map_of m (bead_sid b) = None
                 then AList.update (bead_sid b) b m else m) bs m)"
  by (induction bs arbitrary: m) auto

lemma indexById_ok: "jmap_ok (indexById bs)"
  unfolding indexById_def by (rule indexById_fold_ok) simp

lemma indexById_fold_lookup:
  "map_of (fold (\<lambda>b m. if truthy b \<and> \<not> nullish (bead_key b) \<and> map_of m (bead_sid b) = None
                 then AList.update (bead_sid b) b m else m) bs m) i =
     (case map_of m i of Some b \<Rightarrow> Some b | None \<Rightarrow> find (\<lambda>b. truthy b \<and> \<not> nullish (bead_key b) \<and> bead_sid b = i) bs)"
  by (induction bs arbitrary: m) (auto split: option.split)

text \<open>The first row of an id.\<close>

lemma indexById_lookup:
  "map_of (indexById bs) i = find (\<lambda>b. truthy b \<and> \<not> nullish (bead_key b) \<and> bead_sid b = i) bs"
  by (simp add: indexById_def indexById_fold_lookup)

lemma indexById_SomeD:
  "map_of (indexById bs) i = Some b \<Longrightarrow> b \<in> set bs \<and> truthy b \<and> \<not> nullish (bead_key b) \<and> bead_sid b = i"
  unfolding indexById_lookup by (drule find_SomeD) simp

lemma succs_prereq_index:
  "succs (prereq_index parse byId) i = (case map_of byId i of None \<Rightarrow> [] | Some b \<Rightarrow> prereqsOf parse byId b)"
  by (simp add: succs_def prereq_index_def map_of_map_snd split: option.split)

text \<open>Prerequisite edges: what a row names as a blocker, and the open lane-mates of lower order.\<close>

definition prereq_rel :: "(string \<Rightarrow> jsval option) \<Rightarrow> (string, jsval) jsmap \<Rightarrow> (string \<times> string) set" where
  "prereq_rel parse byId = {(i, p). \<exists>b. map_of byId i = Some b \<and> p \<in> set (prereqsOf parse byId b)}"

lemma edges_prereq_index: "edges (prereq_index parse byId) = prereq_rel parse byId"
  unfolding edges_def prereq_rel_def succs_prereq_index by (force split: option.splits)

lemma serve_loop_walk:
  "set (serve_loop idx visited serves q) = set serves \<union> edges idx `` (set q \<union> (set (walk idx visited q) - set visited))"
proof (induction idx visited serves q rule: serve_loop.induct)
  case (2 idx visited serves i q)
  let ?new = "fresh visited (succs idx i)"
  let ?W = "set (walk idx (visited @ ?new) (q @ ?new))"
  have "set ?new \<subseteq> ?W" using walk_seen [of "visited @ ?new" idx "q @ ?new"] by auto
  then have w: "set ?new \<union> (?W - set (visited @ ?new)) = ?W - set visited" by auto
  have "set (serve_loop idx visited serves (i # q)) =
      set serves \<union> set (succs idx i) \<union> edges idx `` (set q \<union> (set ?new \<union> (?W - set (visited @ ?new))))"
    using 2 by (simp add: Un_assoc)
  also have "\<dots> = set serves \<union> edges idx `` (set (i # q) \<union> (?W - set visited))"
    unfolding w by (auto simp: edges_def)
  finally show ?case by simp
qed simp

lemma serve_loop_from_queue: "set (serve_loop idx q [] q) = (edges idx)\<^sup>+ `` set q"
proof -
  have "set q \<union> ((edges idx)\<^sup>* `` set q - set q) = (edges idx)\<^sup>* `` set q" by auto
  then have "set (serve_loop idx q [] q) = edges idx `` (edges idx)\<^sup>* `` set q"
    by (simp add: serve_loop_walk walk_from_queue)
  then show ?thesis by (simp add: trancl_unfold_right relcomp_Image)
qed

text \<open>What the round works for: the open beads of the goal band and the ready beads worked on before.\<close>

definition goal_work :: "string \<Rightarrow> jsval list \<Rightarrow> jsval list \<Rightarrow> string list \<Rightarrow> string set" where
  "goal_work goal ready scope workedOn =
     {i. \<exists>b. map_of (indexById (scope @ ready)) i = Some b \<and> \<not> closed_row b \<and> \<not> isBelowGoal goal b} \<union>
     bead_sid ` {b \<in> set ready. truthy b \<and> bead_sid b \<in> set workedOn}"

lemma serves_goal_set:
  "set (serves_goal parse goal ready scope workedOn) =
     (prereq_rel parse (indexById (scope @ ready)))\<^sup>+ `` goal_work goal ready scope workedOn"
proof -
  let ?m = "indexById (scope @ ready)"
  let ?R = "prereq_rel parse ?m" and ?idx = "prereq_index parse ?m"
  let ?keep = "map bead_sid (filter (\<lambda>b. truthy b \<and> bead_sid b \<in> set workedOn) ready)"
  have q: "set (goal_queue goal ?m) = {i. \<exists>b. map_of ?m i = Some b \<and> \<not> closed_row b \<and> \<not> isBelowGoal goal b}"
    by (force simp: goal_queue_def jmap_ok_mem [OF indexById_ok, symmetric])
  have s: "set (serve_loop ?idx (goal_queue goal ?m) [] (goal_queue goal ?m)) = ?R\<^sup>+ `` set (goal_queue goal ?m)"
    by (simp add: serve_loop_from_queue edges_prereq_index)
  have "x \<in> set ?keep \<or> set (succs ?idx x) \<subseteq> set (serve_loop ?idx (goal_queue goal ?m) [] (goal_queue goal ?m))"
    if "x \<in> set (serve_loop ?idx (goal_queue goal ?m) [] (goal_queue goal ?m))" for x
  proof -
    have "set (succs ?idx x) = ?R `` {x}" by (auto simp: edges_prereq_index [symmetric] edges_def)
    with that show ?thesis unfolding s by (auto intro: trancl_into_trancl)
  qed
  from walk_set [of _ _ ?idx, OF this] have "set (serves_goal parse goal ready scope workedOn) = ?R\<^sup>+ `` set (goal_queue goal ?m) \<union> ?R\<^sup>+ `` set ?keep"
    by (simp add: serves_goal_def Let_def s edges_prereq_index)
  then show ?thesis by (simp add: q goal_work_def Image_Un)
qed

text \<open>
  Property C33. Dispatch by goal is exact. The search for what serves the goal terminates on every bead graph, cycles
  included. A ready bead is dispatched exactly if it is not below the goal band, was worked on in this sprint, or is a
  direct or transitive prerequisite (blocker or lower lane-mate) of open work of the goal band or of a bead worked on;
  all other ready beads are reported as excluded, and both lists keep the order of the round.
\<close>

theorem partitionReadyByGoal_exact:
  "partitionReadyByGoal parse goal ready scope workedOn =
     (filter (\<lambda>b. truthy b \<and> (\<not> isBelowGoal goal b \<or> bead_sid b \<in> set workedOn \<or>
         bead_sid b \<in> (prereq_rel parse (indexById (scope @ ready)))\<^sup>+ `` goal_work goal ready scope workedOn)) ready,
      map (\<lambda>b. (bead_sid b, jfield b ''priority'')) (filter (\<lambda>b. truthy b \<and> isBelowGoal goal b \<and> bead_sid b \<notin> set workedOn \<and>
         bead_sid b \<notin> (prereq_rel parse (indexById (scope @ ready)))\<^sup>+ `` goal_work goal ready scope workedOn) ready))"
  by (simp add: partitionReadyByGoal_def serves_goal_set Let_def)

definition goal_bead :: "string \<Rightarrow> int \<Rightarrow> string list \<Rightarrow> jsval" where
  "goal_bead i p pres = JObj [(''id'', JStr i), (''status'', JStr ''open''), (''priority'', JInt p), (''dependencies'', JArr (map JStr pres))]"

theorem partitionReadyByGoal_exact_witness:
  "isBelowGoal ''P1'' (goal_bead ''x'' 3 []) \<and>
   ''x'' \<in> (prereq_rel (\<lambda>_. None) (indexById ([goal_bead ''y'' 1 [''x'']] @ [goal_bead ''x'' 3 []])))\<^sup>+ ``
     goal_work ''P1'' [goal_bead ''x'' 3 []] [goal_bead ''y'' 1 [''x'']] []"
proof
  show b: "isBelowGoal ''P1'' (goal_bead ''x'' 3 [])" by code_simp
  have i: "bead_sid (goal_bead ''x'' 3 []) = ''x''" by code_simp
  have "fst (partitionReadyByGoal (\<lambda>_. None) ''P1'' [goal_bead ''x'' 3 []] [goal_bead ''y'' 1 [''x'']] []) = [goal_bead ''x'' 3 []]" by code_simp
  then have "goal_bead ''x'' 3 [] \<in> set (fst (partitionReadyByGoal (\<lambda>_. None) ''P1'' [goal_bead ''x'' 3 []] [goal_bead ''y'' 1 [''x'']] []))"
    by simp
  with b i show "''x'' \<in> (prereq_rel (\<lambda>_. None) (indexById ([goal_bead ''y'' 1 [''x'']] @ [goal_bead ''x'' 3 []])))\<^sup>+ ``
     goal_work ''P1'' [goal_bead ''x'' 3 []] [goal_bead ''y'' 1 [''x'']] []"
    unfolding partitionReadyByGoal_exact by (simp split: if_splits)
qed

subsection \<open>The dependents of blocked beads\<close>

abbreviation bead_row :: "jsval \<Rightarrow> bool" where
  "bead_row b \<equiv> truthy b \<and> \<not> nullish (bead_key b)"

lemma rows_at_index: "set (rows_at (dependents_index scope) x) = {b \<in> set scope. bead_row b \<and> x \<in> set (blocksPrereqIds b)}"
  unfolding rows_at_def dependents_index_def map_of_group Let_def
  by (auto simp: filter_empty_conv split: option.splits if_splits) (force simp: filter_empty_conv)+

lemma visits_result:
  assumes "inj_on bead_sid (set ds)"
  shows "set (ds_visited (fold (visit_dependent rt) ds st)) = set (ds_visited st) \<union> bead_sid ` set ds \<and>
    map_of (ds_out (fold (visit_dependent rt) ds st)) i =
      (if i \<in> bead_sid ` {d \<in> set ds. \<not> closed_row d} - set (ds_visited st) then Some rt else map_of (ds_out st) i) \<and>
    set (ds_queue (fold (visit_dependent rt) ds st)) =
      set (ds_queue st) \<union> (\<lambda>i. (i, rt)) ` (bead_sid ` {d \<in> set ds. \<not> closed_row d} - set (ds_visited st))"
  using assms
proof (induction ds arbitrary: st)
  case (Cons d ds)
  have inj: "inj_on bead_sid (set ds)" using Cons.prems by simp
  have other: "e = d" if "e \<in> set ds" "bead_sid e = bead_sid d" for e using that Cons.prems by (auto simp: inj_on_def)
  note IH = Cons.IH [OF inj, of "visit_dependent rt d st"]
  show ?case
  proof (cases "bead_sid d \<in> set (ds_visited st)")
    case True
    then show ?thesis using IH by (auto simp: visit_dependent_def)
  next
    case False
    let ?V = "set (ds_visited st)" and ?O = "\<lambda>xs. bead_sid ` {e \<in> set xs. \<not> closed_row e}"
    have vis: "set (ds_visited (visit_dependent rt d st)) = insert (bead_sid d) ?V"
      using False by (simp add: visit_dependent_def Let_def)
    show ?thesis
    proof (cases "closed_row d")
      case True
      have new: "?O (d # ds) - ?V = ?O ds - insert (bead_sid d) ?V" using True other by auto
      have "ds_out (visit_dependent rt d st) = ds_out st" "ds_queue (visit_dependent rt d st) = ds_queue st"
        using True False by (simp_all add: visit_dependent_def Let_def)
      then show ?thesis unfolding new using IH vis by simp
    next
      case open_row: False
      have new: "?O (d # ds) - ?V = insert (bead_sid d) (?O ds - insert (bead_sid d) ?V)" using open_row False by auto
      have "map_of (ds_out (visit_dependent rt d st)) = (map_of (ds_out st))(bead_sid d \<mapsto> rt)"
        "set (ds_queue (visit_dependent rt d st)) = insert (bead_sid d, rt) (set (ds_queue st))"
        using open_row False by (auto simp: visit_dependent_def Let_def)
      then show ?thesis unfolding new using IH vis by (simp add: insert_commute)
    qed
  qed
qed simp

text \<open>A dependent edge: an open row of the scope, not itself a root, that names a blocker.\<close>

definition dependent_rel :: "string set \<Rightarrow> jsval list \<Rightarrow> (string \<times> string) set" where
  "dependent_rel roots scope = {(x, y). \<exists>b\<in>set scope. bead_row b \<and> \<not> closed_row b \<and> bead_sid b = y \<and> y \<notin> roots \<and>
     x \<in> set (blocksPrereqIds b)}"

definition search_ok :: "string set \<Rightarrow> jsval list \<Rightarrow> dep_search \<Rightarrow> bool" where
  "search_ok roots scope st \<longleftrightarrow>
     roots \<subseteq> set (ds_visited st) \<and> dom (map_of (ds_out st)) \<subseteq> set (ds_visited st) \<and>
     (\<forall>i\<in>set (ds_visited st). i \<in> roots \<or> i \<in> dom (map_of (ds_out st)) \<or> (\<forall>b\<in>set scope. bead_row b \<and> bead_sid b = i \<longrightarrow> closed_row b)) \<and>
     (\<forall>(i, r)\<in>set (ds_queue st). r \<in> roots \<and> (i = r \<or> map_of (ds_out st) i = Some r)) \<and>
     (\<forall>i r. map_of (ds_out st) i = Some r \<longrightarrow> r \<in> roots \<and> (r, i) \<in> (dependent_rel roots scope)\<^sup>+) \<and>
     (\<forall>x\<in>roots \<union> dom (map_of (ds_out st)). x \<in> fst ` set (ds_queue st) \<or> dependent_rel roots scope `` {x} \<subseteq> dom (map_of (ds_out st)))"

lemma search_step:
  assumes ok: "search_ok roots scope st" and q: "ds_queue st = (i, rt) # q"
    and uniq: "inj_on bead_sid {b \<in> set scope. bead_row b}"
  shows "search_ok roots scope (fold (visit_dependent rt) (rows_at (dependents_index scope) i) (st\<lparr>ds_queue := q\<rparr>))"
proof -
  let ?ds = "rows_at (dependents_index scope) i" and ?E = "dependent_rel roots scope"
  let ?st = "fold (visit_dependent rt) ?ds (st\<lparr>ds_queue := q\<rparr>)"
  define V where "V = set (ds_visited st)"
  define new where "new = bead_sid ` {d \<in> set ?ds. \<not> closed_row d} - V"
  have inj: "inj_on bead_sid (set ?ds)" using uniq by (rule inj_on_subset) (auto simp: rows_at_index)
  note r = visits_result [OF inj, of rt "st\<lparr>ds_queue := q\<rparr>"]
  have vis: "set (ds_visited ?st) = V \<union> bead_sid ` set ?ds" using r by (simp add: V_def)
  have out: "map_of (ds_out ?st) = (\<lambda>j. if j \<in> new then Some rt else map_of (ds_out st) j)"
    using r by (auto simp: V_def new_def)
  then have dom: "dom (map_of (ds_out ?st)) = dom (map_of (ds_out st)) \<union> new" by (auto split: if_splits)
  have que: "set (ds_queue ?st) = set q \<union> (\<lambda>j. (j, rt)) ` new" using r by (simp add: V_def new_def)
  have top: "rt \<in> roots" "(rt, i) \<in> ?E\<^sup>*"
    using ok unfolding search_ok_def q by (auto intro: trancl_into_rtrancl)
  have newE: "new = ?E `` {i} - V"
    using ok by (auto simp: new_def rows_at_index dependent_rel_def search_ok_def V_def)
  have old: "?E `` {i} \<inter> V \<subseteq> dom (map_of (ds_out st))"
    using ok unfolding search_ok_def V_def dependent_rel_def by blast
  have newV: "new \<inter> V = {}" by (auto simp: new_def)
  show ?thesis unfolding search_ok_def vis dom que
  proof (intro conjI)
    show "roots \<subseteq> V \<union> bead_sid ` set ?ds" using ok by (auto simp: search_ok_def V_def)
    show "dom (map_of (ds_out st)) \<union> new \<subseteq> V \<union> bead_sid ` set ?ds" using ok by (auto simp: search_ok_def V_def new_def)
    show "\<forall>j\<in>V \<union> bead_sid ` set ?ds. j \<in> roots \<or> j \<in> dom (map_of (ds_out st)) \<union> new \<or>
        (\<forall>b\<in>set scope. bead_row b \<and> bead_sid b = j \<longrightarrow> closed_row b)"
    proof
      fix j assume "j \<in> V \<union> bead_sid ` set ?ds"
      then consider "j \<in> V" | d where "d \<in> set ?ds" "closed_row d" "j = bead_sid d" | "j \<in> new" by (auto simp: new_def)
      then show "j \<in> roots \<or> j \<in> dom (map_of (ds_out st)) \<union> new \<or> (\<forall>b\<in>set scope. bead_row b \<and> bead_sid b = j \<longrightarrow> closed_row b)"
      proof cases
        case 1
        then show ?thesis using ok unfolding search_ok_def V_def by blast
      next
        case 2
        then show ?thesis using uniq by (auto simp: rows_at_index inj_on_def)
      qed simp
    qed
    show "\<forall>(j, r)\<in>set q \<union> (\<lambda>j. (j, rt)) ` new. r \<in> roots \<and> (j = r \<or> map_of (ds_out ?st) j = Some r)"
    proof -
      have "r \<in> roots \<and> (j = r \<or> map_of (ds_out st) j = Some r)" "map_of (ds_out st) j = Some r \<longrightarrow> j \<notin> new" if "(j, r) \<in> set q" for j r
        using ok newV that unfolding search_ok_def q V_def by auto
      then have "r \<in> roots \<and> (j = r \<or> map_of (ds_out ?st) j = Some r)" if "(j, r) \<in> set q" for j r
        unfolding out using that by auto
      moreover have "map_of (ds_out ?st) j = Some rt" if "j \<in> new" for j unfolding out using that by simp
      ultimately show ?thesis using top(1) by auto
    qed
    show "\<forall>j r. map_of (ds_out ?st) j = Some r \<longrightarrow> r \<in> roots \<and> (r, j) \<in> ?E\<^sup>+"
      using ok top newE unfolding search_ok_def out by (auto intro: rtrancl_into_trancl1)
    show "\<forall>x\<in>roots \<union> (dom (map_of (ds_out st)) \<union> new). x \<in> fst ` (set q \<union> (\<lambda>j. (j, rt)) ` new) \<or> ?E `` {x} \<subseteq> dom (map_of (ds_out st)) \<union> new"
    proof
      fix x assume x: "x \<in> roots \<union> (dom (map_of (ds_out st)) \<union> new)"
      show "x \<in> fst ` (set q \<union> (\<lambda>j. (j, rt)) ` new) \<or> ?E `` {x} \<subseteq> dom (map_of (ds_out st)) \<union> new"
      proof (cases "x \<in> new \<or> x = i")
        case True
        then show ?thesis using newE old by (auto simp: image_Un image_image)
      next
        case False
        with x have "x \<in> fst ` set (ds_queue st) \<or> ?E `` {x} \<subseteq> dom (map_of (ds_out st))"
          using ok unfolding search_ok_def by blast
        with False show ?thesis unfolding q by auto
      qed
    qed
  qed
qed

lemma search_result:
  assumes "search_ok roots scope st" "inj_on bead_sid {b \<in> set scope. bead_row b}"
  shows "search_ok roots scope (dependents_loop (dependents_index scope) st) \<and> ds_queue (dependents_loop (dependents_index scope) st) = []"
  using assms(1)
proof (induction "dependents_index scope" st rule: dependents_loop.induct)
  case (1 st)
  show ?case
  proof (cases "ds_queue st")
    case Nil
    then show ?thesis using "1.prems" by (simp add: dependents_loop.simps [of _ st])
  next
    case (Cons p q)
    obtain i rt where p: "p = (i, rt)" by fastforce
    have "search_ok roots scope (fold (visit_dependent rt) (rows_at (dependents_index scope) i) (st\<lparr>ds_queue := q\<rparr>))"
      by (rule search_step [OF "1.prems" _ assms(2)]) (simp add: Cons p)
    from "1.hyps" [OF Cons p [symmetric] this] show ?thesis
      by (simp add: dependents_loop.simps [of _ st] Cons p)
  qed
qed

text \<open>
  Property C34. The search for the dependents of blocked beads terminates on every bead graph and is exact: with unique
  ids, it finds exactly the open beads, other than the roots, that depend on a root over blocks edges, directly or
  through other open beads, and the root it names for each is one that the bead depends on in this way.
\<close>

theorem openBlocksDependents_exact:
  assumes "inj_on bead_sid {b \<in> set scope. bead_row b}"
  shows "set (jkeys (openBlocksDependents rootIds scope)) = (dependent_rel (set rootIds) scope)\<^sup>+ `` set rootIds \<and>
    (\<forall>i r. map_of (openBlocksDependents rootIds scope) i = Some r \<longrightarrow> r \<in> set rootIds \<and> (r, i) \<in> (dependent_rel (set rootIds) scope)\<^sup>+)"
proof -
  let ?st = "\<lparr>ds_visited = fresh [] rootIds, ds_out = [], ds_queue = map (\<lambda>i. (i, i)) (fresh [] rootIds)\<rparr>"
  let ?r = "dependents_loop (dependents_index scope) ?st" and ?E = "dependent_rel (set rootIds) scope"
  have "search_ok (set rootIds) scope ?st" by (auto simp: search_ok_def image_image)
  from search_result [OF this assms] have ok: "search_ok (set rootIds) scope ?r" and q: "ds_queue ?r = []" by blast+
  have out: "openBlocksDependents rootIds scope = ds_out ?r" by (simp add: openBlocksDependents_def Let_def)
  have c: "?E `` (set rootIds \<union> dom (map_of (ds_out ?r))) \<subseteq> dom (map_of (ds_out ?r))"
    using ok by (simp add: search_ok_def q) blast
  have "?E\<^sup>+ `` set rootIds \<subseteq> dom (map_of (ds_out ?r))" by (rule closed_trancl) (use c in blast)+
  moreover have "dom (map_of (ds_out ?r)) \<subseteq> ?E\<^sup>+ `` set rootIds" using ok unfolding search_ok_def by blast
  ultimately have "set (jkeys (ds_out ?r)) = ?E\<^sup>+ `` set rootIds" by (simp add: dom_map_of_conv_image_fst)
  with ok show ?thesis unfolding out search_ok_def by blast
qed

definition dep_bead :: "string \<Rightarrow> string list \<Rightarrow> jsval" where
  "dep_bead i pres = JObj [(''id'', JStr i), (''status'', JStr ''open''), (''dependencies'', JArr (map JStr pres))]"

theorem openBlocksDependents_exact_witness:
  "set (jkeys (openBlocksDependents [''a''] [dep_bead ''c'' [''b''], dep_bead ''b'' [''a'']])) = {''b'', ''c''} \<and>
   (''a'', ''c'') \<in> (dependent_rel (set [''a'']) [dep_bead ''c'' [''b''], dep_bead ''b'' [''a'']])\<^sup>+"
proof -
  have o: "openBlocksDependents [''a''] [dep_bead ''c'' [''b''], dep_bead ''b'' [''a'']] = [(''b'', ''a''), (''c'', ''a'')]" by code_simp
  have "inj_on bead_sid {b \<in> set [dep_bead ''c'' [''b''], dep_bead ''b'' [''a'']]. bead_row b}"
    by (auto simp: inj_on_def dep_bead_def jfield_def)
  from openBlocksDependents_exact [OF this, of "[''a'']"] show ?thesis unfolding o by auto
qed

end
