(* ===== verification/Worklists.thy ===== *)
theory Worklists
  imports Beads_Scope "HOL-Library.Multiset" "HOL-Library.List_Lexorder" "HOL-Library.Char_ord"
begin

section \<open>Streaks and worklists\<close>

text \<open>
  \<^verbatim>\<open>packages/apra-fleet-se/fleet-sprint/worklists.mjs\<close>, with \<^verbatim>\<open>normalizeTierToken\<close> of \<^verbatim>\<open>newtask-text.mjs\<close>: how a develop round groups its ready beads into streaks, holds back beads whose
  lane-mates are not done, and packs streaks into ordered worklists for the doers.

  A bead is the tracker's row. \<open>lc\<close> is \<^verbatim>\<open>localeCompare\<close> and \<open>parse\<close> is \<^verbatim>\<open>JSON.parse\<close> (\<open>None\<close> when it throws). A number that
  may be \<^verbatim>\<open>POSITIVE_INFINITY\<close> is a \<open>rat option\<close>, \<open>None\<close> being infinity. Names of members that every object inherits
  (\<^verbatim>\<open>constructor\<close> and the like) are not used as tier or size names.
\<close>

subsection \<open>Tiers, sizes, priorities\<close>

definition TIERS :: "string list" where
  "TIERS = [''cheap'', ''standard'', ''premium'']"

definition normalizeTierToken :: "jsval \<Rightarrow> jsval" where
  "normalizeTierToken raw =
     (case raw of
        JStr s \<Rightarrow> (case filter (str_includes (js_lower s)) TIERS of [t] \<Rightarrow> JStr t | _ \<Rightarrow> raw)
      | _ \<Rightarrow> raw)"

definition SIZE_POINTS :: "string \<Rightarrow> nat option" where
  "SIZE_POINTS = map_of [(''S'', 1), (''M'', 2), (''L'', 4)]"

definition MODEL_WEIGHT :: "string \<Rightarrow> nat option" where
  "MODEL_WEIGHT = map_of [(''cheap'', 1), (''standard'', 10), (''premium'', 20)]"

definition DEFAULT_EFFORT_THRESHOLD :: rat where
  "DEFAULT_EFFORT_THRESHOLD = 200"

abbreviation weight_of :: "string \<Rightarrow> nat" where
  "weight_of t \<equiv> (case MODEL_WEIGHT t of None \<Rightarrow> 0 | Some w \<Rightarrow> w)"

abbreviation points_of :: "string \<Rightarrow> nat" where
  "points_of s \<equiv> (case SIZE_POINTS s of None \<Rightarrow> 0 | Some w \<Rightarrow> w)"

text \<open>A task of the effort formula: its size and its model.\<close>

definition computeLaneEffort :: "(string \<times> string) list \<Rightarrow> nat" where
  "computeLaneEffort tasks =
     foldl (\<lambda>acc t. acc + points_of (fst t)) 0 tasks * foldl (\<lambda>acc t. max acc (weight_of (snd t))) 0 tasks"

text \<open>\<^verbatim>\<open>toUpperCase\<close> on the letters that can give a size name.\<close>

definition js_upper :: "string \<Rightarrow> string" where
  "js_upper = map (\<lambda>c. let n = (of_char c :: nat) in if 97 \<le> n \<and> n \<le> 122 then char_of (n - 32) else c)"

text \<open>The tier a bead names, if it names one of the three.\<close>

definition bead_tier :: "jsval \<Rightarrow> string option" where
  "bead_tier b =
     (case normalizeTierToken (and_field (and_field b ''metadata'') ''model'') of
        JStr t \<Rightarrow> if MODEL_WEIGHT t \<noteq> None then Some t else None
      | _ \<Rightarrow> None)"

definition better_tier :: "jsval \<Rightarrow> string option \<Rightarrow> string option" where
  "better_tier b best =
     (case bead_tier b of
        None \<Rightarrow> best
      | Some t \<Rightarrow> (case best of None \<Rightarrow> Some t | Some u \<Rightarrow> if weight_of t > weight_of u then Some t else best))"

definition streakRequiredTier :: "jsval list \<Rightarrow> string option" where
  "streakRequiredTier streak = fold better_tier streak None"

definition lower_priority :: "jsval \<Rightarrow> rat option \<Rightarrow> rat option" where
  "lower_priority b m =
     (case num_val (if truthy b then jfield b ''priority'' else JUndef) of
        None \<Rightarrow> m
      | Some p \<Rightarrow> (case m of None \<Rightarrow> Some p | Some q \<Rightarrow> if p < q then Some p else m))"

definition streakMinPriority :: "jsval list \<Rightarrow> rat option" where
  "streakMinPriority streak = fold lower_priority streak None"

definition effort_task :: "jsval \<Rightarrow> string \<times> string" where
  "effort_task b =
     ((case (let md = and_field b ''metadata'' in if truthy b \<and> truthy md then jfield md ''size'' else JUndef) of
         JStr s \<Rightarrow> if SIZE_POINTS (js_upper (js_trim s)) \<noteq> None then js_upper (js_trim s) else ''M''
       | _ \<Rightarrow> ''M''),
      (case bead_tier b of Some t \<Rightarrow> t | None \<Rightarrow> ''standard''))"

definition streakEffortPoints :: "jsval list \<Rightarrow> nat" where
  "streakEffortPoints streak = computeLaneEffort (map effort_task streak)"

definition blocks_dep :: "jsval \<Rightarrow> string list" where
  "blocks_dep dep =
     (case dep of
        JStr s \<Rightarrow> if s = [] then [] else [s]
      | _ \<Rightarrow>
          if truthy dep \<and> typeof_object dep then
            if truthy (jfield dep ''dependency_type'') \<and> jfield dep ''dependency_type'' \<noteq> JStr ''blocks'' then []
            else case (if truthy (jfield dep ''depends_on_id'') then jfield dep ''depends_on_id'' else jfield dep ''id'') of
                   JStr s \<Rightarrow> if s = [] then [] else [s]
                 | _ \<Rightarrow> []
          else [])"

definition beadBlocksDependencyIds :: "jsval \<Rightarrow> string list" where
  "beadBlocksDependencyIds b = concat (map blocks_dep (if truthy b then rows_of (jfield b ''dependencies'') else []))"

definition resolveWorklistTierPolicy :: "string \<Rightarrow> bool \<Rightarrow> bool" where
  "resolveWorklistTierPolicy mode resumeModelSwitch = (if mode = ''batch'' then True else \<not> resumeModelSwitch)"

subsection \<open>Streaks from an agent's answer\<close>

text \<open>The equality of a \<^verbatim>\<open>Map\<close> or \<^verbatim>\<open>Set\<close> on the values of an answer: two objects are never the same one.\<close>

definition same_value :: "jsval \<Rightarrow> jsval \<Rightarrow> bool" where
  "same_value a b \<longleftrightarrow> a = b \<and> \<not> (case a of JArr _ \<Rightarrow> True | JObj _ \<Rightarrow> True | _ \<Rightarrow> False)"

text \<open>\<^verbatim>\<open>byId.get\<close>: the last ready bead of that id.\<close>

definition by_id :: "jsval list \<Rightarrow> jsval \<Rightarrow> jsval option" where
  "by_id ready i = find (\<lambda>b. same_value (bead_key b) i) (rev ready)"

text \<open>One streak of the answer against the ids seen so far; \<open>None\<close> asks for the fallback.\<close>

fun resolve_streak :: "jsval list \<Rightarrow> jsval list \<Rightarrow> jsval list \<Rightarrow> (jsval list \<times> jsval list) option" where
  "resolve_streak ready [] seen = Some ([], seen)"
| "resolve_streak ready (i # is) seen =
     (case by_id ready i of
        None \<Rightarrow> None
      | Some b \<Rightarrow>
          if i \<in> set seen then None
          else (case resolve_streak ready is (seen @ [i]) of
                  None \<Rightarrow> None
                | Some (bs, seen') \<Rightarrow> Some (b # bs, seen')))"

fun resolve_streaks :: "jsval list \<Rightarrow> jsval list \<Rightarrow> jsval list \<Rightarrow> (jsval list list \<times> jsval list) option" where
  "resolve_streaks ready [] seen = Some ([], seen)"
| "resolve_streaks ready (s # ss) seen =
     (case s of
        JArr (i # is) \<Rightarrow>
          (case resolve_streak ready (i # is) seen of
             None \<Rightarrow> None
           | Some (bs, seen') \<Rightarrow>
               (case resolve_streaks ready ss seen' of
                  None \<Rightarrow> None
                | Some (rs, seen'') \<Rightarrow> Some (bs # rs, seen'')))
      | _ \<Rightarrow> None)"

definition selectStreaks :: "jsval \<Rightarrow> jsval list \<Rightarrow> jsval list list \<times> bool" where
  "selectStreaks candidate ready =
     (let fallback = (map (\<lambda>b. [b]) ready, True) in
      case and_field candidate ''streaks'' of
        JArr ss \<Rightarrow>
          (case resolve_streaks ready ss [] of
             None \<Rightarrow> fallback
           | Some (rs, seen) \<Rightarrow> if length seen \<noteq> length ready then fallback else (rs, False))
      | _ \<Rightarrow> fallback)"

subsection \<open>Streaks from lane metadata\<close>

definition streak_name :: "jsval \<Rightarrow> string option" where
  "streak_name b =
     (case and_field (and_field b ''metadata'') ''streak'' of
        JStr s \<Rightarrow> if js_trim s = [] then None else Some s
      | _ \<Rightarrow> None)"

definition orderOf :: "jsval \<Rightarrow> rat option" where
  "orderOf b = finite_order (jfield (jfield b ''metadata'') ''streakOrder'')"

text \<open>A difference of two numbers that may be infinite; that of two infinities is \<^verbatim>\<open>NaN\<close>, which is falsy.\<close>

fun diff_sign :: "rat option \<Rightarrow> rat option \<Rightarrow> int" where
  "diff_sign None None = 0"
| "diff_sign None (Some _) = 1"
| "diff_sign (Some _) None = - 1"
| "diff_sign (Some x) (Some y) = sign_of (x - y)"

definition or_str :: "jsval \<Rightarrow> string" where
  "or_str v = js_str (if truthy v then v else JStr [])"

definition withinLane :: "(string \<Rightarrow> string \<Rightarrow> int) \<Rightarrow> jsval \<Rightarrow> jsval \<Rightarrow> int" where
  "withinLane lc a b =
     (let d = diff_sign (orderOf a) (orderOf b); t = lc (or_str (jfield a ''title'')) (or_str (jfield b ''title''))
      in if d \<noteq> 0 then d else if t \<noteq> 0 then t else lc (js_str (bead_key a)) (js_str (bead_key b)))"

definition add_lane :: "jsval \<Rightarrow> (string, jsval list) jsmap \<Rightarrow> (string, jsval list) jsmap" where
  "add_lane b lanes =
     (case streak_name b of
        None \<Rightarrow> lanes
      | Some s \<Rightarrow> AList.update s ((case map_of lanes s of None \<Rightarrow> [] | Some bs \<Rightarrow> bs) @ [b]) lanes)"

definition min_order :: "rat option list \<Rightarrow> rat option" where
  "min_order os = fold (\<lambda>x m. if diff_sign x m < 0 then x else m) os None"

definition groupStreaksFromLaneMetadata :: "(string \<Rightarrow> string \<Rightarrow> int) \<Rightarrow> jsval list \<Rightarrow> jsval list list option" where
  "groupStreaksFromLaneMetadata lc ready =
     (if ready = [] then None
      else if \<not> list_all (\<lambda>b. streak_name b \<noteq> None) ready then None
      else
        let lanes = fold add_lane ready [];
            entries = map (\<lambda>(s, bs). (s, sort_by (withinLane lc) bs)) lanes;
            key = (\<lambda>e. min_order (map orderOf (snd e)))
        in Some (map snd (sort_by (\<lambda>x y. let d = diff_sign (key x) (key y) in if d \<noteq> 0 then d else lc (fst x) (fst y)) entries)))"

subsection \<open>Lane order as a prerequisite\<close>

text \<open>The open laned beads of the scope and of the round, the first row of each id.\<close>

definition first_rows :: "jsval list \<Rightarrow> jsval list" where
  "first_rows bs = fold (\<lambda>b acc. if bead_sid b \<in> set (map bead_sid acc) then acc else acc @ [b]) bs []"

definition openLaned :: "(string \<Rightarrow> jsval option) \<Rightarrow> jsval list \<Rightarrow> jsval list \<Rightarrow> jsval list" where
  "openLaned parse ready scope =
     filter (\<lambda>b. jfield b ''status'' \<noteq> JStr ''closed'' \<and> laneOf parse b \<noteq> None)
       (first_rows (filter truthy (scope @ ready)))"

definition lowerOpenMates :: "(string \<Rightarrow> jsval option) \<Rightarrow> jsval list \<Rightarrow> jsval \<Rightarrow> string list" where
  "lowerOpenMates parse laned b =
     (case laneOf parse b of
        None \<Rightarrow> []
      | Some (s, q) \<Rightarrow>
          map bead_sid (filter (\<lambda>m. bead_sid m \<noteq> bead_sid b \<and>
             (case laneOf parse m of None \<Rightarrow> False | Some (s', q') \<Rightarrow> s' = s \<and> q' < q)) laned))"

text \<open>One sweep over the round: a bead with a lower open mate that is not kept is dropped and what it waits for noted.\<close>

type_synonym hold = "string list \<times> (string, string list) jsmap"

definition hold_step :: "(jsval \<Rightarrow> string list) \<Rightarrow> jsval \<Rightarrow> hold \<Rightarrow> hold" where
  "hold_step mates b st =
     (case st of (kept, heldOn) \<Rightarrow>
        if bead_sid b \<notin> set kept then st
        else let missing = filter (\<lambda>m. m \<notin> set kept) (mates b)
             in if missing = [] then st
                else (removeAll (bead_sid b) kept, AList.update (bead_sid b) (sort missing) heldOn))"

definition hold_sweep :: "(jsval \<Rightarrow> string list) \<Rightarrow> jsval list \<Rightarrow> hold \<Rightarrow> hold" where
  "hold_sweep mates ready st = fold (hold_step mates) ready st"

lemma hold_step_le: "length (fst (hold_step mates b st)) \<le> length (fst st) \<and>
    (hold_step mates b st = st \<or> length (fst (hold_step mates b st)) < length (fst st))"
  by (auto simp: hold_step_def Let_def length_removeAll_less length_removeAll_less_eq split: prod.split)

lemma hold_sweep_less:
  "hold_sweep mates ready st = st \<or> length (fst (hold_sweep mates ready st)) < length (fst st)"
  unfolding hold_sweep_def
proof (induction ready arbitrary: st)
  case (Cons b bs)
  from Cons.IH [of "hold_step mates b st"] hold_step_le [of mates b st] show ?case by auto
qed simp

function hold_loop :: "(jsval \<Rightarrow> string list) \<Rightarrow> jsval list \<Rightarrow> hold \<Rightarrow> hold" where
  "hold_loop mates ready st =
     (let st' = hold_sweep mates ready st in if st' = st then st else hold_loop mates ready st')"
  by pat_completeness auto

termination
  by (relation "measure (\<lambda>(mates, ready, st). length (fst st))") (use hold_sweep_less in auto)

declare hold_loop.simps [simp del]

record lane_hold =
  lh_dispatchable :: "jsval list"
  lh_held :: "(string \<times> string list) list"

definition holdBackByLaneOrder :: "(string \<Rightarrow> jsval option) \<Rightarrow> jsval list \<Rightarrow> jsval list \<Rightarrow> lane_hold" where
  "holdBackByLaneOrder parse ready scope =
     (case hold_loop (lowerOpenMates parse (openLaned parse ready scope)) ready (remdups (map bead_sid ready), []) of
        (kept, heldOn) \<Rightarrow> \<lparr>lh_dispatchable = filter (\<lambda>b. bead_sid b \<in> set kept) ready, lh_held = heldOn\<rparr>)"

subsection \<open>Packing streaks into worklists\<close>

definition UNSPECIFIED_TIER_KEY :: string where
  "UNSPECIFIED_TIER_KEY = ''unspecified''"

record desc =
  d_streak :: "jsval list"
  d_index :: nat
  d_priority :: "rat option"
  d_tier :: string
  d_effort :: nat
  d_ids :: "string list"
  d_deps :: "nat list"

definition streak_ids :: "jsval list \<Rightarrow> string list" where
  "streak_ids streak = map (\<lambda>b. js_str (and_field b ''id'')) streak"

definition tier_key :: "jsval list \<Rightarrow> string" where
  "tier_key streak = (case streakRequiredTier streak of Some t \<Rightarrow> t | None \<Rightarrow> UNSPECIFIED_TIER_KEY)"

text \<open>\<^verbatim>\<open>descByBeadId\<close>: the last streak that has the bead.\<close>

definition owner_index :: "jsval list list \<Rightarrow> string \<Rightarrow> nat option" where
  "owner_index streaks i =
     map_option fst (find (\<lambda>p. i \<in> set (streak_ids (snd p))) (rev (enumerate 0 streaks)))"

definition dep_indexes :: "jsval list list \<Rightarrow> nat \<Rightarrow> jsval list \<Rightarrow> nat list" where
  "dep_indexes streaks k streak =
     remdups (concat (map (\<lambda>x. case owner_index streaks x of None \<Rightarrow> [] | Some j \<Rightarrow> if j = k then [] else [j])
       (concat (map beadBlocksDependencyIds streak))))"

definition describe :: "jsval list list \<Rightarrow> nat \<times> jsval list \<Rightarrow> desc" where
  "describe streaks p =
     \<lparr>d_streak = snd p, d_index = fst p, d_priority = streakMinPriority (snd p), d_tier = tier_key (snd p),
      d_effort = streakEffortPoints (snd p), d_ids = streak_ids (snd p), d_deps = dep_indexes streaks (fst p) (snd p)\<rparr>"

definition descs_of :: "jsval list list \<Rightarrow> desc list" where
  "descs_of streaks = map (describe streaks) (enumerate 0 streaks)"

definition cmp_desc :: "desc \<Rightarrow> desc \<Rightarrow> int" where
  "cmp_desc a b =
     (let d = diff_sign (d_priority a) (d_priority b)
      in if d \<noteq> 0 then d else int (d_index a) - int (d_index b))"

definition next_desc :: "desc list \<Rightarrow> desc" where
  "next_desc rem =
     (let ready = filter (\<lambda>d. list_all (\<lambda>i. i \<notin> set (map d_index rem)) (d_deps d)) rem
      in hd (sort_by cmp_desc (if ready = [] then rem else ready)))"

lemma mset_insert_by [simp]: "mset (insert_by cmp x xs) = add_mset x (mset xs)"
  by (induction xs) auto

lemma mset_sort_by [simp]: "mset (sort_by cmp xs) = mset xs"
  unfolding sort_by_def by (induction xs) auto

lemma sort_by_Nil [simp]: "sort_by cmp xs = [] \<longleftrightarrow> xs = []"
  by (metis mset_sort_by mset_zero_iff)

lemma hd_sort_by: "xs \<noteq> [] \<Longrightarrow> hd (sort_by cmp xs) \<in> set xs"
  by (metis hd_in_set set_sort_by sort_by_Nil)

lemma next_desc_mem: "rem \<noteq> [] \<Longrightarrow> next_desc rem \<in> set rem"
proof -
  assume rem: "rem \<noteq> []"
  let ?r = "filter (\<lambda>d. list_all (\<lambda>i. i \<notin> set (map d_index rem)) (d_deps d)) rem"
  from rem have "(if ?r = [] then rem else ?r) \<noteq> []" by auto
  from hd_sort_by [OF this, of cmp_desc] show ?thesis unfolding next_desc_def Let_def by (auto split: if_splits)
qed

text \<open>The global order: among the streaks with no dependency left, the one of least priority number, then of least index.\<close>

function global_order :: "desc list \<Rightarrow> desc list" where
  "global_order rem =
     (if rem = [] then []
      else next_desc rem # global_order (filter (\<lambda>d. d_index d \<noteq> d_index (next_desc rem)) rem))"
  by pat_completeness auto

termination
  by (relation "measure length") (auto intro!: length_filter_less [OF next_desc_mem])

declare global_order.simps [simp del]

record partition =
  pt_tier :: string
  pt_members :: "desc list"
  pt_slots :: "nat list"

definition tier_keys :: "desc list \<Rightarrow> string list" where
  "tier_keys ds = fold (\<lambda>d ks. if d_tier d \<in> set ks then ks else ks @ [d_tier d]) ds []"

definition partitions_of :: "desc list \<Rightarrow> partition list" where
  "partitions_of ds =
     map (\<lambda>k. \<lparr>pt_tier = k, pt_members = filter (\<lambda>d. d_tier d = k) ds, pt_slots = []\<rparr>) (tier_keys ds)"

text \<open>Mixed tiers on fewer doers than tiers: every partition joins the slot with the fewest streaks claimed so far.\<close>

definition least_claimed :: "nat list \<Rightarrow> nat" where
  "least_claimed counts =
     hd (sort_by (\<lambda>a b. let d = int (counts ! a) - int (counts ! b) in if d \<noteq> 0 then d else int a - int b) [0..<length counts])"

fun alloc_mixed :: "partition list \<Rightarrow> nat list \<Rightarrow> partition list" where
  "alloc_mixed [] counts = []"
| "alloc_mixed (p # ps) counts =
     (let host = least_claimed counts
      in p\<lparr>pt_slots := [host]\<rparr> # alloc_mixed ps (counts[host := counts ! host + length (pt_members p)]))"

text \<open>Otherwise one slot each, and the spare doers one by one to the partition with the highest load per slot.\<close>

definition load_of :: "partition \<Rightarrow> rat" where
  "load_of p = of_nat (length (pt_members p)) / of_nat (length (pt_slots p))"

definition most_loaded :: "partition list \<Rightarrow> nat option" where
  "most_loaded ps =
     fold (\<lambda>k best. case best of None \<Rightarrow> Some k | Some b \<Rightarrow> if load_of (ps ! k) > load_of (ps ! b) then Some k else best)
       [0..<length ps] None"

fun give_spare :: "nat \<Rightarrow> partition list \<Rightarrow> nat \<Rightarrow> partition list \<times> nat" where
  "give_spare 0 ps n = (ps, n)"
| "give_spare (Suc k) ps n =
     (case most_loaded ps of
        None \<Rightarrow> (ps, n)
      | Some t \<Rightarrow> give_spare k (ps[t := (ps ! t)\<lparr>pt_slots := pt_slots (ps ! t) @ [n]\<rparr>]) (Suc n))"

definition allocate_slots :: "bool \<Rightarrow> nat \<Rightarrow> partition list \<Rightarrow> partition list \<times> nat" where
  "allocate_slots tierHomogeneous doers ps =
     (if \<not> tierHomogeneous \<and> length ps > doers then (alloc_mixed ps (replicate doers 0), doers)
      else give_spare (doers - length ps) (map (\<lambda>(k, p). p\<lparr>pt_slots := [k]\<rparr>) (enumerate 0 ps)) (length ps))"

record slot =
  sl_items :: "desc list"
  sl_effort :: nat

record pack =
  pk_slots :: "slot list"
  pk_overflow :: "desc list"

datatype dep_slot = NoDep | DepAt nat | CannotPlace

definition slot_of :: "slot list \<Rightarrow> nat \<Rightarrow> nat option" where
  "slot_of slots i = find (\<lambda>k. i \<in> set (map d_index (sl_items (slots ! k)))) [0..<length slots]"

definition depSlotFor :: "pack \<Rightarrow> desc \<Rightarrow> dep_slot" where
  "depSlotFor st d =
     (if d_deps d = [] then NoDep
      else let ss = map (\<lambda>i. if i \<in> set (map d_index (pk_overflow st)) then None else slot_of (pk_slots st) i) (d_deps d)
           in if None \<in> set ss then CannotPlace
              else case remdups (map the ss) of [k] \<Rightarrow> DepAt k | _ \<Rightarrow> CannotPlace)"

definition fits :: "rat option \<Rightarrow> slot \<Rightarrow> desc \<Rightarrow> bool" where
  "fits budget sl d \<longleftrightarrow>
     sl_items sl = [] \<or> (case budget of None \<Rightarrow> True | Some b \<Rightarrow> of_nat (sl_effort sl + d_effort d) \<le> b)"

definition place :: "nat \<Rightarrow> desc \<Rightarrow> pack \<Rightarrow> pack" where
  "place k d st =
     st\<lparr>pk_slots := (pk_slots st)[k := \<lparr>sl_items = sl_items (pk_slots st ! k) @ [d],
                                     sl_effort = sl_effort (pk_slots st ! k) + d_effort d\<rparr>]\<rparr>"

definition spill :: "desc \<Rightarrow> pack \<Rightarrow> pack" where
  "spill d st = st\<lparr>pk_overflow := pk_overflow st @ [d]\<rparr>"

definition place_desc :: "rat option \<Rightarrow> nat list \<Rightarrow> desc \<Rightarrow> pack \<Rightarrow> pack" where
  "place_desc budget own d st =
     (case depSlotFor st d of
        CannotPlace \<Rightarrow> spill d st
      | dep \<Rightarrow>
          (case sort_by (\<lambda>a b. let n = int (length (sl_items (pk_slots st ! a))) - int (length (sl_items (pk_slots st ! b)))
                           in if n \<noteq> 0 then n else int a - int b)
                  (filter (\<lambda>k. fits budget (pk_slots st ! k) d)
                     (case dep of DepAt k \<Rightarrow> if k \<in> set own then [k] else [] | _ \<Rightarrow> own)) of
             [] \<Rightarrow> spill d st
           | k # _ \<Rightarrow> place k d st))"

definition place_partition :: "rat option \<Rightarrow> partition \<Rightarrow> pack \<Rightarrow> pack" where
  "place_partition budget p st = fold (place_desc budget (pt_slots p)) (pt_members p) st"

definition effort_budget :: "jsval \<Rightarrow> rat option" where
  "effort_budget v =
     (case v of
        JInf \<Rightarrow> None
      | _ \<Rightarrow> (case num_val v of Some q \<Rightarrow> Some (if q > 0 then q else DEFAULT_EFFORT_THRESHOLD)
             | None \<Rightarrow> Some DEFAULT_EFFORT_THRESHOLD))"

definition pack_streaks :: "jsval list list \<Rightarrow> nat \<Rightarrow> rat option \<Rightarrow> bool \<Rightarrow> pack" where
  "pack_streaks streaks doers budget tierHomogeneous =
     (case allocate_slots tierHomogeneous doers (partitions_of (global_order (descs_of streaks))) of
        (ps, n) \<Rightarrow> fold (place_partition budget) ps
          \<lparr>pk_slots = replicate n \<lparr>sl_items = [], sl_effort = 0\<rparr>, pk_overflow = []\<rparr>)"

record assignment =
  as_worklists :: "jsval list list list"
  as_overflow :: "jsval list list"
  as_packed :: bool

definition assignDoerWorklists :: "jsval list list \<Rightarrow> int \<Rightarrow> jsval \<Rightarrow> bool \<Rightarrow> assignment" where
  "assignDoerWorklists streaks doerCount effortBudget tierHomogeneous =
     (if streaks = [] \<or> doerCount < 1 then \<lparr>as_worklists = [], as_overflow = [], as_packed = False\<rparr>
      else if int (length streaks) \<le> doerCount
      then \<lparr>as_worklists = map (\<lambda>s. [s]) streaks, as_overflow = [], as_packed = False\<rparr>
      else let st = pack_streaks streaks (nat doerCount) (effort_budget effortBudget) tierHomogeneous
           in \<lparr>as_worklists = map (\<lambda>sl. map d_streak (sl_items sl)) (filter (\<lambda>sl. sl_items sl \<noteq> []) (pk_slots st)),
               as_overflow = map d_streak (pk_overflow st), as_packed = True\<rparr>)"

subsection \<open>An agent's answer never loses or doubles a bead\<close>

lemma by_id_Some: "by_id ready i = Some b \<Longrightarrow> b \<in> set ready \<and> bead_key b = i"
  by (auto simp: by_id_def find_Some_iff same_value_def) (metis nth_mem rev_nth length_rev set_rev)

lemma resolve_streak_Some:
  "resolve_streak ready is seen = Some (bs, seen') \<Longrightarrow>
     seen' = seen @ is \<and> map bead_key bs = is \<and> set bs \<subseteq> set ready \<and> (distinct seen \<longrightarrow> distinct seen')"
proof (induction "is" arbitrary: seen bs seen')
  case (Cons i js)
  then obtain b bs' where b: "by_id ready i = Some b" "i \<notin> set seen"
    and r: "resolve_streak ready js (seen @ [i]) = Some (bs', seen')" "bs = b # bs'"
    by (auto split: option.splits if_splits)
  note IH = Cons.IH [OF r(1)]
  have "distinct seen'" if "distinct seen"
  proof -
    have "distinct (seen @ [i])" using that b(2) by simp
    with IH show ?thesis by blast
  qed
  with IH r(2) by_id_Some [OF b(1)] show ?case by simp
qed simp

lemma resolve_streaks_Some:
  "resolve_streaks ready ss seen = Some (rs, seen') \<Longrightarrow>
     seen' = seen @ map bead_key (concat rs) \<and> set (concat rs) \<subseteq> set ready \<and> [] \<notin> set rs \<and>
     (distinct seen \<longrightarrow> distinct seen')"
proof (induction ss arbitrary: seen rs seen')
  case (Cons s ss)
  then obtain i js where s: "s = JArr (i # js)" by (auto split: jsval.splits list.splits)
  with Cons.prems obtain bs seen1 rs' where r: "resolve_streak ready (i # js) seen = Some (bs, seen1)"
    "resolve_streaks ready ss seen1 = Some (rs', seen')" "rs = bs # rs'"
    by (auto simp del: resolve_streak.simps split: option.splits)
  from resolve_streak_Some [OF r(1)] have "bs \<noteq> []" by auto
  moreover have "distinct seen \<longrightarrow> distinct seen'" using resolve_streak_Some [OF r(1)] Cons.IH [OF r(2)] by blast
  moreover have "seen' = seen @ map bead_key (concat rs)" using resolve_streak_Some [OF r(1)] Cons.IH [OF r(2)] r(3) by simp
  moreover have "set (concat rs) \<subseteq> set ready" using resolve_streak_Some [OF r(1)] Cons.IH [OF r(2)] r(3) by simp
  ultimately show ?case using Cons.IH [OF r(2)] r(3) by simp
qed simp

text \<open>As many different beads as there are ready ones are all of them.\<close>

lemma covers_all:
  assumes "distinct (map bead_key bs)" "set bs \<subseteq> set ready" "length bs = length ready"
  shows "mset bs = mset ready"
proof -
  have d: "distinct bs" using assms(1) by (simp add: distinct_map)
  then have c: "card (set bs) = length ready" using assms(3) by (simp add: distinct_card)
  moreover have "card (set bs) \<le> card (set ready)" using assms(2) by (intro card_mono) auto
  ultimately have "card (set bs) = card (set ready)" using card_length [of ready] by simp
  then have e: "set bs = set ready" using assms(2) by (intro card_subset_eq) auto
  then have "distinct ready" using c by (simp add: card_distinct)
  with d e show ?thesis by (simp add: set_eq_iff_mset_eq_distinct)
qed

text \<open>
  Whatever an agent answers when it is asked to group the ready beads, the streaks that are used
  contain every ready bead exactly as often as it is ready, and no streak is empty.
\<close>

theorem selectStreaks_partition:
  "mset (concat (fst (selectStreaks candidate ready))) = mset ready \<and> [] \<notin> set (fst (selectStreaks candidate ready))"
proof -
  have fb: "mset (concat (map (\<lambda>b. [b]) ready)) = mset ready" by (induction ready) auto
  show ?thesis
  proof (cases "\<exists>ss rs seen. and_field candidate ''streaks'' = JArr ss \<and> resolve_streaks ready ss [] = Some (rs, seen) \<and> length seen = length ready")
    case True
    then obtain ss rs seen where r: "and_field candidate ''streaks'' = JArr ss" "resolve_streaks ready ss [] = Some (rs, seen)"
      "length seen = length ready" by blast
    from resolve_streaks_Some [OF r(2)] r(3) have "mset (concat rs) = mset ready" "[] \<notin> set rs"
      by (auto intro!: covers_all simp: length_map)
    with r show ?thesis by (simp add: selectStreaks_def)
  next
    case False
    then have "fst (selectStreaks candidate ready) = map (\<lambda>b. [b]) ready"
      by (auto simp: selectStreaks_def Let_def split: jsval.split option.split)
    with fb show ?thesis by auto
  qed
qed

subsection \<open>Lane order\<close>

text \<open>A set of ids that contains, with a bead of the round, every lane-mate the bead has to wait for.\<close>

definition lane_closed :: "(jsval \<Rightarrow> string list) \<Rightarrow> jsval list \<Rightarrow> string set \<Rightarrow> bool" where
  "lane_closed mates ready S \<longleftrightarrow> S \<subseteq> bead_sid ` set ready \<and> (\<forall>b\<in>set ready. bead_sid b \<in> S \<longrightarrow> set (mates b) \<subseteq> S)"

definition hold_ok :: "(jsval \<Rightarrow> string list) \<Rightarrow> jsval list \<Rightarrow> hold \<Rightarrow> bool" where
  "hold_ok mates ready st \<longleftrightarrow>
     set (fst st) \<subseteq> bead_sid ` set ready \<and> set (jkeys (snd st)) = bead_sid ` set ready - set (fst st) \<and>
     (\<forall>S. lane_closed mates ready S \<longrightarrow> S \<subseteq> set (fst st)) \<and> (\<forall>p\<in>set (snd st). snd p \<noteq> [])"

lemma hold_step_ok:
  assumes "hold_ok mates ready st" "b \<in> set ready"
  shows "hold_ok mates ready (hold_step mates b st)"
proof -
  obtain kept heldOn where st: "st = (kept, heldOn)" by fastforce
  let ?missing = "filter (\<lambda>m. m \<notin> set kept) (mates b)"
  show ?thesis
  proof (cases "bead_sid b \<in> set kept \<and> ?missing \<noteq> []")
    case True
    then have eq: "hold_step mates b st = (removeAll (bead_sid b) kept, AList.update (bead_sid b) (sort ?missing) heldOn)"
      by (simp add: hold_step_def st Let_def)
    have nomem: "bead_sid b \<notin> S" if "lane_closed mates ready S" for S
    proof
      assume "bead_sid b \<in> S"
      with that assms(2) have "set (mates b) \<subseteq> S" by (auto simp: lane_closed_def)
      moreover have "S \<subseteq> set kept" using assms(1) that by (simp add: hold_ok_def st)
      ultimately show False using True by (auto simp: filter_empty_conv)
    qed
    have "snd p \<noteq> []" if "p \<in> set (AList.update (bead_sid b) (sort ?missing) heldOn)" for p
      using that set_update_subset [of "bead_sid b" "sort ?missing" heldOn] True assms(1)
      by (auto simp: hold_ok_def st simp flip: set_empty)
    moreover have "set (jkeys (AList.update (bead_sid b) (sort ?missing) heldOn)) = bead_sid ` set ready - set (removeAll (bead_sid b) kept)"
      unfolding keys_update using assms by (auto simp: hold_ok_def st)
    moreover have "S \<subseteq> set (removeAll (bead_sid b) kept)" if "lane_closed mates ready S" for S
      using nomem [OF that] that assms(1) by (auto simp: hold_ok_def st)
    moreover have "set (removeAll (bead_sid b) kept) \<subseteq> bead_sid ` set ready" using assms(1) by (auto simp: hold_ok_def st)
    ultimately show ?thesis unfolding eq hold_ok_def fst_conv snd_conv by blast
  next
    case False
    then have "hold_step mates b st = st" by (auto simp: hold_step_def st Let_def)
    with assms(1) show ?thesis by simp
  qed
qed

lemma hold_sweep_ok: "hold_ok mates ready st \<Longrightarrow> hold_ok mates ready (hold_sweep mates ready st)"
proof -
  have "hold_ok mates ready st \<Longrightarrow> set bs \<subseteq> set ready \<Longrightarrow> hold_ok mates ready (fold (hold_step mates) bs st)" for bs
  proof (induction bs arbitrary: st)
    case (Cons b bs)
    then have "hold_ok mates ready (hold_step mates b st)" by (intro hold_step_ok) simp_all
    with Cons show ?case by simp
  qed simp
  then show "hold_ok mates ready st \<Longrightarrow> hold_ok mates ready (hold_sweep mates ready st)" by (simp add: hold_sweep_def)
qed

text \<open>A sweep that changes nothing leaves no bead to drop.\<close>

lemma hold_step_fst_le: "length (fst (fold (hold_step mates) bs st)) \<le> length (fst st)"
  using hold_sweep_less [of mates bs st] by (auto simp: hold_sweep_def)

lemma sweep_stable:
  assumes "hold_sweep mates ready st = st" "b \<in> set ready" "bead_sid b \<in> set (fst st)"
  shows "set (mates b) \<subseteq> set (fst st)"
proof -
  have "fold (hold_step mates) bs st = st \<Longrightarrow> x \<in> set bs \<Longrightarrow> hold_step mates x st = st" for bs x
  proof (induction bs)
    case (Cons y bs)
    have "hold_step mates y st = st"
      using Cons.prems(1) hold_step_le [of mates y st] hold_step_fst_le [of mates bs "hold_step mates y st"]
      by (metis fold_simps(2) leD)
    with Cons show ?case by auto
  qed simp
  then have "hold_step mates b st = st" using assms by (simp add: hold_sweep_def)
  obtain kept heldOn where st: "st = (kept, heldOn)" by fastforce
  have "filter (\<lambda>m. m \<notin> set kept) (mates b) = []"
  proof (rule ccontr)
    assume "filter (\<lambda>m. m \<notin> set kept) (mates b) \<noteq> []"
    then have "fst (hold_step mates b st) = removeAll (bead_sid b) kept" using assms(3) by (simp add: hold_step_def st Let_def)
    then have "bead_sid b \<notin> set (fst (hold_step mates b st))" by simp
    with \<open>hold_step mates b st = st\<close> assms(3) show False by simp
  qed
  then show ?thesis by (auto simp: st filter_empty_conv)
qed

lemma hold_loop_result:
  "hold_ok mates ready st \<Longrightarrow> hold_ok mates ready (hold_loop mates ready st) \<and> lane_closed mates ready (set (fst (hold_loop mates ready st)))"
proof (induction mates ready st rule: hold_loop.induct)
  case (1 mates ready st)
  show ?case
  proof (cases "hold_sweep mates ready st = st")
    case True
    then have "lane_closed mates ready (set (fst st))"
      using 1(2) sweep_stable [OF True] by (auto simp: lane_closed_def hold_ok_def)
    with True 1(2) show ?thesis by (subst (1 2) hold_loop.simps) (simp add: Let_def)
  next
    case False
    with 1(1) [OF refl False hold_sweep_ok [OF 1(2)]] show ?thesis by (subst (1 2) hold_loop.simps) (simp add: Let_def)
  qed
qed

text \<open>
  Lane order holds back exactly what it must. The beads that are dispatched are those of the largest set
  of ready beads in which every bead has all its open lane-mates of lower order; each of the others is reported with
  at least one id it waits for; and the order of the round is kept.
\<close>

theorem holdBack_largest:
  "\<exists>D. lh_dispatchable (holdBackByLaneOrder parse ready scope) = filter (\<lambda>b. bead_sid b \<in> D) ready \<and>
     D = \<Union> {S. lane_closed (lowerOpenMates parse (openLaned parse ready scope)) ready S} \<and>
     set (jkeys (lh_held (holdBackByLaneOrder parse ready scope))) = bead_sid ` set ready - D \<and>
     [] \<notin> snd ` set (lh_held (holdBackByLaneOrder parse ready scope))"
proof -
  let ?m = "lowerOpenMates parse (openLaned parse ready scope)"
  obtain kept heldOn where l: "hold_loop ?m ready (remdups (map bead_sid ready), []) = (kept, heldOn)" by fastforce
  have "hold_ok ?m ready (remdups (map bead_sid ready), [])" by (auto simp: hold_ok_def lane_closed_def)
  from hold_loop_result [OF this] l have r: "hold_ok ?m ready (kept, heldOn)" "lane_closed ?m ready (set kept)" by simp_all
  then have "set kept = \<Union> {S. lane_closed ?m ready S}" by (auto simp: hold_ok_def)
  with r l show ?thesis by (intro exI [of _ "set kept"]) (auto simp: holdBackByLaneOrder_def hold_ok_def)
qed

subsection \<open>Streaks from lanes\<close>

lemma add_lane_lookup:
  "map_of (add_lane b lanes) s =
     (if streak_name b = Some s then Some ((case map_of lanes s of None \<Rightarrow> [] | Some bs \<Rightarrow> bs) @ [b]) else map_of lanes s)"
  by (auto simp: add_lane_def split: option.split)

lemma lanes_lookup:
  "map_of (fold add_lane bs lanes) s =
     (let own = filter (\<lambda>b. streak_name b = Some s) bs
      in if own = [] then map_of lanes s else Some ((case map_of lanes s of None \<Rightarrow> [] | Some xs \<Rightarrow> xs) @ own))"
  by (induction bs arbitrary: lanes) (auto simp: add_lane_lookup Let_def)

lemma lanes_distinct: "jmap_ok lanes \<Longrightarrow> jmap_ok (fold add_lane bs lanes)"
  by (induction bs arbitrary: lanes) (auto simp: add_lane_def split: option.split)

lemma mset_lane_snoc:
  "map_of lanes s = Some old \<Longrightarrow>
     mset (concat (map snd (AList.update s (old @ [b]) lanes))) = add_mset b (mset (concat (map snd lanes)))"
  by (induction lanes) (auto split: if_splits)

lemma add_lane_mset:
  "streak_name b \<noteq> None \<Longrightarrow> mset (concat (map snd (add_lane b lanes))) = add_mset b (mset (concat (map snd lanes)))"
  by (auto simp: add_lane_def mset_lane_snoc update_fresh_None split: option.split)

lemma lanes_mset:
  "list_all (\<lambda>b. streak_name b \<noteq> None) bs \<Longrightarrow>
     mset (concat (map snd (fold add_lane bs lanes))) = mset (concat (map snd lanes)) + mset bs"
  by (induction bs arbitrary: lanes) (simp_all add: add_lane_mset)

lemma insert_by_sorted:
  assumes "\<And>x y. cmp x y \<le> 0 \<Longrightarrow> le x y" "\<And>x y. \<not> cmp x y \<le> 0 \<Longrightarrow> le y x" "transp le" "sorted_wrt le ys"
  shows "sorted_wrt le (insert_by cmp x ys)"
  using assms(4)
proof (induction ys)
  case (Cons y ys)
  have m: "set (insert_by cmp x ys) = insert x (set ys)" by (metis mset_insert_by set_mset_add_mset_insert set_mset_mset)
  have "le x z" if "cmp x y \<le> 0" "z \<in> set ys" for z
    using transpD [OF assms(3) assms(1) [OF that(1)]] Cons.prems that(2) by simp
  with Cons assms(1,2) show ?case by (auto simp: m)
qed simp

lemma sort_by_sorted:
  assumes "\<And>x y. cmp x y \<le> 0 \<Longrightarrow> le x y" "\<And>x y. \<not> cmp x y \<le> 0 \<Longrightarrow> le y x" "transp le"
  shows "sorted_wrt le (sort_by cmp xs)"
  unfolding sort_by_def by (induction xs) (auto intro: insert_by_sorted [OF assms])

text \<open>The order of numbers with infinity on top.\<close>

definition num_le :: "rat option \<Rightarrow> rat option \<Rightarrow> bool" where
  "num_le a b \<longleftrightarrow> diff_sign a b \<le> 0"

lemma num_le_simps [simp]:
  "num_le a None" "num_le None (Some y) = False" "num_le (Some x) (Some y) = (x \<le> y)"
  by (cases a; simp add: num_le_def) (simp_all add: num_le_def sign_of_def)

lemma num_le_trans: "num_le a b \<Longrightarrow> num_le b c \<Longrightarrow> num_le a c"
  by (cases a; cases b; cases c) auto

lemma diff_sign_le: "diff_sign a b < 0 \<Longrightarrow> num_le a b" "diff_sign a b > 0 \<Longrightarrow> num_le b a" "diff_sign a b = 0 \<Longrightarrow> num_le a b \<and> num_le b a"
  by (cases a; cases b; simp add: num_le_def sign_of_def split: if_splits)+

lemma withinLane_le: "withinLane lc a b \<le> 0 \<Longrightarrow> num_le (orderOf a) (orderOf b)" "\<not> withinLane lc a b \<le> 0 \<Longrightarrow> num_le (orderOf b) (orderOf a)"
  using diff_sign_le [of "orderOf a" "orderOf b"] by (auto simp: withinLane_def Let_def split: if_splits)

lemma mset_concat_map: "mset (concat (map f xs)) = (\<Sum>x\<in>#mset xs. mset (f x))"
  by (induction xs) auto

definition lane_bead :: "string \<Rightarrow> int \<Rightarrow> jsval" where
  "lane_bead i k = JObj [(''id'', JStr i), (''metadata'', JObj [(''streak'', JStr ''lane''), (''streakOrder'', JInt k)])]"

text \<open>
  Grouping by lanes is a partition in lane order. When every ready bead names a lane, the streaks together
  are the ready beads, each streak is exactly the ready beads of one lane, and within it the lane's order numbers
  ascend, beads without one last.
\<close>

theorem groupStreaks_partition:
  assumes "groupStreaksFromLaneMetadata lc ready = Some streaks"
  shows "mset (concat streaks) = mset ready \<and>
    (\<forall>streak\<in>set streaks. (\<exists>s. mset streak = mset (filter (\<lambda>b. streak_name b = Some s) ready) \<and> streak \<noteq> []) \<and>
       sorted_wrt (\<lambda>a b. num_le (orderOf a) (orderOf b)) streak)"
proof -
  let ?lanes = "fold add_lane ready []" and ?sort = "\<lambda>(s, bs). (s, sort_by (withinLane lc) bs)"
  have named: "list_all (\<lambda>b. streak_name b \<noteq> None) ready"
    using assms by (simp add: groupStreaksFromLaneMetadata_def split: if_splits)
  obtain cmp where streaks: "streaks = map snd (sort_by cmp (map ?sort ?lanes))"
    using assms by (auto simp: groupStreaksFromLaneMetadata_def Let_def split: if_splits)
  have "mset (concat streaks) = mset (concat (map snd (map ?sort ?lanes)))"
    by (simp only: streaks mset_concat_map mset_sort_by)
  also have "\<dots> = mset (concat (map snd ?lanes))"
    by (simp add: mset_concat_map case_prod_unfold image_mset.compositionality comp_def)
  finally have all: "mset (concat streaks) = mset ready" using lanes_mset [OF named, of "[]"] by simp
  have "(\<exists>s. mset streak = mset (filter (\<lambda>b. streak_name b = Some s) ready) \<and> streak \<noteq> []) \<and>
       sorted_wrt (\<lambda>a b. num_le (orderOf a) (orderOf b)) streak" if "streak \<in> set streaks" for streak
  proof -
    from that obtain s bs where bs: "(s, bs) \<in> set ?lanes" "streak = sort_by (withinLane lc) bs"
      by (auto simp: streaks)
    have "jmap_ok ?lanes" by (rule lanes_distinct) simp
    from map_of_SomeI_ok [OF this bs(1)] have "bs = filter (\<lambda>b. streak_name b = Some s) ready" "bs \<noteq> []"
      by (auto simp: lanes_lookup Let_def split: if_splits)
    moreover have "sorted_wrt (\<lambda>a b. num_le (orderOf a) (orderOf b)) streak"
      unfolding bs(2) by (rule sort_by_sorted) (auto intro: withinLane_le transpI num_le_trans)
    ultimately show ?thesis using bs(2) by auto
  qed
  with all show ?thesis by blast
qed

theorem groupStreaks_partition_witness:
  "\<exists>streaks. groupStreaksFromLaneMetadata (\<lambda>_ _. 0) [lane_bead ''x'' 2, lane_bead ''y'' 1] = Some streaks \<and>
     mset (concat streaks) = mset [lane_bead ''x'' 2, lane_bead ''y'' 1]"
proof -
  have "groupStreaksFromLaneMetadata (\<lambda>_ _. 0) [lane_bead ''x'' 2, lane_bead ''y'' 1] = Some [[lane_bead ''y'' 1, lane_bead ''x'' 2]]"
    by code_simp
  from this groupStreaks_partition [OF this] show ?thesis by blast
qed

subsection \<open>The packing\<close>

lemma hd_sort_in: "sort_by cmp xs = k # ks \<Longrightarrow> k \<in> set xs"
  by (metis list.set_intros(1) set_sort_by)

lemma slot_of_Some: "slot_of slots i = Some k \<Longrightarrow> k < length slots \<and> i \<in> set (map d_index (sl_items (slots ! k)))"
  by (auto simp: slot_of_def find_Some_iff)

lemma depSlotFor_DepAt:
  assumes "depSlotFor st d = DepAt k"
  shows "k < length (pk_slots st) \<and> set (d_deps d) \<subseteq> set (map d_index (sl_items (pk_slots st ! k)))"
proof -
  let ?f = "\<lambda>i. if i \<in> set (map d_index (pk_overflow st)) then None else slot_of (pk_slots st) i"
  from assms have ss: "None \<notin> set (map ?f (d_deps d))" "remdups (map the (map ?f (d_deps d))) = [k]" "d_deps d \<noteq> []"
    by (auto simp: depSlotFor_def Let_def split: if_splits list.splits)
  then have one: "set (map the (map ?f (d_deps d))) = {k}" by (metis list.set(1) list.set(2) set_remdups)
  have at_k: "?f i = Some k" if "i \<in> set (d_deps d)" for i
  proof -
    have "?f i \<noteq> None" using ss(1) that by force
    moreover have "the (?f i) \<in> set (map the (map ?f (d_deps d)))" unfolding set_map using that by blast
    ultimately show ?thesis unfolding one by (metis option.collapse singletonD)
  qed
  then have "slot_of (pk_slots st) i = Some k" if "i \<in> set (d_deps d)" for i using that by (metis option.distinct(1))
  with slot_of_Some ss(3) show ?thesis by (metis last_in_set subsetI)
qed

text \<open>What placing one streak does: it is put off, or appended to a slot of its partition that has room and holds all it depends on.\<close>

lemma place_desc_cases:
  assumes "set own \<subseteq> {..<length (pk_slots st)}"
  obtains (spilled) "place_desc budget own d st = spill d st"
  | (placed) k where "place_desc budget own d st = place k d st" "k \<in> set own" "k < length (pk_slots st)"
      "fits budget (pk_slots st ! k) d" "set (d_deps d) \<subseteq> set (map d_index (sl_items (pk_slots st ! k)))"
proof (cases "place_desc budget own d st = spill d st")
  case True
  then show ?thesis by (rule spilled)
next
  case False
  let ?cands = "filter (\<lambda>k. fits budget (pk_slots st ! k) d)
     (case depSlotFor st d of DepAt k \<Rightarrow> if k \<in> set own then [k] else [] | _ \<Rightarrow> own)"
  from False obtain k where k: "k \<in> set ?cands" "place_desc budget own d st = place k d st" "depSlotFor st d \<noteq> CannotPlace"
    by (auto simp: place_desc_def split: dep_slot.splits list.splits if_splits dest: hd_sort_in)
  show ?thesis
  proof (rule placed [OF k(2)])
    show own: "k \<in> set own" using k(1) by (auto split: dep_slot.splits if_splits)
    show "k < length (pk_slots st)" using own assms by auto
    show "fits budget (pk_slots st ! k) d" using k(1) by simp
    show "set (d_deps d) \<subseteq> set (map d_index (sl_items (pk_slots st ! k)))"
      using k(1,3) depSlotFor_DepAt [of st d k]
      by (cases "depSlotFor st d") (auto simp: depSlotFor_def Let_def split: if_splits list.splits)
  qed
qed

text \<open>
  A statement about the slots that an accepted placement keeps holds of the whole packing. \<open>Q k xs\<close> may name the slot.
\<close>

lemma place_slots:
  "k < length (pk_slots st) \<Longrightarrow> pk_slots (place k d st) =
     (pk_slots st)[k := \<lparr>sl_items = sl_items (pk_slots st ! k) @ [d], sl_effort = sl_effort (pk_slots st ! k) + d_effort d\<rparr>]"
  by (simp add: place_def)

lemma spill_slots [simp]: "pk_slots (spill d st) = pk_slots st" "pk_overflow (spill d st) = pk_overflow st @ [d]"
  by (simp_all add: spill_def)

lemma place_overflow [simp]: "pk_overflow (place k d st) = pk_overflow st"
  by (simp add: place_def)

lemma place_length [simp]: "length (pk_slots (place k d st)) = length (pk_slots st)"
  by (simp add: place_def)

definition slots_sat :: "(nat \<Rightarrow> slot \<Rightarrow> bool) \<Rightarrow> pack \<Rightarrow> bool" where
  "slots_sat Q st \<longleftrightarrow> (\<forall>k<length (pk_slots st). Q k (pk_slots st ! k))"

lemma place_desc_length: "set own \<subseteq> {..<length (pk_slots st)} \<Longrightarrow> length (pk_slots (place_desc budget own d st)) = length (pk_slots st)"
  by (erule place_desc_cases [where budget = budget and d = d]) simp_all

definition append_item :: "desc \<Rightarrow> slot \<Rightarrow> slot" where
  "append_item d sl = \<lparr>sl_items = sl_items sl @ [d], sl_effort = sl_effort sl + d_effort d\<rparr>"

definition keeps :: "rat option \<Rightarrow> (nat \<Rightarrow> slot \<Rightarrow> bool) \<Rightarrow> nat list \<Rightarrow> desc \<Rightarrow> bool" where
  "keeps budget Q own d \<longleftrightarrow>
     (\<forall>k sl. k \<in> set own \<and> Q k sl \<and> fits budget sl d \<and> set (d_deps d) \<subseteq> set (map d_index (sl_items sl)) \<longrightarrow>
        Q k (append_item d sl))"

lemma place_desc_sat:
  assumes "slots_sat Q st" "set own \<subseteq> {..<length (pk_slots st)}" "keeps budget Q own d"
  shows "slots_sat Q (place_desc budget own d st)"
  using assms(2)
proof (cases rule: place_desc_cases [where budget = budget and d = d])
  case spilled
  with assms(1) show ?thesis by (simp add: slots_sat_def)
next
  case (placed k)
  then have "Q k (append_item d (pk_slots st ! k))" using assms(1,3) by (simp add: keeps_def slots_sat_def)
  with placed assms(1) show ?thesis by (auto simp: slots_sat_def place_slots append_item_def nth_list_update)
qed

text \<open>The two loops over partitions and members as one loop over pairs of slots and streak.\<close>

definition placements :: "partition list \<Rightarrow> (nat list \<times> desc) list" where
  "placements ps = concat (map (\<lambda>p. map (Pair (pt_slots p)) (pt_members p)) ps)"

abbreviation place_all :: "rat option \<Rightarrow> (nat list \<times> desc) list \<Rightarrow> pack \<Rightarrow> pack" where
  "place_all budget qs st \<equiv> fold (\<lambda>q. place_desc budget (fst q) (snd q)) qs st"

lemma fold_placements: "fold (place_partition budget) ps st = place_all budget (placements ps) st"
  by (induction ps arbitrary: st) (simp_all add: placements_def place_partition_def fold_map comp_def)

lemma placements_mem: "q \<in> set (placements ps) \<longleftrightarrow> (\<exists>p\<in>set ps. fst q = pt_slots p \<and> snd q \<in> set (pt_members p))"
  by (cases q) (auto simp: placements_def)

lemma placements_snd: "map snd (placements ps) = concat (map pt_members ps)"
  by (simp add: placements_def map_concat comp_def)

abbreviation in_range :: "(nat list \<times> desc) list \<Rightarrow> pack \<Rightarrow> bool" where
  "in_range qs st \<equiv> \<forall>q\<in>set qs. set (fst q) \<subseteq> {..<length (pk_slots st)}"

lemma placements_range:
  "\<forall>p\<in>set ps. set (pt_slots p) \<subseteq> {..<n} \<and> pt_slots p \<noteq> [] \<Longrightarrow> length (pk_slots st) = n \<Longrightarrow> in_range (placements ps) st"
  using placements_mem by fastforce

lemma place_all_sat:
  "slots_sat Q st \<Longrightarrow> in_range qs st \<Longrightarrow> \<forall>q\<in>set qs. keeps budget Q (fst q) (snd q) \<Longrightarrow> slots_sat Q (place_all budget qs st)"
proof (induction qs arbitrary: st)
  case (Cons q qs)
  have "slots_sat Q (place_desc budget (fst q) (snd q) st)" by (rule place_desc_sat) (use Cons.prems in simp_all)
  moreover have "in_range qs (place_desc budget (fst q) (snd q) st)" using Cons.prems(2) place_desc_length [of "fst q"] by simp
  ultimately show ?case using Cons by simp
qed simp

text \<open>Every streak is in one place.\<close>

abbreviation pack_all :: "pack \<Rightarrow> desc list" where
  "pack_all st \<equiv> concat (map sl_items (pk_slots st)) @ pk_overflow st"

lemma mset_concat_snoc:
  "k < length xs \<Longrightarrow> f y = f (xs ! k) @ [d] \<Longrightarrow> mset (concat (map f (xs[k := y]))) = add_mset d (mset (concat (map f xs)))"
  by (induction xs arbitrary: k) (auto simp: nth_Cons split: nat.splits)

lemma place_desc_mset:
  "set own \<subseteq> {..<length (pk_slots st)} \<Longrightarrow> mset (pack_all (place_desc budget own d st)) = add_mset d (mset (pack_all st))"
  by (erule place_desc_cases [where budget = budget and d = d]) (simp_all add: place_slots mset_concat_snoc)

lemma place_all_mset: "in_range qs st \<Longrightarrow> mset (pack_all (place_all budget qs st)) = mset (pack_all st) + mset (map snd qs)"
proof (induction qs arbitrary: st)
  case (Cons q qs)
  have "in_range qs (place_desc budget (fst q) (snd q) st)" using Cons.prems place_desc_length [of "fst q"] by simp
  from Cons.IH [OF this] place_desc_mset [of "fst q" st budget "snd q"] Cons.prems show ?case by simp
qed simp

text \<open>A streak without dependencies is dispatched, or some other streak has been.\<close>

definition started :: "pack \<Rightarrow> bool" where
  "started st \<longleftrightarrow> (\<exists>sl\<in>set (pk_slots st). sl_items sl \<noteq> [])"

lemma place_started: "k < length (pk_slots st) \<Longrightarrow> started (place k d st)"
  unfolding started_def place_slots by (rule bexI [OF _ set_update_memI]) auto

lemma first_of_sorted: "xs \<noteq> [] \<Longrightarrow> \<exists>j\<in>set xs. (case sort_by cmp xs of [] \<Rightarrow> a | k # _ \<Rightarrow> f k) = f j"
  by (cases "sort_by cmp xs") (auto dest: hd_sort_in)

lemma place_desc_started:
  assumes "set own \<subseteq> {..<length (pk_slots st)}" "started st \<or> (d_deps d = [] \<and> own \<noteq> [])"
  shows "started (place_desc budget own d st)"
  using assms(1)
proof (cases rule: place_desc_cases [where budget = budget and d = d])
  case (placed k)
  then show ?thesis by (simp add: place_started)
next
  case spilled
  show ?thesis
  proof (cases "started st")
    case True
    then show ?thesis by (simp add: spilled started_def)
  next
    case False
    with assms(2) obtain k where k: "k \<in> set own" "d_deps d = []" using hd_in_set by blast
    then have "sl_items (pk_slots st ! k) = []" using False assms(1) by (auto simp: started_def)
    then have ne: "filter (\<lambda>k. fits budget (pk_slots st ! k) d) own \<noteq> []" using k by (auto simp: fits_def filter_empty_conv)
    have "depSlotFor st d = NoDep" by (simp add: depSlotFor_def k)
    then have "\<exists>j\<in>set (filter (\<lambda>k. fits budget (pk_slots st ! k) d) own). place_desc budget own d st = place j d st"
      unfolding place_desc_def by (simp only: dep_slot.case) (rule first_of_sorted [OF ne])
    then show ?thesis using assms(1) by (auto intro!: place_started)
  qed
qed

lemma place_all_started:
  "in_range qs st \<Longrightarrow> started st \<or> (\<exists>q\<in>set qs. d_deps (snd q) = [] \<and> fst q \<noteq> []) \<Longrightarrow> started (place_all budget qs st)"
proof (induction qs arbitrary: st)
  case (Cons q qs)
  have own: "set (fst q) \<subseteq> {..<length (pk_slots st)}" using Cons.prems(1) by simp
  have "in_range qs (place_desc budget (fst q) (snd q) st)" using Cons.prems(1) place_desc_length [of "fst q"] by simp
  from Cons.IH [OF this] place_desc_started [OF own, of "snd q" budget] Cons.prems(2) show ?case by auto
qed simp

subsection \<open>The slots of the partitions\<close>

lemma least_claimed_less: "counts \<noteq> [] \<Longrightarrow> least_claimed counts < length counts"
  unfolding least_claimed_def using hd_sort_by [of "[0..<length counts]"] by (simp add: Let_def)

lemma alloc_mixed_facts:
  "counts \<noteq> [] \<Longrightarrow> map pt_members (alloc_mixed ps counts) = map pt_members ps \<and> map pt_tier (alloc_mixed ps counts) = map pt_tier ps \<and>
     (\<forall>p\<in>set (alloc_mixed ps counts). set (pt_slots p) \<subseteq> {..<length counts} \<and> pt_slots p \<noteq> [])"
proof (induction ps arbitrary: counts)
  case (Cons p ps)
  let ?h = "least_claimed counts"
  have "counts[?h := counts ! ?h + length (pt_members p)] \<noteq> []" using Cons.prems by simp
  from Cons.IH [OF this] least_claimed_less [OF Cons.prems] show ?case by (simp add: Let_def)
qed simp

lemma most_loaded_less: "most_loaded ps = Some t \<Longrightarrow> t < length ps"
proof -
  have "fold (\<lambda>k best. case best of None \<Rightarrow> Some k | Some b \<Rightarrow> if load_of (ps ! k) > load_of (ps ! b) then Some k else best) ks x = Some t \<Longrightarrow>
      t \<in> set ks \<or> x = Some t" for ks x
    by (induction ks arbitrary: x) (fastforce split: option.splits if_splits)+
  then show "most_loaded ps = Some t \<Longrightarrow> t < length ps" unfolding most_loaded_def by fastforce
qed

definition alloc_ok :: "partition list \<Rightarrow> nat \<Rightarrow> bool" where
  "alloc_ok ps n \<longleftrightarrow> distinct (concat (map pt_slots ps)) \<and> (\<forall>p\<in>set ps. set (pt_slots p) \<subseteq> {..<n} \<and> pt_slots p \<noteq> [])"

lemma alloc_ok_give:
  assumes "alloc_ok ps n" "t < length ps"
  shows "alloc_ok (ps[t := (ps ! t)\<lparr>pt_slots := pt_slots (ps ! t) @ [n]\<rparr>]) (Suc n)"
proof -
  let ?ps = "ps[t := (ps ! t)\<lparr>pt_slots := pt_slots (ps ! t) @ [n]\<rparr>]"
  have less: "\<forall>p\<in>set ps. set (pt_slots p) \<subseteq> {..<n} \<and> pt_slots p \<noteq> []" using assms(1) by (simp add: alloc_ok_def)
  have "mset (concat (map pt_slots ?ps)) = mset (n # concat (map pt_slots ps))"
    using assms(2) by (simp add: mset_concat_snoc)
  moreover have "distinct (n # concat (map pt_slots ps))" using assms(1) less by (fastforce simp: alloc_ok_def)
  ultimately have "distinct (concat (map pt_slots ?ps))" by (metis mset_eq_imp_distinct_iff)
  moreover have "set (pt_slots p) \<subseteq> {..<Suc n} \<and> pt_slots p \<noteq> []" if "p \<in> set ?ps" for p
    using set_update_subset_insert [of ps t "(ps ! t)\<lparr>pt_slots := pt_slots (ps ! t) @ [n]\<rparr>"] that less assms(2)
    by (fastforce dest: nth_mem)
  ultimately show ?thesis by (simp add: alloc_ok_def)
qed

lemma give_spare_facts:
  "alloc_ok ps n \<Longrightarrow> give_spare k ps n = (ps', n') \<Longrightarrow>
     alloc_ok ps' n' \<and> map pt_members ps' = map pt_members ps \<and> map pt_tier ps' = map pt_tier ps"
proof (induction k arbitrary: ps n)
  case (Suc k)
  show ?case
  proof (cases "most_loaded ps")
    case (Some t)
    let ?ps = "ps[t := (ps ! t)\<lparr>pt_slots := pt_slots (ps ! t) @ [n]\<rparr>]"
    have t: "t < length ps" by (rule most_loaded_less [OF Some])
    have "map pt_members ?ps = map pt_members ps" "map pt_tier ?ps = map pt_tier ps"
      using t by (simp_all add: map_update list_update_same_conv)
    with Suc.IH [OF alloc_ok_give [OF Suc.prems(1) t]] Suc.prems(2) Some show ?thesis by simp
  qed (use Suc.prems in simp)
qed simp

lemma allocate_facts:
  assumes "allocate_slots th doers ps = (ps', n)" "0 < doers"
  shows "map pt_members ps' = map pt_members ps" "map pt_tier ps' = map pt_tier ps"
    "\<forall>p\<in>set ps'. set (pt_slots p) \<subseteq> {..<n} \<and> pt_slots p \<noteq> []"
    "th \<Longrightarrow> distinct (concat (map pt_slots ps'))"
proof -
  let ?base = "map (\<lambda>(k, p). p\<lparr>pt_slots := [k]\<rparr>) (enumerate 0 ps)"
  have "concat (map pt_slots ?base) = [0..<length ps]"
    by (simp add: case_prod_unfold comp_def)
  then have ok: "alloc_ok ?base (length ps)" by (auto simp: alloc_ok_def in_set_enumerate_eq)
  have base: "map pt_members ?base = map pt_members ps" "map pt_tier ?base = map pt_tier ps"
    by (simp_all add: comp_def case_prod_unfold flip: map_map [of _ snd, unfolded comp_def])
  show "map pt_members ps' = map pt_members ps" "map pt_tier ps' = map pt_tier ps"
    "\<forall>p\<in>set ps'. set (pt_slots p) \<subseteq> {..<n} \<and> pt_slots p \<noteq> []"
    "th \<Longrightarrow> distinct (concat (map pt_slots ps'))"
    using assms give_spare_facts [OF ok] base alloc_mixed_facts [of "replicate doers 0" ps]
    by (auto simp: allocate_slots_def alloc_ok_def split: if_splits)
qed

subsection \<open>The global order and the tier partitions\<close>

lemma filter_eq_single: "distinct xs \<Longrightarrow> x \<in> set xs \<Longrightarrow> filter (\<lambda>y. y = x) xs = [x]"
  by (induction xs) (auto simp: filter_empty_conv)

lemma global_order_mset: "distinct (map d_index rem) \<Longrightarrow> mset (global_order rem) = mset rem"
proof (induction rem rule: global_order.induct)
  case (1 rem)
  show ?case
  proof (cases "rem = []")
    case False
    let ?n = "next_desc rem"
    have mem: "?n \<in> set rem" by (rule next_desc_mem [OF False])
    have "filter (\<lambda>d. d_index d = d_index ?n) rem = filter (\<lambda>d. d = ?n) rem"
      using 1(2) mem by (intro filter_cong) (auto simp: distinct_map inj_on_def)
    moreover have "filter (\<lambda>d. d = ?n) rem = [?n]" using 1(2) mem by (intro filter_eq_single) (auto simp: distinct_map)
    ultimately have "mset (filter (\<lambda>d. d_index d = d_index ?n) rem) = {#?n#}" by (simp del: mset_filter)
    then have "mset (filter (\<lambda>d. d_index d \<noteq> d_index ?n) rem) + {#?n#} = mset rem"
      using multiset_partition [of "mset rem" "\<lambda>d. d_index d = d_index ?n"] by (simp add: add.commute)
    moreover have "distinct (map d_index (filter (\<lambda>d. d_index d \<noteq> d_index ?n) rem))" using 1(2) by (rule distinct_map_filter)
    ultimately show ?thesis using 1(1) [OF False] False by (subst global_order.simps) simp
  qed (simp add: global_order.simps)
qed

lemma tier_keys_facts: "distinct (tier_keys ds) \<and> set (tier_keys ds) = d_tier ` set ds"
proof -
  have "distinct ks \<Longrightarrow> distinct (fold (\<lambda>d ks. if d_tier d \<in> set ks then ks else ks @ [d_tier d]) ds ks) \<and>
      set (fold (\<lambda>d ks. if d_tier d \<in> set ks then ks else ks @ [d_tier d]) ds ks) = set ks \<union> d_tier ` set ds" for ks
    by (induction ds arbitrary: ks) auto
  from this [of "[]"] show ?thesis by (simp add: tier_keys_def)
qed

lemma mset_by_keys:
  "distinct ks \<Longrightarrow> f ` set xs \<subseteq> set ks \<Longrightarrow> mset (concat (map (\<lambda>k. filter (\<lambda>x. f x = k) xs) ks)) = mset xs"
proof (induction ks arbitrary: xs)
  case (Cons k ks)
  let ?rest = "filter (\<lambda>x. f x \<noteq> k) xs"
  have "map (\<lambda>k'. filter (\<lambda>x. f x = k') xs) ks = map (\<lambda>k'. filter (\<lambda>x. f x = k') ?rest) ks"
    using Cons.prems(1) by (auto simp: filter_filter intro!: filter_cong)
  moreover have "mset (concat (map (\<lambda>k'. filter (\<lambda>x. f x = k') ?rest) ks)) = mset ?rest"
    by (rule Cons.IH) (use Cons.prems in auto)
  ultimately have "mset (concat (map (\<lambda>k'. filter (\<lambda>x. f x = k') xs) ks)) = mset ?rest" by argo
  then show ?case using multiset_partition [of "mset xs" "\<lambda>x. f x = k"] by simp
qed auto

lemma partitions_mset: "mset (concat (map pt_members (partitions_of ds))) = mset ds"
  using mset_by_keys [of "tier_keys ds" d_tier ds] tier_keys_facts [of ds] by (simp add: partitions_of_def comp_def)

subsection \<open>The packing as a whole\<close>

lemma descs_index: "distinct (map d_index (descs_of streaks))"
  by (simp add: descs_of_def describe_def comp_def)

lemma descs_streak: "map d_streak (descs_of streaks) = streaks"
  by (simp add: descs_of_def describe_def comp_def)

lemma descs_mem: "d \<in> set (descs_of streaks) \<Longrightarrow> d_index d < length streaks \<and> d = describe streaks (d_index d, streaks ! d_index d)"
  by (auto simp: descs_of_def describe_def in_set_enumerate_eq)

lemma map_pair_eq:
  assumes "map f xs = map f ys" "map g xs = map g ys" "\<forall>y\<in>set ys. P (f y) (g y)"
  shows "\<forall>x\<in>set xs. P (f x) (g x)"
proof
  fix x
  assume "x \<in> set xs"
  then obtain i where i: "i < length xs" "x = xs ! i" by (auto simp: in_set_conv_nth)
  moreover have len: "length xs = length ys" using map_eq_imp_length_eq [OF assms(1)] .
  ultimately have "f x = f (ys ! i)" "g x = g (ys ! i)" using assms(1,2) by (metis nth_map)+
  with assms(3) i len show "P (f x) (g x)" by simp
qed

lemma concat_owner:
  "distinct (concat (map f xs)) \<Longrightarrow> p \<in> set xs \<Longrightarrow> q \<in> set xs \<Longrightarrow> k \<in> set (f p) \<Longrightarrow> k \<in> set (f q) \<Longrightarrow> p = q"
  by (induction xs) auto

text \<open>What is known of a packing: the allocation it starts from, and that every streak ends up in one place.\<close>

lemma pack_cases:
  assumes "pack_streaks streaks doers budget th = st" "0 < doers"
  obtains ps n where "st = fold (place_partition budget) ps \<lparr>pk_slots = replicate n \<lparr>sl_items = [], sl_effort = 0\<rparr>, pk_overflow = []\<rparr>"
    "\<forall>p\<in>set ps. set (pt_slots p) \<subseteq> {..<n} \<and> pt_slots p \<noteq> []" "th \<Longrightarrow> distinct (concat (map pt_slots ps))"
    "\<forall>p\<in>set ps. \<forall>d\<in>set (pt_members p). d_tier d = pt_tier p" "mset (pack_all st) = mset (descs_of streaks)"
    "mset (concat (map pt_members ps)) = mset (descs_of streaks)"
proof -
  let ?parts = "partitions_of (global_order (descs_of streaks))"
  obtain ps n where al: "allocate_slots th doers ?parts = (ps, n)" by fastforce
  note f = allocate_facts [OF al assms(2)]
  have "\<forall>p\<in>set ps. \<forall>d\<in>set (pt_members p). d_tier d = pt_tier p"
    by (rule map_pair_eq [OF f(1,2)]) (auto simp: partitions_of_def)
  moreover have m: "mset (concat (map pt_members ps)) = mset (descs_of streaks)"
    using partitions_mset global_order_mset [OF descs_index] by (simp add: f(1))
  moreover have st: "st = fold (place_partition budget) ps \<lparr>pk_slots = replicate n \<lparr>sl_items = [], sl_effort = 0\<rparr>, pk_overflow = []\<rparr>"
    using assms(1) al by (simp add: pack_streaks_def)
  moreover have "mset (pack_all st) = mset (descs_of streaks)"
    unfolding st fold_placements using m by (subst place_all_mset [OF placements_range [OF f(3)]]) (simp_all add: placements_snd)
  ultimately show ?thesis using f(3,4) that by blast
qed

lemma pack_sat:
  assumes "pack_streaks streaks doers budget th = st" "0 < doers" "\<And>k. Q k \<lparr>sl_items = [], sl_effort = 0\<rparr>"
    and "\<And>own d. keeps budget Q own d"
  shows "slots_sat Q st"
proof -
  obtain ps n where st: "st = fold (place_partition budget) ps \<lparr>pk_slots = replicate n \<lparr>sl_items = [], sl_effort = 0\<rparr>, pk_overflow = []\<rparr>"
    "\<forall>p\<in>set ps. set (pt_slots p) \<subseteq> {..<n} \<and> pt_slots p \<noteq> []"
    by (rule pack_cases [OF assms(1,2)])
  show ?thesis unfolding st(1) fold_placements
    by (rule place_all_sat [OF _ placements_range [OF st(2)]]) (use assms(3,4) in \<open>simp_all add: slots_sat_def\<close>)
qed

fun deps_before :: "nat set \<Rightarrow> desc list \<Rightarrow> bool" where
  "deps_before seen [] = True"
| "deps_before seen (d # ds) = (set (d_deps d) \<subseteq> seen \<and> deps_before (insert (d_index d) seen) ds)"

lemma deps_before_snoc: "deps_before S (xs @ [d]) \<longleftrightarrow> deps_before S xs \<and> set (d_deps d) \<subseteq> S \<union> d_index ` set xs"
  by (induction xs arbitrary: S) auto

lemma deps_before_nth: "deps_before S xs \<Longrightarrow> i < length xs \<Longrightarrow> set (d_deps (xs ! i)) \<subseteq> S \<union> d_index ` set (take i xs)"
proof (induction xs arbitrary: S i)
  case (Cons d ds)
  then show ?case by (cases i) fastforce+
qed simp

definition in_budget :: "rat option \<Rightarrow> nat \<Rightarrow> bool" where
  "in_budget budget e \<longleftrightarrow> (case budget of None \<Rightarrow> True | Some b \<Rightarrow> of_nat e \<le> b)"

lemma fits_budget: "fits budget sl d \<longleftrightarrow> sl_items sl = [] \<or> in_budget budget (sl_effort sl + d_effort d)"
  by (simp add: fits_def in_budget_def)

lemma pack_deps: "pack_streaks streaks doers budget th = st \<Longrightarrow> 0 < doers \<Longrightarrow> slots_sat (\<lambda>k sl. deps_before {} (sl_items sl)) st"
  by (erule (1) pack_sat) (auto simp: keeps_def append_item_def deps_before_snoc)

lemma pack_budget:
  "pack_streaks streaks doers budget th = st \<Longrightarrow> 0 < doers \<Longrightarrow>
     slots_sat (\<lambda>k sl. sl_effort sl = sum_list (map d_effort (sl_items sl)) \<and> (length (sl_items sl) \<le> 1 \<or> in_budget budget (sl_effort sl))) st"
  by (erule (1) pack_sat) (auto simp: keeps_def append_item_def fits_budget)

lemma pack_tiers:
  assumes "pack_streaks streaks doers budget True = st" "0 < doers"
  shows "slots_sat (\<lambda>k sl. \<exists>t. \<forall>d\<in>set (sl_items sl). d_tier d = t) st"
proof -
  obtain ps n where st: "st = fold (place_partition budget) ps \<lparr>pk_slots = replicate n \<lparr>sl_items = [], sl_effort = 0\<rparr>, pk_overflow = []\<rparr>"
    "\<forall>p\<in>set ps. set (pt_slots p) \<subseteq> {..<n} \<and> pt_slots p \<noteq> []" "distinct (concat (map pt_slots ps))"
    "\<forall>p\<in>set ps. \<forall>d\<in>set (pt_members p). d_tier d = pt_tier p"
    by (rule pack_cases [OF assms]) simp
  have "slots_sat (\<lambda>k sl. \<forall>x\<in>set (sl_items sl). \<exists>p\<in>set ps. k \<in> set (pt_slots p) \<and> d_tier x = pt_tier p) st"
    unfolding st(1) fold_placements
  proof (rule place_all_sat [OF _ placements_range [OF st(2)]])
    show "\<forall>q\<in>set (placements ps). keeps budget (\<lambda>k sl. \<forall>x\<in>set (sl_items sl). \<exists>p\<in>set ps. k \<in> set (pt_slots p) \<and> d_tier x = pt_tier p) (fst q) (snd q)"
    proof
      fix q
      assume "q \<in> set (placements ps)"
      then obtain p where "p \<in> set ps" "fst q = pt_slots p" "snd q \<in> set (pt_members p)" by (auto simp: placements_mem)
      with st(4) show "keeps budget (\<lambda>k sl. \<forall>x\<in>set (sl_items sl). \<exists>p\<in>set ps. k \<in> set (pt_slots p) \<and> d_tier x = pt_tier p) (fst q) (snd q)"
        by (auto simp: keeps_def append_item_def)
    qed
  qed (simp_all add: slots_sat_def)
  then have own: "\<exists>p\<in>set ps. k \<in> set (pt_slots p) \<and> d_tier x = pt_tier p" if "k < length (pk_slots st)" "x \<in> set (sl_items (pk_slots st ! k))" for k x
    using that by (auto simp: slots_sat_def)
  show ?thesis unfolding slots_sat_def
  proof (intro allI impI)
    fix k
    assume k: "k < length (pk_slots st)"
    have "d_tier x = d_tier y" if "x \<in> set (sl_items (pk_slots st ! k))" "y \<in> set (sl_items (pk_slots st ! k))" for x y
      using own [OF k that(1)] own [OF k that(2)] concat_owner [OF st(3)] by force
    then show "\<exists>t. \<forall>d\<in>set (sl_items (pk_slots st ! k)). d_tier d = t" by blast
  qed
qed

lemma mset_concat_filter: "mset (concat (filter (\<lambda>x. x \<noteq> []) xss)) = mset (concat xss)"
  by (induction xss) auto

lemma assign_packed:
  assumes "as_packed (assignDoerWorklists streaks n budget th)"
  obtains st where "pack_streaks streaks (nat n) (effort_budget budget) th = st" "0 < nat n"
    "as_worklists (assignDoerWorklists streaks n budget th) = map (\<lambda>sl. map d_streak (sl_items sl)) (filter (\<lambda>sl. sl_items sl \<noteq> []) (pk_slots st))"
    "as_overflow (assignDoerWorklists streaks n budget th) = map d_streak (pk_overflow st)"
  using assms by (auto simp: assignDoerWorklists_def Let_def split: if_splits)

definition demo_bead :: "string \<Rightarrow> string \<Rightarrow> string list \<Rightarrow> jsval" where
  "demo_bead i model deps =
     JObj [(''id'', JStr i), (''metadata'', JObj [(''model'', JStr model), (''size'', JStr ''L''), (''streak'', JStr model)]),
           (''dependencies'', JArr (map JStr deps))]"

definition demo_streaks :: "jsval list list" where
  "demo_streaks = [[demo_bead ''b'' ''cheap'' [''a'']], [demo_bead ''a'' ''cheap'' []], [demo_bead ''c'' ''premium'' []]]"

lemma demo_packed:
  "as_packed (assignDoerWorklists demo_streaks 2 JUndef True)"
  "as_worklists (assignDoerWorklists demo_streaks 2 JUndef True) =
     [[[demo_bead ''a'' ''cheap'' []], [demo_bead ''b'' ''cheap'' [''a'']]], [[demo_bead ''c'' ''premium'' []]]]"
  by code_simp+

text \<open>
  Property C35. Packing loses no work. For any positive number of doers every streak of the round is in exactly one
  worklist or put off to the next round, as often as it was given, and no worklist is empty.
\<close>

theorem worklists_conserve:
  assumes "1 \<le> n"
  shows "mset (concat (as_worklists (assignDoerWorklists streaks n budget th)) @ as_overflow (assignDoerWorklists streaks n budget th))
      = mset streaks \<and> [] \<notin> set (as_worklists (assignDoerWorklists streaks n budget th))"
proof (cases "as_packed (assignDoerWorklists streaks n budget th)")
  case False
  then show ?thesis using assms by (auto simp: assignDoerWorklists_def Let_def mset_concat_map split: if_splits)
next
  case True
  then obtain st where st: "pack_streaks streaks (nat n) (effort_budget budget) th = st" "0 < nat n"
    "as_worklists (assignDoerWorklists streaks n budget th) = map (\<lambda>sl. map d_streak (sl_items sl)) (filter (\<lambda>sl. sl_items sl \<noteq> []) (pk_slots st))"
    "as_overflow (assignDoerWorklists streaks n budget th) = map d_streak (pk_overflow st)"
    by (rule assign_packed)
  have "mset (pack_all st) = mset (descs_of streaks)" by (rule pack_cases [OF st(1,2)])
  then have w: "mset (map d_streak (pack_all st)) = mset streaks" by (metis descs_streak mset_map)
  have c: "mset (concat (map (\<lambda>sl. map d_streak (sl_items sl)) (filter (\<lambda>sl. sl_items sl \<noteq> []) slots))) =
      mset (map d_streak (concat (map sl_items slots)))" for slots
    by (induction slots) auto
  show ?thesis unfolding st(3,4) mset_append c using w by auto
qed

theorem worklists_conserve_witness:
  "as_packed (assignDoerWorklists demo_streaks 2 JUndef True) \<and>
   mset (concat (as_worklists (assignDoerWorklists demo_streaks 2 JUndef True)) @ as_overflow (assignDoerWorklists demo_streaks 2 JUndef True))
     = mset demo_streaks"
  using worklists_conserve [of 2 demo_streaks JUndef True] demo_packed(1) by simp

lemma owner_unique:
  assumes "distinct (concat (map streak_ids streaks))" "k < length streaks" "x \<in> set (streak_ids (streaks ! k))"
  shows "owner_index streaks x = Some k"
proof -
  have uniq: "j = k" if "j < length streaks" "x \<in> set (streak_ids (streaks ! j))" for j
    using assms that
  proof (induction streaks arbitrary: j k)
    case (Cons s ss)
    then show ?case by (cases j; cases k) (fastforce dest: nth_mem)+
  qed simp
  obtain p where p: "find (\<lambda>p. x \<in> set (streak_ids (snd p))) (rev (enumerate 0 streaks)) = Some p"
  proof (cases "find (\<lambda>p. x \<in> set (streak_ids (snd p))) (rev (enumerate 0 streaks))")
    case None
    then have "\<forall>p\<in>set (enumerate 0 streaks). x \<notin> set (streak_ids (snd p))" by (auto simp: find_None_iff)
    moreover have "(k, streaks ! k) \<in> set (enumerate 0 streaks)" using assms(2) by (simp add: in_set_enumerate_eq)
    ultimately show ?thesis using assms(3) by fastforce
  qed (use that in blast)
  then have "p \<in> set (enumerate 0 streaks)" "x \<in> set (streak_ids (snd p))"
    by (metis (mono_tags, lifting) find_Some_iff nth_mem set_rev)+
  then have "fst p = k" using uniq [of "fst p"] by (auto simp: in_set_enumerate_eq)
  with p show ?thesis by (simp add: owner_index_def)
qed

text \<open>
  Property C36. Dependencies between streaks are never violated. When more streaks than doers are packed and no bead is
  in two streaks, a streak that depends on a bead of another streak of the round is in a worklist only behind that
  streak in the same worklist.
\<close>

theorem worklists_respect_dependencies:
  assumes "as_packed (assignDoerWorklists streaks n budget th)" "distinct (concat (map streak_ids streaks))"
    and "w \<in> set (as_worklists (assignDoerWorklists streaks n budget th))" "i < length w"
    and "b \<in> set (w ! i)" "x \<in> set (beadBlocksDependencyIds b)"
    and "s \<in> set streaks" "x \<in> set (streak_ids s)" "s \<noteq> w ! i"
  shows "s \<in> set (take i w)"
proof -
  obtain st where st: "pack_streaks streaks (nat n) (effort_budget budget) th = st" "0 < nat n"
    "as_worklists (assignDoerWorklists streaks n budget th) = map (\<lambda>sl. map d_streak (sl_items sl)) (filter (\<lambda>sl. sl_items sl \<noteq> []) (pk_slots st))"
    using assign_packed [OF assms(1)] by metis
  from assms(3) obtain sl where sl: "sl \<in> set (pk_slots st)" "w = map d_streak (sl_items sl)" by (auto simp: st(3))
  have all: "mset (pack_all st) = mset (descs_of streaks)" by (rule pack_cases [OF st(1,2)])
  have desc: "d \<in> set (descs_of streaks)" if "d \<in> set (sl_items sl)" for d
    using that sl(1) mset_eq_setD [OF all] by fastforce
  let ?d = "sl_items sl ! i"
  have d: "?d \<in> set (descs_of streaks)" using assms(4) sl(2) by (intro desc) simp
  note dd = descs_mem [OF d]
  have ds: "d_streak ?d = w ! i" using assms(4) sl(2) by simp
  from assms(7) obtain k where k: "k < length streaks" "s = streaks ! k" by (auto simp: in_set_conv_nth)
  have "streaks ! d_index ?d = w ! i" using dd ds by (metis describe_def desc.select_convs(1) snd_conv)
  then have "k \<noteq> d_index ?d" using k(2) assms(9) by auto
  moreover have "owner_index streaks x = Some k" by (rule owner_unique [OF assms(2) k(1)]) (use assms(8) k(2) in simp)
  ultimately have "k \<in> set (dep_indexes streaks (d_index ?d) (w ! i))"
    using assms(5,6) unfolding dep_indexes_def by force
  then have "k \<in> set (d_deps ?d)" using dd \<open>streaks ! d_index ?d = w ! i\<close>
    by (metis describe_def desc.select_convs(7) fst_conv snd_conv)
  moreover have "deps_before {} (sl_items sl)"
    using pack_deps [OF st(1,2)] sl(1) by (auto simp: slots_sat_def in_set_conv_nth)
  ultimately have "k \<in> d_index ` set (take i (sl_items sl))"
    using deps_before_nth [of "{}" "sl_items sl" i] assms(4) sl(2) by auto
  then obtain e where e: "e \<in> set (take i (sl_items sl))" "d_index e = k" by auto
  then have "e \<in> set (descs_of streaks)" by (meson desc in_set_takeD)
  from descs_mem [OF this] e(2) k(2) have "d_streak e = s" by (metis describe_def desc.select_convs(1) snd_conv)
  with e(1) show ?thesis by (auto simp: sl(2) take_map)
qed

theorem worklists_respect_dependencies_witness:
  "[demo_bead ''a'' ''cheap'' []] \<in> set (take 1 [[demo_bead ''a'' ''cheap'' []], [demo_bead ''b'' ''cheap'' [''a'']]])"
proof (rule worklists_respect_dependencies [OF demo_packed(1), of _ 1 "demo_bead ''b'' ''cheap'' [''a'']" "''a''"])
  show "distinct (concat (map streak_ids demo_streaks))" by code_simp
  show "[[demo_bead ''a'' ''cheap'' []], [demo_bead ''b'' ''cheap'' [''a'']]] \<in> set (as_worklists (assignDoerWorklists demo_streaks 2 JUndef True))"
    by (simp add: demo_packed(2))
  show "''a'' \<in> set (beadBlocksDependencyIds (demo_bead ''b'' ''cheap'' [''a'']))" by code_simp
  show "''a'' \<in> set (streak_ids [demo_bead ''a'' ''cheap'' []])" by code_simp
  show "[demo_bead ''a'' ''cheap'' []] \<noteq> [[demo_bead ''a'' ''cheap'' []], [demo_bead ''b'' ''cheap'' [''a'']]] ! 1"
    by (simp add: demo_bead_def)
qed (simp_all add: demo_streaks_def)

text \<open>
  A worklist stays within its budget and its tier. When streaks are packed, a worklist of more than one
  streak has at most the budgeted effort in total, and under the homogeneous policy all its streaks need the same tier.
\<close>

theorem worklists_budget_and_tier:
  assumes "as_packed (assignDoerWorklists streaks n budget th)"
    and "w \<in> set (as_worklists (assignDoerWorklists streaks n budget th))"
  shows "(length w = 1 \<or> in_budget (effort_budget budget) (sum_list (map streakEffortPoints w))) \<and>
    (th \<longrightarrow> (\<exists>t. set (map tier_key w) = {t}))"
proof -
  obtain st where st: "pack_streaks streaks (nat n) (effort_budget budget) th = st" "0 < nat n"
    "as_worklists (assignDoerWorklists streaks n budget th) = map (\<lambda>sl. map d_streak (sl_items sl)) (filter (\<lambda>sl. sl_items sl \<noteq> []) (pk_slots st))"
    using assign_packed [OF assms(1)] by metis
  from assms(2) obtain sl where sl: "sl \<in> set (pk_slots st)" "w = map d_streak (sl_items sl)" "sl_items sl \<noteq> []" by (auto simp: st(3))
  have all: "mset (pack_all st) = mset (descs_of streaks)" by (rule pack_cases [OF st(1,2)])
  have desc: "d_effort d = streakEffortPoints (d_streak d) \<and> d_tier d = tier_key (d_streak d)" if "d \<in> set (sl_items sl)" for d
  proof -
    have "d \<in> set (descs_of streaks)" using that sl(1) mset_eq_setD [OF all] by fastforce
    from descs_mem [OF this] show ?thesis by (metis describe_def desc.select_convs(1,4,5))
  qed
  have "sl_effort sl = sum_list (map d_effort (sl_items sl))" "length (sl_items sl) \<le> 1 \<or> in_budget (effort_budget budget) (sl_effort sl)"
    using pack_budget [OF st(1,2)] sl(1) by (auto simp: slots_sat_def in_set_conv_nth)
  moreover have "map d_effort (sl_items sl) = map streakEffortPoints w" using desc by (simp add: sl(2))
  moreover have "length w \<noteq> 0" using sl by simp
  ultimately have "length w = 1 \<or> in_budget (effort_budget budget) (sum_list (map streakEffortPoints w))" by (simp add: sl(2) le_Suc_eq)
  moreover have "\<exists>t. set (map tier_key w) = {t}" if th
  proof -
    have "pack_streaks streaks (nat n) (effort_budget budget) True = st" using st(1) that by simp
    from pack_tiers [OF this st(2)] sl(1) obtain t where "\<forall>d\<in>set (sl_items sl). d_tier d = t"
      by (auto simp: slots_sat_def in_set_conv_nth)
    then have "set (map tier_key w) \<subseteq> {t}" using desc by (auto simp: sl(2))
    then show ?thesis using sl by (intro exI [of _ t]) (auto simp: subset_singleton_iff)
  qed
  ultimately show ?thesis by blast
qed

theorem worklists_budget_and_tier_witness:
  "\<exists>t. set (map tier_key [[demo_bead ''a'' ''cheap'' []], [demo_bead ''b'' ''cheap'' [''a'']]]) = {t}"
  using worklists_budget_and_tier [OF demo_packed(1), of "[[demo_bead ''a'' ''cheap'' []], [demo_bead ''b'' ''cheap'' [''a'']]]"]
  by (simp add: demo_packed(2))

text \<open>
  A round makes progress: whatever the budget and the tiers, if some streak depends on no other streak of
  the round, at least one streak is dispatched.
\<close>

theorem worklists_progress:
  assumes "1 \<le> n" "k < length streaks" "dep_indexes streaks k (streaks ! k) = []"
  shows "as_worklists (assignDoerWorklists streaks n budget th) \<noteq> []"
proof (cases "as_packed (assignDoerWorklists streaks n budget th)")
  case False
  then show ?thesis using assms(1,2) by (auto simp: assignDoerWorklists_def Let_def split: if_splits)
next
  case True
  then obtain st where st: "pack_streaks streaks (nat n) (effort_budget budget) th = st" "0 < nat n"
    "as_worklists (assignDoerWorklists streaks n budget th) = map (\<lambda>sl. map d_streak (sl_items sl)) (filter (\<lambda>sl. sl_items sl \<noteq> []) (pk_slots st))"
    by (rule assign_packed)
  obtain ps m where ps: "st = fold (place_partition (effort_budget budget)) ps \<lparr>pk_slots = replicate m \<lparr>sl_items = [], sl_effort = 0\<rparr>, pk_overflow = []\<rparr>"
    "\<forall>p\<in>set ps. set (pt_slots p) \<subseteq> {..<m} \<and> pt_slots p \<noteq> []" "mset (concat (map pt_members ps)) = mset (descs_of streaks)"
    by (rule pack_cases [OF st(1,2)])
  let ?d = "describe streaks (k, streaks ! k)"
  have "(k, streaks ! k) \<in> set (enumerate 0 streaks)" using assms(2) by (simp add: in_set_enumerate_eq)
  then have "?d \<in> set (descs_of streaks)" by (auto simp: descs_of_def)
  then have "?d \<in> set (concat (map pt_members ps))" using mset_eq_setD [OF ps(3)] by simp
  then obtain p where p: "p \<in> set ps" "?d \<in> set (pt_members p)" by auto
  then have "(pt_slots p, ?d) \<in> set (placements ps)" by (auto simp: placements_mem)
  moreover have "d_deps ?d = []" "pt_slots p \<noteq> []" using assms(3) ps(2) p(1) by (simp_all add: describe_def)
  ultimately have "\<exists>q\<in>set (placements ps). d_deps (snd q) = [] \<and> fst q \<noteq> []" by force
  then have "started st" unfolding ps(1) fold_placements by (intro place_all_started placements_range [OF ps(2)]) simp_all
  then show ?thesis by (auto simp: st(3) started_def filter_empty_conv)
qed

theorem worklists_progress_witness: "as_worklists (assignDoerWorklists demo_streaks 2 (JInt 1) False) \<noteq> []"
proof (rule worklists_progress [of 2 1])
  show "dep_indexes demo_streaks 1 (demo_streaks ! 1) = []" by code_simp
qed (simp_all add: demo_streaks_def)

subsection \<open>Two readings of a dependency\<close>

text \<open>
  \<^verbatim>\<open>beadBlocksDependencyIds\<close> looks for the kind of a dependency under \<^verbatim>\<open>dependency_type\<close> only, \<^verbatim>\<open>blocksPrereqIds\<close> under
  \<^verbatim>\<open>type\<close> too. In the shape with \<^verbatim>\<open>type\<close>, an edge of any kind orders streaks as if it were a blocks edge.
\<close>

lemma untyped_dependency_blocks:
  assumes "x \<noteq> []" "k \<noteq> ''blocks''"
  shows "beadBlocksDependencyIds (JObj [(''dependencies'', JArr [JObj [(''depends_on_id'', JStr x), (''type'', JStr k)]])]) = [x] \<and>
    blocksPrereqIds (JObj [(''dependencies'', JArr [JObj [(''depends_on_id'', JStr x), (''type'', JStr k)]])]) = []"
  using assms by (simp add: beadBlocksDependencyIds_def blocksPrereqIds_def blocks_dep_def blocks_prereq_def rows_of_def
      jfield_def coalesce_def)

end
