(* ===== verification/Usage_Limit.thy ===== *)
theory Usage_Limit
  imports JS_Prelude
begin

section \<open>The usage-limit pause\<close>

text \<open>
  \<^verbatim>\<open>packages/apra-fleet-se/fleet-sprint/usage-limit-controller.mjs\<close> with its budgets from \<^verbatim>\<open>role-policies.mjs\<close>: when a
  provider reports a usage limit, the sprint is paused, a timer waited for, the sprint resumed and the member probed,
  until the probe does not report the limit any more or a budget is used up.

  The engine's \<^verbatim>\<open>requestPause\<close> and \<^verbatim>\<open>requestResume\<close>, the clock and the agent are parameters, functions of the round. A
  time in milliseconds is an \<open>int option\<close>, \<open>None\<close> being \<^verbatim>\<open>NaN\<close> (what \<^verbatim>\<open>getTime\<close> answers for an unreadable date).
\<close>

subsection \<open>Data\<close>

text \<open>The part of the provider's signal the loop reads: the time, a non-empty string or nothing.\<close>

record ul_signal =
  us_resumeAt :: "string option"

datatype probe_outcome =
    ProbeOk
  | ProbeCancelled
  | ProbeLimit "ul_signal option"
  | ProbeOther

record ul_budgets =
  ub_maxWaitMs :: int
  ub_maxReprobes :: int
  ub_minWaitMs :: int
  ub_ladder :: "int list"

definition USAGE_LIMIT_BUDGET_DEFAULTS :: ul_budgets where
  "USAGE_LIMIT_BUDGET_DEFAULTS =
     \<lparr>ub_maxWaitMs = 6 * 60 * 60 * 1000, ub_maxReprobes = 6, ub_minWaitMs = 60 * 1000,
      ub_ladder = map (\<lambda>m. m * 60 * 1000) [15, 30, 60, 60, 60, 60]\<rparr>"

record ul_env =
  ul_now :: "nat \<Rightarrow> int"
  ul_date :: "string \<Rightarrow> int option"
  ul_pause :: "nat \<Rightarrow> js_error option"
  ul_resume :: "nat \<Rightarrow> js_error option"
  ul_probe :: "nat \<Rightarrow> probe_outcome"

text \<open>What the loop does to the outside, in order.\<close>

datatype ul_event = UPause "string option" | USleep "int option" | UResume | UProbe

datatype ul_result =
    UResumed
  | UExhausted "string option" int "int option"
  | UThrew "js_error option"

subsection \<open>The loop\<close>

definition nan_min :: "int option \<Rightarrow> int option \<Rightarrow> int option" where
  "nan_min a b = (case (a, b) of (Some x, Some y) \<Rightarrow> Some (min x y) | _ \<Rightarrow> None)"

definition nan_max :: "int option \<Rightarrow> int option \<Rightarrow> int option" where
  "nan_max a b = (case (a, b) of (Some x, Some y) \<Rightarrow> Some (max x y) | _ \<Rightarrow> None)"

definition nan_add :: "int option \<Rightarrow> int option \<Rightarrow> int option" where
  "nan_add a b = (case (a, b) of (Some x, Some y) \<Rightarrow> Some (x + y) | _ \<Rightarrow> None)"

text \<open>The state of the loop: the signal that drives the next pause, the reprobes so far, the time waited, the last time reported.\<close>

record ul_state =
  ul_signal :: "ul_signal option"
  ul_reprobes :: int
  ul_waited :: "int option"
  ul_last :: "string option"

definition signal_time :: "ul_signal option \<Rightarrow> string option" where
  "signal_time s = (case s of None \<Rightarrow> None | Some g \<Rightarrow> us_resumeAt g)"

definition ladder_at :: "int list \<Rightarrow> int \<Rightarrow> int option" where
  "ladder_at ladder k =
     (let i = min k (int (length ladder) - 1) in if i < 0 \<or> ladder = [] then None else Some (ladder ! nat i))"

definition target_ms :: "ul_budgets \<Rightarrow> ul_env \<Rightarrow> nat \<Rightarrow> ul_state \<Rightarrow> int option" where
  "target_ms bud env n st =
     (case signal_time (ul_signal st) of
        Some t \<Rightarrow> map_option (\<lambda>d. d - ul_now env n) (ul_date env t)
      | None \<Rightarrow> ladder_at (ub_ladder bud) (ul_reprobes st))"

definition wait_ms :: "ul_budgets \<Rightarrow> ul_env \<Rightarrow> nat \<Rightarrow> ul_state \<Rightarrow> int option" where
  "wait_ms bud env n st =
     nan_min (nan_max (target_ms bud env n st) (Some (ub_minWaitMs bud)))
       (map_option (\<lambda>w. ub_maxWaitMs bud - w) (ul_waited st))"

definition note_time :: "ul_state \<Rightarrow> ul_state" where
  "note_time st = (case signal_time (ul_signal st) of Some t \<Rightarrow> st\<lparr>ul_last := Some t\<rparr> | None \<Rightarrow> st)"

definition exhausted :: "ul_state \<Rightarrow> ul_result" where
  "exhausted st = UExhausted (ul_last st) (ul_reprobes st) (ul_waited st)"

text \<open>One round after the budget check: pause, sleep, resume, probe. \<open>Inl\<close> ends the loop.\<close>

definition ul_round :: "ul_budgets \<Rightarrow> ul_env \<Rightarrow> nat \<Rightarrow> ul_state \<Rightarrow> (ul_result + ul_state) \<times> ul_event list" where
  "ul_round bud env n st0 =
     (let w = wait_ms bud env n st0; st = note_time st0 in
      case ul_pause env n of
        Some e \<Rightarrow> (Inl (UThrew (Some e)), [UPause (ul_last st)])
      | None \<Rightarrow>
          let st1 = st\<lparr>ul_waited := nan_add (ul_waited st) w\<rparr>;
              before = [UPause (ul_last st), USleep w, UResume]
          in case ul_resume env n of
               Some e \<Rightarrow> (Inl (UThrew (Some e)), before)
             | None \<Rightarrow>
                 (case ul_probe env n of
                    ProbeOk \<Rightarrow> (Inl UResumed, before @ [UProbe])
                  | ProbeCancelled \<Rightarrow> (Inl (UThrew None), before @ [UProbe])
                  | ProbeOther \<Rightarrow> (Inl UResumed, before @ [UProbe])
                  | ProbeLimit s \<Rightarrow>
                      let st2 = st1\<lparr>ul_signal := s, ul_reprobes := ul_reprobes st1 + 1\<rparr>
                      in (if ul_reprobes st2 > ub_maxReprobes bud \<or>
                             (case ul_waited st2 of None \<Rightarrow> False | Some x \<Rightarrow> x \<ge> ub_maxWaitMs bud)
                          then Inl (exhausted st2) else Inr st2, before @ [UProbe])))"

lemma ul_round_Inr:
  "ul_round bud env n st = (Inr st', tr) \<Longrightarrow>
     ul_reprobes st' = ul_reprobes st + 1 \<and> ul_reprobes st' \<le> ub_maxReprobes bud"
  by (auto simp: ul_round_def note_time_def Let_def split: option.splits probe_outcome.splits if_splits)

function ul_loop :: "ul_budgets \<Rightarrow> ul_env \<Rightarrow> nat \<Rightarrow> ul_state \<Rightarrow> ul_result \<times> ul_event list" where
  "ul_loop bud env n st =
     (if (case ul_waited st of None \<Rightarrow> False | Some w \<Rightarrow> ub_maxWaitMs bud - w \<le> 0) then (exhausted st, [])
      else case ul_round bud env n st of
             (Inl r, tr) \<Rightarrow> (r, tr)
           | (Inr st', tr) \<Rightarrow> (case ul_loop bud env (Suc n) st' of (r, tr') \<Rightarrow> (r, tr @ tr')))"
  by pat_completeness auto

termination
  by (relation "measure (\<lambda>(bud, env, n, st). nat (ub_maxReprobes bud + 1 - ul_reprobes st))")
    (auto dest: sym [THEN ul_round_Inr])

declare ul_loop.simps [simp del]

definition onUsageLimit :: "ul_budgets \<Rightarrow> ul_env \<Rightarrow> ul_signal option \<Rightarrow> ul_result \<times> ul_event list" where
  "onUsageLimit bud env signal =
     ul_loop bud env 0 \<lparr>ul_signal = signal, ul_reprobes = 0, ul_waited = Some 0, ul_last = signal_time signal\<rparr>"

subsection \<open>Bounds\<close>

definition sleeps :: "ul_event list \<Rightarrow> int option list" where
  "sleeps tr = concat (map (\<lambda>e. case e of USleep w \<Rightarrow> [w] | _ \<Rightarrow> []) tr)"

definition total_sleep :: "ul_event list \<Rightarrow> int" where
  "total_sleep tr = sum_list (map (\<lambda>w. case w of None \<Rightarrow> 0 | Some x \<Rightarrow> x) (sleeps tr))"

lemma sleeps_append [simp]: "sleeps (xs @ ys) = sleeps xs @ sleeps ys"
  by (simp add: sleeps_def)

lemma total_sleep_append [simp]: "total_sleep (xs @ ys) = total_sleep xs + total_sleep ys"
  by (simp add: total_sleep_def)

definition probes :: "ul_event list \<Rightarrow> int" where
  "probes tr = int (length (filter (\<lambda>e. e = UProbe) tr))"

lemma probes_append [simp]: "probes (xs @ ys) = probes xs + probes ys"
  by (simp add: probes_def)

text \<open>The budgets are sane and the state is one the loop reaches.\<close>

definition ul_ok :: "ul_budgets \<Rightarrow> ul_state \<Rightarrow> bool" where
  "ul_ok bud st \<longleftrightarrow> 0 \<le> ub_minWaitMs bud \<and> (\<forall>W. ul_waited st = Some W \<longrightarrow> 0 \<le> W \<and> W \<le> ub_maxWaitMs bud) \<and>
     0 \<le> ul_reprobes st \<and> ul_reprobes st \<le> ub_maxReprobes bud"

text \<open>
  The waits of a run that has waited \<open>W\<close> so far: each fits into what is left of the budget and is at least the
  least wait unless it ends the budget, up to the first one that is not a number; after that none is.
\<close>

fun waits_ok :: "ul_budgets \<Rightarrow> int option \<Rightarrow> int option list \<Rightarrow> bool" where
  "waits_ok bud W [] = True"
| "waits_ok bud None (w # ws) = (w = None \<and> waits_ok bud None ws)"
| "waits_ok bud (Some W) (None # ws) = waits_ok bud None ws"
| "waits_ok bud (Some W) (Some x # ws) =
     (0 \<le> x \<and> W + x \<le> ub_maxWaitMs bud \<and> (ub_minWaitMs bud \<le> x \<or> W + x = ub_maxWaitMs bud) \<and> waits_ok bud (Some (W + x)) ws)"

lemma nan_add_simps [simp]: "nan_add None b = None" "nan_add a None = None" "nan_add (Some x) (Some y) = Some (x + y)"
  by (simp_all add: nan_add_def split: option.split)

lemma waits_ok_append: "waits_ok bud W (xs @ ys) \<longleftrightarrow> waits_ok bud W xs \<and> waits_ok bud (foldl nan_add W xs) ys"
  by (induction bud W xs rule: waits_ok.induct) auto

lemma foldl_nan_None [simp]: "foldl nan_add None ws = None"
  by (induction ws) simp_all

lemma foldl_nan_total:
  "foldl nan_add (Some W) ws =
     (if None \<in> set ws then None else Some (W + sum_list (map (\<lambda>w. case w of None \<Rightarrow> 0 | Some x \<Rightarrow> x) ws)))"
  by (induction ws arbitrary: W) (auto split: option.split)

lemma waits_ok_total:
  "waits_ok bud W ws \<Longrightarrow> (case W of None \<Rightarrow> True | Some x \<Rightarrow> x \<le> ub_maxWaitMs bud) \<Longrightarrow>
     (case W of None \<Rightarrow> 0 | Some x \<Rightarrow> x) + sum_list (map (\<lambda>w. case w of None \<Rightarrow> 0 | Some x \<Rightarrow> x) ws)
       \<le> (case W of None \<Rightarrow> 0 | Some _ \<Rightarrow> ub_maxWaitMs bud)"
  by (induction bud W ws rule: waits_ok.induct) (auto split: option.splits)

text \<open>A wait is in order whether or not the reported time can be read.\<close>

lemma wait_ms_ok:
  assumes "ul_ok bud st" "\<forall>W. ul_waited st = Some W \<longrightarrow> W < ub_maxWaitMs bud"
  shows "waits_ok bud (ul_waited st) [wait_ms bud env n st]"
  using assms by (cases "ul_waited st"; cases "target_ms bud env n st")
    (auto simp: wait_ms_def nan_min_def nan_max_def ul_ok_def)

lemma trace_simps [simp]:
  "sleeps [] = []" "sleeps (UPause l # tr) = sleeps tr" "sleeps (USleep w # tr) = w # sleeps tr" "sleeps (UResume # tr) = sleeps tr"
  "sleeps (UProbe # tr) = sleeps tr" "total_sleep [] = 0" "total_sleep (UPause l # tr) = total_sleep tr"
  "total_sleep (USleep (Some x) # tr) = x + total_sleep tr" "total_sleep (UResume # tr) = total_sleep tr"
  "total_sleep (UProbe # tr) = total_sleep tr" "probes [] = 0" "probes (UProbe # tr) = 1 + probes tr"
  "e \<noteq> UProbe \<Longrightarrow> probes (e # tr) = probes tr"
  by (simp_all add: sleeps_def total_sleep_def probes_def)

text \<open>The ways a round can go.\<close>

lemma ul_round_cases:
  assumes "ul_round bud env n st = (out, tr)" "wait_ms bud env n st = w" "note_time st = st1"
  obtains (pause) e where "out = Inl (UThrew e)" "tr = [UPause (ul_last st1)]"
  | (resume) e where "out = Inl (UThrew e)" "tr = [UPause (ul_last st1), USleep w, UResume]"
  | (ended) "out = Inl UResumed \<or> out = Inl (UThrew None)" "tr = [UPause (ul_last st1), USleep w, UResume, UProbe]"
  | (limited) s st2 where "st2 = st1\<lparr>ul_waited := nan_add (ul_waited st1) w, ul_signal := s, ul_reprobes := ul_reprobes st1 + 1\<rparr>"
      "tr = [UPause (ul_last st1), USleep w, UResume, UProbe]"
      "out = (if ul_reprobes st2 > ub_maxReprobes bud \<or> (case ul_waited st2 of None \<Rightarrow> False | Some x \<Rightarrow> x \<ge> ub_maxWaitMs bud)
              then Inl (exhausted st2) else Inr st2)"
proof (cases "ul_pause env n = None \<and> ul_resume env n = None")
  case True
  show ?thesis
  proof (cases "ul_probe env n")
    case (ProbeLimit s)
    show ?thesis by (rule limited [where s = s, OF refl]) (use assms True ProbeLimit in \<open>auto simp: ul_round_def Let_def simp del: nan_add_simps\<close>)
  qed (use assms True ended in \<open>simp_all add: ul_round_def Let_def\<close>)
next
  case False
  then show ?thesis using assms pause resume by (auto simp: ul_round_def Let_def split: option.splits)
qed

lemma note_time_keeps [simp]:
  "ul_waited (note_time st) = ul_waited st" "ul_reprobes (note_time st) = ul_reprobes st"
  by (simp_all add: note_time_def split: option.split)

text \<open>What an exhausted run reports: the sum of its waits, the number of its probes, and that one of the two is used up.\<close>

definition ul_spent :: "ul_budgets \<Rightarrow> ul_state \<Rightarrow> ul_event list \<Rightarrow> ul_result \<Rightarrow> bool" where
  "ul_spent bud st tr r \<longleftrightarrow> (\<forall>l k w. r = UExhausted l k w \<longrightarrow>
     w = foldl nan_add (ul_waited st) (sleeps tr) \<and> k = ul_reprobes st + probes tr \<and>
     (w = Some (ub_maxWaitMs bud) \<or> k = ub_maxReprobes bud + 1))"

lemma ul_round_facts:
  assumes "ul_ok bud st" "\<forall>W. ul_waited st = Some W \<longrightarrow> W < ub_maxWaitMs bud" "ul_round bud env n st = (out, tr)"
  shows "waits_ok bud (ul_waited st) (sleeps tr) \<and> probes tr \<le> 1 \<and>
    (\<forall>st'. out = Inr st' \<longrightarrow> ul_ok bud st' \<and> ul_reprobes st' = ul_reprobes st + probes tr \<and>
       ul_waited st' = foldl nan_add (ul_waited st) (sleeps tr)) \<and>
    (\<forall>r. out = Inl r \<longrightarrow> ul_spent bud st tr r)"
proof -
  define w where "w = wait_ms bud env n st"
  have wok: "waits_ok bud (ul_waited st) [w]" unfolding w_def by (rule wait_ms_ok [OF assms(1,2)])
  from assms(3) w_def [symmetric] refl [of "note_time st"] show ?thesis
  proof (cases rule: ul_round_cases)
    case (limited s st2)
    have st2: "ul_waited st2 = nan_add (ul_waited st) w" "ul_reprobes st2 = ul_reprobes st + 1" by (simp_all add: limited(1))
    have "ul_reprobes st \<le> ub_maxReprobes bud" using assms(1) by (simp add: ul_ok_def)
    moreover have "\<forall>W. ul_waited st2 = Some W \<longrightarrow> 0 \<le> W \<and> W \<le> ub_maxWaitMs bud"
      using wok assms(1) by (cases "ul_waited st"; cases w) (auto simp: st2 ul_ok_def)
    ultimately show ?thesis using limited(2,3) wok st2 assms(1)
      by (auto simp: exhausted_def ul_ok_def ul_spent_def split: option.splits if_splits)
  qed (use wok in \<open>auto simp: ul_spent_def\<close>)
qed

lemma ul_loop_facts:
  "ul_ok bud st \<Longrightarrow> ul_loop bud env n st = (r, tr) \<Longrightarrow>
     waits_ok bud (ul_waited st) (sleeps tr) \<and> ul_reprobes st + probes tr \<le> ub_maxReprobes bud + 1 \<and> ul_spent bud st tr r"
proof (induction bud env n st arbitrary: r tr rule: ul_loop.induct)
  case (1 bud env n st)
  let ?over = "case ul_waited st of None \<Rightarrow> False | Some w \<Rightarrow> ub_maxWaitMs bud - w \<le> 0"
  show ?case
  proof (cases ?over)
    case True
    then obtain W where W: "ul_waited st = Some W" "ub_maxWaitMs bud \<le> W" by (auto split: option.splits)
    from True have "r = exhausted st" "tr = []" using 1(3) by (simp_all add: ul_loop.simps [of bud env n st])
    with W 1(2) show ?thesis by (auto simp: exhausted_def ul_ok_def ul_spent_def)
  next
    case False
    then have lt: "\<forall>W. ul_waited st = Some W \<longrightarrow> W < ub_maxWaitMs bud" by auto
    obtain out tr1 where rd: "ul_round bud env n st = (out, tr1)" by fastforce
    note f = ul_round_facts [OF 1(2) lt rd]
    show ?thesis
    proof (cases out)
      case (Inl r1)
      then have "r = r1" "tr = tr1" using 1(3) False rd by (simp_all add: ul_loop.simps [of bud env n st])
      with f Inl 1(2) show ?thesis by (auto simp: ul_ok_def)
    next
      case (Inr st')
      obtain r2 tr2 where l2: "ul_loop bud env (Suc n) st' = (r2, tr2)" by fastforce
      then have rt: "r = r2" "tr = tr1 @ tr2" using 1(3) False rd Inr by (simp_all add: ul_loop.simps [of bud env n st])
      have ok: "ul_ok bud st'" "ul_reprobes st' = ul_reprobes st + probes tr1"
        "ul_waited st' = foldl nan_add (ul_waited st) (sleeps tr1)"
        using f Inr by blast+
      note IH = 1(1) [OF False rd [symmetric] Inr ok(1) l2]
      with f ok show ?thesis by (auto simp: rt waits_ok_append ul_spent_def)
    qed
  qed
qed

text \<open>The times the provider reports, at first and after every probe, can be read, and the ladder is not empty.\<close>

definition signal_readable :: "ul_env \<Rightarrow> ul_signal option \<Rightarrow> bool" where
  "signal_readable env s \<longleftrightarrow> (case signal_time s of None \<Rightarrow> True | Some t \<Rightarrow> ul_date env t \<noteq> None)"

definition times_readable :: "ul_budgets \<Rightarrow> ul_env \<Rightarrow> ul_signal option \<Rightarrow> bool" where
  "times_readable bud env signal \<longleftrightarrow> ub_ladder bud \<noteq> [] \<and> signal_readable env signal \<and>
     (\<forall>n s. ul_probe env n = ProbeLimit s \<longrightarrow> signal_readable env s)"

lemma target_ms_readable:
  assumes "times_readable bud env (ul_signal st)" "0 \<le> ul_reprobes st"
  shows "target_ms bud env n st \<noteq> None"
proof -
  have "0 \<le> min (ul_reprobes st) (int (length (ub_ladder bud)) - 1)" "ub_ladder bud \<noteq> []"
    using assms by (auto simp: times_readable_def Suc_le_eq)
  then have "ladder_at (ub_ladder bud) (ul_reprobes st) \<noteq> None" unfolding ladder_at_def Let_def by (metis not_le option.distinct(1))
  with assms(1) show ?thesis by (auto simp: target_ms_def times_readable_def signal_readable_def split: option.splits)
qed

lemma ul_round_readable:
  assumes "times_readable bud env (ul_signal st)" "0 \<le> ul_reprobes st" "ul_waited st \<noteq> None" "ul_round bud env n st = (out, tr)"
  shows "None \<notin> set (sleeps tr) \<and>
    (\<forall>st'. out = Inr st' \<longrightarrow> times_readable bud env (ul_signal st') \<and> 0 \<le> ul_reprobes st' \<and> ul_waited st' \<noteq> None)"
proof -
  have "wait_ms bud env n st \<noteq> None"
    using target_ms_readable [OF assms(1,2), of n] assms(3) by (auto simp: wait_ms_def nan_min_def nan_max_def)
  with assms show ?thesis
    by (auto simp: ul_round_def note_time_def times_readable_def Let_def split: option.splits probe_outcome.splits if_splits)
qed

lemma ul_loop_readable:
  "times_readable bud env (ul_signal st) \<Longrightarrow> 0 \<le> ul_reprobes st \<Longrightarrow> ul_waited st \<noteq> None \<Longrightarrow> ul_loop bud env n st = (r, tr) \<Longrightarrow>
     None \<notin> set (sleeps tr)"
proof (induction bud env n st arbitrary: r tr rule: ul_loop.induct)
  case (1 bud env n st)
  obtain out tr1 where rd: "ul_round bud env n st = (out, tr1)" by fastforce
  note f = ul_round_readable [OF 1(2-4) rd]
  show ?case
  proof (cases out)
    case (Inl r1)
    with 1(5) f rd show ?thesis by (auto simp: ul_loop.simps [of bud env n st] split: if_splits)
  next
    case (Inr st')
    obtain r2 tr2 where l2: "ul_loop bud env (Suc n) st' = (r2, tr2)" by fastforce
    show ?thesis
    proof (cases "case ul_waited st of None \<Rightarrow> False | Some w \<Rightarrow> ub_maxWaitMs bud - w \<le> 0")
      case True
      with 1(5) show ?thesis by (simp add: ul_loop.simps [of bud env n st])
    next
      case False
      have "None \<notin> set (sleeps tr2)" using 1(1) [OF False rd [symmetric] Inr] f Inr l2 by blast
      moreover have "tr = tr1 @ tr2" using 1(5) False rd Inr l2 by (simp add: ul_loop.simps [of bud env n st])
      ultimately show ?thesis using f by simp
    qed
  qed
qed

text \<open>
  Property C37. The usage-limit wait is bounded and keeps its floor. Whatever the provider, the clock and the probes do,
  also with times that cannot be read, the controller returns, it probes at most once more than the allowed reprobes,
  and its waits are in order: up to the first one that is not a number each fits into what is left of the wait budget
  and is at least the floor unless it ends the budget, so those waits sum to at most the budget; after the first that is
  not a number none is. It gives up only when the budget or the reprobes are used up, and reports the number of its
  probes and the sum of its waits, which is not a number as soon as one wait is not. If the reported times can be read
  and the ladder is not empty, every wait is a number.
\<close>

theorem usage_limit_bounded:
  assumes "0 \<le> ub_minWaitMs bud" "0 \<le> ub_maxWaitMs bud" "0 \<le> ub_maxReprobes bud"
    and "onUsageLimit bud env signal = (r, tr)"
  shows "probes tr \<le> ub_maxReprobes bud + 1 \<and> waits_ok bud (Some 0) (sleeps tr) \<and> total_sleep tr \<le> ub_maxWaitMs bud \<and>
    (\<forall>l k w. r = UExhausted l k w \<longrightarrow> k = probes tr \<and>
       w = (if None \<in> set (sleeps tr) then None else Some (total_sleep tr)) \<and>
       (w = Some (ub_maxWaitMs bud) \<or> k = ub_maxReprobes bud + 1)) \<and>
    (times_readable bud env signal \<longrightarrow> None \<notin> set (sleeps tr))"
proof -
  let ?st = "\<lparr>ul_signal = signal, ul_reprobes = 0, ul_waited = Some 0, ul_last = signal_time signal\<rparr>"
  have ok: "ul_ok bud ?st" using assms by (simp add: ul_ok_def)
  note run = assms(4) [unfolded onUsageLimit_def]
  note f = ul_loop_facts [OF ok run]
  have "total_sleep tr \<le> ub_maxWaitMs bud"
    using waits_ok_total [of bud "Some 0" "sleeps tr"] f assms(2) by (simp add: total_sleep_def)
  moreover have "times_readable bud env signal \<longrightarrow> None \<notin> set (sleeps tr)"
    using ul_loop_readable [OF _ _ _ run] by simp
  ultimately show ?thesis using f by (auto simp: ul_spent_def foldl_nan_total total_sleep_def)
qed

text \<open>The limit never clears; the first time is reported and the probes report none: the ladder is climbed until the reprobes are used up.\<close>

definition demo_limited :: ul_env where
  "demo_limited = \<lparr>ul_now = (\<lambda>_. 0), ul_date = (\<lambda>t. if t = ''10:00'' then Some 900000 else None), ul_pause = (\<lambda>_. None), ul_resume = (\<lambda>_. None), ul_probe = (\<lambda>_. ProbeLimit None)\<rparr>"

theorem usage_limit_bounded_witness:
  "total_sleep (snd (onUsageLimit USAGE_LIMIT_BUDGET_DEFAULTS demo_limited (Some \<lparr>us_resumeAt = Some ''10:00''\<rparr>))) \<le> 21600000 \<and>
   None \<notin> set (sleeps (snd (onUsageLimit USAGE_LIMIT_BUDGET_DEFAULTS demo_limited (Some \<lparr>us_resumeAt = Some ''10:00''\<rparr>)))) \<and>
   probes (snd (onUsageLimit USAGE_LIMIT_BUDGET_DEFAULTS demo_limited (Some \<lparr>us_resumeAt = Some ''10:00''\<rparr>))) = 7"
proof -
  let ?sig = "Some \<lparr>us_resumeAt = Some ''10:00''\<rparr>"
  obtain r tr where o: "onUsageLimit USAGE_LIMIT_BUDGET_DEFAULTS demo_limited ?sig = (r, tr)" by fastforce
  have rd: "times_readable USAGE_LIMIT_BUDGET_DEFAULTS demo_limited ?sig"
    by (simp add: times_readable_def signal_readable_def signal_time_def USAGE_LIMIT_BUDGET_DEFAULTS_def demo_limited_def)
  have "total_sleep tr \<le> 21600000" "None \<notin> set (sleeps tr)"
    using usage_limit_bounded [OF _ _ _ o] rd by (simp_all add: USAGE_LIMIT_BUDGET_DEFAULTS_def)
  moreover have "probes (snd (onUsageLimit USAGE_LIMIT_BUDGET_DEFAULTS demo_limited ?sig)) = 7" by code_simp
  ultimately show ?thesis using o by simp
qed

text \<open>A time that cannot be read: every wait of the run is then not a number.\<close>

theorem unreadable_time_unbounded:
  assumes "ul_date env t = None" "ul_pause env 0 = None"
    and "0 \<le> ub_minWaitMs bud" "0 < ub_maxWaitMs bud" "0 \<le> ub_maxReprobes bud"
    and "onUsageLimit bud env (Some \<lparr>us_resumeAt = Some t\<rparr>) = (r, tr)"
  shows "set (sleeps tr) = {None}"
proof -
  let ?st = "\<lparr>ul_signal = Some \<lparr>us_resumeAt = Some t\<rparr>, ul_reprobes = 0, ul_waited = Some 0, ul_last = Some t\<rparr>"
  have run: "ul_loop bud env 0 ?st = (r, tr)" using assms(6) by (simp add: onUsageLimit_def signal_time_def)
  have w: "wait_ms bud env 0 ?st = None"
    using assms(1) by (simp add: wait_ms_def target_ms_def signal_time_def nan_max_def nan_min_def)
  obtain out tr1 where rd: "ul_round bud env 0 ?st = (out, tr1)" by fastforce
  have "sleeps tr1 = [None]"
    using rd w assms(2) by (auto simp: ul_round_def Let_def split: option.splits probe_outcome.splits)
  moreover have "\<exists>tr2. tr = tr1 @ tr2"
    using run rd assms(4) by (auto simp: ul_loop.simps [of bud env 0] split: sum.splits prod.splits)
  ultimately obtain ws where ws: "sleeps tr = None # ws" by auto
  have "waits_ok bud (Some 0) (sleeps tr)"
    using ul_loop_facts [OF _ run] assms(3-5) by (simp add: ul_ok_def)
  then have "waits_ok bud None ws" by (simp add: ws)
  then have "set ws \<subseteq> {None}" by (induction ws) auto
  with ws show ?thesis by auto
qed

end
