(* ===== verification/Runner_Scope.thy ===== *)
theory Runner_Scope
  imports Scope Beads_Scope
begin

section \<open>The scope that is guarded and the scope that is worked on\<close>

text \<open>
  The supervisor admits a launch by comparing subtrees that \<^verbatim>\<open>backlog.mjs\<close> expands; the sprint runner then selects work
  from a scope that \<^verbatim>\<open>beads-scope.mjs\<close> discovers on its own. The two read the parent of a bead differently: the
  supervisor takes \<^verbatim>\<open>parentId\<close>, else \<^verbatim>\<open>parent\<close>, else a grouping edge, the runner \<^verbatim>\<open>parent\<close> only. This theory relates them.
\<close>

text \<open>A row as the tracker prints it: a named object with a string id, a parent that is a string or missing, and no \<^verbatim>\<open>parentId\<close>.\<close>

definition tracker_row :: "jsval \<Rightarrow> bool" where
  "tracker_row b \<longleftrightarrow> nonempty_str (bead_key b) \<noteq> None \<and>
     (is_str (jfield b ''parent'') \<or> nullish (jfield b ''parent'')) \<and> nonempty_str (jfield b ''parentId'') = None"

lemma tracker_row_obj: "tracker_row b \<Longrightarrow> truthy b \<and> typeof_object b"
  by (cases b) (auto simp: tracker_row_def jfield_def split: option.splits)

lemma tracker_row_parent:
  assumes "tracker_row b" "has_parent b"
  obtains p where "jfield b ''parent'' = JStr p" "p \<noteq> []" "b_parentId (normalizeBead b) = Some p"
proof -
  from assms obtain p where p: "jfield b ''parent'' = JStr p" "p \<noteq> []"
    by (cases "jfield b ''parent''") (auto simp: tracker_row_def has_parent_def)
  moreover have "b_parentId (normalizeBead b) = Some p"
    using tracker_row_obj [OF assms(1)] assms(1) p by (simp add: normalizeBead_def parentIdOf_def tracker_row_def Let_def)
  ultimately show ?thesis by (rule that)
qed

lemma tracker_row_id:
  assumes "tracker_row b"
  obtains i where "bead_key b = JStr i" "i \<noteq> []" "b_id (normalizeBead b) = i"
proof -
  from assms obtain i where i: "bead_key b = JStr i" "i \<noteq> []"
    by (cases "bead_key b") (auto simp: tracker_row_def split: if_splits)
  moreover have "b_id (normalizeBead b) = i"
    using tracker_row_obj [OF assms] i by (simp add: normalizeBead_def str_or_empty_def Let_def)
  ultimately show ?thesis by (rule that)
qed

lemma scope_rel_guarded:
  assumes "\<forall>b\<in>set rows. tracker_row b" "(x, y) \<in> scope_rel rows"
  obtains p c where "x = JStr p" "y = JStr c" "(p, c) \<in> parent_rel (normalize_rows (JArr rows))"
proof -
  from assms(2) obtain b where b: "b \<in> set rows" "has_parent b" "jfield b ''parent'' = x" "bead_key b = y"
    by (auto simp: scope_rel_def)
  from assms(1) b(1) have t: "tracker_row b" by blast
  obtain p where p: "jfield b ''parent'' = JStr p" "p \<noteq> []" "b_parentId (normalizeBead b) = Some p"
    by (rule tracker_row_parent [OF t b(2)])
  obtain c where c: "bead_key b = JStr c" "c \<noteq> []" "b_id (normalizeBead b) = c" by (rule tracker_row_id [OF t])
  have "normalizeBead b \<in> set (normalize_rows (JArr rows))"
    using b(1) c by (simp add: normalize_rows_def rows_of_def)
  with p c have "(p, c) \<in> parent_rel (normalize_rows (JArr rows))" by (auto simp: parent_rel_def)
  with p(1) c(1) b(3,4) that show ?thesis by simp
qed

lemma scope_reach_guarded:
  assumes rows: "\<forall>b\<in>set rows. tracker_row b" and "(JStr r, x) \<in> (scope_rel rows)\<^sup>*"
  shows "\<exists>i. x = JStr i \<and> (r, i) \<in> (parent_rel (normalize_rows (JArr rows)))\<^sup>*"
  using assms(2)
proof (induction rule: rtrancl_induct)
  case (step y z)
  obtain i where i: "y = JStr i" "(r, i) \<in> (parent_rel (normalize_rows (JArr rows)))\<^sup>*" using step.IH by blast
  obtain p c where "y = JStr p" "z = JStr c" "(p, c) \<in> parent_rel (normalize_rows (JArr rows))"
    by (rule scope_rel_guarded [OF rows step.hyps(2)])
  with i show ?case by (auto intro: rtrancl_into_rtrancl)
qed simp

text \<open>Nothing the runner works on is outside of what the supervisor guards.\<close>

lemma runner_scope_inside:
  assumes "\<forall>b\<in>set rows. tracker_row b" "[] \<notin> set roots"
  shows "set (discoverScope rows (map JStr roots)) \<subseteq> JStr ` subtree (normalize_rows (JArr rows)) roots"
proof
  fix x assume "x \<in> set (discoverScope rows (map JStr roots))"
  then obtain r where "r \<in> set roots" "(JStr r, x) \<in> (scope_rel rows)\<^sup>*" by (auto simp: discoverScope_set)
  with scope_reach_guarded [OF assms(1)] assms(2) show "x \<in> JStr ` subtree (normalize_rows (JArr rows)) roots"
    by (fastforce simp: subtree_def)
qed

text \<open>
  Property C16. Sprints admitted by the guard work apart. When the supervisor accepts a launch against a tracker listing,
  the scope that the new sprint's runner discovers in that listing and the scope that the runner of any running sprint
  discovers there have no bead in common, although supervisor and runner compute their scopes with different code and
  read the parent of a bead differently.
\<close>

theorem admitted_sprints_work_apart:
  assumes "\<forall>b\<in>set rows. tracker_row b"
    and "checkLaunch (Inr (JArr rows)) active (JArr targets) exclude = Inr lc" "lc_ok lc"
    and "(sid, r) \<in> set active" "exclude \<noteq> Some sid" "[] \<notin> set (issueRoots r)"
  shows "set (discoverScope rows targets) \<inter> set (discoverScope rows (map JStr (issueRoots r))) = {}"
proof -
  let ?bs = "normalize_rows (JArr rows)"
  obtain roots where roots: "emap validateIssueId targets = Inr roots"
    and find: "find_conflicts (buildChildIndex ?bs) (expandScopeInMemory roots (buildChildIndex ?bs)) exclude active = []"
    using assms(2,3) by (auto simp: checkLaunch_def rows_of_def ebind_eq_Inr Let_def split: if_splits)
  have t: "targets = map JStr roots" "[] \<notin> set roots" using emap_validate [OF roots] by simp_all
  have "subtree ?bs roots \<inter> subtree ?bs (issueRoots r) = {}"
    using find assms(4,5) by (auto simp: find_conflicts_Nil expandScope_subtree)
  moreover have "set (discoverScope rows targets) \<subseteq> JStr ` subtree ?bs roots"
    unfolding t(1) by (rule runner_scope_inside [OF assms(1) t(2)])
  moreover have "set (discoverScope rows (map JStr (issueRoots r))) \<subseteq> JStr ` subtree ?bs (issueRoots r)"
    by (rule runner_scope_inside [OF assms(1,6)])
  ultimately show ?thesis by fast
qed

definition demo_tracker :: "jsval list" where
  "demo_tracker = [JObj [(''id'', JStr ''e'')], JObj [(''id'', JStr ''e.1''), (''parent'', JStr ''e'')], JObj [(''id'', JStr ''f'')]]"

theorem admitted_sprints_work_apart_witness:
  "set (discoverScope demo_tracker [JStr ''f'']) \<inter> set (discoverScope demo_tracker (map JStr [''e''])) = {} \<and>
   JStr ''e.1'' \<in> set (discoverScope demo_tracker (map JStr [''e'']))"
proof
  let ?r = "demo_res\<lparr>issueRoots := [''e'']\<rparr>"
  have rows: "\<forall>b\<in>set demo_tracker. tracker_row b" by code_simp
  have idx: "buildChildIndex (normalize_rows (JArr demo_tracker)) = [(''e'', [''e.1''])]" by code_simp
  have v: "emap validateIssueId [JStr ''f''] = Inr [''f'']" by code_simp
  have e: "expandScopeInMemory [''f''] [(''e'', [''e.1''])] = [''f'']" by code_simp
  have f: "find_conflicts [(''e'', [''e.1''])] [''f''] None [(''s1'', ?r)] = []" by code_simp
  have "checkLaunch (Inr (JArr demo_tracker)) [(''s1'', ?r)] (JArr [JStr ''f'']) None =
      Inr \<lparr>lc_ok = True, lc_requestScope = [''f''], lc_conflicts = []\<rparr>"
    by (simp add: checkLaunch_def rows_of_def Let_def v idx e f del: emap.simps find_conflicts.simps)
  from admitted_sprints_work_apart [OF rows this, of "''s1''" ?r]
  show "set (discoverScope demo_tracker [JStr ''f'']) \<inter> set (discoverScope demo_tracker (map JStr [''e''])) = {}" by simp
  show "JStr ''e.1'' \<in> set (discoverScope demo_tracker (map JStr [''e'']))" by code_simp
qed

end
