(* ===== verification/Set_Aside.thy ===== *)
theory Set_Aside
  imports Beads_Scope "HOL-Library.List_Lexorder" "HOL-Library.Char_ord"
begin

section \<open>Beads set aside and the immediate stall\<close>

text \<open>
  \<^verbatim>\<open>packages/apra-fleet-se/fleet-sprint/set-aside.mjs\<close>: beads a doer reported blocked are set aside or wait; a bead behind
  a prerequisite that cannot close is stuck; when every open bead is set aside or stuck, the sprint is stalled.

  \<^verbatim>\<open>doctorBlockedIds\<close> and \<^verbatim>\<open>waitingIds\<close> are ordered maps from ids to the records the develop phase wrote, \<^verbatim>\<open>deploySetAside\<close> is
  a record or \<^verbatim>\<open>null\<close>. \<open>parse\<close> and \<open>lc\<close> are as in \<open>Beads_Scope\<close>.
\<close>

subsection \<open>The entries of the report\<close>

definition DEPLOY_SET_ASIDE_ID :: string where
  "DEPLOY_SET_ASIDE_ID = ''deploy''"

record sa_entry =
  se_id :: string
  se_kind :: jsval
  se_blockedBy :: jsval
  se_reason :: jsval
  se_cycle :: "int option"
  se_round :: "int option"

definition or_else :: "jsval \<Rightarrow> jsval \<Rightarrow> jsval" where
  "or_else a b = (if truthy a then a else b)"

definition int_of :: "jsval \<Rightarrow> int option" where
  "int_of v = (case v of JInt i \<Rightarrow> Some i | _ \<Rightarrow> None)"

definition entry_of :: "string \<times> jsval \<Rightarrow> sa_entry" where
  "entry_of p = \<lparr>se_id = fst p, se_kind = or_else (jfield (snd p) ''kind'') (JStr ''blocked''),
     se_blockedBy = or_else (jfield (snd p) ''blockedBy'') (JStr (fst p)),
     se_reason = or_else (jfield (snd p) ''reason'') (JStr ''set aside''),
     se_cycle = int_of (jfield (snd p) ''cycle''), se_round = int_of (jfield (snd p) ''round'')\<rparr>"

definition zero_if_none :: "int option \<Rightarrow> int" where
  "zero_if_none v = (case v of None \<Rightarrow> 0 | Some i \<Rightarrow> i)"

definition kindRank :: "jsval \<Rightarrow> int" where
  "kindRank k = (if k = JStr ''blocked'' then 0 else 1)"

definition cmp_entries :: "(string \<Rightarrow> string \<Rightarrow> int) \<Rightarrow> sa_entry \<Rightarrow> sa_entry \<Rightarrow> int" where
  "cmp_entries lc a b =
     (let c = zero_if_none (se_cycle a) - zero_if_none (se_cycle b);
          r = zero_if_none (se_round a) - zero_if_none (se_round b);
          k = kindRank (se_kind a) - kindRank (se_kind b)
      in if c \<noteq> 0 then c else if r \<noteq> 0 then r else if k \<noteq> 0 then k else lc (se_id a) (se_id b))"

definition deploy_entry :: "jsval \<Rightarrow> sa_entry" where
  "deploy_entry deploy = \<lparr>se_id = DEPLOY_SET_ASIDE_ID, se_kind = JStr ''deploy'', se_blockedBy = JUndef,
     se_reason = JStr (if truthy (jfield deploy ''notes'')
        then js_str (jfield deploy ''reason'') @ '' ('' @ js_str (jfield deploy ''notes'') @ '')''
        else js_str (or_else (jfield deploy ''reason'') (JStr ''deploy set aside''))),
     se_cycle = int_of (jfield deploy ''cycle''), se_round = None\<rparr>"

definition collectSetAsideEntries :: "(string \<Rightarrow> string \<Rightarrow> int) \<Rightarrow> (string, jsval) jsmap \<Rightarrow> jsval \<Rightarrow> sa_entry list" where
  "collectSetAsideEntries lc blocked deploy =
     sort_by (cmp_entries lc) (map entry_of blocked) @ (if truthy deploy then [deploy_entry deploy] else [])"

definition formatFirstSeen :: "int option \<Rightarrow> int option \<Rightarrow> string" where
  "formatFirstSeen cycle rnd =
     (case (cycle, rnd) of
        (None, _) \<Rightarrow> ''unknown''
      | (Some c, None) \<Rightarrow> ''C'' @ show_int c
      | (Some c, Some r) \<Rightarrow> ''C'' @ show_int c @ '' R'' @ show_int r)"

definition reason_line :: "sa_entry \<Rightarrow> string" where
  "reason_line e = js_str (se_reason e) @ '' (first seen '' @ formatFirstSeen (se_cycle e) (se_round e) @ '')''"

definition formatSetAsideItems :: "sa_entry list \<Rightarrow> string list" where
  "formatSetAsideItems entries = map (\<lambda>e. se_id e @ '': '' @ reason_line e) entries"

subsection \<open>Beads stuck behind what cannot close\<close>

abbreviation has_key :: "('k, 'v) jsmap \<Rightarrow> 'k \<Rightarrow> bool" where
  "has_key m k \<equiv> map_of m k \<noteq> None"

definition open_rows :: "jsval list \<Rightarrow> (string, jsval) jsmap \<Rightarrow> jsval list" where
  "open_rows scope blocked = filter (\<lambda>b. truthy b \<and> \<not> closed_row b \<and> \<not> has_key blocked (bead_sid b)) scope"

text \<open>\<^verbatim>\<open>pre.get(id)\<close>: the prerequisites of the last open row of an id.\<close>

definition pre_of ::
  "(string \<Rightarrow> jsval option) \<Rightarrow> (string \<Rightarrow> string \<Rightarrow> int) \<Rightarrow> jsval list \<Rightarrow> jsval list \<Rightarrow> (string, jsval) jsmap \<Rightarrow> string \<Rightarrow> unmet"
where
  "pre_of parse lc scope allBeads blocked i =
     (case find (\<lambda>b. bead_sid b = i) (rev (open_rows scope blocked)) of
        None \<Rightarrow> \<lparr>un_inScope = [], un_outOfScope = []\<rparr>
      | Some b \<Rightarrow> unmetPrerequisites parse lc scope allBeads b)"

definition stuck_text :: "bool \<Rightarrow> string list \<Rightarrow> string" where
  "stuck_text waits on = (if waits then ''waiting'' else ''held'') @ '' on '' @ join_strings '', '' on @
     '', which cannot close in this run (set aside, or itself waiting on a set-aside bead)''"

definition outside_text :: "string list \<Rightarrow> string" where
  "outside_text on = ''waiting on '' @ join_strings '', '' on @ '', outside this sprint'' @ [CHR 0x27] @ ''s scope, which cannot close in this run''"

definition stuck_step ::
  "(string \<Rightarrow> unmet) \<Rightarrow> (string \<Rightarrow> bool) \<Rightarrow> (string \<Rightarrow> bool) \<Rightarrow> string \<Rightarrow> (string, string) jsmap \<Rightarrow> (string, string) jsmap"
where
  "stuck_step pre blocked waiting i out =
     (if has_key out i then out
      else let on = filter (\<lambda>x. blocked x \<or> has_key out x) (un_inScope (pre i))
           in if on \<noteq> [] then AList.update i (stuck_text (waiting i) on) out
              else if waiting i \<and> un_outOfScope (pre i) \<noteq> [] then AList.update i (outside_text (un_outOfScope (pre i))) out
              else out)"

definition stuck_sweep ::
  "(string \<Rightarrow> unmet) \<Rightarrow> (string \<Rightarrow> bool) \<Rightarrow> (string \<Rightarrow> bool) \<Rightarrow> string list \<Rightarrow> (string, string) jsmap \<Rightarrow> (string, string) jsmap"
where
  "stuck_sweep pre blocked waiting ids out = fold (stuck_step pre blocked waiting) ids out"

lemma stuck_step_cases:
  "stuck_step pre blocked waiting i out = out \<or>
     (\<not> has_key out i \<and> (\<exists>t. stuck_step pre blocked waiting i out = AList.update i t out))"
  by (auto simp: stuck_step_def Let_def)

lemma stuck_sweep_grows:
  "stuck_sweep pre blocked waiting ids out = out \<or>
     dom (map_of out) \<subset> dom (map_of (stuck_sweep pre blocked waiting ids out))"
  unfolding stuck_sweep_def
proof (induction ids arbitrary: out)
  case (Cons i ids)
  let ?out = "stuck_step pre blocked waiting i out"
  have "?out = out \<or> (i \<notin> dom (map_of out) \<and> dom (map_of ?out) = insert i (dom (map_of out)))"
    using stuck_step_cases [of pre blocked waiting i out] by auto
  then consider "?out = out" | "dom (map_of out) \<subset> dom (map_of ?out)" by blast
  then show ?case
  proof cases
    case 1
    with Cons.IH [of ?out] show ?thesis by simp
  next
    case 2
    have "dom (map_of ?out) \<subseteq> dom (map_of (fold (stuck_step pre blocked waiting) ids ?out))" using Cons.IH [of ?out] by auto
    with 2 show ?thesis unfolding fold_simps by blast
  qed
qed simp

lemma stuck_sweep_keys:
  "dom (map_of (stuck_sweep pre blocked waiting ids out)) \<subseteq> dom (map_of out) \<union> set ids"
  unfolding stuck_sweep_def
proof (induction ids arbitrary: out)
  case (Cons i ids)
  let ?out = "stuck_step pre blocked waiting i out"
  have "dom (map_of ?out) \<subseteq> insert i (dom (map_of out))"
    using stuck_step_cases [of pre blocked waiting i out] by auto
  with Cons.IH [of ?out] show ?case by auto
qed simp

lemma stuck_measure:
  assumes "stuck_sweep pre blocked waiting ids out \<noteq> out"
  shows "card (set ids - dom (map_of (stuck_sweep pre blocked waiting ids out))) < card (set ids - dom (map_of out))"
proof -
  let ?d' = "dom (map_of (stuck_sweep pre blocked waiting ids out))"
  have "dom (map_of out) \<subset> ?d'" "?d' \<subseteq> dom (map_of out) \<union> set ids"
    using stuck_sweep_grows [of pre blocked waiting ids out] assms stuck_sweep_keys [of pre blocked waiting ids out] by auto
  then have "set ids - ?d' \<subset> set ids - dom (map_of out)" by blast
  then show ?thesis by (intro psubset_card_mono) auto
qed

function stuck_loop ::
  "(string \<Rightarrow> unmet) \<Rightarrow> (string \<Rightarrow> bool) \<Rightarrow> (string \<Rightarrow> bool) \<Rightarrow> string list \<Rightarrow> (string, string) jsmap \<Rightarrow> (string, string) jsmap"
where
  "stuck_loop pre blocked waiting ids out =
     (let out' = stuck_sweep pre blocked waiting ids out
      in if out' = out then out else stuck_loop pre blocked waiting ids out')"
  by pat_completeness auto

termination
  by (relation "measure (\<lambda>(pre, blocked, waiting, ids, out). card (set ids - dom (map_of out)))") (auto intro: stuck_measure)

declare stuck_loop.simps [simp del]

definition stuckBehindSetAside ::
  "(string \<Rightarrow> jsval option) \<Rightarrow> (string \<Rightarrow> string \<Rightarrow> int) \<Rightarrow> jsval list \<Rightarrow> jsval list \<Rightarrow>
     (string, jsval) jsmap \<Rightarrow> (string, jsval) jsmap \<Rightarrow> (string, string) jsmap"
where
  "stuckBehindSetAside parse lc scope allBeads blocked waiting =
     (if blocked = [] \<and> waiting = [] then []
      else stuck_loop (pre_of parse lc scope allBeads blocked) (has_key blocked) (has_key waiting)
             (map bead_sid (open_rows scope blocked)) [])"

subsection \<open>The stall decision\<close>

record stall =
  st_blockerIds :: "string list"
  st_blockerReasons :: "(string, string) jsmap"
  st_entries :: "sa_entry list"

definition stall_candidates :: "string list \<Rightarrow> string list \<Rightarrow> string list" where
  "stall_candidates openIds integBound = fresh [] (openIds @ integBound)"

definition covered ::
  "(string, jsval) jsmap \<Rightarrow> (string, string) jsmap \<Rightarrow> jsval \<Rightarrow> string list \<Rightarrow> string list \<Rightarrow> string \<Rightarrow> bool"
where
  "covered blocked stuck deploy integBound verifyBlocked i \<longleftrightarrow>
     has_key blocked i \<or> has_key stuck i \<or> (truthy deploy \<and> (i \<in> set integBound \<or> i \<in> set verifyBlocked))"

definition integ_text :: string where
  "integ_text = ''can only close through Integration Test, which cannot run while the deploy is set aside''"

definition verify_text :: string where
  "verify_text = ''blocked only by bead(s) that can only close through Integration Test, which cannot run while the deploy is set aside''"

text \<open>The reason of a candidate that has none yet; an empty reason counts as none.\<close>

definition add_reason :: "(string, string) jsmap \<Rightarrow> string list \<Rightarrow> string \<Rightarrow> (string, string) jsmap \<Rightarrow> (string, string) jsmap" where
  "add_reason stuck integBound i reasons =
     (if map_of reasons i \<notin> {None, Some []} then reasons
      else case map_of stuck i of
             Some t \<Rightarrow> AList.update i (if i \<notin> set integBound then t else integ_text) reasons
           | None \<Rightarrow> AList.update i (if i \<in> set integBound then integ_text else verify_text) reasons)"

definition evaluateSetAsideStall ::
  "(string \<Rightarrow> string \<Rightarrow> int) \<Rightarrow> string list \<Rightarrow> string list \<Rightarrow> string list \<Rightarrow> (string, jsval) jsmap \<Rightarrow> jsval \<Rightarrow> (string, string) jsmap \<Rightarrow> stall option"
where
  "evaluateSetAsideStall lc openIds integBound verifyBlocked blocked deploy stuck =
     (let candidates = stall_candidates openIds integBound in
      if candidates = [] then None
      else if \<not> list_all (covered blocked stuck deploy integBound verifyBlocked) candidates then None
      else
        let entries = collectSetAsideEntries lc blocked deploy;
            reasons = fold (add_reason stuck integBound) candidates
              (fold (\<lambda>e m. AList.update (se_id e) (reason_line e) m) entries []);
            ids = map se_id (filter (\<lambda>e. se_id e \<noteq> DEPLOY_SET_ASIDE_ID) entries) @
                  sort (filter (\<lambda>i. \<not> has_key blocked i) candidates)
        in Some \<lparr>st_blockerIds = fresh [] ids @ (if truthy deploy then [DEPLOY_SET_ASIDE_ID] else []),
                 st_blockerReasons = reasons, st_entries = entries\<rparr>)"

definition formatSetAsideStallMessage :: "stall \<Rightarrow> string \<Rightarrow> string \<Rightarrow> string" where
  "formatSetAsideStallMessage stall place scope =
     ''Sprint stalled ('' @ place @ ''): nothing is ready and every open in-scope bead in scope '' @ [CHR 0x27] @ scope @ [CHR 0x27] @
     '' is set aside for this run, so no further round or cycle can make progress. Set aside: '' @
     join_strings ''; '' (map (\<lambda>i. i @ '' -- '' @ (case map_of (st_blockerReasons stall) i of Some r \<Rightarrow> r | None \<Rightarrow> ''undefined'')) (st_blockerIds stall)) @
     ''. Fix these blockers and re-run the sprint. Aborting now rather than burning the remaining cycles.''"

subsection \<open>Waits\<close>

record wait_entry =
  we_id :: string
  we_on :: "string list"
  we_cycle :: "int option"
  we_round :: "int option"

definition cmp_waits :: "(string \<Rightarrow> string \<Rightarrow> int) \<Rightarrow> wait_entry \<Rightarrow> wait_entry \<Rightarrow> int" where
  "cmp_waits lc a b =
     (let c = zero_if_none (we_cycle a) - zero_if_none (we_cycle b); r = zero_if_none (we_round a) - zero_if_none (we_round b)
      in if c \<noteq> 0 then c else if r \<noteq> 0 then r else lc (we_id a) (we_id b))"

definition collectWaitEntries :: "(string \<Rightarrow> string \<Rightarrow> int) \<Rightarrow> (string, jsval) jsmap \<Rightarrow> wait_entry list" where
  "collectWaitEntries lc waiting =
     sort_by (cmp_waits lc) (map (\<lambda>p. \<lparr>we_id = fst p, we_on = map js_str (rows_of (jfield (snd p) ''on'')),
       we_cycle = int_of (jfield (snd p) ''cycle''), we_round = int_of (jfield (snd p) ''round'')\<rparr>) waiting)"

definition formatWaitedLine :: "wait_entry list \<Rightarrow> string option" where
  "formatWaitedLine entries =
     (if entries = [] then None
      else Some (''Waited this run: '' @ join_strings ''; '' (map (\<lambda>e.
        we_id e @ '' on '' @ (if join_strings '', '' (we_on e) = [] then ''(unknown)'' else join_strings '', '' (we_on e))) entries)))"

record blocked_report =
  br_wait :: "(string \<times> string list) list"
  br_setAside :: "(string \<times> string) list"

definition scope_row :: "jsval list \<Rightarrow> string \<Rightarrow> jsval option" where
  "scope_row scope i = find (\<lambda>b. truthy b \<and> bead_sid b = i) (rev scope)"

definition report_step ::
  "(jsval \<Rightarrow> unmet) \<Rightarrow> jsval list \<Rightarrow> (string, jsval) jsmap \<Rightarrow> (string, jsval) jsmap \<Rightarrow> string \<Rightarrow> blocked_report \<Rightarrow> blocked_report"
where
  "report_step unmet_of scope blocked waiting i rep =
     (if has_key blocked i then rep
      else
        let pre = (case scope_row scope i of None \<Rightarrow> \<lparr>un_inScope = [], un_outOfScope = []\<rparr> | Some b \<Rightarrow> unmet_of b) in
        if un_outOfScope pre \<noteq> [] then
          rep\<lparr>br_setAside := br_setAside rep @ [(i, '' -- open prerequisite(s) outside this sprint'' @ [CHR 0x27] @
                ''s scope, which cannot close in this run: '' @ join_strings '', '' (un_outOfScope pre))]\<rparr>
        else if un_inScope pre \<noteq> [] \<and> \<not> has_key waiting i then rep\<lparr>br_wait := br_wait rep @ [(i, un_inScope pre)]\<rparr>
        else rep\<lparr>br_setAside := br_setAside rep @ [(i, case map_of waiting i of
                 None \<Rightarrow> [] | Some w \<Rightarrow> '' (reported BLOCKED again after waiting on '' @ join_strings '', '' (map js_str (rows_of (jfield w ''on''))) @ '')'')]\<rparr>)"

definition classifyBlockedReport ::
  "(string \<Rightarrow> jsval option) \<Rightarrow> (string \<Rightarrow> string \<Rightarrow> int) \<Rightarrow> string list \<Rightarrow> jsval list \<Rightarrow> jsval list \<Rightarrow>
     (string, jsval) jsmap \<Rightarrow> (string, jsval) jsmap \<Rightarrow> blocked_report"
where
  "classifyBlockedReport parse lc blockedIds scope allBeads blocked waiting =
     fold (report_step (unmetPrerequisites parse lc scope allBeads) scope blocked waiting) blockedIds \<lparr>br_wait = [], br_setAside = []\<rparr>"

subsection \<open>Stuck is the least fixpoint\<close>

text \<open>A bead that can never close in this run, as a rule system over the prerequisites.\<close>

inductive stuck :: "(string \<Rightarrow> unmet) \<Rightarrow> (string \<Rightarrow> bool) \<Rightarrow> (string \<Rightarrow> bool) \<Rightarrow> string set \<Rightarrow> string \<Rightarrow> bool"
  for pre blocked waiting ids
where
  behind_blocked: "i \<in> ids \<Longrightarrow> x \<in> set (un_inScope (pre i)) \<Longrightarrow> blocked x \<Longrightarrow> stuck pre blocked waiting ids i"
| behind_stuck: "i \<in> ids \<Longrightarrow> x \<in> set (un_inScope (pre i)) \<Longrightarrow> stuck pre blocked waiting ids x \<Longrightarrow> stuck pre blocked waiting ids i"
| outside: "i \<in> ids \<Longrightarrow> waiting i \<Longrightarrow> un_outOfScope (pre i) \<noteq> [] \<Longrightarrow> stuck pre blocked waiting ids i"

lemma stuck_step_sound:
  assumes "i \<in> ids" "\<And>j. has_key out j \<Longrightarrow> stuck pre blocked waiting ids j" "has_key (stuck_step pre blocked waiting i out) j"
  shows "stuck pre blocked waiting ids j"
proof (cases "has_key out j")
  case False
  then have j: "j = i" "\<not> has_key out i" "stuck_step pre blocked waiting i out \<noteq> out"
    using assms(3) stuck_step_cases [of pre blocked waiting i out] by (auto split: if_splits)
  show ?thesis
  proof (cases "filter (\<lambda>x. blocked x \<or> has_key out x) (un_inScope (pre i)) = []")
    case True
    then have "waiting i" "un_outOfScope (pre i) \<noteq> []" using j by (auto simp: stuck_step_def split: if_splits)
    then show ?thesis unfolding j(1) by (rule stuck.outside [OF assms(1)])
  next
    case False
    then obtain x where "x \<in> set (un_inScope (pre i))" "blocked x \<or> has_key out x" by (auto simp: filter_empty_conv)
    then show ?thesis unfolding j(1) using assms(1,2) by (blast intro: stuck.intros)
  qed
qed (use assms(2) in blast)

lemma stuck_sweep_sound:
  assumes "set is \<subseteq> ids" "\<And>j. has_key out j \<Longrightarrow> stuck pre blocked waiting ids j" "has_key (stuck_sweep pre blocked waiting is out) j"
  shows "stuck pre blocked waiting ids j"
  using assms
proof (induction "is" arbitrary: out)
  case (Cons i "is")
  have i: "i \<in> ids" using Cons.prems(1) by simp
  have out': "stuck pre blocked waiting ids k" if "has_key (stuck_step pre blocked waiting i out) k" for k
    using i Cons.prems(2) that by (rule stuck_step_sound)
  show ?case
    by (rule Cons.IH [of "stuck_step pre blocked waiting i out"]) (use Cons.prems(1,3) out' in \<open>simp_all add: stuck_sweep_def\<close>)
qed (simp add: stuck_sweep_def)

text \<open>A sweep that changes nothing leaves no open bead that a rule applies to.\<close>

lemma stuck_step_mono: "has_key out j \<Longrightarrow> has_key (stuck_step pre blocked waiting i out) j"
  using stuck_step_cases [of pre blocked waiting i out] by auto

lemma stuck_sweep_fixed:
  assumes "stuck_sweep pre blocked waiting ids out = out" "i \<in> set ids"
  shows "stuck_step pre blocked waiting i out = out"
  using assms
proof (induction ids)
  case (Cons k ids)
  let ?out = "stuck_step pre blocked waiting k out"
  have k: "?out = out"
  proof (rule ccontr)
    assume "?out \<noteq> out"
    then have "\<not> has_key out k" "has_key ?out k" using stuck_step_cases [of pre blocked waiting k out] by auto
    moreover have "dom (map_of ?out) \<subseteq> dom (map_of (stuck_sweep pre blocked waiting ids ?out))"
      using stuck_sweep_grows [of pre blocked waiting ids ?out] by auto
    moreover have "stuck_sweep pre blocked waiting ids ?out = out" using Cons.prems(1) by (simp add: stuck_sweep_def)
    ultimately show False by auto
  qed
  then have "stuck_sweep pre blocked waiting ids out = out" using Cons.prems(1) by (simp add: stuck_sweep_def)
  with Cons k show ?case by auto
qed simp

lemma stuck_fixed_complete:
  assumes "stuck pre blocked waiting (set ids) i" "stuck_sweep pre blocked waiting ids out = out"
  shows "has_key out i"
  using assms(1)
proof (induction rule: stuck.induct)
  case (behind_blocked i x)
  have "filter (\<lambda>x. blocked x \<or> has_key out x) (un_inScope (pre i)) \<noteq> []"
    using behind_blocked(2,3) by (auto simp: filter_empty_conv)
  then have "has_key (stuck_step pre blocked waiting i out) i" by (auto simp: stuck_step_def)
  with stuck_sweep_fixed [OF assms(2) behind_blocked(1)] show ?case by simp
next
  case (behind_stuck i x)
  have "filter (\<lambda>x. blocked x \<or> has_key out x) (un_inScope (pre i)) \<noteq> []"
    using behind_stuck(2,4) by (auto simp: filter_empty_conv)
  then have "has_key (stuck_step pre blocked waiting i out) i" by (auto simp: stuck_step_def)
  with stuck_sweep_fixed [OF assms(2) behind_stuck(1)] show ?case by simp
next
  case (outside i)
  then have "has_key (stuck_step pre blocked waiting i out) i" by (auto simp: stuck_step_def Let_def)
  with stuck_sweep_fixed [OF assms(2) outside(1)] show ?case by simp
qed

lemma stuck_loop_set:
  assumes "\<And>j. has_key out j \<Longrightarrow> stuck pre blocked waiting (set ids) j"
  shows "has_key (stuck_loop pre blocked waiting ids out) i \<longleftrightarrow> stuck pre blocked waiting (set ids) i"
  using assms
proof (induction pre blocked waiting ids out rule: stuck_loop.induct)
  case (1 pre blocked waiting ids out)
  let ?out = "stuck_sweep pre blocked waiting ids out"
  show ?case
  proof (cases "?out = out")
    case True
    then have "stuck_loop pre blocked waiting ids out = out" by (simp add: stuck_loop.simps [of _ _ _ _ out])
    then show ?thesis using "1.prems" stuck_fixed_complete [OF _ True] by auto
  next
    case False
    then have "stuck_loop pre blocked waiting ids out = stuck_loop pre blocked waiting ids ?out"
      by (simp add: stuck_loop.simps [of _ _ _ _ out])
    moreover have "has_key (stuck_loop pre blocked waiting ids ?out) i \<longleftrightarrow> stuck pre blocked waiting (set ids) i"
      by (rule "1.IH" [OF refl False]) (rule stuck_sweep_sound [OF subset_refl "1.prems"])
    ultimately show ?thesis by simp
  qed
qed

lemma stuckBehindSetAside_set:
  "has_key (stuckBehindSetAside parse lc scope allBeads blocked waiting) i \<longleftrightarrow>
     stuck (pre_of parse lc scope allBeads blocked) (has_key blocked) (has_key waiting) (bead_sid ` set (open_rows scope blocked)) i"
proof (cases "blocked = [] \<and> waiting = []")
  case True
  have "\<not> stuck (pre_of parse lc scope allBeads blocked) (has_key blocked) (has_key waiting) ids i" for ids
  proof
    assume "stuck (pre_of parse lc scope allBeads blocked) (has_key blocked) (has_key waiting) ids i"
    then show False by induction (use True in auto)
  qed
  with True show ?thesis by (simp add: stuckBehindSetAside_def)
next
  case False
  then show ?thesis unfolding stuckBehindSetAside_def using stuck_loop_set [of "[]"] by auto
qed

subsection \<open>The stall is final, and nothing else is one\<close>

text \<open>
  What can still happen in the run: an open bead closes when it is not set aside, every prerequisite that was open in
  the sprint has closed, it does not wait for a bead outside of the sprint, and it is not bound to a deploy that is set
  aside. The ids that have closed so far are the state.
\<close>

inductive closes ::
  "(string \<Rightarrow> unmet) \<Rightarrow> (string \<Rightarrow> bool) \<Rightarrow> (string \<Rightarrow> bool) \<Rightarrow> (string \<Rightarrow> bool) \<Rightarrow> string set \<Rightarrow> string set \<Rightarrow> bool"
  for pre blocked waiting bound ids
where
  nothing: "closes pre blocked waiting bound ids {}"
| bead: "closes pre blocked waiting bound ids C \<Longrightarrow> i \<in> ids \<Longrightarrow> \<not> blocked i \<Longrightarrow> \<not> bound i \<Longrightarrow>
    set (un_inScope (pre i)) \<subseteq> C \<Longrightarrow> (waiting i \<Longrightarrow> un_outOfScope (pre i) = []) \<Longrightarrow>
    closes pre blocked waiting bound ids (insert i C)"

inductive_cases stuckE: "stuck pre blocked waiting ids i"

lemma closes_not_stuck:
  "closes pre blocked waiting bound ids C \<Longrightarrow> i \<in> C \<Longrightarrow> \<not> blocked i \<and> \<not> bound i \<and> \<not> stuck pre blocked waiting ids i"
proof (induction arbitrary: i rule: closes.induct)
  case (bead C j)
  have "\<not> stuck pre blocked waiting ids j"
  proof
    assume "stuck pre blocked waiting ids j"
    then show False by (rule stuckE) (use bead in auto)
  qed
  with bead show ?case by auto
qed simp

lemma closes_Un:
  assumes "closes pre blocked waiting bound ids C" "closes pre blocked waiting bound ids D"
  shows "closes pre blocked waiting bound ids (C \<union> D)"
  using assms(2)
proof induction
  case (bead D i)
  have "closes pre blocked waiting bound ids (insert i (C \<union> D))" by (rule closes.bead) (use bead in auto)
  then show ?case by simp
qed (use assms(1) in simp)

lemma closes_list:
  assumes "\<And>x. x \<in> set xs \<Longrightarrow> \<exists>C. closes pre blocked waiting bound ids C \<and> x \<in> C"
  shows "\<exists>C. closes pre blocked waiting bound ids C \<and> set xs \<subseteq> C"
  using assms
proof (induction xs)
  case Nil
  show ?case by (rule exI [of _ "{}"]) (simp add: closes.nothing)
next
  case (Cons x xs)
  then obtain C where C: "closes pre blocked waiting bound ids C" "set xs \<subseteq> C" by auto
  from Cons.prems [of x] obtain D where D: "closes pre blocked waiting bound ids D" "x \<in> D" by auto
  from closes_Un [OF C(1) D(1)] C(2) D(2) show ?case by (intro exI [of _ "C \<union> D"]) auto
qed

text \<open>Without a cycle of prerequisites, a bead that is neither set aside nor stuck can close.\<close>

lemma not_stuck_closes:
  assumes "wf {(x, i). i \<in> ids \<and> x \<in> set (un_inScope (pre i))}"
    and closed: "\<forall>i\<in>ids. \<forall>x\<in>set (un_inScope (pre i)). x \<in> ids \<or> blocked x"
    and "i \<in> ids" "\<not> blocked i" "\<not> stuck pre blocked waiting ids i"
  shows "\<exists>C. closes pre blocked waiting (\<lambda>_. False) ids C \<and> i \<in> C"
  using assms(1,3,4,5)
proof (induction i rule: wf_induct_rule)
  case (less i)
  have "\<exists>C. closes pre blocked waiting (\<lambda>_. False) ids C \<and> x \<in> C" if x: "x \<in> set (un_inScope (pre i))" for x
  proof (rule less.IH)
    have "\<not> blocked x" "\<not> stuck pre blocked waiting ids x"
      using less.prems x by (blast intro: stuck.intros)+
    then show "x \<in> ids" "\<not> blocked x" "\<not> stuck pre blocked waiting ids x" using closed less.prems(1) x by auto
  qed (use less.prems x in simp)
  from closes_list [OF this] obtain C where C: "closes pre blocked waiting (\<lambda>_. False) ids C" "set (un_inScope (pre i)) \<subseteq> C" by blast
  have "closes pre blocked waiting (\<lambda>_. False) ids (insert i C)"
    by (rule closes.bead [OF C(1) less.prems(1,2) _ C(2)]) (use less.prems in \<open>auto intro: stuck.outside\<close>)
  then show ?case by blast
qed

lemma unmet_open:
  assumes "x \<in> set (un_inScope (unmetPrerequisites parse lc scope allBeads b))"
  shows "\<exists>t\<in>set scope. truthy t \<and> \<not> closed_row t \<and> bead_sid t = x"
proof -
  let ?m = "indexById scope"
  have "(\<exists>t. map_of ?m x = Some t \<and> \<not> closed_row t) \<or> (\<exists>t\<in>snd ` set ?m. \<not> closed_row t \<and> bead_sid t = x)"
    using assms by (auto simp: unmetPrerequisites_def Let_def split: option.splits)
  moreover have "\<exists>i. map_of ?m i = Some t" if "t \<in> snd ` set ?m" for t
    using that map_of_SomeI_ok [OF indexById_ok] by force
  ultimately show ?thesis by (blast dest: indexById_SomeD)
qed

lemma pre_of_open:
  assumes "x \<in> set (un_inScope (pre_of parse lc scope allBeads blocked i))"
  shows "x \<in> bead_sid ` set (open_rows scope blocked) \<or> has_key blocked x"
proof -
  from assms obtain b where "x \<in> set (un_inScope (unmetPrerequisites parse lc scope allBeads b))"
    by (auto simp: pre_of_def split: option.splits)
  from unmet_open [OF this] show ?thesis by (auto simp: open_rows_def)
qed

abbreviation bound_to_deploy :: "jsval \<Rightarrow> string list \<Rightarrow> string list \<Rightarrow> string \<Rightarrow> bool" where
  "bound_to_deploy deploy integBound verifyBlocked i \<equiv> truthy deploy \<and> (i \<in> set integBound \<or> i \<in> set verifyBlocked)"

lemma evaluate_Some_iff:
  "evaluateSetAsideStall lc openIds integBound verifyBlocked blocked deploy stuckIds \<noteq> None \<longleftrightarrow>
     openIds @ integBound \<noteq> [] \<and> (\<forall>i\<in>set (openIds @ integBound). covered blocked stuckIds deploy integBound verifyBlocked i)"
proof -
  have "stall_candidates openIds integBound = [] \<longleftrightarrow> openIds @ integBound = []"
    "set (stall_candidates openIds integBound) = set (openIds @ integBound)"
    unfolding stall_candidates_def by (metis set_fresh Diff_empty set_empty list.set(1)) simp
  then show ?thesis unfolding evaluateSetAsideStall_def Let_def list_all_iff by simp
qed

text \<open>
  Property C19. An immediate stall is final. When the runner declares a stall, then in every continuation of the run, in
  which open beads close as their prerequisites allow, no open bead and no bead bound to the integration test closes:
  aborting loses nothing that further cycles could have achieved.
\<close>

theorem stall_is_final:
  assumes "evaluateSetAsideStall lc openIds integBound verifyBlocked blocked deploy
      (stuckBehindSetAside parse lc scope allBeads blocked waiting) = Some st"
    and "closes (pre_of parse lc scope allBeads blocked) (has_key blocked) (has_key waiting)
      (bound_to_deploy deploy integBound verifyBlocked) (bead_sid ` set (open_rows scope blocked)) C"
  shows "C \<inter> (set openIds \<union> set integBound) = {}"
proof (rule ccontr)
  assume "C \<inter> (set openIds \<union> set integBound) \<noteq> {}"
  then obtain i where i: "i \<in> C" "i \<in> set (openIds @ integBound)" by auto
  have "covered blocked (stuckBehindSetAside parse lc scope allBeads blocked waiting) deploy integBound verifyBlocked i"
    using assms(1) i(2) evaluate_Some_iff by blast
  with closes_not_stuck [OF assms(2) i(1)] show False unfolding covered_def stuckBehindSetAside_set by blast
qed

definition demo_scope :: "jsval list" where
  "demo_scope = [dep_bead ''a'' [], dep_bead ''b'' [''a''], dep_bead ''c'' []]"

abbreviation demo_pre :: "string \<Rightarrow> unmet" where
  "demo_pre \<equiv> pre_of (\<lambda>_. None) (\<lambda>_ _. 0) demo_scope demo_scope [(''a'', JNull)]"

lemma demo_stall:
  "evaluateSetAsideStall (\<lambda>_ _. 0) [''a'', ''b''] [] [] [(''a'', JNull)] JNull
     (stuckBehindSetAside (\<lambda>_. None) (\<lambda>_ _. 0) demo_scope demo_scope [(''a'', JNull)] []) \<noteq> None"
  "bead_sid ` set (open_rows demo_scope [(''a'', JNull)]) = {''b'', ''c''}"
  "un_inScope (demo_pre ''b'') = [''a'']" "un_inScope (demo_pre ''c'') = []"
  by code_simp+

theorem stall_is_final_witness:
  "closes demo_pre (has_key [(''a'', JNull)]) (has_key []) (bound_to_deploy JNull [] []) {''b'', ''c''} {''c''} \<and>
   {''c''} \<inter> (set [''a'', ''b''] \<union> set []) = {}"
proof
  obtain st where st: "evaluateSetAsideStall (\<lambda>_ _. 0) [''a'', ''b''] [] [] [(''a'', JNull)] JNull
     (stuckBehindSetAside (\<lambda>_. None) (\<lambda>_ _. 0) demo_scope demo_scope [(''a'', JNull)] []) = Some st"
    using demo_stall(1) by blast
  show c: "closes demo_pre (has_key [(''a'', JNull)]) (has_key []) (bound_to_deploy JNull [] []) {''b'', ''c''} {''c''}"
    by (rule closes.bead [OF closes.nothing]) (simp_all add: demo_stall)
  from stall_is_final [OF st, unfolded demo_stall(2), OF c] show "{''c''} \<inter> (set [''a'', ''b''] \<union> set []) = {}" .
qed

text \<open>
  Property C18. The stall decision is exact. With no deploy set aside and no cycle among the prerequisites, the runner
  declares a stall exactly if there is an open bead and no open bead can close in any continuation of the run; the
  fixpoint it computes for that terminates on every bead graph.
\<close>

theorem stall_exact:
  assumes "\<not> truthy deploy"
    and "acyclic {(x, i). i \<in> bead_sid ` set (open_rows scope blocked) \<and> x \<in> set (un_inScope (pre_of parse lc scope allBeads blocked i))}"
    and "set (openIds @ integBound) \<subseteq> bead_sid ` set (open_rows scope blocked) \<union> set (jkeys blocked)"
  shows "evaluateSetAsideStall lc openIds integBound verifyBlocked blocked deploy
      (stuckBehindSetAside parse lc scope allBeads blocked waiting) \<noteq> None \<longleftrightarrow>
    openIds @ integBound \<noteq> [] \<and>
    (\<forall>C. closes (pre_of parse lc scope allBeads blocked) (has_key blocked) (has_key waiting) (\<lambda>_. False)
       (bead_sid ` set (open_rows scope blocked)) C \<longrightarrow> C \<inter> set (openIds @ integBound) = {})"
proof -
  let ?ids = "bead_sid ` set (open_rows scope blocked)" and ?pre = "pre_of parse lc scope allBeads blocked"
  let ?R = "{(x, i). i \<in> ?ids \<and> x \<in> set (un_inScope (?pre i))}"
  have "?R = (\<Union>i\<in>?ids. (\<lambda>x. (x, i)) ` set (un_inScope (?pre i)))" by auto
  then have "finite ?R" by simp
  with assms(2) have wf: "wf ?R" by (rule finite_acyclic_wf [rotated])
  have cl: "\<forall>i\<in>?ids. \<forall>x\<in>set (un_inScope (?pre i)). x \<in> ?ids \<or> has_key blocked x" using pre_of_open by blast
  have cov: "covered blocked (stuckBehindSetAside parse lc scope allBeads blocked waiting) deploy integBound verifyBlocked i \<longleftrightarrow>
      has_key blocked i \<or> stuck ?pre (has_key blocked) (has_key waiting) ?ids i" for i
    using assms(1) by (simp only: covered_def stuckBehindSetAside_set) simp
  have "covered blocked (stuckBehindSetAside parse lc scope allBeads blocked waiting) deploy integBound verifyBlocked i \<longleftrightarrow>
      \<not> (\<exists>C. closes ?pre (has_key blocked) (has_key waiting) (\<lambda>_. False) ?ids C \<and> i \<in> C)" if "i \<in> set (openIds @ integBound)" for i
  proof
    assume "covered blocked (stuckBehindSetAside parse lc scope allBeads blocked waiting) deploy integBound verifyBlocked i"
    then show "\<not> (\<exists>C. closes ?pre (has_key blocked) (has_key waiting) (\<lambda>_. False) ?ids C \<and> i \<in> C)"
      unfolding cov using closes_not_stuck by blast
  next
    assume n: "\<not> (\<exists>C. closes ?pre (has_key blocked) (has_key waiting) (\<lambda>_. False) ?ids C \<and> i \<in> C)"
    have i: "i \<in> ?ids \<or> has_key blocked i" using assms(3) that by (auto simp: map_of_eq_None_iff)
    show "covered blocked (stuckBehindSetAside parse lc scope allBeads blocked waiting) deploy integBound verifyBlocked i"
      unfolding cov using not_stuck_closes [OF wf cl] i n by blast
  qed
  then show ?thesis unfolding evaluate_Some_iff by blast
qed

theorem stall_exact_witness:
  "\<nexists>C. closes demo_pre (has_key [(''a'', JNull)]) (has_key []) (\<lambda>_. False) {''b'', ''c''} C \<and> C \<inter> set ([''a'', ''b''] @ []) \<noteq> {}"
proof -
  have "{(x, i). i \<in> {''b'', ''c''} \<and> x \<in> set (un_inScope (demo_pre i))} = {(''a'', ''b'')}" by (auto simp: demo_stall)
  then have "acyclic {(x, i). i \<in> bead_sid ` set (open_rows demo_scope [(''a'', JNull)]) \<and> x \<in> set (un_inScope (demo_pre i))}"
    unfolding demo_stall(2) by (simp add: acyclic_insert wf_acyclic)
  from stall_exact [OF _ this, of JNull "[''a'', ''b'']" "[]" "[]" "[]"] demo_stall(1)
  show ?thesis unfolding demo_stall(2) by auto
qed

subsection \<open>The report names every bead\<close>

lemma add_reason_keeps: "map_of m i \<notin> {None, Some []} \<Longrightarrow> map_of (add_reason sm ib j m) i \<notin> {None, Some []}"
  by (auto simp: add_reason_def split: option.splits)

lemma add_reason_sets:
  assumes "map_of sm i \<noteq> Some []"
  shows "map_of (add_reason sm ib i m) i \<notin> {None, Some []}"
  using assms by (auto simp: add_reason_def integ_text_def verify_text_def split: option.splits)

lemma add_reasons:
  assumes "\<And>i. map_of sm i \<noteq> Some []" "i \<in> set is \<or> map_of m i \<notin> {None, Some []}"
  shows "map_of (fold (add_reason sm ib) is m) i \<notin> {None, Some []}"
  using assms(2)
proof (induction "is" arbitrary: m)
  case (Cons j "is")
  have "i \<in> set is \<or> map_of (add_reason sm ib j m) i \<notin> {None, Some []}"
    using Cons.prems add_reason_keeps [of m i sm ib j] add_reason_sets [of sm i ib m] assms(1) [of i] by auto
  from Cons.IH [OF this] show ?case by simp
qed simp

lemma entry_reasons:
  assumes "e \<in> set es"
  shows "map_of (fold (\<lambda>e m. AList.update (se_id e) (reason_line e) m) es m) (se_id e) \<notin> {None, Some []}"
  using assms
proof (induction es arbitrary: m rule: rev_induct)
  case (snoc x xs)
  have "reason_line x \<noteq> []" by (simp add: reason_line_def)
  with snoc show ?case by auto
qed simp

lemma stuck_texts: "map_of (stuckBehindSetAside parse lc scope allBeads blocked waiting) i \<noteq> Some []"
proof -
  have step: "\<forall>i. map_of out i \<noteq> Some [] \<Longrightarrow> \<forall>i. map_of (stuck_step pre b w j out) i \<noteq> Some []" for pre b w j out
    by (auto simp: stuck_step_def Let_def stuck_text_def outside_text_def)
  have sweep: "\<forall>i. map_of out i \<noteq> Some [] \<Longrightarrow> \<forall>i. map_of (stuck_sweep pre b w ids out) i \<noteq> Some []" for pre b w ids out
    unfolding stuck_sweep_def by (induction ids arbitrary: out) (use step in auto)
  have "\<forall>i. map_of out i \<noteq> Some [] \<Longrightarrow> \<forall>i. map_of (stuck_loop pre b w ids out) i \<noteq> Some []" for pre b w ids out
  proof (induction pre b w ids out rule: stuck_loop.induct)
    case (1 pre b w ids out)
    then show ?case using sweep [of out pre b w ids] by (subst stuck_loop.simps) (simp add: Let_def)
  qed
  then show ?thesis by (auto simp: stuckBehindSetAside_def)
qed

text \<open>
  A declared stall names its reasons: every open bead and every bead set aside is among the reported
  blockers (a bead called like the deploy apart), and every reported blocker has a reason that is not empty.
\<close>

theorem stall_report_complete:
  assumes "evaluateSetAsideStall lc openIds integBound verifyBlocked blocked deploy
      (stuckBehindSetAside parse lc scope allBeads blocked waiting) = Some st"
  shows "(set openIds \<union> set integBound \<union> set (jkeys blocked)) - {DEPLOY_SET_ASIDE_ID} \<subseteq> set (st_blockerIds st) \<and>
    (\<forall>i\<in>set (st_blockerIds st). map_of (st_blockerReasons st) i \<notin> {None, Some []})"
proof -
  let ?sm = "stuckBehindSetAside parse lc scope allBeads blocked waiting" and ?es = "collectSetAsideEntries lc blocked deploy"
  let ?ids = "map se_id (filter (\<lambda>e. se_id e \<noteq> DEPLOY_SET_ASIDE_ID) ?es) @ sort (filter (\<lambda>i. \<not> has_key blocked i) (stall_candidates openIds integBound))"
  have st: "st_blockerIds st = fresh [] ?ids @ (if truthy deploy then [DEPLOY_SET_ASIDE_ID] else [])"
    "st_blockerReasons st = fold (add_reason ?sm integBound) (stall_candidates openIds integBound)
        (fold (\<lambda>e m. AList.update (se_id e) (reason_line e) m) ?es [])"
    using assms by (auto simp: evaluateSetAsideStall_def Let_def split: if_splits)
  have es: "se_id ` set ?es = set (jkeys blocked) \<union> (if truthy deploy then {DEPLOY_SET_ASIDE_ID} else {})"
    by (auto simp: collectSetAsideEntries_def entry_of_def deploy_entry_def image_image)
  have cand: "set (stall_candidates openIds integBound) = set openIds \<union> set integBound" by (simp add: stall_candidates_def)
  have ids: "set ?ids = se_id ` set ?es - {DEPLOY_SET_ASIDE_ID} \<union> {i \<in> set openIds \<union> set integBound. \<not> has_key blocked i}"
    unfolding cand [symmetric] by auto
  have "map_of (st_blockerReasons st) i \<notin> {None, Some []}" if "i \<in> set (st_blockerIds st)" for i
    unfolding st(2)
  proof (rule add_reasons [OF stuck_texts])
    have "i \<in> se_id ` set ?es \<or> i \<in> set (stall_candidates openIds integBound)"
      using that ids cand es unfolding st(1) set_append set_fresh by (auto split: if_splits)
    then show "i \<in> set (stall_candidates openIds integBound) \<or>
        map_of (fold (\<lambda>e m. AList.update (se_id e) (reason_line e) m) ?es []) i \<notin> {None, Some []}"
      using entry_reasons by blast
  qed
  moreover have "(set openIds \<union> set integBound \<union> set (jkeys blocked)) - {DEPLOY_SET_ASIDE_ID} \<subseteq> set ?ids"
    unfolding ids es by (auto simp: map_of_eq_None_iff)
  ultimately show ?thesis unfolding st(1) by auto
qed

theorem stall_report_complete_witness:
  "\<exists>st. evaluateSetAsideStall (\<lambda>_ _. 0) [''a'', ''b''] [] [] [(''a'', JNull)] JNull
     (stuckBehindSetAside (\<lambda>_. None) (\<lambda>_ _. 0) demo_scope demo_scope [(''a'', JNull)] []) = Some st \<and> {''a'', ''b''} \<subseteq> set (st_blockerIds st)"
proof -
  obtain st where st: "evaluateSetAsideStall (\<lambda>_ _. 0) [''a'', ''b''] [] [] [(''a'', JNull)] JNull
     (stuckBehindSetAside (\<lambda>_. None) (\<lambda>_ _. 0) demo_scope demo_scope [(''a'', JNull)] []) = Some st"
    using demo_stall(1) by blast
  from stall_report_complete [OF st] have "{''a'', ''b''} \<subseteq> set (st_blockerIds st)" by (auto simp: DEPLOY_SET_ASIDE_ID_def)
  with st show ?thesis by blast
qed

end
