(* ===== verification/Beads_Snapshot.thy ===== *)
theory Beads_Snapshot
  imports Beads_Scope
begin

section \<open>The shared snapshot of the tracker\<close>

text \<open>
  \<^verbatim>\<open>createBeadsScope\<close> of \<^verbatim>\<open>beads-scope.mjs\<close>: one listing of the whole tracker is cached, concurrent callers share one
  request, and every command that changes the tracker and every phase drops the cache.

  What happens while a request is away is a sequence of events: the tracker prints the listing at one moment and the
  answer arrives at a later one; a changing command takes effect at one moment and its call is settled at a later one:
  \<open>CommandReturned cmd ok\<close>, where \<open>ok\<close> is false when the call rejects, as \<^verbatim>\<open>command\<close> does after a time-out, a lost
  connection or an exit code that is not zero, whether or not the command took effect. The listing is the parsed value; a listing that cannot be fetched or parsed is \<open>FetchFailed\<close>. A command that
  \<^verbatim>\<open>isBeadsMutatingCommand\<close> calls a read leaves the tracker alone, which is what the tracker documents of \<^verbatim>\<open>list\<close>, \<^verbatim>\<open>show\<close>,
  \<^verbatim>\<open>ready\<close> and \<^verbatim>\<open>config\<close>. Changes made by agents on their own clones do not pass through the client; the source excludes them
  from its contract, and so does the model.
\<close>

record beads_client =
  bc_tracker :: "jsval list"
  bc_snapshot :: "jsval list option"
  bc_inflight :: "jsval list option option"
  bc_pending :: nat

datatype bc_event =
    Fetch
  | ListPrinted
  | FetchDone
  | FetchFailed
  | CommandApplied string "jsval list"
  | CommandReturned string bool
  | PhaseStarted
  | Invalidated

definition invalidateAllBeadsCache :: "beads_client \<Rightarrow> beads_client" where
  "invalidateAllBeadsCache c = c\<lparr>bc_snapshot := None\<rparr>"

definition hasCachedSnapshot :: "beads_client \<Rightarrow> bool" where
  "hasCachedSnapshot c \<longleftrightarrow> bc_snapshot c \<noteq> None"

text \<open>A call of \<^verbatim>\<open>fetchAllBeadsShared\<close>: the cached rows at once, else the request that is away or a new one.\<close>

definition fetchAllBeadsShared :: "beads_client \<Rightarrow> jsval list option \<times> beads_client" where
  "fetchAllBeadsShared c =
     (case bc_snapshot c of
        Some beads \<Rightarrow> (Some beads, c)
      | None \<Rightarrow> (None, if bc_inflight c = None then c\<lparr>bc_inflight := Some None\<rparr> else c))"

definition fetch_resolved :: "beads_client \<Rightarrow> beads_client" where
  "fetch_resolved c =
     (case bc_inflight c of
        Some (Some beads) \<Rightarrow> c\<lparr>bc_snapshot := Some beads, bc_inflight := None\<rparr>
      | _ \<Rightarrow> c)"

text \<open>
  What the function of \<^verbatim>\<open>wrapCommand\<close> does once the awaited command is settled: a rejection leaves it at the
  \<^verbatim>\<open>await\<close>, before the cache is looked at.
\<close>

definition wrapped_returned :: "string \<Rightarrow> bool \<Rightarrow> beads_client \<Rightarrow> beads_client" where
  "wrapped_returned cmd ok c =
     (if \<not> ok then c
      else if isBeadsMutatingCommand cmd then invalidateAllBeadsCache c
      else c)"

definition wrapPhase :: "beads_client \<Rightarrow> beads_client" where
  "wrapPhase c = invalidateAllBeadsCache c"

fun bc_step :: "bc_event \<Rightarrow> beads_client \<Rightarrow> beads_client" where
  "bc_step Fetch c = snd (fetchAllBeadsShared c)"
| "bc_step ListPrinted c = (if bc_inflight c = Some None then c\<lparr>bc_inflight := Some (Some (bc_tracker c))\<rparr> else c)"
| "bc_step FetchDone c = fetch_resolved c"
| "bc_step FetchFailed c = c\<lparr>bc_inflight := None\<rparr>"
| "bc_step (CommandApplied cmd rows) c =
     (if isBeadsMutatingCommand cmd then c\<lparr>bc_tracker := rows, bc_pending := bc_pending c + 1\<rparr> else c)"
| "bc_step (CommandReturned cmd ok) c =
     (let c' = wrapped_returned cmd ok c in
      if isBeadsMutatingCommand cmd then c'\<lparr>bc_pending := bc_pending c - 1\<rparr> else c')"
| "bc_step PhaseStarted c = wrapPhase c"
| "bc_step Invalidated c = invalidateAllBeadsCache c"

definition bc_start :: "jsval list \<Rightarrow> beads_client" where
  "bc_start rows = \<lparr>bc_tracker = rows, bc_snapshot = None, bc_inflight = None, bc_pending = 0\<rparr>"

subsection \<open>Scoped queries\<close>

definition filter_label :: "string \<Rightarrow> string option \<Rightarrow> string" where
  "filter_label rest assignee =
     ''bd list '' @ rest @ (case assignee of None \<Rightarrow> [] | Some a \<Rightarrow> '' --assignee '' @ a) @ '' --limit 0''"

text \<open>\<open>run\<close> is what the tracker answers to a fresh listing command.\<close>

definition bdListScoped ::
  "(string \<Rightarrow> jsval list res) \<Rightarrow> jsval list \<Rightarrow> string option \<Rightarrow> string \<Rightarrow> jsval list \<Rightarrow> jsval list res"
where
  "bdListScoped run targets assignee restArgs allBeads =
     (let rest = js_trim restArgs; scopeIds = discoverScope allBeads targets in
      if scopeIds = [] then Inr []
      else if rest = [] then Inr (filter (\<lambda>b. truthy b \<and> bead_key b \<in> set scopeIds) allBeads)
      else ebind (run (filter_label rest assignee)) (\<lambda>rows. Inr (filter (\<lambda>b. truthy b \<and> bead_key b \<in> set scopeIds) rows)))"

subsection \<open>When the snapshot is current\<close>

text \<open>No changing command takes effect between the printing of a listing and its arrival.\<close>

fun quiet_fetches :: "bc_event list \<Rightarrow> beads_client \<Rightarrow> bool" where
  "quiet_fetches [] c = True"
| "quiet_fetches (e # es) c =
     ((case e of CommandApplied cmd _ \<Rightarrow> isBeadsMutatingCommand cmd \<longrightarrow> bc_inflight c \<in> {None, Some None} | _ \<Rightarrow> True) \<and>
      quiet_fetches es (bc_step e c))"

text \<open>
  A snapshot is suspect from the moment the call of a changing command rejects while it is cached, until it is dropped.
\<close>

definition suspect_step :: "bc_event \<Rightarrow> beads_client \<Rightarrow> bool \<Rightarrow> bool" where
  "suspect_step e c l = (hasCachedSnapshot (bc_step e c) \<and>
     (l \<or> (case e of CommandReturned cmd ok \<Rightarrow> isBeadsMutatingCommand cmd \<and> \<not> ok | _ \<Rightarrow> False)))"

fun suspect :: "bc_event list \<Rightarrow> beads_client \<Rightarrow> bool \<Rightarrow> bool" where
  "suspect [] c l = l"
| "suspect (e # es) c l = suspect es (bc_step e c) (suspect_step e c l)"

definition bc_current :: "beads_client \<Rightarrow> bool \<Rightarrow> bool" where
  "bc_current c l \<longleftrightarrow> (\<forall>s. bc_snapshot c = Some s \<longrightarrow> bc_pending c = 0 \<longrightarrow> \<not> l \<longrightarrow> s = bc_tracker c) \<and>
     (\<forall>v. bc_inflight c = Some (Some v) \<longrightarrow> v = bc_tracker c)"

lemma bc_step_current:
  assumes "bc_current c l" "quiet_fetches [e] c"
  shows "bc_current (bc_step e c) (suspect_step e c l)"
  using assms
  by (cases e) (auto simp: bc_current_def suspect_step_def hasCachedSnapshot_def fetchAllBeadsShared_def fetch_resolved_def
      wrapped_returned_def wrapPhase_def invalidateAllBeadsCache_def Let_def split: option.splits if_splits)

lemma bc_run_current: "bc_current c l \<Longrightarrow> quiet_fetches es c \<Longrightarrow> bc_current (fold bc_step es c) (suspect es c l)"
proof (induction es arbitrary: c l)
  case (Cons e es)
  have "bc_current (bc_step e c) (suspect_step e c l)" using Cons.prems by (intro bc_step_current) simp_all
  with Cons show ?case by simp
qed simp

text \<open>
  Property C20. The snapshot of the tracker is current. For every sequence of fetches, failures, commands that return or
  reject, phases and invalidations in which no changing command takes effect while a printed listing is on its way, a
  snapshot that is served when no changing command is outstanding, and during whose caching no call of a changing command
  rejected, is exactly what the tracker would print now.
\<close>

theorem snapshot_current:
  assumes "quiet_fetches es (bc_start rows)" "bc_pending (fold bc_step es (bc_start rows)) = 0"
    and "\<not> suspect es (bc_start rows) False"
    and "fst (fetchAllBeadsShared (fold bc_step es (bc_start rows))) = Some s"
  shows "s = bc_tracker (fold bc_step es (bc_start rows))"
proof -
  have "bc_current (fold bc_step es (bc_start rows)) (suspect es (bc_start rows) False)"
    by (rule bc_run_current [OF _ assms(1)]) (simp add: bc_current_def bc_start_def)
  with assms(2-4) show ?thesis by (auto simp: bc_current_def fetchAllBeadsShared_def split: option.splits)
qed

definition demo_rows_before :: "jsval list" where
  "demo_rows_before = [JObj [(''id'', JStr ''a''), (''status'', JStr ''open'')]]"

definition demo_rows_after :: "jsval list" where
  "demo_rows_after = [JObj [(''id'', JStr ''a''), (''status'', JStr ''closed'')]]"

theorem snapshot_current_witness:
  "demo_rows_after = bc_tracker (fold bc_step [Fetch, ListPrinted, FetchDone, CommandApplied ''bd close a'' demo_rows_after,
       CommandReturned ''bd close a'' False, PhaseStarted, Fetch, ListPrinted, FetchDone, CommandApplied ''bd reopen a'' demo_rows_before,
       CommandReturned ''bd reopen a'' True, CommandApplied ''bd close a'' demo_rows_after, CommandReturned ''bd close a'' True,
       Fetch, ListPrinted, FetchDone] (bc_start demo_rows_before))"
  by (rule snapshot_current) code_simp+

text \<open>
  The invalidation races with a request that is away. A changing command that takes effect after the
  listing was printed and returns before the listing arrives drops a cache that is still empty; the listing is then
  cached, and the old rows are served although no command is outstanding.
\<close>

theorem snapshot_race_serves_stale:
  assumes "isBeadsMutatingCommand cmd" "rows \<noteq> rows'"
  shows "let c = fold bc_step [Fetch, ListPrinted, CommandApplied cmd rows', CommandReturned cmd True, FetchDone] (bc_start rows)
    in bc_pending c = 0 \<and> fst (fetchAllBeadsShared c) = Some rows \<and> bc_tracker c = rows' \<and> rows \<noteq> bc_tracker c"
  using assms by (simp add: bc_start_def fetchAllBeadsShared_def fetch_resolved_def wrapped_returned_def invalidateAllBeadsCache_def Let_def)

theorem snapshot_race_serves_stale_witness:
  "fst (fetchAllBeadsShared (fold bc_step [Fetch, ListPrinted, CommandApplied ''bd close a'' demo_rows_after,
      CommandReturned ''bd close a'' True, FetchDone] (bc_start demo_rows_before))) = Some demo_rows_before \<and>
   demo_rows_before \<noteq> demo_rows_after"
proof -
  have "isBeadsMutatingCommand ''bd close a''" "demo_rows_before \<noteq> demo_rows_after" by code_simp+
  from snapshot_race_serves_stale [OF this] this(2) show ?thesis by (simp add: Let_def)
qed

text \<open>
  A changing command that takes effect and whose call rejects leaves the snapshot in place: the old rows are served,
  although no command is outstanding and no listing was on its way.
\<close>

theorem snapshot_rejected_serves_stale:
  assumes "isBeadsMutatingCommand cmd" "rows \<noteq> rows'"
  shows "let es = [Fetch, ListPrinted, FetchDone, CommandApplied cmd rows', CommandReturned cmd False];
             c = fold bc_step es (bc_start rows)
    in quiet_fetches es (bc_start rows) \<and> bc_pending c = 0 \<and> fst (fetchAllBeadsShared c) = Some rows \<and> rows \<noteq> bc_tracker c"
  using assms by (simp add: bc_start_def fetchAllBeadsShared_def fetch_resolved_def wrapped_returned_def Let_def)

theorem snapshot_rejected_serves_stale_witness:
  "fst (fetchAllBeadsShared (fold bc_step [Fetch, ListPrinted, FetchDone, CommandApplied ''bd close a'' demo_rows_after,
      CommandReturned ''bd close a'' False] (bc_start demo_rows_before))) = Some demo_rows_before \<and>
   demo_rows_before \<noteq> demo_rows_after"
proof -
  have "isBeadsMutatingCommand ''bd close a''" "demo_rows_before \<noteq> demo_rows_after" by code_simp+
  from snapshot_rejected_serves_stale [OF this] this(2) show ?thesis by (simp add: Let_def)
qed

text \<open>Every row of a scoped answer is in the sprint's scope, and without a filter the answer is the whole scope.\<close>

lemma bdListScoped_scope:
  assumes "bdListScoped run targets assignee rest allBeads = Inr rows"
  shows "\<forall>b\<in>set rows. bead_key b \<in> (scope_rel allBeads)\<^sup>* `` set targets"
proof -
  have "\<forall>b\<in>set rows. bead_key b \<in> set (discoverScope allBeads targets)"
    using assms by (auto simp: bdListScoped_def Let_def ebind_eq_Inr split: if_splits)
  then show ?thesis by (simp add: discoverScope_set)
qed

end
