(* ===== verification/Member_Reservation.thy ===== *)
theory Member_Reservation
  imports JS_Prelude
begin

section \<open>Member reservations: the fleet server and the sprint's client\<close>

text \<open>
  The reservation a sprint takes on its members. On the fleet server: \<^verbatim>\<open>src/tools/member-reservation.ts\<close>, the lookups and
  the update of \<^verbatim>\<open>src/services/registry.ts\<close>, \<^verbatim>\<open>src/utils/agent-helpers.ts\<close> and \<^verbatim>\<open>src/utils/resolve-member.ts\<close> that it uses, and the
  reservation check of \<^verbatim>\<open>src/tools/execute-prompt.ts\<close>. In the sprint's process: \<^verbatim>\<open>createMemberReservationClient\<close> of
  \<^verbatim>\<open>fleet-sprint/coordination.mjs\<close>.

  One tool call is one atomic step of the server, which has no \<^verbatim>\<open>await\<close> inside; between two calls of a client any calls of
  other sprints may run, and a call or its answer may be lost. Of a member the fields that matter here are kept. The
  write of the registry file is taken to succeed (a failing write throws out of the tool call).
\<close>

subsection \<open>The registry\<close>

record agent =
  ag_id :: string
  ag_name :: string
  ag_unreservable :: bool
  ag_reservedBy :: "string option"

type_synonym registry = "agent list"

definition getAgent :: "registry \<Rightarrow> string \<Rightarrow> agent option" where
  "getAgent reg i = find (\<lambda>a. ag_id a = i) reg"

definition findAgentByName :: "registry \<Rightarrow> string \<Rightarrow> agent option" where
  "findAgentByName reg n = find (\<lambda>a. js_lower (ag_name a) = js_lower n) reg"

definition getAgentOrFail :: "registry \<Rightarrow> string \<Rightarrow> string + agent" where
  "getAgentOrFail reg i =
     (case (case getAgent reg i of Some a \<Rightarrow> Some a | None \<Rightarrow> findAgentByName reg i) of
        None \<Rightarrow> Inl (''Member '' @ dquoted i @ '' not found.'')
      | Some a \<Rightarrow> Inr a)"

text \<open>An optional string that is missing or empty is falsy.\<close>

definition given :: "string option \<Rightarrow> string option" where
  "given v = (case v of Some s \<Rightarrow> if s = [] then None else Some s | None \<Rightarrow> None)"

definition resolveMember :: "registry \<Rightarrow> string option \<Rightarrow> string option \<Rightarrow> string + agent" where
  "resolveMember reg mid mname =
     (if given mid = None \<and> given mname = None
      then Inl ''Error: provide either member_id (UUID) or member_name (friendly name).''
      else getAgentOrFail reg (case mid of Some i \<Rightarrow> i | None \<Rightarrow> (case mname of Some n \<Rightarrow> n | None \<Rightarrow> [])))"

fun updateAgent :: "registry \<Rightarrow> string \<Rightarrow> (agent \<Rightarrow> agent) \<Rightarrow> agent option \<times> registry" where
  "updateAgent [] i f = (None, [])"
| "updateAgent (a # as) i f =
     (if ag_id a = i then (Some (f a), f a # as)
      else case updateAgent as i f of (r, as') \<Rightarrow> (r, a # as'))"

subsection \<open>The tool\<close>

datatype rsv_action = Reserve | Release | ForceRelease

datatype rsv_outcome =
    Reserved | ReservationRefreshed | Released | ForceReleased | AlreadyReservedByOther
  | NotReserved | Unreservable | InvalidInput | MemberNotFound | Failed

record rsv_input =
  ri_member_id :: "string option"
  ri_member_name :: "string option"
  ri_action :: rsv_action
  ri_sprint_id :: "string option"

record rsv_result =
  rr_outcome :: rsv_outcome
  rr_ok :: bool
  rr_owner :: "string option"

definition reservationResult :: "rsv_outcome \<Rightarrow> string option \<Rightarrow> rsv_result" where
  "reservationResult out who =
     \<lparr>rr_outcome = out, rr_ok = (out \<notin> {AlreadyReservedByOther, InvalidInput, MemberNotFound, Failed}), rr_owner = who\<rparr>"

definition set_owner :: "registry \<Rightarrow> agent \<Rightarrow> string option \<Rightarrow> agent option \<times> registry" where
  "set_owner reg a v = updateAgent reg (ag_id a) (\<lambda>x. x\<lparr>ag_reservedBy := v\<rparr>)"

definition memberReservation :: "rsv_input \<Rightarrow> registry \<Rightarrow> rsv_result \<times> registry" where
  "memberReservation inp reg =
     (case resolveMember reg (ri_member_id inp) (ri_member_name inp) of
        Inl _ \<Rightarrow> (reservationResult MemberNotFound None, reg)
      | Inr a \<Rightarrow>
          if ag_unreservable a then (reservationResult Unreservable None, reg)
          else
            let who = ag_reservedBy a in
            case ri_action inp of
              Reserve \<Rightarrow>
                (case given (ri_sprint_id inp) of
                   None \<Rightarrow> (reservationResult InvalidInput who, reg)
                 | Some s \<Rightarrow>
                     if given who \<noteq> None \<and> who \<noteq> Some s then (reservationResult AlreadyReservedByOther who, reg)
                     else (case set_owner reg a (Some s) of
                             (None, reg') \<Rightarrow> (reservationResult Failed who, reg')
                           | (Some _, reg') \<Rightarrow> (reservationResult (if who = Some s then ReservationRefreshed else Reserved) who, reg')))
            | Release \<Rightarrow>
                (case given (ri_sprint_id inp) of
                   None \<Rightarrow> (reservationResult InvalidInput who, reg)
                 | Some s \<Rightarrow>
                     if given who = None then (reservationResult NotReserved None, reg)
                     else if who \<noteq> Some s then (reservationResult AlreadyReservedByOther who, reg)
                     else (case set_owner reg a None of
                             (None, reg') \<Rightarrow> (reservationResult Failed who, reg')
                           | (Some _, reg') \<Rightarrow> (reservationResult Released who, reg')))
            | ForceRelease \<Rightarrow>
                (case set_owner reg a None of
                   (None, reg') \<Rightarrow> (reservationResult Failed who, reg')
                 | (Some _, reg') \<Rightarrow>
                     if given who \<noteq> None then (reservationResult ForceReleased who, reg') else (reservationResult NotReserved None, reg')))"


subsection \<open>The client\<close>

text \<open>A call of any sprint, by member name as the client makes it.\<close>

type_synonym srv_call = "string \<times> rsv_action \<times> string"

definition tool_call :: "srv_call \<Rightarrow> registry \<Rightarrow> rsv_result \<times> registry" where
  "tool_call c reg =
     (case c of (m, act, s) \<Rightarrow>
        memberReservation \<lparr>ri_member_id = None, ri_member_name = Some m, ri_action = act, ri_sprint_id = Some s\<rparr> reg)"

record call_env =
  ev_others :: "nat \<Rightarrow> srv_call list"
  ev_transport :: "nat \<Rightarrow> transport"

definition run_others :: "srv_call list \<Rightarrow> registry \<Rightarrow> registry" where
  "run_others cs reg = fold (\<lambda>c r. snd (tool_call c r)) cs reg"

text \<open>\<^verbatim>\<open>callFor\<close>: whether the call was answered with success, and the outcome if an answer came.\<close>

definition callFor :: "call_env \<Rightarrow> nat \<Rightarrow> string \<Rightarrow> rsv_action \<Rightarrow> string \<Rightarrow> registry \<Rightarrow> (bool \<times> rsv_outcome option) \<times> registry" where
  "callFor env n s act m reg0 =
     (let reg = run_others (ev_others env n) reg0 in
      case ev_transport env n of
        Delivered \<Rightarrow> (case tool_call (m, act, s) reg of (r, reg') \<Rightarrow> ((rr_ok r, Some (rr_outcome r)), reg'))
      | LostRequest \<Rightarrow> ((False, None), reg)
      | LostAnswer \<Rightarrow> ((False, None), snd (tool_call (m, act, s) reg)))"

fun call_each ::
  "call_env \<Rightarrow> nat \<Rightarrow> string \<Rightarrow> rsv_action \<Rightarrow> string list \<Rightarrow> registry \<Rightarrow> (string \<times> bool \<times> rsv_outcome option) list \<times> registry"
where
  "call_each env n s act [] reg = ([], reg)"
| "call_each env n s act (m # ms) reg =
     (case callFor env n s act m reg of
        (r, reg1) \<Rightarrow> (case call_each env (Suc n) s act ms reg1 of (rs, reg2) \<Rightarrow> ((m, r) # rs, reg2)))"

definition client_active :: "string \<Rightarrow> string list \<Rightarrow> bool" where
  "client_active s ms \<longleftrightarrow> s \<noteq> [] \<and> ms \<noteq> []"

definition reserveAll :: "call_env \<Rightarrow> string \<Rightarrow> string list \<Rightarrow> registry \<Rightarrow> registry" where
  "reserveAll env s ms reg = (if client_active s ms then snd (call_each env 0 s Reserve ms reg) else reg)"

definition releaseAll :: "call_env \<Rightarrow> string \<Rightarrow> string list \<Rightarrow> registry \<Rightarrow> registry" where
  "releaseAll env s ms reg = (if client_active s ms then snd (call_each env 0 s Release ms reg) else reg)"

definition reserveForLaunch :: "call_env \<Rightarrow> string \<Rightarrow> string list \<Rightarrow> registry \<Rightarrow> string list \<times> registry" where
  "reserveForLaunch env s ms reg =
     (if \<not> client_active s ms then ([], reg)
      else
        case call_each env 0 s Reserve ms reg of (rs, reg1) \<Rightarrow>
          let reserved = map fst (filter (\<lambda>(m, ok, out). ok) rs);
              held = map fst (filter (\<lambda>(m, ok, out). \<not> ok \<and> out = Some AlreadyReservedByOther) rs)
          in (held, if held \<noteq> [] then snd (call_each env (length ms) s Release reserved reg1) else reg1))"

text \<open>\<open>Inl\<close> is \<^verbatim>\<open>MemberReservationResumeError\<close> with the members it names. The resync of a member is left to the caller.\<close>

definition reReserveForResume :: "call_env \<Rightarrow> string \<Rightarrow> string list \<Rightarrow> registry \<Rightarrow> (string list + string list) \<times> registry" where
  "reReserveForResume env s ms reg =
     (if \<not> client_active s ms then (Inr [], reg)
      else
        case call_each env 0 s Reserve ms reg of (rs, reg1) \<Rightarrow>
          let reacquired = map fst (filter (\<lambda>(m, ok, out). ok) rs);
              unavailable = map fst (filter (\<lambda>(m, ok, out). \<not> ok) rs)
          in if unavailable \<noteq> [] then (Inl unavailable, snd (call_each env (length ms) s Release reacquired reg1))
             else (Inr reacquired, reg1))"

subsection \<open>The table of owners\<close>

text \<open>
  What the tool promises, over the table of owners alone: the answer to a call on a member that can be reserved, and
  the owner after it.
\<close>

fun rsv_spec :: "rsv_action \<Rightarrow> string \<Rightarrow> string option \<Rightarrow> rsv_outcome \<times> string option" where
  "rsv_spec Reserve s None = (Reserved, Some s)"
| "rsv_spec Reserve s (Some t) = (if t = s then (ReservationRefreshed, Some s) else (AlreadyReservedByOther, Some t))"
| "rsv_spec Release s None = (NotReserved, None)"
| "rsv_spec Release s (Some t) = (if t = s then (Released, None) else (AlreadyReservedByOther, Some t))"
| "rsv_spec ForceRelease s None = (NotReserved, None)"
| "rsv_spec ForceRelease s (Some t) = (ForceReleased, None)"

definition owner :: "registry \<Rightarrow> string \<Rightarrow> string option" where
  "owner reg i = (case getAgent reg i of None \<Rightarrow> None | Some a \<Rightarrow> given (ag_reservedBy a))"

text \<open>The id of the member a name stands for, if there is one and it can be reserved.\<close>

definition ident :: "registry \<Rightarrow> string \<Rightarrow> string option" where
  "ident reg m =
     (case resolveMember reg None (Some m) of
        Inl _ \<Rightarrow> None
      | Inr a \<Rightarrow> if ag_unreservable a then None else Some (ag_id a))"

definition unique_ids :: "registry \<Rightarrow> bool" where
  "unique_ids reg \<longleftrightarrow> distinct (map ag_id reg)"

text \<open>What no call of the tool changes.\<close>

definition statics :: "registry \<Rightarrow> (string \<times> string \<times> bool) list" where
  "statics reg = map (\<lambda>a. (ag_id a, ag_name a, ag_unreservable a)) reg"

lemma given_Some [simp]: "given (Some s) = (if s = [] then None else Some s)" "given None = None"
  by (simp_all add: given_def)


lemma given_None: "given v = None \<longleftrightarrow> v = None \<or> v = Some []"
  by (cases v) (auto simp: given_def)

lemma updateAgent_map:
  assumes "distinct (map ag_id reg)" "\<And>a. ag_id (f a) = ag_id a"
  shows "snd (updateAgent reg i f) = map (\<lambda>a. if ag_id a = i then f a else a) reg
    \<and> (fst (updateAgent reg i f) = None \<longleftrightarrow> i \<notin> ag_id ` set reg)"
  using assms(1)
proof (induction reg)
  case (Cons a reg)
  have "ag_id a = i \<Longrightarrow> map (\<lambda>a. if ag_id a = i then f a else a) reg = reg"
    using Cons.prems by (intro map_idI) (auto simp: image_iff)
  then show ?case
    using Cons by (auto split: prod.splits)
qed simp

text \<open>A new owner for one member.\<close>

definition owned_by :: "registry \<Rightarrow> string \<Rightarrow> string option \<Rightarrow> registry" where
  "owned_by reg i v = map (\<lambda>x. if ag_id x = i then x\<lparr>ag_reservedBy := v\<rparr> else x) reg"

lemma set_owner_owned_by:
  assumes "unique_ids reg" "a \<in> set reg"
  shows "\<exists>b. set_owner reg a v = (Some b, owned_by reg (ag_id a) v)"
  using updateAgent_map[of reg "\<lambda>x. x\<lparr>ag_reservedBy := v\<rparr>" "ag_id a"] assms
  unfolding set_owner_def unique_ids_def owned_by_def
  by (cases "updateAgent reg (ag_id a) (\<lambda>x. x\<lparr>ag_reservedBy := v\<rparr>)") auto

lemma find_map_kept: "(\<And>x. P (h x) = P x) \<Longrightarrow> find P (map h xs) = map_option h (find P xs)"
  by (induction xs) auto

lemma getAgent_distinct: "unique_ids reg \<Longrightarrow> a \<in> set reg \<Longrightarrow> getAgent reg (ag_id a) = Some a"
  unfolding getAgent_def unique_ids_def by (induction reg) auto

lemma resolved_in: "resolveMember reg mid mname = Inr a \<Longrightarrow> a \<in> set reg"
  unfolding resolveMember_def getAgentOrFail_def getAgent_def findAgentByName_def
  by (auto split: if_splits option.splits dest!: find_SomeD)

lemma statics_owned_by [simp]: "statics (owned_by reg i v) = statics reg"
  unfolding statics_def owned_by_def by simp

lemma ids_of_statics: "map ag_id reg = map fst (statics reg)"
  unfolding statics_def by simp

lemma owner_owned_by:
  assumes "i \<in> ag_id ` set reg"
  shows "owner (owned_by reg i v) = (owner reg)(i := given v)"
proof
  fix j
  have "getAgent (owned_by reg i v) j
      = map_option (\<lambda>x. if ag_id x = i then x\<lparr>ag_reservedBy := v\<rparr> else x) (getAgent reg j)"
    unfolding getAgent_def owned_by_def by (rule find_map_kept) simp
  moreover have "getAgent reg j = Some a \<Longrightarrow> ag_id a = j" for a
    unfolding getAgent_def by (auto dest: find_SomeD)
  moreover have "\<exists>a. getAgent reg i = Some a"
    unfolding getAgent_def using assms by (auto intro!: find_ex)
  ultimately show "owner (owned_by reg i v) j = ((owner reg)(i := given v)) j"
    unfolding owner_def by (cases "getAgent reg j") auto
qed

lemma tool_call_refines_spec:
  assumes u: "unique_ids reg" and m: "ident reg m = Some i" and s: "s \<noteq> []"
  shows "rr_outcome (fst (tool_call (m, act, s) reg)) = fst (rsv_spec act s (owner reg i))
    \<and> owner (snd (tool_call (m, act, s) reg)) = (owner reg)(i := snd (rsv_spec act s (owner reg i)))"
proof -
  from m obtain a where a: "resolveMember reg None (Some m) = Inr a" "\<not> ag_unreservable a" "ag_id a = i"
    unfolding ident_def by (auto split: sum.splits if_splits)
  note inr = resolved_in[OF a(1)]
  have "getAgent reg i = Some a"
    using getAgent_distinct[OF u inr] a(3) by simp
  then have own: "owner reg i = given (ag_reservedBy a)"
    unfolding owner_def by simp
  obtain b c where b: "set_owner reg a (Some s) = (Some b, owned_by reg i (Some s))"
    and c: "set_owner reg a None = (Some c, owned_by reg i None)"
    using set_owner_owned_by[OF u inr] a(3) by metis
  have i: "i \<in> ag_id ` set reg"
    using inr a(3) by auto
  consider "ag_reservedBy a = None" | "ag_reservedBy a = Some []" | t where "ag_reservedBy a = Some t" "t \<noteq> []"
    by (cases "ag_reservedBy a") auto
  then show ?thesis
    by cases (cases act; auto simp: tool_call_def memberReservation_def reservationResult_def a(1,2) b c own s
      owner_owned_by[OF i] Let_def)+
qed

lemma tool_call_idle:
  assumes "ident reg m = None \<or> (s = [] \<and> act \<noteq> ForceRelease)"
  shows "snd (tool_call (m, act, s) reg) = reg"
  using assms unfolding tool_call_def memberReservation_def ident_def
  by (cases act) (auto split: sum.splits if_splits simp: Let_def)

lemma statics_set_owner: "statics (snd (set_owner reg a v)) = statics reg"
proof -
  have "statics (snd (updateAgent reg i (\<lambda>x. x\<lparr>ag_reservedBy := v\<rparr>))) = statics reg" for i
    unfolding statics_def by (induction reg) (auto split: prod.splits)
  then show ?thesis
    unfolding set_owner_def .
qed

lemma statics_tool_call [simp]: "statics (snd (tool_call c reg)) = statics reg"
  using statics_set_owner unfolding tool_call_def memberReservation_def
  by (auto simp: Let_def split: prod.splits sum.splits option.splits rsv_action.splits) (metis snd_conv)+

lemma unique_ids_statics: "unique_ids reg \<longleftrightarrow> distinct (map fst (statics reg))"
  unfolding unique_ids_def ids_of_statics ..

text \<open>Which member a name stands for is settled by the fixed fields.\<close>

definition ident_of :: "(string \<times> string \<times> bool) list \<Rightarrow> string \<Rightarrow> string option" where
  "ident_of sk m =
     (if m = [] then None
      else case (case find (\<lambda>(i, n, u). i = m) sk of Some a \<Rightarrow> Some a | None \<Rightarrow> find (\<lambda>(i, n, u). js_lower n = js_lower m) sk) of
             None \<Rightarrow> None
           | Some (i, n, u) \<Rightarrow> if u then None else Some i)"

lemma ident_statics: "ident reg m = ident_of (statics reg) m"
proof -
  have f: "find P (statics reg) = map_option (\<lambda>a. (ag_id a, ag_name a, ag_unreservable a))
      (find (\<lambda>a. P (ag_id a, ag_name a, ag_unreservable a)) reg)" for P
    unfolding statics_def by (induction reg) auto
  show ?thesis
    unfolding ident_def ident_of_def f resolveMember_def getAgentOrFail_def getAgent_def findAgentByName_def
    by (auto split: option.splits)
qed

subsection \<open>What a server that follows the table of owners gives its clients\<close>

text \<open>
  The interface a sprint relies on: every call is answered as the table of owners prescribes, and what a name stands
  for never changes. A call is foreign to a sprint if it is made for another sprint and is not the operator's
  \<^verbatim>\<open>force_release\<close>.
\<close>

definition foreign :: "string \<Rightarrow> srv_call \<Rightarrow> bool" where
  "foreign s c \<longleftrightarrow> (case c of (m, act, t) \<Rightarrow> t \<noteq> s \<and> act \<noteq> ForceRelease)"

lemma rsv_spec_foreign: "t \<noteq> s \<Longrightarrow> act \<noteq> ForceRelease \<Longrightarrow> snd (rsv_spec act t own) = Some s \<longleftrightarrow> own = Some s"
  by (cases act; cases own) auto

locale reservation_server =
  fixes call :: "srv_call \<Rightarrow> 'st \<Rightarrow> rsv_result \<times> 'st"
    and good :: "'st \<Rightarrow> bool"
    and names :: "'st \<Rightarrow> string \<Rightarrow> string option"
    and holder :: "'st \<Rightarrow> string \<Rightarrow> string option"
  assumes good_call: "good st \<Longrightarrow> good (snd (call c st))"
    and names_call: "names (snd (call c st)) = names st"
    and served: "good st \<Longrightarrow> names st m = Some i \<Longrightarrow> s \<noteq> [] \<Longrightarrow>
      rr_outcome (fst (call (m, act, s) st)) = fst (rsv_spec act s (holder st i))
      \<and> holder (snd (call (m, act, s) st)) = (holder st)(i := snd (rsv_spec act s (holder st i)))"
    and idle: "names st m = None \<or> s = [] \<and> act \<noteq> ForceRelease \<Longrightarrow> holder (snd (call (m, act, s) st)) = holder st"
begin

lemma foreign_call_keeps:
  assumes "good st" "foreign s c"
  shows "holder (snd (call c st)) i = Some s \<longleftrightarrow> holder st i = Some s"
proof -
  obtain m act t where c: "c = (m, act, t)" "t \<noteq> s" "act \<noteq> ForceRelease"
    using assms(2) unfolding foreign_def by (auto split: prod.splits)
  show ?thesis
  proof (cases "names st m = None \<or> t = []")
    case True
    then show ?thesis using idle[of st m t act] c by auto
  next
    case False
    then obtain j where "names st m = Some j" "t \<noteq> []" by auto
    from served[OF assms(1) this, of act] show ?thesis
      using rsv_spec_foreign[OF c(2,3)] c(1) by (auto simp: fun_upd_def)
  qed
qed

definition run_calls :: "srv_call list \<Rightarrow> 'st \<Rightarrow> 'st" where
  "run_calls cs st = fold (\<lambda>c st. snd (call c st)) cs st"

lemma good_run: "good st \<Longrightarrow> good (run_calls cs st)"
  unfolding run_calls_def by (induction cs arbitrary: st) (auto simp: good_call)

lemma names_run: "names (run_calls cs st) = names st"
  unfolding run_calls_def by (induction cs arbitrary: st) (auto simp: names_call)

lemma foreign_run_keeps:
  "good st \<Longrightarrow> \<forall>c\<in>set cs. foreign s c \<Longrightarrow> holder (run_calls cs st) i = Some s \<longleftrightarrow> holder st i = Some s"
  unfolding run_calls_def
  by (induction cs arbitrary: st) (auto simp: good_call foreign_call_keeps)

lemma reserve_answer:
  assumes "good st" "names st m = Some i" "s \<noteq> []"
  shows "rr_outcome (fst (call (m, Reserve, s) st)) \<in> {Reserved, ReservationRefreshed} \<and> holder (snd (call (m, Reserve, s) st)) i = Some s
    \<or> rr_outcome (fst (call (m, Reserve, s) st)) = AlreadyReservedByOther \<and> holder (snd (call (m, Reserve, s) st)) i \<noteq> Some s
      \<and> holder st i \<noteq> Some s"
  using served[OF assms, of Reserve] by (cases "holder st i") auto

lemma reserve_elsewhere:
  assumes "good st" "names st m = Some i" "s \<noteq> []" "j \<noteq> i"
  shows "holder (snd (call (m, act, s) st)) j = holder st j"
  using served[OF assms(1-3)] assms(4) by simp

lemma release_clears:
  assumes "good st" "names st m = Some i" "s \<noteq> []"
  shows "holder (snd (call (m, Release, s) st)) i \<noteq> Some s"
  using served[OF assms, of Release] by (cases "holder st i") auto

lemma own_reserve_keeps:
  assumes "good st" "s \<noteq> []" "holder st j = Some s"
  shows "holder (snd (call (m, Reserve, s) st)) j = Some s"
proof (cases "names st m")
  case None
  then show ?thesis using idle[of st m s Reserve] assms(3) by simp
next
  case (Some i)
  from served[OF assms(1) this assms(2), of Reserve] assms(3) show ?thesis by (cases "j = i") auto
qed

lemma unnamed_keeps: "names st m = None \<Longrightarrow> holder (snd (call (m, act, s) st)) = holder st"
  by (rule idle) simp

lemma refused_to_others:
  assumes "good st" "names st m = Some i" "holder st i = Some s" "t \<noteq> s" "t \<noteq> []"
  shows "rr_outcome (fst (call (m, Reserve, t) st)) = AlreadyReservedByOther"
  using served[OF assms(1,2,5), of Reserve] assms(3,4) by simp

end

interpretation fleet: reservation_server tool_call unique_ids ident owner
proof
  show "unique_ids reg \<Longrightarrow> unique_ids (snd (tool_call c reg))" for reg c
    by (simp add: unique_ids_statics)
  show "ident (snd (tool_call c reg)) = ident reg" for c reg
    by (rule ext) (simp add: ident_statics)
  show "owner (snd (tool_call (m, act, s) reg)) = owner reg"
    if "ident reg m = None \<or> s = [] \<and> act \<noteq> ForceRelease" for reg m act s
    using tool_call_idle[OF that] by simp
qed (rule tool_call_refines_spec)

lemma run_others_calls: "run_others cs reg = fleet.run_calls cs reg"
  unfolding run_others_def fleet.run_calls_def ..

subsection \<open>The client's loops\<close>

text \<open>Between two calls of the sprint only calls run that are foreign to it. Its own calls may be lost, or their answers.\<close>

definition undisturbed :: "call_env \<Rightarrow> string \<Rightarrow> bool" where
  "undisturbed env s \<longleftrightarrow> (\<forall>n. \<forall>c\<in>set (ev_others env n). foreign s c)"

lemma rr_ok_tool_call:
  "rr_ok (fst (tool_call c reg)) \<longleftrightarrow>
    rr_outcome (fst (tool_call c reg)) \<notin> {AlreadyReservedByOther, InvalidInput, MemberNotFound, Failed}"
  unfolding tool_call_def memberReservation_def
  by (auto simp: Let_def reservationResult_def split: prod.splits sum.splits option.splits rsv_action.splits)

lemma tool_call_by_other:
  assumes "rr_outcome (fst (tool_call (m, Reserve, s) reg)) = AlreadyReservedByOther" "s \<noteq> []"
  shows "ident reg m \<noteq> None"
  using assms unfolding tool_call_def memberReservation_def ident_def
  by (auto simp: Let_def reservationResult_def split: prod.splits sum.splits option.splits if_splits)

lemma statics_call_each: "statics (snd (call_each env n s act ms reg)) = statics reg"
proof (induction ms arbitrary: n reg)
  case (Cons m ms)
  have "statics (run_others cs reg) = statics reg" for cs
    unfolding run_others_def by (induction cs arbitrary: reg) auto
  then have "statics (snd (callFor env n s act m reg)) = statics reg"
    unfolding callFor_def by (auto simp: Let_def split: transport.splits prod.splits) (metis snd_conv statics_tool_call)
  then show ?case
    using Cons.IH[of "Suc n" "snd (callFor env n s act m reg)"] by (auto split: prod.splits)
qed simp

text \<open>One call of the sprint: the foreign calls before it, then the call itself unless the request is lost.\<close>

lemma callFor_cases:
  assumes "undisturbed env s" "unique_ids reg" "callFor env n s act m reg = ((ok, out), reg')"
  obtains reg1 where "unique_ids reg1" "ident reg1 = ident reg" "\<forall>j. owner reg1 j = Some s \<longleftrightarrow> owner reg j = Some s"
    "case ev_transport env n of
       Delivered \<Rightarrow> ok = rr_ok (fst (tool_call (m, act, s) reg1)) \<and> out = Some (rr_outcome (fst (tool_call (m, act, s) reg1)))
         \<and> reg' = snd (tool_call (m, act, s) reg1)
     | LostRequest \<Rightarrow> \<not> ok \<and> out = None \<and> reg' = reg1
     | LostAnswer \<Rightarrow> \<not> ok \<and> out = None \<and> reg' = snd (tool_call (m, act, s) reg1)"
proof
  let ?reg1 = "fleet.run_calls (ev_others env n) reg"
  show "unique_ids ?reg1" "ident ?reg1 = ident reg" by (simp_all add: fleet.good_run assms(2) fleet.names_run)
  show "\<forall>j. owner ?reg1 j = Some s \<longleftrightarrow> owner reg j = Some s"
    using assms(1) unfolding undisturbed_def by (intro allI fleet.foreign_run_keeps[OF assms(2)]) simp
  show "case ev_transport env n of
       Delivered \<Rightarrow> ok = rr_ok (fst (tool_call (m, act, s) ?reg1)) \<and> out = Some (rr_outcome (fst (tool_call (m, act, s) ?reg1)))
         \<and> reg' = snd (tool_call (m, act, s) ?reg1)
     | LostRequest \<Rightarrow> \<not> ok \<and> out = None \<and> reg' = ?reg1
     | LostAnswer \<Rightarrow> \<not> ok \<and> out = None \<and> reg' = snd (tool_call (m, act, s) ?reg1)"
    using assms(3) by (auto simp: callFor_def Let_def run_others_calls split: transport.splits prod.splits)
qed

lemma callFor_static:
  assumes "undisturbed env s" "unique_ids reg" "callFor env n s act m reg = (r, reg')"
  shows "unique_ids reg'" "ident reg' = ident reg"
proof -
  obtain ok out where r: "r = (ok, out)" by fastforce
  from assms(3) [unfolded r] show "unique_ids reg'" "ident reg' = ident reg"
    by - (erule callFor_cases[OF assms(1,2)]; auto simp: fleet.good_call fleet.names_call split: transport.splits)+
qed

lemma callFor_reserve:
  assumes c: "undisturbed env s" and u: "unique_ids reg" and s: "s \<noteq> []"
    and r: "callFor env n s Reserve m reg = ((ok, out), reg')"
  shows "owner reg j = Some s \<Longrightarrow> owner reg' j = Some s"
    and "ok \<Longrightarrow> ident reg m = Some i \<Longrightarrow> owner reg' i = Some s"
    and "out = Some AlreadyReservedByOther \<Longrightarrow> \<not> ok \<and> (\<exists>i. ident reg m = Some i \<and> owner reg i \<noteq> Some s)"
    and "ident reg m = Some i \<Longrightarrow> ev_transport env n = Delivered \<Longrightarrow> ok \<or> out = Some AlreadyReservedByOther"
    and "owner reg' j = Some s \<Longrightarrow> owner reg j = Some s \<or> ident reg m = Some j \<and> (ok \<or> ev_transport env n \<noteq> Delivered)"
proof -
  from c u r obtain reg1 where reg1: "unique_ids reg1" "ident reg1 = ident reg" "\<forall>j. owner reg1 j = Some s \<longleftrightarrow> owner reg j = Some s"
    and out: "case ev_transport env n of
       Delivered \<Rightarrow> ok = rr_ok (fst (tool_call (m, Reserve, s) reg1)) \<and> out = Some (rr_outcome (fst (tool_call (m, Reserve, s) reg1)))
         \<and> reg' = snd (tool_call (m, Reserve, s) reg1)
     | LostRequest \<Rightarrow> \<not> ok \<and> out = None \<and> reg' = reg1
     | LostAnswer \<Rightarrow> \<not> ok \<and> out = None \<and> reg' = snd (tool_call (m, Reserve, s) reg1)"
    by (rule callFor_cases)
  note ans = fleet.reserve_answer[OF reg1(1) _ s, unfolded reg1(2)]
  note keeps = fleet.own_reserve_keeps[OF reg1(1) s]
  show "owner reg j = Some s \<Longrightarrow> owner reg' j = Some s"
    using out keeps reg1(3) by (auto split: transport.splits)
  show "ok \<Longrightarrow> ident reg m = Some i \<Longrightarrow> owner reg' i = Some s"
    using out ans by (auto simp: rr_ok_tool_call split: transport.splits)
  show "out = Some AlreadyReservedByOther \<Longrightarrow> \<not> ok \<and> (\<exists>i. ident reg m = Some i \<and> owner reg i \<noteq> Some s)"
    using out ans tool_call_by_other[OF _ s, of m reg1] reg1(2,3) by (fastforce simp: rr_ok_tool_call split: transport.splits)
  show "ident reg m = Some i \<Longrightarrow> ev_transport env n = Delivered \<Longrightarrow> ok \<or> out = Some AlreadyReservedByOther"
    using out ans by (fastforce simp: rr_ok_tool_call)
  have "owner (snd (tool_call (m, Reserve, s) reg1)) j = Some s \<Longrightarrow> owner reg1 j = Some s \<or> ident reg m = Some j"
    using fleet.unnamed_keeps[of reg1 m Reserve s] fleet.reserve_elsewhere[OF reg1(1) _ s, of m _ j Reserve] reg1(2)
    by (cases "ident reg m") auto
  then show "owner reg' j = Some s \<Longrightarrow> owner reg j = Some s \<or> ident reg m = Some j \<and> (ok \<or> ev_transport env n \<noteq> Delivered)"
    using out ans reg1(3) by (fastforce simp: rr_ok_tool_call split: transport.splits)
qed

lemma callFor_release:
  assumes c: "undisturbed env s" and u: "unique_ids reg" and s: "s \<noteq> []"
    and r: "callFor env n s Release m reg = (res, reg')" and o: "owner reg' j = Some s"
  shows "owner reg j = Some s \<and> (ident reg m = Some j \<longrightarrow> ev_transport env n = LostRequest)"
proof -
  obtain ok out where res: "res = (ok, out)" by fastforce
  from c u r [unfolded res] obtain reg1 where reg1: "unique_ids reg1" "ident reg1 = ident reg"
      "\<forall>j. owner reg1 j = Some s \<longleftrightarrow> owner reg j = Some s"
    and out: "case ev_transport env n of
       Delivered \<Rightarrow> ok = rr_ok (fst (tool_call (m, Release, s) reg1)) \<and> out = Some (rr_outcome (fst (tool_call (m, Release, s) reg1)))
         \<and> reg' = snd (tool_call (m, Release, s) reg1)
     | LostRequest \<Rightarrow> \<not> ok \<and> out = None \<and> reg' = reg1
     | LostAnswer \<Rightarrow> \<not> ok \<and> out = None \<and> reg' = snd (tool_call (m, Release, s) reg1)"
    by (rule callFor_cases)
  have "owner reg1 j = Some s \<and> ident reg m \<noteq> Some j" if "owner (snd (tool_call (m, Release, s) reg1)) j = Some s"
  proof (cases "ident reg m")
    case None
    then show ?thesis using that fleet.unnamed_keeps[of reg1 m Release s] reg1(2) by simp
  next
    case (Some i)
    then show ?thesis
      using that fleet.reserve_elsewhere[OF reg1(1) _ s, of m i j Release] fleet.release_clears[OF reg1(1) _ s, of m i] reg1(2)
      by (cases "j = i") auto
  qed
  then show ?thesis using out o reg1(3) by (auto split: transport.splits)
qed

definition granted :: "(string \<times> bool \<times> rsv_outcome option) list \<Rightarrow> string list" where
  "granted rs = map fst (filter (\<lambda>(m, ok, out). ok) rs)"

lemma in_granted: "m \<in> set (granted rs) \<longleftrightarrow> (\<exists>out. (m, True, out) \<in> set rs)"
  unfolding granted_def by force

lemma call_each_static:
  assumes "undisturbed env s" "unique_ids reg" "call_each env n s act ms reg = (rs, reg')"
  shows "unique_ids reg' \<and> ident reg' = ident reg \<and> map fst rs = ms"
  using assms(2,3)
proof (induction ms arbitrary: n reg rs)
  case (Cons m ms)
  then obtain r reg1 rs1 where r: "callFor env n s act m reg = (r, reg1)"
    "call_each env (Suc n) s act ms reg1 = (rs1, reg')" "rs = (m, r) # rs1"
    by (auto split: prod.splits)
  note st = callFor_static[OF assms(1) Cons.prems(1) r(1)]
  show ?case
    using Cons.IH[OF st(1) r(2)] st(2) r(3) by simp
qed simp

text \<open>
  The loop that reserves: what the sprint owned it keeps; a granted member it owns; a member reported as held it did not
  own; an answered call on a member that can be reserved is granted or reported; and what it owns afterwards it owned
  before or was granted, unless an answer was lost.
\<close>

lemma call_each_reserve:
  assumes c: "undisturbed env s" and s: "s \<noteq> []"
  shows "unique_ids reg \<Longrightarrow> call_each env n s Reserve ms reg = (rs, reg') \<Longrightarrow>
    (\<forall>j. owner reg j = Some s \<longrightarrow> owner reg' j = Some s) \<and>
    (\<forall>(m, ok, out)\<in>set rs. (ok \<longrightarrow> (\<forall>i. ident reg m = Some i \<longrightarrow> owner reg' i = Some s)) \<and>
       (out = Some AlreadyReservedByOther \<longrightarrow> \<not> ok \<and> (\<exists>i. ident reg m = Some i \<and> owner reg i \<noteq> Some s))) \<and>
    (\<forall>k<length ms. ident reg (ms ! k) \<noteq> None \<longrightarrow> ev_transport env (n + k) = Delivered \<longrightarrow>
       (ms ! k, True, snd (snd (rs ! k))) \<in> set rs \<or> (ms ! k, False, Some AlreadyReservedByOther) \<in> set rs) \<and>
    (\<forall>j. owner reg' j = Some s \<longrightarrow> owner reg j = Some s \<or> (\<exists>k<length ms. ident reg (ms ! k) = Some j \<and>
       ((ms ! k, True, snd (snd (rs ! k))) \<in> set rs \<or> ev_transport env (n + k) \<noteq> Delivered)))"
  (is "_ \<Longrightarrow> _ \<Longrightarrow> ?P n ms reg rs reg'")
proof (induction ms arbitrary: n reg rs)
  case (Cons m ms)
  obtain ok out reg1 rs1 where r: "callFor env n s Reserve m reg = ((ok, out), reg1)"
    "call_each env (Suc n) s Reserve ms reg1 = (rs1, reg')" "rs = (m, ok, out) # rs1"
    using Cons.prems(2) by (auto split: prod.splits)
  note st = callFor_static[OF c Cons.prems(1) r(1)]
  note one = callFor_reserve[OF c Cons.prems(1) s r(1)]
  note rest = Cons.IH[OF st(1) r(2), unfolded st(2)]
  show ?case
  proof (intro conjI)
    show "\<forall>j. owner reg j = Some s \<longrightarrow> owner reg' j = Some s"
      using one(1) rest by blast
    show "\<forall>(m, ok, out)\<in>set rs. (ok \<longrightarrow> (\<forall>i. ident reg m = Some i \<longrightarrow> owner reg' i = Some s)) \<and>
       (out = Some AlreadyReservedByOther \<longrightarrow> \<not> ok \<and> (\<exists>i. ident reg m = Some i \<and> owner reg i \<noteq> Some s))"
      using one(1-3) rest unfolding r(3) by fastforce
    show "\<forall>k<length (m # ms). ident reg ((m # ms) ! k) \<noteq> None \<longrightarrow> ev_transport env (n + k) = Delivered \<longrightarrow>
       ((m # ms) ! k, True, snd (snd (rs ! k))) \<in> set rs \<or> ((m # ms) ! k, False, Some AlreadyReservedByOther) \<in> set rs"
    proof (intro allI impI)
      fix k assume k: "k < length (m # ms)" "ident reg ((m # ms) ! k) \<noteq> None" "ev_transport env (n + k) = Delivered"
      show "((m # ms) ! k, True, snd (snd (rs ! k))) \<in> set rs \<or> ((m # ms) ! k, False, Some AlreadyReservedByOther) \<in> set rs"
        using k one(3,4) rest unfolding r(3) by (cases k) auto
    qed
    show "\<forall>j. owner reg' j = Some s \<longrightarrow> owner reg j = Some s \<or> (\<exists>k<length (m # ms). ident reg ((m # ms) ! k) = Some j \<and>
       (((m # ms) ! k, True, snd (snd (rs ! k))) \<in> set rs \<or> ev_transport env (n + k) \<noteq> Delivered))"
    proof (intro allI impI)
      fix j assume "owner reg' j = Some s"
      then consider "owner reg1 j = Some s"
        | k where "k < length ms" "ident reg (ms ! k) = Some j"
            "(ms ! k, True, snd (snd (rs1 ! k))) \<in> set rs1 \<or> ev_transport env (Suc n + k) \<noteq> Delivered"
        using rest by blast
      then show "owner reg j = Some s \<or> (\<exists>k<length (m # ms). ident reg ((m # ms) ! k) = Some j \<and>
         (((m # ms) ! k, True, snd (snd (rs ! k))) \<in> set rs \<or> ev_transport env (n + k) \<noteq> Delivered))"
      proof cases
        case 1
        from one(5)[OF this] show ?thesis by (cases ok) (auto simp: r(3) intro!: exI[of _ 0])
      next
        case 2
        then show ?thesis by (intro disjI2 exI[of _ "Suc k"]) (auto simp: r(3))
      qed
    qed
  qed
qed simp

lemma call_each_release:
  assumes c: "undisturbed env s" and s: "s \<noteq> []"
  shows "unique_ids reg \<Longrightarrow> call_each env n s Release ms reg = (rs, reg') \<Longrightarrow> owner reg' j = Some s \<Longrightarrow>
    owner reg j = Some s \<and> ((\<forall>k\<ge>n. ev_transport env k \<noteq> LostRequest) \<longrightarrow> (\<forall>m\<in>set ms. ident reg m \<noteq> Some j))"
proof (induction ms arbitrary: n reg rs)
  case (Cons m ms)
  obtain r1 reg1 rs1 where r: "callFor env n s Release m reg = (r1, reg1)"
    "call_each env (Suc n) s Release ms reg1 = (rs1, reg')"
    using Cons.prems(2) by (auto split: prod.splits)
  note st = callFor_static[OF c Cons.prems(1) r(1)]
  note rest = Cons.IH[OF st(1) r(2) Cons.prems(3), unfolded st(2)]
  from callFor_release[OF c Cons.prems(1) s r(1) conjunct1[OF rest]] rest show ?case
    by auto
qed simp

text \<open>
  What the sprint holds once the members it was granted are handed back: nothing of a member that all its calls were
  answered for, provided that the release requests arrive.
\<close>

lemma handed_back:
  assumes c: "undisturbed env s" and s: "s \<noteq> []" and u: "unique_ids reg"
    and r: "call_each env 0 s Reserve ms reg = (rs, reg1)"
    and rel: "\<forall>n\<ge>length ms. ev_transport env n \<noteq> LostRequest"
    and i: "k0 < length ms" "ident reg (ms ! k0) = Some i"
    and ans: "\<forall>k<length ms. ident reg (ms ! k) = Some i \<longrightarrow> ev_transport env k = Delivered"
  shows "owner (snd (call_each env (length ms) s Release (granted rs) reg1)) i \<noteq> Some s"
proof
  assume o: "owner (snd (call_each env (length ms) s Release (granted rs) reg1)) i = Some s"
  have st: "unique_ids reg1" "ident reg1 = ident reg"
    using call_each_static[OF c u r] by simp_all
  have o1: "owner reg1 i = Some s" and none: "\<forall>m\<in>set (granted rs). ident reg m \<noteq> Some i"
    using call_each_release[OF c s st(1) prod.collapse[symmetric] o] rel st(2) by auto
  note f = call_each_reserve[OF c s u r, unfolded add_0]
  have "owner reg i = Some s"
    using f o1 none ans by (metis in_granted)
  moreover have "(ms ! k0, True, snd (snd (rs ! k0))) \<in> set rs \<or> (ms ! k0, False, Some AlreadyReservedByOther) \<in> set rs"
    using f i ans by blast
  ultimately show False
    using f none i by (fastforce simp: in_granted)
qed

lemma reserveForLaunch_unfold:
  assumes "s \<noteq> []" "call_each env 0 s Reserve ms reg = (rs, reg1)" "reserveForLaunch env s ms reg = (held, reg')"
  shows "held = map fst (filter (\<lambda>(m, ok, out). \<not> ok \<and> out = Some AlreadyReservedByOther) rs)"
    and "reg' = (if held \<noteq> [] then snd (call_each env (length ms) s Release (granted rs) reg1) else reg1)"
  using assms unfolding reserveForLaunch_def client_active_def granted_def
  by (cases "ms = []"; auto simp: Let_def split: if_splits)+

lemma reserveForLaunch_owns:
  assumes "unique_ids reg" "undisturbed env s" "s \<noteq> []" "reserveForLaunch env s ms reg = ([], reg')"
    and "k < length ms" "ident reg (ms ! k) = Some i" "ev_transport env k = Delivered"
  shows "owner reg' i = Some s \<and> statics reg' = statics reg"
proof -
  obtain rs reg1 where rs: "call_each env 0 s Reserve ms reg = (rs, reg1)"
    by fastforce
  note un = reserveForLaunch_unfold[OF assms(3) rs assms(4)]
  note f = call_each_reserve[OF assms(2,3,1) rs, unfolded add_0]
  have "(ms ! k, False, Some AlreadyReservedByOther) \<notin> set rs"
    using un(1) by (auto simp: filter_empty_conv)
  then have "(ms ! k, True, snd (snd (rs ! k))) \<in> set rs"
    using f assms(5-7) by blast
  with f assms(6) have "owner reg1 i = Some s"
    by fastforce
  then show ?thesis
    using un(2) statics_call_each[of env 0 s Reserve ms reg] rs by simp
qed

subsection \<open>Properties\<close>

text \<open>
  Property C21. What a launch that reserves its members owns, whatever other sprints call between its calls short of an
  operator's force-release, and with any of its own calls or their answers lost. A member it reports as held is one of its
  members that can be reserved and that it did not own. If it reports none, the sprint is the recorded owner of every
  member that can be reserved and whose reserve call was answered. If it reports one, and the release requests that follow
  arrive, the sprint owns no member all of whose reserve calls were answered, also where two names stand for one member
  or a member is listed twice. With every call answered it thus owns all its members that can be reserved, or none.
\<close>

theorem launch_reserves_all_or_nothing:
  assumes "unique_ids reg" "undisturbed env s" "s \<noteq> []"
    and r: "reserveForLaunch env s ms reg = (held, reg')"
  shows "(\<forall>m\<in>set held. m \<in> set ms \<and> (\<exists>i. ident reg m = Some i \<and> owner reg i \<noteq> Some s)) \<and>
    (held = [] \<longrightarrow> (\<forall>k<length ms. \<forall>i. ident reg (ms ! k) = Some i \<longrightarrow> ev_transport env k = Delivered \<longrightarrow> owner reg' i = Some s)) \<and>
    (held \<noteq> [] \<longrightarrow> (\<forall>n\<ge>length ms. ev_transport env n \<noteq> LostRequest) \<longrightarrow>
       (\<forall>m\<in>set ms. \<forall>i. ident reg m = Some i \<longrightarrow>
          (\<forall>k<length ms. ident reg (ms ! k) = Some i \<longrightarrow> ev_transport env k = Delivered) \<longrightarrow> owner reg' i \<noteq> Some s))"
proof -
  obtain rs reg1 where rs: "call_each env 0 s Reserve ms reg = (rs, reg1)"
    by fastforce
  note un = reserveForLaunch_unfold[OF assms(3) rs r]
  note f = call_each_reserve[OF assms(2,3,1) rs]
  have fst: "map fst rs = ms"
    using call_each_static[OF assms(2,1) rs] by simp
  have "\<forall>m\<in>set held. m \<in> set ms \<and> (\<exists>i. ident reg m = Some i \<and> owner reg i \<noteq> Some s)"
    using conjunct1[OF conjunct2[OF f]] unfolding un(1) fst[symmetric] by fastforce
  moreover have "held = [] \<longrightarrow> (\<forall>k<length ms. \<forall>i. ident reg (ms ! k) = Some i \<longrightarrow> ev_transport env k = Delivered \<longrightarrow> owner reg' i = Some s)"
    using reserveForLaunch_owns[OF assms(1-3)] r by blast
  moreover have "held \<noteq> [] \<longrightarrow> (\<forall>n\<ge>length ms. ev_transport env n \<noteq> LostRequest) \<longrightarrow>
       (\<forall>m\<in>set ms. \<forall>i. ident reg m = Some i \<longrightarrow>
          (\<forall>k<length ms. ident reg (ms ! k) = Some i \<longrightarrow> ev_transport env k = Delivered) \<longrightarrow> owner reg' i \<noteq> Some s)"
    using handed_back[OF assms(2,3,1) rs] un(2) by (auto simp: in_set_conv_nth)
  ultimately show ?thesis by blast
qed

text \<open>
  A resume takes all members back or none, again with calls that may be lost: when it succeeds it lists all members in
  order and the sprint owns each that can be reserved; when it fails it names at least one of its members, and if the
  release requests arrive the sprint owns no member all of whose reserve calls were answered.
\<close>

theorem resume_reserves_all_or_nothing:
  assumes "unique_ids reg" "undisturbed env s" "s \<noteq> []" "ms \<noteq> []"
    and r: "reReserveForResume env s ms reg = (res, reg')"
  shows "case res of
      Inr got \<Rightarrow> got = ms \<and> (\<forall>m\<in>set ms. \<forall>i. ident reg m = Some i \<longrightarrow> owner reg' i = Some s)
    | Inl lost \<Rightarrow> lost \<noteq> [] \<and> set lost \<subseteq> set ms \<and> ((\<forall>n\<ge>length ms. ev_transport env n \<noteq> LostRequest) \<longrightarrow>
       (\<forall>m\<in>set ms. \<forall>i. ident reg m = Some i \<longrightarrow>
          (\<forall>k<length ms. ident reg (ms ! k) = Some i \<longrightarrow> ev_transport env k = Delivered) \<longrightarrow> owner reg' i \<noteq> Some s))"
proof -
  obtain rs reg1 where rs: "call_each env 0 s Reserve ms reg = (rs, reg1)"
    by fastforce
  note f = call_each_reserve[OF assms(2,3,1) rs]
  have fst: "map fst rs = ms"
    using call_each_static[OF assms(2,1) rs] by simp
  define lost where "lost = map fst (filter (\<lambda>(m, ok, out). \<not> ok) rs)"
  have h: "(res, reg') = (if lost \<noteq> [] then (Inl lost, snd (call_each env (length ms) s Release (granted rs) reg1))
      else (Inr (granted rs), reg1))"
    using r assms(3,4) rs unfolding reReserveForResume_def client_active_def granted_def lost_def
    by (auto simp: Let_def)
  show ?thesis
  proof (cases "lost = []")
    case True
    then have ok: "\<forall>x\<in>set rs. fst (snd x)"
      unfolding lost_def by (auto simp: filter_empty_conv)
    then have "granted rs = map fst rs"
      unfolding granted_def by (intro arg_cong[of _ _ "map fst"] filter_True) auto
    moreover have "owner reg1 i = Some s" if "m \<in> set ms" "ident reg m = Some i" for m i
      using that f ok unfolding fst[symmetric] by fastforce
    ultimately show ?thesis
      using h True fst by simp
  next
    case False
    moreover have "set lost \<subseteq> set ms"
      unfolding lost_def fst[symmetric] by auto
    ultimately show ?thesis
      using h handed_back[OF assms(2,3,1) rs] by (auto simp: in_set_conv_nth)
  qed
qed


subsection \<open>Concrete runs\<close>

definition ex_registry :: registry where
  "ex_registry =
     [\<lparr>ag_id = ''u1'', ag_name = ''Alpha'', ag_unreservable = False, ag_reservedBy = None\<rparr>,
      \<lparr>ag_id = ''u2'', ag_name = ''beta'', ag_unreservable = False, ag_reservedBy = Some []\<rparr>]"

text \<open>Sprint \<^verbatim>\<open>t\<close> reserves \<^verbatim>\<open>beta\<close> between the two reserve calls of sprint \<^verbatim>\<open>s\<close>, or tries to release \<^verbatim>\<open>alpha\<close>.\<close>

definition ex_racing :: call_env where
  "ex_racing = \<lparr>ev_others = (\<lambda>n. if n = 1 then [(''beta'', Reserve, ''t'')] else []), ev_transport = (\<lambda>n. Delivered)\<rparr>"

definition ex_meddling :: call_env where
  "ex_meddling = \<lparr>ev_others = (\<lambda>n. if n = 1 then [(''alpha'', Release, ''t'')] else []), ev_transport = (\<lambda>n. Delivered)\<rparr>"

lemma ex_members:
  "unique_ids ex_registry" "ident ex_registry ''alpha'' = Some ''u1''" "ident ex_registry ''beta'' = Some ''u2''"
  by code_simp+

text \<open>The answer to the second reserve call is lost as well.\<close>

definition ex_losing :: call_env where
  "ex_losing = \<lparr>ev_others = (\<lambda>n. []), ev_transport = (\<lambda>n. if n = 1 then LostAnswer else Delivered)\<rparr>"

lemma ex_undisturbed: "undisturbed ex_racing ''s''" "undisturbed ex_meddling ''s''" "undisturbed ex_losing ''s''"
  by (simp_all add: ex_racing_def ex_meddling_def ex_losing_def undisturbed_def foreign_def)

lemma ex_delivered: "ev_transport ex_racing n = Delivered" "ev_transport ex_meddling n = Delivered" "ev_transport ex_losing 0 = Delivered"
  by (simp_all add: ex_racing_def ex_meddling_def ex_losing_def)

lemma ex_reservation_runs:
  "fst (reserveForLaunch ex_racing ''s'' [''alpha'', ''beta''] ex_registry) = [''beta'']"
  "fst (reserveForLaunch ex_meddling ''s'' [''alpha'', ''beta''] ex_registry) = []"
  "fst (reserveForLaunch ex_losing ''s'' [''alpha'', ''beta'', ''ghost''] ex_registry) = []"
  "fst (reReserveForResume ex_racing ''s'' [''alpha'', ''beta''] ex_registry) = Inl [''beta'']"
  by code_simp+

theorem launch_reserves_all_or_nothing_witness:
  "owner (snd (reserveForLaunch ex_racing ''s'' [''alpha'', ''beta''] ex_registry)) ''u1'' \<noteq> Some ''s''
   \<and> owner (snd (reserveForLaunch ex_losing ''s'' [''alpha'', ''beta'', ''ghost''] ex_registry)) ''u1'' = Some ''s''"
proof -
  have "owner (snd (reserveForLaunch ex_racing ''s'' [''alpha'', ''beta''] ex_registry)) ''u1'' \<noteq> Some ''s''"
    using launch_reserves_all_or_nothing[OF ex_members(1) ex_undisturbed(1) _ prod.collapse[symmetric], of "[''alpha'', ''beta'']"]
      ex_members(2) ex_reservation_runs(1) ex_delivered(1) by simp
  moreover have "owner (snd (reserveForLaunch ex_losing ''s'' [''alpha'', ''beta'', ''ghost''] ex_registry)) ''u1'' = Some ''s''"
    using conjunct1[OF conjunct2[OF launch_reserves_all_or_nothing[OF ex_members(1) ex_undisturbed(3) _ prod.collapse[symmetric],
        of "[''alpha'', ''beta'', ''ghost'']"]], rule_format, of 0 "''u1''"]
      ex_members(2) ex_reservation_runs(3) ex_delivered(3) by simp
  ultimately show ?thesis ..
qed

theorem resume_reserves_all_or_nothing_witness:
  "owner (snd (reReserveForResume ex_racing ''s'' [''alpha'', ''beta''] ex_registry)) ''u1'' \<noteq> Some ''s''"
  using resume_reserves_all_or_nothing[OF ex_members(1) ex_undisturbed(1) _ _ prod.collapse[symmetric], of "[''alpha'', ''beta'']"]
    ex_members(2) ex_reservation_runs(4) ex_delivered(1) by simp


end
