(* ===== verification/Ticketed_Mutex.thy ===== *)
theory Ticketed_Mutex
  imports Dolt_Mutex
begin

section \<open>The push mutex of the fleet server: tickets and the polling client\<close>

text \<open>
  A sprint that was not launched by a supervisor takes the push mutex from the fleet server:
  \<^verbatim>\<open>createTicketedMutex\<close> of \<^verbatim>\<open>src/services/sprint-coordination.ts\<close>, the tool \<^verbatim>\<open>src/tools/dolt-push-mutex.ts\<close> and the client
  \<^verbatim>\<open>createMcpDoltPushMutexClient\<close> of \<^verbatim>\<open>fleet-sprint/coordination.mjs\<close>. A tool call may not block, so the caller gets a ticket and
  polls it while its waiter stays in the queue.

  The mutex of that file has the text of the supervisor's, so its \<^verbatim>\<open>grant\<close>, \<^verbatim>\<open>pump\<close>, \<^verbatim>\<open>release\<close>, \<^verbatim>\<open>renew\<close>, \<^verbatim>\<open>cancelWaiter\<close>,
  \<^verbatim>\<open>stop\<close> and \<^verbatim>\<open>status\<close> are those of \<^verbatim>\<open>Dolt_Mutex\<close>; what differs is \<^verbatim>\<open>reclaimExpired\<close>, which tells its listeners before it pumps, and
  \<^verbatim>\<open>acquire\<close>, which calls it. The counter of \<^verbatim>\<open>nextToken\<close> is shared by tickets, grants and the child-id allocator.

  A ticket object is named by the promise its closure waits on. The reactions to a promise (\<^verbatim>\<open>.then\<close>) run when the
  operation that settled it has returned and before the next one starts.
\<close>

subsection \<open>State\<close>

datatype tk_state = Pending | Granted | Failed

record ticket =
  tk_ticket :: string
  tk_sprintId :: string
  tk_st :: tk_state
  tk_grant :: "mx_grant option"
  tk_error :: "string option"

record tmx =
  tm_mutex :: mutex
  tm_tickets :: "(string, nat) jsmap"
  tm_byToken :: "(string, string) jsmap"
  tm_objs :: "ticket list"

definition new_ticketed :: tmx where
  "new_ticketed = \<lparr>tm_mutex = mx_start new_mutex, tm_tickets = [], tm_byToken = [], tm_objs = []\<rparr>"

definition DEFAULT_WAIT_MS :: int where "DEFAULT_WAIT_MS = 5000"
definition MAX_WAIT_MS :: int where "MAX_WAIT_MS = 60000"

definition boundedWait :: "jsval \<Rightarrow> rat" where
  "boundedWait ms =
     (let raw = (case num_val ms of Some q \<Rightarrow> q | None \<Rightarrow> of_int DEFAULT_WAIT_MS)
      in max 0 (min raw (of_int MAX_WAIT_MS)))"

subsection \<open>Operations\<close>

definition on_reclaim :: "string \<Rightarrow> tmx \<Rightarrow> tmx" where
  "on_reclaim token st =
     (case map_of (tm_byToken st) token of
        None \<Rightarrow> st
      | Some tid \<Rightarrow> st\<lparr>tm_byToken := AList.delete token (tm_byToken st), tm_tickets := AList.delete tid (tm_tickets st)\<rparr>)"

definition ts_reclaimExpired :: "lease_env \<Rightarrow> tmx \<Rightarrow> tmx \<times> bool" where
  "ts_reclaimExpired env st =
     (case mx_holder (tm_mutex st) of
        None \<Rightarrow> (st, False)
      | Some h \<Rightarrow>
          let t = e_now env (mx_ticks (tm_mutex st));
              m = tick (tm_mutex st);
              leaseExpired = (t \<ge> h_expiresAt h);
              pidDead = (case h_pid h of None \<Rightarrow> False | Some p \<Rightarrow> \<not> e_probe env (mx_ticks m) p)
          in if \<not> leaseExpired \<and> \<not> pidDead then (st\<lparr>tm_mutex := m\<rparr>, False)
             else
               let st1 = on_reclaim (h_token h) (st\<lparr>tm_mutex := (emit (EvReclaim (h_sprintId h)) m)\<lparr>mx_holder := None\<rparr>\<rparr>)
               in (st1\<lparr>tm_mutex := mx_pump env (tm_mutex st1)\<rparr>, True))"

definition ts_acquire :: "lease_env \<Rightarrow> string \<Rightarrow> int option \<Rightarrow> tmx \<Rightarrow> tmx" where
  "ts_acquire env sprintId pid st0 =
     (let p = mx_promises (tm_mutex st0);
          st = st0\<lparr>tm_mutex := (tm_mutex st0)\<lparr>mx_promises := Suc p\<rparr>\<rparr>
      in if sprintId = []
         then st\<lparr>tm_mutex := emit (EvReject p (TypeError ''acquire() requires a non-empty sprintId'')) (tm_mutex st)\<rparr>
         else
           let st1 = fst (ts_reclaimExpired env st);
               m1 = tm_mutex st1;
               w = \<lparr>w_sprintId = sprintId, w_pid = pid, w_promise = p, w_enqueuedAt = e_now env (mx_ticks m1)\<rparr>
           in st1\<lparr>tm_mutex := mx_pump env ((tick m1)\<lparr>mx_waiters := mx_waiters m1 @ [w]\<rparr>)\<rparr>)"

text \<open>The two reactions of a ticket to its promise.\<close>

fun settle_event :: "mx_event \<Rightarrow> tmx \<Rightarrow> tmx" where
  "settle_event (EvGrant p g) st =
     st\<lparr>tm_objs := (tm_objs st)[p := (tm_objs st ! p)\<lparr>tk_st := Granted, tk_grant := Some g\<rparr>],
        tm_byToken := AList.update (g_token g) (tk_ticket (tm_objs st ! p)) (tm_byToken st)\<rparr>"
| "settle_event (EvReject p e) st =
     st\<lparr>tm_objs := (tm_objs st)[p := (tm_objs st ! p)\<lparr>tk_st := Failed, tk_error := Some (error_text e)\<rparr>]\<rparr>"
| "settle_event _ st = st"

definition react :: "mutex \<Rightarrow> tmx \<Rightarrow> tmx" where
  "react m st = fold settle_event (drop (length (mx_out m)) (mx_out (tm_mutex st))) st"

definition open_ticket :: "lease_env \<Rightarrow> string \<Rightarrow> tmx \<Rightarrow> tmx \<times> string" where
  "open_ticket env sprintId st =
     (let m = tm_mutex st;
          tid = nextToken (''ticket:'' @ sprintId) (Suc (mx_seq m)) (e_date env (mx_ticks m));
          t = \<lparr>tk_ticket = tid, tk_sprintId = sprintId, tk_st = Pending, tk_grant = None, tk_error = None\<rparr>
      in (st\<lparr>tm_mutex := (tick m)\<lparr>mx_seq := Suc (mx_seq m)\<rparr>, tm_tickets := AList.update tid (length (tm_objs st)) (tm_tickets st),
             tm_objs := tm_objs st @ [t]\<rparr>, tid))"

text \<open>\<^verbatim>\<open>acquire\<close> up to the wait: the ticket and the promise of its object.\<close>

definition tk_acquire :: "lease_env \<Rightarrow> string \<Rightarrow> int option \<Rightarrow> tmx \<Rightarrow> tmx \<times> string \<times> nat" where
  "tk_acquire env sprintId pid st =
     (case open_ticket env sprintId st of
        (st1, tid) \<Rightarrow> (react (tm_mutex st) (ts_acquire env sprintId pid st1), tid, length (tm_objs st)))"

definition tk_cancel :: "lease_env \<Rightarrow> string \<Rightarrow> tmx \<Rightarrow> tmx \<times> bool \<times> bool \<times> bool" where
  "tk_cancel env tid st =
     (case map_of (tm_tickets st) tid of
        None \<Rightarrow> (st, False, False, False)
      | Some p \<Rightarrow>
          let t = tm_objs st ! p in
          case (tk_st t, tk_grant t) of
            (Granted, Some g) \<Rightarrow>
              (case mx_release env (g_token g) (tm_mutex st) of
                 (m, released) \<Rightarrow>
                   (react (tm_mutex st) (st\<lparr>tm_mutex := m, tm_byToken := AList.delete (g_token g) (tm_byToken st),
                      tm_tickets := AList.delete tid (tm_tickets st)\<rparr>), True, False, released))
          | _ \<Rightarrow>
              (case mx_cancelWaiter (tk_sprintId t)
                      (Some (GeneralError (''acquire cancelled for ticket '' @ squoted tid))) (tm_mutex st) of
                 (m, dropped) \<Rightarrow>
                   (react (tm_mutex st) (st\<lparr>tm_mutex := m, tm_tickets := AList.delete tid (tm_tickets st)\<rparr>), True, dropped > 0, False)))"

definition tk_release :: "lease_env \<Rightarrow> string \<Rightarrow> tmx \<Rightarrow> tmx \<times> bool" where
  "tk_release env token st =
     (case mx_release env token (tm_mutex st) of
        (m, released) \<Rightarrow>
          let st1 = st\<lparr>tm_mutex := m\<rparr>;
              st2 = (case map_of (tm_byToken st) token of
                       None \<Rightarrow> st1
                     | Some tid \<Rightarrow> st1\<lparr>tm_tickets := AList.delete tid (tm_tickets st), tm_byToken := AList.delete token (tm_byToken st)\<rparr>)
          in (react (tm_mutex st) st2, released))"

definition ticketCount :: "tmx \<Rightarrow> nat" where
  "ticketCount st = length (tm_tickets st)"

text \<open>
  Everything that happens to the shared object, one step per tool call or timer tick; \<open>TkMint\<close> is a token taken by the
  allocator from the shared counter.
\<close>

datatype tk_op =
    TkAcquire string "int option"
  | TkRelease string
  | TkRenew string
  | TkCancel string
  | TkSweep
  | TkStop
  | TkMint

fun tk_step :: "lease_env \<Rightarrow> tk_op \<Rightarrow> tmx \<Rightarrow> tmx" where
  "tk_step env (TkAcquire sid pid) st = fst (tk_acquire env sid pid st)"
| "tk_step env (TkRelease tok) st = fst (tk_release env tok st)"
| "tk_step env (TkRenew tok) st = st\<lparr>tm_mutex := fst (mx_renew env tok (tm_mutex st))\<rparr>"
| "tk_step env (TkCancel tid) st = fst (tk_cancel env tid st)"
| "tk_step env TkSweep st = react (tm_mutex st) (fst (ts_reclaimExpired env st))"
| "tk_step env TkStop st = react (tm_mutex st) (st\<lparr>tm_mutex := mx_stop (tm_mutex st)\<rparr>)"
| "tk_step env TkMint st = st\<lparr>tm_mutex := (tm_mutex st)\<lparr>mx_seq := Suc (mx_seq (tm_mutex st))\<rparr>\<rparr>"

definition tk_run :: "lease_env \<Rightarrow> tk_op list \<Rightarrow> tmx" where
  "tk_run env ops = fold (tk_step env) ops new_ticketed"

subsection \<open>Calls that wait\<close>

text \<open>
  \<^verbatim>\<open>waitFor\<close>: the steps of others that happen during the wait, up to the one that settles the ticket; when they are used
  up, the wait has timed out.
\<close>

fun wait_for :: "lease_env \<Rightarrow> nat \<Rightarrow> tk_op list \<Rightarrow> tmx \<Rightarrow> tmx" where
  "wait_for env p [] st = st"
| "wait_for env p (op # ops) st = (if tk_st (tm_objs st ! p) \<noteq> Pending then st else wait_for env p ops (tk_step env op st))"

text \<open>The answers of the tool.\<close>

definition js_of_grant :: "mx_grant option \<Rightarrow> (string \<times> jsval) list" where
  "js_of_grant g =
     [(''token'', case g of Some x \<Rightarrow> JStr (g_token x) | None \<Rightarrow> JNull),
      (''expiresAt'', case g of Some x \<Rightarrow> JInt (g_expiresAt x) | None \<Rightarrow> JNull)]"

definition settled_answer :: "ticket \<Rightarrow> string \<Rightarrow> (string \<times> jsval) list \<Rightarrow> jsval" where
  "settled_answer t tid extra =
     (case tk_error t of
        Some e \<Rightarrow> if e \<noteq> [] then JObj [(''granted'', JBool False), (''ticket'', JStr tid), (''error'', JStr e)]
                  else JObj ([(''granted'', JBool (tk_st t = Granted)), (''ticket'', JStr tid)] @ js_of_grant (tk_grant t) @ extra)
      | None \<Rightarrow> JObj ([(''granted'', JBool (tk_st t = Granted)), (''ticket'', JStr tid)] @ js_of_grant (tk_grant t) @ extra))"

definition acquire_tool :: "lease_env \<Rightarrow> string \<Rightarrow> int option \<Rightarrow> tk_op list \<Rightarrow> tmx \<Rightarrow> tmx \<times> jsval" where
  "acquire_tool env sprintId pid waiting st =
     (if sprintId = [] then (st, JObj [(''error'', JStr (''sprint_id is required for action '' @ dquoted ''acquire''))])
      else case tk_acquire env sprintId pid st of
             (st1, tid, p) \<Rightarrow>
               let st2 = wait_for env p waiting st1
               in (st2, settled_answer (tm_objs st2 ! p) tid [(''sprintId'', JStr sprintId)]))"

definition poll_tool :: "lease_env \<Rightarrow> string \<Rightarrow> tk_op list \<Rightarrow> tmx \<Rightarrow> tmx \<times> jsval" where
  "poll_tool env tid waiting st =
     (if tid = [] then (st, JObj [(''error'', JStr (''ticket is required for action '' @ dquoted ''poll''))])
      else case map_of (tm_tickets st) tid of
             None \<Rightarrow> (st, JObj [(''granted'', JBool False), (''ticket'', JStr tid), (''error'', JStr ''unknown ticket'')])
           | Some p \<Rightarrow>
               let st2 = wait_for env p waiting st
               in (st2, settled_answer (tm_objs st2 ! p) tid []))"

definition cancel_tool :: "lease_env \<Rightarrow> string \<Rightarrow> tmx \<Rightarrow> tmx \<times> jsval" where
  "cancel_tool env tid st =
     (if tid = [] then (st, JObj [(''error'', JStr (''ticket is required for action '' @ dquoted ''cancel''))])
      else case tk_cancel env tid st of
             (st', known, cancelled, released) \<Rightarrow>
               (st', JObj [(''known'', JBool known), (''cancelled'', JBool cancelled), (''released'', JBool released)]))"

definition release_tool :: "lease_env \<Rightarrow> string \<Rightarrow> tmx \<Rightarrow> tmx \<times> jsval" where
  "release_tool env token st =
     (if token = [] then (st, JObj [(''error'', JStr (''token is required for action '' @ dquoted ''release''))])
      else case tk_release env token st of (st', released) \<Rightarrow> (st', JObj [(''released'', JBool released)]))"

definition renew_tool :: "lease_env \<Rightarrow> string \<Rightarrow> tmx \<Rightarrow> tmx \<times> jsval" where
  "renew_tool env token st =
     (if token = [] then (st, JObj [(''error'', JStr (''token is required for action '' @ dquoted ''renew''))])
      else case mx_renew env token (tm_mutex st) of
             (m, None) \<Rightarrow> (st\<lparr>tm_mutex := m\<rparr>, JObj [(''renewed'', JBool False)])
           | (m, Some e) \<Rightarrow> (st\<lparr>tm_mutex := m\<rparr>, JObj [(''renewed'', JBool True), (''expiresAt'', JInt e)]))"

definition status_tool :: "tmx \<Rightarrow> jsval" where
  "status_tool st = mx_status (tm_mutex st)"

subsection \<open>The client\<close>

text \<open>
  What surrounds the client's calls: the steps of others before the call reaches the server and while it waits there,
  whether the call and its answer arrive, and the readings of \<^verbatim>\<open>Date.now()\<close>.
\<close>

record mcp_env =
  me_before :: "nat \<Rightarrow> tk_op list"
  me_waiting :: "nat \<Rightarrow> tk_op list"
  me_transport :: "nat \<Rightarrow> transport"
  me_clock :: "nat \<Rightarrow> int"
  me_timeoutMs :: int

text \<open>The answer is one JSON text, which no display banner precedes; a payload with an error is thrown.\<close>

definition parseCoordinationToolResult :: "string \<Rightarrow> jsval \<Rightarrow> jsval res" where
  "parseCoordinationToolResult label answer =
     (let payload = json_value answer in
      if truthy payload \<and> truthy (jfield payload ''error'')
      then Inl (GeneralError (label @ '' error: '' @ js_str (jfield payload ''error'')))
      else Inr (coalesce payload (JObj [])))"

definition mcp_call :: "lease_env \<Rightarrow> mcp_env \<Rightarrow> nat \<Rightarrow> (tk_op list \<Rightarrow> tmx \<Rightarrow> tmx \<times> jsval) \<Rightarrow> tmx \<Rightarrow> tmx \<times> jsval res" where
  "mcp_call env me n tool st =
     (let st1 = fold (tk_step env) (me_before me n) st in
      case me_transport me n of
        Delivered \<Rightarrow> (case tool (me_waiting me n) st1 of (st2, answer) \<Rightarrow> (st2, parseCoordinationToolResult ''[dolt-mutex/mcp]'' answer))
      | LostRequest \<Rightarrow> (st1, Inl (GeneralError ''transport''))
      | LostAnswer \<Rightarrow> (fst (tool (me_waiting me n) st1), Inl (GeneralError ''transport'')))"

datatype mcp_outcome =
    McpGranted jsval jsval
  | McpTimedOut
  | McpThrew js_error

text \<open>
  The polling loop. The \<open>n\<close>-th turn reads the clock once; \<open>None\<close> means that the fuel was used up, which the clock rules
  out when it reaches the deadline. A cancel that fails is ignored.
\<close>

fun mcp_poll_loop :: "lease_env \<Rightarrow> mcp_env \<Rightarrow> nat \<Rightarrow> nat \<Rightarrow> int \<Rightarrow> jsval \<Rightarrow> tmx \<Rightarrow> tmx \<times> mcp_outcome option" where
  "mcp_poll_loop env me 0 n deadline payload st = (st, None)"
| "mcp_poll_loop env me (Suc fuel) n deadline payload st =
     (if truthy (jfield payload ''granted'')
      then (st, Some (McpGranted (coalesce (jfield payload ''token'') JNull) (jfield payload ''expiresAt'')))
      else if me_clock me n \<ge> deadline
      then (fst (mcp_call env me n (\<lambda>_. cancel_tool env (str_or_empty (jfield payload ''ticket''))) st), Some McpTimedOut)
      else (case mcp_call env me n (poll_tool env (str_or_empty (jfield payload ''ticket''))) st of
              (st1, Inl e) \<Rightarrow> (st1, Some (McpThrew e))
            | (st1, Inr payload') \<Rightarrow> mcp_poll_loop env me fuel (Suc n) deadline payload' st1))"

definition mcp_acquire :: "lease_env \<Rightarrow> mcp_env \<Rightarrow> nat \<Rightarrow> string \<Rightarrow> int option \<Rightarrow> tmx \<Rightarrow> tmx \<times> mcp_outcome option" where
  "mcp_acquire env me fuel sprintId pid st =
     (if sprintId = [] then (st, Some (McpThrew (GeneralError ''[dolt-mutex/mcp] acquire requires a sprintId'')))
      else
        let deadline = me_clock me 0 + me_timeoutMs me in
        case mcp_call env me 0 (acquire_tool env sprintId pid) st of
          (st1, Inl e) \<Rightarrow> (st1, Some (McpThrew e))
        | (st1, Inr payload) \<Rightarrow> mcp_poll_loop env me fuel 1 deadline payload st1)"

definition mcp_release :: "lease_env \<Rightarrow> mcp_env \<Rightarrow> nat \<Rightarrow> string option \<Rightarrow> tmx \<Rightarrow> tmx \<times> bool" where
  "mcp_release env me n token st =
     (case token of
        None \<Rightarrow> (st, True)
      | Some tok \<Rightarrow>
          (case mcp_call env me n (\<lambda>_. release_tool env tok) st of
             (st1, Inl e) \<Rightarrow> (st1, False)
           | (st1, Inr payload) \<Rightarrow> (st1, truthy (jfield payload ''released''))))"

definition mcp_renew :: "lease_env \<Rightarrow> mcp_env \<Rightarrow> nat \<Rightarrow> string option \<Rightarrow> tmx \<Rightarrow> tmx \<times> bool" where
  "mcp_renew env me n token st =
     (case token of
        None \<Rightarrow> (st, False)
      | Some tok \<Rightarrow>
          (case mcp_call env me n (\<lambda>_. renew_tool env tok) st of
             (st1, Inl e) \<Rightarrow> (st1, False)
           | (st1, Inr payload) \<Rightarrow> (st1, truthy (jfield payload ''renewed''))))"

subsection \<open>The invariant\<close>

text \<open>
  Ticket ids are distinct and name their objects; the pending objects are the queued waiters (and the promises \<open>X\<close> of an
  operation that is under way), each with its ticket in the map; a granted object carries a grant of the trace; and the
  current holder, if any, is the one granted ticket of the map.
\<close>

definition tk_ids :: "tmx \<Rightarrow> bool" where
  "tk_ids st \<longleftrightarrow>
     length (tm_objs st) = mx_promises (tm_mutex st) \<and> distinct (map tk_ticket (tm_objs st)) \<and>
     (\<forall>t\<in>set (tm_objs st). token_below (mx_seq (tm_mutex st)) (tk_ticket t)) \<and> jmap_ok (tm_tickets st) \<and>
     (\<forall>(tid, p)\<in>set (tm_tickets st). p < length (tm_objs st) \<and> tk_ticket (tm_objs st ! p) = tid)"

text \<open>One object: \<open>W\<close> are the promises that wait, \<open>T\<close> the entries of the map, \<open>G\<close> the grants of the trace.\<close>

definition obj_ok :: "nat set \<Rightarrow> (string \<times> nat) set \<Rightarrow> (nat \<times> mx_grant) set \<Rightarrow> nat \<Rightarrow> ticket \<Rightarrow> bool" where
  "obj_ok W T G p t \<longleftrightarrow>
     (tk_st t = Pending \<longleftrightarrow> p \<in> W) \<and> (tk_st t = Pending \<longrightarrow> (tk_ticket t, p) \<in> T) \<and>
     (tk_st t = Granted \<longrightarrow> (\<exists>g. tk_grant t = Some g \<and> (p, g) \<in> G)) \<and> (tk_error t \<noteq> None \<longrightarrow> tk_st t = Failed)"

definition tk_wait :: "nat set \<Rightarrow> tmx \<Rightarrow> bool" where
  "tk_wait X st \<longleftrightarrow>
     (\<forall>p<length (tm_objs st). obj_ok (w_promise ` set (mx_waiters (tm_mutex st)) \<union> X) (set (tm_tickets st))
        (set (grants (mx_out (tm_mutex st)))) p (tm_objs st ! p)) \<and>
     w_promise ` set (mx_waiters (tm_mutex st)) \<inter> X = {} \<and>
     (\<forall>w\<in>set (mx_waiters (tm_mutex st)).
        w_promise w < length (tm_objs st) \<and> w_sprintId w = tk_sprintId (tm_objs st ! w_promise w))"

lemma obj_ok_mono:
  "obj_ok W T G p t \<Longrightarrow> (p \<in> W' \<longleftrightarrow> p \<in> W) \<Longrightarrow> (tk_st t = Pending \<Longrightarrow> (tk_ticket t, p) \<in> T \<Longrightarrow> (tk_ticket t, p) \<in> T') \<Longrightarrow>
    G \<subseteq> G' \<Longrightarrow> obj_ok W' T' G' p t"
  unfolding obj_ok_def by blast

lemma tk_wait_obj:
  "tk_wait X st \<Longrightarrow> p < length (tm_objs st) \<Longrightarrow>
    obj_ok (w_promise ` set (mx_waiters (tm_mutex st)) \<union> X) (set (tm_tickets st)) (set (grants (mx_out (tm_mutex st)))) p (tm_objs st ! p)"
  unfolding tk_wait_def by blast

text \<open>Ticket \<open>p\<close> holds the mutex as \<open>h\<close>.\<close>

definition holds_as :: "tmx \<Rightarrow> mx_holder_rec \<Rightarrow> nat \<Rightarrow> bool" where
  "holds_as st h p \<longleftrightarrow>
     p < length (tm_objs st) \<and> tm_byToken st = [(h_token h, tk_ticket (tm_objs st ! p))] \<and>
     (tk_ticket (tm_objs st ! p), p) \<in> set (tm_tickets st) \<and> tk_st (tm_objs st ! p) = Granted \<and>
     map_option g_token (tk_grant (tm_objs st ! p)) = Some (h_token h) \<and> h_sprintId h = tk_sprintId (tm_objs st ! p)"

definition tk_held :: "tmx \<Rightarrow> bool" where
  "tk_held st \<longleftrightarrow>
     (case mx_holder (tm_mutex st) of
        None \<Rightarrow> tm_byToken st = [] \<and> (\<forall>(tid, p)\<in>set (tm_tickets st). tk_st (tm_objs st ! p) \<noteq> Granted)
      | Some h \<Rightarrow> \<exists>p. holds_as st h p \<and> (\<forall>(tid, q)\<in>set (tm_tickets st). tk_st (tm_objs st ! q) = Granted \<longrightarrow> q = p))"

lemma tk_heldI:
  "mx_holder (tm_mutex st) = Some h \<Longrightarrow> holds_as st h p \<Longrightarrow>
    (\<And>tid q. (tid, q) \<in> set (tm_tickets st) \<Longrightarrow> tk_st (tm_objs st ! q) = Granted \<Longrightarrow> q = p) \<Longrightarrow> tk_held st"
  unfolding tk_held_def by auto

definition tk_ok :: "nat set \<Rightarrow> tmx \<Rightarrow> bool" where
  "tk_ok X st \<longleftrightarrow> mx_core (mx_promises (tm_mutex st)) (tm_mutex st) \<and> tk_ids st \<and> tk_wait X st \<and> tk_held st"

definition tk_inv :: "tmx \<Rightarrow> bool" where
  "tk_inv st \<longleftrightarrow> tk_ok {} st \<and> (mx_holder (tm_mutex st) = None \<longrightarrow> mx_waiters (tm_mutex st) = [])"

lemmas tk_ok_defs = tk_ok_def tk_ids_def tk_wait_def tk_held_def holds_as_def

subsection \<open>Reactions\<close>

lemma settle_event_mutex: "settle_event e (st\<lparr>tm_mutex := m\<rparr>) = (settle_event e st)\<lparr>tm_mutex := m\<rparr>"
  by (cases e) simp_all

lemma settle_event_keeps [simp]: "tm_mutex (settle_event e st) = tm_mutex st" "tm_tickets (settle_event e st) = tm_tickets st"
  by (cases e; simp)+

lemma fold_settle_mutex: "fold settle_event es (st\<lparr>tm_mutex := m\<rparr>) = (fold settle_event es st)\<lparr>tm_mutex := m\<rparr>"
  by (induction es arbitrary: st) (simp_all add: settle_event_mutex)

lemma fold_settle_keeps [simp]:
  "tm_mutex (fold settle_event es st) = tm_mutex st" "tm_tickets (fold settle_event es st) = tm_tickets st"
  by (induction es arbitrary: st) simp_all

lemma react_keeps [simp]: "tm_mutex (react m st) = tm_mutex st" "tm_tickets (react m st) = tm_tickets st"
  by (simp_all add: react_def)

lemma map_update_same: "f y = f (xs ! p) \<Longrightarrow> map f (xs[p := y]) = map f xs"
  by (cases "p < length xs") (simp add: map_update, metis list_update_id nth_map, simp add: list_update_beyond)

lemma settle_event_names: "map tk_ticket (tm_objs (settle_event e st)) = map tk_ticket (tm_objs st)"
  "map tk_sprintId (tm_objs (settle_event e st)) = map tk_sprintId (tm_objs st)"
  by (cases e; simp add: map_update_same)+

lemma react_names:
  "map tk_ticket (tm_objs (react m st)) = map tk_ticket (tm_objs st)" "map tk_sprintId (tm_objs (react m st)) = map tk_sprintId (tm_objs st)"
proof -
  have "map tk_ticket (tm_objs (fold settle_event es st)) = map tk_ticket (tm_objs st)
      \<and> map tk_sprintId (tm_objs (fold settle_event es st)) = map tk_sprintId (tm_objs st)" for es
    by (induction es arbitrary: st) (simp_all add: settle_event_names)
  then show "map tk_ticket (tm_objs (react m st)) = map tk_ticket (tm_objs st)" "map tk_sprintId (tm_objs (react m st)) = map tk_sprintId (tm_objs st)"
    unfolding react_def by blast+
qed

lemma react_length [simp]: "length (tm_objs (react m st)) = length (tm_objs st)"
  using react_names(1) map_eq_imp_length_eq by blast

lemma react_cong: "mx_out m = mx_out m' \<Longrightarrow> react m = react m'"
  by (rule ext) (simp add: react_def)

lemma react_out: "mx_out (tm_mutex st) = mx_out m @ es \<Longrightarrow> react m st = fold settle_event es st"
  by (simp add: react_def)

lemma pump_out_more: "mx_out m' = mx_out m @ fs \<Longrightarrow> \<exists>es. mx_out (mx_pump env m') = mx_out m @ es"
  by (auto simp: mx_pump_def mx_grant_to_def Let_def split: list.splits)

lemma pump_out: "\<exists>es. mx_out (mx_pump env m) = mx_out m @ es"
  by (rule pump_out_more[of _ _ "[]"]) simp

text \<open>A step of the mutex between two others: the reactions can be run in between.\<close>

lemma react_later:
  assumes "mx_out (tm_mutex st) = mx_out m @ es" "mx_out m' = mx_out (tm_mutex st) @ fs"
  shows "react m (st\<lparr>tm_mutex := m'\<rparr>) = react (tm_mutex st) ((react m st)\<lparr>tm_mutex := m'\<rparr>)"
  using assms by (simp add: react_out[of _ _ es] react_out[of _ _ fs] react_out[of _ _ "es @ fs"] fold_settle_mutex)

text \<open>The ids only depend on the names of the objects.\<close>

lemma tk_ids_cong:
  assumes "tk_ids st" "map tk_ticket (tm_objs st') = map tk_ticket (tm_objs st)" "mx_promises (tm_mutex st') = mx_promises (tm_mutex st)"
    "mx_seq (tm_mutex st) \<le> mx_seq (tm_mutex st')" "set (tm_tickets st') \<subseteq> set (tm_tickets st)" "jmap_ok (tm_tickets st')"
  shows "tk_ids st'"
proof -
  have len: "length (tm_objs st') = length (tm_objs st)"
    using assms(2) map_eq_imp_length_eq by blast
  have nth: "tk_ticket (tm_objs st' ! p) = tk_ticket (tm_objs st ! p)" if "p < length (tm_objs st)" for p
    using arg_cong[OF assms(2), of "\<lambda>xs. xs ! p"] that len by simp
  have "tk_ticket ` set (tm_objs st') = tk_ticket ` set (tm_objs st)"
    using arg_cong[OF assms(2), of set] by simp
  moreover have "\<forall>i\<in>tk_ticket ` set (tm_objs st). token_below (mx_seq (tm_mutex st')) i"
    using assms(1) token_below_mono[OF _ assms(4)] unfolding tk_ids_def by simp
  ultimately have "\<forall>t\<in>set (tm_objs st'). token_below (mx_seq (tm_mutex st')) (tk_ticket t)"
    by blast
  moreover have "p < length (tm_objs st') \<and> tk_ticket (tm_objs st' ! p) = tid" if "(tid, p) \<in> set (tm_tickets st')" for tid p
  proof -
    have "(tid, p) \<in> set (tm_tickets st)"
      using assms(5) that by blast
    then have "p < length (tm_objs st) \<and> tk_ticket (tm_objs st ! p) = tid"
      using assms(1) unfolding tk_ids_def by auto
    then show ?thesis
      using nth[of p] len by simp
  qed
  ultimately show ?thesis
    using assms len unfolding tk_ids_def by auto
qed

lemma pump_grant:
  assumes "mx_holder m = None" "mx_waiters m = w # ws"
  obtains h g where "mx_holder (mx_pump env m) = Some h" "mx_waiters (mx_pump env m) = ws"
    "mx_out (mx_pump env m) = mx_out m @ [EvGrant (w_promise w) g]" "g_token g = h_token h" "h_sprintId h = w_sprintId w"
    "mx_seq (mx_pump env m) = Suc (mx_seq m)" "mx_promises (mx_pump env m) = mx_promises m"
  using assms that unfolding mx_pump_def mx_grant_to_def by (auto simp: Let_def)

lemma pump_ok:
  assumes "tk_ok X st"
  shows "tk_ok X (react (tm_mutex st) (st\<lparr>tm_mutex := mx_pump env (tm_mutex st)\<rparr>))"
    and "mx_holder (mx_pump env (tm_mutex st)) = None \<longrightarrow> mx_waiters (mx_pump env (tm_mutex st)) = []"
proof -
  let ?m = "tm_mutex st"
  show free: "mx_holder (mx_pump env ?m) = None \<longrightarrow> mx_waiters (mx_pump env ?m) = []"
    using assms mx_core_pump(2) unfolding tk_ok_def by blast
  show "tk_ok X (react ?m (st\<lparr>tm_mutex := mx_pump env ?m\<rparr>))"
  proof (cases "mx_holder ?m = None \<and> mx_waiters ?m \<noteq> []")
    case False
    then have "mx_pump env ?m = ?m"
      unfolding mx_pump_def by (auto split: list.splits)
    then show ?thesis
      using assms by (simp add: react_def)
  next
    case True
    then obtain w ws where ws: "mx_holder ?m = None" "mx_waiters ?m = w # ws"
      by (auto simp: neq_Nil_conv)
    let ?p = "w_promise w"
    have w: "tk_wait X st"
      using assms unfolding tk_ok_def by simp
    have wt: "w_promise x < length (tm_objs st) \<and> w_sprintId x = tk_sprintId (tm_objs st ! w_promise x)" if "x \<in> set (mx_waiters ?m)" for x
      using w that unfolding tk_wait_def by blast
    have p: "?p < length (tm_objs st)" "w_sprintId w = tk_sprintId (tm_objs st ! ?p)" "tk_st (tm_objs st ! ?p) = Pending"
      "(tk_ticket (tm_objs st ! ?p), ?p) \<in> set (tm_tickets st)" "tk_error (tm_objs st ! ?p) = None"
      using wt[of w] tk_wait_obj[OF w, of ?p] ws(2) unfolding obj_ok_def by auto
    have nX: "?p \<notin> X"
      using assms ws(2) unfolding tk_ok_def tk_wait_def by auto
    have core: "mx_core (mx_promises ?m) (mx_pump env ?m)"
      using assms mx_core_pump(1) unfolding tk_ok_def by blast
    have dist: "?p \<notin> w_promise ` set ws"
      using assms ws(2) unfolding tk_ok_def mx_core_def by (auto simp: sorted_wrt_append)
    obtain h g where g: "mx_holder (mx_pump env ?m) = Some h" "mx_waiters (mx_pump env ?m) = ws"
      "mx_out (mx_pump env ?m) = mx_out ?m @ [EvGrant ?p g]" "g_token g = h_token h" "h_sprintId h = w_sprintId w"
      "mx_seq (mx_pump env ?m) = Suc (mx_seq ?m)" "mx_promises (mx_pump env ?m) = mx_promises ?m"
      by (rule pump_grant[OF ws])
    let ?o = "(tm_objs st ! ?p)\<lparr>tk_st := Granted, tk_grant := Some g\<rparr>"
    have none: "tm_byToken st = []" "\<forall>(tid, q)\<in>set (tm_tickets st). tk_st (tm_objs st ! q) \<noteq> Granted"
      using assms ws(1) unfolding tk_ok_def tk_held_def by auto
    have r: "react ?m (st\<lparr>tm_mutex := mx_pump env ?m\<rparr>) = st\<lparr>tm_mutex := mx_pump env ?m,
        tm_objs := (tm_objs st)[?p := ?o], tm_byToken := [(h_token h, tk_ticket (tm_objs st ! ?p))]\<rparr>" (is "_ = ?st'")
      using g(3,4) none(1) by (simp add: react_out[of _ _ "[EvGrant ?p g]"])
    have same: "map tk_ticket ((tm_objs st)[?p := ?o]) = map tk_ticket (tm_objs st)"
      using p(1) by (simp add: map_update) (metis list_update_id nth_map)
    have ids: "tk_ids ?st'"
      using assms same g(6,7) unfolding tk_ok_def by - (rule tk_ids_cong[of st], auto simp: tk_ids_def)
    have pend: "q \<in> w_promise ` set ws \<union> X \<longleftrightarrow> q \<noteq> ?p \<and> q \<in> w_promise ` set (mx_waiters ?m) \<union> X" for q
      using ws(2) dist nX by (auto simp: image_iff)
    have one: "obj_ok (w_promise ` set ws \<union> X) (set (tm_tickets st)) (set (grants (mx_out ?m @ [EvGrant ?p g]))) ?p ?o"
      using p(5) dist nX unfolding obj_ok_def by simp
    have two: "obj_ok (w_promise ` set ws \<union> X) (set (tm_tickets st)) (set (grants (mx_out ?m @ [EvGrant ?p g]))) q (tm_objs st ! q)"
      if "q < length (tm_objs st)" "q \<noteq> ?p" for q
    proof (rule obj_ok_mono)
      show "obj_ok (w_promise ` set (mx_waiters ?m) \<union> X) (set (tm_tickets st)) (set (grants (mx_out ?m))) q (tm_objs st ! q)"
        using w that(1) unfolding tk_wait_def by blast
    qed (use that pend[of q] in auto)
    have "tk_wait X ?st'"
      using w one two ws(2) unfolding tk_wait_def by (auto simp: g(2,3) nth_list_update)
    moreover have "tk_held ?st'"
      using p none(2) g unfolding tk_held_def holds_as_def by (auto simp: nth_list_update)
    ultimately show ?thesis
      using core ids g(7) unfolding r tk_ok_def by simp
  qed
qed

subsection \<open>Closing a window and dropping waiters\<close>

lemma in_set_delete: "x \<in> set (AList.delete k m) \<longleftrightarrow> x \<in> set m \<and> fst x \<noteq> k"
  by (auto simp: AList.delete_eq)

lemma tk_ok_tick [simp]: "tk_ok X (st\<lparr>tm_mutex := tick m\<rparr>) \<longleftrightarrow> tk_ok X (st\<lparr>tm_mutex := m\<rparr>)"
  unfolding tk_ok_defs by (simp split: option.split)

lemma ids_unique:
  assumes "tk_ids st" "p < length (tm_objs st)" "q < length (tm_objs st)" "tk_ticket (tm_objs st ! p) = tk_ticket (tm_objs st ! q)"
  shows "p = q"
  using assms nth_eq_iff_index_eq[of "map tk_ticket (tm_objs st)" p q] unfolding tk_ids_def by simp

lemma ticket_entry: "tk_ids st \<Longrightarrow> (tid, p) \<in> set (tm_tickets st) \<Longrightarrow> p < length (tm_objs st) \<and> tk_ticket (tm_objs st ! p) = tid"
  unfolding tk_ids_def by auto

definition close_window :: "mx_event \<Rightarrow> tmx \<Rightarrow> tmx" where
  "close_window e st =
     st\<lparr>tm_mutex := (emit e (tm_mutex st))\<lparr>mx_holder := None\<rparr>, tm_byToken := [],
        tm_tickets := AList.delete (snd (hd (tm_byToken st))) (tm_tickets st)\<rparr>"

lemma close_ok:
  assumes ok: "tk_ok X st" and h: "mx_holder (tm_mutex st) = Some h"
    and e: "e \<in> {EvReclaim (h_sprintId h), EvRelease (h_sprintId h)}"
  shows "tk_ok X (close_window e st)"
proof -
  let ?st = "close_window e st"
  have ids: "tk_ids st" and w: "tk_wait X st" and core: "mx_core (mx_promises (tm_mutex st)) (tm_mutex st)"
    using ok unfolding tk_ok_def by simp_all
  obtain p where p: "holds_as st h p" "\<forall>(tid, q)\<in>set (tm_tickets st). tk_st (tm_objs st ! q) = Granted \<longrightarrow> q = p"
    using ok h unfolding tk_ok_def tk_held_def by auto
  have tid: "snd (hd (tm_byToken st)) = tk_ticket (tm_objs st ! p)" and pl: "p < length (tm_objs st)"
    and pg: "tk_st (tm_objs st ! p) = Granted"
    using p(1) unfolding holds_as_def by simp_all
  have gone: "tk_st (tm_objs st ! q) \<noteq> Granted" if "(i, q) \<in> set (tm_tickets ?st)" for i q
    using that p(2) tid ticket_entry[OF ids, of i q] unfolding close_window_def by (auto simp: in_set_delete)
  have "tk_ids ?st"
    using ids by (rule tk_ids_cong) (use ids in \<open>auto simp: close_window_def tk_ids_def in_set_delete\<close>)
  moreover have "tk_held ?st"
    using gone unfolding tk_held_def close_window_def by auto
  moreover have "mx_core (mx_promises (tm_mutex ?st)) (tm_mutex ?st)"
    using mx_core_free[OF core h e] unfolding close_window_def by simp
  moreover have "tk_wait X ?st"
  proof -
    have "obj_ok (w_promise ` set (mx_waiters (tm_mutex st)) \<union> X) (set (tm_tickets ?st)) (set (grants (mx_out (tm_mutex ?st)))) q (tm_objs st ! q)"
      if "q < length (tm_objs st)" for q
      using tk_wait_obj[OF w that]
    proof (rule obj_ok_mono)
      assume "tk_st (tm_objs st ! q) = Pending" and l: "(tk_ticket (tm_objs st ! q), q) \<in> set (tm_tickets st)"
      then have "tk_ticket (tm_objs st ! q) \<noteq> tk_ticket (tm_objs st ! p)"
        using ids_unique[OF ids that pl] pg by auto
      then show "(tk_ticket (tm_objs st ! q), q) \<in> set (tm_tickets ?st)"
        using l unfolding close_window_def tid by (simp add: in_set_delete)
    qed (auto simp: close_window_def)
    then show ?thesis
      using w unfolding tk_wait_def by (simp add: close_window_def)
  qed
  ultimately show ?thesis
    unfolding tk_ok_def by simp
qed

text \<open>Rejections: the objects of the dropped waiters fail.\<close>

lemma fold_rejects:
  "(\<forall>p\<in>set ps. p < length (tm_objs st)) \<Longrightarrow>
   fold settle_event (map (\<lambda>p. EvReject p e) ps) st =
     st\<lparr>tm_objs := map (\<lambda>p. if p \<in> set ps then (tm_objs st ! p)\<lparr>tk_st := Failed, tk_error := Some (error_text e)\<rparr> else tm_objs st ! p)
       [0..<length (tm_objs st)]\<rparr>"
proof (induction ps arbitrary: st)
  case Nil
  then show ?case by (simp add: map_nth)
next
  case (Cons p ps)
  then show ?case
    by (simp add: nth_list_update)
qed

lemma tk_held_cong:
  assumes hd: "tk_held st" and ids: "tk_ids st"
    and "mx_holder (tm_mutex st') = mx_holder (tm_mutex st)" "tm_byToken st' = tm_byToken st" "length (tm_objs st') = length (tm_objs st)"
    and T: "set (tm_tickets st') \<subseteq> set (tm_tickets st)"
    and g: "\<And>q. q < length (tm_objs st) \<Longrightarrow> tk_st (tm_objs st' ! q) = Granted \<longleftrightarrow> tk_st (tm_objs st ! q) = Granted"
      "\<And>q. q < length (tm_objs st) \<Longrightarrow> tk_st (tm_objs st ! q) = Granted \<Longrightarrow> tm_objs st' ! q = tm_objs st ! q"
      "\<And>tid q. (tid, q) \<in> set (tm_tickets st) \<Longrightarrow> tk_st (tm_objs st ! q) = Granted \<Longrightarrow> (tid, q) \<in> set (tm_tickets st')"
  shows "tk_held st'"
proof -
  have old: "(tid, q) \<in> set (tm_tickets st) \<and> tk_st (tm_objs st ! q) = Granted"
    if "(tid, q) \<in> set (tm_tickets st')" "tk_st (tm_objs st' ! q) = Granted" for tid q
    using that T ticket_entry[OF ids, of tid q] g(1)[of q] by blast
  show ?thesis
  proof (cases "mx_holder (tm_mutex st)")
    case None
    then show ?thesis
      using hd old assms(3,4) unfolding tk_held_def by fastforce
  next
    case (Some h)
    then obtain p where p: "holds_as st h p" "\<forall>(tid, q)\<in>set (tm_tickets st). tk_st (tm_objs st ! q) = Granted \<longrightarrow> q = p"
      using hd unfolding tk_held_def by auto
    then have "tm_objs st' ! p = tm_objs st ! p"
      using g(2) unfolding holds_as_def by simp
    then have "holds_as st' h p"
      using p(1) g(3) assms(4,5) unfolding holds_as_def by simp
    then show ?thesis
      using Some p(2) old assms(3) unfolding tk_held_def by fastforce
  qed
qed

text \<open>
  Dropping the waiters that \<open>P\<close> does not keep, with the tickets \<open>T\<close> that remain: none of a pending object that is kept, and
  no granted ticket is dropped.
\<close>

lemma drop_ok:
  assumes ok: "tk_ok X st" and D: "set ds = w_promise ` {w \<in> set (mx_waiters (tm_mutex st)). \<not> P w} \<union> Y"
    and Y: "Y \<subseteq> X" "\<And>p. p \<in> Y \<Longrightarrow> p < length (tm_objs st)"
    and m': "mx_waiters m' = filter P (mx_waiters (tm_mutex st))" "mx_holder m' = mx_holder (tm_mutex st)"
      "mx_seq m' = mx_seq (tm_mutex st)" "mx_promises m' = mx_promises (tm_mutex st)"
      "mx_out m' = mx_out (tm_mutex st) @ map (\<lambda>p. EvReject p e) ds"
    and T: "set T \<subseteq> set (tm_tickets st)" "jmap_ok T"
      "\<And>tid p. (tid, p) \<in> set (tm_tickets st) - set T \<Longrightarrow>
         tk_st (tm_objs st ! p) = Failed \<or> (tk_st (tm_objs st ! p) = Pending \<and> p \<in> set ds)"
  shows "tk_ok (X - Y) (react (tm_mutex st) (st\<lparr>tm_mutex := m', tm_tickets := T\<rparr>))" (is "tk_ok _ ?st")
proof -
  let ?m = "tm_mutex st"
  let ?W = "w_promise ` set (mx_waiters ?m)"
  have ids: "tk_ids st" and w: "tk_wait X st" and core: "mx_core (mx_promises ?m) ?m" and hd: "tk_held st"
    using ok unfolding tk_ok_def by simp_all
  have dW: "set ds \<subseteq> ?W \<union> X" and dX: "set ds \<inter> (X - Y) = {}" and WX: "?W \<inter> X = {}"
    using D Y(1) w unfolding tk_wait_def by auto
  have dl: "\<forall>p\<in>set ds. p < length (tm_objs st)"
    using D Y(2) w unfolding tk_wait_def by auto
  define f where "f p = (if p \<in> set ds then (tm_objs st ! p)\<lparr>tk_st := Failed, tk_error := Some (error_text e)\<rparr> else tm_objs st ! p)" for p
  have st: "?st = st\<lparr>tm_mutex := m', tm_tickets := T, tm_objs := map f [0..<length (tm_objs st)]\<rparr>"
    using dl by (simp add: react_out[OF _, of _ _ "map (\<lambda>p. EvReject p e) ds"] m'(5) fold_rejects f_def)
  have nm: "tk_ticket (f p) = tk_ticket (tm_objs st ! p)" "tk_sprintId (f p) = tk_sprintId (tm_objs st ! p)" for p
    unfolding f_def by simp_all
  have "map tk_ticket (map f [0..<length (tm_objs st)]) = map tk_ticket (tm_objs st)"
    by (rule nth_equalityI) (simp_all add: nm)
  then have "tk_ids ?st"
    unfolding st using ids T by - (rule tk_ids_cong, auto simp: m')
  moreover have "mx_core (mx_promises m') m'"
  proof (rule mx_core_drop[OF _ m'(1,2,3,5)])
    show "run_windows (map (\<lambda>p. EvReject p e) ds) s = Some s" for s
      by (induction ds) auto
    show "grants (map (\<lambda>p. EvReject p e) ds) = []"
      by (induction ds) auto
  qed (use core m'(4) in simp)
  moreover have gr: "grants (mx_out m') = grants (mx_out ?m)"
    unfolding m'(5) by (induction ds) auto
  have inj: "\<lbrakk>v \<in> set (mx_waiters ?m); u \<in> set (mx_waiters ?m); w_promise v = w_promise u\<rbrakk> \<Longrightarrow> v = u" for v u
  proof -
    have "distinct (map w_promise (mx_waiters ?m))"
      using core unfolding mx_core_def by (auto simp: sorted_wrt_append strict_sorted_iff)
    then show "\<lbrakk>v \<in> set (mx_waiters ?m); u \<in> set (mx_waiters ?m); w_promise v = w_promise u\<rbrakk> \<Longrightarrow> v = u"
      by (auto simp: distinct_map dest: inj_onD)
  qed
  have W': "w_promise ` set (mx_waiters m') = ?W - set ds"
    unfolding m'(1) D using inj WX Y(1) by auto
  have "tk_wait (X - Y) ?st"
  proof -
    have "obj_ok (w_promise ` set (mx_waiters m') \<union> (X - Y)) (set T) (set (grants (mx_out m'))) p (f p)" if "p < length (tm_objs st)" for p
    proof (cases "p \<in> set ds")
      case True
      then have "p \<notin> X - Y"
        using dX by auto
      then show ?thesis
        using True unfolding obj_ok_def f_def W' by simp
    next
      case False
      have "(tk_ticket (tm_objs st ! p), p) \<in> set T" if "tk_st (tm_objs st ! p) = Pending" "(tk_ticket (tm_objs st ! p), p) \<in> set (tm_tickets st)"
        using T(3)[of _ p] that False by auto
      then show ?thesis
        using tk_wait_obj[OF w that] False D unfolding f_def gr W' by (auto elim!: obj_ok_mono)
    qed
    moreover have "w_promise ` set (mx_waiters m') \<inter> (X - Y) = {}"
      using WX unfolding W' by auto
    ultimately show ?thesis
      using w unfolding tk_wait_def st by (auto simp: m'(1) nm)
  qed
  moreover have "tk_held ?st"
  proof (rule tk_held_cong[OF hd])
    show "tk_st (tm_objs ?st ! q) = Granted \<longleftrightarrow> tk_st (tm_objs st ! q) = Granted" "tk_st (tm_objs st ! q) = Granted \<Longrightarrow> tm_objs ?st ! q = tm_objs st ! q"
      if "q < length (tm_objs st)" for q
      using tk_wait_obj[OF w that] dW that unfolding obj_ok_def st by (auto simp: f_def)
    show "(tid, q) \<in> set (tm_tickets ?st)" if "(tid, q) \<in> set (tm_tickets st)" "tk_st (tm_objs st ! q) = Granted" for tid q
      using T(3)[of tid q] that by auto
  qed (use ids T(1) m'(2) in \<open>simp_all add: st\<close>)
  ultimately show ?thesis
    unfolding tk_ok_def by (simp add: st m'(4))
qed

subsection \<open>Every step keeps the invariant\<close>

text \<open>Closing a window and pumping, with the reactions.\<close>

lemma close_pump_ok:
  assumes ok: "tk_ok X st" and h: "mx_holder (tm_mutex st) = Some h"
    and e: "e \<in> {EvReclaim (h_sprintId h), EvRelease (h_sprintId h)}"
  shows "tk_ok X (react (tm_mutex st) ((close_window e st)\<lparr>tm_mutex := mx_pump env (tm_mutex (close_window e st))\<rparr>))"
    and "mx_holder (mx_pump env (tm_mutex (close_window e st))) = None \<longrightarrow> mx_waiters (mx_pump env (tm_mutex (close_window e st))) = []"
proof -
  let ?c = "close_window e st"
  have out: "mx_out (tm_mutex ?c) = mx_out (tm_mutex st) @ [e]"
    unfolding close_window_def by simp
  obtain es where es: "mx_out (mx_pump env (tm_mutex ?c)) = mx_out (tm_mutex ?c) @ es"
    using pump_out by blast
  have "react (tm_mutex st) ?c = ?c"
    using e by (subst react_out[OF out]) auto
  then have "react (tm_mutex st) (?c\<lparr>tm_mutex := mx_pump env (tm_mutex ?c)\<rparr>) = react (tm_mutex ?c) (?c\<lparr>tm_mutex := mx_pump env (tm_mutex ?c)\<rparr>)"
    using react_later[OF out es] by simp
  then show "tk_ok X (react (tm_mutex st) (?c\<lparr>tm_mutex := mx_pump env (tm_mutex ?c)\<rparr>))"
    using pump_ok(1)[OF close_ok[OF assms]] by simp
  show "mx_holder (mx_pump env (tm_mutex ?c)) = None \<longrightarrow> mx_waiters (mx_pump env (tm_mutex ?c)) = []"
    by (rule pump_ok(2)[OF close_ok[OF assms]])
qed

lemma byToken_held:
  assumes "tk_ok X st" "mx_holder (tm_mutex st) = Some h"
  shows "\<exists>tid. tm_byToken st = [(h_token h, tid)]"
  using assms unfolding tk_ok_def tk_held_def holds_as_def by auto

lemma byToken_free: "tk_ok X st \<Longrightarrow> mx_holder (tm_mutex st) = None \<Longrightarrow> tm_byToken st = []"
  unfolding tk_ok_def tk_held_def by simp

lemma react_tick [simp]: "react (tick m) = react m"
  by (rule ext) (simp add: react_def)

lemma ts_reclaim_mutex: "tm_mutex (fst (ts_reclaimExpired env st)) = fst (mx_reclaimExpired env (tm_mutex st))"
  unfolding ts_reclaimExpired_def mx_reclaimExpired_def on_reclaim_def
  by (simp add: Let_def split: option.split)

lemma reclaim_out: "\<exists>es. mx_out (fst (mx_reclaimExpired env m)) = mx_out m @ es"
  unfolding mx_reclaimExpired_def by (auto simp: Let_def split: option.split intro!: pump_out_more)

lemma ts_reclaim_cases:
  assumes "tk_ok X st"
  shows "fst (ts_reclaimExpired env st) = st \<or> fst (ts_reclaimExpired env st) = st\<lparr>tm_mutex := tick (tm_mutex st)\<rparr>
    \<or> (\<exists>h. mx_holder (tm_mutex st) = Some h \<and> fst (ts_reclaimExpired env st) =
         (let c = close_window (EvReclaim (h_sprintId h)) (st\<lparr>tm_mutex := tick (tm_mutex st)\<rparr>) in c\<lparr>tm_mutex := mx_pump env (tm_mutex c)\<rparr>))"
proof (cases "mx_holder (tm_mutex st)")
  case (Some h)
  obtain tid where "tm_byToken st = [(h_token h, tid)]"
    using byToken_held[OF assms Some] by blast
  then have "on_reclaim (h_token h) (st\<lparr>tm_mutex := (emit (EvReclaim (h_sprintId h)) (tick (tm_mutex st)))\<lparr>mx_holder := None\<rparr>\<rparr>)
      = close_window (EvReclaim (h_sprintId h)) (st\<lparr>tm_mutex := tick (tm_mutex st)\<rparr>)"
    unfolding on_reclaim_def close_window_def by simp
  then show ?thesis
    using Some unfolding ts_reclaimExpired_def by (auto simp: Let_def)
qed (simp add: ts_reclaimExpired_def)

lemma tickets_reclaim_ok:
  assumes ok: "tk_ok X st"
  shows "tk_ok X (react (tm_mutex st) (fst (ts_reclaimExpired env st)))"
proof -
  have t: "tk_ok X (st\<lparr>tm_mutex := tick (tm_mutex st)\<rparr>)"
    using ok by simp
  have same: "react (tm_mutex st) st = st" "react (tm_mutex st) (st\<lparr>tm_mutex := tick (tm_mutex st)\<rparr>) = st\<lparr>tm_mutex := tick (tm_mutex st)\<rparr>"
    by (simp_all add: react_def)
  from ts_reclaim_cases[OF ok, of env] show ?thesis
  proof (elim disjE exE conjE)
    fix h
    assume h: "mx_holder (tm_mutex st) = Some h" and r: "fst (ts_reclaimExpired env st) =
         (let c = close_window (EvReclaim (h_sprintId h)) (st\<lparr>tm_mutex := tick (tm_mutex st)\<rparr>) in c\<lparr>tm_mutex := mx_pump env (tm_mutex c)\<rparr>)"
    show ?thesis
      unfolding r Let_def using close_pump_ok[OF t, of h "EvReclaim (h_sprintId h)" env] h by simp
  qed (use ok t same in simp_all)
qed

lemma fresh_inv: "tk_inv new_ticketed"
  unfolding tk_inv_def tk_ok_defs new_ticketed_def mx_start_def using new_mutex_inv
  by (simp add: mx_inv_def new_mutex_def mx_core_def)

lemma mx_core_seq:
  assumes "mx_core b m" "b \<le> c" "mx_holder m' = mx_holder m" "mx_waiters m' = mx_waiters m" "mx_out m' = mx_out m" "mx_seq m \<le> mx_seq m'"
  shows "mx_core c m'"
proof -
  have "\<forall>p\<in>set (map fst (grants (mx_out m)) @ map w_promise (mx_waiters m)). p < c"
    using assms(1,2) unfolding mx_core_def by (meson less_le_trans)
  moreover have "\<forall>t\<in>set (map (g_token \<circ> snd) (grants (mx_out m))). token_below (mx_seq m') t"
    using assms(1) token_below_mono[OF _ assms(6)] unfolding mx_core_def by blast
  ultimately show ?thesis
    using assms unfolding mx_core_def by simp
qed

text \<open>A new ticket, before its waiter is queued.\<close>

lemma open_ok:
  assumes "tk_inv st" "open_ticket env sid st = (st1, tid)"
  shows "tk_ok {length (tm_objs st)} (st1\<lparr>tm_mutex := (tm_mutex st1)\<lparr>mx_promises := Suc (mx_promises (tm_mutex st1))\<rparr>\<rparr>)"
    and "mx_promises (tm_mutex st1) = length (tm_objs st)"
    and "tm_mutex st1 = (tick (tm_mutex st))\<lparr>mx_seq := Suc (mx_seq (tm_mutex st))\<rparr>"
    and "tm_objs st1 = tm_objs st @ [\<lparr>tk_ticket = tid, tk_sprintId = sid, tk_st = Pending, tk_grant = None, tk_error = None\<rparr>]"
    and "tm_tickets st1 = tm_tickets st @ [(tid, length (tm_objs st))]"
proof -
  let ?n = "length (tm_objs st)"
  let ?t = "\<lparr>tk_ticket = tid, tk_sprintId = sid, tk_st = Pending, tk_grant = None, tk_error = None\<rparr> :: ticket"
  have ok: "tk_ok {} st"
    using assms(1) unfolding tk_inv_def by simp
  then have ids: "tk_ids st" and w: "tk_wait {} st" and hd: "tk_held st" and core: "mx_core (mx_promises (tm_mutex st)) (tm_mutex st)"
    unfolding tk_ok_def by simp_all
  obtain a d where tid: "tid = nextToken a (Suc (mx_seq (tm_mutex st))) d"
    using assms(2) unfolding open_ticket_def by (auto simp: Let_def)
  have "token_below (mx_seq (tm_mutex st)) i" if "i \<in> tk_ticket ` set (tm_objs st)" for i
    using ids that unfolding tk_ids_def by blast
  then have fresh: "tid \<notin> tk_ticket ` set (tm_objs st)"
    using token_below_fresh tid by blast
  have newkey: "tid \<notin> set (jkeys (tm_tickets st))"
    using fresh ticket_entry[OF ids] by fastforce
  then have st1: "st1 = st\<lparr>tm_mutex := (tick (tm_mutex st))\<lparr>mx_seq := Suc (mx_seq (tm_mutex st))\<rparr>, tm_tickets := tm_tickets st @ [(tid, ?n)],
      tm_objs := tm_objs st @ [?t]\<rparr>"
    using assms(2) unfolding open_ticket_def by (auto simp: Let_def update_fresh_snoc)
  have n: "?n = mx_promises (tm_mutex st)"
    using ids unfolding tk_ids_def by simp
  show "mx_promises (tm_mutex st1) = ?n" "tm_mutex st1 = (tick (tm_mutex st))\<lparr>mx_seq := Suc (mx_seq (tm_mutex st))\<rparr>" "tm_objs st1 = tm_objs st @ [?t]"
    "tm_tickets st1 = tm_tickets st @ [(tid, ?n)]"
    using n unfolding st1 by simp_all
  let ?s = "st1\<lparr>tm_mutex := (tm_mutex st1)\<lparr>mx_promises := Suc (mx_promises (tm_mutex st1))\<rparr>\<rparr>"
  have entry: "p < ?n" if "(i, p) \<in> set (tm_tickets st)" for i p
    using ticket_entry[OF ids that] by simp
  have old: "(tm_objs st @ [?t]) ! p = tm_objs st ! p" if "p < ?n" for p
    using that by (simp add: nth_append)
  have "token_below (Suc (mx_seq (tm_mutex st))) tid"
    unfolding tid by (rule token_below_next)
  moreover have "token_below (Suc (mx_seq (tm_mutex st))) (tk_ticket t)" if "t \<in> set (tm_objs st)" for t
    using ids that token_below_mono[OF _ le_SucI[OF order_refl]] unfolding tk_ids_def by blast
  ultimately have "tk_ids ?s"
    using ids fresh n newkey unfolding tk_ids_def st1 by (auto simp: nth_append less_SucI jmap_ok_def)
  moreover have "mx_core (mx_promises (tm_mutex ?s)) (tm_mutex ?s)"
    unfolding st1 by (rule mx_core_seq[OF core]) simp_all
  moreover have "tk_wait {?n} ?s"
  proof -
    have "obj_ok (w_promise ` set (mx_waiters (tm_mutex st)) \<union> {?n}) (set (tm_tickets st1)) (set (grants (mx_out (tm_mutex st)))) p (tm_objs st1 ! p)"
      if "p < Suc ?n" for p
    proof (cases "p = ?n")
      case True
      then show ?thesis
        unfolding obj_ok_def st1 by simp
    next
      case False
      then have "p < ?n" "tm_objs st1 ! p = tm_objs st ! p"
        using that old unfolding st1 by simp_all
      then show ?thesis
        using tk_wait_obj[OF w, of p] False unfolding st1 by (auto elim!: obj_ok_mono)
    qed
    moreover have ws: "w_promise x < ?n \<and> w_sprintId x = tk_sprintId (tm_objs st ! w_promise x)" if "x \<in> set (mx_waiters (tm_mutex st))" for x
      using w that unfolding tk_wait_def by blast
    moreover have "w_promise ` set (mx_waiters (tm_mutex st)) \<inter> {?n} = {}"
      using ws by fastforce
    ultimately show ?thesis
      unfolding tk_wait_def st1 using old by (simp add: less_SucI)
  qed
  moreover have "tk_held ?s"
  proof (cases "mx_holder (tm_mutex st)")
    case None
    then show ?thesis
      using hd entry old unfolding tk_held_def st1 by (auto simp: nth_append)
  next
    case (Some h)
    then obtain p where p: "holds_as st h p" "\<forall>(tid, q)\<in>set (tm_tickets st). tk_st (tm_objs st ! q) = Granted \<longrightarrow> q = p"
      using hd unfolding tk_held_def by auto
    then have "holds_as ?s h p"
      unfolding holds_as_def st1 by (auto simp: nth_append)
    moreover have "q = p" if "(i, q) \<in> set (tm_tickets ?s)" "tk_st (tm_objs ?s ! q) = Granted" for i q
      using that p(2) entry[of i q] old[of q] unfolding st1 by (auto simp: nth_append)
    ultimately show ?thesis
      using Some by (intro tk_heldI) (simp_all add: st1)
  qed
  ultimately show "tk_ok {?n} ?s"
    unfolding tk_ok_def by simp
qed

lemma push_ok:
  assumes ok: "tk_ok {p} st" and p: "p < length (tm_objs st)" "w_promise x = p" "w_sprintId x = tk_sprintId (tm_objs st ! p)"
    and last: "\<And>q. q \<in> w_promise ` set (mx_waiters (tm_mutex st)) \<union> fst ` set (grants (mx_out (tm_mutex st))) \<Longrightarrow> q < p"
  shows "tk_ok {} (st\<lparr>tm_mutex := (tick (tm_mutex st))\<lparr>mx_waiters := mx_waiters (tm_mutex st) @ [x]\<rparr>\<rparr>)" (is "tk_ok {} ?st")
proof -
  have w: "tk_wait {p} st" and hd: "tk_held st" and ids: "tk_ids st" and core: "mx_core (mx_promises (tm_mutex st)) (tm_mutex st)"
    using ok unfolding tk_ok_def by simp_all
  have ws: "w_promise ` set (mx_waiters (tm_mutex ?st)) \<union> {} = w_promise ` set (mx_waiters (tm_mutex st)) \<union> {p}"
    using p(2) by auto
  have "tk_wait {} ?st"
    using w p unfolding tk_wait_def ws by auto
  moreover have "tk_held ?st"
    using hd unfolding tk_held_def holds_as_def by (simp split: option.splits)
  moreover have "tk_ids ?st"
    using ids unfolding tk_ids_def by auto
  moreover have "mx_core (mx_promises (tm_mutex ?st)) (tm_mutex ?st)"
    using core last p ids unfolding mx_core_def tk_ids_def by (auto simp: sorted_wrt_append)
  ultimately show ?thesis
    unfolding tk_ok_def by simp
qed

lemma ts_reclaim_objs [simp]: "tm_objs (fst (ts_reclaimExpired env st)) = tm_objs st"
  unfolding ts_reclaimExpired_def on_reclaim_def by (simp add: Let_def split: option.split)

lemma acquire_inv:
  assumes inv: "tk_inv st"
  shows "tk_inv (fst (tk_acquire env sid pid st))"
proof -
  let ?n = "length (tm_objs st)"
  obtain st1 tid where o: "open_ticket env sid st = (st1, tid)"
    by fastforce
  note op = open_ok[OF inv o]
  define s0 where "s0 = st1\<lparr>tm_mutex := (tm_mutex st1)\<lparr>mx_promises := Suc (mx_promises (tm_mutex st1))\<rparr>\<rparr>"
  have ok0: "tk_ok {?n} s0" and out0: "mx_out (tm_mutex s0) = mx_out (tm_mutex st)" and objs0: "length (tm_objs s0) = Suc ?n"
    "tk_sprintId (tm_objs s0 ! ?n) = sid"
    using op unfolding s0_def by simp_all
  have free0: "mx_holder (tm_mutex s0) = None \<longrightarrow> mx_waiters (tm_mutex s0) = []"
    using inv unfolding s0_def op(3) tk_inv_def by simp
  show ?thesis
  proof (cases "sid = []")
    case True
    let ?e = "TypeError ''acquire() requires a non-empty sprintId''"
    let ?m = "emit (EvReject ?n ?e) (tm_mutex s0)"
    have "tk_ok ({?n} - {?n}) (react (tm_mutex s0) (s0\<lparr>tm_mutex := ?m, tm_tickets := tm_tickets s0\<rparr>))"
      by (rule drop_ok[OF ok0, of "[?n]" "\<lambda>_. True" _ _ ?e])
        (use objs0 ok0 in \<open>auto simp: tk_ok_def tk_ids_def\<close>)
    moreover have "ts_acquire env sid pid st1 = s0\<lparr>tm_mutex := ?m\<rparr>"
      unfolding ts_acquire_def s0_def using True op(2) by (simp add: Let_def)
    ultimately show ?thesis
      using o free0 react_cong[OF out0] unfolding tk_acquire_def tk_inv_def by simp
  next
    case False
    define s1 where "s1 = fst (ts_reclaimExpired env s0)"
    define m1 where "m1 = tm_mutex s1"
    define x where "x = \<lparr>w_sprintId = sid, w_pid = pid, w_promise = ?n, w_enqueuedAt = e_now env (mx_ticks m1)\<rparr>"
    define m2 where "m2 = (tick m1)\<lparr>mx_waiters := mx_waiters m1 @ [x]\<rparr>"
    have acq: "ts_acquire env sid pid st1 = s1\<lparr>tm_mutex := mx_pump env m2\<rparr>"
      unfolding ts_acquire_def s1_def s0_def m2_def m1_def x_def using False op(2) by (simp add: Let_def)
    obtain es where es: "mx_out m1 = mx_out (tm_mutex st) @ es"
      using reclaim_out[of env "tm_mutex s0"] out0 unfolding m1_def s1_def ts_reclaim_mutex by auto
    obtain fs where fs: "mx_out (mx_pump env m2) = mx_out m1 @ fs"
      using pump_out[of env m2] unfolding m2_def by auto
    define s2 where "s2 = (react (tm_mutex st) s1)\<lparr>tm_mutex := m2\<rparr>"
    have "tk_ok {?n} (react (tm_mutex st) s1)"
      using tickets_reclaim_ok[OF ok0] react_cong[OF out0] unfolding s1_def by simp
    moreover have "mx_core ?n m1"
    proof -
      have "mx_core ?n (tm_mutex s0)"
        using inv op(2) unfolding s0_def op(3) tk_inv_def tk_ok_def by - (rule mx_core_seq[of ?n "tm_mutex st"], simp_all)
      from mx_reclaim_core(1)[OF this free0] show ?thesis
        unfolding m1_def s1_def ts_reclaim_mutex .
    qed
    moreover have "tk_sprintId (tm_objs (react (tm_mutex st) s1) ! ?n) = sid"
      using arg_cong[OF react_names(2)[of "tm_mutex st" s1], of "\<lambda>xs. xs ! ?n"] objs0 unfolding s1_def by simp
    ultimately have "tk_ok {} s2"
      using push_ok[of ?n "react (tm_mutex st) s1" x] objs0(1) unfolding s2_def m2_def m1_def x_def s1_def
      by (auto simp: mx_core_def)
    from pump_ok[OF this] have "tk_inv (react m2 (s2\<lparr>tm_mutex := mx_pump env m2\<rparr>))"
      unfolding s2_def tk_inv_def by simp
    moreover have "react (tm_mutex st) (s1\<lparr>tm_mutex := mx_pump env m2\<rparr>) = react m2 (s2\<lparr>tm_mutex := mx_pump env m2\<rparr>)"
      using react_later[of s1 "tm_mutex st" es "mx_pump env m2" fs] es fs react_cong[of m1 m2] unfolding m1_def s2_def m2_def by simp
    ultimately show ?thesis
      using o acq unfolding tk_acquire_def by simp
  qed
qed

lemma tmx_update_order:
  "st\<lparr>tm_mutex := m, tm_byToken := b\<rparr> = st\<lparr>tm_byToken := b, tm_mutex := m\<rparr>"
  "st\<lparr>tm_mutex := m, tm_tickets := ts\<rparr> = st\<lparr>tm_tickets := ts, tm_mutex := m\<rparr>"
  "st\<lparr>tm_tickets := ts, tm_byToken := b\<rparr> = st\<lparr>tm_byToken := b, tm_tickets := ts\<rparr>" for st :: tmx
  by (cases st; simp)+

lemma release_inv:
  assumes inv: "tk_inv st"
  shows "tk_inv (fst (tk_release env tok st))"
proof -
  have ok: "tk_ok {} st"
    using inv unfolding tk_inv_def by simp
  have idle: "react (tm_mutex st) st = st"
    by (simp add: react_def)
  show ?thesis
  proof (cases "mx_holder (tm_mutex st)")
    case None
    then show ?thesis
      using inv byToken_free[OF ok] idle unfolding tk_release_def mx_release_def by (simp add: Let_def)
  next
    case (Some h)
    obtain tid where b: "tm_byToken st = [(h_token h, tid)]"
      using byToken_held[OF ok Some] by blast
    show ?thesis
    proof (cases "h_token h = tok")
      case False
      then show ?thesis
        using inv idle Some b unfolding tk_release_def mx_release_def by (simp add: Let_def)
    next
      case True
      let ?c = "close_window (EvRelease (h_sprintId h)) st"
      have "fst (tk_release env tok st) = react (tm_mutex st) (?c\<lparr>tm_mutex := mx_pump env (tm_mutex ?c)\<rparr>)"
        using Some True b unfolding tk_release_def mx_release_def close_window_def by (simp add: Let_def tmx_update_order)
      then show ?thesis
        using close_pump_ok[OF ok Some, of "EvRelease (h_sprintId h)" env] unfolding tk_inv_def by simp
    qed
  qed
qed

text \<open>A granted ticket of the map is the current holder's.\<close>

lemma granted_is_holder:
  assumes "tk_ok X st" "(tid, p) \<in> set (tm_tickets st)" "tk_st (tm_objs st ! p) = Granted"
  obtains h g where "mx_holder (tm_mutex st) = Some h" "holds_as st h p" "tk_grant (tm_objs st ! p) = Some g" "g_token g = h_token h"
proof (cases "mx_holder (tm_mutex st)")
  case None
  then show ?thesis
    using assms unfolding tk_ok_def tk_held_def by auto
next
  case (Some h)
  then show ?thesis
    using assms that unfolding tk_ok_def tk_held_def holds_as_def by fastforce
qed

lemma cancel_inv:
  assumes inv: "tk_inv st"
  shows "tk_inv (fst (tk_cancel env tid st))"
proof (cases "map_of (tm_tickets st) tid")
  case None
  then show ?thesis
    using inv unfolding tk_cancel_def by simp
next
  case (Some p)
  have ok: "tk_ok {} st" and free: "mx_holder (tm_mutex st) = None \<longrightarrow> mx_waiters (tm_mutex st) = []"
    using inv unfolding tk_inv_def by simp_all
  have ids: "tk_ids st" and w: "tk_wait {} st"
    using ok unfolding tk_ok_def by simp_all
  have e: "(tid, p) \<in> set (tm_tickets st)"
    using Some by (rule map_of_SomeD)
  have pl: "p < length (tm_objs st)" "tk_ticket (tm_objs st ! p) = tid"
    using ticket_entry[OF ids e] by simp_all
  show ?thesis
  proof (cases "tk_st (tm_objs st ! p) = Granted")
    case True
    then obtain h g where h: "mx_holder (tm_mutex st) = Some h" "holds_as st h p" "tk_grant (tm_objs st ! p) = Some g" "g_token g = h_token h"
      using granted_is_holder[OF ok e] by blast
    let ?c = "close_window (EvRelease (h_sprintId h)) st"
    have "fst (tk_cancel env tid st) = react (tm_mutex st) (?c\<lparr>tm_mutex := mx_pump env (tm_mutex ?c)\<rparr>)"
      using Some True h pl(2) unfolding tk_cancel_def mx_release_def close_window_def holds_as_def
      by (simp add: Let_def tmx_update_order)
    then show ?thesis
      using close_pump_ok[OF ok h(1), of "EvRelease (h_sprintId h)" env] unfolding tk_inv_def by simp
  next
    case False
    let ?s = "tk_sprintId (tm_objs st ! p)"
    let ?r = "GeneralError (''acquire cancelled for ticket '' @ squoted tid)"
    let ?m = "fst (mx_cancelWaiter ?s (Some ?r) (tm_mutex st))"
    let ?ds = "map w_promise (filter (\<lambda>w. w_sprintId w = ?s) (rev (mx_waiters (tm_mutex st))))"
    have eq: "fst (tk_cancel env tid st) = react (tm_mutex st) (st\<lparr>tm_mutex := ?m, tm_tickets := AList.delete tid (tm_tickets st)\<rparr>)"
      using Some False unfolding tk_cancel_def by (auto simp: Let_def split: prod.splits tk_state.splits option.splits)
    have "tk_ok ({} - {}) (react (tm_mutex st) (st\<lparr>tm_mutex := ?m, tm_tickets := AList.delete tid (tm_tickets st)\<rparr>))"
    proof (rule drop_ok[OF ok, of ?ds "\<lambda>w. w_sprintId w \<noteq> ?s" "{}" ?m ?r])
      show "jmap_ok (AList.delete tid (tm_tickets st))"
        using ids unfolding tk_ids_def by simp
      fix i q
      assume "(i, q) \<in> set (tm_tickets st) - set (AList.delete tid (tm_tickets st))"
      then have "q = p"
        using ids e unfolding tk_ids_def jmap_ok_def by (auto simp: in_set_delete dest: eq_key_imp_eq_value)
      moreover have "p \<in> set ?ds" if "tk_st (tm_objs st ! p) = Pending"
        using that tk_wait_obj[OF w pl(1)] w unfolding obj_ok_def tk_wait_def by auto
      ultimately show "tk_st (tm_objs st ! q) = Failed \<or> tk_st (tm_objs st ! q) = Pending \<and> q \<in> set ?ds"
        using False by (cases "tk_st (tm_objs st ! p)") auto
    qed (auto simp: mx_cancelWaiter_def Let_def in_set_delete)
    moreover have "mx_holder ?m = None \<longrightarrow> mx_waiters ?m = []"
      using free unfolding mx_cancelWaiter_def by (simp add: Let_def)
    ultimately show ?thesis
      unfolding eq tk_inv_def by simp
  qed
qed

lemma sweep_inv: "tk_inv st \<Longrightarrow> tk_inv (react (tm_mutex st) (fst (ts_reclaimExpired env st)))"
  using tickets_reclaim_ok[of "{}" st env] mx_reclaim_core(2)[of _ "tm_mutex st" env]
  unfolding tk_inv_def by (auto simp: ts_reclaim_mutex tk_ok_def)

lemma renew_inv:
  assumes "tk_inv st"
  shows "tk_inv (st\<lparr>tm_mutex := fst (mx_renew env tok (tm_mutex st))\<rparr>)" (is "tk_inv ?st")
proof (cases "tm_mutex ?st = tm_mutex st")
  case False
  then obtain h where h: "mx_holder (tm_mutex st) = Some h" "fst (mx_renew env tok (tm_mutex st)) =
      (tick (tm_mutex st))\<lparr>mx_holder := Some (h\<lparr>h_expiresAt := e_now env (mx_ticks (tm_mutex st)) + e_leaseMs env\<rparr>)\<rparr>"
    unfolding mx_renew_def by (auto simp: Let_def split: option.splits if_splits)
  have ok: "tk_ok {} st"
    using assms unfolding tk_inv_def by simp
  then obtain p where p: "holds_as st h p" "\<forall>(tid, q)\<in>set (tm_tickets st). tk_st (tm_objs st ! q) = Granted \<longrightarrow> q = p"
    using h(1) unfolding tk_ok_def tk_held_def by auto
  have "tk_held ?st"
    by (rule tk_heldI[of _ _ p]) (use p h in \<open>auto simp: holds_as_def\<close>)
  moreover have "mx_core (mx_promises (tm_mutex ?st)) (tm_mutex ?st)" "tk_ids ?st" "tk_wait {} ?st"
    using ok h unfolding tk_ok_def mx_core_def tk_ids_def tk_wait_def by auto
  ultimately show ?thesis
    unfolding tk_inv_def tk_ok_def using h by simp
qed (use assms in simp)

lemma stop_inv:
  assumes "tk_inv st"
  shows "tk_inv (react (tm_mutex st) (st\<lparr>tm_mutex := mx_stop (tm_mutex st)\<rparr>))"
proof -
  have ok: "tk_ok {} st"
    using assms unfolding tk_inv_def by simp
  have "tk_ok ({} - {}) (react (tm_mutex st) (st\<lparr>tm_mutex := mx_stop (tm_mutex st), tm_tickets := tm_tickets st\<rparr>))"
    by (rule drop_ok[OF ok, of "map w_promise (mx_waiters (tm_mutex st))" "\<lambda>_. False" _ _ "GeneralError ''dolt mutex is shutting down''"])
      (use ok in \<open>auto simp: mx_stop_def tk_ok_def tk_ids_def\<close>)
  then show ?thesis
    unfolding tk_inv_def by (simp add: mx_stop_def)
qed

lemma mint_inv:
  assumes "tk_inv st"
  shows "tk_inv (st\<lparr>tm_mutex := (tm_mutex st)\<lparr>mx_seq := Suc (mx_seq (tm_mutex st))\<rparr>\<rparr>)" (is "tk_inv ?st")
proof -
  have ok: "tk_ok {} st"
    using assms unfolding tk_inv_def by simp
  have "mx_core (mx_promises (tm_mutex st)) (tm_mutex ?st)"
    using ok unfolding tk_ok_def by - (rule mx_core_seq[of "mx_promises (tm_mutex st)" "tm_mutex st"], simp_all)
  moreover have "tk_ids ?st"
    using ok unfolding tk_ok_def by - (rule tk_ids_cong[of st], auto simp: tk_ids_def)
  moreover have "tk_held ?st" "tk_wait {} ?st"
    using ok unfolding tk_ok_def tk_held_def tk_wait_def holds_as_def by (simp_all split: option.splits)
  ultimately show ?thesis
    using assms unfolding tk_inv_def tk_ok_def by simp
qed

interpretation tk: op_machine new_ticketed "tk_step env" tk_inv for env
proof unfold_locales
  fix st op
  assume "tk_inv st"
  then show "tk_inv (tk_step env op st)"
    by (cases op) (simp_all add: acquire_inv release_inv renew_inv cancel_inv sweep_inv stop_inv mint_inv)
qed (rule fresh_inv)

lemma tk_run_inv: "tk_inv (tk_run env ops)"
  unfolding tk_run_def by (rule tk.run_inv)

subsection \<open>A pending ticket stays in the map until it is settled\<close>

lemma holder_not_pending:
  assumes "tk_ok X st" "mx_holder (tm_mutex st) = Some h" "(tid, p) \<in> set (tm_tickets st)" "tk_st (tm_objs st ! p) = Pending"
  shows "snd (hd (tm_byToken st)) \<noteq> tid"
proof -
  obtain q where q: "holds_as st h q"
    using assms(1,2) unfolding tk_ok_def tk_held_def by auto
  have ids: "tk_ids st"
    using assms(1) unfolding tk_ok_def by simp
  have "tk_ticket (tm_objs st ! q) \<noteq> tk_ticket (tm_objs st ! p)"
    using ids_unique[OF ids, of q p] ticket_entry[OF ids assms(3)] q assms(4) unfolding holds_as_def by auto
  then show ?thesis
    using q ticket_entry[OF ids assms(3)] unfolding holds_as_def by simp
qed

lemma close_keeps_pending:
  assumes "tk_ok X st" "mx_holder (tm_mutex st) = Some h" "(tid, p) \<in> set (tm_tickets st)" "tk_st (tm_objs st ! p) = Pending"
  shows "(tid, p) \<in> set (tm_tickets (close_window e st))"
  using holder_not_pending[OF assms] assms(3) unfolding close_window_def by (auto simp: in_set_delete)

lemma reclaim_keeps_pending:
  assumes ok: "tk_ok X st" and p: "(tid, p) \<in> set (tm_tickets st)" "tk_st (tm_objs st ! p) = Pending"
  shows "(tid, p) \<in> set (tm_tickets (fst (ts_reclaimExpired env st)))"
proof -
  have "tk_ok X (st\<lparr>tm_mutex := tick (tm_mutex st)\<rparr>)"
    using ok by simp
  note c = close_keeps_pending[OF this]
  from ts_reclaim_cases[OF ok, of env] show ?thesis
    using p c by (elim disjE exE conjE) (auto simp: Let_def)
qed

lemma release_keeps_pending:
  assumes ok: "tk_ok X st" and p: "(tid, p) \<in> set (tm_tickets st)" "tk_st (tm_objs st ! p) = Pending"
  shows "(tid, p) \<in> set (tm_tickets (fst (tk_release env tok st)))"
proof (cases "mx_holder (tm_mutex st)")
  case None
  then show ?thesis
    using p(1) byToken_free[OF ok] unfolding tk_release_def mx_release_def by (simp add: Let_def)
next
  case (Some h)
  then show ?thesis
    using p(1) byToken_held[OF ok Some] holder_not_pending[OF ok Some p] unfolding tk_release_def
    by (auto simp: Let_def in_set_delete split: prod.splits)
qed

lemma acquire_tickets:
  assumes inv: "tk_inv st" and a: "tk_acquire env sid pid st = (st', tid, n)"
  shows "n = length (tm_objs st)" "n < length (tm_objs st')" "tk_ticket (tm_objs st' ! n) = tid" "tk_sprintId (tm_objs st' ! n) = sid"
    "(tid, n) \<in> set (tm_tickets st')" "tid \<noteq> []"
    and "(i, p) \<in> set (tm_tickets st) \<Longrightarrow> tk_st (tm_objs st ! p) = Pending \<Longrightarrow> (i, p) \<in> set (tm_tickets st')"
proof -
  obtain st1 where o: "open_ticket env sid st = (st1, tid)" and st': "st' = react (tm_mutex st) (ts_acquire env sid pid st1)"
    and n: "n = length (tm_objs st)"
    using a unfolding tk_acquire_def by (auto split: prod.splits)
  note op = open_ok[OF inv o]
  let ?s0 = "st1\<lparr>tm_mutex := (tm_mutex st1)\<lparr>mx_promises := Suc (mx_promises (tm_mutex st1))\<rparr>\<rparr>"
  have tk: "tm_tickets st' = (if sid = [] then tm_tickets st1 else tm_tickets (fst (ts_reclaimExpired env ?s0)))"
    and objs: "tm_objs (ts_acquire env sid pid st1) = tm_objs st1"
    unfolding st' ts_acquire_def by (simp_all add: Let_def)
  show nl: "n = length (tm_objs st)"
    by (rule n)
  have l: "length (tm_objs st1) = Suc n"
    unfolding op(4) n by simp
  have nth: "f (tm_objs st' ! q) = f (tm_objs st1 ! q)" if "q < Suc n" "f \<in> {tk_ticket, tk_sprintId}" for q f
    using arg_cong[OF react_names(1)[of "tm_mutex st" "ts_acquire env sid pid st1"], of "\<lambda>xs. xs ! q"]
      arg_cong[OF react_names(2)[of "tm_mutex st" "ts_acquire env sid pid st1"], of "\<lambda>xs. xs ! q"] that objs l
    unfolding st' by auto
  show "n < length (tm_objs st')" "tk_ticket (tm_objs st' ! n) = tid" "tk_sprintId (tm_objs st' ! n) = sid"
    using nth[of n tk_ticket] nth[of n tk_sprintId] objs l unfolding st' op(4) n by simp_all
  show "tid \<noteq> []"
    using o unfolding open_ticket_def nextToken_def by (auto simp: Let_def)
  have kept: "(i, q) \<in> set (tm_tickets st')" if "(i, q) \<in> set (tm_tickets st1)" "tk_st (tm_objs st1 ! q) = Pending" for i q
    using reclaim_keeps_pending[OF op(1), of i q env] that unfolding tk by simp
  show "(tid, n) \<in> set (tm_tickets st')"
    using kept[of tid n] unfolding op(4,5) n by simp
  show "(i, p) \<in> set (tm_tickets st')" if "(i, p) \<in> set (tm_tickets st)" "tk_st (tm_objs st ! p) = Pending"
  proof -
    have "p < length (tm_objs st)"
      using inv ticket_entry[OF _ that(1)] unfolding tk_inv_def tk_ok_def by blast
    then show ?thesis
      using kept[of i p] that unfolding op(4,5) by (simp add: nth_append)
  qed
qed

lemma settle_no_grant:
  assumes "grants [e] = []" "p < length (tm_objs st)" "tk_st (tm_objs (settle_event e st) ! p) = Granted"
  shows "tk_st (tm_objs st ! p) = Granted"
proof (cases e)
  case (EvReject q r)
  then show ?thesis
    using assms by (cases "q = p") simp_all
qed (use assms in simp_all)

lemma settle_event_length [simp]: "length (tm_objs (settle_event e st)) = length (tm_objs st)"
  using settle_event_names(1) map_eq_imp_length_eq by blast

lemma grants_Cons: "grants (e # es) = grants [e] @ grants es"
  by (cases e) simp_all

lemma fold_settle_no_grant:
  "grants es = [] \<Longrightarrow> p < length (tm_objs st) \<Longrightarrow> tk_st (tm_objs (fold settle_event es st) ! p) = Granted \<Longrightarrow> tk_st (tm_objs st ! p) = Granted"
proof (induction es arbitrary: st)
  case (Cons e es)
  have g: "grants [e] = []" "grants es = []"
    using Cons.prems(1) unfolding grants_Cons[of e es] by blast+
  have "tk_st (tm_objs (settle_event e st) ! p) = Granted"
    by (rule Cons.IH[OF g(2)]) (use Cons.prems(2,3) in simp_all)
  then show ?case
    by (rule settle_no_grant[OF g(1) Cons.prems(2)])
qed simp

lemma cancel_pending:
  assumes "map_of (tm_tickets st) i = Some p" "tk_st (tm_objs st ! p) = Pending"
  shows "\<exists>r. fst (tk_cancel env i st) = react (tm_mutex st) (st\<lparr>tm_mutex := fst (mx_cancelWaiter (tk_sprintId (tm_objs st ! p)) r (tm_mutex st)),
    tm_tickets := AList.delete i (tm_tickets st)\<rparr>)"
  using assms unfolding tk_cancel_def by (auto simp: Let_def case_prod_unfold)

lemma cancel_out: "\<exists>es. mx_out (fst (mx_cancelWaiter s r m)) = mx_out m @ es \<and> grants es = []"
  unfolding mx_cancelWaiter_def by (simp add: Let_def)

lemma cancel_keeps_pending:
  assumes inv: "tk_inv st" and p: "(tid, p) \<in> set (tm_tickets st)" "tk_st (tm_objs st ! p) = Pending"
    and g: "tk_st (tm_objs (fst (tk_cancel env i st)) ! p) = Granted"
  shows "(tid, p) \<in> set (tm_tickets (fst (tk_cancel env i st)))"
proof (cases "i = tid")
  case True
  have ids: "tk_ids st"
    using inv unfolding tk_inv_def tk_ok_def by simp
  have "map_of (tm_tickets st) i = Some p"
    using p(1) ids True unfolding tk_ids_def jmap_ok_def by simp
  then obtain r where c: "fst (tk_cancel env i st) = react (tm_mutex st) (st\<lparr>tm_mutex := fst (mx_cancelWaiter (tk_sprintId (tm_objs st ! p)) r (tm_mutex st)),
      tm_tickets := AList.delete i (tm_tickets st)\<rparr>)" (is "_ = react _ ?c")
    using cancel_pending[OF _ p(2)] by blast
  obtain es where es: "mx_out (tm_mutex ?c) = mx_out (tm_mutex st) @ es" "grants es = []"
    using cancel_out[of "tk_sprintId (tm_objs st ! p)" r "tm_mutex st"] by auto
  have "tk_st (tm_objs st ! p) = Granted"
    using g ticket_entry[OF ids p(1)] fold_settle_no_grant[OF es(2), of p ?c] unfolding c react_out[OF es(1)] by simp
  then show ?thesis
    using p(2) by simp
next
  case False
  then show ?thesis
    using p(1) unfolding tk_cancel_def by (auto simp: Let_def in_set_delete split: option.splits prod.splits tk_state.splits)
qed

text \<open>A step that grants a ticket leaves it in the map, so its owner finds the grant when it asks.\<close>

lemma step_keeps_granted:
  assumes inv: "tk_inv st" and p: "(tid, p) \<in> set (tm_tickets st)" "tk_st (tm_objs st ! p) = Pending"
    and g: "tk_st (tm_objs (tk_step env op st) ! p) = Granted"
  shows "(tid, p) \<in> set (tm_tickets (tk_step env op st))"
proof -
  have ok: "tk_ok {} st"
    using inv unfolding tk_inv_def by simp
  show ?thesis
  proof (cases op)
    case (TkAcquire sid pid)
    obtain st' i n where "tk_acquire env sid pid st = (st', i, n)"
      using prod_cases3 by blast
    from acquire_tickets(7)[OF inv this p] this show ?thesis
      unfolding TkAcquire by simp
  qed (use p g release_keeps_pending[OF ok p] reclaim_keeps_pending[OF ok p] cancel_keeps_pending[OF inv p] in simp_all)
qed

subsection \<open>The ticket of one client\<close>

text \<open>Object \<open>p\<close> is the ticket \<open>tid\<close> of sprint \<open>sid\<close>; objects are never renamed.\<close>

definition is_ticket :: "nat \<Rightarrow> string \<Rightarrow> string \<Rightarrow> tmx \<Rightarrow> bool" where
  "is_ticket p tid sid st \<longleftrightarrow> p < length (tm_objs st) \<and> tk_ticket (tm_objs st ! p) = tid \<and> tk_sprintId (tm_objs st ! p) = sid"

lemma react_is_ticket [simp]: "is_ticket p tid sid (react m st) = is_ticket p tid sid st"
proof -
  have "tk_ticket (tm_objs (react m st) ! p) = tk_ticket (tm_objs st ! p)" "tk_sprintId (tm_objs (react m st) ! p) = tk_sprintId (tm_objs st ! p)"
    if "p < length (tm_objs st)"
    using arg_cong[OF react_names(1)[of m st], of "\<lambda>xs. xs ! p"] arg_cong[OF react_names(2)[of m st], of "\<lambda>xs. xs ! p"] that by simp_all
  then show ?thesis
    unfolding is_ticket_def by auto
qed

lemma is_ticket_updates [simp]:
  "is_ticket p tid sid (st\<lparr>tm_mutex := m\<rparr>) = is_ticket p tid sid st"
  "is_ticket p tid sid (st\<lparr>tm_tickets := ts\<rparr>) = is_ticket p tid sid st"
  "is_ticket p tid sid (st\<lparr>tm_byToken := b\<rparr>) = is_ticket p tid sid st"
  by (simp_all add: is_ticket_def)

lemma is_ticket_objs: "tm_objs st' = tm_objs st \<Longrightarrow> is_ticket p tid sid st' = is_ticket p tid sid st"
  unfolding is_ticket_def by simp

lemma ts_acquire_objs [simp]: "tm_objs (ts_acquire env sid pid st) = tm_objs st"
  unfolding ts_acquire_def by (simp add: Let_def)

lemma step_is_ticket:
  assumes "is_ticket p tid sid st"
  shows "is_ticket p tid sid (tk_step env op st)"
proof (cases op)
  case (TkAcquire s pid)
  have "is_ticket p tid sid (fst (open_ticket env s st))"
    using assms unfolding is_ticket_def open_ticket_def by (auto simp: Let_def nth_append)
  then show ?thesis
    unfolding TkAcquire tk_step.simps tk_acquire_def
    by (simp add: is_ticket_objs[of "ts_acquire env s pid (fst (open_ticket env s st))" "fst (open_ticket env s st)"] case_prod_unfold)
next
  case (TkRelease tok)
  then show ?thesis
    using assms by (simp add: tk_release_def Let_def case_prod_unfold split: option.split)
next
  case (TkCancel i)
  then show ?thesis
    using assms by (auto simp: tk_cancel_def Let_def case_prod_unfold split: option.split tk_state.split)
next
  case TkSweep
  then show ?thesis
    using assms is_ticket_objs[OF ts_reclaim_objs] by simp
qed (use assms in simp_all)

lemma run_is_ticket: "is_ticket p tid sid st \<Longrightarrow> is_ticket p tid sid (fold (tk_step env) ops st)"
  by (induction ops arbitrary: st) (simp_all add: step_is_ticket)

text \<open>
  What holds of the ticket while its call is at the server: a grant is still in the map, so it is the holder's.
\<close>

definition watched :: "nat \<Rightarrow> string \<Rightarrow> string \<Rightarrow> tmx \<Rightarrow> bool" where
  "watched p tid sid st \<longleftrightarrow>
     tk_inv st \<and> is_ticket p tid sid st \<and> (tk_st (tm_objs st ! p) = Granted \<longrightarrow> (tid, p) \<in> set (tm_tickets st))"

lemma pending_listed:
  assumes "tk_inv st" "is_ticket p tid sid st" "tk_st (tm_objs st ! p) = Pending"
  shows "(tid, p) \<in> set (tm_tickets st)"
  using assms tk_wait_obj[of "{}" st p] unfolding tk_inv_def tk_ok_def is_ticket_def obj_ok_def by auto

lemma wait_for_watched: "watched p tid sid st \<Longrightarrow> watched p tid sid (wait_for env p ops st)"
proof (induction ops arbitrary: st)
  case (Cons op ops)
  show ?case
  proof (cases "tk_st (tm_objs st ! p) = Pending")
    case True
    have "watched p tid sid (tk_step env op st)"
      using Cons.prems True step_is_ticket[of p tid sid st] tk.step_inv step_keeps_granted[of st tid p env op] pending_listed[of st p tid sid]
      unfolding watched_def by blast
    then show ?thesis
      using Cons.IH True by simp
  qed (use Cons.prems in simp)
qed simp

text \<open>An answer that says granted names the token of the current holder, which is this sprint.\<close>

definition granted_to :: "string \<Rightarrow> jsval \<Rightarrow> tmx \<Rightarrow> bool" where
  "granted_to sid tok st \<longleftrightarrow> (\<exists>h. mx_holder (tm_mutex st) = Some h \<and> tok = JStr (h_token h) \<and> h_sprintId h = sid)"

definition good_payload :: "nat \<Rightarrow> string \<Rightarrow> string \<Rightarrow> jsval \<Rightarrow> tmx \<Rightarrow> bool" where
  "good_payload p tid sid payload st \<longleftrightarrow>
     tk_inv st \<and> is_ticket p tid sid st \<and> jfield payload ''ticket'' = JStr tid \<and>
     (truthy (jfield payload ''granted'') \<longrightarrow> granted_to sid (coalesce (jfield payload ''token'') JNull) st)"

lemma answer_good:
  assumes w: "watched p tid sid st"
    and r: "parseCoordinationToolResult l (settled_answer (tm_objs st ! p) tid extra) = Inr payload"
  shows "good_payload p tid sid payload st"
proof -
  let ?t = "tm_objs st ! p"
  have inv: "tk_inv st" and tk: "is_ticket p tid sid st"
    using w unfolding watched_def by simp_all
  have "granted_to sid (JStr (g_token g)) st" if "tk_st ?t = Granted" "tk_grant ?t = Some g" for g
  proof -
    have "(tid, p) \<in> set (tm_tickets st)"
      using w that unfolding watched_def by simp
    from granted_is_holder[OF _ this that(1)] inv obtain h g' where
      "mx_holder (tm_mutex st) = Some h" "holds_as st h p" "tk_grant ?t = Some g'" "g_token g' = h_token h"
      unfolding tk_inv_def by blast
    then show ?thesis
      using that(2) tk unfolding granted_to_def holds_as_def is_ticket_def by auto
  qed
  moreover have "\<exists>g. tk_grant ?t = Some g" if "tk_st ?t = Granted"
    using that inv tk tk_wait_obj[of "{}" st p] unfolding tk_inv_def tk_ok_def obj_ok_def is_ticket_def by auto
  ultimately show ?thesis
    using inv tk r unfolding good_payload_def parseCoordinationToolResult_def settled_answer_def js_of_grant_def
    by (auto simp: Let_def jfield_def coalesce_def split: option.splits if_splits)
qed

lemma acquire_tool_good:
  assumes inv: "tk_inv st" and s: "sid \<noteq> []" and a: "acquire_tool env sid pid ws st = (st2, answer)"
  shows "tk_inv st2" "\<exists>tid. tid \<noteq> [] \<and> (\<forall>payload. parseCoordinationToolResult l answer = Inr payload \<longrightarrow> good_payload (length (tm_objs st)) tid sid payload st2)"
proof -
  obtain st1 tid p where ac: "tk_acquire env sid pid st = (st1, tid, p)"
    using prod_cases3 by blast
  note tk = acquire_tickets[OF inv ac]
  have "tk_inv st1"
    using acquire_inv[OF inv, of env sid pid] ac by simp
  then have "watched p tid sid st1"
    using tk(2-5) unfolding watched_def is_ticket_def by simp
  from wait_for_watched[OF this, of env ws] have w: "watched p tid sid st2" and
    ans: "answer = settled_answer (tm_objs st2 ! p) tid [(''sprintId'', JStr sid)]"
    using a s ac unfolding acquire_tool_def by (auto simp: Let_def)
  show "tk_inv st2"
    using w unfolding watched_def by simp
  show "\<exists>tid. tid \<noteq> [] \<and> (\<forall>payload. parseCoordinationToolResult l answer = Inr payload \<longrightarrow> good_payload (length (tm_objs st)) tid sid payload st2)"
    using answer_good[OF w] tk(1,6) unfolding ans by blast
qed

lemma poll_tool_good:
  assumes inv: "tk_inv st" and tk: "is_ticket p tid sid st" "tid \<noteq> []" and a: "poll_tool env tid ws st = (st2, answer)"
  shows "tk_inv st2" "is_ticket p tid sid st2" "parseCoordinationToolResult l answer = Inr payload \<Longrightarrow> good_payload p tid sid payload st2"
proof -
  have "tk_inv st2 \<and> is_ticket p tid sid st2 \<and> (parseCoordinationToolResult l answer = Inr payload \<longrightarrow> good_payload p tid sid payload st2)"
  proof (cases "map_of (tm_tickets st) tid")
    case None
    then show ?thesis
      using a tk inv unfolding poll_tool_def parseCoordinationToolResult_def by (auto simp: Let_def jfield_def)
  next
    case (Some q)
    have ids: "tk_ids st"
      using inv unfolding tk_inv_def tk_ok_def by simp
    have q: "(tid, q) \<in> set (tm_tickets st)"
      using Some by (rule map_of_SomeD)
    then have "q = p"
      using ids_unique[OF ids, of q p] ticket_entry[OF ids q] tk(1) unfolding is_ticket_def by simp
    then have "watched p tid sid st"
      using inv tk(1) q unfolding watched_def by simp
    from wait_for_watched[OF this, of env ws] have w: "watched p tid sid st2" and ans: "answer = settled_answer (tm_objs st2 ! p) tid []"
      using a Some tk(2) \<open>q = p\<close> unfolding poll_tool_def by (auto simp: Let_def)
    show ?thesis
      using w answer_good[OF w] unfolding ans watched_def by blast
  qed
  then show "tk_inv st2" "is_ticket p tid sid st2" "parseCoordinationToolResult l answer = Inr payload \<Longrightarrow> good_payload p tid sid payload st2"
    by blast+
qed

text \<open>A ticket that is not in the map neither waits nor holds the mutex.\<close>

definition out_of_queue :: "nat \<Rightarrow> tmx \<Rightarrow> bool" where
  "out_of_queue p st \<longleftrightarrow>
     p \<notin> w_promise ` set (mx_waiters (tm_mutex st)) \<and>
     (case mx_holder (tm_mutex st) of None \<Rightarrow> True | Some h \<Rightarrow> \<forall>(q, g)\<in>set (grants (mx_out (tm_mutex st))). q = p \<longrightarrow> g_token g \<noteq> h_token h)"

lemma unlisted_out_of_queue:
  assumes inv: "tk_inv st" and tk: "is_ticket p tid sid st" and no: "tid \<notin> set (jkeys (tm_tickets st))"
  shows "out_of_queue p st"
proof -
  have w: "tk_wait {} st" and hd: "tk_held st" and ids: "tk_ids st"
    using inv unfolding tk_inv_def tk_ok_def by simp_all
  have no': "(tid, q) \<notin> set (tm_tickets st)" for q
    using no by force
  have "p \<notin> w_promise ` set (mx_waiters (tm_mutex st))"
    using tk_wait_obj[OF w, of p] tk no' unfolding obj_ok_def is_ticket_def by auto
  moreover have "g_token g \<noteq> h_token h" if h: "mx_holder (tm_mutex st) = Some h" and g: "(p, g) \<in> set (grants (mx_out (tm_mutex st)))" for h g
  proof
    assume same: "g_token g = h_token h"
    obtain q where q: "holds_as st h q"
      using hd h unfolding tk_held_def by auto
    then obtain g' where g': "tk_grant (tm_objs st ! q) = Some g'" "g_token g' = h_token h" "tk_st (tm_objs st ! q) = Granted" "q < length (tm_objs st)"
      unfolding holds_as_def by auto
    then have "(q, g') \<in> set (grants (mx_out (tm_mutex st)))"
      using tk_wait_obj[OF w g'(4)] unfolding obj_ok_def by auto
    moreover have "distinct (map (g_token \<circ> snd) (grants (mx_out (tm_mutex st))))"
      using inv unfolding tk_inv_def tk_ok_def mx_core_def by simp
    ultimately have "(q, g') = (p, g)"
      using g same g'(2) inj_onD[of "g_token \<circ> snd" "set (grants (mx_out (tm_mutex st)))" "(q, g')" "(p, g)"] by (simp add: distinct_map)
    then show False
      using q tk no' unfolding holds_as_def is_ticket_def by auto
  qed
  ultimately show ?thesis
    unfolding out_of_queue_def by (auto split: option.split)
qed

lemma cancel_unlists:
  "tk_inv st \<Longrightarrow> tid \<notin> set (jkeys (tm_tickets (fst (tk_cancel env tid st))))"
  unfolding tk_cancel_def
  by (auto simp: Let_def case_prod_unfold in_set_delete map_of_eq_None_iff split: option.split tk_state.split)

lemma ticket_count:
  assumes inv: "tk_inv st"
  shows "length (tm_tickets st) = length (mx_waiters (tm_mutex st)) + (if mx_holder (tm_mutex st) = None then 0 else 1)
    + length (filter (\<lambda>(tid, p). tk_st (tm_objs st ! p) = Failed) (tm_tickets st))"
proof -
  have w: "tk_wait {} st" and hd: "tk_held st" and ids: "tk_ids st" and core: "mx_core (mx_promises (tm_mutex st)) (tm_mutex st)"
    using inv unfolding tk_inv_def tk_ok_def by simp_all
  let ?f = "\<lambda>x. filter (\<lambda>(tid, p). tk_st (tm_objs st ! p) = x) (tm_tickets st)"
  have split: "length (tm_tickets st) = length (?f Pending) + length (?f Granted) + length (?f Failed)"
  proof -
    have "length ts = length (filter (\<lambda>(tid, p). tk_st (tm_objs st ! p) = Pending) ts)
        + length (filter (\<lambda>(tid, p). tk_st (tm_objs st ! p) = Granted) ts) + length (filter (\<lambda>(tid, p). tk_st (tm_objs st ! p) = Failed) ts)" for ts
    proof (induction ts)
      case (Cons a ts)
      then show ?case
        by (cases a; cases "tk_st (tm_objs st ! snd a)") auto
    qed simp
    then show ?thesis .
  qed
  have dist: "distinct (tm_tickets st)"
    using ids unfolding tk_ids_def jmap_ok_def by (simp add: distinct_map)
  have inj: "inj_on snd (set (tm_tickets st))"
  proof (rule inj_onI)
    fix a b
    assume s: "a \<in> set (tm_tickets st)" "b \<in> set (tm_tickets st)" "snd a = snd b"
    obtain i j p where ab: "a = (i, p)" "b = (j, p)"
      using s(3) by (metis prod.collapse)
    show "a = b"
      using ticket_entry[OF ids, of i p] ticket_entry[OF ids, of j p] s(1,2) unfolding ab by simp
  qed
  have count: "length (?f x) = card (snd ` set (?f x))" for x
  proof -
    have "inj_on snd (set (?f x))"
      using inj by (rule inj_on_subset) auto
    then show ?thesis
      using distinct_card[OF distinct_filter[OF dist]] by (simp add: card_image)
  qed
  have "snd ` set (?f Pending) = w_promise ` set (mx_waiters (tm_mutex st))" (is "?l = ?r")
  proof
    show "?l \<subseteq> ?r"
      using tk_wait_obj[OF w] ticket_entry[OF ids] unfolding obj_ok_def by fastforce
    show "?r \<subseteq> ?l"
    proof
      fix p
      assume p: "p \<in> ?r"
      then have "p < length (tm_objs st)"
        using w unfolding tk_wait_def by auto
      from tk_wait_obj[OF w this] p have "(tk_ticket (tm_objs st ! p), p) \<in> set (?f Pending)"
        unfolding obj_ok_def by auto
      then show "p \<in> ?l"
        by force
    qed
  qed
  moreover have "distinct (map w_promise (mx_waiters (tm_mutex st)))"
    using core unfolding mx_core_def by (auto simp: sorted_wrt_append strict_sorted_iff)
  then have "card (w_promise ` set (mx_waiters (tm_mutex st))) = length (mx_waiters (tm_mutex st))"
    using distinct_card by fastforce
  ultimately have "length (?f Pending) = length (mx_waiters (tm_mutex st))"
    using count by simp
  moreover have "length (?f Granted) = (if mx_holder (tm_mutex st) = None then 0 else 1)"
  proof (cases "mx_holder (tm_mutex st)")
    case None
    then show ?thesis
      using hd unfolding tk_held_def by (auto simp: filter_empty_conv)
  next
    case (Some h)
    then obtain p where p: "holds_as st h p" "\<forall>(tid, q)\<in>set (tm_tickets st). tk_st (tm_objs st ! q) = Granted \<longrightarrow> q = p"
      using hd unfolding tk_held_def by auto
    have "snd ` set (?f Granted) = {p}"
      using p unfolding holds_as_def by force
    then show ?thesis
      using count[of Granted] Some by simp
  qed
  ultimately show ?thesis
    using split by simp
qed

subsection \<open>The polling loop\<close>

text \<open>What an acquire of the client leaves behind.\<close>

definition acquire_ends_well :: "mcp_env \<Rightarrow> string \<Rightarrow> nat \<Rightarrow> tmx \<Rightarrow> mcp_outcome \<Rightarrow> bool" where
  "acquire_ends_well me sid p st out \<longleftrightarrow>
     (case out of
        McpGranted tok e \<Rightarrow> granted_to sid tok st
      | McpTimedOut \<Rightarrow> (\<forall>n. me_transport me n = Delivered) \<longrightarrow> out_of_queue p st
      | McpThrew e \<Rightarrow> True)"

lemma run_tk_inv: "tk_inv st \<Longrightarrow> tk_inv (fold (tk_step env) ops st)"
  by (rule tk.run_from)

lemma timed_out_ends_well:
  assumes g: "good_payload p tid sid payload st" and t: "tid \<noteq> []"
  shows "acquire_ends_well me sid p (fst (mcp_call env me n (\<lambda>_. cancel_tool env (str_or_empty (jfield payload ''ticket''))) st)) McpTimedOut"
proof -
  define st1 where "st1 = fold (tk_step env) (me_before me n) st"
  have inv: "tk_inv st1" and tk: "is_ticket p tid sid st1" and f: "jfield payload ''ticket'' = JStr tid"
    using g run_tk_inv run_is_ticket unfolding good_payload_def st1_def by blast+
  have "out_of_queue p (fst (tk_cancel env tid st1))"
    using unlisted_out_of_queue[OF cancel_inv[OF inv] _ cancel_unlists[OF inv]] step_is_ticket[OF tk, of env "TkCancel tid"] by simp
  then show ?thesis
    using t f unfolding acquire_ends_well_def mcp_call_def cancel_tool_def st1_def
    by (simp add: Let_def case_prod_unfold str_or_empty_def)
qed

lemma poll_loop:
  assumes "good_payload p tid sid payload st" "tid \<noteq> []" "n \<le> k" "me_clock me k \<ge> deadline" "k - n < fuel"
  shows "\<exists>st' out. mcp_poll_loop env me fuel n deadline payload st = (st', Some out) \<and> acquire_ends_well me sid p st' out"
  using assms
proof (induction fuel arbitrary: n payload st)
  case (Suc fuel)
  note g = Suc.prems(1)
  let ?tid = "str_or_empty (jfield payload ''ticket'')"
  show ?case
  proof (cases "truthy (jfield payload ''granted'') \<or> me_clock me n \<ge> deadline")
    case True
    then show ?thesis
      using timed_out_ends_well[OF g Suc.prems(2), of me env n] g
      by (auto simp: acquire_ends_well_def[of _ _ _ _ "McpGranted _ _"] good_payload_def)
  next
    case False
    define st1 where "st1 = fold (tk_step env) (me_before me n) st"
    have st1: "tk_inv st1" "is_ticket p tid sid st1" "?tid = tid"
      using g run_tk_inv run_is_ticket unfolding good_payload_def st1_def str_or_empty_def by auto
    obtain st2 answer where poll: "poll_tool env tid (me_waiting me n) st1 = (st2, answer)"
      by fastforce
    obtain st3 r where call: "mcp_call env me n (poll_tool env ?tid) st = (st3, r)"
      by fastforce
    show ?thesis
    proof (cases r)
      case (Inl e)
      then show ?thesis
        using False call by (simp add: acquire_ends_well_def)
    next
      case (Inr payload')
      then have r: "st3 = st2" "parseCoordinationToolResult ''[dolt-mutex/mcp]'' answer = Inr payload'"
        using call poll st1(3) unfolding mcp_call_def st1_def by (auto simp: Let_def split: transport.splits)
      have "n \<noteq> k"
        using False Suc.prems(4) by auto
      then have "Suc n \<le> k" "k - Suc n < fuel"
        using Suc.prems(3,5) by simp_all
      from Suc.IH[OF _ Suc.prems(2) this(1) Suc.prems(4) this(2), of payload' st3] show ?thesis
        using poll_tool_good(3)[OF st1(1,2) Suc.prems(2) poll r(2)] False call Inr r(1) by simp
    qed
  qed
qed simp

subsection \<open>Properties\<close>

text \<open>
  Property C24. The fleet server's tickets are exact: after any sequence of tool calls and timer ticks the push windows
  never overlapped, and the tickets the server keeps are one for each queued waiter, one for the current holder, and those that
  failed; none is lost and no other one stays behind.
\<close>

theorem ticketed_mutex_exact:
  "run_windows (mx_out (tm_mutex (tk_run env ops))) None =
     Some (map_option (\<lambda>h. (h_sprintId h, h_token h)) (mx_holder (tm_mutex (tk_run env ops))))
   \<and> ticketCount (tk_run env ops) =
     length (mx_waiters (tm_mutex (tk_run env ops))) + (if mx_holder (tm_mutex (tk_run env ops)) = None then 0 else 1)
     + length (filter (\<lambda>(tid, p). tk_st (tm_objs (tk_run env ops) ! p) = Failed) (tm_tickets (tk_run env ops)))"
  using tk_run_inv[of env ops] ticket_count[of "tk_run env ops"] unfolding ticketCount_def tk_inv_def tk_ok_def mx_core_def by simp

text \<open>
  Property C23. The client's acquire returns and its answer can be trusted: if the clock reaches the deadline, the polling loop
  ends whatever other sprints do in between; when it returns a token, the sprint holds the push mutex under that token at
  that moment, however long it waited and whatever was released or reclaimed meanwhile; and when it times out and its
  calls arrive, its waiter has left the queue and does not hold the mutex.
\<close>

theorem mcp_acquire_correct:
  assumes "sid \<noteq> []" "1 \<le> k" "k \<le> fuel" "me_clock me k \<ge> me_clock me 0 + me_timeoutMs me"
  shows "\<exists>st' out. mcp_acquire env me fuel sid pid (tk_run env ops) = (st', Some out)
    \<and> acquire_ends_well me sid (mx_promises (tm_mutex (fold (tk_step env) (me_before me 0) (tk_run env ops)))) st' out"
proof -
  define st where "st = fold (tk_step env) (me_before me 0) (tk_run env ops)"
  have inv: "tk_inv st"
    unfolding st_def by (rule run_tk_inv[OF tk_run_inv])
  then have n: "length (tm_objs st) = mx_promises (tm_mutex st)"
    unfolding tk_inv_def tk_ok_def tk_ids_def by simp
  obtain st2 answer where a: "acquire_tool env sid pid (me_waiting me 0) st = (st2, answer)"
    by fastforce
  obtain st3 r where call: "mcp_call env me 0 (acquire_tool env sid pid) (tk_run env ops) = (st3, r)"
    by fastforce
  show ?thesis
  proof (cases r)
    case (Inl e)
    then show ?thesis
      using call assms(1) unfolding mcp_acquire_def by (simp add: Let_def acquire_ends_well_def)
  next
    case (Inr payload)
    then have r: "st3 = st2" "parseCoordinationToolResult ''[dolt-mutex/mcp]'' answer = Inr payload"
      using call a unfolding mcp_call_def st_def by (auto simp: Let_def split: transport.splits)
    obtain tid where t: "tid \<noteq> []" "good_payload (length (tm_objs st)) tid sid payload st2"
      using acquire_tool_good(2)[OF inv assms(1) a] r(2) by blast
    have "k - 1 < fuel"
      using assms(2,3) by simp
    from poll_loop[OF t(2,1) assms(2,4) this, of env] show ?thesis
      using call Inr r(1) assms(1) n unfolding mcp_acquire_def st_def[symmetric] by (simp add: Let_def)
  qed
qed

definition ex_mcp :: mcp_env where
  "ex_mcp = \<lparr>me_before = (\<lambda>_. []), me_waiting = (\<lambda>_. []), me_transport = (\<lambda>_. Delivered), me_clock = (\<lambda>n. 10 * int n), me_timeoutMs = 15\<rparr>"

text \<open>Sprint \<^verbatim>\<open>t\<close> holds the mutex, so sprint \<^verbatim>\<open>s\<close> polls once, times out and leaves the queue.\<close>

theorem mcp_acquire_correct_witness:
  "snd (mcp_acquire demo_env ex_mcp 2 ''s'' None (tk_run demo_env [TkAcquire ''t'' None])) = Some McpTimedOut
   \<and> acquire_ends_well ex_mcp ''s'' 1 (fst (mcp_acquire demo_env ex_mcp 2 ''s'' None (tk_run demo_env [TkAcquire ''t'' None]))) McpTimedOut"
proof -
  have out: "snd (mcp_acquire demo_env ex_mcp 2 ''s'' None (tk_run demo_env [TkAcquire ''t'' None])) = Some McpTimedOut"
    by code_simp
  have "mx_promises (tm_mutex (fold (tk_step demo_env) (me_before ex_mcp 0) (tk_run demo_env [TkAcquire ''t'' None]))) = 1"
    by code_simp
  then show ?thesis
    using mcp_acquire_correct[of "''s''" 2 2 ex_mcp demo_env None "[TkAcquire ''t'' None]"] out by (auto simp: ex_mcp_def)
qed

text \<open>Cancelling one ticket fails every queued ticket of its sprint.\<close>

lemma ticket_cancel_fails_siblings:
  "let st = tk_run demo_env [TkAcquire ''t'' None, TkAcquire ''s'' None, TkAcquire ''s'' None];
       st' = tk_step demo_env (TkCancel (tk_ticket (tm_objs st ! 1))) st
   in map tk_st (tm_objs st) = [Granted, Pending, Pending] \<and> map tk_st (tm_objs st') = [Granted, Failed, Failed]
      \<and> ticketCount st' = 2"
  by code_simp

end
