(* ===== verification/Workflow_Journal.thy ===== *)
theory Workflow_Journal
  imports JS_Prelude "HOL-Library.Multiset"
begin

section \<open>The workflow engine: parallel branches, the journal and its replay\<close>

text \<open>
  A workflow script calls \<^verbatim>\<open>agent()\<close>, \<^verbatim>\<open>command()\<close> and \<^verbatim>\<open>parallel()\<close> of \<^verbatim>\<open>packages/apra-fleet-workflow/src/workflow/index.mjs\<close>; a run
  that keeps a journal (\<^verbatim>\<open>journal.mjs\<close>) can be resumed after a crash, and calls that the journal has as completed are answered
  from it instead of being dispatched again.

  A script is user code, so it is a parameter: a tree whose nodes are its calls and whose continuations take what the calls
  return. A run is a tree of threads, one for each branch of a \<^verbatim>\<open>parallel()\<close> that is under way, and a schedule that says
  which thread moves next. Budgets, the pause gate, cancellation and the viewer are not part of the model.

  The hash of the text, the ids of activities, the answers of the fleet, and how an answer is stripped of its display wrapper
  and read against a schema are parameters.
\<close>

subsection \<open>Calls\<close>

datatype call_type = AgentCall | CommandCall

record call_req =
  rq_type :: call_type
  rq_member :: string
  rq_text :: string
  rq_schema :: bool
  rq_failSoft :: bool
  rq_schemaRetries :: nat

datatype outcome = Returned jsval | Threw js_error

fun type_name :: "call_type \<Rightarrow> string" where
  "type_name AgentCall = ''agent''"
| "type_name CommandCall = ''command''"

definition computeActivityKey :: "string \<Rightarrow> string \<Rightarrow> string \<Rightarrow> string \<Rightarrow> string" where
  "computeActivityKey sequence type member textHash = sequence @ '':'' @ type @ '':'' @ member @ '':'' @ textHash"

text \<open>The output field of a record: a text, or the JSON text of a value.\<close>

datatype recorded = RText string | RJson jsval

datatype jevent = ActivityStart | ActivityEnd | RunStart | RunEnd

record jrec =
  jr_event :: jevent
  jr_id :: string
  jr_replayKey :: string
  jr_success :: bool
  jr_output :: "recorded option"
  jr_failSoft :: bool
  jr_replayed :: bool

subsection \<open>Loading a journal\<close>

text \<open>A line that is not JSON is \<open>None\<close>. The records of the writer carry every field of their start in their end.\<close>

record loading =
  ld_starts :: "(string, jrec) jsmap"
  ld_ends :: "(string, jrec) jsmap"
  ld_completed :: "(string, jrec) jsmap"

definition load_line :: "jrec option \<Rightarrow> loading \<Rightarrow> loading" where
  "load_line line ld =
     (case line of
        None \<Rightarrow> ld
      | Some rec \<Rightarrow>
          if jr_event rec = ActivityStart \<and> jr_id rec \<noteq> []
          then ld\<lparr>ld_starts := AList.update (jr_id rec) rec (ld_starts ld)\<rparr>
          else if jr_event rec = ActivityEnd \<and> jr_id rec \<noteq> []
          then
            let key = (if jr_replayKey rec \<noteq> [] then jr_replayKey rec
                       else case map_of (ld_starts ld) (jr_id rec) of Some s \<Rightarrow> jr_replayKey s | None \<Rightarrow> []);
                ld1 = ld\<lparr>ld_ends := AList.update (jr_id rec) rec (ld_ends ld)\<rparr>
            in if key \<noteq> [] then ld1\<lparr>ld_completed := AList.update key rec (ld_completed ld)\<rparr> else ld1
          else ld)"

definition loadJournal :: "jrec option list \<Rightarrow> (string, jrec) jsmap \<times> jrec list" where
  "loadJournal lines =
     (let ld = fold load_line lines \<lparr>ld_starts = [], ld_ends = [], ld_completed = []\<rparr>
      in (ld_completed ld,
          map snd (filter (\<lambda>(i, s). map_of (ld_ends ld) i = None) (ld_starts ld))))"

subsection \<open>What a call returns, live and from the journal\<close>

record cmd_reply =
  cr_text :: string
  cr_stdout :: "string option"
  cr_exit :: "int option"
  cr_failure :: "string option"

datatype fleet_reply =
    CommandReply cmd_reply
  | AgentReply string "string option"
  | DispatchFailed string
  | TransportFailed string
  | Aborted string

definition member_not_found :: "string \<Rightarrow> bool" where
  "member_not_found text \<longleftrightarrow>
     js_startsWith text (''Member '' @ [CHR 0x22]) \<and> str_includes text (CHR 0x22 # '' not found.'')"

definition softFail :: "bool \<Rightarrow> string \<Rightarrow> outcome" where
  "softFail failSoft msg =
     (if failSoft then Returned (JObj [(''ok'', JBool False), (''output'', JStr []), (''error'', JStr msg)])
      else Threw (GeneralError msg))"

definition shaped :: "bool \<Rightarrow> string \<Rightarrow> outcome" where
  "shaped failSoft out =
     Returned (if failSoft then JObj [(''ok'', JBool True), (''output'', JStr out), (''error'', JNull)] else JStr out)"

text \<open>
  The end of a live \<^verbatim>\<open>command()\<close>: whether it is recorded as a success, the recorded output, and what the caller gets. A
  command call is never answered with an agent's reply.
\<close>

definition command_result :: "bool \<Rightarrow> fleet_reply \<Rightarrow> bool \<times> recorded option \<times> outcome" where
  "command_result failSoft reply =
     (case reply of
        CommandReply cr \<Rightarrow>
          let outText = cr_text cr;
              cleanOutput = (case cr_stdout cr of Some s \<Rightarrow> s | None \<Rightarrow> outText)
          in if member_not_found outText then (False, None, softFail failSoft (''[Workflow Error] '' @ outText))
             else (case cr_failure cr of
                     Some msg \<Rightarrow> (False, None, softFail failSoft (''[Command Failed] '' @ msg))
                   | None \<Rightarrow>
                       (case cr_exit cr of
                          Some e \<Rightarrow>
                            if e \<noteq> 0 then (False, None, softFail failSoft (''[Command Failed] Exit code '' @ show_int e @ '': '' @ outText))
                            else (True, Some (RText outText), shaped failSoft cleanOutput)
                        | None \<Rightarrow> (True, Some (RText outText), shaped failSoft cleanOutput)))
      | Aborted msg \<Rightarrow> (False, None, Threw (GeneralError (''[Workflow Error] command() dispatch cancelled: '' @ msg)))
      | TransportFailed msg \<Rightarrow> (False, None, softFail failSoft (''[Workflow Error] Transport failure while executing command: '' @ msg))
      | DispatchFailed msg \<Rightarrow> (False, None, softFail failSoft msg)
      | AgentReply t r \<Rightarrow> (False, None, softFail failSoft t))"

text \<open>
  One attempt of a live \<^verbatim>\<open>agent()\<close>, from the reply that is left when the member is no longer busy; \<open>None\<close> as the
  outcome is an answer that fails the schema. \<open>unwrap\<close> strips the display wrapper of a server that sends no separate
  response, and \<open>extract\<close> is \<^verbatim>\<open>extractStructuredOutput\<close> with the compiled schema of the call.
\<close>

definition agent_attempt :: "(string \<Rightarrow> string) \<Rightarrow> (string \<Rightarrow> jsval option) \<Rightarrow> bool \<Rightarrow> fleet_reply \<Rightarrow> bool \<times> recorded option \<times> outcome option" where
  "agent_attempt unwrap extract schema reply =
     (case reply of
        AgentReply text response \<Rightarrow>
          if member_not_found text then (False, None, Some (Threw (GeneralError (''[Workflow Error] '' @ text))))
          else
            let answer = (case response of Some s \<Rightarrow> s | None \<Rightarrow> text);
                cleanText = (case response of Some s \<Rightarrow> s | None \<Rightarrow> unwrap text) in
            if js_trim cleanText = [] then (False, Some (RText text), Some (Threw (GeneralError ''[Workflow Error] Agent dispatch failed (empty_response)'')))
            else if \<not> schema then (True, Some (RText text), Some (Returned (JStr answer)))
            else (case extract answer of
                    Some v \<Rightarrow> (True, Some (RJson v), Some (Returned v))
                  | None \<Rightarrow> (False, Some (RText text), None))
      | DispatchFailed msg \<Rightarrow> (False, None, Some (Threw (GeneralError msg)))
      | TransportFailed msg \<Rightarrow> (False, None, Some (Threw (GeneralError (''[Workflow Error] Transport failure while executing agent prompt: '' @ msg))))
      | Aborted msg \<Rightarrow> (False, None, Some (Threw (GeneralError (''[Workflow Error] agent() dispatch cancelled: '' @ msg))))
      | CommandReply cr \<Rightarrow> (False, None, Some (Threw (GeneralError (cr_text cr)))))"

text \<open>
  What a call gets from a successful record of the journal. The key fixes the kind of the call, and through the hash of the
  prompt whether it has a schema, so the combinations answered with \<^verbatim>\<open>undefined\<close> do not occur.
\<close>

definition replayed :: "call_req \<Rightarrow> jrec \<Rightarrow> outcome" where
  "replayed r rec =
     (case rq_type r of
        CommandCall \<Rightarrow> (case jr_output rec of Some (RText t) \<Rightarrow> shaped (jr_failSoft rec) t | _ \<Rightarrow> Returned JUndef)
      | AgentCall \<Rightarrow>
          (case jr_output rec of
             Some (RText t) \<Rightarrow> if rq_schema r then Threw (GeneralError ''not JSON'') else Returned (JStr t)
           | Some (RJson v) \<Rightarrow> if rq_schema r then Returned (json_value v) else Returned JUndef
           | None \<Rightarrow> Returned JUndef))"

subsection \<open>Scripts and threads\<close>

datatype script =
    Finish outcome
  | Act call_req "outcome \<Rightarrow> script"
  | Parallel "script list" bool "outcome \<Rightarrow> script"

record wf_params =
  wp_hash :: "string \<Rightarrow> string"
  wp_uid :: "nat \<Rightarrow> string"
  wp_fleet :: "string \<Rightarrow> nat \<Rightarrow> fleet_reply"
  wp_unwrap :: "string \<Rightarrow> string"
  wp_extract :: "call_req \<Rightarrow> string \<Rightarrow> jsval option"

text \<open>
  What the threads of a run share: the records written so far, the journal that is replayed, its \<^verbatim>\<open>diverged\<close> flag, the
  number of ids drawn, and the calls dispatched to the fleet.
\<close>

record world =
  w_lines :: "jrec list"
  w_replay :: "(string, jrec) jsmap option"
  w_diverged :: bool
  w_ids :: nat
  w_live :: "(string \<times> call_req) list"

text \<open>
  A thread is at a node of its script, waits for the fleet, or waits for its branches. Each has the store of its level: the
  prefix and the two counters.
\<close>

datatype conf =
    Run string nat nat script
  | Await string nat nat string string call_req "outcome \<Rightarrow> script"
  | Join string nat nat bool "conf list" "outcome \<Rightarrow> script"

definition nextSequence :: "string \<Rightarrow> nat \<Rightarrow> string" where
  "nextSequence seqPrefix local = seqPrefix @ show_nat local"

definition branchPrefix :: "string \<Rightarrow> nat \<Rightarrow> nat \<Rightarrow> string" where
  "branchPrefix parentPrefix barrierIndex i = parentPrefix @ show_nat barrierIndex @ '':'' @ show_nat i @ '':''"

definition call_key :: "wf_params \<Rightarrow> string \<Rightarrow> nat \<Rightarrow> call_req \<Rightarrow> string" where
  "call_key P seqPrefix local r =
     computeActivityKey (nextSequence seqPrefix local) (type_name (rq_type r)) (rq_member r) (wp_hash P (rq_text r))"

definition start_rec :: "string \<Rightarrow> string \<Rightarrow> bool \<Rightarrow> bool \<Rightarrow> jrec" where
  "start_rec i key failSoft rep =
     \<lparr>jr_event = ActivityStart, jr_id = i, jr_replayKey = key, jr_success = False, jr_output = None, jr_failSoft = failSoft, jr_replayed = rep\<rparr>"

definition end_rec :: "string \<Rightarrow> string \<Rightarrow> bool \<Rightarrow> bool \<Rightarrow> recorded option \<Rightarrow> bool \<Rightarrow> jrec" where
  "end_rec i key failSoft success out rep =
     \<lparr>jr_event = ActivityEnd, jr_id = i, jr_replayKey = key, jr_success = success, jr_output = out, jr_failSoft = failSoft, jr_replayed = rep\<rparr>"

definition cached :: "world \<Rightarrow> string \<Rightarrow> jrec option" where
  "cached w key =
     (case w_replay w of
        None \<Rightarrow> None
      | Some m \<Rightarrow> (case map_of m key of Some rec \<Rightarrow> if jr_success rec then Some rec else None | None \<Rightarrow> None))"

definition add_lines :: "jrec list \<Rightarrow> world \<Rightarrow> world" where
  "add_lines recs w = w\<lparr>w_lines := w_lines w @ recs\<rparr>"

text \<open>The start of a call: answered from the journal, or a start record and a dispatch.\<close>

definition begin_call :: "wf_params \<Rightarrow> string \<Rightarrow> call_req \<Rightarrow> world \<Rightarrow> world \<times> outcome option \<times> string" where
  "begin_call P key r w =
     (let i = wp_uid P (w_ids w);
          w1 = w\<lparr>w_ids := Suc (w_ids w)\<rparr>;
          fs = (rq_type r = CommandCall \<and> rq_failSoft r)
      in if w_replay w \<noteq> None \<and> \<not> w_diverged w
         then (case cached w key of
                 Some rec \<Rightarrow>
                   let cfs = (rq_type r = CommandCall \<and> jr_failSoft rec)
                   in (add_lines [start_rec i key cfs True, end_rec i key cfs True (jr_output rec) True] w1, Some (replayed r rec), i)
               | None \<Rightarrow>
                   (add_lines [start_rec i key fs False] (w1\<lparr>w_diverged := True, w_live := w_live w @ [(key, r)]\<rparr>), None, i))
         else (add_lines [start_rec i key fs False] (w1\<lparr>w_live := w_live w @ [(key, r)]\<rparr>), None, i))"

text \<open>
  The end of an agent's call, from the given attempt on: an answer that fails the schema is recorded and asked again, each
  time under a new id, as long as repairs are left.
\<close>

fun agent_loop :: "wf_params \<Rightarrow> string \<Rightarrow> call_req \<Rightarrow> nat \<Rightarrow> nat \<Rightarrow> string \<Rightarrow> world \<Rightarrow> world \<times> outcome" where
  "agent_loop P key r attempt repairs i w =
     (case agent_attempt (wp_unwrap P) (wp_extract P r) (rq_schema r) (wp_fleet P key attempt) of
        (success, out, Some res) \<Rightarrow> (add_lines [end_rec i key False success out False] w, res)
      | (success, out, None) \<Rightarrow>
          (case repairs of
             0 \<Rightarrow> (add_lines [end_rec i key False False out False] w, Threw (GeneralError ''agent output''))
           | Suc m \<Rightarrow>
               let i' = wp_uid P (w_ids w)
               in agent_loop P key r (Suc attempt) m i'
                    (add_lines [end_rec i key False False out False, start_rec i' key False False] (w\<lparr>w_ids := Suc (w_ids w)\<rparr>))))"

declare agent_loop.simps [simp del]

definition finish_call :: "wf_params \<Rightarrow> string \<Rightarrow> string \<Rightarrow> call_req \<Rightarrow> world \<Rightarrow> world \<times> outcome" where
  "finish_call P key i r w =
     (case rq_type r of
        CommandCall \<Rightarrow>
          (case command_result (rq_failSoft r) (wp_fleet P key 0) of
             (success, out, res) \<Rightarrow> (add_lines [end_rec i key (rq_failSoft r) success out False] w, res))
      | AgentCall \<Rightarrow> agent_loop P key r 0 (if rq_schema r then rq_schemaRetries r else 0) i w)"

subsection \<open>Steps and schedules\<close>

text \<open>The result of \<^verbatim>\<open>Promise.all\<close> over branches that have all finished; with \<^verbatim>\<open>continueOnError\<close> a failed branch counts as \<^verbatim>\<open>null\<close>.\<close>

fun finished :: "conf \<Rightarrow> outcome option" where
  "finished (Run _ _ _ (Finish out)) = Some out"
| "finished _ = None"

fun branch_value :: "bool \<Rightarrow> outcome \<Rightarrow> jsval option" where
  "branch_value ce (Returned v) = Some v"
| "branch_value ce (Threw e) = (if ce then Some JNull else None)"

definition all_values :: "bool \<Rightarrow> outcome option list \<Rightarrow> jsval list option" where
  "all_values ce outs = those (map (\<lambda>out. Option.bind out (branch_value ce)) outs)"

fun threw :: "outcome option \<Rightarrow> js_error option" where
  "threw (Some (Threw e)) = Some e"
| "threw _ = None"

definition first_error :: "outcome option list \<Rightarrow> js_error option" where
  "first_error outs = (case filter (\<lambda>e. e \<noteq> None) (map threw outs) of [] \<Rightarrow> None | e # es \<Rightarrow> e)"

text \<open>
  One move of the thread that a path of branch indices names. A branch that throws without \<^verbatim>\<open>continueOnError\<close> lets its parent go
  on at once; the sibling branches keep running on their own, and are returned as orphans. If several have thrown before
  the parent moves, it takes the one of the lowest index; the schedule that moves the parent first gives every other one.
\<close>

definition branches :: "string \<Rightarrow> nat \<Rightarrow> script list \<Rightarrow> conf list" where
  "branches prefix barrier ss = map (\<lambda>(i, s). Run (branchPrefix prefix barrier i) 0 0 s) (zip [0..<length ss] ss)"

fun advance :: "wf_params \<Rightarrow> nat list \<Rightarrow> world \<Rightarrow> conf \<Rightarrow> (world \<times> conf \<times> conf list) option" where
  "advance P [] w (Run pre a b (Finish out)) = None"
| "advance P [] w (Run pre a b (Act r k)) =
     (case begin_call P (call_key P pre a r) r w of
        (w1, Some out, i) \<Rightarrow> Some (w1, Run pre (Suc a) b (k out), [])
      | (w1, None, i) \<Rightarrow> Some (w1, Await pre (Suc a) b (call_key P pre a r) i r k, []))"
| "advance P [] w (Run pre a b (Parallel ss ce k)) = Some (w, Join pre a (Suc b) ce (branches pre b ss) k, [])"
| "advance P [] w (Await pre a b key i r k) =
     (case finish_call P key i r w of (w1, out) \<Rightarrow> Some (w1, Run pre a b (k out), []))"
| "advance P [] w (Join pre a b ce cs k) =
     (case all_values ce (map finished cs) of
        Some vs \<Rightarrow> Some (w, Run pre a b (k (Returned (JArr vs))), [])
      | None \<Rightarrow>
          (case (if ce then None else first_error (map finished cs)) of
             Some e \<Rightarrow> Some (w, Run pre a b (k (Threw e)), filter (\<lambda>c. finished c = None) cs)
           | None \<Rightarrow> None))"
| "advance P (i # path) w (Join pre a b ce cs k) =
     (if i < length cs
      then case advance P path w (cs ! i) of
             Some (w1, c, orphans) \<Rightarrow> Some (w1, Join pre a b ce (cs[i := c]) k, orphans)
           | None \<Rightarrow> None
      else None)"
| "advance P (i # path) w c = None"

text \<open>The first thread of a run is the script's own; a choice that cannot move is skipped.\<close>

definition run_choice :: "wf_params \<Rightarrow> nat \<times> nat list \<Rightarrow> world \<times> conf list \<Rightarrow> world \<times> conf list" where
  "run_choice P choice st =
     (case (choice, st) of
        ((t, path), (w, cs)) \<Rightarrow>
          if t < length cs
          then case advance P path w (cs ! t) of
                 Some (w1, c, orphans) \<Rightarrow> (w1, cs[t := c] @ orphans)
               | None \<Rightarrow> (w, cs)
          else (w, cs))"

definition new_world :: "(string, jrec) jsmap option \<Rightarrow> world" where
  "new_world journal = \<lparr>w_lines = [], w_replay = journal, w_diverged = False, w_ids = 0, w_live = []\<rparr>"

definition run_script :: "wf_params \<Rightarrow> (string, jrec) jsmap option \<Rightarrow> script \<Rightarrow> (nat \<times> nat list) list \<Rightarrow> world \<times> conf list" where
  "run_script P journal s schedule = fold (run_choice P) schedule (new_world journal, [Run [] 0 0 s])"

subsection \<open>Positions and keys\<close>

text \<open>
  The place of a call in the tree of branches is a list of numbers: barrier and branch index for every level, then the
  position in the branch. The text of the sequence can be read back, so a key determines its place.
\<close>

definition pre_text :: "nat list \<Rightarrow> string" where
  "pre_text xs = concat (map (\<lambda>n. show_nat n @ '':'') xs)"

lemma pre_text_Nil: "pre_text [] = []"
  and pre_text_Cons: "pre_text (n # xs) = show_nat n @ '':'' @ pre_text xs"
  by (simp_all add: pre_text_def)

lemma pre_text_append: "pre_text (xs @ ys) = pre_text xs @ pre_text ys"
  by (simp add: pre_text_def)

lemmas pre_text_simps = pre_text_Nil pre_text_Cons pre_text_append

lemma branchPrefix_text: "branchPrefix (pre_text xs) b i = pre_text (xs @ [b, i])"
  by (simp add: branchPrefix_def pre_text_simps)

lemma show_nat_no_colon: "CHR '':'' \<notin> set (show_nat n)"
proof
  assume "CHR '':'' \<in> set (show_nat n)"
  from show_nat_digits [OF this] show False by simp
qed

lemma colon_free_split:
  assumes "u @ CHR '':'' # x = v @ CHR '':'' # y" "CHR '':'' \<notin> set u" "CHR '':'' \<notin> set v"
  shows "u = v \<and> x = y"
  using assms
proof (induction u arbitrary: v)
  case Nil
  then show ?case by (cases v) auto
next
  case (Cons c u)
  then show ?case by (cases v) auto
qed

lemma pre_text_inj: "pre_text xs = pre_text ys \<Longrightarrow> xs = ys"
proof (induction xs arbitrary: ys)
  case Nil
  then show ?case by (cases ys) (auto simp: pre_text_simps)
next
  case (Cons n xs)
  then obtain m ys' where ys: "ys = m # ys'"
    by (cases ys) (auto simp: pre_text_simps)
  then have "show_nat n = show_nat m \<and> pre_text xs = pre_text ys'"
    using Cons.prems by (intro colon_free_split) (auto simp: show_nat_no_colon pre_text_simps)
  then show ?case
    using Cons.IH ys by simp
qed

lemma pre_text_chars: "c \<in> set (pre_text xs) \<Longrightarrow> js_digit c \<or> c = CHR '':''"
proof (induction xs)
  case (Cons n xs)
  then show ?case
    using show_nat_digits[of c n] by (auto simp: js_digit_def Let_def pre_text_simps)
qed (simp add: pre_text_simps)

text \<open>The sequence followed by the colon of the key is the text of the place, and the kind of call ends it.\<close>

lemma key_text:
  "computeActivityKey (nextSequence (pre_text xs) n) t m h = pre_text (xs @ [n]) @ t @ '':'' @ m @ '':'' @ h"
  by (simp add: computeActivityKey_def nextSequence_def pre_text_simps)

lemma takeWhile_pre_text:
  "takeWhile (\<lambda>c. js_digit c \<or> c = CHR '':'') (pre_text xs @ type_name ty @ rest) = pre_text xs"
proof -
  have "\<not> (js_digit (hd (type_name ty)) \<or> hd (type_name ty) = CHR '':'')" "type_name ty \<noteq> []"
    by (cases ty; simp add: js_digit_def Let_def)+
  then show ?thesis
    using pre_text_chars[of _ xs] by (cases "type_name ty") (auto simp: takeWhile_append2 takeWhile_append)
qed

lemma key_place:
  assumes "computeActivityKey (nextSequence (pre_text xs) n) (type_name ty) m h
    = computeActivityKey (nextSequence (pre_text ys) k) (type_name tz) m' h'"
  shows "xs @ [n] = ys @ [k]"
proof -
  have "pre_text (xs @ [n]) = pre_text (ys @ [k])"
    using arg_cong[OF assms, of "takeWhile (\<lambda>c. js_digit c \<or> c = CHR '':'')"] unfolding key_text takeWhile_pre_text .
  then show ?thesis
    by (rule pre_text_inj)
qed

subsection \<open>What a script does, whatever the schedule\<close>

text \<open>
  Given the answer to every call, a script has one outcome and one list of calls with their keys. The last component says
  that no branch of a \<^verbatim>\<open>parallel()\<close> without \<^verbatim>\<open>continueOnError\<close> throws; then no branch is left behind.
\<close>

type_synonym answers = "string \<Rightarrow> call_req \<Rightarrow> outcome"
type_synonym meaning = "outcome \<times> (string \<times> call_req) list \<times> bool"

definition seq_meaning :: "(string \<times> call_req) list \<Rightarrow> bool \<Rightarrow> meaning \<Rightarrow> meaning" where
  "seq_meaning cs ok m = (case m of (out, cs', ok') \<Rightarrow> (out, cs @ cs', ok \<and> ok'))"

definition join_meaning :: "bool \<Rightarrow> meaning list \<Rightarrow> (outcome \<Rightarrow> meaning) \<Rightarrow> meaning" where
  "join_meaning ce ms rest =
     (case all_values ce (map (\<lambda>m. Some (fst m)) ms) of
        None \<Rightarrow> (Threw (GeneralError ''branch''), concat (map (\<lambda>m. fst (snd m)) ms), False)
      | Some vs \<Rightarrow> seq_meaning (concat (map (\<lambda>m. fst (snd m)) ms)) (\<forall>m\<in>set ms. snd (snd m)) (rest (Returned (JArr vs))))"

primrec den :: "script \<Rightarrow> wf_params \<Rightarrow> answers \<Rightarrow> string \<Rightarrow> nat \<Rightarrow> nat \<Rightarrow> meaning" where
  "den (Finish out) = (\<lambda>P A pre a b. (out, [], True))"
| "den (Act r k) = (\<lambda>P A pre a b.
     let key = call_key P pre a r in seq_meaning [(key, r)] True (den (k (A key r)) P A pre (Suc a) b))"
| "den (Parallel ss ce k) = (\<lambda>P A pre a b.
     join_meaning ce (map (\<lambda>(i, d). d P A (branchPrefix pre b i) 0 0) (zip [0..<length ss] (map den ss)))
       (\<lambda>out. den (k out) P A pre a (Suc b)))"

text \<open>What is still to come from a thread.\<close>

primrec fut :: "conf \<Rightarrow> wf_params \<Rightarrow> answers \<Rightarrow> meaning" where
  "fut (Run pre a b s) = (\<lambda>P A. den s P A pre a b)"
| "fut (Await pre a b key i r k) = (\<lambda>P A. seq_meaning [(key, r)] True (den (k (A key r)) P A pre a b))"
| "fut (Join pre a b ce cs k) = (\<lambda>P A. join_meaning ce (map (\<lambda>d. d P A) (map fut cs)) (\<lambda>out. den (k out) P A pre a b))"

abbreviation calls_of :: "meaning \<Rightarrow> (string \<times> call_req) list" where
  "calls_of m \<equiv> fst (snd m)"

abbreviation settled :: "meaning \<Rightarrow> bool" where
  "settled m \<equiv> snd (snd m)"

lemma seq_meaning_simps [simp]:
  "fst (seq_meaning cs ok m) = fst m" "calls_of (seq_meaning cs ok m) = cs @ calls_of m" "settled (seq_meaning cs ok m) \<longleftrightarrow> ok \<and> settled m"
  by (simp_all add: seq_meaning_def case_prod_unfold)

lemma fut_branches:
  "map (\<lambda>d. d P A) (map fut (branches pre b ss)) = map (\<lambda>(i, d). d P A (branchPrefix pre b i) 0 0) (zip [0..<length ss] (map den ss))"
  by (rule nth_equalityI) (simp_all add: branches_def)

text \<open>The place of every call of a script: on its own level at or after \<open>a\<close>, or in a branch of a barrier at or after \<open>b\<close>.\<close>

inductive placed :: "wf_params \<Rightarrow> nat list \<Rightarrow> nat \<Rightarrow> nat \<Rightarrow> string \<Rightarrow> bool" for P xs a b where
  own: "n \<ge> a \<Longrightarrow> placed P xs a b (call_key P (pre_text xs) n r)"
| deep: "b' \<ge> b \<Longrightarrow> placed P xs a b (call_key P (pre_text (xs @ b' # i # zs)) n r)"

lemma call_key_place: "call_key P (pre_text xs) n r = call_key P (pre_text ys) k q \<Longrightarrow> xs = ys \<and> n = k"
  unfolding call_key_def by (drule key_place) simp

lemma placed_mono: "placed P xs a b key \<Longrightarrow> a' \<le> a \<Longrightarrow> b' \<le> b \<Longrightarrow> placed P xs a' b' key"
  by (erule placed.cases) (auto intro: placed.intros order_trans)

lemma placed_branch:
  assumes "placed P (xs @ [b, i]) 0 0 key"
  shows "placed P xs a b key"
  using assms
proof cases
  case (own n r)
  then show ?thesis
    using placed.deep[of b b P xs a i "[]" n r] by simp
next
  case (deep b' i' zs n r)
  then show ?thesis
    using placed.deep[of b b P xs a i "b' # i' # zs" n r] by simp
qed

text \<open>Different places do not share a key.\<close>

lemma placed_apart:
  assumes "placed P (xs @ [b, i]) 0 0 key"
  shows "\<not> placed P xs a (Suc b) key" "i \<noteq> j \<Longrightarrow> \<not> placed P (xs @ [b, j]) 0 0 key"
proof -
  obtain ys n r where key: "key = call_key P (pre_text (xs @ b # i # ys)) n r"
    using assms by cases auto
  show "\<not> placed P xs a (Suc b) key"
    unfolding key by (auto elim!: placed.cases dest!: call_key_place)
  show "\<not> placed P (xs @ [b, j]) 0 0 key" if "i \<noteq> j"
    using that unfolding key by (auto elim!: placed.cases dest!: call_key_place)
qed

lemma own_apart: "\<not> placed P xs (Suc a) b (call_key P (pre_text xs) a r)"
  by (auto elim!: placed.cases dest!: call_key_place)

lemma join_meaning_calls:
  "calls_of (join_meaning ce ms rest) = concat (map calls_of ms) @
     (case all_values ce (map (\<lambda>m. Some (fst m)) ms) of None \<Rightarrow> [] | Some vs \<Rightarrow> calls_of (rest (Returned (JArr vs))))"
  unfolding join_meaning_def by (simp split: option.split)

lemma in_concat_map: "x \<in> set (concat (map f ms)) \<longleftrightarrow> (\<exists>i<length ms. x \<in> set (f (ms ! i)))"
  using nth_mem by (auto simp: in_set_conv_nth[of _ ms])

lemma join_calls_cases:
  assumes "c \<in> set (calls_of (join_meaning ce ms rest))"
  shows "(\<exists>i<length ms. c \<in> set (calls_of (ms ! i))) \<or> (\<exists>vs. c \<in> set (calls_of (rest (Returned (JArr vs)))))"
  using assms unfolding join_meaning_calls set_append Un_iff in_concat_map by (auto split: option.splits)

definition branch_meanings :: "wf_params \<Rightarrow> answers \<Rightarrow> string \<Rightarrow> nat \<Rightarrow> script list \<Rightarrow> meaning list" where
  "branch_meanings P A pre b ss = map (\<lambda>(i, d). d P A (branchPrefix pre b i) 0 0) (zip [0..<length ss] (map den ss))"

lemma length_branch_meanings [simp]: "length (branch_meanings P A pre b ss) = length ss"
  unfolding branch_meanings_def by simp

lemma branch_meanings_nth:
  "i < length ss \<Longrightarrow> branch_meanings P A (pre_text xs) b ss ! i = den (ss ! i) P A (pre_text (xs @ [b, i])) 0 0"
  unfolding branch_meanings_def by (simp add: branchPrefix_text)

lemma den_Parallel:
  "den (Parallel ss ce k) P A pre a b = join_meaning ce (branch_meanings P A pre b ss) (\<lambda>out. den (k out) P A pre a (Suc b))"
  unfolding branch_meanings_def by simp

lemma den_placed:
  "(key, r) \<in> set (calls_of (den s P A (pre_text xs) a b)) \<Longrightarrow> placed P xs a b key"
proof (induction s arbitrary: xs a b)
  case (Act q k)
  show ?case
  proof (cases "key = call_key P (pre_text xs) a q")
    case True
    then show ?thesis
      by (simp add: placed.own)
  next
    case False
    then have "(key, r) \<in> set (calls_of (den (k (A (call_key P (pre_text xs) a q) q)) P A (pre_text xs) (Suc a) b))"
      using Act.prems by (simp add: Let_def)
    from Act.IH[OF _ this] show ?thesis
      by (auto intro: placed_mono)
  qed
next
  case (Parallel ss ce k)
  from join_calls_cases[OF Parallel.prems[unfolded den_Parallel]] show ?case
  proof (elim disjE exE conjE)
    fix i
    assume i: "i < length (branch_meanings P A (pre_text xs) b ss)" "(key, r) \<in> set (calls_of (branch_meanings P A (pre_text xs) b ss ! i))"
    then have "(key, r) \<in> set (calls_of (den (ss ! i) P A (pre_text (xs @ [b, i])) 0 0))"
      using branch_meanings_nth[of i ss P A xs b] by simp
    from Parallel.IH(1)[OF _ this] i(1) show ?thesis
      by (auto intro: placed_branch)
  next
    fix vs
    assume "(key, r) \<in> set (calls_of (den (k (Returned (JArr vs))) P A (pre_text xs) a (Suc b)))"
    from Parallel.IH(2)[OF _ this] show ?thesis
      by (auto intro: placed_mono)
  qed
qed simp

lemma distinct_concat_nth:
  assumes "\<And>i. i < length xss \<Longrightarrow> distinct (xss ! i)"
    "\<And>i j x. i < length xss \<Longrightarrow> j < length xss \<Longrightarrow> i \<noteq> j \<Longrightarrow> x \<in> set (xss ! i) \<Longrightarrow> x \<notin> set (xss ! j)"
  shows "distinct (concat xss)"
  using assms
proof (induction xss)
  case (Cons xs xss)
  have "distinct (concat xss)"
  proof (rule Cons.IH)
    show "distinct (xss ! i)" if "i < length xss" for i
      using Cons.prems(1)[of "Suc i"] that by simp
    show "x \<notin> set (xss ! j)" if "i < length xss" "j < length xss" "i \<noteq> j" "x \<in> set (xss ! i)" for i j x
      using Cons.prems(2)[of "Suc i" "Suc j" x] that by simp
  qed
  moreover have "x \<notin> set (xss ! j)" if "x \<in> set xs" "j < length xss" for x j
    using Cons.prems(2)[of 0 "Suc j" x] that by simp
  then have "set xs \<inter> set (concat xss) = {}"
    using in_concat_map[of _ id xss] by (metis disjoint_iff id_apply list.map_id)
  ultimately show ?case
    using Cons.prems(1)[of 0] by simp
qed simp

text \<open>No two calls of a run share a key.\<close>

lemma den_distinct: "distinct (map fst (calls_of (den s P A (pre_text xs) a b)))"
proof (induction s arbitrary: xs a b)
  case (Act q k)
  have "call_key P (pre_text xs) a q \<notin> fst ` set (calls_of (den s P A (pre_text xs) (Suc a) b))" for s
    using den_placed[of _ _ s P A xs "Suc a" b] own_apart[of P xs a b q] by force
  then show ?case
    using Act.IH by (simp add: Let_def)
next
  case (Parallel ss ce k)
  let ?ms = "branch_meanings P A (pre_text xs) b ss"
  let ?keys = "map (\<lambda>m. map fst (calls_of m)) ?ms"
  have br: "?keys ! i = map fst (calls_of (den (ss ! i) P A (pre_text (xs @ [b, i])) 0 0))" if "i < length ss" for i
    using branch_meanings_nth[OF that, of P A xs b] that by simp
  have pl: "placed P (xs @ [b, i]) 0 0 key" if "i < length ss" "key \<in> set (?keys ! i)" for i key
    using that(2) den_placed[of key _ "ss ! i" P A "xs @ [b, i]" 0 0] unfolding br[OF that(1)] by auto
  have dist: "distinct (concat ?keys)"
  proof (rule distinct_concat_nth)
    show "distinct (?keys ! i)" if "i < length ?keys" for i
      using that Parallel.IH(1)[of "ss ! i"] br[of i] by simp
    show "key \<notin> set (?keys ! j)" if "i < length ?keys" "j < length ?keys" "i \<noteq> j" "key \<in> set (?keys ! i)" for i j key
      using pl[of i key] pl[of j key] placed_apart(2)[of P xs b i key j] that by auto
  qed
  have apart: "key \<notin> set (concat ?keys)" if "placed P xs a (Suc b) key" for key
  proof
    assume "key \<in> set (concat ?keys)"
    then obtain i where "i < length ss" "key \<in> set (?keys ! i)"
      unfolding in_concat_map by auto
    from placed_apart(1)[OF pl[OF this]] that show False
      by blast
  qed
  have rest: "key \<notin> set (concat ?keys)" if k: "key \<in> fst ` set (calls_of (den s P A (pre_text xs) a (Suc b)))" for key s
  proof -
    obtain r where "(key, r) \<in> set (calls_of (den s P A (pre_text xs) a (Suc b)))"
      using k by force
    then show ?thesis
      using apart den_placed by blast
  qed
  have "map fst (calls_of (den (Parallel ss ce k) P A (pre_text xs) a b)) = concat ?keys @
      (case all_values ce (map (\<lambda>m. Some (fst m)) ?ms) of None \<Rightarrow> []
       | Some vs \<Rightarrow> map fst (calls_of (den (k (Returned (JArr vs))) P A (pre_text xs) a (Suc b))))"
    unfolding den_Parallel join_meaning_calls by (simp add: map_concat comp_def split: option.split)
  then show ?case
    using dist rest Parallel.IH(2) by (auto split: option.split)
qed simp

subsection \<open>One move of a thread\<close>

lemma those_eq_Some: "those xs = Some ys \<longleftrightarrow> xs = map Some ys"
  by (induction xs arbitrary: ys) (auto split: option.splits simp: Cons_eq_map_conv)

lemma all_values_Some: "all_values ce outs = Some vs \<Longrightarrow> out \<in> set outs \<Longrightarrow> \<exists>v. Option.bind out (branch_value ce) = Some v"
proof -
  assume v: "all_values ce outs = Some vs" and out: "out \<in> set outs"
  have "set (map (\<lambda>out. Option.bind out (branch_value ce)) outs) = Some ` set vs"
    using v unfolding all_values_def those_eq_Some by simp
  then show ?thesis
    using out by auto
qed

lemma finished_fut: "finished c = Some out \<Longrightarrow> fut c P A = (out, [], True)"
  by (cases c rule: finished.cases) auto

lemma threw_Some: "threw out = Some e \<longleftrightarrow> out = Some (Threw e)"
  by (cases out rule: threw.cases) auto

lemma first_error_Some: "first_error outs = Some e \<Longrightarrow> Some (Threw e) \<in> set outs"
proof -
  assume "first_error outs = Some e"
  then obtain es where "filter (\<lambda>e. e \<noteq> None) (map threw outs) = Some e # es"
    unfolding first_error_def by (auto split: list.splits)
  then have "Some e \<in> set (filter (\<lambda>e. e \<noteq> None) (map threw outs))"
    by (simp only: list.set_intros(1))
  then have "Some e \<in> set (map threw outs)"
    unfolding set_filter by blast
  then obtain out where "out \<in> set outs" "threw out = Some e"
    unfolding set_map by (elim imageE) metis
  then show ?thesis
    by (simp add: threw_Some)
qed

text \<open>The end of a barrier.\<close>

lemma join_ends:
  assumes v: "all_values ce (map finished cs) = Some vs"
  shows "fut (Join pre a b ce cs k) P A = den (k (Returned (JArr vs))) P A pre a b"
proof -
  have f: "\<exists>out. finished c = Some out" if "c \<in> set cs" for c
    using all_values_Some[OF v, of "finished c"] imageI[OF that, of finished] by (cases "finished c") auto
  then have m: "map (\<lambda>m. Some (fst m)) (map (\<lambda>d. d P A) (map fut cs)) = map finished cs"
    using finished_fut[of _ _ P A] by fastforce
  have c: "concat (map calls_of (map (\<lambda>d. d P A) (map fut cs))) = []" "\<forall>m\<in>set (map (\<lambda>d. d P A) (map fut cs)). settled m"
    using f finished_fut[of _ _ P A] by fastforce+
  show ?thesis
    unfolding fut.simps join_meaning_def m v option.case c(1) using c(2) by (simp add: seq_meaning_def case_prod_unfold)
qed

lemma settled_no_error:
  assumes "settled (fut (Join pre a b False cs k) P A)"
  shows "first_error (map finished cs) = None"
proof (rule ccontr)
  assume "first_error (map finished cs) \<noteq> None"
  then obtain e where "Some (Threw e) \<in> set (map finished cs)"
    using first_error_Some by blast
  then obtain c where "c \<in> set cs" "finished c = Some (Threw e)"
    by auto
  then have "Some (Threw e) \<in> set (map (\<lambda>m. Some (fst m)) (map (\<lambda>d. d P A) (map fut cs)))"
    using finished_fut[of c "Threw e" P A] by force
  then have "all_values False (map (\<lambda>m. Some (fst m)) (map (\<lambda>d. d P A) (map fut cs))) \<noteq> Some vs" for vs
    using all_values_Some[of False _ vs "Some (Threw e)"] by fastforce
  then have "all_values False (map (\<lambda>m. Some (fst m)) (map (\<lambda>d. d P A) (map fut cs))) = None"
    by blast
  then show False
    using assms unfolding fut.simps join_meaning_def by simp
qed

lemma mset_concat_update:
  assumes "i < length ms" "mset (f (ms ! i)) = mset (f m') + M"
  shows "mset (concat (map f ms)) = mset (concat (map f (ms[i := m']))) + M"
proof -
  have old: "mset (concat (map f ms)) = mset (concat (map f (take i ms))) + mset (f (ms ! i)) + mset (concat (map f (drop (Suc i) ms)))"
    using arg_cong[OF id_take_nth_drop[OF assms(1)], of "\<lambda>xs. mset (concat (map f xs))"] by (simp add: add.assoc)
  have new: "mset (concat (map f (ms[i := m']))) = mset (concat (map f (take i ms))) + mset (f m') + mset (concat (map f (drop (Suc i) ms)))"
    using arg_cong[OF upd_conv_take_nth_drop[OF assms(1), of m'], of "\<lambda>xs. mset (concat (map f xs))"] by (simp add: add.assoc)
  show ?thesis
    unfolding old new assms(2) by (simp add: add.assoc add.commute add.left_commute)
qed

lemma join_settled:
  assumes "settled (join_meaning ce ms rest)" "i < length ms"
  shows "settled (ms ! i)"
proof -
  have "\<forall>m\<in>set ms. settled m"
    using assms(1) unfolding join_meaning_def by (cases "all_values ce (map (\<lambda>m. Some (fst m)) ms)") simp_all
  then show ?thesis
    using nth_mem[OF assms(2)] by blast
qed

text \<open>A branch that moves on to the same outcome.\<close>

lemma join_child:
  assumes "i < length ms" "fst m' = fst (ms ! i)" "settled m'" "mset (calls_of (ms ! i)) = mset (calls_of m') + M"
    and "settled (join_meaning ce ms rest)"
  shows "fst (join_meaning ce (ms[i := m']) rest) = fst (join_meaning ce ms rest)" "settled (join_meaning ce (ms[i := m']) rest)"
    "mset (calls_of (join_meaning ce ms rest)) = mset (calls_of (join_meaning ce (ms[i := m']) rest)) + M"
proof -
  have v: "map (\<lambda>m. Some (fst m)) (ms[i := m']) = map (\<lambda>m. Some (fst m)) ms"
    using assms(1,2) by (metis list_update_id map_update)
  obtain vs where vs: "all_values ce (map (\<lambda>m. Some (fst m)) ms) = Some vs"
    using assms(5) unfolding join_meaning_def by (cases "all_values ce (map (\<lambda>m. Some (fst m)) ms)") auto
  have ok: "\<forall>m\<in>set ms. settled m" "settled (rest (Returned (JArr vs)))"
    using assms(5) unfolding join_meaning_def vs by simp_all
  have "\<forall>m\<in>set (ms[i := m']). settled m"
    using ok(1) assms(3) set_update_subset_insert[of ms i m'] by blast
  then show "fst (join_meaning ce (ms[i := m']) rest) = fst (join_meaning ce ms rest)" "settled (join_meaning ce (ms[i := m']) rest)"
    using ok(2) unfolding join_meaning_def v vs by simp_all
  show "mset (calls_of (join_meaning ce ms rest)) = mset (calls_of (join_meaning ce (ms[i := m']) rest)) + M"
    using mset_concat_update[of i ms calls_of m' M] assms(1,4) unfolding join_meaning_calls v by (simp add: add.commute add.left_commute)
qed

text \<open>What a live call returns does not depend on the state of the run.\<close>

definition live_outcome :: "wf_params \<Rightarrow> string \<Rightarrow> call_req \<Rightarrow> outcome" where
  "live_outcome P key r = snd (finish_call P key [] r (new_world None))"

lemma agent_loop_outcome: "snd (agent_loop P key r n m i w) = snd (agent_loop P key r n m i' w')"
proof (induction m arbitrary: n i i' w w')
  case 0
  show ?case
    by (subst (1 2) agent_loop.simps) (simp split: prod.split option.split)
next
  case (Suc m)
  show ?case
    by (subst (1 2) agent_loop.simps) (simp add: Let_def Suc.IH[where n = "Suc n"] split: prod.split option.split)
qed

lemma finish_call_outcome: "snd (finish_call P key i r w) = live_outcome P key r"
  unfolding live_outcome_def finish_call_def using agent_loop_outcome[of P key r 0 _ i w "[]" "new_world None"]
  by (cases "rq_type r") (simp_all add: case_prod_unfold)

primrec no_await :: "conf \<Rightarrow> bool" where
  "no_await (Run pre a b s) = True"
| "no_await (Await pre a b key i r k) = False"
| "no_await (Join pre a b ce cs k) = list_all (\<lambda>x. x) (map no_await cs)"

primrec await_ids :: "conf \<Rightarrow> bool" where
  "await_ids (Run pre a b s) = True"
| "await_ids (Await pre a b key i r k) = (i \<noteq> [])"
| "await_ids (Join pre a b ce cs k) = list_all (\<lambda>x. x) (map await_ids cs)"

datatype move = Silent | Hit string call_req | Dispatch string call_req string | Reply string call_req string

fun effect :: "wf_params \<Rightarrow> world \<Rightarrow> move \<Rightarrow> world \<Rightarrow> bool" where
  "effect P w Silent w' \<longleftrightarrow> w' = w"
| "effect P w (Hit key r) w' \<longleftrightarrow> (\<exists>out i. begin_call P key r w = (w', Some out, i))"
| "effect P w (Dispatch key r i) w' \<longleftrightarrow> begin_call P key r w = (w', None, i)"
| "effect P w (Reply key r i) w' \<longleftrightarrow> w' = fst (finish_call P key i r w)"

fun taken_calls :: "move \<Rightarrow> (string \<times> call_req) multiset" where
  "taken_calls (Hit key r) = {#(key, r)#}"
| "taken_calls (Reply key r i) = {#(key, r)#}"
| "taken_calls _ = {#}"

fun about :: "move \<Rightarrow> (string \<times> call_req) set" where
  "about Silent = {}"
| "about (Hit key r) = {(key, r)}"
| "about (Dispatch key r i) = {(key, r)}"
| "about (Reply key r i) = {(key, r)}"

text \<open>The answers a thread can be given agree with \<open>A\<close>.\<close>

definition answered_by :: "wf_params \<Rightarrow> answers \<Rightarrow> world \<Rightarrow> conf \<Rightarrow> bool" where
  "answered_by P A w c \<longleftrightarrow>
     (\<forall>(key, r)\<in>set (calls_of (fut c P A)).
        (\<forall>rec. cached w key = Some rec \<longrightarrow> replayed r rec = A key r) \<and> (no_await c \<or> live_outcome P key r = A key r))"

lemma begin_hit: "begin_call P key r w = (w', Some out, i) \<Longrightarrow> \<exists>rec. cached w key = Some rec \<and> out = replayed r rec"
  unfolding begin_call_def by (auto simp: Let_def split: if_splits option.splits)

lemma begin_id: "begin_call P key r w = (w', out, i) \<Longrightarrow> i = wp_uid P (w_ids w)"
  unfolding begin_call_def by (auto simp: Let_def split: if_splits option.splits)

lemma fut_enter: "fut (Join pre a (Suc b) ce (branches pre b ss) k) P A = fut (Run pre a b (Parallel ss ce k)) P A"
  by (simp only: fut.simps den.simps fut_branches)

lemma no_await_branches [simp]: "no_await (Join pre a b ce (branches q c ss) k)" "await_ids (Join pre a b ce (branches q c ss) k)"
  by (auto simp: branches_def list_all_iff)

definition moves :: "wf_params \<Rightarrow> answers \<Rightarrow> world \<Rightarrow> conf \<Rightarrow> world \<Rightarrow> conf \<Rightarrow> move \<Rightarrow> bool" where
  "moves P A w c w' c' mv \<longleftrightarrow>
     effect P w mv w' \<and> about mv \<subseteq> set (calls_of (fut c P A)) \<and>
     fst (fut c' P A) = fst (fut c P A) \<and> settled (fut c' P A) \<and>
     mset (calls_of (fut c P A)) = mset (calls_of (fut c' P A)) + taken_calls mv \<and>
     (no_await c \<longrightarrow> (\<forall>key r i. mv \<noteq> Reply key r i) \<and> (no_await c' \<or> (\<exists>key r i. mv = Dispatch key r i))) \<and>
     ((\<forall>n. wp_uid P n \<noteq> []) \<longrightarrow> await_ids c \<longrightarrow> await_ids c' \<and> (\<forall>key r i. mv = Reply key r i \<longrightarrow> i \<noteq> []))"

lemma advance_moves:
  assumes "advance P path w c = Some (w', c', orphans)" "settled (fut c P A)" "answered_by P A w c"
  shows "orphans = [] \<and> (\<exists>mv. moves P A w c w' c' mv)"
  using assms
proof (induction P path w c arbitrary: w' c' orphans rule: advance.induct)
  case (2 P w pre a b r k)
  let ?key = "call_key P pre a r"
  obtain w1 o1 i where b: "begin_call P ?key r w = (w1, o1, i)"
    using prod_cases3 by blast
  show ?case
  proof (cases o1)
    case None
    then show ?thesis
      using 2 b begin_id[OF b] by (auto simp: moves_def Let_def intro!: exI[of _ "Dispatch ?key r i"])
  next
    case (Some out)
    then have "out = A ?key r"
      using 2(3) begin_hit[of P ?key r w w1 out i] b unfolding answered_by_def by (auto simp: Let_def)
    then show ?thesis
      using 2 b Some by (auto simp: moves_def Let_def intro!: exI[of _ "Hit ?key r"])
  qed
next
  case (3 P w pre a b ss ce k)
  then have "c' = Join pre a (Suc b) ce (branches pre b ss) k" "w' = w" "orphans = []"
    by simp_all
  then show ?case
    using 3(2) fut_enter[of pre a b ce ss k P A] by (auto simp: moves_def simp del: fut.simps no_await.simps(3) await_ids.simps(3) intro!: exI[of _ Silent])
next
  case (4 P w pre a b key i r k)
  have "snd (finish_call P key i r w) = A key r"
    using 4(3) unfolding answered_by_def finish_call_outcome by simp
  then show ?case
    using 4 by (auto simp: moves_def case_prod_unfold intro!: exI[of _ "Reply key r i"])
next
  case (5 P w pre a b ce cs k)
  show ?case
  proof (cases "all_values ce (map finished cs)")
    case None
    then show ?thesis
      using 5 settled_no_error[of pre a b cs k P A] by (auto split: if_splits option.splits)
  next
    case (Some vs)
    then have "c' = Run pre a b (k (Returned (JArr vs)))" "w' = w" "orphans = []"
      using 5(1) by auto
    then show ?thesis
      using 5(2) join_ends[OF Some, of pre a b k P A] by (auto simp: moves_def intro!: exI[of _ Silent])
  qed
next
  case (6 P i path w pre a b ce cs k)
  let ?ms = "map (\<lambda>d. d P A) (map fut cs)"
  obtain c1 where i: "i < length cs" and adv: "advance P path w (cs ! i) = Some (w', c1, orphans)" and c': "c' = Join pre a b ce (cs[i := c1]) k"
    using 6(2) by (auto split: if_splits option.splits)
  have nth: "?ms ! i = fut (cs ! i) P A" and len: "i < length ?ms"
    using i by simp_all
  have upd: "map (\<lambda>d. d P A) (map fut (cs[i := c1])) = ?ms[i := fut c1 P A]"
    by (simp add: map_update)
  have st: "settled (join_meaning ce ?ms (\<lambda>out. den (k out) P A pre a b))"
    using 6(3) by simp
  have sub: "set (calls_of (fut (cs ! i) P A)) \<subseteq> set (calls_of (fut (Join pre a b ce cs k) P A))"
    using nth len unfolding fut.simps join_meaning_calls set_append in_concat_map[symmetric] by force
  have "settled (fut (cs ! i) P A)"
    using join_settled[OF st len] nth by simp
  moreover have "no_await (Join pre a b ce cs k) \<Longrightarrow> no_await (cs ! i)"
    using i by (simp add: list_all_length)
  then have "answered_by P A w (cs ! i)"
    using 6(4) sub unfolding answered_by_def by blast
  ultimately obtain mv where orph: "orphans = []" and mv: "moves P A w (cs ! i) w' c1 mv"
    using 6(1)[OF i adv] by blast
  have "moves P A w (Join pre a b ce cs k) w' c' mv"
    unfolding c' moves_def
  proof (intro conjI impI)
    note child = join_child[OF len _ _ _ st, of "fut c1 P A" "taken_calls mv"]
    have m: "fst (fut c1 P A) = fst (?ms ! i)" "settled (fut c1 P A)" "mset (calls_of (?ms ! i)) = mset (calls_of (fut c1 P A)) + taken_calls mv"
      using mv unfolding moves_def nth by simp_all
    show "fst (fut (Join pre a b ce (cs[i := c1]) k) P A) = fst (fut (Join pre a b ce cs k) P A)"
      "settled (fut (Join pre a b ce (cs[i := c1]) k) P A)"
      "mset (calls_of (fut (Join pre a b ce cs k) P A)) = mset (calls_of (fut (Join pre a b ce (cs[i := c1]) k) P A)) + taken_calls mv"
      using child[OF m] unfolding fut.simps upd by simp_all
  next
    show "effect P w mv w'" "about mv \<subseteq> set (calls_of (fut (Join pre a b ce cs k) P A))"
      using mv sub unfolding moves_def by blast+
  next
    assume n: "no_await (Join pre a b ce cs k)"
    then have "no_await (cs ! i)"
      using i by (simp add: list_all_length)
    then have *: "\<forall>key r i. mv \<noteq> Reply key r i" "no_await c1 \<or> (\<exists>key r i. mv = Dispatch key r i)"
      using mv unfolding moves_def by blast+
    show "\<forall>key r i. mv \<noteq> Reply key r i"
      by (rule *)
    have "no_await c1 \<Longrightarrow> no_await (Join pre a b ce (cs[i := c1]) k)"
      using n set_update_subset_insert[of cs i c1] by (auto simp: list_all_iff)
    then show "no_await (Join pre a b ce (cs[i := c1]) k) \<or> (\<exists>key r i. mv = Dispatch key r i)"
      using *(2) by blast
  next
    assume uid: "\<forall>n. wp_uid P n \<noteq> []" and ids: "await_ids (Join pre a b ce cs k)"
    then have "await_ids (cs ! i)"
      using i by (simp add: list_all_length)
    then have *: "await_ids c1" "\<forall>key r i. mv = Reply key r i \<longrightarrow> i \<noteq> []"
      using mv uid unfolding moves_def by blast+
    then show "await_ids (Join pre a b ce (cs[i := c1]) k)"
      using ids set_update_subset_insert[of cs i c1] by (auto simp: list_all_iff)
    show "\<forall>key r i. mv = Reply key r i \<longrightarrow> i \<noteq> []"
      by (rule *)
  qed
  then show ?case
    using orph by blast
qed simp_all

subsection \<open>The records a call leaves\<close>

fun agent_final :: "wf_params \<Rightarrow> string \<Rightarrow> call_req \<Rightarrow> nat \<Rightarrow> nat \<Rightarrow> bool \<times> recorded option \<times> outcome" where
  "agent_final P key r attempt repairs =
     (case agent_attempt (wp_unwrap P) (wp_extract P r) (rq_schema r) (wp_fleet P key attempt) of
        (success, out, Some res) \<Rightarrow> (success, out, res)
      | (success, out, None) \<Rightarrow>
          (case repairs of 0 \<Rightarrow> (False, out, Threw (GeneralError ''agent output'')) | Suc m \<Rightarrow> agent_final P key r (Suc attempt) m))"

declare agent_final.simps [simp del]

text \<open>How a live call ends: whether its last record is a success, the output recorded there, and what the script gets.\<close>

definition call_final :: "wf_params \<Rightarrow> string \<Rightarrow> call_req \<Rightarrow> bool \<times> recorded option \<times> outcome" where
  "call_final P key r =
     (case rq_type r of
        CommandCall \<Rightarrow> command_result (rq_failSoft r) (wp_fleet P key 0)
      | AgentCall \<Rightarrow> agent_final P key r 0 (if rq_schema r then rq_schemaRetries r else 0))"

definition call_failSoft :: "call_req \<Rightarrow> bool" where
  "call_failSoft r \<longleftrightarrow> rq_type r = CommandCall \<and> rq_failSoft r"

text \<open>What a call gets from the record that its live run leaves.\<close>

definition record_outcome :: "wf_params \<Rightarrow> answers" where
  "record_outcome P key r =
     (case call_final P key r of (success, out, res) \<Rightarrow> replayed r (end_rec [] key (call_failSoft r) success out False))"

text \<open>A call whose record gives back what the script got from the live call.\<close>

definition faithful :: "wf_params \<Rightarrow> string \<Rightarrow> call_req \<Rightarrow> bool" where
  "faithful P key r \<longleftrightarrow>
     (case call_final P key r of (success, out, res) \<Rightarrow> success \<and> replayed r (end_rec [] key (call_failSoft r) success out False) = res)"

definition call_lines :: "string \<Rightarrow> jrec list \<Rightarrow> bool" where
  "call_lines key recs \<longleftrightarrow> (\<forall>rec\<in>set recs. jr_replayKey rec = key \<and> jr_id rec \<noteq> [])"

lemma call_lines_simps [simp]:
  "call_lines key []" "call_lines key (rec # recs) \<longleftrightarrow> jr_replayKey rec = key \<and> jr_id rec \<noteq> [] \<and> call_lines key recs"
  by (auto simp: call_lines_def)

lemma rec_simps [simp]:
  "jr_replayKey (start_rec i key fs rep) = key" "jr_id (start_rec i key fs rep) = i" "jr_event (start_rec i key fs rep) = ActivityStart"
  "jr_success (start_rec i key fs rep) = False"
  "jr_replayKey (end_rec i key fs suc out rep) = key" "jr_id (end_rec i key fs suc out rep) = i" "jr_event (end_rec i key fs suc out rep) = ActivityEnd"
  "jr_success (end_rec i key fs suc out rep) = suc" "jr_output (end_rec i key fs suc out rep) = out" "jr_failSoft (end_rec i key fs suc out rep) = fs"
  by (simp_all add: start_rec_def end_rec_def)

text \<open>A finished call has added its records, the last one its end, and changed nothing else that the other threads see.\<close>

definition leaves :: "string \<Rightarrow> bool \<Rightarrow> bool \<times> recorded option \<times> outcome \<Rightarrow> world \<Rightarrow> world \<times> outcome \<Rightarrow> bool" where
  "leaves key fs fin w res \<longleftrightarrow>
     (\<exists>recs i. call_lines key recs \<and> (\<forall>rec\<in>set recs. \<not> jr_success rec) \<and> i \<noteq> [] \<and>
        w_lines (fst res) = w_lines w @ recs @ [end_rec i key fs (fst fin) (fst (snd fin)) False]) \<and>
     w_replay (fst res) = w_replay w \<and> w_diverged (fst res) = w_diverged w \<and> w_live (fst res) = w_live w \<and> snd res = snd (snd fin)"

lemma leaves_last: "i \<noteq> [] \<Longrightarrow> leaves key fs (suc, out, res) w (add_lines [end_rec i key fs suc out False] w, res)"
  unfolding leaves_def by (auto simp: add_lines_def intro!: exI[of _ "[] :: jrec list"] exI[of _ i])

lemma leaves_more:
  assumes "leaves key fs fin (add_lines recs (w\<lparr>w_ids := n\<rparr>)) res" "call_lines key recs" "\<forall>rec\<in>set recs. \<not> jr_success rec"
  shows "leaves key fs fin w res"
proof -
  obtain recs' i where r: "call_lines key recs'" "i \<noteq> []" "\<forall>rec\<in>set recs'. \<not> jr_success rec"
    "w_lines (fst res) = (w_lines w @ recs) @ recs' @ [end_rec i key fs (fst fin) (fst (snd fin)) False]"
    using assms(1) unfolding leaves_def by (auto simp: add_lines_def)
  have "call_lines key (recs @ recs')" "\<forall>rec\<in>set (recs @ recs'). \<not> jr_success rec"
    using r(1,3) assms(2,3) by (auto simp: call_lines_def)
  then show ?thesis
    using assms(1) r unfolding leaves_def by (auto simp: add_lines_def intro!: exI[of _ "recs @ recs'"] exI[of _ i])
qed

lemma agent_loop_leaves:
  assumes "\<And>n. wp_uid P n \<noteq> []" "i \<noteq> []"
  shows "leaves key False (agent_final P key r n m) w (agent_loop P key r n m i w)"
  using assms(2)
proof (induction m arbitrary: n i w)
  case 0
  obtain suc out res where at: "agent_attempt (wp_unwrap P) (wp_extract P r) (rq_schema r) (wp_fleet P key n) = (suc, out, res)"
    using prod_cases3 by blast
  show ?case
    using leaves_last[OF 0] by (cases res) (simp_all add: agent_loop.simps[of P key r n] agent_final.simps[of P key r n] at)
next
  case (Suc m)
  obtain suc out res where at: "agent_attempt (wp_unwrap P) (wp_extract P r) (rq_schema r) (wp_fleet P key n) = (suc, out, res)"
    using prod_cases3 by blast
  show ?case
  proof (cases res)
    case None
    have "leaves key False (agent_final P key r (Suc n) m) w
        (agent_loop P key r (Suc n) m (wp_uid P (w_ids w))
          (add_lines [end_rec i key False False out False, start_rec (wp_uid P (w_ids w)) key False False] (w\<lparr>w_ids := Suc (w_ids w)\<rparr>)))"
      by (rule leaves_more[OF Suc.IH[OF assms(1)]]) (simp_all add: assms(1) Suc.prems)
    then show ?thesis
      by (simp add: agent_loop.simps[of P key r n] agent_final.simps[of P key r n] at None Let_def)
  next
    case (Some res')
    then show ?thesis
      using leaves_last[OF Suc.prems] by (simp add: agent_loop.simps[of P key r n] agent_final.simps[of P key r n] at)
  qed
qed

lemma finish_call_leaves:
  assumes "\<And>n. wp_uid P n \<noteq> []" "i \<noteq> []"
  shows "leaves key (call_failSoft r) (call_final P key r) w (finish_call P key i r w)"
proof (cases "rq_type r")
  case AgentCall
  then show ?thesis
    using agent_loop_leaves[OF assms] by (simp add: finish_call_def call_final_def call_failSoft_def)
next
  case CommandCall
  then show ?thesis
    using leaves_last[OF assms(2)] by (simp add: finish_call_def call_final_def call_failSoft_def split: prod.split)
qed

lemma live_outcome_final:
  assumes "\<And>n. wp_uid P n \<noteq> []"
  shows "live_outcome P key r = snd (snd (call_final P key r))"
  using finish_call_leaves[OF assms, of "''x''" key r "new_world None"] finish_call_outcome[of P key "''x''" r "new_world None"]
  unfolding leaves_def by simp

subsection \<open>What a journal answers\<close>

definition last_end :: "jrec list \<Rightarrow> string \<Rightarrow> jrec option" where
  "last_end recs key = fold (\<lambda>rec acc. if jr_event rec = ActivityEnd \<and> jr_replayKey rec = key then Some rec else acc) recs None"

lemma last_end_Nil [simp]: "last_end [] key = None"
  by (simp add: last_end_def)

lemma last_end_snoc [simp]:
  "last_end (recs @ [rec]) key = (if jr_event rec = ActivityEnd \<and> jr_replayKey rec = key then Some rec else last_end recs key)"
  by (simp add: last_end_def)

lemma last_end_other: "call_lines key' recs \<Longrightarrow> key' \<noteq> key \<Longrightarrow> last_end (w @ recs) key = last_end w key"
proof (induction recs rule: rev_induct)
  case (snoc rec recs)
  then have "call_lines key' recs" "jr_replayKey rec = key'"
    by (auto simp: call_lines_def)
  then show ?case
    using snoc last_end_snoc[of "w @ recs" rec key] by simp
qed simp

definition keyed :: "jrec list \<Rightarrow> bool" where
  "keyed recs \<longleftrightarrow> (\<forall>rec\<in>set recs. jr_id rec \<noteq> [] \<and> jr_replayKey rec \<noteq> [])"

lemma loadJournal_last_end:
  assumes "keyed recs"
  shows "map_of (fst (loadJournal (map Some recs))) key = last_end recs key"
proof -
  have "map_of (ld_completed (fold load_line (map Some recs) \<lparr>ld_starts = [], ld_ends = [], ld_completed = []\<rparr>)) key = last_end recs key"
    using assms
  proof (induction recs rule: rev_induct)
    case (snoc rec recs)
    then have "keyed recs" "jr_id rec \<noteq> []" "jr_replayKey rec \<noteq> []"
      by (auto simp: keyed_def)
    then show ?case
      using snoc.IH by (simp add: load_line_def Let_def update_conv')
  qed simp
  then show ?thesis
    unfolding loadJournal_def Let_def by simp
qed

subsection \<open>Recording a run\<close>

text \<open>
  A run that records: every call of the script is either still to be answered, with no end record yet, or answered, with a
  successful end record.
\<close>

definition answers_with :: "answers \<Rightarrow> jrec list \<Rightarrow> string \<times> call_req \<Rightarrow> bool" where
  "answers_with A recs call \<longleftrightarrow>
     (case last_end recs (fst call) of Some rec \<Rightarrow> jr_success rec \<and> replayed (snd call) rec = A (fst call) (snd call) | None \<Rightarrow> False)"

definition recording :: "wf_params \<Rightarrow> meaning \<Rightarrow> world \<Rightarrow> conf \<Rightarrow> bool" where
  "recording P m w c \<longleftrightarrow>
     (let A = live_outcome P in
      w_replay w = None \<and> keyed (w_lines w) \<and> await_ids c \<and> settled (fut c P A) \<and> fst (fut c P A) = fst m \<and>
      distinct (map fst (calls_of (fut c P A))) \<and> set (calls_of (fut c P A)) \<subseteq> set (calls_of m) \<and>
      (\<forall>call\<in>set (calls_of m).
         if call \<in> set (calls_of (fut c P A)) then last_end (w_lines w) (fst call) = None
         else answers_with (record_outcome P) (w_lines w) call))"

lemma keyed_append: "keyed xs \<Longrightarrow> call_lines key ys \<Longrightarrow> key \<noteq> [] \<Longrightarrow> keyed (xs @ ys)"
  by (auto simp: keyed_def call_lines_def)

lemma begin_call_live:
  assumes "begin_call P key r w = (w', None, i)"
  shows "w_lines w' = w_lines w @ [start_rec i key (call_failSoft r) False]" "w_replay w' = w_replay w"
  using assms unfolding begin_call_def call_failSoft_def by (auto simp: Let_def add_lines_def split: if_splits option.splits)

lemma begin_call_fresh: "w_replay w = None \<Longrightarrow> begin_call P key r w \<noteq> (w', Some out, i)"
  unfolding begin_call_def by (simp add: Let_def)

lemma replayed_id: "replayed r (end_rec i key fs suc out rep) = replayed r (end_rec i' key' fs suc out rep')"
  unfolding replayed_def by (cases "rq_type r") (simp_all split: option.split recorded.split)

text \<open>The calls that are left after a move.\<close>

lemma moves_left:
  assumes "moves P A w c w' c' mv" "distinct (map fst (calls_of (fut c P A)))"
  shows "distinct (map fst (calls_of (fut c' P A)))" "set (calls_of (fut c P A)) = set (calls_of (fut c' P A)) \<union> set_mset (taken_calls mv)"
    "set (calls_of (fut c' P A)) \<inter> set_mset (taken_calls mv) = {}"
proof -
  have ms: "mset (calls_of (fut c P A)) = mset (calls_of (fut c' P A)) + taken_calls mv"
    using assms(1) unfolding moves_def by blast
  obtain ts where ts: "taken_calls mv = mset ts"
    using ex_mset by metis
  have "mset (map fst (calls_of (fut c P A))) = mset (map fst (calls_of (fut c' P A) @ ts))"
    using ms ts by simp
  then have d: "distinct (map fst (calls_of (fut c' P A) @ ts))"
    using assms(2) mset_eq_imp_distinct_iff by blast
  then show "distinct (map fst (calls_of (fut c' P A)))"
    by simp
  show "set (calls_of (fut c P A)) = set (calls_of (fut c' P A)) \<union> set_mset (taken_calls mv)"
    using arg_cong[OF ms, of set_mset] by simp
  show "set (calls_of (fut c' P A)) \<inter> set_mset (taken_calls mv) = {}"
    using distinct_map[THEN iffD1, OF d] ts by (metis distinct_append set_mset_mset)
qed

lemma recording_quiet:
  assumes rec: "recording P m w c" and mv: "moves P (live_outcome P) w c w' c' mv" and uid: "\<forall>n. wp_uid P n \<noteq> []"
    and "taken_calls mv = {#}" "w_replay w' = None" "keyed (w_lines w')" "\<And>key. last_end (w_lines w') key = last_end (w_lines w) key"
  shows "recording P m w' c'"
proof -
  have "distinct (map fst (calls_of (fut c P (live_outcome P))))"
    using rec unfolding recording_def Let_def by blast
  from moves_left[OF mv this] assms(4) have left: "distinct (map fst (calls_of (fut c' P (live_outcome P))))"
    "set (calls_of (fut c P (live_outcome P))) = set (calls_of (fut c' P (live_outcome P)))"
    by simp_all
  have "await_ids c'" "settled (fut c' P (live_outcome P))" "fst (fut c' P (live_outcome P)) = fst (fut c P (live_outcome P))"
    using mv rec uid unfolding recording_def moves_def Let_def by blast+
  then show ?thesis
    using rec assms(5-7) left unfolding recording_def answers_with_def Let_def by simp
qed

lemma answers_with_end:
  assumes lv: "leaves key (call_failSoft r) (call_final P key r) w res" and f: "fst (call_final P key r)"
  shows "answers_with (record_outcome P) (w_lines (fst res)) (key, r)"
proof -
  obtain recs i where l: "w_lines (fst res) = (w_lines w @ recs) @ [end_rec i key (call_failSoft r) (fst (call_final P key r)) (fst (snd (call_final P key r))) False]"
    using lv unfolding leaves_def by auto
  have "replayed r (end_rec i key (call_failSoft r) (fst (call_final P key r)) (fst (snd (call_final P key r))) False) = record_outcome P key r"
    using replayed_id[of r i key "call_failSoft r" "fst (call_final P key r)" "fst (snd (call_final P key r))" False "[]" key False]
    unfolding record_outcome_def by (simp add: case_prod_unfold)
  with f show ?thesis
    unfolding answers_with_def l last_end_snoc by simp
qed

lemma recording_reply:
  assumes rec: "recording P m w c" and mv: "moves P (live_outcome P) w c w' c' (Reply key r i)"
    and uid: "\<And>n. wp_uid P n \<noteq> []" and key: "\<And>call. call \<in> set (calls_of m) \<Longrightarrow> fst call \<noteq> [] \<and> fst (call_final P (fst call) (snd call))"
    and dist: "distinct (map fst (calls_of m))"
  shows "recording P m w' c'"
proof -
  let ?A = "live_outcome P"
  have d: "distinct (map fst (calls_of (fut c P ?A)))" and sub: "set (calls_of (fut c P ?A)) \<subseteq> set (calls_of m)"
    using rec unfolding recording_def Let_def by blast+
  note left = moves_left[OF mv d]
  have km: "(key, r) \<in> set (calls_of m)"
    using left(2) sub by auto
  have "i \<noteq> []" and w': "w' = fst (finish_call P key i r w)"
    using mv rec uid unfolding moves_def recording_def Let_def by auto
  then have lv: "leaves key (call_failSoft r) (call_final P key r) w (finish_call P key i r w)"
    using finish_call_leaves[of P i key r w, OF uid] by blast
  then obtain recs where l: "w_lines w' = w_lines w @ recs" "call_lines key recs" and rp: "w_replay w' = w_replay w"
    unfolding leaves_def w' by (auto simp: call_lines_def)
  have a: "answers_with (record_outcome P) (w_lines w') (key, r)"
    unfolding w' by (rule answers_with_end[OF lv]) (use key[OF km] in simp)
  have other: "last_end (w_lines w') (fst call) = last_end (w_lines w) (fst call)" if "call \<in> set (calls_of m)" "call \<noteq> (key, r)" for call
  proof -
    have "fst call \<noteq> key"
      using dist that km by (metis distinct_map fst_conv inj_onD)
    then show ?thesis
      unfolding l(1) using last_end_other[OF l(2)] by simp
  qed
  have st: "if call \<in> set (calls_of (fut c' P ?A)) then last_end (w_lines w') (fst call) = None else answers_with (record_outcome P) (w_lines w') call"
    if cm: "call \<in> set (calls_of m)" for call
  proof (cases "call = (key, r)")
    case True
    then show ?thesis
      using a left(3) by simp
  next
    case False
    then have "call \<in> set (calls_of (fut c' P ?A)) \<longleftrightarrow> call \<in> set (calls_of (fut c P ?A))"
      using left(2) by simp
    then show ?thesis
      using rec cm other[OF cm False] unfolding recording_def answers_with_def Let_def by simp
  qed
  have "keyed (w_lines w')"
    using keyed_append[of "w_lines w" key recs] l key[OF km] rec unfolding recording_def Let_def by simp
  moreover have "await_ids c'" "settled (fut c' P ?A)" "fst (fut c' P ?A) = fst (fut c P ?A)"
    using mv rec uid unfolding recording_def moves_def Let_def by blast+
  ultimately show ?thesis
    using rec left rp st unfolding recording_def Let_def by simp
qed

lemma recording_step:
  assumes rec: "recording P m w c" and mv: "moves P (live_outcome P) w c w' c' mv"
    and uid: "\<And>n. wp_uid P n \<noteq> []" and key: "\<And>call. call \<in> set (calls_of m) \<Longrightarrow> fst call \<noteq> [] \<and> fst (call_final P (fst call) (snd call))"
    and dist: "distinct (map fst (calls_of m))"
  shows "recording P m w' c'"
proof -
  have w: "w_replay w = None" "keyed (w_lines w)"
    using rec unfolding recording_def Let_def by blast+
  show ?thesis
  proof (cases mv)
    case Silent
    then have "w' = w"
      using mv unfolding moves_def by simp
    then show ?thesis
      using recording_quiet[OF rec mv] uid Silent w by simp
  next
    case (Hit key r)
    then have "\<exists>out i. begin_call P key r w = (w', Some out, i)"
      using mv unfolding moves_def by simp
    then show ?thesis
      using w(1) begin_call_fresh by blast
  next
    case (Dispatch key r i)
    then have b: "begin_call P key r w = (w', None, i)" and "(key, r) \<in> set (calls_of (fut c P (live_outcome P)))"
      using mv unfolding moves_def by simp_all
    then have "(key, r) \<in> set (calls_of m)" "i \<noteq> []"
      using rec uid begin_id[OF b] unfolding recording_def Let_def by auto
    then have "keyed (w_lines w')"
      using keyed_append[of "w_lines w" key "[start_rec i key (call_failSoft r) False]"] begin_call_live[OF b] key[of "(key, r)"] w by simp
    then show ?thesis
      using recording_quiet[OF rec mv] uid Dispatch begin_call_live[OF b] w by simp
  next
    case (Reply key r i)
    then show ?thesis
      using recording_reply[OF rec mv[unfolded Reply] uid key dist] by simp
  qed
qed

subsection \<open>Runs of one thread\<close>

lemma run_keeps:
  assumes "I w c" "\<And>path w c w' c' orphans. I w c \<Longrightarrow> advance P path w c = Some (w', c', orphans) \<Longrightarrow> orphans = [] \<and> I w' c'"
  shows "\<exists>w' c'. fold (run_choice P) schedule (w, [c]) = (w', [c']) \<and> I w' c'"
  using assms(1)
proof (induction schedule arbitrary: w c)
  case (Cons choice schedule)
  obtain t path where ch: "choice = (t, path)"
    by force
  show ?case
  proof (cases "t = 0 \<and> advance P path w c \<noteq> None")
    case True
    then obtain w1 c1 orphans where adv: "advance P path w c = Some (w1, c1, orphans)"
      by auto
    then show ?thesis
      using Cons.IH[of w1 c1] assms(2)[OF Cons.prems adv] True ch by (simp add: run_choice_def)
  next
    case False
    then have "run_choice P choice (w, [c]) = (w, [c])"
      by (cases "advance P path w c") (auto simp: run_choice_def ch)
    then show ?thesis
      using Cons by simp
  qed
qed simp

text \<open>Moving one thread along a list of paths.\<close>

fun drive :: "wf_params \<Rightarrow> nat list list \<Rightarrow> world \<times> conf \<Rightarrow> (world \<times> conf) option" where
  "drive P [] st = Some st"
| "drive P (path # paths) (w, c) =
     (case advance P path w c of Some (w1, c1, []) \<Rightarrow> drive P paths (w1, c1) | _ \<Rightarrow> None)"

lemma drive_append: "drive P (ps @ qs) st = Option.bind (drive P ps st) (drive P qs)"
proof (induction ps arbitrary: st)
  case (Cons p ps)
  then show ?case
    by (cases st) (auto split: option.split list.split)
qed simp

lemma drive_run:
  "drive P ps (w, c) = Some (w', c') \<Longrightarrow> fold (run_choice P) (map (Pair 0) ps) (w, [c]) = (w', [c'])"
proof (induction ps arbitrary: w c)
  case (Cons p ps)
  then show ?case
    by (auto simp: run_choice_def split: option.splits list.splits)
qed simp

lemma drive_child:
  assumes "drive P ps (w, cs ! i) = Some (w', c')" "i < length cs"
  shows "drive P (map ((#) i) ps) (w, Join pre a b ce cs k) = Some (w', Join pre a b ce (cs[i := c']) k)"
  using assms
proof (induction ps arbitrary: w cs)
  case (Cons p ps)
  then obtain w1 c1 where adv: "advance P p w (cs ! i) = Some (w1, c1, [])" "drive P ps (w1, c1) = Some (w', c')"
    by (auto split: option.splits list.splits)
  then show ?case
    using Cons.IH[of w1 "cs[i := c1]"] Cons.prems(2) by simp
qed auto

text \<open>
  A set of worlds that stays the same while the calls of \<open>C\<close> are answered, and in which they are answered with \<open>A\<close>.
\<close>

definition steady :: "wf_params \<Rightarrow> answers \<Rightarrow> (string \<times> call_req) set \<Rightarrow> (world \<Rightarrow> bool) \<Rightarrow> bool" where
  "steady P A C W \<longleftrightarrow>
     (\<forall>key r w. (key, r) \<in> C \<longrightarrow> W w \<longrightarrow>
        (case begin_call P key r w of
           (w1, Some out, i) \<Rightarrow> W w1 \<and> out = A key r
         | (w1, None, i) \<Rightarrow> W w1 \<and> W (fst (finish_call P key i r w1)) \<and> live_outcome P key r = A key r))"

lemma steady_act:
  assumes "steady P A C W" "(call_key P pre a r, r) \<in> C" "W w"
  shows "\<exists>ps w'. drive P ps (w, Run pre a b (Act r k)) = Some (w', Run pre (Suc a) b (k (A (call_key P pre a r) r))) \<and> W w'"
proof -
  let ?key = "call_key P pre a r"
  obtain w1 o1 i where b: "begin_call P ?key r w = (w1, o1, i)"
    using prod_cases3 by blast
  have st: "case (w1, o1, i) of (w1, Some out, i) \<Rightarrow> W w1 \<and> out = A ?key r
      | (w1, None, i) \<Rightarrow> W w1 \<and> W (fst (finish_call P ?key i r w1)) \<and> live_outcome P ?key r = A ?key r"
    using assms(1)[unfolded steady_def, rule_format, OF assms(2,3)] b by simp
  show ?thesis
  proof (cases o1)
    case None
    then have "drive P [[], []] (w, Run pre a b (Act r k)) = Some (fst (finish_call P ?key i r w1), Run pre (Suc a) b (k (A ?key r)))"
      using b st finish_call_outcome[of P ?key i r w1] by (simp add: case_prod_unfold)
    moreover have "W (fst (finish_call P ?key i r w1))"
      using st None by simp
    ultimately show ?thesis
      by blast
  next
    case (Some out)
    then have "drive P [[]] (w, Run pre a b (Act r k)) = Some (w1, Run pre (Suc a) b (k (A ?key r)))"
      using b st by simp
    moreover have "W w1"
      using st Some by simp
    ultimately show ?thesis
      by blast
  qed
qed

text \<open>The branches of a barrier, one after the other.\<close>

lemma branches_end:
  assumes "\<And>i w. i < length ss \<Longrightarrow> W w \<Longrightarrow> \<exists>ps w' a' b'. drive P ps (w, Run (branchPrefix pre b i) 0 0 (ss ! i)) =
      Some (w', Run (branchPrefix pre b i) a' b' (Finish (outs ! i))) \<and> W w'"
    and "W w" "n \<le> length ss"
  shows "\<exists>ps w' cs. drive P ps (w, Join pre a c ce (branches pre b ss) k) = Some (w', Join pre a c ce cs k) \<and> W w' \<and>
      length cs = length ss \<and> (\<forall>i<n. finished (cs ! i) = Some (outs ! i)) \<and>
      (\<forall>i. n \<le> i \<longrightarrow> i < length ss \<longrightarrow> cs ! i = Run (branchPrefix pre b i) 0 0 (ss ! i))"
  using assms(3)
proof (induction n)
  case 0
  have "drive P [] (w, Join pre a c ce (branches pre b ss) k) = Some (w, Join pre a c ce (branches pre b ss) k)"
    by simp
  then show ?case
    using assms(2) by (intro exI[of _ "[]"] exI[of _ w] exI[of _ "branches pre b ss"]) (simp add: branches_def)
next
  case (Suc n)
  then obtain ps w1 cs where d: "drive P ps (w, Join pre a c ce (branches pre b ss) k) = Some (w1, Join pre a c ce cs k)" "W w1"
    "length cs = length ss" "\<forall>i<n. finished (cs ! i) = Some (outs ! i)"
    "\<forall>i. n \<le> i \<longrightarrow> i < length ss \<longrightarrow> cs ! i = Run (branchPrefix pre b i) 0 0 (ss ! i)"
    by auto
  have n: "n < length ss"
    using Suc.prems by simp
  then obtain qs w2 a' b' where q: "drive P qs (w1, cs ! n) = Some (w2, Run (branchPrefix pre b n) a' b' (Finish (outs ! n)))" "W w2"
    using assms(1)[OF n d(2)] d(5) by auto
  let ?cs = "cs[n := Run (branchPrefix pre b n) a' b' (Finish (outs ! n))]"
  have "drive P (ps @ map ((#) n) qs) (w, Join pre a c ce (branches pre b ss) k) = Some (w2, Join pre a c ce ?cs k)"
    using drive_child[OF q(1)] d(1,3) n by (simp add: drive_append)
  moreover have "\<forall>i<Suc n. finished (?cs ! i) = Some (outs ! i)"
    using d(3,4) n by (auto simp: nth_list_update less_Suc_eq)
  ultimately show ?case
    using q(2) d(3,5) by (intro exI[of _ "ps @ map ((#) n) qs"] exI[of _ w2] exI[of _ ?cs]) simp
qed

text \<open>A script whose calls are answered comes to its end.\<close>

lemma script_ends:
  assumes st: "steady P A C W"
  shows "settled (den s P A pre a b) \<Longrightarrow> set (calls_of (den s P A pre a b)) \<subseteq> C \<Longrightarrow> W w \<Longrightarrow>
    \<exists>ps w' a' b'. drive P ps (w, Run pre a b s) = Some (w', Run pre a' b' (Finish (fst (den s P A pre a b)))) \<and> W w'"
proof (induction s arbitrary: pre a b w)
  case (Finish out)
  have "drive P [] (w, Run pre a b (Finish out)) = Some (w, Run pre a b (Finish (fst (den (Finish out) P A pre a b))))"
    by simp
  then show ?case
    using Finish.prems(3) by blast
next
  case (Act r k)
  let ?key = "call_key P pre a r"
  have "(?key, r) \<in> C"
    using Act.prems(2) by (simp add: Let_def)
  then obtain ps w1 where d: "drive P ps (w, Run pre a b (Act r k)) = Some (w1, Run pre (Suc a) b (k (A ?key r)))" "W w1"
    using steady_act[OF st _ Act.prems(3)] by blast
  have den: "settled (den (k (A ?key r)) P A pre (Suc a) b)" "set (calls_of (den (k (A ?key r)) P A pre (Suc a) b)) \<subseteq> C"
    "fst (den (Act r k) P A pre a b) = fst (den (k (A ?key r)) P A pre (Suc a) b)"
    using Act.prems by (simp_all add: Let_def)
  from Act.IH[OF rangeI den(1,2) d(2)] obtain qs w2 a' b' where
    "drive P qs (w1, Run pre (Suc a) b (k (A ?key r))) = Some (w2, Run pre a' b' (Finish (fst (den (k (A ?key r)) P A pre (Suc a) b))))" "W w2"
    by blast
  then show ?case
    using d den(3) by (intro exI[of _ "ps @ qs"]) (simp add: drive_append)
next
  case (Parallel ss ce k)
  let ?ms = "branch_meanings P A pre b ss" and ?rest = "\<lambda>out. den (k out) P A pre a (Suc b)"
  have nth: "?ms ! i = den (ss ! i) P A (branchPrefix pre b i) 0 0" if "i < length ss" for i
    using that unfolding branch_meanings_def by simp
  note jm = Parallel.prems(1,2)[unfolded den_Parallel]
  have br: "\<exists>ps w' a' b'. drive P ps (w, Run (branchPrefix pre b i) 0 0 (ss ! i)) =
      Some (w', Run (branchPrefix pre b i) a' b' (Finish (map fst ?ms ! i))) \<and> W w'" if i: "i < length ss" "W w" for i w
  proof -
    have "?ms ! i \<in> set ?ms"
      using i(1) by simp
    moreover have "(\<Union>m\<in>set ?ms. set (calls_of m)) \<subseteq> C"
      using jm(2) unfolding join_meaning_calls by simp
    ultimately have "set (calls_of (?ms ! i)) \<subseteq> C"
      by blast
    moreover have "settled (?ms ! i)"
      using join_settled[OF jm(1)] i(1) by simp
    ultimately have "settled (?ms ! i)" "set (calls_of (?ms ! i)) \<subseteq> C"
      by blast+
    then show ?thesis
      using Parallel.IH(1)[OF nth_mem[OF i(1)] _ _ i(2)] i(1) unfolding nth[OF i(1)] by (simp add: nth)
  qed
  obtain vs where vs: "all_values ce (map (\<lambda>m. Some (fst m)) ?ms) = Some vs"
    using jm(1) unfolding join_meaning_def by (cases "all_values ce (map (\<lambda>m. Some (fst m)) ?ms)") auto
  have "\<exists>ps w' cs. drive P ps (w, Join pre a (Suc b) ce (branches pre b ss) k) = Some (w', Join pre a (Suc b) ce cs k) \<and> W w' \<and>
      length cs = length ss \<and> (\<forall>i<length ss. finished (cs ! i) = Some (map fst ?ms ! i)) \<and>
      (\<forall>i. length ss \<le> i \<longrightarrow> i < length ss \<longrightarrow> cs ! i = Run (branchPrefix pre b i) 0 0 (ss ! i))"
    by (rule branches_end[OF br Parallel.prems(3) order.refl])
  then obtain ps w1 cs where d: "drive P ps (w, Join pre a (Suc b) ce (branches pre b ss) k) = Some (w1, Join pre a (Suc b) ce cs k)" "W w1"
    "length cs = length ss" "\<forall>i<length ss. finished (cs ! i) = Some (map fst ?ms ! i)"
    by blast
  have "map finished cs = map (\<lambda>m. Some (fst m)) ?ms"
    using d(3,4) by (intro nth_equalityI) simp_all
  then have adv: "drive P ([] # ps @ [[]]) (w, Run pre a b (Parallel ss ce k)) = Some (w1, Run pre a (Suc b) (k (Returned (JArr vs))))"
    using d(1) vs by (simp add: drive_append)
  have den: "settled (?rest (Returned (JArr vs)))" "set (calls_of (?rest (Returned (JArr vs)))) \<subseteq> C"
    "fst (den (Parallel ss ce k) P A pre a b) = fst (?rest (Returned (JArr vs)))"
    using jm vs unfolding den_Parallel join_meaning_calls by (simp_all add: join_meaning_def)
  from Parallel.IH(2)[OF rangeI den(1,2) d(2)] obtain qs w2 a' b' where
    "drive P qs (w1, Run pre a (Suc b) (k (Returned (JArr vs)))) = Some (w2, Run pre a' b' (Finish (fst (?rest (Returned (JArr vs))))))" "W w2"
    by blast
  then show ?case
    using adv den(3) drive_append[of P "[] # ps @ [[]]" qs] by (intro exI[of _ "([] # ps @ [[]]) @ qs"]) (simp del: append.simps)
qed

subsection \<open>A run and its resumption\<close>

lemma call_key_nonempty: "call_key P pre a r \<noteq> []"
  by (simp add: call_key_def computeActivityKey_def)

lemma placed_nonempty: "placed P xs a b key \<Longrightarrow> key \<noteq> []"
  by (erule placed.cases) (auto simp: call_key_nonempty)

abbreviation script_meaning :: "wf_params \<Rightarrow> answers \<Rightarrow> script \<Rightarrow> meaning" where
  "script_meaning P A s \<equiv> den s P A [] 0 0"

lemma script_key: "call \<in> set (calls_of (script_meaning P A s)) \<Longrightarrow> fst call \<noteq> []"
  using den_placed[of "fst call" "snd call" s P A "[]" 0 0] placed_nonempty by (simp add: pre_text_Nil)

lemma script_distinct: "distinct (map fst (calls_of (script_meaning P A s)))"
  using den_distinct[of s P A "[]" 0 0] by (simp add: pre_text_Nil)

lemma den_hash: "wp_hash P' = wp_hash P \<Longrightarrow> den s P' A pre a b = den s P A pre a b"
proof (induction s arbitrary: pre a b)
  case (Act r k)
  then show ?case
    by (simp add: Let_def call_key_def)
next
  case (Parallel ss ce k)
  then have "branch_meanings P' A pre b ss = branch_meanings P A pre b ss"
    by (intro nth_equalityI) (simp_all add: branch_meanings_def)
  then show ?case
    using Parallel unfolding den_Parallel by simp
qed simp

lemma recording_run:
  assumes uid: "\<And>n. wp_uid P n \<noteq> []" and ok: "settled (script_meaning P (live_outcome P) s)"
    and f: "\<forall>(key, r)\<in>set (calls_of (script_meaning P (live_outcome P) s)). fst (call_final P key r)"
  shows "\<exists>w c. run_script P None s schedule = (w, [c]) \<and> recording P (script_meaning P (live_outcome P) s) w c"
  unfolding run_script_def
proof (rule run_keeps)
  show "recording P (script_meaning P (live_outcome P) s) (new_world None) (Run [] 0 0 s)"
    using ok script_distinct by (simp add: recording_def new_world_def keyed_def)
next
  fix path w c w' c' orphans
  assume rec: "recording P (script_meaning P (live_outcome P) s) w c" and adv: "advance P path w c = Some (w', c', orphans)"
  have "answered_by P (live_outcome P) w c" "settled (fut c P (live_outcome P))"
    using rec unfolding recording_def answered_by_def cached_def Let_def by auto
  then obtain mv where "orphans = []" "moves P (live_outcome P) w c w' c' mv"
    using advance_moves[OF adv] by blast
  moreover have "fst call \<noteq> [] \<and> fst (call_final P (fst call) (snd call))" if "call \<in> set (calls_of (script_meaning P (live_outcome P) s))" for call
    using f that script_key[OF that] by auto
  ultimately show "orphans = [] \<and> recording P (script_meaning P (live_outcome P) s) w' c'"
    using recording_step[OF rec _ uid _ script_distinct] by blast
qed

definition answers_all :: "answers \<Rightarrow> (string, jrec) jsmap \<Rightarrow> (string \<times> call_req) set \<Rightarrow> bool" where
  "answers_all A J C \<longleftrightarrow> (\<forall>(key, r)\<in>C. \<exists>rec. map_of J key = Some rec \<and> jr_success rec \<and> replayed r rec = A key r)"

lemma recording_answers:
  assumes "recording P m w c" "finished c = Some out"
  shows "answers_all (record_outcome P) (fst (loadJournal (map Some (w_lines w)))) (set (calls_of m))" "out = fst m"
proof -
  have k: "keyed (w_lines w)" and all: "\<forall>call\<in>set (calls_of m). answers_with (record_outcome P) (w_lines w) call" and "fst m = out"
    using assms(1) finished_fut[OF assms(2), of P "live_outcome P"] unfolding recording_def Let_def by simp_all
  then show "out = fst m"
    by simp
  show "answers_all (record_outcome P) (fst (loadJournal (map Some (w_lines w)))) (set (calls_of m))"
    using all unfolding answers_all_def answers_with_def loadJournal_last_end[OF k] by (fastforce split: option.splits)
qed

definition silent_world :: "(string, jrec) jsmap \<Rightarrow> world \<Rightarrow> bool" where
  "silent_world J w \<longleftrightarrow> w_replay w = Some J \<and> \<not> w_diverged w \<and> w_live w = []"

lemma silent_hit:
  assumes "answers_all A J C" "(key, r) \<in> C" "silent_world J w"
  shows "\<exists>w1 i. begin_call P key r w = (w1, Some (A key r), i) \<and> silent_world J w1"
proof -
  obtain rec where "map_of J key = Some rec" "jr_success rec" "replayed r rec = A key r"
    using assms(1,2) unfolding answers_all_def by blast
  then show ?thesis
    using assms(3) by (simp add: begin_call_def cached_def silent_world_def Let_def add_lines_def)
qed

lemma silent_steady: "answers_all A J C \<Longrightarrow> steady P A C (silent_world J)"
  unfolding steady_def using silent_hit[of A J C _ _ _ P] by fastforce

definition replaying :: "wf_params \<Rightarrow> answers \<Rightarrow> meaning \<Rightarrow> (string, jrec) jsmap \<Rightarrow> world \<Rightarrow> conf \<Rightarrow> bool" where
  "replaying P A m J w c \<longleftrightarrow>
     silent_world J w \<and> no_await c \<and> settled (fut c P A) \<and> fst (fut c P A) = fst m \<and> set (calls_of (fut c P A)) \<subseteq> set (calls_of m)"

lemma moves_subset: "moves P A w c w' c' mv \<Longrightarrow> set (calls_of (fut c' P A)) \<subseteq> set (calls_of (fut c P A))"
  unfolding moves_def by (metis mset_subset_eq_add_left set_mset_mono set_mset_mset)

lemma replaying_step:
  assumes J: "answers_all A J (set (calls_of m))" and rep: "replaying P A m J w c" and adv: "advance P path w c = Some (w', c', orphans)"
  shows "orphans = [] \<and> replaying P A m J w' c'"
proof -
  have sub: "set (calls_of (fut c P A)) \<subseteq> set (calls_of m)" and sw: "silent_world J w" and na: "no_await c"
    using rep unfolding replaying_def by simp_all
  have "answered_by P A w c"
    unfolding answered_by_def using J sub sw na unfolding answers_all_def silent_world_def cached_def by fastforce
  then obtain mv where o: "orphans = []" and mv: "moves P A w c w' c' mv"
    using advance_moves[OF adv] rep unfolding replaying_def by blast
  have ab: "about mv \<subseteq> set (calls_of m)" and eff: "effect P w mv w'" and no: "\<forall>key r i. mv \<noteq> Reply key r i"
    "no_await c' \<or> (\<exists>key r i. mv = Dispatch key r i)"
    using mv sub na unfolding moves_def by blast+
  have hit: "\<exists>w1 i. begin_call P key r w = (w1, Some (A key r), i) \<and> silent_world J w1" if "(key, r) \<in> about mv" for key r
    using silent_hit[OF J _ sw] that ab by blast
  have "silent_world J w' \<and> no_await c'"
    using hit eff no sw by (cases mv) auto
  then show ?thesis
    using o mv rep moves_subset[OF mv] unfolding replaying_def moves_def by auto
qed

text \<open>Answers that agree on the calls a script makes give it one meaning.\<close>

lemma den_cong:
  "\<forall>(key, r)\<in>set (calls_of (den s P A pre a b)). B key r = A key r \<Longrightarrow> den s P B pre a b = den s P A pre a b"
proof (induction s arbitrary: pre a b)
  case (Act r k)
  let ?key = "call_key P pre a r"
  have "B ?key r = A ?key r" "\<forall>(key, r)\<in>set (calls_of (den (k (A ?key r)) P A pre (Suc a) b)). B key r = A key r"
    using Act.prems by (auto simp: Let_def)
  then show ?case
    using Act.IH[of "k (A ?key r)" pre "Suc a" b] by (simp add: Let_def)
next
  case (Parallel ss ce k)
  let ?ms = "branch_meanings P A pre b ss"
  note calls = Parallel.prems[unfolded den_Parallel]
  have "\<forall>m\<in>set ?ms. set (calls_of m) \<subseteq> set (calls_of (join_meaning ce ?ms (\<lambda>out. den (k out) P A pre a (Suc b))))"
    by (auto simp: join_meaning_def split: option.split)
  then have all: "\<forall>m\<in>set ?ms. \<forall>(key, r)\<in>set (calls_of m). B key r = A key r"
    using calls by blast
  have each: "\<forall>(key, r)\<in>set (calls_of (?ms ! i)). B key r = A key r" if "i < length ss" for i
    by (rule bspec[OF all nth_mem]) (use that in simp)
  have nth: "branch_meanings P X pre b ss ! i = den (ss ! i) P X (branchPrefix pre b i) 0 0" if "i < length ss" for i X
    using that by (simp add: branch_meanings_def)
  have "branch_meanings P B pre b ss = ?ms"
    using Parallel.IH(1)[OF nth_mem] each by (intro nth_equalityI) (simp_all add: nth)
  moreover have "den (k (Returned (JArr vs))) P B pre a (Suc b) = den (k (Returned (JArr vs))) P A pre a (Suc b)"
    if "all_values ce (map (\<lambda>m. Some (fst m)) ?ms) = Some vs" for vs
    using calls that by (intro Parallel.IH(2)) (auto simp: join_meaning_def)
  ultimately show ?case
    unfolding den_Parallel by (auto simp: join_meaning_def split: option.split)
qed simp

lemma faithful_meaning:
  assumes "\<And>n. wp_uid P n \<noteq> []" "\<forall>(key, r)\<in>set (calls_of (script_meaning P (live_outcome P) s)). faithful P key r"
  shows "script_meaning P (record_outcome P) s = script_meaning P (live_outcome P) s"
  using assms(2) unfolding faithful_def
  by (intro den_cong) (fastforce simp: record_outcome_def live_outcome_final[OF assms(1)] split: prod.splits)

text \<open>
  Property C7. A run of a script that recorded a journal and came to its end, all of whose calls succeeded and none of whose branches
  made a \<^verbatim>\<open>parallel()\<close> throw, ended with the outcome the script has with the live answers. It is resumed from its journal under
  every other schedule and against every fleet. Provided that the script, given for each call what the record of the call replays
  to, makes only calls that were recorded and no \<^verbatim>\<open>parallel()\<close> of it throws, no call is dispatched again, the replay never
  diverges, whatever thread ends ends with the outcome the script has with the replayed answers, and there is a schedule under
  which it ends. If every record replays to the answer of its live call, the proviso holds and this outcome is the one of the
  first run.
\<close>

theorem resume_of_complete_run:
  assumes "\<And>n. wp_uid P n \<noteq> []" "settled (script_meaning P (live_outcome P) s)"
    and "\<forall>(key, r)\<in>set (calls_of (script_meaning P (live_outcome P) s)). fst (call_final P key r)"
    and "run_script P None s schedule = (w, [c])" "finished c = Some out" "wp_hash P' = wp_hash P"
  shows "out = fst (script_meaning P (live_outcome P) s) \<and>
    (settled (script_meaning P (record_outcome P) s) \<and>
       set (calls_of (script_meaning P (record_outcome P) s)) \<subseteq> set (calls_of (script_meaning P (live_outcome P) s)) \<longrightarrow>
       (\<exists>w' c'. run_script P' (Some (fst (loadJournal (map Some (w_lines w))))) s schedule' = (w', [c']) \<and>
          w_live w' = [] \<and> \<not> w_diverged w' \<and> (finished c' = None \<or> finished c' = Some (fst (script_meaning P (record_outcome P) s)))) \<and>
       (\<exists>schedule2 w' a b. run_script P' (Some (fst (loadJournal (map Some (w_lines w))))) s schedule2 =
          (w', [Run [] a b (Finish (fst (script_meaning P (record_outcome P) s)))]))) \<and>
    ((\<forall>(key, r)\<in>set (calls_of (script_meaning P (live_outcome P) s)). faithful P key r) \<longrightarrow>
       script_meaning P (record_outcome P) s = script_meaning P (live_outcome P) s)"
proof (intro conjI impI)
  let ?A = "record_outcome P" and ?J = "fst (loadJournal (map Some (w_lines w)))" and ?m = "script_meaning P (record_outcome P) s"
  have J: "answers_all ?A ?J (set (calls_of (script_meaning P (live_outcome P) s)))" and out: "out = fst (script_meaning P (live_outcome P) s)"
    using recording_run[OF assms(1,2,3), of schedule] recording_answers[OF _ assms(5), of P _ w] assms(4) by auto
  show "out = fst (script_meaning P (live_outcome P) s)"
    by (rule out)
  show "script_meaning P (record_outcome P) s = script_meaning P (live_outcome P) s"
    if "\<forall>(key, r)\<in>set (calls_of (script_meaning P (live_outcome P) s)). faithful P key r"
    by (rule faithful_meaning[OF assms(1) that])
  assume "settled ?m \<and> set (calls_of ?m) \<subseteq> set (calls_of (script_meaning P (live_outcome P) s))"
  then have ok: "settled ?m" and J': "answers_all ?A ?J (set (calls_of ?m))"
    using J unfolding answers_all_def by blast+
  have m: "den s P' ?A [] 0 0 = ?m"
    by (rule den_hash[OF assms(6)])
  have sw: "silent_world ?J (new_world (Some ?J))"
    by (simp add: silent_world_def new_world_def)
  have "\<exists>w' c. run_script P' (Some ?J) s schedule' = (w', [c]) \<and> replaying P' ?A ?m ?J w' c"
    unfolding run_script_def
    by (rule run_keeps[OF _ replaying_step[OF J']]) (use ok m sw in \<open>simp_all add: replaying_def\<close>)
  then show "\<exists>w' c'. run_script P' (Some ?J) s schedule' = (w', [c']) \<and> w_live w' = [] \<and> \<not> w_diverged w' \<and>
      (finished c' = None \<or> finished c' = Some (fst ?m))"
    using finished_fut[of _ _ P' ?A] unfolding replaying_def silent_world_def by (metis fst_conv option.exhaust)
  show "\<exists>schedule2 w' a b. run_script P' (Some ?J) s schedule2 = (w', [Run [] a b (Finish (fst ?m))])"
    using script_ends[OF silent_steady[OF J'], of s P' "[]" 0 0 "new_world (Some ?J)"] drive_run[of P' _ "new_world (Some ?J)" "Run [] 0 0 s"]
      ok sw unfolding m run_script_def by blast
qed

subsection \<open>Crashes\<close>

text \<open>The records of a journal file that parse.\<close>

definition present :: "jrec option list \<Rightarrow> jrec list" where
  "present lines = List.map_filter (\<lambda>line. line) lines"

lemma present_simps [simp]:
  "present [] = []" "present (xs @ ys) = present xs @ present ys" "present (map Some recs) = recs" "present [None] = []" "present [Some rec] = [rec]"
  by (simp_all add: present_def List.map_filter_def comp_def)

lemma load_present: "fold load_line (map Some (present lines)) ld = fold load_line lines ld"
proof (induction lines arbitrary: ld rule: rev_induct)
  case (snoc line lines)
  then show ?case
    by (cases line) (simp_all add: load_line_def[of None])
qed simp

lemma loadJournal_present: "loadJournal (map Some (present lines)) = loadJournal lines"
  unfolding loadJournal_def load_present ..

text \<open>Every successful end record gives back the answer of its call.\<close>

definition sound :: "answers \<Rightarrow> (string \<times> call_req) set \<Rightarrow> jrec list \<Rightarrow> bool" where
  "sound A C recs \<longleftrightarrow>
     (\<forall>rec\<in>set recs. jr_event rec = ActivityEnd \<longrightarrow> jr_success rec \<longrightarrow>
        (\<forall>r. (jr_replayKey rec, r) \<in> C \<longrightarrow> replayed r rec = A (jr_replayKey rec) r))"

lemma sound_simps [simp]:
  "sound A C []" "sound A C (xs @ ys) \<longleftrightarrow> sound A C xs \<and> sound A C ys" "sound A C (start_rec i key fs rep # recs) \<longleftrightarrow> sound A C recs"
  by (auto simp: sound_def)

lemma last_end_in: "last_end recs key = Some rec \<Longrightarrow> rec \<in> set recs \<and> jr_event rec = ActivityEnd \<and> jr_replayKey rec = key"
  by (induction recs rule: rev_induct) (auto split: if_splits)

definition consistent :: "answers \<Rightarrow> (string, jrec) jsmap option \<Rightarrow> (string \<times> call_req) set \<Rightarrow> bool" where
  "consistent A journal C \<longleftrightarrow>
     (\<forall>J key r rec. journal = Some J \<longrightarrow> (key, r) \<in> C \<longrightarrow> map_of J key = Some rec \<longrightarrow> jr_success rec \<longrightarrow> replayed r rec = A key r)"

lemma sound_consistent:
  assumes "sound A C (present lines)" "keyed (present lines)"
  shows "consistent A (Some (fst (loadJournal lines))) C"
proof -
  have "map_of (fst (loadJournal lines)) key = last_end (present lines) key" for key
    using loadJournal_last_end[OF assms(2)] unfolding loadJournal_present .
  then show ?thesis
    using assms(1) last_end_in unfolding consistent_def sound_def by force
qed

text \<open>A fleet that gives the answers \<open>A\<close>, with records that give them back.\<close>

definition agrees :: "wf_params \<Rightarrow> answers \<Rightarrow> (string \<times> call_req) set \<Rightarrow> bool" where
  "agrees P A C \<longleftrightarrow>
     (\<forall>n. wp_uid P n \<noteq> []) \<and> (\<forall>(key, r)\<in>C. live_outcome P key r = A key r \<and> (fst (call_final P key r) \<longrightarrow> faithful P key r))"

definition writes_sound :: "answers \<Rightarrow> (string \<times> call_req) set \<Rightarrow> world \<Rightarrow> bool" where
  "writes_sound A C w \<longleftrightarrow> keyed (w_lines w) \<and> sound A C (w_lines w) \<and> consistent A (w_replay w) C"

lemma leaves_sound:
  assumes lv: "leaves key (call_failSoft r) (call_final P key r) w res" and ag: "agrees P A C" "(key, r) \<in> C"
    and inj: "\<And>q. (key, q) \<in> C \<Longrightarrow> q = r" and key: "key \<noteq> []" and w: "writes_sound A C w"
  shows "writes_sound A C (fst res)"
proof -
  let ?fin = "call_final P key r"
  obtain recs i where l: "w_lines (fst res) = w_lines w @ recs @ [end_rec i key (call_failSoft r) (fst ?fin) (fst (snd ?fin)) False]"
    "call_lines key recs" "\<forall>rec\<in>set recs. \<not> jr_success rec" "i \<noteq> []"
    using lv unfolding leaves_def by auto
  have fin: "snd (snd ?fin) = A key r"
    using ag live_outcome_final[of P key r] unfolding agrees_def by auto
  have "replayed r (end_rec i key (call_failSoft r) (fst ?fin) (fst (snd ?fin)) False) = A key r" if "fst ?fin"
    using ag that fin replayed_id[of r i key "call_failSoft r" "fst ?fin" "fst (snd ?fin)" False "[]" key False]
    unfolding agrees_def faithful_def by (auto simp: case_prod_unfold)
  then have "sound A C [end_rec i key (call_failSoft r) (fst ?fin) (fst (snd ?fin)) False]"
    using inj by (auto simp: sound_def)
  moreover have "sound A C recs"
    using l(3) unfolding sound_def by blast
  moreover have "keyed (recs @ [end_rec i key (call_failSoft r) (fst ?fin) (fst (snd ?fin)) False])"
    using l(2,4) key by (auto simp: keyed_def call_lines_def)
  ultimately show ?thesis
    using w lv l(1) unfolding writes_sound_def leaves_def by (auto simp: keyed_def)
qed

lemma begin_sound:
  assumes b: "begin_call P key r w = (w', out, i)" and ag: "agrees P A C" "(key, r) \<in> C"
    and inj: "\<And>q. (key, q) \<in> C \<Longrightarrow> q = r" and key: "key \<noteq> []" and w: "writes_sound A C w"
  shows "writes_sound A C w'"
proof (cases out)
  case None
  have "i \<noteq> []"
    using begin_id[OF b] ag(1) by (simp add: agrees_def)
  then show ?thesis
    using begin_call_live[OF b[unfolded None]] w key unfolding writes_sound_def by (simp add: keyed_def)
next
  case (Some v)
  then obtain rec where rec: "cached w key = Some rec" "v = replayed r rec"
    using begin_hit[of P key r w w' v i] b by auto
  let ?fs = "rq_type r = CommandCall \<and> jr_failSoft rec"
  have i: "i \<noteq> []"
    using begin_id[OF b] ag(1) by (simp add: agrees_def)
  have l: "w_lines w' = w_lines w @ [start_rec i key ?fs True] @ [end_rec i key ?fs True (jr_output rec) True]" "w_replay w' = w_replay w"
    using b rec(1) Some unfolding begin_call_def by (auto simp: Let_def add_lines_def split: if_splits)
  have "replayed r (end_rec i key ?fs True (jr_output rec) True) = replayed r rec"
    unfolding replayed_def by (cases "rq_type r") (auto split: option.split recorded.split)
  moreover have "replayed r rec = A key r"
    using w rec(1) ag(2) unfolding writes_sound_def consistent_def cached_def by (auto split: option.splits if_splits)
  ultimately have "sound A C [end_rec i key ?fs True (jr_output rec) True]"
    using inj by (auto simp: sound_def)
  then show ?thesis
    using l w i key unfolding writes_sound_def by (simp add: keyed_def)
qed

definition resuming :: "wf_params \<Rightarrow> answers \<Rightarrow> meaning \<Rightarrow> world \<Rightarrow> conf \<Rightarrow> bool" where
  "resuming P A m w c \<longleftrightarrow>
     writes_sound A (set (calls_of m)) w \<and> await_ids c \<and> settled (fut c P A) \<and> fst (fut c P A) = fst m \<and>
     set (calls_of (fut c P A)) \<subseteq> set (calls_of m)"

lemma resuming_step:
  assumes ag: "agrees P A (set (calls_of m))" and key: "\<And>call. call \<in> set (calls_of m) \<Longrightarrow> fst call \<noteq> []"
    and dist: "distinct (map fst (calls_of m))"
    and res: "resuming P A m w c" and adv: "advance P path w c = Some (w', c', orphans)"
  shows "orphans = [] \<and> resuming P A m w' c'"
proof -
  have w: "writes_sound A (set (calls_of m)) w" and sub: "set (calls_of (fut c P A)) \<subseteq> set (calls_of m)"
    using res unfolding resuming_def by simp_all
  have "answered_by P A w c"
    unfolding answered_by_def using ag sub w unfolding agrees_def writes_sound_def consistent_def cached_def
    by (fastforce split: option.splits if_splits)
  then obtain mv where o: "orphans = []" and mv: "moves P A w c w' c' mv"
    using advance_moves[OF adv] res unfolding resuming_def by blast
  have ab: "about mv \<subseteq> set (calls_of m)" and eff: "effect P w mv w'" and ids: "await_ids c'" "\<forall>key r i. mv = Reply key r i \<longrightarrow> i \<noteq> []"
    using mv sub res ag unfolding moves_def resuming_def agrees_def by blast+
  have inj: "q = r" if "(k, r) \<in> set (calls_of m)" "(k, q) \<in> set (calls_of m)" for k r q
    using dist that by (metis eq_key_imp_eq_value)
  have "writes_sound A (set (calls_of m)) w'"
  proof (cases mv)
    case Silent
    then show ?thesis
      using eff w by simp
  next
    case (Hit k r)
    then show ?thesis
      using eff ab begin_sound[OF _ ag _ inj _ w, of k r] key[of "(k, r)"] by auto
  next
    case (Dispatch k r i)
    then show ?thesis
      using eff ab begin_sound[OF _ ag _ inj _ w, of k r] key[of "(k, r)"] by auto
  next
    case (Reply k r i)
    then have "leaves k (call_failSoft r) (call_final P k r) w (finish_call P k i r w)"
      using finish_call_leaves[of P i k r w] ids ag unfolding agrees_def by blast
    from leaves_sound[OF this ag _ inj _ w] show ?thesis
      using Reply ab eff key[of "(k, r)"] by auto
  qed
  then show ?thesis
    using o mv res moves_subset[OF mv] ids unfolding resuming_def moves_def by auto
qed

lemma resuming_run:
  assumes "agrees P A (set (calls_of (script_meaning P A s)))" "settled (script_meaning P A s)" "consistent A journal (set (calls_of (script_meaning P A s)))"
  shows "\<exists>w c. run_script P journal s schedule = (w, [c]) \<and> resuming P A (script_meaning P A s) w c"
  unfolding run_script_def
proof (rule run_keeps)
  show "resuming P A (script_meaning P A s) (new_world journal) (Run [] 0 0 s)"
    using assms by (simp add: resuming_def writes_sound_def new_world_def keyed_def)
next
  fix path w c w' c' orphans
  assume "resuming P A (script_meaning P A s) w c" "advance P path w c = Some (w', c', orphans)"
  then show "orphans = [] \<and> resuming P A (script_meaning P A s) w' c'"
    using resuming_step[OF assms(1) script_key[of _ s P A] script_distinct] by blast
qed

text \<open>
  The file of a journal over any number of crashes: each run appends some of its records, the last line may be torn, and the next
  run resumes from what the file has.
\<close>

inductive journal_file :: "wf_params \<Rightarrow> answers \<Rightarrow> script \<Rightarrow> jrec option list \<Rightarrow> bool" for P A s where
  new: "journal_file P A s []"
| crash: "journal_file P A s (lines @ map Some (take n (w_lines (fst (run_script P' journal s schedule)))) @ torn)"
  if "journal_file P A s lines" "wp_hash P' = wp_hash P" "agrees P' A (set (calls_of (script_meaning P A s)))"
    "journal = None \<or> journal = Some (fst (loadJournal lines))" "torn = [] \<or> torn = [None]"

lemma sound_take: "sound A C recs \<Longrightarrow> sound A C (take n recs)"
  unfolding sound_def by (blast dest: in_set_takeD)

lemma keyed_take: "keyed recs \<Longrightarrow> keyed (take n recs)"
  unfolding keyed_def by (blast dest: in_set_takeD)

lemma journal_file_sound:
  assumes "journal_file P A s lines" "settled (script_meaning P A s)"
  shows "sound A (set (calls_of (script_meaning P A s))) (present lines) \<and> keyed (present lines)"
  using assms(1)
proof induction
  case new
  show ?case
    by (simp add: keyed_def)
next
  case (crash lines P' journal torn n schedule)
  let ?m = "script_meaning P A s" and ?w = "fst (run_script P' journal s schedule)"
  have m: "den s P' A [] 0 0 = ?m"
    by (rule den_hash[OF crash.hyps(2)])
  have "consistent A journal (set (calls_of ?m))"
    using crash.hyps(4) crash.IH sound_consistent by (auto simp: consistent_def)
  then obtain c where "resuming P' A ?m ?w c"
    using resuming_run[of P' A s journal schedule] crash.hyps(3) assms(2) unfolding m by auto
  then have "sound A (set (calls_of ?m)) (take n (w_lines ?w))" "keyed (take n (w_lines ?w))"
    using sound_take keyed_take unfolding resuming_def writes_sound_def by blast+
  then show ?case
    using crash.IH crash.hyps(5) by (auto simp: keyed_def)
qed

lemma resuming_steady:
  assumes ag: "agrees P A (set (calls_of (script_meaning P A s)))"
  shows "steady P A (set (calls_of (script_meaning P A s))) (writes_sound A (set (calls_of (script_meaning P A s))))"
  unfolding steady_def
proof (intro allI impI)
  fix key r w
  let ?C = "set (calls_of (script_meaning P A s))"
  assume k: "(key, r) \<in> ?C" and w: "writes_sound A ?C w"
  have inj: "q = r" if "(key, q) \<in> ?C" for q
    using script_distinct k that by (metis eq_key_imp_eq_value)
  have ne: "key \<noteq> []"
    using script_key[OF k] by simp
  obtain w1 o1 i where b: "begin_call P key r w = (w1, o1, i)"
    using prod_cases3 by blast
  have w1: "writes_sound A ?C w1"
    by (rule begin_sound[OF b ag k inj ne w])
  have "i \<noteq> []"
    using begin_id[OF b] ag by (simp add: agrees_def)
  then have fin: "writes_sound A ?C (fst (finish_call P key i r w1))"
    using leaves_sound[OF finish_call_leaves ag k inj ne w1] ag unfolding agrees_def by blast
  have "out = A key r" if "o1 = Some out" for out
    using begin_hit[of P key r w w1 out i] b that w k unfolding writes_sound_def consistent_def cached_def
    by (auto split: option.splits if_splits)
  then show "case begin_call P key r w of (w1, Some out, i) \<Rightarrow> writes_sound A ?C w1 \<and> out = A key r
      | (w1, None, i) \<Rightarrow> writes_sound A ?C w1 \<and> writes_sound A ?C (fst (finish_call P key i r w1)) \<and> live_outcome P key r = A key r"
    using w1 fin ag k unfolding b agrees_def by (cases o1) auto
qed

text \<open>
  Property C6. Let the fleets of all runs give the script's calls the same answers, let every record of a successful call replay to that
  answer (what this asks of a command is property C25's condition), and let no \<^verbatim>\<open>parallel()\<close> of the script throw. Whatever crashes
  came before, and whatever they left of the journal, a run resumed from it then has one thread at all times, can only end with
  the outcome the script has with these answers, and ends so under some schedule.
\<close>

theorem resume_after_crashes:
  assumes "journal_file P A s lines" "settled (script_meaning P A s)" "agrees P A (set (calls_of (script_meaning P A s)))"
  shows "(\<exists>w c. run_script P (Some (fst (loadJournal lines))) s schedule = (w, [c]) \<and>
            (finished c = None \<or> finished c = Some (fst (script_meaning P A s)))) \<and>
         (\<exists>schedule' w a b. run_script P (Some (fst (loadJournal lines))) s schedule' = (w, [Run [] a b (Finish (fst (script_meaning P A s)))]))"
proof
  let ?J = "Some (fst (loadJournal lines))" and ?m = "script_meaning P A s"
  have con: "consistent A ?J (set (calls_of ?m))"
    using journal_file_sound[OF assms(1,2)] sound_consistent by blast
  show "\<exists>w c. run_script P ?J s schedule = (w, [c]) \<and> (finished c = None \<or> finished c = Some (fst ?m))"
    using resuming_run[OF assms(3,2) con] finished_fut[of _ _ P A] unfolding resuming_def by (metis fst_conv option.exhaust)
  have "writes_sound A (set (calls_of ?m)) (new_world ?J)"
    using con by (simp add: writes_sound_def new_world_def keyed_def)
  then show "\<exists>schedule' w a b. run_script P ?J s schedule' = (w, [Run [] a b (Finish (fst ?m))])"
    using script_ends[OF resuming_steady[OF assms(3)] assms(2) subset_refl] drive_run[of P _ "new_world ?J" "Run [] 0 0 s"]
    unfolding run_script_def by blast
qed

subsection \<open>When a record gives back the answer\<close>

text \<open>
  Property C25. The record of a successful command gives back what the live call returned only if the reply had no separate
  standard output, or one equal to its display text: the record keeps the display text, the caller got the standard output.
\<close>

theorem command_record_faithful:
  assumes "rq_type r = CommandCall" "wp_fleet P key 0 = CommandReply cr" "fst (call_final P key r)"
  shows "faithful P key r \<longleftrightarrow> cr_stdout cr = None \<or> cr_stdout cr = Some (cr_text cr)"
proof -
  have "call_final P key r = (True, Some (RText (cr_text cr)), shaped (rq_failSoft r) (case cr_stdout cr of Some t \<Rightarrow> t | None \<Rightarrow> cr_text cr))"
    using assms unfolding call_final_def command_result_def by (auto simp: Let_def split: if_splits option.splits)
  then show ?thesis
    using assms(1) unfolding faithful_def replayed_def call_failSoft_def shaped_def by (auto split: option.splits)
qed

text \<open>The record of a successful agent call with a schema gives back the answer, if the value read from it survives being written as JSON.\<close>

lemma agent_final_schema:
  assumes "rq_schema r"
  shows "fst (agent_final P key r n m) \<Longrightarrow> \<exists>t v. wp_extract P r t = Some v \<and> agent_final P key r n m = (True, Some (RJson v), Returned v)"
proof (induction m arbitrary: n)
  case 0
  then show ?case
    using assms by (auto simp: agent_final.simps[of P key r n] agent_attempt_def Let_def split: fleet_reply.splits option.splits if_splits)
next
  case (Suc m)
  then show ?case
    using assms by (auto simp: agent_final.simps[of P key r n] agent_attempt_def Let_def split: fleet_reply.splits option.splits if_splits)
qed

theorem schema_record_faithful:
  assumes "rq_type r = AgentCall" "rq_schema r" "fst (call_final P key r)" "\<forall>t v. wp_extract P r t = Some v \<longrightarrow> json_value v = v"
  shows "faithful P key r"
proof -
  obtain t v where "wp_extract P r t = Some v" "call_final P key r = (True, Some (RJson v), Returned v)"
    using agent_final_schema[OF assms(2)] assms(1-3) by (fastforce simp: call_final_def)
  then show ?thesis
    using assms by (simp add: faithful_def replayed_def)
qed

subsection \<open>A parallel run resumed after a crash\<close>

definition echo_req :: "string \<Rightarrow> call_req" where
  "echo_req text = \<lparr>rq_type = CommandCall, rq_member = ''m'', rq_text = text, rq_schema = False, rq_failSoft = False, rq_schemaRetries = 0\<rparr>"

definition echo_fleet :: wf_params where
  "echo_fleet = \<lparr>wp_hash = (\<lambda>text. text), wp_uid = (\<lambda>n. ''u'' @ show_nat n),
     wp_fleet = (\<lambda>key n. CommandReply \<lparr>cr_text = key, cr_stdout = Some key, cr_exit = Some 0, cr_failure = None\<rparr>),
     wp_unwrap = (\<lambda>text. text), wp_extract = (\<lambda>r text. None)\<rparr>"

definition two_branches :: script where
  "two_branches = Parallel [Act (echo_req ''a'') Finish, Act (echo_req ''b'') Finish] False Finish"

text \<open>
  In a parallel region the calls that had completed before a crash are not all answered from the journal: the branch
  whose call had not completed ends the replay for its siblings, so a call with a successful record is dispatched again if its
  branch moves later.
\<close>

theorem parallel_replay_dispatches_again:
  "\<exists>P s crashed schedule key r rec.
     (let w1 = fst (run_script P None s crashed);
          J = fst (loadJournal (map Some (w_lines w1)));
          w2 = fst (run_script P (Some J) s schedule)
      in map_of J key = Some rec \<and> jr_success rec \<and> replayed r rec = live_outcome P key r \<and> (key, r) \<in> set (w_live w2))"
proof -
  let ?crashed = "[(0, []), (0, [1]), (0, [1])]" and ?schedule = "[(0, []), (0, [0]), (0, [1])]"
  let ?w1 = "fst (run_script echo_fleet None two_branches ?crashed)"
  let ?J = "fst (loadJournal (map Some (w_lines ?w1)))"
  let ?w2 = "fst (run_script echo_fleet (Some ?J) two_branches ?schedule)"
  let ?key = "''0:1:0:command:m:b''" and ?r = "echo_req ''b''"
  have "map_of ?J ?key = Some (end_rec ''u0'' ?key False True (Some (RText ?key)) False)"
    by code_simp
  moreover have "replayed ?r (end_rec ''u0'' ?key False True (Some (RText ?key)) False) = live_outcome echo_fleet ?key ?r"
    by code_simp
  moreover have "(?key, ?r) \<in> set (w_live ?w2)"
    by code_simp
  ultimately show ?thesis
    unfolding Let_def by (metis rec_simps(8))
qed

subsection \<open>Instances\<close>

lemma echo_uid: "wp_uid echo_fleet n \<noteq> []"
  by (simp add: echo_fleet_def)

lemma echo_settled: "settled (script_meaning echo_fleet (live_outcome echo_fleet) two_branches)"
  by code_simp

lemma echo_faithful: "\<forall>(key, r)\<in>set (calls_of (script_meaning echo_fleet (live_outcome echo_fleet) two_branches)). faithful echo_fleet key r"
  by code_simp

lemma echo_agrees: "agrees echo_fleet (live_outcome echo_fleet) (set (calls_of (script_meaning echo_fleet (live_outcome echo_fleet) two_branches)))"
  using echo_faithful echo_uid unfolding agrees_def by auto

text \<open>The fleet server of this repository puts the exit code before the output in the display text.\<close>

definition shell_fleet :: wf_params where
  "shell_fleet = echo_fleet\<lparr>wp_fleet := (\<lambda>key n. CommandReply \<lparr>cr_text = ''Exit code: 0'', cr_stdout = Some ''ok'', cr_exit = Some 0, cr_failure = None\<rparr>)\<rparr>"

definition shell_first :: "world \<times> conf list" where
  "shell_first = run_script shell_fleet None two_branches [(0, []), (0, [0]), (0, [1]), (0, [1]), (0, [0]), (0, [])]"

lemma singleton_list: "length xs = Suc 0 \<Longrightarrow> xs = [hd xs]"
  by (cases xs) auto

lemma shell_first_ends:
  "run_script shell_fleet None two_branches [(0, []), (0, [0]), (0, [1]), (0, [1]), (0, [0]), (0, [])] = (fst shell_first, [hd (snd shell_first)])"
  "finished (hd (snd shell_first)) = Some (Returned (JArr [JStr ''ok'', JStr ''ok'']))"
proof -
  have "length (snd shell_first) = Suc 0"
    by code_simp
  then show "run_script shell_fleet None two_branches [(0, []), (0, [0]), (0, [1]), (0, [1]), (0, [0]), (0, [])] = (fst shell_first, [hd (snd shell_first)])"
    using singleton_list[of "snd shell_first"] unfolding shell_first_def[symmetric] by (simp add: prod_eq_iff)
  show "finished (hd (snd shell_first)) = Some (Returned (JArr [JStr ''ok'', JStr ''ok'']))"
    by code_simp
qed

text \<open>With such a fleet the resumed run dispatches nothing, and ends with the display texts instead of the outputs.\<close>

theorem resume_of_complete_run_witness:
  "(\<exists>w' c'. run_script echo_fleet (Some (fst (loadJournal (map Some (w_lines (fst shell_first)))))) two_branches [(0, []), (0, [1])] = (w', [c']) \<and>
     w_live w' = [] \<and> \<not> w_diverged w') \<and>
   (\<exists>schedule w' a b. run_script echo_fleet (Some (fst (loadJournal (map Some (w_lines (fst shell_first)))))) two_branches schedule =
     (w', [Run [] a b (Finish (Returned (JArr [JStr ''Exit code: 0'', JStr ''Exit code: 0''])))]))"
proof -
  have uid: "wp_uid shell_fleet n \<noteq> []" for n
    by (simp add: shell_fleet_def echo_fleet_def)
  have hash: "wp_hash echo_fleet = wp_hash shell_fleet"
    by (simp add: shell_fleet_def)
  have live: "settled (script_meaning shell_fleet (live_outcome shell_fleet) two_branches)"
    "\<forall>(key, r)\<in>set (calls_of (script_meaning shell_fleet (live_outcome shell_fleet) two_branches)). fst (call_final shell_fleet key r)"
    by code_simp+
  have rec: "settled (script_meaning shell_fleet (record_outcome shell_fleet) two_branches)"
    "fst (script_meaning shell_fleet (record_outcome shell_fleet) two_branches) = Returned (JArr [JStr ''Exit code: 0'', JStr ''Exit code: 0''])"
    "set (calls_of (script_meaning shell_fleet (record_outcome shell_fleet) two_branches))
       \<subseteq> set (calls_of (script_meaning shell_fleet (live_outcome shell_fleet) two_branches))"
    by code_simp+
  show ?thesis
    using resume_of_complete_run[OF uid live shell_first_ends hash, of "[(0, []), (0, [1])]"] rec by auto
qed

text \<open>A journal file left by two crashes, the first one with a torn line.\<close>

definition echo_journal :: "nat \<Rightarrow> jrec option list" where
  "echo_journal n =
     (let lines = map Some (take n (w_lines (fst (run_script echo_fleet None two_branches [(0, []), (0, [1]), (0, [1]), (0, [0])])))) @ [None]
      in lines @ map Some (take n (w_lines (fst (run_script echo_fleet (Some (fst (loadJournal lines))) two_branches [(0, []), (0, [0])])))))"

lemma echo_journal_file: "journal_file echo_fleet (live_outcome echo_fleet) two_branches (echo_journal n)"
proof -
  let ?sch = "[(0, []), (0, [1]), (0, [1]), (0, [0])] :: (nat \<times> nat list) list"
  let ?lines = "map Some (take n (w_lines (fst (run_script echo_fleet None two_branches ?sch)))) @ [None]"
  have "journal_file echo_fleet (live_outcome echo_fleet) two_branches ?lines"
    using journal_file.crash[OF journal_file.new refl echo_agrees, of None "[None]" n ?sch] by simp
  from journal_file.crash[OF this refl echo_agrees, of "Some (fst (loadJournal ?lines))" "[]" n "[(0, []), (0, [0])]"]
  show ?thesis
    by (simp add: echo_journal_def Let_def)
qed

theorem resume_after_crashes_witness:
  "\<exists>schedule w a b. run_script echo_fleet (Some (fst (loadJournal (echo_journal 2)))) two_branches schedule =
     (w, [Run [] a b (Finish (fst (script_meaning echo_fleet (live_outcome echo_fleet) two_branches)))])"
  using resume_after_crashes[OF echo_journal_file echo_settled echo_agrees] by blast

theorem command_record_faithful_witness:
  "\<not> faithful shell_fleet ''k'' (echo_req ''a'')"
proof -
  have "fst (call_final shell_fleet ''k'' (echo_req ''a''))"
    by code_simp
  then show ?thesis
    using command_record_faithful[of "echo_req ''a''" shell_fleet "''k''"] by (simp add: shell_fleet_def echo_req_def)
qed

end
