(* ===== verification/Shell_Quote.thy ===== *)
theory Shell_Quote
  imports JS_Prelude
begin

section \<open>Quoting for shells and command lines\<close>

text \<open>
  \<^verbatim>\<open>src/utils/shell-escape.ts\<close>: every function that puts a value into the text of a command. A string is the list of its
  UTF-16 code units, because the quotes of PowerShell include characters beyond Latin-1. What a quoted text means is
  defined by the readers of the shells: the quote removal of a POSIX shell, the string literals of PowerShell, and the splitting of
  a Windows command line by the C run-time library. The theorems say that a reader gives back the value that was quoted.
\<close>

type_synonym units = "nat list"

definition units_of :: "string \<Rightarrow> units" where
  "units_of s = map of_char s"

abbreviation (input) single_quote :: nat where "single_quote \<equiv> 39"
abbreviation (input) double_quote :: nat where "double_quote \<equiv> 34"
abbreviation (input) backslash :: nat where "backslash \<equiv> 92"
abbreviation (input) dollar :: nat where "dollar \<equiv> 36"
abbreviation (input) backtick :: nat where "backtick \<equiv> 96"
abbreviation (input) bang :: nat where "bang \<equiv> 33"
abbreviation (input) caret :: nat where "caret \<equiv> 94"
abbreviation (input) line_feed :: nat where "line_feed \<equiv> 10"
abbreviation (input) blank_char :: nat where "blank_char \<equiv> 32"

subsection \<open>The functions\<close>

text \<open>A global replacement of every character of a class by a mark and the character itself.\<close>

definition mark_each :: "(nat \<Rightarrow> bool) \<Rightarrow> nat \<Rightarrow> units \<Rightarrow> units" where
  "mark_each special mark s = concat (map (\<lambda>c. if special c then [mark, c] else [c]) s)"

definition escapeShellArgInner :: "units \<Rightarrow> units" where
  "escapeShellArgInner s =
     concat (map (\<lambda>c. if c = single_quote then [single_quote, backslash, single_quote, single_quote] else [c]) s)"

definition escapeShellArg :: "units \<Rightarrow> units" where
  "escapeShellArg s = [single_quote] @ escapeShellArgInner s @ [single_quote]"

definition escapeDoubleQuoted :: "units \<Rightarrow> units" where
  "escapeDoubleQuoted s =
     mark_each (\<lambda>c. c = bang) backslash
       (mark_each (\<lambda>c. c = backtick) backslash
         (mark_each (\<lambda>c. c = dollar) backslash
           (mark_each (\<lambda>c. c = double_quote) backslash
             (mark_each (\<lambda>c. c = backslash) backslash s))))"

definition escapeForDoubleQuotes :: "units \<Rightarrow> bool \<Rightarrow> units" where
  "escapeForDoubleQuotes s powershell =
     (if powershell
      then mark_each (\<lambda>c. c = backtick \<or> c = double_quote \<or> c = dollar \<or> 0x201C \<le> c \<and> c \<le> 0x201E) backtick s
      else mark_each (\<lambda>c. c = backslash \<or> c = double_quote \<or> c = dollar \<or> c = backtick) backslash s)"

text \<open>The operators are \<^verbatim>\<open>& | ^ < >\<close>.\<close>

definition escapeWindowsArg :: "units \<Rightarrow> units" where
  "escapeWindowsArg s =
     mark_each (\<lambda>c. c \<in> {38, 124, caret, 60, 62}) caret (mark_each (\<lambda>c. c = double_quote) double_quote s)"

definition ps_single_quote :: "nat \<Rightarrow> bool" where
  "ps_single_quote c \<longleftrightarrow> c = single_quote \<or> 0x2018 \<le> c \<and> c \<le> 0x201B"

definition escapePowerShellArgInner :: "units \<Rightarrow> units" where
  "escapePowerShellArgInner s = concat (map (\<lambda>c. if ps_single_quote c then [c, c] else [c]) s)"

definition escapePowerShellArg :: "units \<Rightarrow> units" where
  "escapePowerShellArg s = [single_quote] @ escapePowerShellArgInner s @ [single_quote]"

definition escapeBatchMetachars :: "units \<Rightarrow> units" where
  "escapeBatchMetachars = mark_each (\<lambda>c. c \<in> {38, 124, 62, 60, caret, 37}) caret"

text \<open>\<^verbatim>\<open>. * + ? ^ $ { } ( ) | [ ] \\<close>, and \<^verbatim>\<open>\ / . * [ ] ^ $\<close> for \<^verbatim>\<open>sed\<close>.\<close>

definition ere_special :: "nat \<Rightarrow> bool" where
  "ere_special c \<longleftrightarrow> c \<in> {46, 42, 43, 63, caret, dollar, 123, 125, 40, 41, 124, 91, 93, backslash}"

definition escapeGrepPattern :: "units \<Rightarrow> units" where
  "escapeGrepPattern = mark_each ere_special backslash"

definition bre_special :: "nat \<Rightarrow> bool" where
  "bre_special c \<longleftrightarrow> c \<in> {backslash, 47, 46, 42, 91, 93, caret, dollar}"

definition escapeSedBasicRegex :: "units \<Rightarrow> units" where
  "escapeSedBasicRegex = mark_each bre_special backslash"

definition escapeAppleScriptString :: "units \<Rightarrow> units" where
  "escapeAppleScriptString s =
     mark_each (\<lambda>c. c = double_quote) backslash (mark_each (\<lambda>c. c = backslash) backslash s)"

text \<open>\<^verbatim>\<open>\s\<close> on code units.\<close>

definition unit_space :: "nat \<Rightarrow> bool" where
  "unit_space c \<longleftrightarrow>
     9 \<le> c \<and> c \<le> 13 \<or> c \<in> {blank_char, 160, 0x1680, 0x2028, 0x2029, 0x202F, 0x205F, 0x3000, 0xFEFF} \<or> 0x2000 \<le> c \<and> c \<le> 0x200A"

text \<open>The loop of \<^verbatim>\<open>quoteWindowsArgv\<close>, with the number of backslashes that are not yet written.\<close>

fun quote_loop :: "nat \<Rightarrow> units \<Rightarrow> units" where
  "quote_loop n [] = replicate (n * 2) backslash @ [double_quote]"
| "quote_loop n (c # s) =
     (if c = backslash then quote_loop (Suc n) s
      else if c = double_quote then replicate (n * 2 + 1) backslash @ [double_quote] @ quote_loop 0 s
      else replicate n backslash @ [c] @ quote_loop 0 s)"

definition quoteWindowsArgv :: "units \<Rightarrow> units" where
  "quoteWindowsArgv arg =
     (if arg \<noteq> [] \<and> \<not> list_ex (\<lambda>c. unit_space c \<or> c = double_quote) arg then arg
      else [double_quote] @ quote_loop 0 arg)"

definition session_char :: "nat \<Rightarrow> bool" where
  "session_char c \<longleftrightarrow> 97 \<le> c \<and> c \<le> 122 \<or> 65 \<le> c \<and> c \<le> 90 \<or> 48 \<le> c \<and> c \<le> 57 \<or> c = 95 \<or> c = 45"

definition sanitizeSessionId :: "units \<Rightarrow> units res" where
  "sanitizeSessionId s =
     (if s \<noteq> [] \<and> list_all session_char s then Inr s
      else Inl (GeneralError ''Invalid session ID: contains disallowed characters''))"

subsection \<open>Readers\<close>

text \<open>
  A POSIX shell reading a line: a character that stands for itself, or one that the shell acts on. An unterminated quote has no
  reading. Bare characters that are not listed as plain are acted on.
\<close>

datatype sh_item = Plain nat | Acted nat

datatype sh_mode = Bare | InSingle | InDouble

definition sh_plain :: "nat \<Rightarrow> bool" where
  "sh_plain c \<longleftrightarrow> session_char c \<or> c \<in> {37, 43, 44, 46, 47, 58, 64}"

fun sh_read :: "sh_mode \<Rightarrow> units \<Rightarrow> sh_item list option" where
  "sh_read Bare [] = Some []"
| "sh_read InSingle [] = None"
| "sh_read InDouble [] = None"
| "sh_read InSingle (c # s) =
     (if c = single_quote then sh_read Bare s else map_option ((#) (Plain c)) (sh_read InSingle s))"
| "sh_read Bare [c] =
     (if c = single_quote \<or> c = double_quote then None else Some [if c = backslash \<or> sh_plain c then Plain c else Acted c])"
| "sh_read Bare (c # d # s) =
     (if c = single_quote then sh_read InSingle (d # s)
      else if c = double_quote then sh_read InDouble (d # s)
      else if c = backslash then (if d = line_feed then sh_read Bare s else map_option ((#) (Plain d)) (sh_read Bare s))
      else map_option ((#) (if sh_plain c then Plain c else Acted c)) (sh_read Bare (d # s)))"
| "sh_read InDouble [c] = (if c = double_quote then Some [] else None)"
| "sh_read InDouble (c # d # s) =
     (if c = double_quote then sh_read Bare (d # s)
      else if c = backslash then
        (if d = dollar \<or> d = backtick \<or> d = double_quote \<or> d = backslash then map_option ((#) (Plain d)) (sh_read InDouble s)
         else if d = line_feed then sh_read InDouble s
         else map_option ((#) (Plain c)) (sh_read InDouble (d # s)))
      else map_option ((#) (if c = dollar \<or> c = backtick then Acted c else Plain c)) (sh_read InDouble (d # s)))"

text \<open>PowerShell after the opening quote: the value and what follows the literal. A doubled quote is one quote character.\<close>

fun ps_single :: "units \<Rightarrow> (units \<times> units) option" where
  "ps_single [] = None"
| "ps_single [c] = (if ps_single_quote c then Some ([], []) else None)"
| "ps_single (c # d # s) =
     (if ps_single_quote c
      then if ps_single_quote d then map_option (\<lambda>(v, rest). (d # v, rest)) (ps_single s) else Some ([], d # s)
      else map_option (\<lambda>(v, rest). (c # v, rest)) (ps_single (d # s)))"

definition ps_double_quote :: "nat \<Rightarrow> bool" where
  "ps_double_quote c \<longleftrightarrow> c = double_quote \<or> 0x201C \<le> c \<and> c \<le> 0x201E"

text \<open>A double-quoted literal: a dollar is acted on; a backtick takes the next character as it is, letters and 0 apart.\<close>

fun ps_double :: "units \<Rightarrow> (sh_item list \<times> units) option" where
  "ps_double [] = None"
| "ps_double [c] = (if ps_double_quote c then Some ([], []) else None)"
| "ps_double (c # d # s) =
     (if ps_double_quote c
      then if ps_double_quote d then map_option (\<lambda>(v, rest). (Plain d # v, rest)) (ps_double s) else Some ([], d # s)
      else if c = backtick
      then map_option (\<lambda>(v, rest). ((if d = 48 \<or> 97 \<le> d \<and> d \<le> 122 then Acted d else Plain d) # v, rest)) (ps_double s)
      else map_option (\<lambda>(v, rest). ((if c = dollar then Acted c else Plain c) # v, rest)) (ps_double (d # s)))"

text \<open>
  The C run-time library splitting a command line behind the program name: whether an argument has begun, whether it is inside
  quotes, the backslashes just read, and the argument so far.
\<close>

definition argv_blank :: "nat \<Rightarrow> bool" where
  "argv_blank c \<longleftrightarrow> c = blank_char \<or> c = 9"

fun argv_read :: "bool \<Rightarrow> bool \<Rightarrow> nat \<Rightarrow> units \<Rightarrow> units \<Rightarrow> units list" where
  "argv_read begun q n acc [] = (if begun then [acc @ replicate n backslash] else [])"
| "argv_read begun q n acc (c # s) =
     (if \<not> q \<and> argv_blank c
      then if begun then (acc @ replicate n backslash) # argv_read False False 0 [] s else argv_read False False 0 [] s
      else if c = backslash then argv_read True q (Suc n) acc s
      else if c = double_quote
      then if odd n then argv_read True q 0 (acc @ replicate (n div 2) backslash @ [double_quote]) s
           else (case s of
                   d # s' \<Rightarrow>
                     if q \<and> d = double_quote then argv_read True q 0 (acc @ replicate (n div 2) backslash @ [double_quote]) s'
                     else argv_read True (\<not> q) 0 (acc @ replicate (n div 2) backslash) s
                 | [] \<Rightarrow> argv_read True (\<not> q) 0 (acc @ replicate (n div 2) backslash) s)
      else argv_read True q 0 (acc @ replicate n backslash @ [c]) s)"

text \<open>A basic and an extended regular expression that stand for one text.\<close>

fun literal_regex :: "(nat \<Rightarrow> bool) \<Rightarrow> units \<Rightarrow> units option" where
  "literal_regex special [] = Some []"
| "literal_regex special [c] = (if special c \<or> c = line_feed then None else Some [c])"
| "literal_regex special (c # d # s) =
     (if c = backslash then if special d then map_option ((#) d) (literal_regex special s) else None
      else if special c \<or> c = line_feed then None
      else map_option ((#) c) (literal_regex special (d # s)))"

text \<open>
  A line of a batch file: first the percent signs (a doubled one stands for itself, a pair around a name for the variable, a single
  one for nothing), then the carets, each of which makes the next character plain.
\<close>

function batch_percent :: "(units \<Rightarrow> units) \<Rightarrow> units \<Rightarrow> units" where
  "batch_percent var [] = []"
| "batch_percent var (c # s) =
     (if c \<noteq> 37 then c # batch_percent var s
      else (case s of
              [] \<Rightarrow> []
            | d # s' \<Rightarrow>
                if d = 37 then 37 # batch_percent var s'
                else if 37 \<in> set s then var (takeWhile (\<lambda>x. x \<noteq> 37) s) @ batch_percent var (tl (dropWhile (\<lambda>x. x \<noteq> 37) s))
                else batch_percent var s))"
  by pat_completeness auto

termination
proof (relation "measure (\<lambda>(var, s). length s)", goal_cases)
  case (4 var c s d s')
  have "length (tl (dropWhile (\<lambda>x. x \<noteq> 37) s)) \<le> length s"
    using length_dropWhile_le[of "\<lambda>x. x \<noteq> 37" s] by simp
  then show ?case
    by simp
qed auto

fun batch_caret :: "units \<Rightarrow> sh_item list" where
  "batch_caret [] = []"
| "batch_caret [c] = (if c = caret then [] else [if c \<in> {38, 124, 60, 62} then Acted c else Plain c])"
| "batch_caret (c # d # s) =
     (if c = caret then Plain d # batch_caret s
      else (if c \<in> {38, 124, 60, 62} then Acted c else Plain c) # batch_caret (d # s))"

definition batch_read :: "(units \<Rightarrow> units) \<Rightarrow> units \<Rightarrow> sh_item list" where
  "batch_read var line = batch_caret (batch_percent var line)"

subsection \<open>POSIX shells\<close>

lemma mark_each_simps [simp]:
  "mark_each P m [] = []" "mark_each P m (c # s) = (if P c then [m, c] else [c]) @ mark_each P m s"
  by (simp_all add: mark_each_def)

lemma mark_each_twice:
  assumes "\<not> P m" "\<forall>c. P c \<longrightarrow> \<not> Q c"
  shows "mark_each P m (mark_each Q m s) = mark_each (\<lambda>c. P c \<or> Q c) m s"
  using assms by (induction s) auto

lemma inner_simps [simp]:
  "escapeShellArgInner [] = []"
  "escapeShellArgInner (c # s) =
     (if c = single_quote then [single_quote, backslash, single_quote, single_quote] else [c]) @ escapeShellArgInner s"
  by (simp_all add: escapeShellArgInner_def)

lemma sh_open [simp]: "sh_read Bare (single_quote # s) = sh_read InSingle s" "sh_read Bare (double_quote # s) = sh_read InDouble s"
  by (cases s; simp)+

lemma sh_close [simp]: "sh_read InDouble (double_quote # s) = sh_read Bare s"
  by (cases s) simp_all

lemma sh_double_plain:
  "c \<noteq> double_quote \<Longrightarrow> c \<noteq> backslash \<Longrightarrow> c \<noteq> dollar \<Longrightarrow> c \<noteq> backtick \<Longrightarrow>
    sh_read InDouble (c # s) = map_option ((#) (Plain c)) (sh_read InDouble s)"
  by (cases s) simp_all

lemma inner_read: "sh_read InSingle (escapeShellArgInner s @ post) = map_option ((@) (map Plain s)) (sh_read InSingle post)"
proof (induction s)
  case Nil
  show ?case by (cases "sh_read InSingle post") simp_all
next
  case (Cons c s)
  then show ?case by (simp add: option.map_comp comp_def)
qed

lemma double_read:
  "sh_read InDouble (escapeForDoubleQuotes s False @ post) = map_option ((@) (map Plain s)) (sh_read InDouble post)"
proof (induction s)
  case Nil
  show ?case by (cases "sh_read InDouble post") (simp_all add: escapeForDoubleQuotes_def)
next
  case (Cons c s)
  then show ?case by (auto simp: escapeForDoubleQuotes_def option.map_comp comp_def sh_double_plain)
qed

text \<open>
  A value quoted for a POSIX shell is read as itself, whatever it contains: bare it is one run of plain characters and
  the shell is back where it was; escaped for the inside of an open quotation it stays inside.
\<close>

theorem posix_quoting_exact:
  "sh_read Bare (escapeShellArg s @ post) = map_option ((@) (map Plain s)) (sh_read Bare post) \<and>
   sh_read InSingle (escapeShellArgInner s @ post) = map_option ((@) (map Plain s)) (sh_read InSingle post) \<and>
   sh_read InDouble (escapeForDoubleQuotes s False @ post) = map_option ((@) (map Plain s)) (sh_read InDouble post)"
  using inner_read[of s "single_quote # post"] inner_read double_read by (simp add: escapeShellArg_def)

lemma escapeDoubleQuoted_once:
  "escapeDoubleQuoted s =
     mark_each (\<lambda>c. c = bang \<or> c = backtick \<or> c = dollar \<or> c = double_quote \<or> c = backslash) backslash s"
  unfolding escapeDoubleQuoted_def by (simp add: mark_each_twice)

text \<open>
  A value escaped by \<open>escapeDoubleQuoted\<close> for double quotes is read with a backslash before every exclamation mark, and
  otherwise as itself.
\<close>

lemma escapeDoubleQuoted_bang:
  "sh_read InDouble (escapeDoubleQuoted s @ post) =
     map_option ((@) (concat (map (\<lambda>c. if c = bang then [Plain backslash, Plain bang] else [Plain c]) s))) (sh_read InDouble post)"
proof (induction s)
  case Nil
  show ?case by (cases "sh_read InDouble post") (simp_all add: escapeDoubleQuoted_once)
next
  case (Cons c s)
  have bang: "sh_read InDouble (backslash # bang # t) = map_option ((#) (Plain backslash)) (map_option ((#) (Plain bang)) (sh_read InDouble t))" for t
    by (simp add: sh_double_plain)
  show ?case
    using Cons by (auto simp: escapeDoubleQuoted_once option.map_comp comp_def sh_double_plain bang)
qed

subsection \<open>PowerShell\<close>

lemma ps_inner_simps [simp]:
  "escapePowerShellArgInner [] = []"
  "escapePowerShellArgInner (c # s) = (if ps_single_quote c then [c, c] else [c]) @ escapePowerShellArgInner s"
  by (simp_all add: escapePowerShellArgInner_def)

lemma ps_single_plain:
  "\<not> ps_single_quote c \<Longrightarrow> ps_single (c # s) = map_option (\<lambda>(v, rest). (c # v, rest)) (ps_single s)"
  by (cases s) simp_all

lemma ps_single_end: "post = [] \<or> \<not> ps_single_quote (hd post) \<Longrightarrow> ps_single (single_quote # post) = Some ([], post)"
  by (cases post) (auto simp: ps_single_quote_def)

lemma ps_double_plain:
  "\<not> ps_double_quote c \<Longrightarrow> c \<noteq> backtick \<Longrightarrow> c \<noteq> dollar \<Longrightarrow>
    ps_double (c # s) = map_option (\<lambda>(v, rest). (Plain c # v, rest)) (ps_double s)"
  by (cases s) simp_all

lemma ps_double_end: "post = [] \<or> \<not> ps_double_quote (hd post) \<Longrightarrow> ps_double (double_quote # post) = Some ([], post)"
  by (cases post) (auto simp: ps_double_quote_def)

lemma ps_double_mark:
  "d = backtick \<or> d = double_quote \<or> d = dollar \<or> 0x201C \<le> d \<and> d \<le> 0x201E \<Longrightarrow>
    ps_double (backtick # d # s) = map_option (\<lambda>(v, rest). (Plain d # v, rest)) (ps_double s)"
  by (auto simp: ps_double_quote_def)

text \<open>
  A value quoted for PowerShell is read back exactly, up to its closing quote, with every kind of quote character that
  PowerShell knows.
\<close>

theorem powershell_quoting_exact:
  "(post = [] \<or> \<not> ps_single_quote (hd post) \<longrightarrow>
      escapePowerShellArg s = single_quote # tl (escapePowerShellArg s) \<and> ps_single (tl (escapePowerShellArg s) @ post) = Some (s, post)) \<and>
   (post = [] \<or> \<not> ps_double_quote (hd post) \<longrightarrow>
      ps_double (escapeForDoubleQuotes s True @ [double_quote] @ post) = Some (map Plain s, post))"
proof (intro conjI impI)
  assume post: "post = [] \<or> \<not> ps_single_quote (hd post)"
  have "ps_single (escapePowerShellArgInner s @ single_quote # post) = Some (s, post)"
  proof (induction s)
    case Nil
    show ?case using ps_single_end[OF post] by simp
  next
    case (Cons c s)
    then show ?case by (simp add: ps_single_plain)
  qed
  then show "ps_single (tl (escapePowerShellArg s) @ post) = Some (s, post)"
    by (simp add: escapePowerShellArg_def)
  show "escapePowerShellArg s = single_quote # tl (escapePowerShellArg s)"
    by (simp add: escapePowerShellArg_def)
next
  assume post: "post = [] \<or> \<not> ps_double_quote (hd post)"
  show "ps_double (escapeForDoubleQuotes s True @ [double_quote] @ post) = Some (map Plain s, post)"
  proof (induction s)
    case Nil
    show ?case using ps_double_end[OF post] by (simp add: escapeForDoubleQuotes_def)
  next
    case (Cons c s)
    then show ?case
      by (cases "c = backtick \<or> c = double_quote \<or> c = dollar \<or> 0x201C \<le> c \<and> c \<le> 0x201E")
        (simp_all add: escapeForDoubleQuotes_def ps_double_mark ps_double_plain ps_double_quote_def del: ps_double.simps)
  qed
qed

theorem powershell_quoting_exact_witness:
  "ps_single (tl (escapePowerShellArg [97, 0x2019, 39]) @ [32]) = Some ([97, 0x2019, 39], [32])"
  using powershell_quoting_exact[of "[32]" "[97, 0x2019, 39]"] by (simp add: ps_single_quote_def)

text \<open>
  A folder name with an operator, escaped by \<open>escapeWindowsArg\<close> and put into a double-quoted literal of PowerShell, is read with a
  caret before the operator.
\<close>

lemma escapeWindowsArg_adds_caret:
  "ps_double (escapeWindowsArg (units_of ''C:/R&D'') @ [double_quote]) = Some (map Plain (units_of ''C:/R^&D''), [])"
  by code_simp

text \<open>A percent sign is lost from a value that \<open>escapeBatchMetachars\<close> has escaped for a batch file.\<close>

lemma escapeBatch_percent_lost:
  "batch_read var (escapeBatchMetachars (units_of ''a%b'')) = map Plain (units_of ''ab'')"
  by (simp add: escapeBatchMetachars_def batch_read_def units_of_def)

subsection \<open>Windows command lines\<close>

lemma argv_backslashes: "argv_read True q n acc (replicate k backslash @ s) = argv_read True q (n + k) acc s"
  by (induction k arbitrary: n) (simp_all add: argv_blank_def)

lemma argv_quoted:
  assumes "post = [] \<or> hd post \<noteq> double_quote"
  shows "argv_read True True 0 acc (quote_loop n s @ post) = argv_read True False 0 (acc @ replicate n backslash @ s) post"
proof (induction s arbitrary: n acc)
  case Nil
  have "argv_read True True (n * 2) acc (double_quote # post) = argv_read True False 0 (acc @ replicate n backslash) post"
    using assms by (cases post) simp_all
  then show ?case
    by (simp add: argv_backslashes[of True 0])
next
  case (Cons c s)
  have esc: "argv_read True True (Suc (n * 2)) acc (double_quote # t) = argv_read True True 0 (acc @ replicate n backslash @ [double_quote]) t" for t
    by simp
  show ?case
  proof (cases "c = backslash")
    case True
    then show ?thesis
      using Cons.IH[of acc "Suc n"] by (simp add: replicate_app_Cons_same)
  next
    case False
    have IH: "argv_read True True 0 (acc @ replicate n backslash @ [c]) (quote_loop 0 s @ post) =
        argv_read True False 0 (acc @ replicate n backslash @ c # s) post"
      using Cons.IH[of "acc @ replicate n backslash @ [c]" 0] by simp
    have plain: "argv_read True True n acc (c # t) = argv_read True True 0 (acc @ replicate n backslash @ [c]) t" if "c \<noteq> double_quote" for t
      using False that by (simp add: argv_blank_def)
    show ?thesis
    proof (cases "c = double_quote")
      case True
      then show ?thesis
        using argv_backslashes[of True 0 acc "Suc (n * 2)"] esc IH by (simp del: argv_read.simps replicate.simps)
    next
      case c: False
      then show ?thesis
        using argv_backslashes[of True 0 acc n] plain IH False by (simp del: argv_read.simps replicate.simps)
    qed
  qed
qed

lemma argv_plain:
  assumes "list_all (\<lambda>c. \<not> argv_blank c \<and> c \<noteq> double_quote) s" "post = [] \<or> argv_blank (hd post)"
  shows "argv_read True False n acc (s @ post) = (acc @ replicate n backslash @ s) # argv_read False False 0 [] post"
  using assms(1)
proof (induction s arbitrary: n acc)
  case Nil
  then show ?case
    using assms(2) by (cases post) auto
next
  case (Cons c s)
  then show ?case
    using Cons.IH[of "Suc n" acc] by (simp add: replicate_app_Cons_same)
qed

lemma argv_blank_space: "argv_blank c \<Longrightarrow> unit_space c"
  by (auto simp: argv_blank_def unit_space_def)

lemma argv_one:
  assumes "post = [] \<or> argv_blank (hd post)"
  shows "argv_read False False 0 [] (quoteWindowsArgv arg @ post) = arg # argv_read False False 0 [] post"
proof (cases "arg \<noteq> [] \<and> \<not> list_ex (\<lambda>c. unit_space c \<or> c = double_quote) arg")
  case True
  then obtain c s where arg: "arg = c # s"
    by (cases arg) auto
  have plain: "list_all (\<lambda>c. \<not> argv_blank c \<and> c \<noteq> double_quote) arg"
    using True argv_blank_space unfolding list_all_iff list_ex_iff by blast
  have "argv_read False False 0 [] (c # t) = argv_read True False 0 [] (c # t)" if "\<not> argv_blank c" for t
    using that by simp
  then have "argv_read False False 0 [] (arg @ post) = argv_read True False 0 [] (arg @ post)"
    using plain unfolding arg by (simp del: argv_read.simps)
  then show ?thesis
    using argv_plain[OF plain assms, of 0 "[]"] True by (simp add: quoteWindowsArgv_def)
next
  case False
  have "post = [] \<or> hd post \<noteq> double_quote"
    using assms by (cases post) (auto simp: argv_blank_def)
  from argv_quoted[OF this, of "[]" 0 arg] have "argv_read True True 0 [] (quote_loop 0 arg @ post) = argv_read True False 0 arg post"
    by simp
  moreover have "argv_read False False 0 [] (double_quote # t) = argv_read True True 0 [] t" for t
    by (cases t) (simp_all add: argv_blank_def)
  moreover have "argv_read True False 0 arg post = arg # argv_read False False 0 [] post"
    using assms by (cases post) auto
  ultimately show ?thesis
    using False unfolding quoteWindowsArgv_def by auto
qed

fun command_line :: "units list \<Rightarrow> units" where
  "command_line [] = []"
| "command_line [arg] = quoteWindowsArgv arg"
| "command_line (arg # args) = quoteWindowsArgv arg @ [blank_char] @ command_line args"

text \<open>
  Property C29. A Windows command line put together from quoted arguments is split into exactly these arguments, empty ones, blanks,
  quotes and runs of backslashes included.
\<close>

theorem windows_argv_roundtrip: "argv_read False False 0 [] (command_line args) = args"
proof (induction args rule: command_line.induct)
  case (2 arg)
  then show ?case
    using argv_one[of "[]" arg] by simp
next
  case (3 arg a args)
  then show ?case
    using argv_one[of "[blank_char] @ command_line (a # args)" arg] by (simp add: argv_blank_def)
qed simp

subsection \<open>Patterns and literals\<close>

lemma literal_regex_mark:
  assumes "special backslash" "line_feed \<notin> set s"
  shows "literal_regex special (mark_each special backslash s) = Some s"
  using assms(2)
proof (induction s)
  case (Cons c s)
  have "c \<noteq> backslash \<Longrightarrow> \<not> special c \<Longrightarrow> literal_regex special (c # t) = map_option ((#) c) (literal_regex special t)" for t
    using Cons.prems by (cases t) auto
  then show ?case
    using Cons assms(1) by (cases "special c"; cases "c = backslash") auto
qed simp

text \<open>
  A text escaped for \<^verbatim>\<open>grep -E\<close> or for the pattern of \<^verbatim>\<open>sed\<close> is a pattern that stands for exactly this text, unless it
  has a line feed.
\<close>

theorem pattern_quoting_exact:
  assumes "line_feed \<notin> set s"
  shows "literal_regex ere_special (escapeGrepPattern s) = Some s \<and> literal_regex bre_special (escapeSedBasicRegex s) = Some s"
  unfolding escapeGrepPattern_def escapeSedBasicRegex_def
  using literal_regex_mark[OF _ assms] by (simp add: ere_special_def bre_special_def)

theorem pattern_quoting_exact_witness:
  "literal_regex ere_special (escapeGrepPattern (units_of ''a.b[c]'')) = Some (units_of ''a.b[c]'')"
  using pattern_quoting_exact[of "units_of ''a.b[c]''"] by (simp add: units_of_def)

end
