(* ===== verification/Credential_Store.thy ===== *)
theory Credential_Store
  imports Shell_Quote
begin

section \<open>The credential store of the fleet server\<close>

text \<open>
  \<^verbatim>\<open>src/services/credential-store.ts\<close>: named secrets in two tiers, the session store in memory and \<^verbatim>\<open>credentials.json\<close>, which
  takes precedence. Every operation is a function on the record of both tiers; the outcome of the file calls, the clock and
  the ciphers are arguments. Times are milliseconds; the ISO text that a record keeps is read back to the same
  millisecond. A name is used as a key of its own: the names that every JavaScript object inherits are left aside.
\<close>

datatype network_policy = PolicyAllow | PolicyConfirm | PolicyDeny

text \<open>The star, or a list of members.\<close>

datatype audience = Anyone | Members "string list"

datatype cred_scope = SessionScope | PersistentScope

record 'e credential =
  c_name :: string
  c_policy :: network_policy
  c_created :: int
  c_value :: 'e
  c_allowed :: "audience option"
  c_expires :: "int option"

record cred_meta =
  m_name :: string
  m_scope :: cred_scope
  m_policy :: network_policy
  m_created :: int
  m_allowed :: audience
  m_expires :: "int option"

datatype 'e cred_file = NoFile | Unparsable | Creds "(string, 'e credential) jsmap"

record 'e cred_store =
  sessionStore :: "(string, 'e credential) jsmap"
  cred_disk :: "'e cred_file"
  taskCredentials :: "(string, (string \<times> units) list) jsmap"

text \<open>What one call finds outside: the clock, the encryption of this call, and the outcomes of its file calls.\<close>

record 'e cred_env =
  e_now :: int
  e_seal :: "cred_scope \<Rightarrow> units \<Rightarrow> 'e"
  e_dir :: "fs_err option"
  e_write :: "fs_err option"
  e_rename :: "nat \<Rightarrow> fs_err option"

type_synonym 'e cipher = "cred_scope \<Rightarrow> 'e \<Rightarrow> units res"

subsection \<open>The file\<close>

definition loadCredentialFile :: "'e cred_env \<Rightarrow> 'e cred_store \<Rightarrow> (string, 'e credential) jsmap res" where
  "loadCredentialFile env st =
     (case e_dir env of
        Some e \<Rightarrow> Inl (FsError e)
      | None \<Rightarrow>
          (case cred_disk st of
             NoFile \<Rightarrow> Inr []
           | Unparsable \<Rightarrow> Inl (GeneralError ''credentials.json'')
           | Creds m \<Rightarrow> Inr m))"

definition RENAME_RETRIES :: nat where
  "RENAME_RETRIES = 10"

definition cred_transient :: "fs_err \<Rightarrow> bool" where
  "cred_transient e \<longleftrightarrow> e = EPERM \<or> e = EACCES \<or> e = EBUSY"

text \<open>The synchronous retry loop: the attempts still allowed, and the number of this one.\<close>

fun cred_rename :: "(nat \<Rightarrow> fs_err option) \<Rightarrow> nat \<Rightarrow> nat \<Rightarrow> fs_err option" where
  "cred_rename rename attempt 0 = rename attempt"
| "cred_rename rename attempt (Suc left) =
     (case rename attempt of
        None \<Rightarrow> None
      | Some e \<Rightarrow> if cred_transient e then cred_rename rename (Suc attempt) left else Some e)"

definition saveCredentialFile :: "'e cred_env \<Rightarrow> (string, 'e credential) jsmap \<Rightarrow> 'e cred_store \<Rightarrow> unit res \<times> 'e cred_store" where
  "saveCredentialFile env m st =
     (case e_dir env of
        Some e \<Rightarrow> (Inl (FsError e), st)
      | None \<Rightarrow>
          (case e_write env of
             Some e \<Rightarrow> (Inl (FsError e), st)
           | None \<Rightarrow>
               (case cred_rename (e_rename env) 0 RENAME_RETRIES of
                  Some e \<Rightarrow> (Inl (FsError e), st)
                | None \<Rightarrow> (Inr (), st\<lparr>cred_disk := Creds m\<rparr>))))"

subsection \<open>Operations\<close>

definition forget_session :: "string \<Rightarrow> 'e cred_store \<Rightarrow> 'e cred_store" where
  "forget_session name st = st\<lparr>sessionStore := AList.delete name (sessionStore st)\<rparr>"

definition credentialSet ::
  "'e cred_env \<Rightarrow> string \<Rightarrow> units \<Rightarrow> bool \<Rightarrow> network_policy \<Rightarrow> audience \<Rightarrow> int option \<Rightarrow> 'e cred_store \<Rightarrow> cred_meta res \<times> 'e cred_store"
where
  "credentialSet env name plaintext persist policy allowed ttl st =
     (let created = e_now env;
          expires = map_option (\<lambda>s. e_now env + s * 1000) ttl;
          entry = (\<lambda>scope. \<lparr>c_name = name, c_policy = policy, c_created = created, c_value = e_seal env scope plaintext,
                            c_allowed = Some allowed, c_expires = expires\<rparr>);
          meta = (\<lambda>scope. \<lparr>m_name = name, m_scope = scope, m_policy = policy, m_created = created, m_allowed = allowed, m_expires = expires\<rparr>)
      in if persist
         then (case loadCredentialFile env st of
                 Inl e \<Rightarrow> (Inl e, st)
               | Inr m \<Rightarrow>
                   (case saveCredentialFile env (AList.update name (entry PersistentScope) m) st of
                      (Inl e, st1) \<Rightarrow> (Inl e, st1)
                    | (Inr _, st1) \<Rightarrow> (Inr (meta PersistentScope), forget_session name st1)))
         else (Inr (meta SessionScope), st\<lparr>sessionStore := AList.update name (entry SessionScope) (sessionStore st)\<rparr>))"

definition allowed_of :: "'e credential \<Rightarrow> audience" where
  "allowed_of c = (case c_allowed c of Some a \<Rightarrow> a | None \<Rightarrow> Anyone)"

definition meta_of :: "cred_scope \<Rightarrow> 'e credential \<Rightarrow> cred_meta" where
  "meta_of scope c =
     \<lparr>m_name = c_name c, m_scope = scope, m_policy = c_policy c, m_created = c_created c, m_allowed = allowed_of c, m_expires = c_expires c\<rparr>"

text \<open>A record of the file replaces the first listed entry of its name.\<close>

fun replace_meta :: "cred_meta \<Rightarrow> cred_meta list \<Rightarrow> cred_meta list" where
  "replace_meta m [] = [m]"
| "replace_meta m (x # xs) = (if m_name x = m_name m then m # xs else x # replace_meta m xs)"

definition credentialList :: "'e cred_env \<Rightarrow> 'e cred_store \<Rightarrow> cred_meta list res" where
  "credentialList env st =
     (case loadCredentialFile env st of
        Inl e \<Rightarrow> Inl e
      | Inr m \<Rightarrow> Inr (fold (\<lambda>(k, c). replace_meta (meta_of PersistentScope c)) m (map (\<lambda>(k, c). meta_of SessionScope c) (sessionStore st))))"

definition credentialDelete :: "'e cred_env \<Rightarrow> string \<Rightarrow> 'e cred_store \<Rightarrow> bool res \<times> 'e cred_store" where
  "credentialDelete env name st =
     (let found = (map_of (sessionStore st) name \<noteq> None);
          st1 = (if found then forget_session name st else st)
      in case loadCredentialFile env st1 of
           Inl e \<Rightarrow> (Inl e, st1)
         | Inr m \<Rightarrow>
             if map_of m name = None then (Inr found, st1)
             else (case saveCredentialFile env (AList.delete name m) st1 of
                     (Inl e, st2) \<Rightarrow> (Inl e, st2)
                   | (Inr _, st2) \<Rightarrow> (Inr True, st2)))"

definition registerTaskCredentials :: "string \<Rightarrow> (string \<times> units) list \<Rightarrow> 'e cred_store \<Rightarrow> 'e cred_store" where
  "registerTaskCredentials taskId creds st =
     (if creds = [] then st else st\<lparr>taskCredentials := AList.update taskId creds (taskCredentials st)\<rparr>)"

definition getTaskCredentials :: "string \<Rightarrow> 'e cred_store \<Rightarrow> (string \<times> units) list" where
  "getTaskCredentials taskId st = (case map_of (taskCredentials st) taskId of Some cs \<Rightarrow> cs | None \<Rightarrow> [])"

datatype resolution = Found units cred_meta | Denied | Expired | NotFound

definition expired_at :: "int \<Rightarrow> 'e credential \<Rightarrow> bool" where
  "expired_at now c \<longleftrightarrow> (case c_expires c of Some t \<Rightarrow> now > t | None \<Rightarrow> False)"

definition admits :: "audience \<Rightarrow> string option \<Rightarrow> bool" where
  "admits allowed caller \<longleftrightarrow>
     (case caller of None \<Rightarrow> True | Some m \<Rightarrow> m = ''*'' \<or> (case allowed of Anyone \<Rightarrow> True | Members ms \<Rightarrow> m \<in> set ms))"

definition credentialResolve ::
  "'e cipher \<Rightarrow> 'e cred_env \<Rightarrow> string \<Rightarrow> string option \<Rightarrow> 'e cred_store \<Rightarrow> resolution res \<times> 'e cred_store"
where
  "credentialResolve decrypt env name caller st =
     (case loadCredentialFile env st of
        Inl e \<Rightarrow> (Inl e, st)
      | Inr m \<Rightarrow>
          (case map_of m name of
             Some c \<Rightarrow>
               if expired_at (e_now env) c
               then (case saveCredentialFile env (AList.delete name m) st of
                       (Inl e, st1) \<Rightarrow> (Inl e, st1)
                     | (Inr _, st1) \<Rightarrow> (Inr Expired, forget_session name st1))
               else if \<not> admits (allowed_of c) caller then (Inr Denied, st)
               else (case decrypt PersistentScope (c_value c) of
                       Inl e \<Rightarrow> (Inl e, st)
                     | Inr v \<Rightarrow> (Inr (Found v (meta_of PersistentScope c)), st))
           | None \<Rightarrow>
               (case map_of (sessionStore st) name of
                  Some c \<Rightarrow>
                    if expired_at (e_now env) c then (Inr Expired, forget_session name st)
                    else if \<not> admits (allowed_of c) caller then (Inr Denied, st)
                    else (case decrypt SessionScope (c_value c) of
                            Inl e \<Rightarrow> (Inl e, st)
                          | Inr v \<Rightarrow> (Inr (Found v (meta_of SessionScope c)), st))
                | None \<Rightarrow> (Inr NotFound, st))))"

text \<open>The lookups of the server itself: no audience, nothing deleted.\<close>

datatype secret_status = SecretOk cred_meta | SecretMissing | SecretExpired cred_meta

definition lookupServerSecretMeta :: "'e cred_env \<Rightarrow> string \<Rightarrow> 'e cred_store \<Rightarrow> secret_status res" where
  "lookupServerSecretMeta env name st =
     (case loadCredentialFile env st of
        Inl e \<Rightarrow> Inl e
      | Inr m \<Rightarrow>
          Inr (case (case map_of m name of
                       Some c \<Rightarrow> Some (PersistentScope, c)
                     | None \<Rightarrow> map_option (Pair SessionScope) (map_of (sessionStore st) name)) of
                 None \<Rightarrow> SecretMissing
               | Some (scope, c) \<Rightarrow>
                   if expired_at (e_now env) c then SecretExpired (meta_of scope c) else SecretOk (meta_of scope c)))"

definition lookupServerSecret :: "'e cipher \<Rightarrow> 'e cred_env \<Rightarrow> string \<Rightarrow> 'e cred_store \<Rightarrow> (units option \<times> secret_status) res" where
  "lookupServerSecret decrypt env name st =
     (case lookupServerSecretMeta env name st of
        Inl e \<Rightarrow> Inl e
      | Inr (SecretOk meta) \<Rightarrow>
          (case loadCredentialFile env st of
             Inl e \<Rightarrow> Inl e
           | Inr m \<Rightarrow>
               (case map_of m name of
                  Some c \<Rightarrow> (case decrypt PersistentScope (c_value c) of Inl e \<Rightarrow> Inl e | Inr v \<Rightarrow> Inr (Some v, SecretOk meta))
                | None \<Rightarrow>
                    (case map_of (sessionStore st) name of
                       None \<Rightarrow> Inr (None, SecretMissing)
                     | Some c \<Rightarrow> (case decrypt SessionScope (c_value c) of Inl e \<Rightarrow> Inl e | Inr v \<Rightarrow> Inr (Some v, SecretOk meta)))))
      | Inr other \<Rightarrow> Inr (None, other))"

record cred_patch =
  cp_members :: "string option"
  cp_expires :: "int option option"
  cp_policy :: "network_policy option"

definition membersToAllowed :: "string \<Rightarrow> audience" where
  "membersToAllowed members =
     (if members = ''*'' then Anyone else Members (filter (\<lambda>m. m \<noteq> []) (map js_trim (js_split (CHR '','') members))))"

definition allowedToMembers :: "audience \<Rightarrow> string" where
  "allowedToMembers allowed = (case allowed of Anyone \<Rightarrow> ''*'' | Members ms \<Rightarrow> join_strings '','' ms)"

definition patched :: "cred_patch \<Rightarrow> 'e credential \<Rightarrow> 'e credential" where
  "patched p c =
     (let c1 = (case cp_members p of None \<Rightarrow> c | Some ms \<Rightarrow> c\<lparr>c_allowed := Some (membersToAllowed ms)\<rparr>);
          c2 = (case cp_policy p of None \<Rightarrow> c1 | Some pol \<Rightarrow> c1\<lparr>c_policy := pol\<rparr>)
      in case cp_expires p of None \<Rightarrow> c2 | Some t \<Rightarrow> c2\<lparr>c_expires := t\<rparr>)"

text \<open>
  The answer names the audience, so a record of an old file that has none and is not given one fails when the answer is built,
  after the file has been written.
\<close>

definition update_answer :: "'e credential \<Rightarrow> (string \<times> network_policy \<times> int option) option res" where
  "update_answer c =
     (case c_allowed c of
        None \<Rightarrow> Inl (TypeError ''allowed.join'')
      | Some a \<Rightarrow> Inr (Some (allowedToMembers a, c_policy c, c_expires c)))"

definition credentialUpdate ::
  "'e cred_env \<Rightarrow> string \<Rightarrow> cred_patch \<Rightarrow> 'e cred_store \<Rightarrow> (string \<times> network_policy \<times> int option) option res \<times> 'e cred_store"
where
  "credentialUpdate env name p st =
     (case loadCredentialFile env st of
        Inl e \<Rightarrow> (Inl e, st)
      | Inr m \<Rightarrow>
          (case map_of m name of
             Some c \<Rightarrow>
               (case saveCredentialFile env (AList.update name (patched p c) m) st of
                  (Inl e, st1) \<Rightarrow> (Inl e, st1)
                | (Inr _, st1) \<Rightarrow> (update_answer (patched p c), st1))
           | None \<Rightarrow>
               (case map_of (sessionStore st) name of
                  Some c \<Rightarrow> (update_answer (patched p c), st\<lparr>sessionStore := AList.update name (patched p c) (sessionStore st)\<rparr>)
                | None \<Rightarrow> (Inr None, st))))"

definition purgeExpiredCredentials :: "'e cred_env \<Rightarrow> 'e cred_store \<Rightarrow> 'e cred_store" where
  "purgeExpiredCredentials env st =
     (case loadCredentialFile env st of
        Inl e \<Rightarrow> st
      | Inr m \<Rightarrow>
          (let gone = map fst (filter (\<lambda>(k, c). expired_at (e_now env) c) m);
               st1 = fold forget_session gone st
           in if gone = [] then st else snd (saveCredentialFile env (fold AList.delete gone m) st1)))"

subsection \<open>Sequences of calls\<close>

datatype 'e cred_op =
    OpSet "'e cred_env" string units bool network_policy audience "int option"
  | OpDelete "'e cred_env" string
  | OpResolve "'e cred_env" string "string option"
  | OpUpdate "'e cred_env" string cred_patch
  | OpPurge "'e cred_env"

fun cred_step :: "'e cipher \<Rightarrow> 'e cred_op \<Rightarrow> 'e cred_store \<Rightarrow> 'e cred_store" where
  "cred_step decrypt (OpSet env name v persist policy allowed ttl) st = snd (credentialSet env name v persist policy allowed ttl st)"
| "cred_step decrypt (OpDelete env name) st = snd (credentialDelete env name st)"
| "cred_step decrypt (OpResolve env name caller) st = snd (credentialResolve decrypt env name caller st)"
| "cred_step decrypt (OpUpdate env name p) st = snd (credentialUpdate env name p st)"
| "cred_step decrypt (OpPurge env) st = purgeExpiredCredentials env st"

definition empty_cred_store :: "'e cred_store" where
  "empty_cred_store = \<lparr>sessionStore = [], cred_disk = NoFile, taskCredentials = []\<rparr>"

text \<open>The file has every name once.\<close>

definition store_ok :: "'e cred_store \<Rightarrow> bool" where
  "store_ok st \<longleftrightarrow> (case cred_disk st of Creds m \<Rightarrow> jmap_ok m | _ \<Rightarrow> True)"

definition on_disk :: "'e cred_store \<Rightarrow> (string, 'e credential) jsmap" where
  "on_disk st = (case cred_disk st of Creds m \<Rightarrow> m | _ \<Rightarrow> [])"

text \<open>The entry that a lookup of a name uses.\<close>

definition effective :: "'e cred_store \<Rightarrow> string \<Rightarrow> (cred_scope \<times> 'e credential) option" where
  "effective st name =
     (case map_of (on_disk st) name of
        Some c \<Rightarrow> Some (PersistentScope, c)
      | None \<Rightarrow> map_option (Pair SessionScope) (map_of (sessionStore st) name))"

text \<open>Whether this call can read the file, and whether it can write it.\<close>

definition readable :: "'e cred_env \<Rightarrow> 'e cred_store \<Rightarrow> bool" where
  "readable env st \<longleftrightarrow> e_dir env = None \<and> cred_disk st \<noteq> Unparsable"

definition saves :: "'e cred_env \<Rightarrow> bool" where
  "saves env \<longleftrightarrow> e_dir env = None \<and> e_write env = None \<and> cred_rename (e_rename env) 0 RENAME_RETRIES = None"

lemma load_eq:
  "readable env st \<Longrightarrow> loadCredentialFile env st = Inr (on_disk st)"
  "\<not> readable env st \<Longrightarrow> \<exists>e. loadCredentialFile env st = Inl e"
  unfolding loadCredentialFile_def on_disk_def readable_def by (auto split: option.split cred_file.split)

lemma save_eq:
  "saves env \<Longrightarrow> saveCredentialFile env m st = (Inr (), st\<lparr>cred_disk := Creds m\<rparr>)"
  "\<not> saves env \<Longrightarrow> \<exists>e. \<forall>m st. saveCredentialFile env m st = (Inl e, st)"
proof -
  show "saves env \<Longrightarrow> saveCredentialFile env m st = (Inr (), st\<lparr>cred_disk := Creds m\<rparr>)"
    by (simp add: saveCredentialFile_def saves_def)
  show "\<not> saves env \<Longrightarrow> \<exists>e. \<forall>m st. saveCredentialFile env m st = (Inl e, st)"
    unfolding saveCredentialFile_def saves_def
    by (cases "e_dir env"; cases "e_write env"; cases "cred_rename (e_rename env) 0 RENAME_RETRIES") auto
qed

lemma store_ok_disk: "store_ok st \<longleftrightarrow> jmap_ok (on_disk st)"
  unfolding store_ok_def on_disk_def by (cases "cred_disk st") simp_all

lemma on_disk_simps [simp]:
  "on_disk (st\<lparr>cred_disk := Creds m\<rparr>) = m" "on_disk (st\<lparr>sessionStore := x\<rparr>) = on_disk st" "on_disk (forget_session n st) = on_disk st"
  by (simp_all add: on_disk_def forget_session_def)

lemma forget_simps [simp]:
  "sessionStore (forget_session n st) = AList.delete n (sessionStore st)" "cred_disk (forget_session n st) = cred_disk st"
  "readable env (forget_session n st) = readable env st"
  by (simp_all add: forget_session_def readable_def)

lemma fold_forget [simp]:
  "on_disk (fold forget_session ns st) = on_disk st" "cred_disk (fold forget_session ns st) = cred_disk st"
  "sessionStore (fold forget_session ns st) = fold AList.delete ns (sessionStore st)"
  by (induction ns arbitrary: st) simp_all

lemma jmap_ok_del_all: "jmap_ok m \<Longrightarrow> jmap_ok (fold AList.delete ns m)"
  by (induction ns arbitrary: m) simp_all

text \<open>What each operation leaves, by what its calls to the file system did.\<close>

lemma set_state:
  "snd (credentialSet env name v persist policy allowed ttl st) =
     (if persist \<longrightarrow> readable env st \<and> saves env
      then let c = \<lparr>c_name = name, c_policy = policy, c_created = e_now env,
                    c_value = e_seal env (if persist then PersistentScope else SessionScope) v, c_allowed = Some allowed,
                    c_expires = map_option (\<lambda>s. e_now env + s * 1000) ttl\<rparr>
           in if persist then forget_session name (st\<lparr>cred_disk := Creds (AList.update name c (on_disk st))\<rparr>)
              else st\<lparr>sessionStore := AList.update name c (sessionStore st)\<rparr>
      else st)"
  using load_eq[of env st] save_eq[of env] by (cases "readable env st"; cases "saves env") (auto simp: credentialSet_def Let_def)

lemma delete_state:
  "snd (credentialDelete env name st) =
     (let st1 = (if map_of (sessionStore st) name \<noteq> None then forget_session name st else st)
      in if readable env st \<and> map_of (on_disk st) name \<noteq> None \<and> saves env
         then st1\<lparr>cred_disk := Creds (AList.delete name (on_disk st))\<rparr> else st1)"
  using load_eq[of env st] load_eq[of env "forget_session name st"] save_eq[of env]
  by (cases "readable env st"; cases "saves env") (auto simp: credentialDelete_def Let_def)

lemma resolve_state:
  "snd (credentialResolve decrypt env name caller st) =
     (if readable env st
      then (case effective st name of
              Some (PersistentScope, c) \<Rightarrow>
                if expired_at (e_now env) c \<and> saves env
                then forget_session name (st\<lparr>cred_disk := Creds (AList.delete name (on_disk st))\<rparr>) else st
            | Some (SessionScope, c) \<Rightarrow> if expired_at (e_now env) c then forget_session name st else st
            | None \<Rightarrow> st)
      else st)"
proof (cases "readable env st")
  case True
  show ?thesis
    using save_eq[of env]
    by (cases "map_of (on_disk st) name"; cases "map_of (sessionStore st) name"; cases "saves env")
      (auto simp: credentialResolve_def load_eq(1)[OF True] True effective_def split: sum.split)
next
  case False
  then show ?thesis
    using load_eq(2)[OF False] by (auto simp: credentialResolve_def)
qed

lemma update_state:
  "snd (credentialUpdate env name p st) =
     (if readable env st
      then (case effective st name of
              Some (PersistentScope, c) \<Rightarrow>
                if saves env then st\<lparr>cred_disk := Creds (AList.update name (patched p c) (on_disk st))\<rparr> else st
            | Some (SessionScope, c) \<Rightarrow> st\<lparr>sessionStore := AList.update name (patched p c) (sessionStore st)\<rparr>
            | None \<Rightarrow> st)
      else st)"
  using load_eq[of env st] save_eq[of env]
  by (cases "readable env st"; cases "saves env") (auto simp: credentialUpdate_def effective_def split: option.split)

lemma purge_state:
  "purgeExpiredCredentials env st =
     (let gone = map fst (filter (\<lambda>(k, c). expired_at (e_now env) c) (on_disk st)); st1 = fold forget_session gone st
      in if readable env st \<and> gone \<noteq> []
         then if saves env then st1\<lparr>cred_disk := Creds (fold AList.delete gone (on_disk st))\<rparr> else st1
         else st)"
  using load_eq[of env st] save_eq[of env]
  by (cases "readable env st"; cases "saves env") (auto simp: purgeExpiredCredentials_def Let_def)

lemmas op_states = set_state delete_state resolve_state update_state purge_state

lemma store_ok_step: "store_ok st \<Longrightarrow> store_ok (cred_step decrypt op st)"
  by (cases op) (auto simp: op_states store_ok_disk Let_def jmap_ok_del_all split: option.split cred_scope.split)

interpretation cs: op_machine empty_cred_store "cred_step decrypt" store_ok for decrypt
  by unfold_locales (simp add: empty_cred_store_def store_ok_def, rule store_ok_step)

subsection \<open>Who gets a secret\<close>

lemma resolve_found:
  "fst (credentialResolve decrypt env name caller st) = Inr (Found v meta) \<longleftrightarrow>
     readable env st \<and>
     (\<exists>scope c. effective st name = Some (scope, c) \<and> \<not> expired_at (e_now env) c \<and> admits (allowed_of c) caller \<and>
        decrypt scope (c_value c) = Inr v \<and> meta = meta_of scope c)"
proof (cases "readable env st")
  case True
  show ?thesis
    using save_eq[of env]
    by (cases "map_of (on_disk st) name"; cases "map_of (sessionStore st) name"; cases "saves env")
      (auto simp: credentialResolve_def load_eq(1)[OF True] True effective_def split: sum.split)
next
  case False
  then show ?thesis
    using load_eq(2)[OF False] by (auto simp: credentialResolve_def)
qed

text \<open>What an operation that neither sets nor updates a name does to the entry of this name: it stays, or it is gone.\<close>

fun grants_name :: "string \<Rightarrow> 'e cred_op \<Rightarrow> bool" where
  "grants_name name (OpSet env n v persist policy allowed ttl) \<longleftrightarrow> n = name"
| "grants_name name (OpUpdate env n p) \<longleftrightarrow> n = name"
| "grants_name name _ \<longleftrightarrow> False"

lemma gone_iff:
  assumes "jmap_ok m"
  shows "name \<in> set (map fst (filter (\<lambda>(k, c). expired_at now c) m)) \<longleftrightarrow> (\<exists>c. map_of m name = Some c \<and> expired_at now c)"
  using jmap_ok_mem[OF assms] by (force simp: image_iff)

lemma effective_other:
  assumes "store_ok st" "\<not> grants_name name op"
  shows "effective (cred_step decrypt op st) name = effective st name \<or> effective (cred_step decrypt op st) name = None \<or>
    (\<exists>c. map_of (on_disk st) name = Some c \<and> effective (cred_step decrypt op st) name = Some (PersistentScope, c))"
proof (cases op)
  case (OpPurge env)
  then show ?thesis
    using gone_iff[of "on_disk st" name "e_now env"] assms(1) unfolding store_ok_disk
    by (auto simp: op_states effective_def Let_def amap.get_del_all split: option.split)
qed (use assms(2) in \<open>auto simp: op_states effective_def Let_def split: option.split cred_scope.split\<close>)

lemma effective_kept:
  assumes "store_ok st" "\<not> grants_name name op" "effective (cred_step decrypt op st) name = Some x"
  shows "effective st name = Some x"
  using effective_other[OF assms(1,2), of decrypt] assms(3) by (auto simp: effective_def)

lemma effective_run:
  assumes "store_ok st" "list_all (\<lambda>op. \<not> grants_name name op) ops" "effective (fold (cred_step decrypt) ops st) name = Some x"
  shows "effective st name = Some x"
  using assms
proof (induction ops arbitrary: st)
  case (Cons op ops)
  then show ?case
    using store_ok_step[of st decrypt op] effective_kept[of st name op decrypt x] by simp
qed simp

lemma patched_allowed: "cp_members p = Some ms \<Longrightarrow> allowed_of (patched p c) = membersToAllowed ms"
  by (simp add: patched_def allowed_of_def Let_def split: option.split)

text \<open>
  Property C10. A member that an update has shut out of a secret does not get it again: whatever else is called afterwards, with
  whatever disk failures, expiries and restarts of the file, until the name is set or updated anew. In particular an older
  session value under the same name does not come back when the file's record goes.
\<close>

theorem credential_revocation_final:
  assumes "store_ok st" "credentialUpdate env name p st = (Inr (Some answer), st1)" "cp_members p = Some ms"
    and "\<not> admits (membersToAllowed ms) (Some m)" "list_all (\<lambda>op. \<not> grants_name name op) ops"
  shows "fst (credentialResolve decrypt env' name (Some m) (fold (cred_step decrypt) ops st1)) \<noteq> Inr (Found v meta)"
proof
  assume "fst (credentialResolve decrypt env' name (Some m) (fold (cred_step decrypt) ops st1)) = Inr (Found v meta)"
  then obtain scope c where c: "effective (fold (cred_step decrypt) ops st1) name = Some (scope, c)" "admits (allowed_of c) (Some m)"
    unfolding resolve_found by blast
  have ok: "store_ok st1"
    using store_ok_step[OF assms(1), of decrypt "OpUpdate env name p"] assms(2) by simp
  have st1: "effective st1 name = Some (scope, c)"
    by (rule effective_run[OF ok assms(5) c(1)])
  have "\<exists>c0. c = patched p c0"
    using assms(2) st1 load_eq[of env st] save_eq[of env]
    by (cases "readable env st"; cases "saves env") (auto simp: credentialUpdate_def effective_def split: option.splits)
  then show False
    using c(2) assms(4) by (auto simp: patched_allowed[OF assms(3)])
qed

text \<open>
  A secret that is set and then asked for by an admitted member before it expires is given back exactly: always for a
  value kept in the file, and for a session value if the file has no record of the name. If it has one, that record answers.
\<close>

theorem credential_set_resolve:
  assumes cipher: "\<And>scope. decrypt scope (e_seal env scope v) = Inr v"
    and set: "credentialSet env name v persist policy allowed ttl st = (Inr meta, st1)"
    and ask: "readable env' st1" "admits allowed caller" "case ttl of Some s \<Rightarrow> e_now env' \<le> e_now env + s * 1000 | None \<Rightarrow> True"
  shows "if persist \<or> map_of (on_disk st) name = None
         then fst (credentialResolve decrypt env' name caller st1) = Inr (Found v meta)
         else fst (credentialResolve decrypt env' name caller st1) = fst (credentialResolve decrypt env' name caller (st1\<lparr>sessionStore := sessionStore st\<rparr>))"
proof (cases "persist \<or> map_of (on_disk st) name = None")
  case True
  let ?scope = "if persist then PersistentScope else SessionScope"
  define c where "c = \<lparr>c_name = name, c_policy = policy, c_created = e_now env, c_value = e_seal env ?scope v, c_allowed = Some allowed,
      c_expires = map_option (\<lambda>s. e_now env + s * 1000) ttl\<rparr>"
  have "effective st1 name = Some (?scope, c)" "meta = meta_of ?scope c"
    using set True load_eq[of env st] save_eq[of env]
    by (cases "readable env st"; cases "saves env"; cases persist;
        auto simp: credentialSet_def Let_def effective_def allowed_of_def meta_of_def c_def)+
  moreover have "c_value c = e_seal env ?scope v" "allowed_of c = allowed" "c_expires c = map_option (\<lambda>s. e_now env + s * 1000) ttl"
    by (simp_all add: c_def allowed_of_def)
  ultimately have "fst (credentialResolve decrypt env' name caller st1) = Inr (Found v meta)"
    using ask cipher unfolding resolve_found expired_at_def by (auto split: option.splits)
  then show ?thesis
    using True by simp
next
  case False
  have st1: "on_disk st1 = on_disk st" "readable env' (st1\<lparr>sessionStore := sessionStore st\<rparr>)"
    using set ask(1) False by (auto simp: credentialSet_def Let_def readable_def)
  obtain c where c: "map_of (on_disk st) name = Some c"
    using False by auto
  then show ?thesis
    using False st1 load_eq(1)[OF ask(1)] load_eq(1)[OF st1(2)] save_eq[of env']
    by (cases "saves env'") (auto simp: credentialResolve_def split: sum.split)
qed

subsection \<open>Instances\<close>

text \<open>A store with the plain text as its own cipher text.\<close>

definition plain_env :: "int \<Rightarrow> units cred_env" where
  "plain_env now = \<lparr>e_now = now, e_seal = (\<lambda>scope v. v), e_dir = None, e_write = None, e_rename = (\<lambda>n. None)\<rparr>"

definition demo_credentials :: "units cred_store" where
  "demo_credentials = snd (credentialSet (plain_env 1) ''K'' [115] True PolicyAllow Anyone None empty_cred_store)"

definition demo_shut_out :: cred_patch where
  "demo_shut_out = \<lparr>cp_members = Some ''m1'', cp_expires = None, cp_policy = None\<rparr>"

theorem credential_revocation_final_witness:
  "\<forall>v meta. fst (credentialResolve (\<lambda>scope v. Inr v) (plain_env 9) ''K'' (Some ''m2'')
      (fold (cred_step (\<lambda>scope v. Inr v)) [OpPurge (plain_env 8)] (snd (credentialUpdate (plain_env 2) ''K'' demo_shut_out demo_credentials))))
    \<noteq> Inr (Found v meta)"
proof -
  have "store_ok demo_credentials"
    by code_simp
  moreover have "fst (credentialUpdate (plain_env 2) ''K'' demo_shut_out demo_credentials) = Inr (Some (''m1'', PolicyAllow, None))"
    by code_simp
  then have "credentialUpdate (plain_env 2) ''K'' demo_shut_out demo_credentials =
      (Inr (Some (''m1'', PolicyAllow, None)), snd (credentialUpdate (plain_env 2) ''K'' demo_shut_out demo_credentials))"
    by (simp add: prod_eq_iff)
  moreover have "cp_members demo_shut_out = Some ''m1''"
    by (simp add: demo_shut_out_def)
  moreover have "\<not> admits (membersToAllowed ''m1'') (Some ''m2'')"
    by code_simp
  ultimately show ?thesis
    by (intro allI) (rule credential_revocation_final, simp_all)
qed

theorem credential_set_resolve_witness:
  "fst (credentialResolve (\<lambda>scope v. Inr v) (plain_env 5) ''K'' (Some ''m1'') demo_credentials)
    = Inr (Found [115] \<lparr>m_name = ''K'', m_scope = PersistentScope, m_policy = PolicyAllow, m_created = 1, m_allowed = Anyone, m_expires = None\<rparr>)"
proof -
  let ?meta = "\<lparr>m_name = ''K'', m_scope = PersistentScope, m_policy = PolicyAllow, m_created = 1, m_allowed = Anyone, m_expires = None\<rparr>"
  have "credentialSet (plain_env 1) ''K'' [115] True PolicyAllow Anyone None empty_cred_store = (Inr ?meta, demo_credentials)"
    by (simp add: demo_credentials_def prod_eq_iff) code_simp
  moreover have "(\<lambda>scope v. Inr v) scope (e_seal (plain_env 1) scope [115]) = Inr [115]" for scope
    by (simp add: plain_env_def)
  moreover have "readable (plain_env 5) demo_credentials" "admits Anyone (Some ''m1'')"
    by code_simp+
  ultimately show ?thesis
    using credential_set_resolve[of "\<lambda>scope v. Inr v" "plain_env 1" "[115]" "''K''" True PolicyAllow Anyone None empty_cred_store
        ?meta demo_credentials "plain_env 5" "Some ''m1''"] by simp
qed

text \<open>
  A record of an old file that has no audience: an update of its policy is written, and then fails.
\<close>

lemma update_saves_and_fails:
  "\<exists>st p st1. credentialUpdate (plain_env 0) ''K'' p st = (Inl (TypeError ''allowed.join''), st1) \<and> on_disk st1 \<noteq> on_disk st"
proof -
  let ?c = "\<lparr>c_name = ''K'', c_policy = PolicyAllow, c_created = 0, c_value = [] :: units, c_allowed = None, c_expires = None\<rparr>"
  let ?st = "\<lparr>sessionStore = [], cred_disk = Creds [(''K'', ?c)], taskCredentials = []\<rparr>"
  let ?p = "\<lparr>cp_members = None, cp_expires = None, cp_policy = Some PolicyDeny\<rparr>"
  have "fst (credentialUpdate (plain_env 0) ''K'' ?p ?st) = Inl (TypeError ''allowed.join'')"
    by code_simp
  moreover have "on_disk (snd (credentialUpdate (plain_env 0) ''K'' ?p ?st)) \<noteq> on_disk ?st"
    by code_simp
  ultimately show ?thesis
    by (metis prod.collapse)
qed

text \<open>A fresh session value under the name of an expired record of the file: the first lookup reports the expiry and drops both.\<close>

lemma expired_record_takes_session_along:
  "\<exists>st. fst (credentialResolve (\<lambda>scope v. Inr v) (plain_env 9) ''K'' None
          (snd (credentialSet (plain_env 8) ''K'' [110] False PolicyAllow Anyone None st))) = Inr Expired \<and>
        effective (snd (credentialResolve (\<lambda>scope v. Inr v) (plain_env 9) ''K'' None
          (snd (credentialSet (plain_env 8) ''K'' [110] False PolicyAllow Anyone None st)))) ''K'' = None"
proof (intro exI conjI)
  let ?st = "snd (credentialSet (plain_env 0) ''K'' [111] True PolicyAllow Anyone (Some 0) empty_cred_store)"
  show "fst (credentialResolve (\<lambda>scope v. Inr v) (plain_env 9) ''K'' None
      (snd (credentialSet (plain_env 8) ''K'' [110] False PolicyAllow Anyone None ?st))) = Inr Expired"
    by code_simp
  show "effective (snd (credentialResolve (\<lambda>scope v. Inr v) (plain_env 9) ''K'' None
      (snd (credentialSet (plain_env 8) ''K'' [110] False PolicyAllow Anyone None ?st)))) ''K'' = None"
    by code_simp
qed

end
