(* ===== verification/Placeholders.thy ===== *)
theory Placeholders
  imports Shell_Quote
begin

section \<open>Replacing placeholders\<close>

text \<open>
  \<^verbatim>\<open>String.prototype.replaceAll\<close> with a string as its pattern, with the patterns that the language gives a meaning in the replacement
  text, because the code passes quoted secrets there. A command is seen as the text between its placeholders and the placeholders;
  the locale says of a family of placeholders what makes one replacement fill in one kind of placeholder and nothing else.
\<close>

subsection \<open>Replacing text\<close>

text \<open>
  The replacement text: \<^verbatim>\<open>$$\<close> is a dollar, \<^verbatim>\<open>$&\<close> the match, the dollar with a backtick what precedes the match and with a quote what
  follows it. There are no groups, so other dollars stand for themselves.
\<close>

fun expand_template :: "units \<Rightarrow> units \<Rightarrow> units \<Rightarrow> units \<Rightarrow> units" where
  "expand_template matched before after [] = []"
| "expand_template matched before after [c] = [c]"
| "expand_template matched before after (c # d # t) =
     (if c = dollar then
        if d = dollar then dollar # expand_template matched before after t
        else if d = 38 then matched @ expand_template matched before after t
        else if d = backtick then before @ expand_template matched before after t
        else if d = single_quote then after @ expand_template matched before after t
        else c # expand_template matched before after (d # t)
      else c # expand_template matched before after (d # t))"

text \<open>The text from a position on, with what precedes it; the pattern is never empty where this is used.\<close>

function replace_from :: "units \<Rightarrow> units \<Rightarrow> units \<Rightarrow> units \<Rightarrow> units" where
  "replace_from pat tmpl before s =
     (if pat = [] then s
      else if s = [] then []
      else if take (length pat) s = pat
      then expand_template pat before (drop (length pat) s) tmpl @ replace_from pat tmpl (before @ pat) (drop (length pat) s)
      else hd s # replace_from pat tmpl (before @ [hd s]) (tl s))"
  by pat_completeness auto

termination
  by (relation "measure (\<lambda>(pat, tmpl, before, s). length s)") auto

declare replace_from.simps [simp del]

definition replaceAll :: "units \<Rightarrow> units \<Rightarrow> units \<Rightarrow> units" where
  "replaceAll s pat tmpl = replace_from pat tmpl [] s"

subsection \<open>Commands as pieces\<close>

text \<open>
  In a quiet text there are no two open braces in a row, nor is the last character one, so that no placeholder starts in it.
\<close>

datatype 'k piece = Text units | Token 'k

fun no_double_brace :: "units \<Rightarrow> bool" where
  "no_double_brace (c # d # s) \<longleftrightarrow> \<not> (c = 123 \<and> d = 123) \<and> no_double_brace (d # s)"
| "no_double_brace _ \<longleftrightarrow> True"

fun quiet :: "units \<Rightarrow> bool" where
  "quiet [] \<longleftrightarrow> True"
| "quiet [c] \<longleftrightarrow> c \<noteq> 123"
| "quiet (c # d # s) \<longleftrightarrow> \<not> (c = 123 \<and> d = 123) \<and> quiet (d # s)"

fun piece_ok :: "('k \<Rightarrow> bool) \<Rightarrow> 'k piece \<Rightarrow> bool" where
  "piece_ok legal (Text t) \<longleftrightarrow> quiet t"
| "piece_ok legal (Token k) \<longleftrightarrow> legal k"

fun piece_text :: "('k \<Rightarrow> units) \<Rightarrow> ('k \<Rightarrow> units option) \<Rightarrow> 'k piece \<Rightarrow> units" where
  "piece_text tok put (Text t) = t"
| "piece_text tok put (Token k) = (case put k of Some v \<Rightarrow> v | None \<Rightarrow> tok k)"

text \<open>The command with some of the placeholders filled in.\<close>

definition render :: "('k \<Rightarrow> units) \<Rightarrow> ('k \<Rightarrow> units option) \<Rightarrow> 'k piece list \<Rightarrow> units" where
  "render tok put ps = concat (map (piece_text tok put) ps)"

lemma render_simps [simp]:
  "render tok put [] = []"
  "render tok put (p # ps) = piece_text tok put p @ render tok put ps"
  by (simp_all add: render_def)

text \<open>A replacement text in which no dollar has a meaning.\<close>

fun inert :: "units \<Rightarrow> bool" where
  "inert (c # d # t) \<longleftrightarrow> \<not> (c = dollar \<and> d \<in> {dollar, 38, backtick, single_quote}) \<and> inert (d # t)"
| "inert _ \<longleftrightarrow> True"

lemma inert_plain: "dollar \<notin> set t \<Longrightarrow> inert t"
  by (induction t rule: inert.induct) auto

lemma inert_Cons: "c \<noteq> dollar \<Longrightarrow> inert (c # t) \<longleftrightarrow> inert t"
  by (cases t) simp_all

lemma expand_inert: "inert t \<Longrightarrow> expand_template m b a t = t"
  by (induction m b a t rule: expand_template.induct) auto

lemma expand_Cons: "c \<noteq> dollar \<Longrightarrow> expand_template m b a (c # t) = c # expand_template m b a t"
  by (cases t) simp_all

lemma expand_skip: "dollar \<notin> set t \<Longrightarrow> expand_template m b a (t @ u) = t @ expand_template m b a u"
  by (induction t) (auto simp: expand_Cons)

lemma replace_Nil [simp]: "replace_from pat tmpl before [] = []"
  by (simp add: replace_from.simps)

lemma replace_skip:
  "pat \<noteq> [] \<Longrightarrow> take (length pat) (c # s) \<noteq> pat \<Longrightarrow> replace_from pat tmpl before (c # s) = c # replace_from pat tmpl (before @ [c]) s"
  by (subst replace_from.simps) simp

lemma replace_hit:
  "pat \<noteq> [] \<Longrightarrow> inert tmpl \<Longrightarrow> replace_from pat tmpl before (pat @ rest) = tmpl @ replace_from pat tmpl (before @ pat) rest"
  by (subst replace_from.simps) (simp add: expand_inert)

lemma quiet_Cons: "quiet (c # s) \<Longrightarrow> quiet s"
  by (cases s) simp_all

lemma quiet_Cons_other: "c \<noteq> 123 \<Longrightarrow> quiet (c # s) \<longleftrightarrow> quiet s"
  by (cases s) simp_all

lemma quiet_no_brace: "123 \<notin> set u \<Longrightarrow> quiet u"
  by (induction u rule: quiet.induct) auto

lemma quiet_append: "quiet u \<Longrightarrow> quiet w \<Longrightarrow> quiet (u @ w)"
  by (induction u rule: quiet.induct) (auto simp: quiet_Cons_other)

lemma no_double_brace_Cons: "no_double_brace (c # s) \<Longrightarrow> no_double_brace s"
  by (cases s) simp_all

lemma replace_quiet:
  assumes "quiet u"
  shows "replace_from (123 # 123 # p) tmpl before (u @ rest) = u @ replace_from (123 # 123 # p) tmpl (before @ u) rest"
  using assms
proof (induction u arbitrary: before)
  case (Cons c u)
  have "take (length (123 # 123 # p)) (c # u @ rest) \<noteq> 123 # 123 # p"
    using Cons.prems by (cases u) auto
  then show ?case
    using Cons quiet_Cons replace_skip[of "123 # 123 # p" c "u @ rest" tmpl before] by simp
qed simp

subsection \<open>Families of placeholders\<close>

text \<open>Each placeholder opens with two braces and has no other open brace, and none is the beginning of another.\<close>

locale placeholder_family =
  fixes tok :: "'k \<Rightarrow> units" and legal :: "'k \<Rightarrow> bool"
  assumes opens: "legal k \<Longrightarrow> \<exists>c tail. tok k = 123 # 123 # c # tail \<and> 123 \<notin> set (c # tail)"
    and prefix_free: "legal k \<Longrightarrow> legal k' \<Longrightarrow> take (length (tok k)) (tok k' @ rest) = tok k \<Longrightarrow> k = k'"
begin

lemma replace_quiet_text:
  assumes "legal k" "quiet u"
  shows "replace_from (tok k) tmpl before (u @ rest) = u @ replace_from (tok k) tmpl (before @ u) rest"
  using opens[OF assms(1)] replace_quiet[OF assms(2)] by auto

lemma replace_other_token:
  assumes "legal k" "legal k'" "k \<noteq> k'"
  shows "replace_from (tok k) tmpl before (tok k' @ rest) = tok k' @ replace_from (tok k) tmpl (before @ tok k') rest"
proof -
  obtain c tail c' tail' where
    k: "tok k = 123 # 123 # c # tail" and k': "tok k' = 123 # 123 # c' # tail'" "123 \<notin> set (c' # tail')" "c \<noteq> 123"
    using opens[OF assms(1)] opens[OF assms(2)] by auto
  have "take (length (tok k)) (tok k' @ rest) \<noteq> tok k"
    using prefix_free[OF assms(1,2), of rest] assms(3) by blast
  then have "replace_from (tok k) tmpl before (tok k' @ rest) =
      123 # 123 # replace_from (tok k) tmpl (before @ [123, 123]) ((c' # tail') @ rest)"
    using replace_skip[of "tok k" 123 "123 # c' # tail' @ rest" tmpl before]
      replace_skip[of "tok k" 123 "c' # tail' @ rest" tmpl "before @ [123]"] k k' by auto
  then show ?thesis
    using replace_quiet_text[OF assms(1) quiet_no_brace[OF k'(2)], of tmpl "before @ [123, 123]" rest] k'(1) by simp
qed

text \<open>One placeholder in a text: it is replaced by what the replacement text stands for there.\<close>

lemma replace_one:
  assumes "legal k" "quiet pre" "quiet post"
  shows "replaceAll (pre @ tok k @ post) (tok k) tmpl = pre @ expand_template (tok k) pre post tmpl @ post"
proof -
  have "tok k \<noteq> []"
    using opens[OF assms(1)] by auto
  then have "replace_from (tok k) tmpl pre (tok k @ post) = expand_template (tok k) pre post tmpl @ replace_from (tok k) tmpl (pre @ tok k) post"
    by (subst replace_from.simps) simp
  then show ?thesis
    using replace_quiet_text[OF assms(1,2), of tmpl "[]" "tok k @ post"] replace_quiet_text[OF assms(1,3), of tmpl "pre @ tok k" "[]"]
    by (simp add: replaceAll_def)
qed

lemma replace_none: "legal k \<Longrightarrow> quiet u \<Longrightarrow> replaceAll u (tok k) tmpl = u"
  using replace_quiet_text[of k u tmpl "[]" "[]"] by (simp add: replaceAll_def)

lemma replace_absent:
  assumes "legal k" "legal k'" "k \<noteq> k'" "quiet pre" "quiet post"
  shows "replaceAll (pre @ tok k' @ post) (tok k) tmpl = pre @ tok k' @ post"
  using replace_quiet_text[OF assms(1,4), of tmpl "[]" "tok k' @ post"] replace_other_token[OF assms(1-3), of tmpl pre post]
    replace_quiet_text[OF assms(1,5), of tmpl "pre @ tok k'" "[]"] by (simp add: replaceAll_def)

lemma replace_render:
  assumes "list_all (piece_ok legal) ps" "legal k" "inert tmpl"
    and "\<And>k v. put k = Some v \<Longrightarrow> quiet v" "put k = None" "put' k = Some tmpl" "\<And>k'. k' \<noteq> k \<Longrightarrow> put' k' = put k'"
  shows "replaceAll (render tok put ps) (tok k) tmpl = render tok put' ps"
proof -
  have "tok k \<noteq> []"
    using opens[OF assms(2)] by auto
  then have "replace_from (tok k) tmpl before (render tok put ps) = render tok put' ps" for before
    using assms(1)
  proof (induction ps arbitrary: before)
    case (Cons p ps)
    show ?case
    proof (cases p)
      case (Token k')
      then show ?thesis
        using Cons replace_hit[of "tok k" tmpl] replace_other_token[OF assms(2), of k'] replace_quiet_text[OF assms(2) assms(4)] assms(3,5,6,7)
        by (cases "k' = k"; cases "put k'") auto
    qed (use Cons replace_quiet_text[OF assms(2)] in auto)
  qed simp
  then show ?thesis
    by (simp add: replaceAll_def)
qed

end

subsection \<open>How a POSIX shell reads the pieces\<close>

text \<open>A text that the shell reads as the given items, from one state of the quotes to another, whatever follows.\<close>

definition sh_reads :: "sh_mode \<Rightarrow> units \<Rightarrow> sh_item list \<Rightarrow> sh_mode \<Rightarrow> bool" where
  "sh_reads m t items m' \<longleftrightarrow> (\<forall>rest. sh_read m (t @ rest) = map_option ((@) items) (sh_read m' rest))"

lemma sh_reads_append: "sh_reads m t items m1 \<Longrightarrow> sh_reads m1 u more m2 \<Longrightarrow> sh_reads m (t @ u) (items @ more) m2"
  by (auto simp: sh_reads_def option.map_comp intro: option.map_cong)

lemma sh_reads_Nil [simp]: "sh_reads m [] [] m"
  by (auto simp: sh_reads_def split: option.split intro: option.map_ident[symmetric] cong: option.map_cong)

lemma sh_reads_whole: "sh_reads Bare t items Bare \<Longrightarrow> sh_read Bare t = Some items"
  unfolding sh_reads_def by (metis append_Nil2 option.simps(9) sh_read.simps(1))

text \<open>
  The reading a command is meant to have: its texts as the shell reads them, and for a placeholder, which must stand in the state
  of the quotes that it is made for, the characters of its value.
\<close>

inductive meant :: "('k \<Rightarrow> sh_mode) \<Rightarrow> ('k \<Rightarrow> units) \<Rightarrow> sh_mode \<Rightarrow> 'k piece list \<Rightarrow> sh_item list \<Rightarrow> sh_mode \<Rightarrow> bool"
  for stands :: "'k \<Rightarrow> sh_mode" and holds :: "'k \<Rightarrow> units" where
  meant_Nil: "meant stands holds m [] [] m"
| meant_Text: "sh_reads m t items m1 \<Longrightarrow> meant stands holds m1 ps more m2 \<Longrightarrow> meant stands holds m (Text t # ps) (items @ more) m2"
| meant_Token: "stands k = m \<Longrightarrow> meant stands holds m ps more m2 \<Longrightarrow> meant stands holds m (Token k # ps) (map Plain (holds k) @ more) m2"

lemma meant_read:
  assumes "meant stands holds m ps items m2"
    and "\<And>k. Token k \<in> set ps \<Longrightarrow> put k = Some (quoted k) \<and> sh_reads (stands k) (quoted k) (map Plain (holds k)) (stands k)"
  shows "sh_reads m (render tok put ps) items m2"
  using assms by (induction rule: meant.induct) (auto intro: sh_reads_append)

lemma escapeShellArg_reads: "sh_reads Bare (escapeShellArg v) (map Plain v) Bare"
  using inner_read[of v "single_quote # _"] by (simp add: sh_reads_def escapeShellArg_def)

lemma escapeShellArgInner_reads: "sh_reads InSingle (escapeShellArgInner v) (map Plain v) InSingle"
  by (simp add: sh_reads_def inner_read)

text \<open>A text without quotes, escapes and line ends is read character by character.\<close>

lemma bare_reads:
  assumes "list_all (\<lambda>c. c \<notin> {single_quote, double_quote, backslash}) t"
  shows "sh_reads Bare t (map (\<lambda>c. if sh_plain c then Plain c else Acted c) t) Bare"
proof -
  have one: "sh_read Bare (c # s) = map_option ((#) (if sh_plain c then Plain c else Acted c)) (sh_read Bare s)"
    if "c \<notin> {single_quote, double_quote, backslash}" for c s
    using that by (cases s) auto
  have "sh_reads Bare [c] [if sh_plain c then Plain c else Acted c] Bare" if "c \<notin> {single_quote, double_quote, backslash}" for c
    unfolding sh_reads_def append_Cons append_Nil one[OF that] by (auto intro: option.map_cong)
  then show ?thesis
    using assms
  proof (induction t)
    case (Cons c t)
    then show ?case
      using sh_reads_append[of Bare "[c]" "[if sh_plain c then Plain c else Acted c]" Bare t] by simp
  qed simp
qed

end
