(* ===== verification/Secret_Tokens.thy ===== *)
theory Secret_Tokens
  imports Credential_Store Placeholders
begin

section \<open>Secrets in commands\<close>

text \<open>
  How a secret gets into a command and out of its output: \<^verbatim>\<open>src/services/secret-token.ts\<close>, \<^verbatim>\<open>resolveSecretTokens\<close> and
  \<^verbatim>\<open>redactOutput\<close> of \<^verbatim>\<open>src/tools/execute-command.ts\<close>, and \<^verbatim>\<open>src/tools/vcs-credential-exec.ts\<close>. \<^verbatim>\<open>String.prototype.replaceAll\<close> is
  modelled with the patterns that the language gives a meaning in a replacement text, because the code passes secrets there.
\<close>

subsection \<open>Tokens\<close>

record token_match =
  tm_name :: units
  tm_legacy :: bool

definition token_open :: "bool \<Rightarrow> units" where
  "token_open legacy = (if legacy then units_of ''{{secure.'' else units_of ''{{secret.'')"

definition token_close :: units where
  "token_close = units_of ''}}''"

definition secret_token :: "bool \<Rightarrow> units \<Rightarrow> units" where
  "secret_token legacy name = token_open legacy @ name @ token_close"

definition formatSecretToken :: "units \<Rightarrow> units" where
  "formatSecretToken name = secret_token False name"

text \<open>The expression at a position: one of the two openings, one to 64 name characters, the closing.\<close>

definition token_here :: "bool \<Rightarrow> units \<Rightarrow> (token_match \<times> units) option" where
  "token_here legacy s =
     (if take (length (token_open legacy)) s = token_open legacy
      then let r = drop (length (token_open legacy)) s;
               name = takeWhile session_char r;
               rest = dropWhile session_char r
           in if name \<noteq> [] \<and> length name \<le> 64 \<and> take 2 rest = token_close then Some (\<lparr>tm_name = name, tm_legacy = legacy\<rparr>, drop 2 rest) else None
      else None)"

definition match_token :: "units \<Rightarrow> (token_match \<times> units) option" where
  "match_token s = (case token_here False s of Some x \<Rightarrow> Some x | None \<Rightarrow> token_here True s)"

lemma token_here_shorter: "token_here legacy s = Some (m, rest) \<Longrightarrow> length rest < length s"
proof -
  assume "token_here legacy s = Some (m, rest)"
  then have t: "take (length (token_open legacy)) s = token_open legacy"
    "rest = drop 2 (dropWhile session_char (drop (length (token_open legacy)) s))"
    by (auto simp: token_here_def Let_def split: if_splits)
  have "token_open legacy \<noteq> []"
    by (simp add: token_open_def units_of_def)
  then have "s \<noteq> []" "length (drop (length (token_open legacy)) s) < length s"
    using t(1) by (cases s; simp)+
  moreover have "length (dropWhile session_char (drop (length (token_open legacy)) s)) \<le> length (drop (length (token_open legacy)) s)"
    by (rule length_dropWhile_le)
  ultimately show ?thesis
    unfolding t(2) by simp
qed

lemma match_token_shorter: "match_token s = Some (m, rest) \<Longrightarrow> length rest < length s"
  by (auto simp: match_token_def dest: token_here_shorter split: option.splits)

function findSecretTokens :: "units \<Rightarrow> token_match list" where
  "findSecretTokens s =
     (case s of
        [] \<Rightarrow> []
      | c # t \<Rightarrow> (case match_token s of Some (m, rest) \<Rightarrow> m # findSecretTokens rest | None \<Rightarrow> findSecretTokens t))"
  by pat_completeness auto

termination
  by (relation "measure length") (auto dest: match_token_shorter)

declare findSecretTokens.simps [simp del]

definition hasSecretToken :: "units \<Rightarrow> bool" where
  "hasSecretToken s \<longleftrightarrow> findSecretTokens s \<noteq> []"

function redactSecretTokens :: "units \<Rightarrow> units" where
  "redactSecretTokens s =
     (case s of
        [] \<Rightarrow> []
      | c # t \<Rightarrow>
          (case match_token s of
             Some (m, rest) \<Rightarrow> units_of ''[REDACTED]'' @ redactSecretTokens rest
           | None \<Rightarrow> c # redactSecretTokens t))"
  by pat_completeness auto

termination
  by (relation "measure length") (auto dest: match_token_shorter)

declare redactSecretTokens.simps [simp del]

text \<open>A raw handle \<^verbatim>\<open>sec://NAME\<close>; here the dash is not a name character.\<close>

fun has_sec_handle :: "units \<Rightarrow> bool" where
  "has_sec_handle [] = False"
| "has_sec_handle (c # t) \<longleftrightarrow>
     (take 6 (c # t) = units_of ''sec://'' \<and>
        (case drop 6 (c # t) of [] \<Rightarrow> False | d # _ \<Rightarrow> session_char d \<and> d \<noteq> 45)) \<or> has_sec_handle t"

subsection \<open>Putting secrets into a command\<close>

record resolved_cred =
  rc_name :: units
  rc_plain :: units
  rc_policy :: network_policy

definition isPosixShell :: "bool \<Rightarrow> bool \<Rightarrow> bool" where
  "isPosixShell isWindows gitbash \<longleftrightarrow> \<not> isWindows \<or> gitbash"

text \<open>The distinct names in the order of their first token, as a \<^verbatim>\<open>Set\<close> keeps them.\<close>

definition distinct_names :: "token_match list \<Rightarrow> units list" where
  "distinct_names ms = rev (remdups (rev (map tm_name ms)))"

definition name_string :: "units \<Rightarrow> string" where
  "name_string s = map char_of s"

text \<open>\<open>ask\<close> is \<^verbatim>\<open>credentialResolve\<close> for the calling member, applied in turn to the store.\<close>

fun collect_creds ::
  "(string \<Rightarrow> 's \<Rightarrow> resolution res \<times> 's) \<Rightarrow> units list \<Rightarrow> 's \<Rightarrow> resolved_cred list res \<times> 's"
where
  "collect_creds ask [] st = (Inr [], st)"
| "collect_creds ask (n # ns) st =
     (case ask (name_string n) st of
        (Inl e, st1) \<Rightarrow> (Inl e, st1)
      | (Inr NotFound, st1) \<Rightarrow> (Inl (GeneralError ''not found''), st1)
      | (Inr Denied, st1) \<Rightarrow> (Inl (GeneralError ''denied''), st1)
      | (Inr Expired, st1) \<Rightarrow> (Inl (GeneralError ''expired''), st1)
      | (Inr (Found v meta), st1) \<Rightarrow>
          (case collect_creds ask ns st1 of
             (Inl e, st2) \<Rightarrow> (Inl e, st2)
           | (Inr cs, st2) \<Rightarrow> (Inr (\<lparr>rc_name = n, rc_plain = v, rc_policy = m_policy meta\<rparr> # cs), st2)))"

definition put_secret :: "bool \<Rightarrow> resolved_cred \<Rightarrow> units \<Rightarrow> units" where
  "put_secret posix cred command =
     (let escaped = (if posix then escapeShellArg (rc_plain cred) else escapePowerShellArg (rc_plain cred))
      in replaceAll (replaceAll command (secret_token False (rc_name cred)) escaped) (secret_token True (rc_name cred)) escaped)"

definition resolveSecretTokens ::
  "(string \<Rightarrow> 's \<Rightarrow> resolution res \<times> 's) \<Rightarrow> bool \<Rightarrow> units \<Rightarrow> 's \<Rightarrow> (units \<times> resolved_cred list \<times> units list) res \<times> 's"
where
  "resolveSecretTokens ask posix command st =
     (if has_sec_handle command then (Inl (GeneralError ''Credentials cannot be passed to LLM sessions''), st)
      else
        let tokens = findSecretTokens command
        in case collect_creds ask (distinct_names tokens) st of
             (Inl e, st1) \<Rightarrow> (Inl e, st1)
           | (Inr creds, st1) \<Rightarrow>
               (Inr (fold (put_secret posix) creds command, creds, map tm_name (filter tm_legacy tokens)), st1))"

definition redaction_mark :: "units \<Rightarrow> units" where
  "redaction_mark name = units_of ''[REDACTED:'' @ name @ units_of '']''"

definition redactOutput :: "units \<Rightarrow> resolved_cred list \<Rightarrow> units" where
  "redactOutput output creds =
     fold (\<lambda>cred out. if rc_plain cred = [] then out else replaceAll out (rc_plain cred) (redaction_mark (rc_name cred))) creds output"

subsection \<open>The tokens as placeholders\<close>

type_synonym token_key = "bool \<times> units"

definition token_text :: "token_key \<Rightarrow> units" where
  "token_text k = secret_token (fst k) (snd k)"

definition token_ok :: "token_key \<Rightarrow> bool" where
  "token_ok k \<longleftrightarrow> snd k \<noteq> [] \<and> length (snd k) \<le> 64 \<and> list_all session_char (snd k)"

lemma takeWhile_name:
  "list_all session_char name \<Longrightarrow> takeWhile session_char (name @ token_close @ rest) = name"
  "list_all session_char name \<Longrightarrow> dropWhile session_char (name @ token_close @ rest) = token_close @ rest"
  by (simp_all add: token_close_def units_of_def takeWhile_append2 dropWhile_append2 list_all_iff session_char_def)

lemma token_prefix:
  assumes "list_all session_char name" "list_all session_char name'"
    and "take (length (secret_token legacy name)) (secret_token legacy' name' @ rest) = secret_token legacy name"
  shows "legacy = legacy' \<and> name = name'"
proof -
  have len: "length (token_open legacy) = length (token_open legacy')"
    by (simp add: token_open_def units_of_def)
  obtain x where x: "token_open legacy' @ name' @ token_close @ rest = token_open legacy @ name @ token_close @ x"
    using assms(3) by (metis append_take_drop_id append.assoc secret_token_def)
  then have "token_open legacy' = token_open legacy" "name' @ token_close @ rest = name @ token_close @ x"
    using len append_eq_append_conv[of "token_open legacy'" "token_open legacy"] by auto
  moreover have "token_open legacy' = token_open legacy \<Longrightarrow> legacy = legacy'"
    by (auto simp: token_open_def units_of_def split: if_splits)
  ultimately show ?thesis
    using takeWhile_name(1)[OF assms(1), of x] takeWhile_name(1)[OF assms(2), of rest] by metis
qed

interpretation st: placeholder_family token_text token_ok
proof
  fix k :: token_key
  assume k: "token_ok k"
  define word where "word = (if fst k then units_of ''secure.'' else units_of ''secret.'')"
  obtain t where t: "word = 115 # t" "123 \<notin> set word"
    by (cases "fst k") (simp_all add: word_def units_of_def)
  have "token_text k = 123 # 123 # word @ snd k @ token_close"
    by (simp add: token_text_def secret_token_def token_open_def word_def units_of_def)
  moreover have "123 \<notin> set (snd k @ token_close)"
    using k by (auto simp: token_ok_def token_close_def units_of_def list_all_iff session_char_def)
  ultimately show "\<exists>c tail. token_text k = 123 # 123 # c # tail \<and> 123 \<notin> set (c # tail)"
    using t by auto
next
  fix k k' :: token_key and rest
  assume "token_ok k" "token_ok k'" "take (length (token_text k)) (token_text k' @ rest) = token_text k"
  then show "k = k'"
    unfolding token_ok_def token_text_def prod_eq_iff using token_prefix by blast
qed
subsection \<open>The command that is sent\<close>

lemma quiet_inner:
  assumes "no_double_brace v"
  shows "quiet (escapeShellArgInner v @ [single_quote])" "quiet (escapePowerShellArgInner v @ [single_quote])"
  using assms
proof (induction v rule: no_double_brace.induct)
  case (1 c d s)
  { case 1
    then show ?case
      using "1.IH"(1) by (cases "d = single_quote") (auto simp: quiet_Cons_other)
  next
    case 2
    then show ?case
      using "1.IH"(2) by (auto simp: quiet_Cons_other ps_single_quote_def)
  }
qed (auto simp: ps_single_quote_def)

definition quoted_secret :: "bool \<Rightarrow> units \<Rightarrow> units" where
  "quoted_secret posix v = (if posix then escapeShellArg v else escapePowerShellArg v)"

lemma quoted_quiet: "no_double_brace v \<Longrightarrow> quiet (quoted_secret posix v)"
  using quiet_inner[of v] by (simp add: quoted_secret_def escapeShellArg_def escapePowerShellArg_def quiet_Cons_other)

lemma quoted_no_dollar: "dollar \<notin> set v \<Longrightarrow> dollar \<notin> set (quoted_secret posix v)"
  by (auto simp: quoted_secret_def escapeShellArg_def escapeShellArgInner_def escapePowerShellArg_def escapePowerShellArgInner_def)

lemma inert_inner:
  assumes "inert (v @ [single_quote])"
  shows "inert (escapeShellArgInner v @ [single_quote])" "inert (escapePowerShellArgInner v @ [single_quote])"
  using assms
proof (induction v rule: inert.induct)
  case (1 c d s)
  { case 1
    then show ?case
      using "1.IH"(1) by (cases "d = single_quote") (auto simp: inert_Cons)
  next
    case 2
    then show ?case
      using "1.IH"(2) by (auto simp: inert_Cons ps_single_quote_def)
  }
qed (auto simp: ps_single_quote_def)

lemma quoted_inert: "inert (v @ [single_quote]) \<Longrightarrow> inert (quoted_secret posix v)"
  using inert_inner[of v] by (simp add: quoted_secret_def escapeShellArg_def escapePowerShellArg_def inert_Cons)

text \<open>
  Secrets that the replacement leaves alone: no dollar in front of a dollar, an ampersand, a backtick or a quote, none at the end,
  where the closing quote follows, and no two open braces in a row.
\<close>

definition tame :: "units \<Rightarrow> bool" where
  "tame v \<longleftrightarrow> inert (v @ [single_quote]) \<and> no_double_brace v"

definition filled :: "bool \<Rightarrow> resolved_cred list \<Rightarrow> token_key \<Rightarrow> units option" where
  "filled posix creds k = map_option (\<lambda>c. quoted_secret posix (rc_plain c)) (find (\<lambda>c. rc_name c = snd k) creds)"

lemma filled_snoc:
  assumes "rc_name c \<notin> rc_name ` set creds"
  shows "filled posix (creds @ [c]) k = (if snd k = rc_name c then Some (quoted_secret posix (rc_plain c)) else filled posix creds k)"
proof -
  have "find (\<lambda>x. rc_name x = rc_name c) creds = None"
    using assms unfolding find_None_iff by (metis imageI)
  then show ?thesis
    by (cases "snd k = rc_name c") (auto simp: filled_def find_append split: option.split)
qed

lemma filled_None: "rc_name c \<notin> rc_name ` set creds \<Longrightarrow> filled posix creds (l, rc_name c) = None"
  unfolding filled_def option.map_disc_iff find_None_iff by (metis imageI snd_conv)

lemma filled_quiet: "\<forall>c\<in>set creds. tame (rc_plain c) \<Longrightarrow> filled posix creds k = Some v \<Longrightarrow> quiet v"
  by (auto simp: filled_def tame_def find_Some_iff intro!: quoted_quiet)

lemma put_secrets:
  assumes "list_all (piece_ok token_ok) ps" "distinct (map rc_name creds)"
    and "\<forall>c\<in>set creds. tame (rc_plain c) \<and> token_ok (l, rc_name c)"
  shows "fold (put_secret posix) creds (render token_text Map.empty ps) = render token_text (filled posix creds) ps"
  using assms(2,3)
proof (induction creds rule: rev_induct)
  case Nil
  then show ?case by (simp add: filled_def[abs_def])
next
  case (snoc c creds)
  let ?v = "quoted_secret posix (rc_plain c)" and ?put = "filled posix creds"
  define mid where "mid k = (if k = (False, rc_name c) then Some ?v else ?put k)" for k
  have fresh: "rc_name c \<notin> rc_name ` set creds"
    using snoc.prems(1) by auto
  have quiet: "\<And>k v. ?put k = Some v \<Longrightarrow> quiet v" "quiet ?v" "inert ?v"
    using snoc.prems(2) filled_quiet[of creds] quoted_quiet quoted_inert unfolding tame_def by auto
  have ok: "token_ok (x, rc_name c)" for x
    using snoc.prems(2) by (simp add: token_ok_def)
  have "replaceAll (render token_text ?put ps) (token_text (False, rc_name c)) ?v = render token_text mid ps"
    by (rule st.replace_render[OF assms(1) ok quiet(3)]) (use quiet filled_None[OF fresh] in \<open>auto simp: mid_def\<close>)
  moreover have "replaceAll (render token_text mid ps) (token_text (True, rc_name c)) ?v = render token_text (filled posix (creds @ [c])) ps"
    by (rule st.replace_render[OF assms(1) ok quiet(3)])
      (use quiet filled_None[OF fresh] in \<open>auto simp: mid_def filled_snoc[OF fresh] split: if_splits\<close>)
  ultimately have "put_secret posix c (render token_text ?put ps) = render token_text (filled posix (creds @ [c])) ps"
    by (simp add: put_secret_def quoted_secret_def token_text_def Let_def)
  then show ?case
    using snoc by simp
qed

text \<open>The tokens of a command in pieces are found.\<close>

lemma match_quiet: "quiet (c # u) \<Longrightarrow> match_token (c # u @ rest) = None"
  by (cases u) (auto simp: match_token_def token_here_def token_open_def units_of_def)

lemma find_quiet: "quiet u \<Longrightarrow> findSecretTokens (u @ rest) = findSecretTokens rest"
proof (induction u)
  case (Cons c u)
  then show ?case
    using match_quiet[of c u rest] quiet_Cons[of c u] by (subst findSecretTokens.simps) simp
qed simp

lemma match_this:
  assumes "token_ok k"
  shows "match_token (token_text k @ rest) = Some (\<lparr>tm_name = snd k, tm_legacy = fst k\<rparr>, rest)"
proof -
  have here: "token_here (fst k) (token_text k @ rest) = Some (\<lparr>tm_name = snd k, tm_legacy = fst k\<rparr>, rest)"
    using assms takeWhile_name[of "snd k" rest]
    by (simp add: token_here_def token_text_def token_ok_def secret_token_def Let_def) (simp add: token_close_def units_of_def)
  have "fst k \<Longrightarrow> token_here False (token_text k @ rest) = None"
    by (simp add: token_here_def token_text_def secret_token_def token_open_def units_of_def)
  then show ?thesis
    using here by (cases "fst k") (simp_all add: match_token_def)
qed

fun tokens_of :: "token_key piece list \<Rightarrow> token_match list" where
  "tokens_of [] = []"
| "tokens_of (Text t # ps) = tokens_of ps"
| "tokens_of (Token k # ps) = \<lparr>tm_name = snd k, tm_legacy = fst k\<rparr> # tokens_of ps"

lemma find_render: "list_all (piece_ok token_ok) ps \<Longrightarrow> findSecretTokens (render token_text Map.empty ps) = tokens_of ps"
proof (induction ps rule: tokens_of.induct)
  case (3 k ps)
  have find: "match_token s = Some (m, rest) \<Longrightarrow> findSecretTokens s = m # findSecretTokens rest" for s m rest
    using match_token_shorter[of s m rest] by (subst findSecretTokens.simps) (cases s; simp)
  show ?case
    using 3 find[OF match_this[of k]] by simp
qed (simp_all add: findSecretTokens.simps[of "[]"] find_quiet)

lemma distinct_names_set: "set (distinct_names ms) = tm_name ` set ms" "distinct (distinct_names ms)"
  by (simp_all add: distinct_names_def)

lemma collect_names: "collect_creds ask ns st = (Inr creds, st1) \<Longrightarrow> map rc_name creds = ns"
  by (induction ask ns st arbitrary: creds st1 rule: collect_creds.induct) (auto split: prod.splits sum.splits resolution.splits)

lemma tokens_of_names: "tm_name ` set (tokens_of ps) = snd ` {k. Token k \<in> set ps}"
  by (induction ps rule: tokens_of.induct) (auto simp: image_iff)

text \<open>The secret that a resolved name stands for.\<close>

definition secret_of :: "resolved_cred list \<Rightarrow> token_key \<Rightarrow> units" where
  "secret_of creds k = (case find (\<lambda>c. rc_name c = snd k) creds of Some c \<Rightarrow> rc_plain c | None \<Rightarrow> [])"

text \<open>
  Property C9. When a command is resolved for a member with a POSIX shell, every token of it stands outside quotes, the text around the
  tokens has no other two open braces in a row, and no released secret has a dollar sign with a meaning for \<^verbatim>\<open>replaceAll\<close> (in front of a
  dollar, an ampersand, a backtick or a quote, or at its end) or two open braces in a row, the shell of the member reads the text
  around the tokens as it was written and, in place of each token, the characters of the secret that the store released for its
  name, all of them plain.
\<close>

theorem resolved_command_exact:
  assumes "list_all (piece_ok token_ok) ps"
    and "resolveSecretTokens ask True (render token_text Map.empty ps) st = (Inr (resolved, creds, legacy), st1)"
    and "\<forall>c\<in>set creds. tame (rc_plain c)"
    and "meant (\<lambda>_. Bare) (secret_of creds) Bare ps items Bare"
  shows "collect_creds ask (distinct_names (tokens_of ps)) st = (Inr creds, st1) \<and> sh_read Bare resolved = Some items"
proof -
  have col: "collect_creds ask (distinct_names (tokens_of ps)) st = (Inr creds, st1)"
    and res: "resolved = fold (put_secret True) creds (render token_text Map.empty ps)"
    using assms(2) find_render[OF assms(1)]
    by (auto simp: resolveSecretTokens_def Let_def split: if_splits prod.splits sum.splits)
  have names: "map rc_name creds = distinct_names (tokens_of ps)"
    by (rule collect_names[OF col])
  have set: "rc_name ` set creds = snd ` {k. Token k \<in> set ps}"
    using arg_cong[OF names, of set] distinct_names_set(1) tokens_of_names by simp
  have "token_ok (l, rc_name c)" if c: "c \<in> set creds" for c l
  proof -
    obtain k where "rc_name c = snd k" "Token k \<in> set ps"
      using imageI[OF c, of rc_name] unfolding set by auto
    then show ?thesis
      using assms(1) by (auto simp: list_all_iff token_ok_def)
  qed
  then have filled: "resolved = render token_text (filled True creds) ps"
    unfolding res by (intro put_secrets[OF assms(1)]) (use assms(3) names distinct_names_set(2) in simp_all)
  have "filled True creds k = Some (escapeShellArg (secret_of creds k))" if "Token k \<in> set ps" for k
  proof -
    have "snd k \<in> rc_name ` set creds"
      using that unfolding set by blast
    then have "find (\<lambda>c. rc_name c = snd k) creds \<noteq> None"
      by (auto simp: find_None_iff)
    then show ?thesis
      by (auto simp: filled_def secret_of_def quoted_secret_def)
  qed
  then have "sh_reads Bare (render token_text (filled True creds) ps) items Bare"
    by (intro meant_read[OF assms(4), of _ "\<lambda>k. escapeShellArg (secret_of creds k)"]) (simp add: escapeShellArg_reads)
  then show ?thesis
    using col filled sh_reads_whole by simp
qed

text \<open>A store that releases one secret under every name.\<close>

definition one_secret :: "units \<Rightarrow> string \<Rightarrow> unit \<Rightarrow> resolution res \<times> unit" where
  "one_secret v n st =
     (Inr (Found v \<lparr>m_name = n, m_scope = SessionScope, m_policy = PolicyAllow, m_created = 0, m_allowed = Anyone, m_expires = None\<rparr>), st)"

text \<open>\<^verbatim>\<open>echo {{secret.K}}\<close> with a secret that has a quote, a space and a harmless dollar in it.\<close>

definition echo_pieces :: "token_key piece list" where
  "echo_pieces = [Text (units_of ''echo ''), Token (False, units_of ''K'')]"

lemma echo_resolved:
  "resolveSecretTokens (one_secret v) True (render token_text Map.empty echo_pieces) () =
     (Inr (put_secret True \<lparr>rc_name = units_of ''K'', rc_plain = v, rc_policy = PolicyAllow\<rparr> (units_of ''echo {{secret.K}}''),
           [\<lparr>rc_name = units_of ''K'', rc_plain = v, rc_policy = PolicyAllow\<rparr>], []), ())"
proof -
  have command: "render token_text Map.empty echo_pieces = units_of ''echo {{secret.K}}''"
    by (simp add: echo_pieces_def token_text_def secret_token_def token_open_def token_close_def units_of_def)
  moreover have "findSecretTokens (units_of ''echo {{secret.K}}'') = [\<lparr>tm_name = units_of ''K'', tm_legacy = False\<rparr>]"
    by code_simp
  moreover have "\<not> has_sec_handle (units_of ''echo {{secret.K}}'')"
    by code_simp
  ultimately show ?thesis
    by (simp add: resolveSecretTokens_def distinct_names_def one_secret_def Let_def)
qed

theorem resolved_command_exact_witness:
  "sh_read Bare (fst (projr (fst (resolveSecretTokens (one_secret (units_of ''it's $a'')) True (render token_text Map.empty echo_pieces) ())))) =
     Some (map Plain (units_of ''echo'') @ [Acted blank_char] @ map Plain (units_of ''it's $a''))"
proof -
  let ?v = "units_of ''it's $a''"
  let ?c = "\<lparr>rc_name = units_of ''K'', rc_plain = ?v, rc_policy = PolicyAllow\<rparr>"
  let ?meant = "meant (\<lambda>_. Bare) (secret_of [?c]) Bare"
  have echo: "sh_reads Bare (units_of ''echo '') (map Plain (units_of ''echo'') @ [Acted blank_char]) Bare"
    using bare_reads[of "units_of ''echo ''"] by (simp add: units_of_def sh_plain_def session_char_def)
  have "?meant [Token (False, units_of ''K'')] (map Plain (secret_of [?c] (False, units_of ''K'')) @ []) Bare"
    by (rule meant_Token[OF refl meant_Nil])
  then have "?meant echo_pieces
      ((map Plain (units_of ''echo'') @ [Acted blank_char]) @ map Plain (secret_of [?c] (False, units_of ''K'')) @ []) Bare"
    unfolding echo_pieces_def by (rule meant_Text[OF echo])
  moreover have "list_all (piece_ok token_ok) echo_pieces" "tame ?v"
    by (simp_all add: echo_pieces_def token_ok_def tame_def units_of_def session_char_def)
  ultimately show ?thesis
    using resolved_command_exact[OF _ echo_resolved, of ?v] by (simp add: echo_resolved secret_of_def)
qed

subsection \<open>Dollar signs in a secret\<close>

text \<open>One token in a text without quotes: what the replacement makes of it.\<close>

lemma put_one_secret:
  assumes "token_ok k" "rc_name c = snd k" "quiet pre" "quiet post"
    and "quiet (pre @ expand_template (token_text k) pre post (escapeShellArg (rc_plain c)) @ post)"
  shows "put_secret True c (pre @ token_text k @ post) = pre @ expand_template (token_text k) pre post (escapeShellArg (rc_plain c)) @ post"
proof -
  have ok: "token_ok (l, rc_name c)" for l
    using assms(1,2) by (simp add: token_ok_def)
  have k: "k = (fst k, rc_name c)"
    using assms(2) by simp
  show ?thesis
  proof (cases "fst k")
    case True
    then have "replaceAll (pre @ token_text k @ post) (token_text (False, rc_name c)) e = pre @ token_text k @ post" for e
      using st.replace_absent[OF ok[of False] assms(1) _ assms(3,4)] k by (metis fst_conv)
    then show ?thesis
      using st.replace_one[OF assms(1,3,4)] k True by (simp add: put_secret_def token_text_def Let_def)
  next
    case False
    then show ?thesis
      using st.replace_one[OF assms(1,3,4)] st.replace_none[OF ok[of True] assms(5)] k by (simp add: put_secret_def token_text_def Let_def)
  qed
qed

lemma resolve_one:
  assumes "token_ok k" "quiet pre" "quiet post"
    and "resolveSecretTokens ask True (pre @ token_text k @ post) st = (Inr (resolved, creds, legacy), st1)"
  shows "\<exists>c. creds = [c] \<and> rc_name c = snd k \<and> resolved = put_secret True c (pre @ token_text k @ post)"
proof -
  have "findSecretTokens (pre @ token_text k @ post) = [\<lparr>tm_name = snd k, tm_legacy = fst k\<rparr>]"
    using find_render[of "[Text pre, Token k, Text post]"] assms(1-3) by simp
  then have col: "collect_creds ask [snd k] st = (Inr creds, st1)" and res: "resolved = fold (put_secret True) creds (pre @ token_text k @ post)"
    using assms(4) by (auto simp: resolveSecretTokens_def distinct_names_def Let_def split: if_splits prod.splits sum.splits)
  from collect_names[OF col] obtain c where "creds = [c]" "rc_name c = snd k"
    by auto
  then show ?thesis
    using res by simp
qed

lemma single_open: "single_quote \<notin> set t \<Longrightarrow> sh_read InSingle t = None"
  by (induction t) auto

lemma inner_no_dollar: "dollar \<notin> set v \<Longrightarrow> dollar \<notin> set (escapeShellArgInner v)"
  by (auto simp: escapeShellArgInner_def)

lemma inner_append: "escapeShellArgInner (u @ v) = escapeShellArgInner u @ escapeShellArgInner v"
  by (simp add: escapeShellArgInner_def)

lemma inner_quiet: "quiet v \<Longrightarrow> quiet (escapeShellArgInner v)"
  by (induction v rule: quiet.induct) (auto simp: escapeShellArgInner_def quiet_Cons_other split: if_splits)

definition bare_text :: "units \<Rightarrow> bool" where
  "bare_text t \<longleftrightarrow> quiet t \<and> list_all (\<lambda>c. c \<notin> {single_quote, double_quote, backslash}) t"

definition bare_items :: "units \<Rightarrow> sh_item list" where
  "bare_items t = map (\<lambda>c. if sh_plain c then Plain c else Acted c) t"

text \<open>
  A token between single quotes, as in the header of \<^verbatim>\<open>curl -H\<close> that the skill file for GitHub shows: the quotes that the secret brings
  close and reopen the quotes around it, so the secret itself is read outside quotes and its shell characters act.
\<close>

theorem secret_in_quotes_unquoted:
  assumes "list_all (\<lambda>c. c \<notin> {single_quote, double_quote, backslash}) v"
  shows "sh_reads InSingle (escapeShellArg v) (bare_items v) InSingle"
proof -
  have "escapeShellArgInner v = v"
    using assms by (induction v) (auto simp: escapeShellArgInner_def)
  then have "escapeShellArg v = [single_quote] @ v @ [single_quote]"
    by (simp add: escapeShellArg_def)
  moreover have "sh_reads InSingle [single_quote] [] Bare" "sh_reads Bare [single_quote] [] InSingle"
    by (auto simp: sh_reads_def split: option.split intro: option.map_ident[symmetric] cong: option.map_cong)
  ultimately show ?thesis
    using sh_reads_append[OF _ sh_reads_append[OF bare_reads[OF assms]]] by (fastforce simp: bare_items_def)
qed

text \<open>
  Property C28. What becomes of a secret with a dollar sign that has a meaning for \<^verbatim>\<open>replaceAll\<close>, for any token and any text without
  quotes, backslashes and double braces around it: if the one dollar of the secret is its last character, the closing quote of the
  secret is replaced by the text after the token, so that this text appears twice inside the open quote and the shell finds no end of it;
  and where the secret has two dollars in a row and no other, the shell reads it with one of them.
\<close>

theorem dollar_secret_corrupted:
  assumes "token_ok k" "bare_text pre" "bare_text post"
    and "resolveSecretTokens ask True (pre @ token_text k @ post) st = (Inr (resolved, creds, legacy), st1)"
  shows "\<exists>c. creds = [c] \<and> rc_name c = snd k \<and>
    (\<forall>w. rc_plain c = w @ [dollar] \<longrightarrow> dollar \<notin> set w \<longrightarrow> quiet w \<longrightarrow>
       resolved = pre @ [single_quote] @ escapeShellArgInner w @ post @ post \<and> sh_read Bare resolved = None) \<and>
    (\<forall>v w. rc_plain c = v @ [dollar, dollar] @ w \<longrightarrow> dollar \<notin> set (v @ w) \<longrightarrow> quiet v \<longrightarrow> quiet w \<longrightarrow>
       sh_read Bare resolved = Some (bare_items pre @ map Plain (v @ [dollar] @ w) @ bare_items post))"
proof -
  have q: "quiet pre" "quiet post" and bare: "sh_reads Bare pre (bare_items pre) Bare" "sh_reads Bare post (bare_items post) Bare"
    using assms(2,3) bare_reads by (simp_all add: bare_text_def bare_items_def)
  obtain c where c: "creds = [c]" "rc_name c = snd k" "resolved = put_secret True c (pre @ token_text k @ post)"
    using resolve_one[OF assms(1) q assms(4)] by blast
  note put = put_one_secret[OF assms(1) c(2) q]
  have quote: "quiet [single_quote]" "dollar \<noteq> single_quote"
    by simp_all
  have one: "resolved = pre @ [single_quote] @ escapeShellArgInner w @ post @ post \<and> sh_read Bare resolved = None"
    if w: "rc_plain c = w @ [dollar]" "dollar \<notin> set w" "quiet w" for w
  proof -
    have "escapeShellArg (rc_plain c) = ([single_quote] @ escapeShellArgInner w) @ [dollar, single_quote]"
      by (simp add: w(1) escapeShellArg_def inner_append)
    then have e: "expand_template (token_text k) pre post (escapeShellArg (rc_plain c)) = [single_quote] @ escapeShellArgInner w @ post"
      using expand_skip[of "[single_quote] @ escapeShellArgInner w" "token_text k" pre post "[dollar, single_quote]"] inner_no_dollar[OF w(2)] by simp
    have "quiet (pre @ ([single_quote] @ escapeShellArgInner w @ post) @ post)"
      by (intro quiet_append q quote inner_quiet w)
    then have res: "resolved = pre @ [single_quote] @ escapeShellArgInner w @ post @ post"
      using put c(3) by (simp add: e)
    have "single_quote \<notin> set (post @ post)"
      using assms(3) by (auto simp: bare_text_def list_all_iff)
    then have "sh_read InSingle (escapeShellArgInner w @ post @ post) = None"
      using inner_read[of w "post @ post"] single_open by simp
    then show ?thesis
      using bare(1) res by (simp add: sh_reads_def)
  qed
  have two: "sh_read Bare resolved = Some (bare_items pre @ map Plain (v @ [dollar] @ w) @ bare_items post)"
    if w: "rc_plain c = v @ [dollar, dollar] @ w" "dollar \<notin> set (v @ w)" "quiet v" "quiet w" for v w
  proof -
    have "escapeShellArg (rc_plain c) = ([single_quote] @ escapeShellArgInner v) @ [dollar, dollar] @ (escapeShellArgInner w @ [single_quote])"
      by (simp add: w(1) escapeShellArg_def inner_append)
    moreover have "expand_template (token_text k) pre post (escapeShellArgInner w @ [single_quote]) = escapeShellArgInner w @ [single_quote]"
      using inner_no_dollar[of w] w(2) by (intro expand_inert inert_plain) simp
    ultimately have "expand_template (token_text k) pre post (escapeShellArg (rc_plain c)) =
        [single_quote] @ escapeShellArgInner v @ [dollar] @ escapeShellArgInner w @ [single_quote]"
      using expand_skip[of "[single_quote] @ escapeShellArgInner v" "token_text k" pre post
          "[dollar, dollar] @ (escapeShellArgInner w @ [single_quote])"] inner_no_dollar[of v] w(2) by simp
    moreover have q3: "escapeShellArg (v @ [dollar] @ w) = [single_quote] @ escapeShellArgInner v @ [dollar] @ escapeShellArgInner w @ [single_quote]"
      by (simp add: escapeShellArg_def inner_append)
    ultimately have e: "expand_template (token_text k) pre post (escapeShellArg (rc_plain c)) = escapeShellArg (v @ [dollar] @ w)"
      by simp
    have "quiet (pre @ ([single_quote] @ escapeShellArgInner v @ [dollar] @ escapeShellArgInner w @ [single_quote]) @ post)"
      by (intro quiet_append q quote inner_quiet w) simp
    then have "resolved = pre @ escapeShellArg (v @ [dollar] @ w) @ post"
      unfolding q3[symmetric] using put[unfolded e] c(3) by simp
    then show ?thesis
      using sh_reads_whole[OF sh_reads_append[OF bare(1) sh_reads_append[OF escapeShellArg_reads[of "v @ [dollar] @ w"] bare(2)]]] by simp
  qed
  show ?thesis
    using c(1,2) one two by blast
qed

theorem dollar_secret_corrupted_witness:
  "sh_read Bare (fst (projr (fst (resolveSecretTokens (one_secret (units_of ''p$'')) True (render token_text Map.empty echo_pieces) ())))) = None"
proof -
  have cmd: "render token_text Map.empty echo_pieces = units_of ''echo '' @ token_text (False, units_of ''K'') @ []"
    by (simp add: echo_pieces_def)
  have ok: "token_ok (False, units_of ''K'')" "bare_text (units_of ''echo '')" "bare_text []"
    by (simp_all add: token_ok_def bare_text_def units_of_def session_char_def)
  have secret: "units_of ''p$'' = units_of ''p'' @ [dollar]" "dollar \<notin> set (units_of ''p'')" "quiet (units_of ''p'')"
    by (simp_all add: units_of_def)
  let ?c = "\<lparr>rc_name = units_of ''K'', rc_plain = units_of ''p$'', rc_policy = PolicyAllow\<rparr>"
  have "sh_read Bare (put_secret True ?c (units_of ''echo {{secret.K}}'')) = None"
    using dollar_secret_corrupted[OF ok echo_resolved[unfolded cmd, of "units_of ''p$''"]] secret by fastforce
  then show ?thesis
    by (simp add: echo_resolved)
qed

end
