(* ===== verification/Vcs_Exec.thy ===== *)
theory Vcs_Exec
  imports Secret_Tokens Member_Reservation "HOL-Library.Sublist"
begin

section \<open>Running a command with the credential of a member\<close>

text \<open>
  \<^verbatim>\<open>src/tools/vcs-credential-exec.ts\<close>: the server runs the credential helper of a member, puts the token into a command in place of a
  placeholder, runs the command on the member and takes the token out of what it returns. The commands of
  \<^verbatim>\<open>src/os\<close> that it uses are modelled too: reading the helper and wrapping a command, for the three kinds of members, and writing the
  helper on a POSIX member. The connection to the member is a parameter, an operation on its state that answers with an exit code and two
  streams or throws.
\<close>

subsection \<open>Splitting and joining\<close>

text \<open>\<^verbatim>\<open>String.prototype.split\<close> by a text that is not empty, and \<^verbatim>\<open>Array.prototype.join\<close>.\<close>

function split_from :: "units \<Rightarrow> units \<Rightarrow> units \<Rightarrow> units list" where
  "split_from sep part s =
     (if sep = [] \<or> s = [] then [part @ s]
      else if take (length sep) s = sep then part # split_from sep [] (drop (length sep) s)
      else split_from sep (part @ [hd s]) (tl s))"
  by pat_completeness auto

termination
  by (relation "measure (\<lambda>(sep, part, s). length s)") auto

declare split_from.simps [simp del]

definition split_on :: "units \<Rightarrow> units \<Rightarrow> units list" where
  "split_on s sep = split_from sep [] s"

fun join_with :: "units \<Rightarrow> units list \<Rightarrow> units" where
  "join_with sep [] = []"
| "join_with sep [p] = p"
| "join_with sep (p # q # ps) = p @ sep @ join_with sep (q # ps)"

lemma split_from_not_empty [simp]: "split_from sep part s \<noteq> []"
  by (induction sep part s rule: split_from.induct) (subst split_from.simps, auto)

lemma join_Cons: "ps \<noteq> [] \<Longrightarrow> join_with sep (p # ps) = p @ sep @ join_with sep ps"
  by (cases ps) simp_all

lemma split_join: "join_with sep (split_from sep part s) = part @ s"
proof (induction sep part s rule: split_from.induct)
  case (1 sep part s)
  show ?case
  proof (cases "sep = [] \<or> s = []")
    case True
    then show ?thesis
      by (subst split_from.simps) simp
  next
    case False
    have "take (length sep) s = sep \<Longrightarrow> sep @ drop (length sep) s = s"
      using append_take_drop_id[of "length sep" s] by metis
    then show ?thesis
      using 1 False by (subst split_from.simps) (auto simp: join_Cons)
  qed
qed

text \<open>No part has the separator in it: up to the part that is being built, no occurrence starts.\<close>

lemma split_no_sep:
  assumes "sep \<noteq> []" "\<And>u v. part = u @ v \<Longrightarrow> v \<noteq> [] \<Longrightarrow> take (length sep) (v @ s) \<noteq> sep"
  shows "p \<in> set (split_from sep part s) \<Longrightarrow> \<not> sublist sep p"
  using assms
proof (induction sep part s rule: split_from.induct)
  case (1 sep part s)
  have this_part: "\<not> sublist sep part"
  proof
    assume "sublist sep part"
    then obtain u w where "part = u @ sep @ w"
      by (auto simp: sublist_def)
    then show False
      using 1(5)[of u "sep @ w"] 1(4) by simp
  qed
  show ?case
  proof (cases "s = []")
    case True
    then show ?thesis
      using 1(3) this_part 1(4) by (subst (asm) split_from.simps) simp
  next
    case False
    have "take (length sep) (v @ tl s) \<noteq> sep"
      if miss: "take (length sep) s \<noteq> sep" and uv: "part @ [hd s] = u @ v" "v \<noteq> []" for u v
    proof -
      obtain v' where v': "v = v' @ [hd s]" "part = u @ v'"
        using uv by (cases v rule: rev_cases) auto
      then have "v @ tl s = v' @ s"
        using False by simp
      then show ?thesis
        using miss 1(5)[of u v'] v' by (cases "v' = []") auto
    qed
    then show ?thesis
      using 1(1,2,3,4) False this_part by (subst (asm) (3) split_from.simps) (auto split: if_splits)
  qed
qed

lemma replace_is_split:
  assumes "pat \<noteq> []" "dollar \<notin> set tmpl"
  shows "part @ replace_from pat tmpl before s = join_with tmpl (split_from pat part s)"
  using assms
proof (induction pat part s arbitrary: before rule: split_from.induct)
  case (1 pat part s)
  show ?case
  proof (cases "s = []")
    case True
    then show ?thesis
      using 1 by (subst split_from.simps) simp
  next
    case False
    then show ?thesis
      using 1(1)[of "before @ pat"] 1(2)[of "before @ [hd s]"] 1(3,4) expand_inert[OF inert_plain, of tmpl]
      by (subst split_from.simps, subst replace_from.simps) (simp add: join_Cons)
  qed
qed

subsection \<open>The commands of a member\<close>

datatype member_os = OsLinux | OsMacos | OsWindows

text \<open>The three implementations that \<^verbatim>\<open>getOsCommands\<close> chooses from; the one of macOS takes the commands below from the one of Linux.\<close>

datatype os_commands = PosixCommands | WindowsCommands | WindowsGitBashCommands

definition getOsCommands :: "member_os \<Rightarrow> bool \<Rightarrow> os_commands" where
  "getOsCommands os gitbash =
     (if os = OsWindows \<and> gitbash then WindowsGitBashCommands
      else if os = OsWindows then WindowsCommands else PosixCommands)"

definition in_quotes :: "units \<Rightarrow> units" where
  "in_quotes s = [double_quote] @ s @ [double_quote]"

text \<open>A label that is missing or empty is falsy.\<close>

definition label_given :: "units option \<Rightarrow> units option" where
  "label_given label = (case label of Some l \<Rightarrow> if l = [] then None else Some l | None \<Rightarrow> None)"

definition label_slug :: "units \<Rightarrow> bool" where
  "label_slug l \<longleftrightarrow> l \<noteq> [] \<and> list_all (\<lambda>c. session_char c \<or> c = 46) l"

definition credFile :: "(units \<Rightarrow> units) \<Rightarrow> units option \<Rightarrow> units" where
  "credFile esc label =
     (case label_given label of
        Some l \<Rightarrow> units_of ''.fleet-git-credential-'' @ esc l
      | None \<Rightarrow> units_of ''.fleet-git-credential'')"

text \<open>The command that runs the helper, and its path for the messages.\<close>

definition gitCredentialHelperRead :: "os_commands \<Rightarrow> units option \<Rightarrow> (units \<times> units) res" where
  "gitCredentialHelperRead cmds label =
     (case cmds of
        PosixCommands \<Rightarrow>
          (let path = units_of ''$HOME/'' @ credFile escapeDoubleQuoted label in Inr (in_quotes path, path))
      | WindowsGitBashCommands \<Rightarrow>
          (let path = units_of ''$HOME/'' @ credFile escapeDoubleQuoted label @ units_of ''.bat'' in Inr (in_quotes path, path))
      | WindowsCommands \<Rightarrow>
          (if (case label of Some l \<Rightarrow> \<not> label_slug l | None \<Rightarrow> False)
           then Inl (GeneralError ''Refusing to build a Windows credential-read command for unsafe VCS credential label'')
           else
             let path = units_of ''$env:USERPROFILE'' @ [backslash] @ credFile id label @ units_of ''.bat''
             in Inr (units_of ''& '' @ in_quotes path, path)))"

definition pidWrapUnix :: "units \<Rightarrow> units" where
  "pidWrapUnix cmd =
     units_of ''{ '' @ cmd @ units_of ''; } & _fleet_pid=$!; printf '' @ [single_quote] @ units_of ''FLEET_PID:%s'' @ [backslash, 110, single_quote]
     @ [blank_char] @ in_quotes (units_of ''$_fleet_pid'') @ units_of ''; wait '' @ in_quotes (units_of ''$_fleet_pid'') @ units_of ''; exit $?''"

definition wrapPidCapture :: "os_commands \<Rightarrow> units \<Rightarrow> units" where
  "wrapPidCapture cmds command =
     (if cmds = WindowsCommands
      then units_of ''Write-Output '' @ in_quotes (units_of ''FLEET_PID:$pid'') @ units_of ''; '' @ command
      else pidWrapUnix command)"

subsection \<open>The tool\<close>

datatype vcs_reason =
    VcsOk | VcsMemberNotFound | PlaceholderMissing | UnsupportedMemberOs | CredentialReadFailed | CredentialEmpty | UsernameEmpty
  | DispatchFailed

record vcs_result =
  vr_text :: units
  vr_ok :: bool
  vr_reason :: vcs_reason
  vr_exitCode :: "int option"
  vr_stdout :: units
  vr_stderr :: units
  vr_redactions :: nat
  vr_label :: "units option"
  vr_memberId :: "string option"
  vr_memberName :: "string option"

record vcs_input =
  vi_member_id :: "string option"
  vi_member_name :: "string option"
  vi_command :: units
  vi_label :: "units option"
  vi_timeout_s :: "nat option"

record exec_out =
  eo_code :: int
  eo_stdout :: units
  eo_stderr :: units

text \<open>
  What the tool asks of others: the registry, the system and shell recorded for a member, and the connection to it, on whose state
  \<open>'s\<close> a command with a time limit in milliseconds runs; a connection that throws gives its message.
\<close>

record 's vcs_env =
  ve_registry :: registry
  ve_os :: "agent \<Rightarrow> member_os"
  ve_gitbash :: "agent \<Rightarrow> bool"
  ve_exec :: "agent \<Rightarrow> units \<Rightarrow> nat \<Rightarrow> 's \<Rightarrow> (units + exec_out) \<times> 's"

datatype vcs_slot = TokenSlot | TokenInlineSlot | UsernameSlot | UsernameInlineSlot

fun vcs_placeholder :: "vcs_slot \<Rightarrow> units" where
  "vcs_placeholder TokenSlot = units_of ''{{vcs_token}}''"
| "vcs_placeholder TokenInlineSlot = units_of ''{{vcs_token_inline}}''"
| "vcs_placeholder UsernameSlot = units_of ''{{vcs_username}}''"
| "vcs_placeholder UsernameInlineSlot = units_of ''{{vcs_username_inline}}''"

text \<open>\<^verbatim>\<open>String.prototype.includes\<close>.\<close>

fun has_text :: "units \<Rightarrow> units \<Rightarrow> bool" where
  "has_text [] t \<longleftrightarrow> t = []"
| "has_text (c # s) t \<longleftrightarrow> take (length t) (c # s) = t \<or> has_text s t"

text \<open>The multi-line expressions \<^verbatim>\<open>^password=(.*)$\<close> and \<^verbatim>\<open>^username=(.*)$\<close>: the rest of the first line that begins with the key.\<close>

definition line_end :: "nat \<Rightarrow> bool" where
  "line_end c \<longleftrightarrow> c \<in> {10, 13, 0x2028, 0x2029}"

fun text_lines :: "units \<Rightarrow> units list" where
  "text_lines [] = [[]]"
| "text_lines (c # s) =
     (if line_end c then [] # text_lines s
      else case text_lines s of l # ls \<Rightarrow> (c # l) # ls | [] \<Rightarrow> [[c]])"

definition trim :: "units \<Rightarrow> units" where
  "trim s = rev (dropWhile unit_space (rev (dropWhile unit_space s)))"

definition helper_field :: "units \<Rightarrow> units \<Rightarrow> units" where
  "helper_field key out =
     (case find (\<lambda>l. take (length key) l = key) (text_lines out) of
        Some l \<Rightarrow> trim (drop (length key) l)
      | None \<Rightarrow> [])"

definition redactSecret :: "units \<Rightarrow> units \<Rightarrow> units \<Rightarrow> units \<times> nat" where
  "redactSecret out secret marker =
     (if secret = [] then (out, 0)
      else let parts = split_on out secret in (join_with marker parts, length parts - 1))"

definition token_mark :: units where
  "token_mark = units_of ''[REDACTED:vcs_token]''"

definition username_mark :: units where
  "username_mark = units_of ''[REDACTED:vcs_username]''"

definition redactCredentials :: "units \<Rightarrow> units \<Rightarrow> bool \<Rightarrow> units \<Rightarrow> units \<times> nat" where
  "redactCredentials token username needsUsername out =
     (let t = redactSecret out token token_mark
      in if needsUsername then
           let u = redactSecret (fst t) username username_mark in (fst u, snd t + snd u)
         else t)"

definition vcs_value :: "bool \<Rightarrow> units \<Rightarrow> units \<Rightarrow> vcs_slot \<Rightarrow> units" where
  "vcs_value posix token username k =
     (case k of
        TokenSlot \<Rightarrow> (if posix then escapeShellArg token else escapePowerShellArg token)
      | TokenInlineSlot \<Rightarrow> (if posix then escapeShellArgInner token else escapePowerShellArgInner token)
      | UsernameSlot \<Rightarrow> (if posix then escapeShellArg username else escapePowerShellArg username)
      | UsernameInlineSlot \<Rightarrow> (if posix then escapeShellArgInner username else escapePowerShellArgInner username))"

definition finalCommand :: "bool \<Rightarrow> units \<Rightarrow> units \<Rightarrow> units \<Rightarrow> units" where
  "finalCommand posix token username command =
     fold (\<lambda>k s. replaceAll s (vcs_placeholder k) (vcs_value posix token username k))
       [TokenSlot, TokenInlineSlot, UsernameSlot, UsernameInlineSlot] command"

definition vcs_fail :: "vcs_input \<Rightarrow> agent \<Rightarrow> vcs_reason \<Rightarrow> units \<Rightarrow> vcs_result" where
  "vcs_fail inp a why msg =
     \<lparr>vr_text = msg, vr_ok = False, vr_reason = why, vr_exitCode = None, vr_stdout = [], vr_stderr = [], vr_redactions = 0,
      vr_label = vi_label inp, vr_memberId = Some (ag_id a), vr_memberName = Some (ag_name a)\<rparr>"

definition needs_username :: "vcs_input \<Rightarrow> bool" where
  "needs_username inp \<longleftrightarrow>
     has_text (vi_command inp) (vcs_placeholder UsernameSlot) \<or> has_text (vi_command inp) (vcs_placeholder UsernameInlineSlot)"

text \<open>
  The last two steps: the command is run, and both streams, or the message of a failure, are redacted. The messages are shortened; what
  they take from the member or from the connection is kept.
\<close>

definition vcs_dispatch ::
  "'s vcs_env \<Rightarrow> vcs_input \<Rightarrow> agent \<Rightarrow> units \<Rightarrow> units \<Rightarrow> 's \<Rightarrow> vcs_result \<times> 's"
where
  "vcs_dispatch env inp a token username st =
     (let posix = isPosixShell (ve_os env a = OsWindows) (ve_gitbash env a);
          command = finalCommand posix token username (vi_command inp);
          cmds = getOsCommands (ve_os env a) (ve_gitbash env a);
          redact = redactCredentials token username (needs_username inp);
          limit = (case vi_timeout_s inp of Some t \<Rightarrow> t | None \<Rightarrow> 120) * 1000
      in case ve_exec env a (wrapPidCapture cmds command) limit st of
           (Inl msg, st1) \<Rightarrow>
             ((vcs_fail inp a DispatchFailed
                 (units_of ''[FAIL] Command dispatch failed on '' @ in_quotes (units_of (ag_name a)) @ units_of '': '' @ fst (redact msg)))
                \<lparr>vr_stderr := fst (redact msg), vr_redactions := snd (redact msg)\<rparr>, st1)
         | (Inr r, st1) \<Rightarrow>
             ((vcs_fail inp a VcsOk
                 (units_of ''[OK] Ran credential-requiring command on '' @ in_quotes (units_of (ag_name a))))
                \<lparr>vr_ok := True, vr_exitCode := Some (eo_code r), vr_stdout := fst (redact (eo_stdout r)), vr_stderr := fst (redact (eo_stderr r)),
                 vr_redactions := snd (redact (eo_stdout r)) + snd (redact (eo_stderr r))\<rparr>, st1))"

definition vcsCredentialExec :: "'s vcs_env \<Rightarrow> vcs_input \<Rightarrow> 's \<Rightarrow> vcs_result \<times> 's" where
  "vcsCredentialExec env inp st =
     (case resolveMember (ve_registry env) (vi_member_id inp) (vi_member_name inp) of
        Inl e \<Rightarrow>
          (\<lparr>vr_text = units_of e, vr_ok = False, vr_reason = VcsMemberNotFound, vr_exitCode = None, vr_stdout = [], vr_stderr = [], vr_redactions = 0,
            vr_label = None, vr_memberId = vi_member_id inp, vr_memberName = vi_member_name inp\<rparr>, st)
      | Inr a \<Rightarrow>
          if \<not> has_text (vi_command inp) (vcs_placeholder TokenSlot) \<and> \<not> has_text (vi_command inp) (vcs_placeholder TokenInlineSlot)
          then (vcs_fail inp a PlaceholderMissing (units_of ''[FAIL] command must contain {{vcs_token}} or {{vcs_token_inline}}''), st)
          else
            case gitCredentialHelperRead (getOsCommands (ve_os env a) (ve_gitbash env a)) (vi_label inp) of
              Inl e \<Rightarrow> (vcs_fail inp a UnsupportedMemberOs (units_of ''[FAIL] Cannot read a VCS credential on '' @ in_quotes (units_of (ag_name a))), st)
            | Inr (command, path) \<Rightarrow>
                (case ve_exec env a command 15000 st of
                   (Inl msg, st1) \<Rightarrow>
                     (vcs_fail inp a CredentialReadFailed (units_of ''[FAIL] Failed to read the VCS credential from '' @ path @ units_of '': '' @ msg), st1)
                 | (Inr r, st1) \<Rightarrow>
                     if eo_code r \<noteq> 0
                     then ((vcs_fail inp a CredentialReadFailed (units_of ''[FAIL] Failed to read the VCS credential from '' @ path))
                             \<lparr>vr_exitCode := Some (eo_code r)\<rparr>, st1)
                     else
                       let token = helper_field (units_of ''password='') (eo_stdout r);
                           username = helper_field (units_of ''username='') (eo_stdout r)
                       in if token = [] then (vcs_fail inp a CredentialEmpty (units_of ''[FAIL] The VCS credential was empty or unreadable''), st1)
                          else if needs_username inp \<and> username = []
                          then (vcs_fail inp a UsernameEmpty (units_of ''[FAIL] The VCS credential carries no git username''), st1)
                          else vcs_dispatch env inp a token username st1))"

subsection \<open>The helper of a POSIX member\<close>

definition helper_script :: "units \<Rightarrow> units \<Rightarrow> units \<Rightarrow> units" where
  "helper_script host username token =
     (let say = (\<lambda>key value. units_of ''echo '' @ in_quotes (units_of key @ escapeDoubleQuoted value) @ [backslash, 110])
      in units_of ''#!/bin/sh'' @ [backslash, 110] @ say ''protocol=https'' [] @ say ''host='' host @ say ''username='' username @ say ''password='' token)"

definition gitCredentialHelperWrite :: "units \<Rightarrow> units \<Rightarrow> units \<Rightarrow> units option \<Rightarrow> units option \<Rightarrow> units" where
  "gitCredentialHelperWrite host username token label scopeUrl =
     (let file = in_quotes (units_of ''$HOME/'' @ credFile escapeDoubleQuoted label);
          url = (case label_given scopeUrl of Some u \<Rightarrow> escapeDoubleQuoted u | None \<Rightarrow> units_of ''https://'' @ escapeDoubleQuoted host);
          key = in_quotes (units_of ''credential.'' @ url @ units_of ''.helper'')
      in units_of ''printf '' @ [single_quote] @ helper_script host username token @ [single_quote] @ units_of '' > '' @ file
         @ units_of '' && chmod 600 '' @ file @ units_of '' && chmod +x '' @ file
         @ units_of '' && git config --global --replace-all '' @ key @ [blank_char] @ in_quotes []
         @ units_of '' && git config --global --add '' @ key @ [blank_char] @ file)"

text \<open>
  What \<^verbatim>\<open>printf\<close> prints for a format with no arguments: \<^verbatim>\<open>\n\<close> is a new line, a backslash before a backslash or a double quote
  stands for that character, other backslashes are kept, \<^verbatim>\<open>%%\<close> is a percent sign, other directives are left out of the model.
\<close>

fun printf :: "units \<Rightarrow> units option" where
  "printf [] = Some []"
| "printf [c] = (if c = 37 then None else Some [c])"
| "printf (c # d # s) =
     (if c = backslash \<and> d = 110 then map_option ((#) line_feed) (printf s)
      else if c = backslash \<and> (d = backslash \<or> d = double_quote) then map_option ((#) d) (printf s)
      else if c = 37 then if d = 37 then map_option ((#) 37) (printf s) else None
      else map_option ((#) c) (printf (d # s)))"

text \<open>Running a script of \<^verbatim>\<open>echo\<close> lines: each prints the reading of its argument; the first line is a comment.\<close>

definition run_line :: "units \<Rightarrow> units option" where
  "run_line l =
     (if take 5 l = units_of ''echo ''
      then case sh_read Bare (drop 5 l) of
             Some items \<Rightarrow>
               if list_all (\<lambda>i. case i of Plain _ \<Rightarrow> True | Acted _ \<Rightarrow> False) items
               then Some (map (\<lambda>i. case i of Plain c \<Rightarrow> c | Acted c \<Rightarrow> c) items @ [line_feed]) else None
           | None \<Rightarrow> None
      else if l = [] \<or> hd l = 35 then Some [] else None)"

fun run_lines :: "units list \<Rightarrow> units option" where
  "run_lines [] = Some []"
| "run_lines (l # ls) = (case run_line l of None \<Rightarrow> None | Some out \<Rightarrow> map_option ((@) out) (run_lines ls))"

definition run_script :: "units \<Rightarrow> units option" where
  "run_script s = run_lines (split_on s [line_feed])"

text \<open>What a shell reads as the format, when it reads the command: the plain characters after \<^verbatim>\<open>printf\<close> and a blank.\<close>

definition format_of :: "units \<Rightarrow> units option" where
  "format_of command =
     (case sh_read Bare command of
        None \<Rightarrow> None
      | Some items \<Rightarrow>
          if take 7 items = map Plain (units_of ''printf'') @ [Acted blank_char]
          then Some (map (\<lambda>i. case i of Plain c \<Rightarrow> c | Acted c \<Rightarrow> c) (takeWhile (\<lambda>i. case i of Plain _ \<Rightarrow> True | Acted _ \<Rightarrow> False) (drop 7 items)))
          else None)"

definition deployed_output :: "units \<Rightarrow> units option" where
  "deployed_output command = Option.bind (Option.bind (format_of command) printf) run_script"

definition helper_safe :: "nat \<Rightarrow> bool" where
  "helper_safe c \<longleftrightarrow> c \<notin> {single_quote, 37, backslash, double_quote, dollar, backtick, bang} \<and> \<not> line_end c \<and> \<not> unit_space c"

subsection \<open>Reading the command that writes the helper\<close>

definition sh_readable :: "sh_mode \<Rightarrow> units \<Rightarrow> bool" where
  "sh_readable m t \<longleftrightarrow> (\<exists>items. sh_reads m t items m)"

lemma readable_append: "sh_readable m t \<Longrightarrow> sh_readable m u \<Longrightarrow> sh_readable m (t @ u)"
  unfolding sh_readable_def by (blast intro: sh_reads_append)

lemma readable_bare: "list_all (\<lambda>c. c \<notin> {single_quote, double_quote, backslash}) t \<Longrightarrow> sh_readable Bare t"
  unfolding sh_readable_def by (blast intro: bare_reads)

lemma readable_escaped: "sh_readable InDouble (escapeDoubleQuoted t)"
  unfolding sh_readable_def sh_reads_def using escapeDoubleQuoted_bang by blast

lemma double_one:
  assumes "c \<notin> {double_quote, backslash}"
  shows "sh_read InDouble (c # s) = map_option ((#) (if c = dollar \<or> c = backtick then Acted c else Plain c)) (sh_read InDouble s)"
  using assms by (cases s) auto

lemma double_reads:
  assumes "list_all (\<lambda>c. c \<notin> {double_quote, backslash}) t"
  shows "sh_reads InDouble t (map (\<lambda>c. if c = dollar \<or> c = backtick then Acted c else Plain c) t) InDouble"
  using assms
proof (induction t)
  case (Cons c t)
  have "sh_reads InDouble [c] [if c = dollar \<or> c = backtick then Acted c else Plain c] InDouble"
    unfolding sh_reads_def append_Cons append_Nil using double_one[of c] Cons.prems by (auto intro: option.map_cong)
  then show ?case
    using Cons sh_reads_append[of InDouble "[c]" _ InDouble t] by fastforce
qed simp

lemma readable_double: "list_all (\<lambda>c. c \<notin> {double_quote, backslash}) t \<Longrightarrow> sh_readable InDouble t"
  unfolding sh_readable_def by (blast intro: double_reads)

lemma in_quotes_reads:
  assumes "sh_reads InDouble t items InDouble"
  shows "sh_reads Bare (in_quotes t) items Bare"
  using assms by (simp add: sh_reads_def in_quotes_def)

lemma readable_quotes: "sh_readable InDouble t \<Longrightarrow> sh_readable Bare (in_quotes t)"
  unfolding sh_readable_def by (blast intro: in_quotes_reads)

lemma bare_quoted_reads:
  assumes "single_quote \<notin> set t"
  shows "sh_reads Bare ([single_quote] @ t @ [single_quote]) (map Plain t) Bare"
proof -
  have "escapeShellArgInner t = t"
    using assms by (induction t) (auto simp: escapeShellArgInner_def)
  then show ?thesis
    using escapeShellArg_reads[of t] by (simp add: escapeShellArg_def)
qed

lemma format_read:
  assumes "single_quote \<notin> set t" "sh_readable Bare rest"
  shows "format_of (units_of ''printf '' @ [single_quote] @ t @ [single_quote] @ blank_char # rest) = Some t"
proof -
  obtain items where rest: "sh_reads Bare rest items Bare"
    using assms(2) by (auto simp: sh_readable_def)
  have blank: "sh_reads Bare [blank_char] [Acted blank_char] Bare"
    using bare_reads[of "[blank_char]"] by (simp add: sh_plain_def session_char_def)
  have name: "sh_reads Bare (units_of ''printf '') (map Plain (units_of ''printf'') @ [Acted blank_char]) Bare"
    using bare_reads[of "units_of ''printf ''"] by (simp add: units_of_def sh_plain_def session_char_def)
  have "sh_read Bare (units_of ''printf '' @ ([single_quote] @ t @ [single_quote]) @ [blank_char] @ rest) =
      Some ((map Plain (units_of ''printf'') @ [Acted blank_char]) @ map Plain t @ [Acted blank_char] @ items)"
    by (intro sh_reads_whole sh_reads_append[OF name] sh_reads_append[OF bare_quoted_reads[OF assms(1)]] sh_reads_append[OF blank rest])
  moreover have "takeWhile (\<lambda>i. case i of Plain _ \<Rightarrow> True | Acted _ \<Rightarrow> False) (map Plain t @ Acted blank_char # items) = map Plain t"
    by (induction t) auto
  ultimately show ?thesis
    by (simp add: format_of_def units_of_def o_def)
qed

lemma printf_Cons: "c \<noteq> 37 \<Longrightarrow> c \<noteq> backslash \<Longrightarrow> printf (c # s) = map_option ((#) c) (printf s)"
  by (cases s) simp_all

lemma printf_plain: "list_all (\<lambda>c. c \<noteq> 37 \<and> c \<noteq> backslash) t \<Longrightarrow> printf (t @ rest) = map_option ((@) t) (printf rest)"
proof (induction t)
  case Nil
  then show ?case by (cases "printf rest") simp_all
next
  case (Cons c t)
  then show ?case by (simp add: printf_Cons option.map_comp o_def)
qed

lemma split_line: "line_feed \<notin> set l \<Longrightarrow> split_from [line_feed] part (l @ line_feed # s) = (part @ l) # split_from [line_feed] [] s"
proof (induction l arbitrary: part)
  case Nil
  then show ?case by (subst split_from.simps) simp
next
  case (Cons c l)
  then show ?case by (subst split_from.simps) simp
qed

lemma text_lines_line: "\<not> list_ex line_end l \<Longrightarrow> text_lines (l @ line_feed # s) = l # text_lines s"
  by (induction l) (simp_all add: line_end_def)

lemma text_lines_concat: "(\<And>v. v \<in> set vs \<Longrightarrow> \<not> list_ex line_end v) \<Longrightarrow> text_lines (concat (map (\<lambda>v. v @ [line_feed]) vs)) = vs @ [[]]"
  by (induction vs) (simp_all add: text_lines_line)

lemma run_echo:
  assumes "list_all (\<lambda>c. c \<notin> {double_quote, backslash, dollar, backtick}) t"
  shows "run_line (units_of ''echo '' @ in_quotes t) = Some (t @ [line_feed])"
proof -
  have "map (\<lambda>c. if c = dollar \<or> c = backtick then Acted c else Plain c) t = map Plain t"
    using assms by (auto simp: list_all_iff)
  moreover have "sh_reads InDouble t (map (\<lambda>c. if c = dollar \<or> c = backtick then Acted c else Plain c) t) InDouble"
    using assms by (intro double_reads) (auto simp: list_all_iff)
  ultimately have "sh_read Bare (in_quotes t) = Some (map Plain t)"
    using in_quotes_reads sh_reads_whole by fastforce
  then show ?thesis
    by (simp add: run_line_def units_of_def list_all_iff o_def)
qed

lemma safe_escape: "list_all helper_safe t \<Longrightarrow> escapeDoubleQuoted t = t"
  unfolding escapeDoubleQuoted_def mark_each_def by (induction t) (auto simp: helper_safe_def)

lemma safe_trim: "list_all helper_safe t \<Longrightarrow> trim t = t"
proof -
  assume "list_all helper_safe t"
  then have none: "\<forall>c\<in>set t. \<not> unit_space c"
    by (auto simp: list_all_iff helper_safe_def)
  have "\<forall>c\<in>set s. \<not> unit_space c \<Longrightarrow> dropWhile unit_space s = s" for s
    by (cases s) auto
  from this[of t] this[of "rev t"] show ?thesis
    using none by (simp add: trim_def)
qed

lemma helper_lines:
  assumes "list_all helper_safe host" "list_all helper_safe username" "list_all helper_safe token"
  shows "printf (helper_script host username token) =
    Some (concat (map (\<lambda>l. l @ [line_feed])
      (units_of ''#!/bin/sh'' # map (\<lambda>v. units_of ''echo '' @ in_quotes v)
        [units_of ''protocol=https'', units_of ''host='' @ host, units_of ''username='' @ username, units_of ''password='' @ token])))"
proof -
  have line: "printf (l @ backslash # 110 # s) = map_option (\<lambda>x. l @ line_feed # x) (printf s)"
    if "list_all (\<lambda>c. c \<noteq> 37 \<and> c \<noteq> backslash) l" for l s
    using printf_plain[OF that] by (simp add: option.map_comp o_def)
  have safe: "list_all (\<lambda>c. c \<noteq> 37 \<and> c \<noteq> backslash) v" if "list_all helper_safe v" for v
    using that by (auto simp: list_all_iff helper_safe_def)
  define first say where "first = units_of ''#!/bin/sh''" and "say v = units_of ''echo '' @ in_quotes v" for v
  have lines: "list_all (\<lambda>c. c \<noteq> 37 \<and> c \<noteq> backslash) first" "\<And>key v. key \<in> {''protocol=https'', ''host='', ''username='', ''password=''} \<Longrightarrow>
      list_all helper_safe v \<Longrightarrow> list_all (\<lambda>c. c \<noteq> 37 \<and> c \<noteq> backslash) (say (units_of key @ v))"
    using safe by (auto simp: first_def say_def in_quotes_def units_of_def)
  have "helper_script host username token =
      first @ backslash # 110 # say (units_of ''protocol=https'' @ []) @ backslash # 110 # say (units_of ''host='' @ host) @ backslash # 110 #
      say (units_of ''username='' @ username) @ backslash # 110 # say (units_of ''password='' @ token) @ backslash # 110 # []"
    using assms by (simp add: helper_script_def first_def say_def safe_escape escapeDoubleQuoted_once[of "[]"] mark_each_def)
  then have "printf (helper_script host username token) = Some (concat (map (\<lambda>l. l @ [line_feed])
      [first, say (units_of ''protocol=https''), say (units_of ''host='' @ host), say (units_of ''username='' @ username), say (units_of ''password='' @ token)]))"
    using assms lines(2)[of "''protocol=https''" "[]"] by (simp add: line[OF lines(1)] line[OF lines(2)] line)
  then show ?thesis
    by (simp add: first_def say_def)
qed

lemma run_helper:
  assumes "\<And>v. v \<in> set vs \<Longrightarrow> list_all (\<lambda>c. c \<notin> {double_quote, backslash, dollar, backtick, line_feed}) v"
  shows "run_lines (split_from [line_feed] [] (concat (map (\<lambda>l. l @ [line_feed]) (map (\<lambda>v. units_of ''echo '' @ in_quotes v) vs)))) =
    Some (concat (map (\<lambda>v. v @ [line_feed]) vs))"
  using assms
proof (induction vs)
  case Nil
  then show ?case by (simp add: split_from.simps run_line_def units_of_def)
next
  case (Cons v vs)
  have "line_feed \<notin> set (units_of ''echo '' @ in_quotes v)"
    using Cons.prems[of v] by (auto simp: in_quotes_def units_of_def list_all_iff)
  moreover have "run_line (units_of ''echo '' @ in_quotes v) = Some (v @ [line_feed])"
    using Cons.prems[of v] by (intro run_echo) (auto simp: list_all_iff)
  ultimately show ?case
    using Cons split_line[of "units_of ''echo '' @ in_quotes v" "[]"] by simp
qed

lemma write_format:
  assumes "single_quote \<notin> set (helper_script host username token)"
  shows "format_of (gitCredentialHelperWrite host username token label scopeUrl) = Some (helper_script host username token)"
proof -
  define name where "name = in_quotes (units_of ''$HOME/'' @ credFile escapeDoubleQuoted label)"
  define key where "key = in_quotes (units_of ''credential.'' @ (case label_given scopeUrl of Some u \<Rightarrow> escapeDoubleQuoted u
    | None \<Rightarrow> units_of ''https://'' @ escapeDoubleQuoted host) @ units_of ''.helper'')"
  have const: "t \<in> {''$HOME/'', ''.fleet-git-credential'', ''.fleet-git-credential-'', ''credential.'', ''https://'', ''.helper''} \<Longrightarrow> sh_readable InDouble (units_of t)" for t
    by (rule readable_double) (auto simp: units_of_def)
  have "sh_readable Bare name"
    unfolding name_def credFile_def by (cases "label_given label") (simp_all add: readable_quotes readable_append readable_escaped const)
  moreover have "sh_readable Bare key"
    unfolding key_def by (cases "label_given scopeUrl") (simp_all add: readable_quotes readable_append readable_escaped const)
  moreover have "sh_readable Bare (in_quotes [])"
    by (simp add: readable_quotes readable_double)
  ultimately have "sh_readable Bare (units_of ''> '' @ name @ units_of '' && chmod 600 '' @ name @ units_of '' && chmod +x '' @ name
      @ units_of '' && git config --global --replace-all '' @ key @ [blank_char] @ in_quotes []
      @ units_of '' && git config --global --add '' @ key @ [blank_char] @ name)" (is "sh_readable Bare ?rest")
    by (intro readable_append) (simp_all add: readable_bare units_of_def)
  moreover have "gitCredentialHelperWrite host username token label scopeUrl =
      units_of ''printf '' @ [single_quote] @ helper_script host username token @ [single_quote] @ blank_char # ?rest"
    unfolding gitCredentialHelperWrite_def Let_def name_def key_def by (simp add: units_of_def)
  ultimately show ?thesis
    using format_read[OF assms] by metis
qed

text \<open>
  Property C27. The helper that is written on a POSIX member gives back the user name and the token: the shell reads the command with the
  script as the format of \<^verbatim>\<open>printf\<close>, the script is printed and run, and the fields that the tool takes from its output are the values that were
  written, provided that no value has a quote, a percent sign, a backslash, a dollar, a backtick, an exclamation mark or a blank.
\<close>

theorem helper_roundtrip:
  assumes "list_all helper_safe host" "list_all helper_safe username" "list_all helper_safe token"
  shows "\<exists>out. deployed_output (gitCredentialHelperWrite host username token label scopeUrl) = Some out \<and>
    helper_field (units_of ''password='') out = token \<and> helper_field (units_of ''username='') out = username"
proof -
  let ?vs = "[units_of ''protocol=https'', units_of ''host='' @ host, units_of ''username='' @ username, units_of ''password='' @ token]"
  let ?out = "concat (map (\<lambda>v. v @ [line_feed]) ?vs)"
  have safe: "list_all helper_safe v \<Longrightarrow> list_all (\<lambda>c. c \<notin> {double_quote, backslash, dollar, backtick, line_feed} \<and> \<not> line_end c) v" for v
    by (auto simp: list_all_iff helper_safe_def line_end_def)
  have all: "\<forall>v\<in>set ?vs. list_all (\<lambda>c. c \<notin> {double_quote, backslash, dollar, backtick, line_feed} \<and> \<not> line_end c) v"
    using assms[THEN safe] by (simp add: units_of_def line_end_def)
  then have ok: "v \<in> set ?vs \<Longrightarrow> list_all (\<lambda>c. c \<notin> {double_quote, backslash, dollar, backtick, line_feed}) v" for v
    unfolding list_all_iff by blast
  have "single_quote \<notin> set (helper_script host username token)"
    using assms by (simp add: helper_script_def safe_escape in_quotes_def units_of_def) (auto simp: list_all_iff helper_safe_def)
  then have "deployed_output (gitCredentialHelperWrite host username token label scopeUrl) = Option.bind (printf (helper_script host username token)) run_script"
    using write_format by (simp add: deployed_output_def)
  moreover have "run_script (concat (map (\<lambda>l. l @ [line_feed]) (units_of ''#!/bin/sh'' # map (\<lambda>v. units_of ''echo '' @ in_quotes v) ?vs))) = Some ?out"
  proof -
    have first: "run_line (units_of ''#!/bin/sh'') = Some []" "line_feed \<notin> set (units_of ''#!/bin/sh'')"
      by (simp_all add: run_line_def units_of_def)
    then have "run_script (units_of ''#!/bin/sh'' @ line_feed # body) = run_lines (split_from [line_feed] [] body)" for body
      unfolding run_script_def split_on_def split_line[OF first(2)] by (cases "run_lines (split_from [line_feed] [] body)") simp_all
    then show ?thesis
      using run_helper[of ?vs, OF ok] by simp
  qed
  ultimately have "deployed_output (gitCredentialHelperWrite host username token label scopeUrl) = Some ?out"
    using helper_lines[OF assms] by (metis bind.bind_lunit)
  moreover have "text_lines ?out = ?vs @ [[]]"
  proof -
    have "\<not> list_ex line_end v" if "v \<in> set ?vs" for v
      using that all unfolding list_all_iff list_ex_iff by blast
    then show ?thesis
      by (rule text_lines_concat)
  qed
  ultimately show ?thesis
    using assms by (auto simp: helper_field_def units_of_def safe_trim)
qed

theorem helper_roundtrip_witness:
  "\<exists>out. deployed_output (gitCredentialHelperWrite (units_of ''github.com'') (units_of ''x-access-token'') (units_of ''ghp_A1='') None None) = Some out \<and>
    helper_field (units_of ''password='') out = units_of ''ghp_A1=''"
proof -
  have "list_all helper_safe (units_of ''github.com'')" "list_all helper_safe (units_of ''x-access-token'')" "list_all helper_safe (units_of ''ghp_A1='')"
    by (simp_all add: units_of_def helper_safe_def line_end_def unit_space_def)
  from helper_roundtrip[OF this, of None None] show ?thesis
    by blast
qed

definition written :: "units \<Rightarrow> units" where
  "written token = gitCredentialHelperWrite (units_of ''h'') (units_of ''u'') token None None"

text \<open>
  Tokens that the helper does not keep: an exclamation mark comes back with a backslash before it, a double quote leaves a script
  that cannot be run, and a single quote ends the quoted format, so that the shell that deploys the helper acts on the semicolons of
  the token.
\<close>

theorem helper_token_broken:
  "map_option (helper_field (units_of ''password='')) (deployed_output (written (units_of ''a!b''))) = Some (units_of ''a'' @ [backslash] @ units_of ''!b'') \<and>
   deployed_output (written [97, double_quote, 98]) = None \<and>
   map_option (\<lambda>items. Acted 59 \<in> set (takeWhile (\<lambda>i. i \<noteq> Acted 62) items)) (sh_read Bare (written (units_of ''a';id;'b''))) = Some True \<and>
   map_option (\<lambda>items. Acted 59 \<in> set (takeWhile (\<lambda>i. i \<noteq> Acted 62) items)) (sh_read Bare (written (units_of ''a;id;b''))) = Some False"
proof -
  note read_defs = written_def gitCredentialHelperWrite_def helper_script_def in_quotes_def credFile_def label_given_def escapeDoubleQuoted_once mark_each_def
    units_of_def sh_plain_def session_char_def
  have script: "deployed_output (written token) = Option.bind (printf (helper_script (units_of ''h'') (units_of ''u'') token)) run_script"
    if "single_quote \<notin> set (helper_script (units_of ''h'') (units_of ''u'') token)" for token
    using write_format[OF that] by (simp add: deployed_output_def written_def)
  have "map_option (helper_field (units_of ''password='')) (deployed_output (written (units_of ''a!b''))) = Some (units_of ''a'' @ [backslash] @ units_of ''!b'')"
    by (subst script) (simp_all add: read_defs run_script_def split_on_def split_from.simps run_line_def helper_field_def line_end_def trim_def unit_space_def)
  moreover have "deployed_output (written [97, double_quote, 98]) = None"
    by (subst script) (simp_all add: read_defs run_script_def split_on_def split_from.simps run_line_def)
  moreover have "map_option (\<lambda>items. Acted 59 \<in> set (takeWhile (\<lambda>i. i \<noteq> Acted 62) items)) (sh_read Bare (written (units_of ''a';id;'b''))) = Some True"
    by (simp add: read_defs)
  moreover have "map_option (\<lambda>items. Acted 59 \<in> set (takeWhile (\<lambda>i. i \<noteq> Acted 62) items)) (sh_read Bare (written (units_of ''a;id;b''))) = Some False"
    by (simp add: read_defs)
  ultimately show ?thesis
    by blast
qed

subsection \<open>The command that is dispatched\<close>

interpretation vp: placeholder_family vcs_placeholder "\<lambda>_. True"
proof
  fix k
  show "\<exists>c tail. vcs_placeholder k = 123 # 123 # c # tail \<and> 123 \<notin> set (c # tail)"
    by (cases k) (simp_all add: units_of_def)
next
  fix k k' rest
  assume "take (length (vcs_placeholder k)) (vcs_placeholder k' @ rest) = vcs_placeholder k"
  then show "k = k'"
    by (cases k; cases k') (simp_all add: units_of_def)
qed

text \<open>The state of the quotes that a placeholder is made for, and the value it stands for.\<close>

definition slot_mode :: "vcs_slot \<Rightarrow> sh_mode" where
  "slot_mode k = (if k = TokenSlot \<or> k = UsernameSlot then Bare else InSingle)"

definition slot_value :: "units \<Rightarrow> units \<Rightarrow> vcs_slot \<Rightarrow> units" where
  "slot_value token username k = (if k = TokenSlot \<or> k = TokenInlineSlot then token else username)"

lemma slot_reads: "sh_reads (slot_mode k) (vcs_value True token username k) (map Plain (slot_value token username k)) (slot_mode k)"
  by (cases k) (simp_all add: slot_mode_def vcs_value_def slot_value_def escapeShellArg_reads escapeShellArgInner_reads)

lemma quiet_inner_value: "quiet v \<Longrightarrow> quiet (escapeShellArgInner v) \<and> quiet (escapePowerShellArgInner v)"
  by (induction v rule: quiet.induct) (auto simp: quiet_Cons_other ps_single_quote_def)

lemma quiet_no_double: "quiet v \<Longrightarrow> no_double_brace v"
  by (induction v rule: quiet.induct) auto

lemma slot_quiet:
  assumes "quiet token" "quiet username" "dollar \<notin> set token" "dollar \<notin> set username"
  shows "quiet (vcs_value posix token username k)" "dollar \<notin> set (vcs_value posix token username k)"
proof -
  have "quiet (quoted_secret posix v)" "dollar \<notin> set (quoted_secret posix v)" if "v \<in> {token, username}" for v
    using that assms quoted_quiet[OF quiet_no_double, of v posix] quoted_no_dollar[of v posix] by auto
  moreover have "dollar \<notin> set (escapeShellArgInner v)" "dollar \<notin> set (escapePowerShellArgInner v)" if "v \<in> {token, username}" for v
    using that assms by (auto simp: escapeShellArgInner_def escapePowerShellArgInner_def)
  ultimately show "quiet (vcs_value posix token username k)" "dollar \<notin> set (vcs_value posix token username k)"
    using assms(1,2)[THEN quiet_inner_value] by (cases k; simp add: vcs_value_def quoted_secret_def split: if_splits)+
qed

lemma final_render:
  assumes ps: "list_all (piece_ok (\<lambda>_. True)) ps" and "quiet token" "quiet username" "dollar \<notin> set token" "dollar \<notin> set username"
  shows "finalCommand posix token username (render vcs_placeholder Map.empty ps) = render vcs_placeholder (\<lambda>k. Some (vcs_value posix token username k)) ps"
proof -
  let ?v = "vcs_value posix token username"
  define put where "put ks k = (if k \<in> set ks then Some (?v k) else None)" for ks k
  have step: "replaceAll (render vcs_placeholder (put ks) ps) (vcs_placeholder k) (?v k) = render vcs_placeholder (put (k # ks)) ps" if "k \<notin> set ks" for ks k
    by (rule vp.replace_render[OF ps]) (use that slot_quiet[OF assms(2-5)] in \<open>auto simp: put_def inert_plain split: if_splits\<close>)
  have "put [UsernameInlineSlot, UsernameSlot, TokenInlineSlot, TokenSlot] = (\<lambda>k. Some (?v k))"
  proof
    fix k
    show "put [UsernameInlineSlot, UsernameSlot, TokenInlineSlot, TokenSlot] k = Some (?v k)"
      by (cases k) (simp_all add: put_def)
  qed
  moreover have "put [] = Map.empty"
    by (simp add: put_def[abs_def])
  ultimately show ?thesis
    using step[of TokenSlot "[]"] step[of TokenInlineSlot "[TokenSlot]"] step[of UsernameSlot "[TokenInlineSlot, TokenSlot]"]
      step[of UsernameInlineSlot "[UsernameSlot, TokenInlineSlot, TokenSlot]"] by (simp add: finalCommand_def)
qed

text \<open>
  On a member with a POSIX shell the dispatched command is read as it was meant: its own text as it was written, and for
  each placeholder, bare outside quotes and inline inside single quotes, the characters of the token or of the user name, all of
  them plain, provided that neither has a dollar sign, two open braces in a row or an open brace at the end.
\<close>

theorem vcs_command_exact:
  assumes "list_all (piece_ok (\<lambda>_. True)) ps" "quiet token" "quiet username" "dollar \<notin> set token" "dollar \<notin> set username"
    and "meant slot_mode (slot_value token username) Bare ps items Bare"
  shows "sh_read Bare (finalCommand True token username (render vcs_placeholder Map.empty ps)) = Some items"
  unfolding final_render[OF assms(1-5)]
  by (intro sh_reads_whole meant_read[OF assms(6), of _ "vcs_value True token username"]) (simp add: slot_reads)

theorem vcs_command_exact_witness:
  "sh_read Bare (finalCommand True (units_of ''ghp_A'') (units_of ''u'') (units_of ''curl -H 'Bearer {{vcs_token_inline}}' x'')) =
     Some (map Plain (units_of ''curl'') @ [Acted blank_char] @ map Plain (units_of ''-H'') @ [Acted blank_char]
       @ map Plain (units_of ''Bearer ghp_A'') @ [Acted blank_char] @ map Plain (units_of ''x''))"
proof -
  let ?ps = "[Text (units_of ''curl -H 'Bearer ''), Token TokenInlineSlot, Text (single_quote # units_of '' x'')]"
  let ?open = "map Plain (units_of ''curl'') @ [Acted blank_char] @ map Plain (units_of ''-H'') @ [Acted blank_char] @ map Plain (units_of ''Bearer '')"
  have t1: "sh_reads Bare (units_of ''curl -H 'Bearer '') ?open InSingle"
    by (auto simp: sh_reads_def units_of_def sh_plain_def session_char_def option.map_comp intro: option.map_cong)
  have "sh_reads InSingle [single_quote] [] Bare"
    using sh_reads_Nil[of Bare] by (simp add: sh_reads_def)
  then have t2: "sh_reads InSingle (single_quote # units_of '' x'') (Acted blank_char # map Plain (units_of ''x'')) Bare"
    using sh_reads_append[of InSingle "[single_quote]" "[]" Bare "units_of '' x''"] bare_reads[of "units_of '' x''"]
    by (simp add: units_of_def sh_plain_def session_char_def)
  have "meant slot_mode (slot_value (units_of ''ghp_A'') (units_of ''u'')) Bare ?ps
      (?open @ map Plain (slot_value (units_of ''ghp_A'') (units_of ''u'') TokenInlineSlot) @ (Acted blank_char # map Plain (units_of ''x'')) @ []) Bare"
    by (rule meant_Text[OF t1], rule meant_Token, simp add: slot_mode_def, rule meant_Text[OF t2], rule meant_Nil)
  moreover have "list_all (piece_ok (\<lambda>_. True)) ?ps" "quiet (units_of ''ghp_A'')" "quiet (units_of ''u'')"
      "dollar \<notin> set (units_of ''ghp_A'')" "dollar \<notin> set (units_of ''u'')"
    by (simp_all add: units_of_def)
  ultimately have "sh_read Bare (finalCommand True (units_of ''ghp_A'') (units_of ''u'') (render vcs_placeholder Map.empty ?ps)) =
      Some (?open @ map Plain (slot_value (units_of ''ghp_A'') (units_of ''u'') TokenInlineSlot) @ (Acted blank_char # map Plain (units_of ''x'')) @ [])"
    by (intro vcs_command_exact)
  then show ?thesis
    by (simp add: slot_value_def units_of_def)
qed

subsection \<open>What leaves the tool\<close>

lemma split_parts:
  assumes "secret \<noteq> []"
  shows "join_with secret (split_on out secret) = out" "p \<in> set (split_on out secret) \<Longrightarrow> \<not> sublist secret p"
  using split_join[of secret "[]" out] split_no_sep[OF assms, of "[]" out p] by (simp_all add: split_on_def)

text \<open>Both redactions, the one of \<^verbatim>\<open>vcs_credential_exec\<close> and the one of \<^verbatim>\<open>execute_command\<close>, are this splitting.\<close>

lemma redact_split:
  assumes "secret \<noteq> []" "list_all session_char name"
  shows "redactSecret out secret marker = (join_with marker (split_on out secret), length (split_on out secret) - 1)"
    and "redactOutput out [\<lparr>rc_name = name, rc_plain = secret, rc_policy = pol\<rparr>] = join_with (redaction_mark name) (split_on out secret)"
proof -
  have "dollar \<notin> set (redaction_mark name)"
    using assms(2) by (auto simp: redaction_mark_def units_of_def list_all_iff session_char_def)
  then show "redactOutput out [\<lparr>rc_name = name, rc_plain = secret, rc_policy = pol\<rparr>] = join_with (redaction_mark name) (split_on out secret)"
    using replace_is_split[OF assms(1), of "redaction_mark name" "[]" "[]" out] assms(1) by (simp add: redactOutput_def replaceAll_def split_on_def)
qed (use assms in \<open>simp add: redactSecret_def Let_def\<close>)

text \<open>The order of the credentials matters: where one secret begins another, the rest of the longer one is left in the output.\<close>

lemma redactOutput_prefix_leak:
  assumes "pol = PolicyAllow"
  shows "redactOutput (units_of ''abcdef'') [\<lparr>rc_name = units_of ''A'', rc_plain = units_of ''abc'', rc_policy = pol\<rparr>,
       \<lparr>rc_name = units_of ''B'', rc_plain = units_of ''abcdef'', rc_policy = pol\<rparr>] = units_of ''[REDACTED:A]def''"
    and "redactOutput (units_of ''abcdef'') [\<lparr>rc_name = units_of ''B'', rc_plain = units_of ''abcdef'', rc_policy = pol\<rparr>,
       \<lparr>rc_name = units_of ''A'', rc_plain = units_of ''abc'', rc_policy = pol\<rparr>] = units_of ''[REDACTED:B]''"
  by (simp_all add: redactOutput_def replaceAll_def redaction_mark_def units_of_def replace_from.simps)

lemmas exec_split = prod.splits sum.splits if_splits

text \<open>The three ways the tool can end: refused, stopped at the credential, and with the command dispatched.\<close>

lemma vcs_exec_cases:
  assumes "vcsCredentialExec env inp st = (r, st2)"
  obtains
    (refused) "vr_reason r \<in> {VcsMemberNotFound, PlaceholderMissing, UnsupportedMemberOs}" "\<not> vr_ok r" "st2 = st"
  | (unread) a cmd path x where "vr_reason r \<in> {CredentialReadFailed, CredentialEmpty, UsernameEmpty}" "\<not> vr_ok r"
      "resolveMember (ve_registry env) (vi_member_id inp) (vi_member_name inp) = Inr a"
      "gitCredentialHelperRead (getOsCommands (ve_os env a) (ve_gitbash env a)) (vi_label inp) = Inr (cmd, path)"
      "ve_exec env a cmd 15000 st = (x, st2)"
      "has_text (vi_command inp) (vcs_placeholder TokenSlot) \<or> has_text (vi_command inp) (vcs_placeholder TokenInlineSlot)"
  | (dispatched) a cmd path rd st1 where "resolveMember (ve_registry env) (vi_member_id inp) (vi_member_name inp) = Inr a"
      "gitCredentialHelperRead (getOsCommands (ve_os env a) (ve_gitbash env a)) (vi_label inp) = Inr (cmd, path)"
      "ve_exec env a cmd 15000 st = (Inr rd, st1)" "eo_code rd = 0" "helper_field (units_of ''password='') (eo_stdout rd) \<noteq> []"
      "needs_username inp \<Longrightarrow> helper_field (units_of ''username='') (eo_stdout rd) \<noteq> []"
      "vcs_dispatch env inp a (helper_field (units_of ''password='') (eo_stdout rd)) (helper_field (units_of ''username='') (eo_stdout rd)) st1 = (r, st2)"
      "has_text (vi_command inp) (vcs_placeholder TokenSlot) \<or> has_text (vi_command inp) (vcs_placeholder TokenInlineSlot)"
proof (cases "resolveMember (ve_registry env) (vi_member_id inp) (vi_member_name inp)")
  case (Inl e)
  then show ?thesis
    using assms by (intro refused) (auto simp: vcsCredentialExec_def)
next
  case a: (Inr a)
  show ?thesis
  proof (cases "\<not> has_text (vi_command inp) (vcs_placeholder TokenSlot) \<and> \<not> has_text (vi_command inp) (vcs_placeholder TokenInlineSlot)")
    case True
    then show ?thesis
      using assms a by (intro refused) (auto simp: vcsCredentialExec_def vcs_fail_def simp del: vcs_placeholder.simps)
  next
    case has: False
    show ?thesis
    proof (cases "gitCredentialHelperRead (getOsCommands (ve_os env a) (ve_gitbash env a)) (vi_label inp)")
      case (Inl e)
      then show ?thesis
        using assms a has by (intro refused) (auto simp: vcsCredentialExec_def vcs_fail_def simp del: vcs_placeholder.simps)
    next
      case (Inr cp)
      obtain cmd path where cp: "gitCredentialHelperRead (getOsCommands (ve_os env a) (ve_gitbash env a)) (vi_label inp) = Inr (cmd, path)"
        using Inr by (cases cp) simp
      obtain x st1 where x: "ve_exec env a cmd 15000 st = (x, st1)"
        by (cases "ve_exec env a cmd 15000 st")
      note body = assms[unfolded vcsCredentialExec_def a sum.case if_not_P[OF has] cp prod.case x]
      show ?thesis
      proof (cases x)
        case (Inl e)
        then show ?thesis
          using body x has a cp unread[of a cmd path x] by (auto simp: vcs_fail_def simp del: vcs_placeholder.simps)
      next
        case (Inr rd)
        then show ?thesis
          using body x has a cp unread[of a cmd path x] dispatched[of a cmd path rd st1]
          by (auto simp: vcs_fail_def Let_def simp del: vcs_placeholder.simps split: if_splits)
      qed
    qed
  qed
qed

text \<open>
  A text is cut at a secret: it is the secret between some parts, none of which has the secret in it, and the same parts with a
  mark between them are what is returned, with the number of the marks.
\<close>

definition cut_at :: "units \<Rightarrow> units \<Rightarrow> units \<Rightarrow> units \<times> nat \<Rightarrow> bool" where
  "cut_at secret mark out res \<longleftrightarrow> (\<exists>parts. parts \<noteq> [] \<and> join_with secret parts = out \<and> (\<forall>p\<in>set parts. \<not> sublist secret p) \<and>
     res = (join_with mark parts, length parts - 1))"

lemma redactSecret_cut:
  assumes "secret \<noteq> []"
  shows "cut_at secret mark out (redactSecret out secret mark)"
proof -
  have "split_on out secret \<noteq> []" by (simp add: split_on_def)
  with assms split_parts[OF assms] show ?thesis
    unfolding cut_at_def redactSecret_def Let_def by (intro exI[of _ "split_on out secret"]) simp
qed

text \<open>What the tool returns of a stream: cut at the token, and then at the user name if the command asks for it.\<close>

definition redacted_stream :: "bool \<Rightarrow> units \<Rightarrow> units \<Rightarrow> units \<Rightarrow> units \<times> nat \<Rightarrow> bool" where
  "redacted_stream needs token username out res \<longleftrightarrow> (\<exists>t k. cut_at token token_mark out (t, k) \<and>
     (if needs then (\<exists>u l. cut_at username username_mark t (u, l) \<and> res = (u, k + l)) else res = (t, k)))"

lemma redactCredentials_stream:
  assumes "token \<noteq> []" "needs \<Longrightarrow> username \<noteq> []"
  shows "redacted_stream needs token username out (redactCredentials token username needs out)"
proof -
  obtain t k where t: "redactSecret out token token_mark = (t, k)" by fastforce
  obtain u l where u: "redactSecret t username username_mark = (u, l)" by fastforce
  have "cut_at token token_mark out (t, k)" "needs \<Longrightarrow> cut_at username username_mark t (u, l)"
    using redactSecret_cut[OF assms(1), of token_mark out] redactSecret_cut[OF assms(2), of username_mark t] by (simp_all add: t u)
  then show ?thesis
    unfolding redacted_stream_def by (intro exI[of _ t] exI[of _ k]) (auto simp: redactCredentials_def t u)
qed

text \<open>
  Property C8. What a call that is reported as ok returns: the token and the user name were read from the helper of the member, the
  command was run once with them put in, and each stream of the result is the stream of the command cut at every occurrence of
  the token and joined with the token's mark, and then, if the command asks for the user name, cut at every occurrence of the user
  name and joined with its mark; no part that is left between two marks of a cut has the secret of that cut in it, and the count is
  the number of all marks in both streams.
\<close>

theorem vcs_output_redacted:
  assumes "vcsCredentialExec env inp st = (r, st2)" "vr_reason r = VcsOk"
  shows "\<exists>a cmd path rd st1 out token username k l. resolveMember (ve_registry env) (vi_member_id inp) (vi_member_name inp) = Inr a \<and>
    gitCredentialHelperRead (getOsCommands (ve_os env a) (ve_gitbash env a)) (vi_label inp) = Inr (cmd, path) \<and>
    ve_exec env a cmd 15000 st = (Inr rd, st1) \<and> token = helper_field (units_of ''password='') (eo_stdout rd) \<and> token \<noteq> [] \<and>
    username = helper_field (units_of ''username='') (eo_stdout rd) \<and> (needs_username inp \<longrightarrow> username \<noteq> []) \<and>
    ve_exec env a (wrapPidCapture (getOsCommands (ve_os env a) (ve_gitbash env a))
        (finalCommand (isPosixShell (ve_os env a = OsWindows) (ve_gitbash env a)) token username (vi_command inp)))
      ((case vi_timeout_s inp of Some t \<Rightarrow> t | None \<Rightarrow> 120) * 1000) st1 = (Inr out, st2) \<and>
    redacted_stream (needs_username inp) token username (eo_stdout out) (vr_stdout r, k) \<and>
    redacted_stream (needs_username inp) token username (eo_stderr out) (vr_stderr r, l) \<and>
    vr_redactions r = k + l \<and> vr_exitCode r = Some (eo_code out)"
proof -
  obtain a cmd path rd st1 where a: "resolveMember (ve_registry env) (vi_member_id inp) (vi_member_name inp) = Inr a"
    "gitCredentialHelperRead (getOsCommands (ve_os env a) (ve_gitbash env a)) (vi_label inp) = Inr (cmd, path)"
    "ve_exec env a cmd 15000 st = (Inr rd, st1)" and secrets: "helper_field (units_of ''password='') (eo_stdout rd) \<noteq> []"
    "needs_username inp \<Longrightarrow> helper_field (units_of ''username='') (eo_stdout rd) \<noteq> []"
    and run: "vcs_dispatch env inp a (helper_field (units_of ''password='') (eo_stdout rd)) (helper_field (units_of ''username='') (eo_stdout rd)) st1 = (r, st2)"
    using assms by (cases rule: vcs_exec_cases) auto
  define token where "token = helper_field (units_of ''password='') (eo_stdout rd)"
  define username where "username = helper_field (units_of ''username='') (eo_stdout rd)"
  let ?redact = "redactCredentials token username (needs_username inp)"
  obtain out where out: "ve_exec env a (wrapPidCapture (getOsCommands (ve_os env a) (ve_gitbash env a))
        (finalCommand (isPosixShell (ve_os env a = OsWindows) (ve_gitbash env a)) token username (vi_command inp)))
      ((case vi_timeout_s inp of Some t \<Rightarrow> t | None \<Rightarrow> 120) * 1000) st1 = (Inr out, st2)"
    "vr_stdout r = fst (?redact (eo_stdout out))" "vr_stderr r = fst (?redact (eo_stderr out))"
    "vr_redactions r = snd (?redact (eo_stdout out)) + snd (?redact (eo_stderr out))" "vr_exitCode r = Some (eo_code out)"
    using run assms(2) unfolding token_def[symmetric] username_def[symmetric] vcs_dispatch_def
    by (auto simp: Let_def vcs_fail_def split: exec_split)
  have "redacted_stream (needs_username inp) token username x (fst (?redact x), snd (?redact x))" for x
    using redactCredentials_stream[of token "needs_username inp" username x] secrets by (simp add: token_def username_def)
  then show ?thesis
    using a secrets out
    by (intro exI[of _ a] exI[of _ cmd] exI[of _ path] exI[of _ rd] exI[of _ st1] exI[of _ out] exI[of _ token] exI[of _ username]
        exI[of _ "snd (?redact (eo_stdout out))"] exI[of _ "snd (?redact (eo_stderr out))"]) (simp add: token_def username_def)
qed

text \<open>A member that records the commands it runs and whose helper prints a token.\<close>

definition demo_exec :: "agent \<Rightarrow> units \<Rightarrow> nat \<Rightarrow> units list \<Rightarrow> (units + exec_out) \<times> units list" where
  "demo_exec a c t st =
     (Inr \<lparr>eo_code = 0, eo_stdout = (if st = [] then units_of ''username=u'' @ [line_feed] @ units_of ''password=tok'' else units_of ''x tok u y''),
           eo_stderr = []\<rparr>, st @ [c])"

definition demo_agent :: agent where
  "demo_agent = \<lparr>ag_id = ''m1'', ag_name = ''alpha'', ag_unreservable = False, ag_reservedBy = None\<rparr>"

definition demo_env :: "units list vcs_env" where
  "demo_env =
     \<lparr>ve_registry = [demo_agent],
      ve_os = (\<lambda>_. OsLinux), ve_gitbash = (\<lambda>_. False), ve_exec = demo_exec\<rparr>"

definition demo_input :: "units \<Rightarrow> vcs_input" where
  "demo_input c = \<lparr>vi_member_id = Some ''m1'', vi_member_name = None, vi_command = c, vi_label = None, vi_timeout_s = None\<rparr>"

definition demo_command :: units where
  "demo_command = units_of ''{{vcs_token}} {{vcs_username}}''"

lemma demo_run: "vr_reason (fst (vcsCredentialExec demo_env (demo_input demo_command) [])) = VcsOk"
proof -
  have place: "has_text demo_command (units_of ''{{vcs_token}}'')"
    by (simp add: demo_command_def units_of_def)
  have "helper_field (units_of ''password='') (units_of ''username=u'' @ [line_feed] @ units_of ''password=tok'') = units_of ''tok''"
    "helper_field (units_of ''username='') (units_of ''username=u'' @ [line_feed] @ units_of ''password=tok'') = units_of ''u''"
    by (simp_all add: helper_field_def units_of_def line_end_def trim_def unit_space_def)
  moreover have "units_of ''tok'' \<noteq> []" "units_of ''u'' \<noteq> []"
    by (simp_all add: units_of_def)
  moreover have member: "resolveMember (ve_registry demo_env) (vi_member_id (demo_input c)) (vi_member_name (demo_input c)) = Inr demo_agent" for c
    by (simp add: demo_env_def demo_input_def demo_agent_def resolveMember_def given_def getAgentOrFail_def getAgent_def)
  moreover have read: "\<exists>cmd path. gitCredentialHelperRead (getOsCommands OsLinux False) None = Inr (cmd, path)"
    by (simp add: gitCredentialHelperRead_def getOsCommands_def Let_def)
  moreover have demo_parts: "ve_os demo_env a = OsLinux" "ve_gitbash demo_env a = False" "ve_exec demo_env = demo_exec" "vi_label (demo_input c) = None"
    "vi_command (demo_input c) = c" for a c
    by (simp_all add: demo_env_def demo_input_def)
  moreover have "vr_reason (fst (vcs_dispatch demo_env inp a token username st)) = VcsOk" for inp a token username st
    by (simp add: vcs_dispatch_def demo_env_def demo_exec_def vcs_fail_def Let_def)
  ultimately show ?thesis
    using place read member by (auto simp: vcsCredentialExec_def Let_def demo_exec_def demo_parts)
qed

theorem vcs_output_redacted_witness:
  "\<exists>out token username k. token \<noteq> [] \<and>
    redacted_stream True token username out (vr_stdout (fst (vcsCredentialExec demo_env (demo_input demo_command) [])), k)"
proof -
  have "needs_username (demo_input demo_command)"
    by (simp add: needs_username_def demo_input_def demo_command_def units_of_def)
  then show ?thesis
    using vcs_output_redacted[of demo_env "demo_input demo_command" "[]", OF prod.collapse[symmetric] demo_run] by auto
qed

text \<open>
  Property C26. The reason of a result says how far the tool went, which matters because every command it runs is seen by the member: with
  a member that records its commands, the first three reasons mean that none was run; the reasons about the credential mean that
  exactly the command that reads the helper of the resolved member was run; and the last two mean that exactly this read, which ended
  with success and gave a token, and after it the given command with that token and user name put in were run, in this order and
  once each. A result is ok exactly with the reason for it, and a command without a token placeholder leads to no command at all.
\<close>

theorem vcs_reason_exact:
  assumes "\<And>a c t sent. snd (ve_exec env a c t sent) = sent @ [c]" "vcsCredentialExec env inp [] = (r, sent)"
  shows "(vr_reason r \<in> {VcsMemberNotFound, PlaceholderMissing, UnsupportedMemberOs} \<longleftrightarrow> sent = []) \<and>
    (vr_reason r \<in> {CredentialReadFailed, CredentialEmpty, UsernameEmpty} \<longleftrightarrow>
      (\<exists>a cmd path. resolveMember (ve_registry env) (vi_member_id inp) (vi_member_name inp) = Inr a \<and>
        gitCredentialHelperRead (getOsCommands (ve_os env a) (ve_gitbash env a)) (vi_label inp) = Inr (cmd, path) \<and> sent = [cmd])) \<and>
    (vr_reason r \<in> {VcsOk, DispatchFailed} \<longleftrightarrow>
      (\<exists>a cmd path rd token username. resolveMember (ve_registry env) (vi_member_id inp) (vi_member_name inp) = Inr a \<and>
        gitCredentialHelperRead (getOsCommands (ve_os env a) (ve_gitbash env a)) (vi_label inp) = Inr (cmd, path) \<and>
        fst (ve_exec env a cmd 15000 []) = Inr rd \<and> eo_code rd = 0 \<and>
        token = helper_field (units_of ''password='') (eo_stdout rd) \<and> token \<noteq> [] \<and>
        username = helper_field (units_of ''username='') (eo_stdout rd) \<and> (needs_username inp \<longrightarrow> username \<noteq> []) \<and>
        sent = [cmd, wrapPidCapture (getOsCommands (ve_os env a) (ve_gitbash env a))
          (finalCommand (isPosixShell (ve_os env a = OsWindows) (ve_gitbash env a)) token username (vi_command inp))])) \<and>
    (vr_ok r \<longleftrightarrow> vr_reason r = VcsOk) \<and>
    (sent \<noteq> [] \<longrightarrow> has_text (vi_command inp) (vcs_placeholder TokenSlot) \<or> has_text (vi_command inp) (vcs_placeholder TokenInlineSlot))"
proof -
  have logged: "ve_exec env a c t l = (x, l') \<Longrightarrow> l' = l @ [c]" for a c t l x l'
    using assms(1)[of a c t l] by simp
  have dispatch: "l' = l @ [wrapPidCapture (getOsCommands (ve_os env a) (ve_gitbash env a))
        (finalCommand (isPosixShell (ve_os env a = OsWindows) (ve_gitbash env a)) token username (vi_command inp))] \<and>
      vr_reason r' \<in> {VcsOk, DispatchFailed} \<and> (vr_ok r' \<longleftrightarrow> vr_reason r' = VcsOk)"
    if "vcs_dispatch env inp a token username l = (r', l')" for a token username l r' l'
    using that by (auto simp: vcs_dispatch_def Let_def vcs_fail_def dest!: logged split: exec_split)
  show ?thesis
    using assms(2)
  proof (cases rule: vcs_exec_cases)
    case (unread a cmd path x)
    then show ?thesis
      using logged[OF unread(5)] by auto
  next
    case (dispatched a cmd path rd st1)
    then show ?thesis
      using logged[OF dispatched(3)] dispatch[OF dispatched(7)] by auto
  qed auto
qed

theorem vcs_reason_exact_witness:
  "\<exists>cmd path token username. gitCredentialHelperRead (getOsCommands OsLinux False) None = Inr (cmd, path) \<and> token \<noteq> [] \<and>
     snd (vcsCredentialExec demo_env (demo_input demo_command) []) =
       [cmd, wrapPidCapture (getOsCommands OsLinux False) (finalCommand (isPosixShell False False) token username demo_command)]"
proof -
  have "snd (ve_exec demo_env a c t sent) = sent @ [c]" for a c t sent
    by (simp add: demo_env_def demo_exec_def)
  from vcs_reason_exact[OF this prod.collapse[symmetric], of "demo_input demo_command"] demo_run show ?thesis
    by (fastforce simp: demo_env_def demo_input_def)
qed

end
