(* ===== verification/Sprint_Lock.thy ===== *)
theory Sprint_Lock
  imports JS_Prelude "HOL-Library.List_Lexorder" "HOL-Library.Char_ord"
begin

section \<open>The lock of a sprint\<close>

text \<open>
  \<^verbatim>\<open>fleet-sprint/sprint-lock.mjs\<close>: a file with the number of the process that holds the lock for one branch and one set of members. The
  world is the lock file, the processes of the machine and where each of them is in \<^verbatim>\<open>acquireSprintLock\<close>. Every call of the file system is
  one step, and the steps of the processes interleave as they will; a process may also end or crash between two steps. A
  file that was removed while a process has it open stays with that process, so a file carries an identity. File-system
  calls fail only as the code expects (the file exists already, or is gone).
\<close>

subsection \<open>The key\<close>

definition key_char :: "char \<Rightarrow> bool" where
  "key_char c \<longleftrightarrow>
     (let n = (of_char c :: nat) in 97 \<le> n \<and> n \<le> 122 \<or> 65 \<le> n \<and> n \<le> 90 \<or> 48 \<le> n \<and> n \<le> 57) \<or> c \<in> set ''._+-''"

definition sprintLockKey :: "string \<Rightarrow> string list \<Rightarrow> string" where
  "sprintLockKey branch members =
     map (\<lambda>c. if key_char c then c else CHR ''_'') (branch @ ''::'' @ join_strings ''+'' (sort (remdups members)))"

text \<open>The key does not depend on the order of the members or on repetitions.\<close>

lemma sprintLockKey_set: "set ms = set ns \<Longrightarrow> sprintLockKey b ms = sprintLockKey b ns"
  using sorted_list_of_set_sort_remdups[of ms] sorted_list_of_set_sort_remdups[of ns] by (simp add: sprintLockKey_def)

text \<open>But different branches may have the same key, so that one sprint is refused because of another.\<close>

lemma sprintLockKey_collision: "sprintLockKey ''feat/x'' ms = sprintLockKey ''feat_x'' ms"
  by (simp add: sprintLockKey_def key_char_def)

subsection \<open>Processes and the file\<close>

text \<open>
  Where a process is: before the call, before opening the file (the flag is \<^verbatim>\<open>allowReclaim\<close>), with the file open and nothing written,
  before reading the file, with the number it read, before removing a stale file, holding the lock, refused with
  \<^verbatim>\<open>SprintLockHeldError\<close>, or ended.
\<close>

datatype lock_pc =
    Idle | Opening bool | Writing nat | Reading bool | Deciding bool "int option" | Unlinking | Holding | LockRefused | Ended

record lock_world =
  lw_file :: "(nat \<times> string) option"
  lw_next :: nat
  lw_pc :: "nat \<Rightarrow> lock_pc"
  lw_alive :: "nat \<Rightarrow> bool"

definition lock_pid_alive :: "lock_world \<Rightarrow> int option \<Rightarrow> bool" where
  "lock_pid_alive w p = (case p of Some i \<Rightarrow> i > 0 \<and> lw_alive w (nat i) | None \<Rightarrow> False)"

definition at_pc :: "nat \<Rightarrow> lock_pc \<Rightarrow> lock_world \<Rightarrow> lock_world" where
  "at_pc p c w = w\<lparr>lw_pc := (lw_pc w)(p := c)\<rparr>"

definition read_lock :: "lock_world \<Rightarrow> int option" where
  "read_lock w = (case lw_file w of None \<Rightarrow> None | Some (i, s) \<Rightarrow> js_parseInt (JStr (js_trim s)))"

text \<open>The next step of a process.\<close>

definition lock_act :: "nat \<Rightarrow> lock_world \<Rightarrow> lock_world" where
  "lock_act p w =
     (case lw_pc w p of
        Idle \<Rightarrow> at_pc p (Opening True) w
      | Opening reclaim \<Rightarrow>
          (case lw_file w of
             None \<Rightarrow> at_pc p (Writing (lw_next w)) (w\<lparr>lw_file := Some (lw_next w, []), lw_next := lw_next w + 1\<rparr>)
           | Some _ \<Rightarrow> at_pc p (Reading reclaim) w)
      | Writing i \<Rightarrow>
          at_pc p Holding
            (case lw_file w of
               Some (j, s) \<Rightarrow> if i = j then w\<lparr>lw_file := Some (j, show_nat p)\<rparr> else w
             | None \<Rightarrow> w)
      | Reading reclaim \<Rightarrow> at_pc p (Deciding reclaim (read_lock w)) w
      | Deciding reclaim existing \<Rightarrow>
          if lock_pid_alive w existing then at_pc p LockRefused w
          else if \<not> reclaim then at_pc p LockRefused w
          else at_pc p Unlinking w
      | Unlinking \<Rightarrow> at_pc p (Opening False) (w\<lparr>lw_file := None\<rparr>)
      | Holding \<Rightarrow> w | LockRefused \<Rightarrow> w | Ended \<Rightarrow> w)"

text \<open>The end of a sprint: \<^verbatim>\<open>release\<close> removes the file, whatever it is, and the process ends. A crash leaves the file.\<close>

definition lock_release :: "nat \<Rightarrow> lock_world \<Rightarrow> lock_world" where
  "lock_release p w =
     (if lw_pc w p = Holding then (at_pc p Ended w)\<lparr>lw_file := None, lw_alive := (lw_alive w)(p := False)\<rparr> else w)"

definition lock_crash :: "nat \<Rightarrow> lock_world \<Rightarrow> lock_world" where
  "lock_crash p w = (at_pc p Ended w)\<lparr>lw_alive := (lw_alive w)(p := False)\<rparr>"

text \<open>A whole call with nothing in between: at most eight steps.\<close>

definition acquireSprintLock :: "nat \<Rightarrow> lock_world \<Rightarrow> lock_world" where
  "acquireSprintLock p w = (lock_act p ^^ 8) w"

datatype lock_event = LockStep nat | LockRelease nat | LockCrash nat | LockAcquire nat

text \<open>Only a live process does something.\<close>

fun lock_run :: "lock_event \<Rightarrow> lock_world \<Rightarrow> lock_world" where
  "lock_run (LockStep p) w = (if lw_alive w p then lock_act p w else w)"
| "lock_run (LockRelease p) w = (if lw_alive w p then lock_release p w else w)"
| "lock_run (LockCrash p) w = lock_crash p w"
| "lock_run (LockAcquire p) w = (if lw_alive w p then acquireSprintLock p w else w)"

definition lock_start :: "(nat \<times> string) option \<Rightarrow> (nat \<Rightarrow> bool) \<Rightarrow> lock_world" where
  "lock_start file alive = \<lparr>lw_file = file, lw_next = (case file of Some (i, _) \<Rightarrow> i + 1 | None \<Rightarrow> 0), lw_pc = (\<lambda>_. Idle), lw_alive = alive\<rparr>"

subsection \<open>Calls one after the other\<close>

lemma foldl_digits:
  assumes "\<forall>c\<in>set s. 48 \<le> (of_char c :: nat)"
  shows "foldl (\<lambda>a c. a * 10 + (int (of_char c) - 48)) (int a) s = int (foldl (\<lambda>a c. a * 10 + (of_char c - 48)) a s)"
  using assms
proof (induction s arbitrary: a)
  case (Cons c s)
  then have "int a * 10 + (int (of_char c) - 48) = int (a * 10 + (of_char c - 48))"
    by (simp add: of_nat_diff)
  then show ?case
    using Cons.IH[of "a * 10 + (of_char c - 48)"] Cons.prems unfolding foldl_Cons by (metis list.set_intros(2))
qed simp

lemma digit_char:
  assumes "48 \<le> (of_char c :: nat)" "of_char c \<le> (57 :: nat)"
  shows "c \<in> set ''0123456789''"
proof -
  have "(of_char c :: nat) \<in> set [48..<58]"
    using assms unfolding set_upt atLeastLessThan_iff by linarith
  moreover have "[48..<58] = [48, 49, 50, 51, 52, 53, 54, 55, 56, 57 :: nat]"
    by (simp add: upt_conv_Cons)
  ultimately have "(of_char c :: nat) \<in> set [48, 49, 50, 51, 52, 53, 54, 55, 56, 57]"
    by metis
  then have "c \<in> set (map char_of [48, 49, 50, 51, 52, 53, 54, 55, 56, 57 :: nat])"
    unfolding set_map by (metis char_of_char imageI)
  moreover have "map char_of [48, 49, 50, 51, 52, 53, 54, 55, 56, 57 :: nat] = ''0123456789''"
    by code_simp
  ultimately show ?thesis
    by metis
qed

lemma parse_show: "js_parseInt (JStr (js_trim (show_nat n))) = Some (int n)"
proof -
  have digit: "js_digit c" "\<not> js_space c" if "c \<in> set (show_nat n)" for c
    using show_nat_digits[OF that] by (auto simp: js_digit_def js_space_def Let_def)
  have "read_digits (show_nat n) = Some (int n)"
    using foldl_digits[of "show_nat n" 0] show_nat_digits[of _ n] digit(1) read_show_nat[of n]
    by (simp add: read_digits_def read_nat_def takeWhile_eq_all_conv[THEN iffD2] Let_def)
  moreover have "dropWhile js_space (show_nat n) = show_nat n" "dropWhile js_space (rev (show_nat n)) = rev (show_nat n)"
    using digit(2) hd_in_set[of "show_nat n"] hd_in_set[of "rev (show_nat n)"] by (auto simp: dropWhile_eq_self_iff)
  then have "js_trim (show_nat n) = show_nat n" "dropWhile js_space (show_nat n) = show_nat n"
    by (simp_all add: js_trim_def)
  moreover obtain c s where "show_nat n = c # s"
    by (cases "show_nat n") auto
  moreover from this have "c \<in> set ''0123456789''"
    using digit_char[of c] show_nat_digits[of c n] by simp
  ultimately show ?thesis
    by (auto simp: js_parseInt_def)
qed

lemma act_simps:
  "lw_pc w p = Idle \<Longrightarrow> lock_act p w = at_pc p (Opening True) w"
  "lw_pc w p = Opening b \<Longrightarrow> lw_file w = None \<Longrightarrow> lock_act p w = at_pc p (Writing (lw_next w)) (w\<lparr>lw_file := Some (lw_next w, []), lw_next := lw_next w + 1\<rparr>)"
  "lw_pc w p = Opening b \<Longrightarrow> lw_file w = Some f \<Longrightarrow> lock_act p w = at_pc p (Reading b) w"
  "lw_pc w p = Writing i \<Longrightarrow> lw_file w = Some (i, s) \<Longrightarrow> lock_act p w = at_pc p Holding (w\<lparr>lw_file := Some (i, show_nat p)\<rparr>)"
  "lw_pc w p = Reading b \<Longrightarrow> lock_act p w = at_pc p (Deciding b (read_lock w)) w"
  "lw_pc w p = Deciding b e \<Longrightarrow> lock_act p w = at_pc p (if lock_pid_alive w e \<or> \<not> b then LockRefused else Unlinking) w"
  "lw_pc w p = Unlinking \<Longrightarrow> lock_act p w = at_pc p (Opening False) (w\<lparr>lw_file := None\<rparr>)"
  "lw_pc w p \<in> {Holding, LockRefused, Ended} \<Longrightarrow> lock_act p w = w"
  by (auto simp: lock_act_def split: lock_pc.split)

lemma at_pc_simps [simp]:
  "lw_pc (at_pc p c w) = (lw_pc w)(p := c)" "lw_file (at_pc p c w) = lw_file w" "lw_next (at_pc p c w) = lw_next w"
  "lw_alive (at_pc p c w) = lw_alive w" "at_pc p c (at_pc p d w) = at_pc p c w" "read_lock (at_pc p c w) = read_lock w"
  "lock_pid_alive (at_pc p c w) = lock_pid_alive w"
  "at_pc p c w\<lparr>lw_file := f\<rparr> = at_pc p c (w\<lparr>lw_file := f\<rparr>)" "at_pc p c w\<lparr>lw_next := n\<rparr> = at_pc p c (w\<lparr>lw_next := n\<rparr>)"
  by (simp_all add: at_pc_def read_lock_def lock_pid_alive_def[abs_def])

lemma settled: "lw_pc w p \<in> {Holding, LockRefused, Ended} \<Longrightarrow> (lock_act p ^^ n) w = w"
  by (induction n) (simp_all add: act_simps(8))

text \<open>What a call does when nothing comes in between.\<close>

lemma acquire_exact:
  assumes "lw_pc w p = Idle"
  shows "acquireSprintLock p w =
    (if lock_pid_alive w (read_lock w) then at_pc p LockRefused w
     else at_pc p Holding (w\<lparr>lw_file := Some (lw_next w, show_nat p), lw_next := lw_next w + 1\<rparr>))"
proof (cases "lw_file w")
  case None
  have "(lock_act p ^^ 8) w = (lock_act p ^^ 5) ((lock_act p ^^ 3) w)"
    by (simp flip: funpow_add comp_apply[of "lock_act p ^^ 5"])
  moreover have "(lock_act p ^^ 3) w = at_pc p Holding (w\<lparr>lw_file := Some (lw_next w, show_nat p), lw_next := lw_next w + 1\<rparr>)"
    using assms None by (simp add: numeral_3_eq_3 act_simps)
  ultimately show ?thesis
    using None by (simp add: acquireSprintLock_def settled read_lock_def lock_pid_alive_def)
next
  case (Some f)
  show ?thesis
  proof (cases "lock_pid_alive w (read_lock w)")
    case True
    have "(lock_act p ^^ 8) w = (lock_act p ^^ 4) ((lock_act p ^^ 4) w)"
      by (simp flip: funpow_add comp_apply[of "lock_act p ^^ 4"])
    moreover have "(lock_act p ^^ 4) w = at_pc p LockRefused w"
      using assms Some True by (simp add: eval_nat_numeral act_simps)
    ultimately show ?thesis
      using True by (simp add: acquireSprintLock_def settled)
  next
    case False
    have "(lock_act p ^^ 8) w = lock_act p ((lock_act p ^^ 7) w)"
      by (simp add: eval_nat_numeral)
    moreover have "(lock_act p ^^ 7) w = at_pc p Holding (w\<lparr>lw_file := Some (lw_next w, show_nat p), lw_next := lw_next w + 1\<rparr>)"
      using assms Some False by (simp add: eval_nat_numeral act_simps)
    ultimately show ?thesis
      using False by (simp add: acquireSprintLock_def act_simps(8))
  qed
qed

text \<open>
  When calls do not overlap, the file of a live holder has its number in it. There is no process 0, as the code has it.
\<close>

fun whole :: "lock_event \<Rightarrow> bool" where
  "whole (LockStep p) = False"
| "whole _ = True"

definition lock_inv :: "lock_world \<Rightarrow> bool" where
  "lock_inv w \<longleftrightarrow>
     \<not> lw_alive w 0 \<and> (\<forall>p. lw_pc w p \<in> {Idle, Holding, LockRefused, Ended}) \<and>
     (\<forall>p. lw_alive w p \<longrightarrow> lw_pc w p = Holding \<longrightarrow> (\<exists>i. lw_file w = Some (i, show_nat p)))"

lemma held_read: "lw_file w = Some (i, show_nat p) \<Longrightarrow> read_lock w = Some (int p)"
  by (simp add: read_lock_def parse_show)

lemma inv_one_holder: "lock_inv w \<Longrightarrow> lw_alive w p \<Longrightarrow> lw_alive w q \<Longrightarrow> lw_pc w p = Holding \<Longrightarrow> lw_pc w q = Holding \<Longrightarrow> p = q"
  unfolding lock_inv_def by (metis Pair_inject option.inject show_nat_inj)

lemma inv_holder_read: "lock_inv w \<Longrightarrow> lw_alive w p \<Longrightarrow> lw_pc w p = Holding \<Longrightarrow> lock_pid_alive w (read_lock w)"
proof -
  assume w: "lock_inv w" "lw_alive w p" "lw_pc w p = Holding"
  then have "p \<noteq> 0" "\<exists>i. lw_file w = Some (i, show_nat p)"
    unfolding lock_inv_def by metis+
  then show ?thesis
    using w(2) held_read by (auto simp: lock_pid_alive_def)
qed

lemma inv_run:
  assumes inv: "lock_inv w" and "whole e"
  shows "lock_inv (lock_run e w)"
proof (cases e)
  case (LockAcquire p)
  show ?thesis
  proof (cases "lw_pc w p = Idle \<and> lw_alive w p")
    case True
    show ?thesis
    proof (cases "lock_pid_alive w (read_lock w)")
      case held: True
      then show ?thesis
        using True inv LockAcquire by (auto simp: acquire_exact lock_inv_def)
    next
      case False
      then have "\<not> (lw_alive w q \<and> lw_pc w q = Holding)" for q
        using inv_holder_read[OF inv, of q] by blast
      then show ?thesis
        using True False inv LockAcquire by (auto simp: acquire_exact lock_inv_def)
    qed
  next
    case False
    then have "lw_alive w p \<Longrightarrow> lw_pc w p \<in> {Holding, LockRefused, Ended}"
      using inv by (auto simp: lock_inv_def)
    then show ?thesis
      using inv LockAcquire by (auto simp: acquireSprintLock_def settled)
  qed
next
  case (LockRelease p)
  then show ?thesis
    using inv inv_one_holder[OF inv, of p] by (auto simp: lock_release_def lock_inv_def)
qed (use assms in \<open>auto simp: lock_crash_def lock_inv_def\<close>)

lemma inv_runs: "lock_inv w \<Longrightarrow> list_all whole evs \<Longrightarrow> lock_inv (fold lock_run evs w)"
  by (induction evs arbitrary: w) (simp_all add: inv_run)

text \<open>
  Property C17. As long as calls do not overlap, whatever the lock file had in it at first and however processes end or crash: at most one
  live process holds the lock; a call of a process that has not called before takes the lock exactly if the file does not
  name a live process, and is refused otherwise; and while a live process holds the lock every such call is refused.
\<close>

theorem sprint_lock_exclusive:
  assumes "\<not> alive 0" "list_all whole evs" "w = fold lock_run evs (lock_start file alive)"
  shows "(\<forall>p q. lw_alive w p \<and> lw_alive w q \<and> lw_pc w p = Holding \<and> lw_pc w q = Holding \<longrightarrow> p = q) \<and>
    (\<forall>p. lw_alive w p \<and> lw_pc w p = Idle \<longrightarrow>
       lw_pc (acquireSprintLock p w) p = (if lock_pid_alive w (read_lock w) then LockRefused else Holding)) \<and>
    (\<forall>p q. lw_alive w q \<and> lw_pc w q = Holding \<and> lw_pc w p = Idle \<longrightarrow> lw_pc (acquireSprintLock p w) p = LockRefused)"
proof -
  have "lock_inv (lock_start file alive)"
    using assms(1) by (simp add: lock_inv_def lock_start_def)
  then have inv: "lock_inv w"
    unfolding assms(3) by (rule inv_runs[OF _ assms(2)])
  then show ?thesis
    using inv_one_holder[OF inv] inv_holder_read[OF inv] by (auto simp: acquire_exact)
qed

theorem sprint_lock_exclusive_witness:
  "lw_pc (acquireSprintLock 8 (lock_run (LockAcquire 7) (lock_start (Some (0, ''5'')) (\<lambda>p. p \<in> {7, 8})))) 8 = LockRefused"
proof -
  let ?w = "fold lock_run [LockAcquire 7] (lock_start (Some (0, ''5'')) (\<lambda>p. p \<in> {7, 8}))"
  have start: "lw_pc (lock_start f a) p = Idle" "lw_alive (lock_start f a) = a" for f a p
    by (simp_all add: lock_start_def)
  have "read_lock (lock_start (Some (0, ''5'')) (\<lambda>p. p \<in> {7, 8})) = Some 5"
    by (simp add: read_lock_def lock_start_def js_trim_def js_space_def js_parseInt_def read_digits_def js_digit_def)
  then have "\<not> lock_pid_alive (lock_start (Some (0, ''5'')) (\<lambda>p. p \<in> {7, 8})) (read_lock (lock_start (Some (0, ''5'')) (\<lambda>p. p \<in> {7, 8})))"
    by (simp add: lock_pid_alive_def start)
  then have "lw_pc ?w 7 = Holding" "lw_pc ?w 8 = Idle" "lw_alive ?w 7"
    by (simp_all add: acquire_exact start)
  moreover obtain w where w: "w = ?w"
    by blast
  moreover have "\<not> (0 :: nat) \<in> {7, 8}" "list_all whole [LockAcquire 7]"
    by simp_all
  ultimately have "lw_pc (acquireSprintLock 8 w) 8 = LockRefused"
    using sprint_lock_exclusive[OF _ _ w] by blast
  then show ?thesis
    unfolding w by simp
qed

subsection \<open>Calls that overlap\<close>

lemma act_alive [simp]: "lw_alive (lock_act p w) = lw_alive w"
  by (auto simp: lock_act_def at_pc_def split: lock_pc.split option.split)

lemma run_steps: "lw_alive w p \<Longrightarrow> (lock_run (LockStep p) ^^ n) w = (lock_act p ^^ n) w"
proof (induction n)
  case (Suc n)
  have "lw_alive ((lock_act p ^^ n) w) = lw_alive w"
    by (induction n) simp_all
  then show ?case
    using Suc by simp
qed simp

lemma to_unlinking:
  "lw_pc w p = Idle \<Longrightarrow> lw_file w = Some f \<Longrightarrow> \<not> lock_pid_alive w (read_lock w) \<Longrightarrow> (lock_act p ^^ 4) w = at_pc p Unlinking w"
  by (simp add: eval_nat_numeral act_simps)

lemma take_over:
  "lw_pc w p = Unlinking \<Longrightarrow> (lock_act p ^^ 3) w = at_pc p Holding (w\<lparr>lw_file := Some (lw_next w, show_nat p), lw_next := lw_next w + 1\<rparr>)"
  by (simp add: eval_nat_numeral act_simps act_simps(2)[where b = False])

lemma to_writing:
  "lw_pc w p = Idle \<Longrightarrow> lw_file w = None \<Longrightarrow> (lock_act p ^^ 2) w = at_pc p (Writing (lw_next w)) (w\<lparr>lw_file := Some (lw_next w, []), lw_next := lw_next w + 1\<rparr>)"
  by (simp add: eval_nat_numeral act_simps)

text \<open>
  Calls that overlap can both take the lock. With a stale file both processes may decide to remove it before either does, and the
  second removes the file of the first; with no file at all the second may read the file of the first before the number is
  in it, and removes it as corrupt.
\<close>

theorem sprint_lock_race:
  "(let w = fold lock_run (replicate 4 (LockStep 3) @ replicate 4 (LockStep 4) @ replicate 3 (LockStep 3) @ replicate 3 (LockStep 4))
         (lock_start (Some (0, ''9'')) (\<lambda>p. p \<in> {3, 4}))
    in lw_pc w 3 = Holding \<and> lw_pc w 4 = Holding \<and> lw_alive w 3 \<and> lw_alive w 4) \<and>
   (let w = fold lock_run (replicate 2 (LockStep 3) @ replicate 4 (LockStep 4) @ replicate 3 (LockStep 4) @ [LockStep 3])
         (lock_start None (\<lambda>p. p \<in> {3, 4}))
    in lw_pc w 3 = Holding \<and> lw_pc w 4 = Holding \<and> lw_alive w 3 \<and> lw_alive w 4)"
proof -
  define stale empty where "stale = lock_start (Some (0, ''9'')) (\<lambda>p. p \<in> {3, 4})" and "empty = lock_start None (\<lambda>p. p \<in> {3, 4})"
  have start: "lw_pc stale p = Idle" "lw_pc empty p = Idle" "lw_alive stale p \<longleftrightarrow> p = 3 \<or> p = 4" "lw_alive empty p \<longleftrightarrow> p = 3 \<or> p = 4"
    "lw_file stale = Some (0, ''9'')" "lw_file empty = None" "lw_next empty = 0" for p
    by (simp_all add: stale_def empty_def lock_start_def)
  have "js_parseInt (JStr (js_trim ''9'')) = Some 9"
    by code_simp
  then have read: "\<not> lock_pid_alive stale (read_lock stale)"
    by (simp add: read_lock_def lock_pid_alive_def start)
  have unread: "\<not> lock_pid_alive w (read_lock w)" if "lw_file w = Some (i, [])" for w i
    using that unfolding read_lock_def by (simp add: lock_pid_alive_def js_trim_def js_parseInt_def read_digits_def)
  have "fold lock_run (replicate 4 (LockStep 3) @ replicate 4 (LockStep 4)) stale = at_pc 4 Unlinking (at_pc 3 Unlinking stale)"
    by (simp only: fold_append o_def) (simp add: run_steps start to_unlinking read)
  then have "let w = fold lock_run (replicate 4 (LockStep 3) @ replicate 4 (LockStep 4) @ replicate 3 (LockStep 3) @ replicate 3 (LockStep 4)) stale
      in lw_pc w 3 = Holding \<and> lw_pc w 4 = Holding \<and> lw_alive w 3 \<and> lw_alive w 4"
    by (simp only: append_assoc[symmetric] fold_append o_def Let_def) (simp add: run_steps start take_over)
  moreover have "let w = fold lock_run (replicate 2 (LockStep 3) @ replicate 4 (LockStep 4) @ replicate 3 (LockStep 4) @ [LockStep 3]) empty
      in lw_pc w 3 = Holding \<and> lw_pc w 4 = Holding \<and> lw_alive w 3 \<and> lw_alive w 4"
    by (simp only: fold_append o_def Let_def) (simp add: run_steps start to_writing to_unlinking unread take_over lock_act_def at_pc_def)
  ultimately show ?thesis
    unfolding stale_def empty_def by blast
qed

end
