(* ===== verification/Scope_Walk.thy ===== *)
theory Scope_Walk
  imports Scope
begin

section \<open>The per-node walk against the bulk listing\<close>

text \<open>
  The two ways \<^verbatim>\<open>scope-overlap.mjs\<close> expands a scope, down to the commands they send to the tracker: the walk
  (\<^verbatim>\<open>bdListChildren\<close> under \<^verbatim>\<open>expandScope\<close>, one \<^verbatim>\<open>bd list --parent\<close> for each bead) and the bulk listing
  (\<^verbatim>\<open>bdListAllBeadsWithClosed\<close> under \<^verbatim>\<open>expandScopeInMemory\<close>), both through \<^verbatim>\<open>execBdAsync\<close> of
  \<^verbatim>\<open>lib/exec-bd.mjs\<close>. The program \<^verbatim>\<open>bd\<close> is the parameter \<open>bd\<close>, which answers an argument vector with what it prints or
  with an error, and \<open>parse\<close> is \<^verbatim>\<open>JSON.parse\<close>. What the source documents of \<^verbatim>\<open>bd list\<close> is the hypothesis
  \<open>lists_tracker\<close>: \<^verbatim>\<open>--all\<close> prints every row, and \<^verbatim>\<open>--parent\<close> prints the direct children of one bead and, like every
  listing without \<^verbatim>\<open>--all\<close>, hides the closed ones.
\<close>

subsection \<open>The commands\<close>

definition assertSafeArgs :: "string list \<Rightarrow> unit res" where
  "assertSafeArgs args =
     (if list_all (\<lambda>a. a \<noteq> [] \<and> list_all issue_id_char a) args then Inr ()
      else Inl (TypeError ''execBdAsync: unsafe bd argument''))"

definition execBdAsync :: "(string list \<Rightarrow> string res) \<Rightarrow> string list \<Rightarrow> string res" where
  "execBdAsync bd args = ebind (assertSafeArgs args) (\<lambda>_. bd args)"

definition parse_listing :: "(string \<Rightarrow> jsval option) \<Rightarrow> string \<Rightarrow> jsval res" where
  "parse_listing parse stdout =
     (case parse (if js_trim stdout \<noteq> [] then stdout else ''[]'') of
        None \<Rightarrow> Inl (GeneralError ''[scope-overlap] failed to parse bd list'')
      | Some rows \<Rightarrow> Inr rows)"

definition row_id :: "jsval \<Rightarrow> string option" where
  "row_id b = (if truthy b then (case jfield b ''id'' of JStr s \<Rightarrow> Some s | _ \<Rightarrow> None) else None)"

definition bdListChildren :: "(string list \<Rightarrow> string res) \<Rightarrow> (string \<Rightarrow> jsval option) \<Rightarrow> string \<Rightarrow> string list res" where
  "bdListChildren bd parse parentId =
     ebind (validateIssueId (JStr parentId)) (\<lambda>_.
     ebind (execBdAsync bd [''list'', ''--parent'', parentId, ''--json'', ''--limit'', ''0'']) (\<lambda>stdout.
     ebind (parse_listing parse stdout) (\<lambda>rows.
       Inr (List.map_filter row_id (rows_of rows)))))"

definition bdListAllBeadsWithClosed :: "(string list \<Rightarrow> string res) \<Rightarrow> (string \<Rightarrow> jsval option) \<Rightarrow> jsval res" where
  "bdListAllBeadsWithClosed bd parse =
     ebind (execBdAsync bd [''list'', ''--all'', ''--limit'', ''0'', ''--json'']) (\<lambda>stdout.
     ebind (parse_listing parse stdout) (\<lambda>rows.
       Inr (JArr (filter (\<lambda>b. case row_id b of Some s \<Rightarrow> s \<noteq> [] | None \<Rightarrow> False) (rows_of rows)))))"

text \<open>The guard's own \<^verbatim>\<open>expandScope\<close>: the injected lister if there is one, else one bulk listing.\<close>

definition expandScopeStandalone ::
  "(string \<Rightarrow> string list res) option \<Rightarrow> jsval res \<Rightarrow> string list \<Rightarrow> string list res option"
where
  "expandScopeStandalone explicitListChildren listAllBeads roots =
     (case explicitListChildren of
        Some listChildren \<Rightarrow> expandScope roots listChildren
      | None \<Rightarrow> Some (ebind listAllBeads (\<lambda>raw.
                  Inr (expandScopeInMemory roots (buildChildIndex (normalize_rows raw))))))"

subsection \<open>What the tracker documents\<close>

definition issue_id :: "string \<Rightarrow> bool" where
  "issue_id s \<longleftrightarrow> s \<noteq> [] \<and> list_all issue_id_char s"

definition row_closed :: "jsval \<Rightarrow> bool" where
  "row_closed r \<longleftrightarrow> jfield r ''status'' = JStr ''closed''"

text \<open>The rows of the tracker are objects with well-formed ids, no id twice.\<close>

definition rows_ok :: "jsval list \<Rightarrow> bool" where
  "rows_ok rows \<longleftrightarrow> (\<forall>r\<in>set rows. case row_id r of Some s \<Rightarrow> issue_id s | None \<Rightarrow> False) \<and> distinct (map row_id rows)"

lemma rows_ok_iff:
  "rows_ok rows \<longleftrightarrow> (\<forall>r\<in>set rows. \<exists>s. row_id r = Some s \<and> issue_id s) \<and> distinct (map row_id rows)"
  by (auto simp: rows_ok_def split: option.splits)

definition prints :: "(string list \<Rightarrow> string res) \<Rightarrow> (string \<Rightarrow> jsval option) \<Rightarrow> string list \<Rightarrow> jsval list \<Rightarrow> bool" where
  "prints bd parse args rows \<longleftrightarrow> (\<exists>out. bd args = Inr out \<and> js_trim out \<noteq> [] \<and> parse out = Some (JArr rows))"

definition lists_tracker :: "(string list \<Rightarrow> string res) \<Rightarrow> (string \<Rightarrow> jsval option) \<Rightarrow> jsval list \<Rightarrow> bool" where
  "lists_tracker bd parse rows \<longleftrightarrow> prints bd parse [''list'', ''--all'', ''--limit'', ''0'', ''--json''] rows \<and>
     (\<forall>p. issue_id p \<longrightarrow> (\<exists>kids. prints bd parse [''list'', ''--parent'', p, ''--json'', ''--limit'', ''0''] kids \<and>
        set kids = {r \<in> set rows. parentIdOf r = Some p \<and> \<not> row_closed r}))"

definition unclosed_rows :: "jsval list \<Rightarrow> jsval list" where
  "unclosed_rows rows = filter (\<lambda>r. \<not> row_closed r) rows"

subsection \<open>The walk ends and is the closure of its lister\<close>

lemma add_new_frontier:
  assumes "add_new cs scope rest = (scope', frontier')"
  obtains new where "scope' = scope @ new" "frontier' = rest @ new" "distinct new" "set new = {c \<in> set cs. c \<noteq> []} - set scope"
  using assms add_new_spec [of cs scope rest] by auto

lemma expandScope_loop_closure:
  assumes "finite U" and L: "\<And>p. p \<in> U \<Longrightarrow> \<exists>cs. L p = Inr cs \<and> {c \<in> set cs. c \<noteq> []} = R `` {p}" and RU: "R `` U \<subseteq> U"
  shows "set frontier \<subseteq> set scope \<Longrightarrow> set scope \<subseteq> U \<Longrightarrow> distinct scope \<Longrightarrow> R `` (set scope - set frontier) \<subseteq> set scope \<Longrightarrow>
    \<exists>s. expandScope_loop L scope frontier = Some (Inr s) \<and> distinct s \<and> set scope \<subseteq> set s \<and> set s \<subseteq> R\<^sup>* `` set scope \<and> R `` set s \<subseteq> set s"
proof (induction "2 * card (U - set scope) + length frontier" arbitrary: scope frontier rule: less_induct)
  case less
  show ?case
  proof (cases frontier)
    case Nil
    with less.prems show ?thesis by (auto simp: expandScope_loop.simps)
  next
    case (Cons i rest)
    have "i \<in> U" using less.prems Cons by auto
    then obtain cs where cs: "L i = Inr cs" "{c \<in> set cs. c \<noteq> []} = R `` {i}" using L by blast
    obtain scope' frontier' where an: "add_new cs scope rest = (scope', frontier')" by fastforce
    then obtain new where new: "scope' = scope @ new" "frontier' = rest @ new" "distinct new" "set new = R `` {i} - set scope"
      using cs(2) by (elim add_new_frontier) simp
    have sub: "set new \<subseteq> U - set scope" using new(4) RU \<open>i \<in> U\<close> by blast
    have "U - set scope' = (U - set scope) - set new" by (auto simp: new(1))
    then have "card (U - set scope') = card (U - set scope) - length new"
      using sub new(3) \<open>finite U\<close> by (simp add: card_Diff_subset distinct_card)
    moreover have "length new \<le> card (U - set scope)"
      using card_mono [OF _ sub] new(3) \<open>finite U\<close> by (simp add: distinct_card)
    ultimately have m: "2 * card (U - set scope') + length frontier' < 2 * card (U - set scope) + length frontier"
      by (simp add: Cons new(2))
    have "R `` (set scope' - set frontier') \<subseteq> set scope'"
      using less.prems(4) new(1,2,4) by (fastforce simp: Cons)
    moreover have "set frontier' \<subseteq> set scope'" "set scope' \<subseteq> U" "distinct scope'"
      using less.prems sub new by (auto simp: Cons)
    ultimately obtain s where s: "expandScope_loop L scope' frontier' = Some (Inr s)" "distinct s" "set scope' \<subseteq> set s"
      "set s \<subseteq> R\<^sup>* `` set scope'" "R `` set s \<subseteq> set s" using less.hyps [OF m] by blast
    have "i \<in> set scope" using less.prems(1) Cons by simp
    then have "set scope' \<subseteq> R\<^sup>* `` set scope" using new(1,4) by auto
    then have "R\<^sup>* `` set scope' \<subseteq> R\<^sup>* `` set scope" by (auto intro: rtrancl_trans)
    moreover have "expandScope_loop L scope frontier = expandScope_loop L scope' frontier'"
      by (subst expandScope_loop.simps) (simp add: Cons cs(1) an)
    ultimately show ?thesis using s new(1) by (intro exI [of _ s]) auto
  qed
qed

lemma expandScope_closure:
  assumes "finite U" and "\<And>p. p \<in> U \<Longrightarrow> \<exists>cs. L p = Inr cs \<and> {c \<in> set cs. c \<noteq> []} = R `` {p}" and "R `` U \<subseteq> U"
    and "set roots \<subseteq> U" "[] \<notin> set roots"
  shows "\<exists>s. expandScope roots L = Some (Inr s) \<and> distinct s \<and> set s = R\<^sup>* `` set roots"
proof -
  obtain new where new: "add_new roots [] [] = (new, new)" "distinct new" "set new = {r \<in> set roots. r \<noteq> []}"
    using add_new_roots by blast
  then have nr: "set new = set roots" using assms(5) by auto
  obtain s where s: "expandScope_loop L new new = Some (Inr s)" "distinct s" "set new \<subseteq> set s" "set s \<subseteq> R\<^sup>* `` set new"
    "R `` set s \<subseteq> set s"
    using expandScope_loop_closure [OF assms(1-3), of new new] new(2) nr assms(4) by auto
  have "R\<^sup>* `` set new \<subseteq> R\<^sup>* `` set s" using s(3) by blast
  also have "\<dots> = set s" using s(5) by (rule Image_closed_trancl)
  finally show ?thesis using s new(1) nr by (auto simp: expandScope_def)
qed

subsection \<open>The rows and their edges\<close>

lemma row_id_SomeD: "row_id r = Some s \<Longrightarrow> truthy r \<and> jfield r ''id'' = JStr s"
  by (auto simp: row_id_def split: if_splits jsval.splits)

lemma normalize_row: "row_id r = Some s \<Longrightarrow> b_id (normalizeBead r) = s \<and> b_parentId (normalizeBead r) = parentIdOf r"
  by (auto simp: normalizeBead_def str_or_empty_def dest!: row_id_SomeD)

lemma normalize_rows_ok:
  assumes "\<forall>r\<in>set rows. \<exists>s. row_id r = Some s \<and> issue_id s"
  shows "normalize_rows (JArr rows) = map normalizeBead rows"
proof -
  have "\<forall>b\<in>set (map normalizeBead rows). b_id b \<noteq> []"
    using assms by (fastforce simp: issue_id_def dest: normalize_row)
  then show ?thesis by (simp only: normalize_rows_def rows_of_def jsval.case filter_True)
qed

lemma parent_rel_rows:
  assumes "\<forall>r\<in>set rows. \<exists>s. row_id r = Some s \<and> issue_id s"
  shows "(p, c) \<in> parent_rel (normalize_rows (JArr rows)) \<longleftrightarrow>
    p \<noteq> [] \<and> (\<exists>r\<in>set rows. row_id r = Some c \<and> parentIdOf r = Some p)"
proof -
  have "row_id r = Some (b_id (normalizeBead r)) \<and> b_id (normalizeBead r) \<noteq> [] \<and> b_parentId (normalizeBead r) = parentIdOf r"
    if "r \<in> set rows" for r
    using assms that normalize_row [of r] by (auto simp: issue_id_def)
  then show ?thesis unfolding normalize_rows_ok [OF assms] parent_rel_def by force
qed

lemma parent_rel_unclosed_rows:
  assumes "rows_ok rows"
  shows "(p, c) \<in> parent_rel (normalize_rows (JArr (unclosed_rows rows))) \<longleftrightarrow>
    p \<noteq> [] \<and> (\<exists>r\<in>set rows. row_id r = Some c \<and> parentIdOf r = Some p \<and> \<not> row_closed r)"
  using assms by (subst parent_rel_rows) (auto simp: rows_ok_iff unclosed_rows_def)

lemma bdListChildren_open:
  assumes "lists_tracker bd parse rows" "rows_ok rows" "issue_id p"
  shows "\<exists>cs. bdListChildren bd parse p = Inr cs \<and>
    {c \<in> set cs. c \<noteq> []} = parent_rel (normalize_rows (JArr (unclosed_rows rows))) `` {p}"
proof -
  obtain out kids where out: "bd [''list'', ''--parent'', p, ''--json'', ''--limit'', ''0''] = Inr out" "js_trim out \<noteq> []"
    "parse out = Some (JArr kids)" "set kids = {r \<in> set rows. parentIdOf r = Some p \<and> \<not> row_closed r}"
    using assms(1,3) by (auto simp: lists_tracker_def prints_def)
  have "execBdAsync bd [''list'', ''--parent'', p, ''--json'', ''--limit'', ''0''] = Inr out"
    using assms(3) out(1) by (simp add: execBdAsync_def assertSafeArgs_def issue_id_def issue_id_char_def)
  then have "bdListChildren bd parse p = Inr (List.map_filter row_id kids)"
    using assms(3) out by (simp add: bdListChildren_def parse_listing_def validateIssueId_def issue_id_def rows_of_def)
  moreover have "c \<in> set (List.map_filter row_id kids) \<longleftrightarrow> (\<exists>r\<in>set kids. row_id r = Some c)" for c
    by (force simp: List.map_filter_def)
  then have "{c \<in> set (List.map_filter row_id kids). c \<noteq> []} = parent_rel (normalize_rows (JArr (unclosed_rows rows))) `` {p}"
    using assms(2,3) by (fastforce simp: parent_rel_unclosed_rows [OF assms(2)] out(4) rows_ok_iff issue_id_def)
  ultimately show ?thesis by blast
qed

lemma bdListAll_rows:
  assumes "lists_tracker bd parse rows" "rows_ok rows"
  shows "bdListAllBeadsWithClosed bd parse = Inr (JArr rows)"
proof -
  have "filter (\<lambda>b. case row_id b of Some s \<Rightarrow> s \<noteq> [] | None \<Rightarrow> False) rows = rows"
    using assms(2) by (auto simp: rows_ok_iff issue_id_def intro!: filter_True)
  with assms(1) show ?thesis
    by (auto simp: lists_tracker_def prints_def bdListAllBeadsWithClosed_def execBdAsync_def assertSafeArgs_def issue_id_char_def
        parse_listing_def rows_of_def)
qed

lemma walk_open_subtree:
  assumes "lists_tracker bd parse rows" "rows_ok rows" "\<forall>r\<in>set roots. issue_id r"
  shows "\<exists>scope. expandScope roots (bdListChildren bd parse) = Some (Inr scope) \<and> distinct scope \<and>
    set scope = subtree (normalize_rows (JArr (unclosed_rows rows))) roots"
proof -
  let ?R = "parent_rel (normalize_rows (JArr (unclosed_rows rows)))"
  let ?U = "set roots \<union> {c. \<exists>r\<in>set rows. row_id r = Some c}"
  have "{c. \<exists>r\<in>set rows. row_id r = Some c} = (the \<circ> row_id) ` {r \<in> set rows. row_id r \<noteq> None}" by force
  then have fin: "finite ?U" by simp
  have ids: "issue_id p" if "p \<in> ?U" for p using that assms(2,3) by (auto simp: rows_ok_iff)
  have "?R `` ?U \<subseteq> ?U" by (auto simp: parent_rel_unclosed_rows [OF assms(2)])
  from expandScope_closure [OF fin bdListChildren_open [OF assms(1,2) ids] this]
  have "\<exists>s. expandScope roots (bdListChildren bd parse) = Some (Inr s) \<and> distinct s \<and> set s = ?R\<^sup>* `` set roots"
    using assms(3) by (auto simp: issue_id_def)
  moreover have "{r \<in> set roots. r \<noteq> []} = set roots" using assms(3) by (auto simp: issue_id_def)
  ultimately show ?thesis by (simp add: subtree_def)
qed

lemma open_subtree_le: "rows_ok rows \<Longrightarrow> subtree (normalize_rows (JArr (unclosed_rows rows))) roots \<subseteq> subtree (normalize_rows (JArr rows)) roots"
  unfolding subtree_def
  by (intro Image_mono rtrancl_mono) (auto simp: parent_rel_unclosed_rows parent_rel_rows rows_ok_iff)

lemma row_id_unique: "rows_ok rows \<Longrightarrow> r \<in> set rows \<Longrightarrow> r' \<in> set rows \<Longrightarrow> row_id r = row_id r' \<Longrightarrow> r = r'"
  by (auto simp: rows_ok_iff distinct_map inj_on_def)

text \<open>The two subtrees agree exactly if every closed bead of the full one is a root.\<close>

lemma open_subtree_eq:
  assumes "rows_ok rows" "[] \<notin> set roots"
  defines "full \<equiv> subtree (normalize_rows (JArr rows)) roots"
  shows "subtree (normalize_rows (JArr (unclosed_rows rows))) roots = full \<longleftrightarrow>
    (\<forall>r\<in>set rows. \<forall>c. row_id r = Some c \<longrightarrow> row_closed r \<longrightarrow> c \<in> full \<longrightarrow> c \<in> set roots)"
    (is "?open = full \<longleftrightarrow> ?closed_roots")
proof
  let ?R = "parent_rel (normalize_rows (JArr (unclosed_rows rows)))"
  assume eq: "?open = full"
  show ?closed_roots
  proof (intro ballI allI impI)
    fix r c assume r: "r \<in> set rows" "row_id r = Some c" "row_closed r" "c \<in> full"
    then obtain x where x: "x \<in> set roots" "(x, c) \<in> ?R\<^sup>*" using eq by (auto simp: subtree_def)
    from x(2) show "c \<in> set roots"
    proof (cases rule: rtranclE)
      case (step y)
      then obtain r' where "r' \<in> set rows" "row_id r' = Some c" "\<not> row_closed r'"
        by (auto simp: parent_rel_unclosed_rows [OF assms(1)])
      with r row_id_unique [OF assms(1) r(1), of r'] show ?thesis by simp
    qed (use x(1) in simp)
  qed
next
  assume roots: ?closed_roots
  let ?P = "parent_rel (normalize_rows (JArr rows))"
  have "c \<in> ?open" if "(x, c) \<in> ?P\<^sup>*" "x \<in> set roots" for x c
    using that
  proof (induction rule: rtrancl_induct)
    case base
    then show ?case using assms(2) by (auto simp: subtree_def intro!: ImageI [OF rtrancl_refl])
  next
    case (step y z)
    then obtain r where r: "y \<noteq> []" "r \<in> set rows" "row_id r = Some z" "parentIdOf r = Some y"
      using assms(1) by (auto simp: parent_rel_rows rows_ok_iff)
    show ?case
    proof (cases "row_closed r")
      case True
      have "z \<in> full" unfolding full_def subtree_def using step assms(2) by (auto intro: rtrancl_into_rtrancl)
      with True r roots have "z \<in> set roots" by blast
      then show ?thesis using assms(2) by (auto simp: subtree_def intro!: ImageI [OF rtrancl_refl])
    next
      case False
      with r have "(y, z) \<in> parent_rel (normalize_rows (JArr (unclosed_rows rows)))" by (auto simp: parent_rel_unclosed_rows [OF assms(1)])
      with step show ?thesis by (auto simp: subtree_def intro: rtrancl_into_rtrancl)
    qed
  qed
  then have "full \<subseteq> ?open" by (auto simp: full_def subtree_def)
  with open_subtree_le [OF assms(1)] show "?open = full" by (auto simp: full_def)
qed

text \<open>
  Property C31. The per-node walk against the bulk listing, on a tracker whose \<^verbatim>\<open>bd list\<close> prints what it documents and
  whose rows have well-formed ids, no id twice: for well-formed roots both ways return. The walk, whose single-bead
  listings hide closed beads, returns without repetition exactly the beads reached from the roots through open beads; that
  is always a part of what the bulk listing's expansion returns, and it is the whole of it exactly if every closed bead of
  that expansion is itself a root. A closed bead in between thus hides its open subtree from the walk and not from the bulk
  listing.
\<close>

theorem walk_against_bulk:
  assumes "lists_tracker bd parse rows" "rows_ok rows" "\<forall>r\<in>set roots. issue_id r"
  shows "\<exists>walk bulk. expandScopeStandalone (Some (bdListChildren bd parse)) (bdListAllBeadsWithClosed bd parse) roots = Some (Inr walk) \<and>
    expandScopeStandalone None (bdListAllBeadsWithClosed bd parse) roots = Some (Inr bulk) \<and> distinct walk \<and> distinct bulk \<and>
    set walk = subtree (normalize_rows (JArr (unclosed_rows rows))) roots \<and> set bulk = subtree (normalize_rows (JArr rows)) roots \<and>
    set walk \<subseteq> set bulk \<and>
    (set walk = set bulk \<longleftrightarrow>
       (\<forall>r\<in>set rows. \<forall>c. row_id r = Some c \<longrightarrow> row_closed r \<longrightarrow> c \<in> set bulk \<longrightarrow> c \<in> set roots))"
proof -
  obtain walk where walk: "expandScope roots (bdListChildren bd parse) = Some (Inr walk)" "distinct walk"
    "set walk = subtree (normalize_rows (JArr (unclosed_rows rows))) roots" using walk_open_subtree [OF assms] by blast
  let ?bulk = "expandScopeInMemory roots (buildChildIndex (normalize_rows (JArr rows)))"
  have bulk: "set ?bulk = subtree (normalize_rows (JArr rows)) roots" by (rule expandScope_subtree)
  have "[] \<notin> set roots" using assms(3) by (auto simp: issue_id_def)
  note iff = open_subtree_eq [OF assms(2) this]
  show ?thesis
    by (rule exI [of _ walk], rule exI [of _ ?bulk])
      (simp add: expandScopeStandalone_def walk bulk bdListAll_rows [OF assms(1,2)] expandScope_distinct
        open_subtree_le [OF assms(2)] iff)
qed

text \<open>A closed bead between the root and an open one: the walk stops at the root.\<close>

definition demo_walk_rows :: "jsval list" where
  "demo_walk_rows = [JObj [(''id'', JStr ''e'')], JObj [(''id'', JStr ''e.1''), (''parent'', JStr ''e''), (''status'', JStr ''closed'')],
     JObj [(''id'', JStr ''e.1.1''), (''parent'', JStr ''e.1'')]]"

text \<open>A tracker that prints the name of its query, and the rows such a name stands for.\<close>

definition demo_bd :: "string list \<Rightarrow> string res" where
  "demo_bd args = Inr (if args ! 1 = ''--all'' then ''a'' else ''p'' @ args ! 2)"

definition demo_parse :: "string \<Rightarrow> jsval option" where
  "demo_parse out = Some (JArr (if out = ''a'' then demo_walk_rows
     else filter (\<lambda>r. parentIdOf r = Some (tl out) \<and> \<not> row_closed r) demo_walk_rows))"

theorem walk_against_bulk_witness:
  "\<exists>walk bulk. expandScopeStandalone (Some (bdListChildren demo_bd demo_parse)) (bdListAllBeadsWithClosed demo_bd demo_parse) [''e'']
      = Some (Inr walk) \<and>
    expandScopeStandalone None (bdListAllBeadsWithClosed demo_bd demo_parse) [''e''] = Some (Inr bulk) \<and>
    bulk = [''e'', ''e.1'', ''e.1.1''] \<and> set walk \<noteq> set bulk"
proof -
  have bd: "lists_tracker demo_bd demo_parse demo_walk_rows"
  proof -
    have "prints demo_bd demo_parse [''list'', ''--all'', ''--limit'', ''0'', ''--json''] demo_walk_rows"
      by (simp add: prints_def demo_bd_def demo_parse_def js_trim_def js_space_def)
    moreover have "prints demo_bd demo_parse [''list'', ''--parent'', p, ''--json'', ''--limit'', ''0'']
        (filter (\<lambda>r. parentIdOf r = Some p \<and> \<not> row_closed r) demo_walk_rows)" if "issue_id p" for p
      by (simp add: prints_def demo_bd_def demo_parse_def js_trim_def js_space_def)
    moreover have "set (filter (\<lambda>r. parentIdOf r = Some p \<and> \<not> row_closed r) demo_walk_rows) =
        {r \<in> set demo_walk_rows. parentIdOf r = Some p \<and> \<not> row_closed r}" for p by (simp only: set_filter)
    ultimately show ?thesis unfolding lists_tracker_def by blast
  qed
  have ok: "rows_ok demo_walk_rows" by code_simp
  have "\<forall>r\<in>set [''e'']. issue_id r" by code_simp
  then obtain walk bulk where w: "expandScopeStandalone (Some (bdListChildren demo_bd demo_parse))
      (bdListAllBeadsWithClosed demo_bd demo_parse) [''e''] = Some (Inr walk)"
    "expandScopeStandalone None (bdListAllBeadsWithClosed demo_bd demo_parse) [''e''] = Some (Inr bulk)"
    "set walk = set bulk \<longleftrightarrow>
       (\<forall>r\<in>set demo_walk_rows. \<forall>c. row_id r = Some c \<longrightarrow> row_closed r \<longrightarrow> c \<in> set bulk \<longrightarrow> c \<in> set [''e''])"
    using walk_against_bulk [OF bd ok] by blast
  have "expandScopeStandalone None (bdListAllBeadsWithClosed demo_bd demo_parse) [''e''] = Some (Inr [''e'', ''e.1'', ''e.1.1''])"
    by code_simp
  with w(2) have bulk: "bulk = [''e'', ''e.1'', ''e.1.1'']" by simp
  have "demo_walk_rows ! 1 \<in> set demo_walk_rows" "row_id (demo_walk_rows ! 1) = Some ''e.1''" "row_closed (demo_walk_rows ! 1)" by code_simp+
  with w(3) bulk have "set walk \<noteq> set bulk" by fastforce
  with w(1,2) bulk show ?thesis by blast
qed

end
