(* ===== verification/Spec2Isabelle.thy ===== *)
theory Spec2Isabelle
  imports Supervisor Backlog Readopt Dolt_Mutex Id_Allocator Worklists Usage_Limit Runner_Scope Set_Aside
    Beads_Snapshot Member_Reservation Ticketed_Mutex Workflow_Journal Vcs_Exec Sprint_Lock Scope_Walk
begin

text \<open>
  \<^bold>\<open>The program.\<close> Apra Fleet runs software sprints on a fleet of members (machines with a coding agent). A long-lived
  supervisor (\<^verbatim>\<open>packages/apra-fleet-se/bin/serve.mjs\<close> and \<^verbatim>\<open>packages/apra-fleet-se/src/supervisor\<close>) accepts launch
  requests, starts one child process per sprint, and keeps apart what two sprints may not share: a member works for one
  sprint, a bead (an issue of the tracker) and everything below it belongs to one sprint, one sprint at a time pushes
  the shared Dolt database, and two sprints never create a child issue with the same id. It survives restarts of its
  own, crashes of its children and failing disks. The child is the sprint runner
  (\<^verbatim>\<open>packages/apra-fleet-se/fleet-sprint\<close>), which in rounds picks the ready beads, groups them into streaks and gives
  every doer an ordered worklist. This development models that supervisor, the argument contract of the child and the
  pure decisions of its rounds, and proves what keeps the sprints apart and what the rounds may rely on. The fleet server
  (\<^verbatim>\<open>src\<close>) runs the commands of the sprints on the members; of it the reservations, the ticketed mutex and the way secrets get into
  commands and out of their output are modelled.

  \<^bold>\<open>Theories, in the order of their imports.\<close>

  \<^descr> \<open>JS_Prelude\<close>: JavaScript values, errors as a sum, truthiness and coercions, strings, the insertion-ordered map
    with its store interface (locale \<open>keyed_store\<close>) and the interface of a component driven by operations
    (locale \<open>op_machine\<close>: what the start satisfies and every operation keeps holds after every sequence of operations).
  \<^descr> \<open>Atomic_File\<close>: \<^verbatim>\<open>rename-with-retry.mjs\<close> and the temporary-file-and-rename step of the three state files. The
    outcome of every file-system call is a parameter; the lemmas say that a failed step leaves the real file alone.
  \<^descr> \<open>Ledger\<close>: \<^verbatim>\<open>ledger.mjs\<close>. The state of \<^verbatim>\<open>createLedger\<close> is the record \<open>ledger\<close>; \<^verbatim>\<open>claim\<close>, \<^verbatim>\<open>release\<close>,
    \<^verbatim>\<open>setChildPid\<close>, \<^verbatim>\<open>recordExit\<close>, \<^verbatim>\<open>setScopeFreshness\<close>, \<^verbatim>\<open>load\<close> and the readers are functions on it. Callers that do not
    wait for each other are the step relation \<open>ledger_step\<close> over a queue of transactions. The fleet server is the trace
    of the calls it receives. Shown: the file reloads to what is held under every interleaving and every disk failure;
    a claim is all or nothing; the server's view follows the ledger. The locale \<open>releasable_ledger\<close> is what the
    reconciler and the watchdog rely on.
  \<^descr> \<open>History\<close>: \<^verbatim>\<open>history.mjs\<close>, the append-only event log (locale \<open>event_log\<close>) and its queries.
  \<^descr> \<open>Scope\<close>: \<^verbatim>\<open>scope-overlap.mjs\<close> and the bead normalisation and in-memory expansion of \<^verbatim>\<open>backlog.mjs\<close>. The
    breadth-first loop is a terminating function (its measure counts the ids not yet seen); the subprocess walk, whose
    lister nothing bounds, may not return. The guard is exact.
  \<^descr> \<open>Scope_Walk\<close>: the two listings of \<^verbatim>\<open>scope-overlap.mjs\<close> over \<^verbatim>\<open>lib/exec-bd.mjs\<close>, with the tracker's program as a parameter.
    On a tracker that lists what it documents the walk returns, and what it finds is compared with the bulk listing: it
    misses exactly what lies behind closed beads.
  \<^descr> \<open>Lease\<close>, \<open>Dolt_Mutex\<close>: \<^verbatim>\<open>dolt-mutex.mjs\<close>, the first-come mutex with leases and a crash guard, and its HTTP routes with
    connections that may close at any await. Clock readings and the liveness probe are arbitrary functions.
  \<^descr> \<open>Id_Allocator\<close>: \<^verbatim>\<open>id-allocator.mjs\<close>, numbering of child issues with reservations, confirmations, reclaim, the
    serialised writes and restarts.
  \<^descr> \<open>Reconcile\<close>, \<open>Readopt\<close>: \<^verbatim>\<open>reconcile.mjs\<close>, \<^verbatim>\<open>readopt.mjs\<close>, \<^verbatim>\<open>sprint-identity.mjs\<close>, \<^verbatim>\<open>child-port.mjs\<close>: what a restarted
    supervisor does with the reservations it finds, force-release, and finding a live child's port again.
  \<^descr> \<open>Spawner\<close>: \<^verbatim>\<open>spawner.mjs\<close>: ports, argument vector, log path, live table.
  \<^descr> \<open>Watchdog\<close>: \<^verbatim>\<open>watchdog.mjs\<close>: classification of every sprint, release of the dead ones, one report each.
  \<^descr> \<open>Sprint_Args\<close>: \<^verbatim>\<open>fleet-sprint/sprint-args.mjs\<close>, \<^verbatim>\<open>fleet-sprint/backlog-role.mjs\<close> and the role map of \<^verbatim>\<open>bin/cli.mjs\<close>.
  \<^descr> \<open>Launch\<close>, \<open>Launch_Correct\<close>: \<^verbatim>\<open>api.mjs\<close> and \<^verbatim>\<open>composeBeforeLaunch\<close>. A launch is \<open>launch_check\<close> (validation, role map,
    backlog pin, relaunch gate, guards) followed by \<open>launch_commit\<close> (spawn, then claim); \<open>launch\<close> is the two with nothing
    in between, and the races are stated on the two halves.
  \<^descr> \<open>Backlog\<close>: the rest of \<^verbatim>\<open>backlog.mjs\<close>. The recursion of \<^verbatim>\<open>buildNode\<close> has fuel equal to the number of beads: a
    deeper branch repeats a bead, so the program itself would not return; without such a cycle it is proved to return.
  \<^descr> \<open>Supervisor\<close>: the components together, and the abstract lease table that they refine.
  \<^descr> \<open>Graph_Walk\<close>: the breadth-first loop of the runner over an index, with its set of reached nodes.
  \<^descr> \<open>Beads_Scope\<close>: the pure functions of \<^verbatim>\<open>fleet-sprint/beads-scope.mjs\<close>: scope discovery, the verify set, prerequisites by
    blocks edges and lane order, dependents of blocked beads, and dispatch by goal. Each search terminates on every
    graph, and its result is characterised by reachability.
  \<^descr> \<open>Runner_Scope\<close>: the scope the runner works on lies inside the scope the supervisor guards.
  \<^descr> \<open>Beads_Snapshot\<close>: \<^verbatim>\<open>createBeadsScope\<close>, the shared snapshot with a request that is away and commands that reject, as a machine driven by events.
  \<^descr> \<open>Set_Aside\<close>: \<^verbatim>\<open>fleet-sprint/set-aside.mjs\<close>: beads set aside, stuck or waiting. The loop computes a least fixpoint (an
    inductive predicate); the stall it leads to is compared with what can still close, a step relation.
  \<^descr> \<open>Worklists\<close>: \<^verbatim>\<open>fleet-sprint/worklists.mjs\<close> with \<^verbatim>\<open>normalizeTierToken\<close>: streaks from an agent's answer or
    from lane metadata, the lane-order fixpoint (a terminating function whose result is the largest closed set), and
    the packing of streaks into worklists by dependency, priority, tier and effort.
  \<^descr> \<open>Usage_Limit\<close>: \<^verbatim>\<open>fleet-sprint/usage-limit-controller.mjs\<close>: the pause, wait, resume and probe loop and its bounds. The
    loop ends because every round that goes on counts a reprobe.
  \<^descr> \<open>Member_Reservation\<close>: \<^verbatim>\<open>src/tools/member-reservation.ts\<close> with the registry, the check of \<^verbatim>\<open>execute-prompt.ts\<close> and the sprint's
    client in \<^verbatim>\<open>fleet-sprint/coordination.mjs\<close>. Calls of other sprints run between the calls of a launch or a resume, and
    its own calls or their answers may be lost; what a launch owns afterwards is stated for the calls that were answered.
  \<^descr> \<open>Ticketed_Mutex\<close>: \<^verbatim>\<open>src/services/sprint-coordination.ts\<close>, \<^verbatim>\<open>src/tools/dolt-push-mutex.ts\<close> and the polling client: tickets over the
    mutex of \<open>Dolt_Mutex\<close>. The poll loop has fuel; a theorem says that it returns once the clock reaches the deadline.
  \<^descr> \<open>Workflow_Journal\<close>: \<^verbatim>\<open>parallel()\<close>, \<^verbatim>\<open>agent()\<close> and \<^verbatim>\<open>command()\<close> of \<^verbatim>\<open>packages/apra-fleet-workflow/src/workflow/index.mjs\<close> and
    \<^verbatim>\<open>journal.mjs\<close>. A script is a tree with continuations, a run a tree of threads with a schedule; given the answers to its
    calls a script has one meaning (\<open>den\<close>), and every run, recorded, crashed or resumed, is compared with it.
  \<^descr> \<open>Sprint_Lock\<close>: \<^verbatim>\<open>fleet-sprint/sprint-lock.mjs\<close>: processes that interleave at every call of the file system. Calls that do not overlap
    exclude each other; two schedules of overlapping calls end with two holders.
  \<^descr> \<open>Shell_Quote\<close>: \<^verbatim>\<open>src/utils/shell-escape.ts\<close>, on UTF-16 code units. What a quoted text means is given by readers: the quote
    removal of a POSIX shell, the literals of PowerShell, the splitting of a Windows command line, batch files and patterns.
  \<^descr> \<open>Placeholders\<close>: \<^verbatim>\<open>replaceAll\<close> with its dollar patterns, commands as texts and placeholders, the interface of a family of placeholders
    (locale \<open>placeholder_family\<close>, interpreted for secret tokens and for the placeholders of a member's credential), and the reading that
    a command is meant to have (\<open>meant\<close>).
  \<^descr> \<open>Credential_Store\<close>: \<^verbatim>\<open>src/services/credential-store.ts\<close>: session and persistent tier, audiences, expiry, the file. Ciphers are
    parameters with the law that decrypting gives back what was encrypted where a theorem needs it.
  \<^descr> \<open>Secret_Tokens\<close>: \<^verbatim>\<open>src/services/secret-token.ts\<close> and the resolution and redaction of \<^verbatim>\<open>src/tools/execute-command.ts\<close>: a resolved command is
    read with the secret in the place of the token, for tokens outside quotes and secrets whose dollar signs mean nothing to the
    replacement; what becomes of the others is shown too.
  \<^descr> \<open>Vcs_Exec\<close>: \<^verbatim>\<open>src/tools/vcs-credential-exec.ts\<close> and the credential helper of \<^verbatim>\<open>src/os\<close>: how far a call goes, what it runs and what it
    returns, and that the helper gives back the token it was written with.

  \<^bold>\<open>Readings.\<close> An \<^verbatim>\<open>await\<close> between two reads of shared state is modelled where a theorem depends on it (the ledger's
  queue, the mutex routes, the allocator's writes, the two halves of a launch); other asynchronous functions are run to
  their end. The sprints of one watchdog pass are classified one after the other. Messages of errors are kept where
  another function reads them and abbreviated elsewhere. Integers of the source are JavaScript numbers used far below
  the bound of exact integers, so they are \<open>int\<close> and \<open>nat\<close>; a number that is not an integer is kept apart as one.

  \<^bold>\<open>Parameters.\<close> The file system, \<^verbatim>\<open>process.kill\<close>, the process table, sockets, clocks, random identifiers, SHA-256, the
  tracker's listing and the fleet server's answers are arguments of the definitions that use them.

  \<^bold>\<open>Not modelled.\<close> The HTTP server, the reverse proxy and every HTML page (\<^verbatim>\<open>server.mjs\<close>, \<^verbatim>\<open>proxy.mjs\<close>, \<^verbatim>\<open>dashboard.mjs\<close>,
  \<^verbatim>\<open>history-view.mjs\<close>, \<^verbatim>\<open>log-view.mjs\<close>, \<^verbatim>\<open>launch-form.mjs\<close>), which move bytes and text; \<^verbatim>\<open>beads-view.mjs\<close> and
  \<^verbatim>\<open>backlog-member.mjs\<close>, whose answers the launch takes as parameters; the rest of the sprint runner
  (\<^verbatim>\<open>fleet-sprint/runner.js\<close>, its phases and synchronisation), the budgets, pause gate, cancellation and worker of the workflow
  engine, and the rest of the TypeScript fleet server (transports,
  providers, installers, the knowledge store, the other tools and the other commands of \<^verbatim>\<open>src/os\<close>), which orchestrate agents and remote shells; \<^verbatim>\<open>partitionByGoalMembership\<close> of \<^verbatim>\<open>beads-scope.mjs\<close>, which only places rows in the
  viewer; \<^verbatim>\<open>hasContextHeadroomForResume\<close> of \<^verbatim>\<open>worklists.mjs\<close>, a product of floating-point
  numbers.
\<close>

end
